(* ===== verification/Prelude.thy ===== *)
theory Prelude
  imports Main "HOL-Library.AList"
begin

text \<open>
  Shared vocabulary of the development: the error values of the Go packages under
  \<^verbatim>\<open>src/internal\<close>, the result type of a fallible Go function and its sequencing, the decimal
  text of numbers (\<^verbatim>\<open>strconv\<close>), the model's basic types (times, ids, strings), and generic
  lemmas on association lists, on tables kept as lists of rows and on integer sums over them.
\<close>

section \<open>Errors and results\<close>

text \<open>
  One constructor per sentinel error that a caller can test with \<^verbatim>\<open>errors.Is\<close>
  (\<^verbatim>\<open>var Err... = errors.New(...)\<close> in \<^verbatim>\<open>internal/modules/ledger/types.go\<close>,
  \<^verbatim>\<open>engine.go\<close>, \<^verbatim>\<open>internal/money\<close> and \<^verbatim>\<open>internal/kernel/db/tx.go\<close>). The text that
  \<^verbatim>\<open>fmt.Errorf("%w: ...")\<close> adds is not kept. \<open>ErrConstraint c\<close> is a PostgreSQL error of the
  constraint \<open>c\<close>, \<open>ErrInternal\<close> an error with no sentinel and \<open>ErrPanic\<close> a run-time panic
  (an index out of range or a nil pointer).
\<close>

datatype err =
    ErrNotFound | ErrAccountExists | ErrAccountNotOpen | ErrAccountNotEmpty
  | ErrCurrencyExists | ErrUnknownCurrency | ErrUnknownLedger | ErrCrossLedger
  | ErrNotPending | ErrNotPosted | ErrExternalIDExists | ErrBalanceLock | ErrLockVersion
  | ErrCategoryCycle | ErrCategoryDepth | ErrCategoryMismatch | ErrInvalid | ErrUnbalanced
  | ErrInsufficientFunds | ErrIdempotencyConflict | ErrAlreadyReversed | ErrHoldNotPending
  | ErrScheduleNotPending | ErrBatchAborted | ErrStopped | ErrPeriodClosed
  | ErrAborted | ErrOverflow | ErrInvalidAmount | ErrInvalidCurrency | ErrRetry
  | ErrConstraint string | ErrInternal string | ErrPanic

type_synonym 'a res = "err + 'a"

text \<open>\<^verbatim>\<open>x, err := m; if err != nil { return err }; f(x)\<close>\<close>

fun bindR :: "'a res \<Rightarrow> ('a \<Rightarrow> 'b res) \<Rightarrow> 'b res" where
  "bindR (Inl e) f = Inl e"
| "bindR (Inr x) f = f x"

lemma bindR_Inr_iff [simp]: "bindR m f = Inr y \<longleftrightarrow> (\<exists>x. m = Inr x \<and> f x = Inr y)"
  by (cases m) auto

lemma bindR_Inl_iff:
  "bindR m f = Inl e \<longleftrightarrow> m = Inl e \<or> (\<exists>x. m = Inr x \<and> f x = Inl e)"
  by (cases m) auto

lemma bindR_cong [fundef_cong]:
  "m = m' \<Longrightarrow> (\<And>x. m' = Inr x \<Longrightarrow> f x = f' x) \<Longrightarrow> bindR m f = bindR m' f'"
  by (cases m') auto

text \<open>\<^verbatim>\<open>if err := check; err != nil { return err }\<close> for a check without a value.\<close>

abbreviation ok :: "unit res" where
  "ok \<equiv> Inr ()"

lemma if_Inl_eq_Inr [simp]: "(if b then Inl e else m) = Inr y \<longleftrightarrow> \<not> b \<and> m = Inr y"
  by simp

section \<open>Basic types\<close>

text \<open>
  A \<^verbatim>\<open>time.Time\<close> is its distance in nanoseconds from Go's zero time (the year 1), so that
  \<^verbatim>\<open>t.IsZero()\<close> is \<open>t = 0\<close>. A \<^verbatim>\<open>uuid.UUID\<close> is its 128 bits read as a number (\<^verbatim>\<open>uuid.Nil\<close>
  is 0), which orders ids as PostgreSQL does. A Go \<^verbatim>\<open>string\<close> is its list of bytes.
\<close>

type_synonym gotime = int
type_synonym uuid = nat

definition truncate_us :: "gotime \<Rightarrow> gotime" where
  "truncate_us t = t - t mod 1000"

lemma truncate_us_idem [simp]: "truncate_us (truncate_us t) = truncate_us t"
proof -
  have "(t - t mod 1000) mod 1000 = 0"
    by (simp add: mod_diff_eq)
  then show ?thesis by (simp add: truncate_us_def)
qed

section \<open>Association lists\<close>

text \<open>
  Go maps whose iteration matters are association lists: \<^const>\<open>AList.update\<close> is the assignment
  \<^verbatim>\<open>m[k] = v\<close>, \<^const>\<open>map_of\<close> the lookup; a lookup of a missing key yields the zero value.
\<close>

fun or_zero :: "'a \<Rightarrow> 'a option \<Rightarrow> 'a" where
  "or_zero z None = z"
| "or_zero z (Some x) = x"

lemma map_of_update [simp]:
  "map_of (AList.update k v al) = (map_of al)(k \<mapsto> v)"
  by (rule update_conv')

lemma distinct_keys_update [simp]:
  "distinct (map fst al) \<Longrightarrow> distinct (map fst (AList.update k v al))"
  by (rule distinct_update)

lemma fst_set_update: "fst ` set (AList.update k v al) = insert k (fst ` set al)"
  by (metis dom_map_of_conv_image_fst dom_fun_upd map_of_update option.distinct(1))

lemma map_of_in_set: "map_of al k = Some v \<Longrightarrow> (k, v) \<in> set al"
  by (rule map_of_SomeD)

lemma set_map_of: "distinct (map fst al) \<Longrightarrow> (k, v) \<in> set al \<Longrightarrow> map_of al k = Some v"
  by simp

section \<open>Tables\<close>

text \<open>
  A database table is the list of its rows. \<open>row_by key rows k\<close> is a \<^verbatim>\<open>SELECT ... WHERE key = k\<close>
  on a unique key, \<open>update_rows p f rows\<close> is \<^verbatim>\<open>UPDATE ... SET f WHERE p\<close>.
\<close>

definition row_by :: "('r \<Rightarrow> 'k) \<Rightarrow> 'r list \<Rightarrow> 'k \<Rightarrow> 'r option" where
  "row_by key rows k = find (\<lambda>r. key r = k) rows"

definition update_rows :: "('r \<Rightarrow> bool) \<Rightarrow> ('r \<Rightarrow> 'r) \<Rightarrow> 'r list \<Rightarrow> 'r list" where
  "update_rows p f rows = map (\<lambda>r. if p r then f r else r) rows"

lemma row_by_Nil [simp]: "row_by key [] k = None"
  by (simp add: row_by_def)

lemma row_by_Cons [simp]:
  "row_by key (r # rs) k = (if key r = k then Some r else row_by key rs k)"
  by (simp add: row_by_def)

lemma row_by_append:
  "row_by key (rs @ ss) k = (case row_by key rs k of None \<Rightarrow> row_by key ss k | Some r \<Rightarrow> Some r)"
  by (induction rs) auto

lemma row_by_SomeD: "row_by key rs k = Some r \<Longrightarrow> r \<in> set rs \<and> key r = k"
  by (induction rs) (auto split: if_splits)

lemma row_by_None_iff: "row_by key rs k = None \<longleftrightarrow> k \<notin> key ` set rs"
  by (induction rs) auto

lemma distinct_filter_one: "distinct (map f xs) \<Longrightarrow> x \<in> set xs \<Longrightarrow> filter (\<lambda>y. f y = f x) xs = [x]"
  by (induction xs) (auto simp: filter_empty_conv image_iff)

lemma row_by_in_set:
  "distinct (map key rs) \<Longrightarrow> r \<in> set rs \<Longrightarrow> row_by key rs (key r) = Some r"
  by (induction rs) (auto simp: image_iff)

lemma row_by_eq_Some_iff:
  "distinct (map key rs) \<Longrightarrow> row_by key rs k = Some r \<longleftrightarrow> r \<in> set rs \<and> key r = k"
  using row_by_SomeD row_by_in_set by fastforce

lemma update_rows_Nil [simp]: "update_rows p f [] = []"
  by (simp add: update_rows_def)

lemma update_rows_Cons [simp]:
  "update_rows p f (r # rs) = (if p r then f r else r) # update_rows p f rs"
  by (simp add: update_rows_def)

lemma length_update_rows [simp]: "length (update_rows p f rs) = length rs"
  by (simp add: update_rows_def)

lemma map_key_update_rows:
  "(\<And>r. p r \<Longrightarrow> key (f r) = key r) \<Longrightarrow> map key (update_rows p f rs) = map key rs"
  by (induction rs) auto

lemma set_update_rows:
  "set (update_rows p f rs) = (\<lambda>r. if p r then f r else r) ` set rs"
  by (simp add: update_rows_def)

lemma row_by_update_rows:
  assumes "\<And>r. p r \<Longrightarrow> key (f r) = key r"
  shows "row_by key (update_rows p f rs) k =
    map_option (\<lambda>r. if p r then f r else r) (row_by key rs k)"
  using assms by (induction rs) auto

section \<open>Integer sums over lists\<close>

definition sum_over :: "('r \<Rightarrow> bool) \<Rightarrow> ('r \<Rightarrow> int) \<Rightarrow> 'r list \<Rightarrow> int" where
  "sum_over p f rs = (\<Sum>r\<leftarrow>rs. if p r then f r else 0)"

lemma sum_over_Nil [simp]: "sum_over p f [] = 0"
  by (simp add: sum_over_def)

lemma sum_over_Cons [simp]:
  "sum_over p f (r # rs) = (if p r then f r else 0) + sum_over p f rs"
  by (simp add: sum_over_def)

lemma sum_over_append [simp]: "sum_over p f (rs @ ss) = sum_over p f rs + sum_over p f ss"
  by (induction rs) auto

lemma sum_over_cong:
  "(\<And>r. r \<in> set rs \<Longrightarrow> p r = q r) \<Longrightarrow> (\<And>r. r \<in> set rs \<Longrightarrow> q r \<Longrightarrow> f r = g r) \<Longrightarrow>
    sum_over p f rs = sum_over q g rs"
  by (induction rs) auto

lemma sum_over_none: "(\<And>r. r \<in> set rs \<Longrightarrow> \<not> p r) \<Longrightarrow> sum_over p f rs = 0"
  by (induction rs) auto

lemma sum_over_nonneg:
  "(\<And>r. r \<in> set rs \<Longrightarrow> p r \<Longrightarrow> 0 \<le> f r) \<Longrightarrow> 0 \<le> sum_over p f rs"
  by (induction rs) (auto simp: add_nonneg_nonneg)

lemma sum_over_map: "sum_over p f (map g rs) = sum_over (\<lambda>r. p (g r)) (\<lambda>r. f (g r)) rs"
  by (induction rs) auto

lemma sum_over_filter: "sum_over p f (filter q rs) = sum_over (\<lambda>r. q r \<and> p r) f rs"
  by (induction rs) auto

end
