(* ===== verification/Amount.thy ===== *)
theory Amount
  imports Prelude "HOL-Library.Word"
begin

text \<open>
  \<^verbatim>\<open>internal/money/amount.go\<close> and \<^verbatim>\<open>internal/money/money.go\<close>: a signed 128-bit amount kept in
  two 64-bit halves, its checked arithmetic, its decimal text and its database value, and the
  syntax of a currency code. \<open>aval\<close> reads an amount as the integer it stands for; every operation
  is specified over \<open>aval\<close>. The functions of \<^verbatim>\<open>math/bits\<close> and \<^verbatim>\<open>strconv\<close> that the file calls
  are written out on \<^typ>\<open>64 word\<close> and \<^typ>\<open>string\<close>.
\<close>

unbundle bit_operations_syntax

type_synonym u64 = "64 word"

record amount =
  hi :: u64
  lo :: u64

definition aval :: "amount \<Rightarrow> int" where
  "aval a = sint (hi a) * 2 ^ 64 + uint (lo a)"

section \<open>The standard library's word arithmetic\<close>

definition add64 :: "u64 \<Rightarrow> u64 \<Rightarrow> u64 \<Rightarrow> u64 \<times> u64" where
  "add64 x y carry = (x + y + carry, if 2 ^ 64 \<le> uint x + uint y + uint carry then 1 else 0)"

definition sub64 :: "u64 \<Rightarrow> u64 \<Rightarrow> u64 \<Rightarrow> u64 \<times> u64" where
  "sub64 x y borrow = (x - y - borrow, if uint x < uint y + uint borrow then 1 else 0)"

definition mul64 :: "u64 \<Rightarrow> u64 \<Rightarrow> u64 \<times> u64" where
  "mul64 x y = (word_of_int (uint x * uint y div 2 ^ 64), word_of_int (uint x * uint y))"

text \<open>\<^verbatim>\<open>bits.Div64\<close> panics when the divisor is zero or the quotient would not fit.\<close>

definition div64 :: "u64 \<Rightarrow> u64 \<Rightarrow> u64 \<Rightarrow> (u64 \<times> u64) res" where
  "div64 h l y =
     (if y = 0 \<or> y \<le> h then Inl ErrPanic
      else let n = uint h * 2 ^ 64 + uint l
           in Inr (word_of_int (n div uint y), word_of_int (n mod uint y)))"

section \<open>Amounts\<close>

definition maxDigits :: nat where
  "maxDigits = 38"

definition pow19 :: u64 where
  "pow19 = 10000000000000000000"

definition maxAmount :: amount where
  "maxAmount =
     (let (h, l) = mul64 pow19 pow19;
          (l', borrow) = sub64 l 1 0
      in \<lparr>hi = h - borrow, lo = l'\<rparr>)"

definition zero_amount :: amount where
  "zero_amount = \<lparr>hi = 0, lo = 0\<rparr>"

definition newAmount :: "64 word \<Rightarrow> amount" where
  "newAmount n = \<lparr>hi = signed_drop_bit 63 n, lo = n\<rparr>"

definition amount_sign :: "amount \<Rightarrow> int" where
  "amount_sign a = (if sint (hi a) < 0 then - 1 else if hi a = 0 \<and> lo a = 0 then 0 else 1)"

definition amount_isZero :: "amount \<Rightarrow> bool" where
  "amount_isZero a \<longleftrightarrow> a = zero_amount"

definition amount_cmp :: "amount \<Rightarrow> amount \<Rightarrow> int" where
  "amount_cmp a b =
     (if sint (hi a) < sint (hi b) then - 1
      else if sint (hi a) > sint (hi b) then 1
      else if lo a < lo b then - 1
      else if lo a > lo b then 1
      else 0)"

definition amount_neg :: "amount \<Rightarrow> amount" where
  "amount_neg a =
     (let (l, borrow) = sub64 0 (lo a) 0;
          (h, _) = sub64 0 (hi a) borrow
      in \<lparr>hi = h, lo = l\<rparr>)"

definition amount_abs :: "amount \<Rightarrow> amount" where
  "amount_abs a = (if amount_sign a < 0 then amount_neg a else a)"

definition amount_checked :: "amount \<Rightarrow> amount \<Rightarrow> amount \<Rightarrow> amount res" where
  "amount_checked a b s =
     (let wrapped = amount_sign a = amount_sign b \<and> amount_sign a \<noteq> 0 \<and> amount_sign s \<noteq> amount_sign a
      in if wrapped \<or> amount_cmp (amount_abs s) maxAmount > 0 then Inl ErrOverflow else Inr s)"

definition amount_add :: "amount \<Rightarrow> amount \<Rightarrow> amount res" where
  "amount_add a b =
     (let (l, carry) = add64 (lo a) (lo b) 0;
          (h, _) = add64 (hi a) (hi b) carry
      in amount_checked a b \<lparr>hi = h, lo = l\<rparr>)"

definition amount_sub :: "amount \<Rightarrow> amount \<Rightarrow> amount res" where
  "amount_sub a b = amount_add a (amount_neg b)"

text \<open>\<^verbatim>\<open>sumAmounts\<close> of \<^verbatim>\<open>internal/modules/ledger/state.go\<close>.\<close>

fun sumAmounts_from :: "amount \<Rightarrow> amount list \<Rightarrow> amount res" where
  "sumAmounts_from acc [] = Inr acc"
| "sumAmounts_from acc (a # as) = bindR (amount_add acc a) (\<lambda>t. sumAmounts_from t as)"

definition sumAmounts :: "amount list \<Rightarrow> amount res" where
  "sumAmounts as = sumAmounts_from zero_amount as"

section \<open>Values\<close>

lemma aval_zero [simp]: "aval zero_amount = 0"
  by (simp add: aval_def zero_amount_def)

lemma sint_u64_range: "- (2 ^ 63) \<le> sint (w :: u64) \<and> sint w < 2 ^ 63"
  using sint_greater_eq [of w] sint_less [of w] by simp

lemma uint_u64_range: "0 \<le> uint (w :: u64) \<and> uint w < 2 ^ 64"
  using uint_bounded [of w] by simp

lemma halves_less:
  fixes h k l m M :: int
  assumes "h < k" "0 \<le> m" "l < M" "0 \<le> M"
  shows "h * M + l < k * M + m"
proof -
  have "(h + 1) * M \<le> k * M" using assms by (intro mult_right_mono) auto
  then show ?thesis using assms by (simp add: algebra_simps)
qed

lemma sint_inject: "sint v = sint w \<longleftrightarrow> v = w"
  by (auto intro: signed_word_eqI)

lemma aval_less_iff: "aval a < aval b \<longleftrightarrow> sint (hi a) < sint (hi b) \<or> hi a = hi b \<and> lo a < lo b"
proof (cases "sint (hi a)" "sint (hi b)" rule: linorder_cases)
  case less
  then have "aval a < aval b"
    unfolding aval_def by (rule halves_less) (use uint_u64_range in auto)
  then show ?thesis using less by simp
next
  case equal
  then show ?thesis by (simp add: aval_def word_less_def sint_inject)
next
  case greater
  then have "aval b < aval a"
    unfolding aval_def by (rule halves_less) (use uint_u64_range in auto)
  then show ?thesis using greater by auto
qed

lemma aval_range: "- (2 ^ 127) \<le> aval a \<and> aval a < 2 ^ 127"
proof -
  define l where "l = uint (lo a)"
  define h where "h = sint (hi a)"
  have "0 \<le> l" "l < 2 ^ 64" "- (2 ^ 63) \<le> h" "h < 2 ^ 63"
    using sint_u64_range [of "hi a"] uint_u64_range [of "lo a"] by (simp_all add: l_def h_def)
  then show ?thesis
    unfolding aval_def l_def [symmetric] h_def [symmetric] by simp
qed

lemma aval_inject: "aval a = aval b \<longleftrightarrow> a = b"
proof
  assume eq: "aval a = aval b"
  then have "\<not> aval a < aval b" "\<not> aval b < aval a" by simp_all
  then have "sint (hi a) = sint (hi b)" and "hi a = hi b \<longrightarrow> lo a = lo b"
    unfolding aval_less_iff by auto
  then show "a = b" by (simp add: sint_inject)
qed simp

lemma maxAmount_val: "aval maxAmount = 10 ^ 38 - 1"
  by (simp add: aval_def maxAmount_def mul64_def sub64_def pow19_def)

lemma amount_isZero_val: "amount_isZero a \<longleftrightarrow> aval a = 0"
  by (metis aval_zero aval_inject amount_isZero_def)

lemma amount_sign_val: "amount_sign a = sgn (aval a)"
proof -
  have "aval a < 0 \<longleftrightarrow> sint (hi a) < 0"
    using aval_less_iff [of a zero_amount] aval_zero by (simp add: zero_amount_def word_less_def)
  moreover have "aval a = 0 \<longleftrightarrow> hi a = 0 \<and> lo a = 0"
    using amount_isZero_val [of a] by (auto simp: amount_isZero_def zero_amount_def)
  ultimately show ?thesis unfolding amount_sign_def sgn_if by force
qed

lemma amount_cmp_val: "amount_cmp a b = sgn (aval a - aval b)"
proof (cases "aval a" "aval b" rule: linorder_cases)
  case less
  then show ?thesis
    using aval_less_iff [of a b] by (auto simp: amount_cmp_def)
next
  case equal
  then show ?thesis by (simp add: aval_inject amount_cmp_def)
next
  case greater
  then have "amount_cmp a b = 1"
    using aval_less_iff [of b a] by (auto simp: amount_cmp_def)
  then show ?thesis using greater by simp
qed

section \<open>Exactness of the arithmetic\<close>

text \<open>\<open>uval\<close> is the unsigned reading of the 128 bits; \<open>aval\<close> is its two's complement.\<close>

definition uval :: "amount \<Rightarrow> int" where
  "uval a = uint (hi a) * 2 ^ 64 + uint (lo a)"

lemma halves_mod:
  fixes x y M :: int
  assumes "0 \<le> y" "y < M"
  shows "(x mod M) * M + y = (x * M + y) mod (M * M)"
proof -
  have M: "0 < M" using assms by simp
  have "(x * M + y) div M = x" "(x * M + y) mod M = y"
    using assms M by (simp_all add: div_add1_eq)
  then show ?thesis
    using zmod_zmult2_eq [of M "x * M + y" M] M by (simp add: algebra_simps)
qed

lemma uval_aval: "uval a = aval a mod 2 ^ 128"
proof -
  have "uint (hi a) = sint (hi a) mod 2 ^ 64"
    by (simp add: uint_sint take_bit_eq_mod)
  then have "uval a = (sint (hi a) mod 2 ^ 64) * 2 ^ 64 + uint (lo a)"
    by (simp add: uval_def)
  also have "\<dots> = aval a mod (2 ^ 64 * 2 ^ 64)"
    unfolding aval_def using uint_u64_range [of "lo a"] by (intro halves_mod) auto
  finally show ?thesis by simp
qed

lemma aval_eqI:
  assumes "x mod 2 ^ 128 = uval a" "- (2 ^ 127) \<le> x" "x < 2 ^ 127"
  shows "aval a = x"
proof -
  have "aval a mod 2 ^ 128 = x mod 2 ^ 128" using assms(1) by (simp add: uval_aval)
  then obtain k where k: "aval a - x = k * 2 ^ 128"
    by (metis mod_eq_dvd_iff dvd_def mult.commute)
  have "- (2 ^ 128) < k * 2 ^ 128" "k * 2 ^ 128 < (2 ^ 128 :: int)"
    using aval_range [of a] assms(2,3) unfolding k [symmetric] by auto
  then have "k = 0" by simp
  with k show ?thesis by simp
qed

lemma uval_add:
  assumes "add64 (lo a) (lo b) 0 = (l, c)" "add64 (hi a) (hi b) c = (h, c')"
  shows "uval \<lparr>hi = h, lo = l\<rparr> = (uval a + uval b) mod 2 ^ 128"
proof -
  define s where "s = uint (lo a) + uint (lo b)"
  have s: "0 \<le> s" "s < 2 * 2 ^ 64"
    using uint_u64_range [of "lo a"] uint_u64_range [of "lo b"] by (simp_all add: s_def)
  have l: "uint l = s mod 2 ^ 64"
    using assms(1) by (auto simp: add64_def s_def uint_word_ariths)
  have c: "uint c = s div 2 ^ 64"
  proof (cases "s < 2 ^ 64")
    case True
    with s assms(1) show ?thesis by (auto simp: add64_def s_def)
  next
    case False
    with s have "s div 2 ^ 64 = 1" by (intro int_div_pos_eq [where r = "s - 2 ^ 64"]) auto
    with False assms(1) show ?thesis by (auto simp: add64_def s_def)
  qed
  have h: "uint h = (uint (hi a) + uint (hi b) + s div 2 ^ 64) mod 2 ^ 64"
    using assms(2) unfolding c [symmetric] by (auto simp: add64_def uint_word_ariths mod_simps)
  have "uval \<lparr>hi = h, lo = l\<rparr> =
      ((uint (hi a) + uint (hi b) + s div 2 ^ 64) * 2 ^ 64 + s mod 2 ^ 64) mod (2 ^ 64 * 2 ^ 64)"
    unfolding uval_def by (simp only: amount.simps h l) (rule halves_mod, simp_all)
  also have "(uint (hi a) + uint (hi b) + s div 2 ^ 64) * 2 ^ 64 + s mod 2 ^ 64 = uval a + uval b"
    using div_mult_mod_eq [of s "2 ^ 64"] by (simp add: uval_def s_def algebra_simps)
  finally show ?thesis by simp
qed

lemma uval_neg: "uval (amount_neg a) = (- uval a) mod 2 ^ 128"
proof -
  define l where "l = uint (lo a)"
  define b :: int where "b = (if 0 < l then 1 else 0)"
  have l: "0 \<le> l" "l < 2 ^ 64" using uint_u64_range [of "lo a"] by (simp_all add: l_def)
  have lo: "uint (- lo a) = b * 2 ^ 64 - l"
  proof -
    have "uint (- lo a) = (- l) mod 2 ^ 64" by (simp add: l_def uint_word_ariths)
    also have "\<dots> = b * 2 ^ 64 - l"
      using l by (auto simp: b_def zmod_zminus1_eq_if)
    finally show ?thesis .
  qed
  have neg: "amount_neg a = \<lparr>hi = - hi a - (if 0 < l then 1 else 0), lo = - lo a\<rparr>"
    by (simp add: amount_neg_def sub64_def l_def)
  have hi: "uint (- hi a - (if 0 < l then 1 else 0)) = (- uint (hi a) - b) mod 2 ^ 64"
    by (auto simp: b_def uint_word_ariths mod_simps)
  have "uval (amount_neg a) = ((- uint (hi a) - b) mod 2 ^ 64) * 2 ^ 64 + (b * 2 ^ 64 - l)"
    unfolding uval_def neg amount.simps hi lo ..
  also have "\<dots> = ((- uint (hi a) - b) * 2 ^ 64 + (b * 2 ^ 64 - l)) mod (2 ^ 64 * 2 ^ 64)"
    using l by (intro halves_mod) (auto simp: b_def)
  also have "(- uint (hi a) - b) * 2 ^ 64 + (b * 2 ^ 64 - l) = - uval a"
    by (simp add: uval_def l_def algebra_simps)
  finally show ?thesis by simp
qed

definition minAmount :: int where
  "minAmount = - (2 ^ 127)"

lemma aval_neg: "aval (amount_neg a) = (if aval a = minAmount then minAmount else - aval a)"
proof (rule aval_eqI)
  have "(- aval a) mod 2 ^ 128 = uval (amount_neg a)"
    unfolding uval_neg uval_aval [of a] by (rule mod_minus_eq [symmetric])
  moreover have "minAmount mod 2 ^ 128 = (- minAmount) mod 2 ^ 128"
    by (simp add: minAmount_def)
  ultimately show "(if aval a = minAmount then minAmount else - aval a) mod 2 ^ 128
      = uval (amount_neg a)"
    by auto
  show "- (2 ^ 127) \<le> (if aval a = minAmount then minAmount else - aval a)"
    and "(if aval a = minAmount then minAmount else - aval a) < 2 ^ 127"
    using aval_range [of a] by (auto simp: minAmount_def)
qed

lemma aval_abs: "aval (amount_abs a) = (if aval a = minAmount then minAmount else \<bar>aval a\<bar>)"
  by (auto simp: amount_abs_def amount_sign_val aval_neg sgn_if minAmount_def)

definition in_range :: "int \<Rightarrow> bool" where
  "in_range x \<longleftrightarrow> \<bar>x\<bar> \<le> 10 ^ 38 - 1"

text \<open>What \<^verbatim>\<open>checked\<close> lets through: the documented range, and also \<open>- (2 ^ 127)\<close>, whose
  absolute value is itself in two's complement and so is not above the maximum.\<close>

definition addable :: "int \<Rightarrow> bool" where
  "addable x \<longleftrightarrow> in_range x \<or> x = minAmount"

lemma sum_raw:
  assumes "add64 (lo a) (lo b) 0 = (l, c)" "add64 (hi a) (hi b) c = (h, c')"
    and "s = \<lparr>hi = h, lo = l\<rparr>"
  shows "uval s = (aval a + aval b) mod 2 ^ 128"
  using uval_add [OF assms(1,2)] assms(3) by (simp add: uval_aval mod_simps)

lemma checked_exact:
  assumes raw: "uval s = (aval a + aval b) mod 2 ^ 128"
  shows "amount_checked a b s =
    (if addable (aval a + aval b) then Inr s else Inl ErrOverflow)
    \<and> (addable (aval a + aval b) \<longrightarrow> aval s = aval a + aval b)"
proof (cases "- (2 ^ 127) \<le> aval a + aval b \<and> aval a + aval b < 2 ^ 127")
  case True
  then have s: "aval s = aval a + aval b" using raw by (intro aval_eqI) auto
  have "\<not> (amount_sign a = amount_sign b \<and> amount_sign a \<noteq> 0 \<and> amount_sign s \<noteq> amount_sign a)"
    unfolding amount_sign_val s by (auto simp: sgn_if split: if_splits)
  then have "amount_checked a b s =
      (if 10 ^ 38 - 1 < aval (amount_abs s) then Inl ErrOverflow else Inr s)"
    by (auto simp: amount_checked_def amount_cmp_val maxAmount_val sgn_if Let_def)
  then show ?thesis
    by (auto simp: aval_abs s addable_def in_range_def minAmount_def)
next
  case False
  have no: "\<not> addable (aval a + aval b)"
    using False by (auto simp: addable_def in_range_def minAmount_def)
  have "amount_sign a = amount_sign b \<and> amount_sign a \<noteq> 0 \<and> amount_sign s \<noteq> amount_sign a"
  proof (cases "2 ^ 127 \<le> aval a + aval b")
    case True
    have "aval s = aval a + aval b - 2 ^ 128"
      using True raw aval_range [of a] aval_range [of b] by (intro aval_eqI) auto
    then show ?thesis
      using True aval_range [of a] aval_range [of b] by (auto simp: amount_sign_val sgn_if)
  next
    case low: False
    have "aval s = aval a + aval b + 2 ^ 128"
      using low False raw aval_range [of a] aval_range [of b] by (intro aval_eqI) auto
    then show ?thesis
      using low False aval_range [of a] aval_range [of b] by (auto simp: amount_sign_val sgn_if)
  qed
  with no show ?thesis by (simp add: amount_checked_def)
qed

lemma amount_add_exact:
  "amount_add a b = (if addable (aval a + aval b) then
     Inr (THE s. aval s = aval a + aval b) else Inl ErrOverflow)"
proof -
  obtain l c where l: "add64 (lo a) (lo b) 0 = (l, c)" by fastforce
  obtain h c' where h: "add64 (hi a) (hi b) c = (h, c')" by fastforce
  let ?s = "\<lparr>hi = h, lo = l\<rparr>"
  have "amount_add a b = amount_checked a b ?s" by (simp add: amount_add_def l h)
  moreover note checked_exact [OF sum_raw [OF l h refl]]
  moreover have "aval ?s = x \<Longrightarrow> (THE s. aval s = x) = ?s" for x
    by (metis (mono_tags, lifting) aval_inject the_equality)
  ultimately show ?thesis by auto
qed

lemma amount_add_Inr:
  "amount_add a b = Inr s \<longleftrightarrow> aval s = aval a + aval b \<and> addable (aval s)"
proof
  assume "amount_add a b = Inr s"
  moreover obtain l c where l: "add64 (lo a) (lo b) 0 = (l, c)" by fastforce
  moreover obtain h c' where h: "add64 (hi a) (hi b) c = (h, c')" by fastforce
  ultimately show "aval s = aval a + aval b \<and> addable (aval s)"
    using checked_exact [OF sum_raw [OF l h refl]]
    by (auto simp: amount_add_def split: if_splits)
next
  assume s: "aval s = aval a + aval b \<and> addable (aval s)"
  then have "(THE s. aval s = aval a + aval b) = s"
    by (metis (mono_tags, lifting) aval_inject the_equality)
  with s show "amount_add a b = Inr s" unfolding amount_add_exact by metis
qed

lemma amount_add_Inl:
  "amount_add a b = Inl e \<longleftrightarrow> e = ErrOverflow \<and> \<not> addable (aval a + aval b)"
  by (auto simp: amount_add_exact)

lemma amount_sub_Inr:
  assumes "aval b \<noteq> minAmount"
  shows "amount_sub a b = Inr s \<longleftrightarrow> aval s = aval a - aval b \<and> addable (aval s)"
  using assms by (simp add: amount_sub_def amount_add_Inr aval_neg)

lemma amount_sub_Inl:
  assumes "aval b \<noteq> minAmount"
  shows "amount_sub a b = Inl e \<longleftrightarrow> e = ErrOverflow \<and> \<not> addable (aval a - aval b)"
  using assms by (simp add: amount_sub_def amount_add_Inl aval_neg)

section \<open>Checked arithmetic as an interface\<close>

text \<open>
  What the ledger relies on when it adds amounts: addition is exact or reports an overflow, and
  negation is exact away from the smallest 128-bit value. The record operations provide it, and so
  do the operations on integers that the model of the ledger computes with.
\<close>

locale checked_arith =
  fixes val :: "'a \<Rightarrow> int"
    and add :: "'a \<Rightarrow> 'a \<Rightarrow> 'a res"
    and neg :: "'a \<Rightarrow> 'a"
    and zero :: 'a
  assumes add_exact: "add a b = Inr s \<Longrightarrow> val s = val a + val b"
    and add_succeeds: "(\<exists>s. add a b = Inr s) \<longleftrightarrow> addable (val a + val b)"
    and add_error: "add a b = Inl e \<Longrightarrow> e = ErrOverflow"
    and neg_exact: "val a \<noteq> minAmount \<Longrightarrow> val (neg a) = - val a"
    and zero_val: "val zero = 0"
begin

fun sum_from :: "'a \<Rightarrow> 'a list \<Rightarrow> 'a res" where
  "sum_from acc [] = Inr acc"
| "sum_from acc (a # as) = bindR (add acc a) (\<lambda>t. sum_from t as)"

lemma sum_from_exact: "sum_from acc as = Inr t \<Longrightarrow> val t = val acc + (\<Sum>a\<leftarrow>as. val a)"
  by (induction as arbitrary: acc) (auto simp: add_exact)

lemma sum_from_error: "sum_from acc as = Inl e \<Longrightarrow> e = ErrOverflow"
  by (induction as arbitrary: acc) (auto simp: bindR_Inl_iff add_error)

lemma sum_from_nonneg:
  assumes "\<forall>a \<in> set as. 0 \<le> val a" "0 \<le> val acc" "in_range (val acc)"
  shows "(\<exists>t. sum_from acc as = Inr t) \<longleftrightarrow> in_range (val acc + (\<Sum>a\<leftarrow>as. val a))"
  using assms
proof (induction as arbitrary: acc)
  case Nil
  then show ?case by simp
next
  case (Cons a as)
  have rest: "0 \<le> (\<Sum>a\<leftarrow>as. val a)"
    using Cons.prems by (intro sum_list_nonneg) auto
  have add: "(\<exists>s. add acc a = Inr s) \<longleftrightarrow> in_range (val acc + val a)"
    using Cons.prems unfolding add_succeeds by (auto simp: addable_def minAmount_def)
  show ?case
  proof (cases "add acc a")
    case (Inl e)
    then have "\<not> in_range (val acc + val a)" using add by auto
    then show ?thesis using Inl Cons.prems rest by (auto simp: in_range_def)
  next
    case (Inr s)
    then show ?thesis
      using Cons.IH [of s] Cons.prems add add_exact [OF Inr] by (auto simp: add.assoc)
  qed
qed

end

definition amt_add :: "int \<Rightarrow> int \<Rightarrow> int res" where
  "amt_add x y = (if addable (x + y) then Inr (x + y) else Inl ErrOverflow)"

definition amt_neg :: "int \<Rightarrow> int" where
  "amt_neg x = (if x = minAmount then minAmount else - x)"

definition amt_sub :: "int \<Rightarrow> int \<Rightarrow> int res" where
  "amt_sub x y = amt_add x (amt_neg y)"

fun sumAmts_from :: "int \<Rightarrow> int list \<Rightarrow> int res" where
  "sumAmts_from acc [] = Inr acc"
| "sumAmts_from acc (a # as) = bindR (amt_add acc a) (\<lambda>t. sumAmts_from t as)"

definition sumAmts :: "int list \<Rightarrow> int res" where
  "sumAmts as = sumAmts_from 0 as"

interpretation record_arith: checked_arith aval amount_add amount_neg zero_amount
proof
  show "(\<exists>s. amount_add a b = Inr s) \<longleftrightarrow> addable (aval a + aval b)" for a b
    by (metis amount_add_Inl amount_add_Inr sum.exhaust)
qed (auto simp: amount_add_Inr amount_add_Inl aval_neg)

interpretation int_arith: checked_arith "\<lambda>x. x" amt_add amt_neg 0
  by unfold_locales (auto simp: amt_add_def amt_neg_def split: if_splits)

lemma sumAmounts_from_eq: "sumAmounts_from acc as = record_arith.sum_from acc as"
  by (induction as arbitrary: acc) (auto intro: bindR_cong)

lemma sumAmts_from_eq: "sumAmts_from acc as = int_arith.sum_from acc as"
  by (induction as arbitrary: acc) (auto intro: bindR_cong)

text \<open>The integer operations are the record operations read through \<open>aval\<close>.\<close>

lemma amount_add_refines: "map_sum id aval (amount_add a b) = amt_add (aval a) (aval b)"
proof (cases "amount_add a b")
  case (Inl e)
  then show ?thesis using amount_add_Inl [of a b e] by (simp add: amt_add_def)
next
  case (Inr s)
  moreover from this have "aval s = aval a + aval b" "addable (aval a + aval b)"
    using amount_add_Inr [of a b s] by auto
  ultimately show ?thesis by (simp add: amt_add_def)
qed

lemma amount_neg_refines: "aval (amount_neg a) = amt_neg (aval a)"
  by (simp add: aval_neg amt_neg_def)

lemma amount_sub_refines: "map_sum id aval (amount_sub a b) = amt_sub (aval a) (aval b)"
  by (simp add: amount_sub_def amt_sub_def amount_add_refines amount_neg_refines)

lemma sumAmounts_from_refines:
  "map_sum id aval (sumAmounts_from acc as) = sumAmts_from (aval acc) (map aval as)"
proof (induction as arbitrary: acc)
  case (Cons a as)
  then show ?case
    using amount_add_refines [of acc a, symmetric] by (cases "amount_add acc a") auto
qed simp

lemma amt_add_Inr [simp]: "amt_add x y = Inr s \<longleftrightarrow> s = x + y \<and> addable (x + y)"
  by (auto simp: amt_add_def)

lemma amt_sub_Inr: "y \<noteq> minAmount \<Longrightarrow> amt_sub x y = Inr s \<longleftrightarrow> s = x - y \<and> addable (x - y)"
  by (auto simp: amt_sub_def amt_neg_def)

lemma amt_sub_exact: "in_range y \<Longrightarrow> amt_sub x y = Inr s \<longleftrightarrow> s = x - y \<and> addable (x - y)"
  by (rule amt_sub_Inr) (auto simp: in_range_def minAmount_def)

lemma addable_nonneg: "0 \<le> x \<Longrightarrow> addable x \<longleftrightarrow> in_range x"
  by (auto simp: addable_def minAmount_def)

lemma sumAmts_Inr: "sumAmts as = Inr t \<Longrightarrow> t = (\<Sum>a\<leftarrow>as. a)"
  using int_arith.sum_from_exact [of 0 as t] by (simp add: sumAmts_def sumAmts_from_eq)

end
