(* ===== verification/AmountText.thy ===== *)
theory AmountText
  imports Amount
begin

text \<open>
  The text of an amount (\<^verbatim>\<open>ParseAmount\<close>, \<^verbatim>\<open>String\<close>, \<^verbatim>\<open>Int64\<close> of
  \<^verbatim>\<open>internal/money/amount.go\<close>), its exchange with \<^verbatim>\<open>big.Int\<close> and with a database numeric, and
  the syntax of a currency code (\<^verbatim>\<open>internal/money/money.go\<close>). The lemmas show that the printed
  text is the ordinary decimal numeral of the amount and that parsing accepts exactly the canonical
  numerals of at most 38 digits.
\<close>

section \<open>Decimal numerals (\<^verbatim>\<open>strconv\<close>)\<close>

definition code :: "char \<Rightarrow> nat" where
  "code c = of_char c"

definition isDigit :: "char \<Rightarrow> bool" where
  "isDigit c \<longleftrightarrow> 48 \<le> code c \<and> code c \<le> 57"

definition digit :: "nat \<Rightarrow> char" where
  "digit d = char_of (48 + d)"

fun showNat :: "nat \<Rightarrow> string" where
  "showNat n = (if n < 10 then [digit n] else showNat (n div 10) @ [digit (n mod 10)])"

declare showNat.simps [simp del]

definition readNat :: "string \<Rightarrow> nat" where
  "readNat s = foldl (\<lambda>n c. 10 * n + (code c - 48)) 0 s"

text \<open>\<^verbatim>\<open>strconv.FormatUint(n, 10)\<close>, \<^verbatim>\<open>strconv.FormatInt(n, 10)\<close> and \<^verbatim>\<open>strconv.ParseUint(s, 10, 64)\<close>,
  whose value is the largest 64-bit number when \<^verbatim>\<open>s\<close> is out of range, and 0 when it is no numeral.\<close>

definition showInt :: "int \<Rightarrow> string" where
  "showInt n = (if n < 0 then CHR ''-'' # showNat (nat (- n)) else showNat (nat n))"

definition formatUint :: "u64 \<Rightarrow> string" where
  "formatUint w = showNat (unat w)"

definition formatInt :: "64 word \<Rightarrow> string" where
  "formatInt w = showInt (sint w)"

definition parseUint :: "string \<Rightarrow> u64" where
  "parseUint s =
     (if s = [] \<or> \<not> list_all isDigit s then 0
      else if readNat s < 2 ^ 64 then of_nat (readNat s) else - 1)"

section \<open>Parsing and printing an amount\<close>

text \<open>The two halves of at most 38 digits: the last 19 digits, and what is before them times
  \<open>10 ^ 19\<close>.\<close>

definition magnitude :: "string \<Rightarrow> amount" where
  "magnitude digits =
     (let split = length digits - 19;
          high = (if split > 0 then parseUint (take split digits) else 0);
          low = parseUint (drop split digits);
          (h, l) = mul64 high pow19;
          (l', carry) = add64 l low 0
      in \<lparr>hi = h + carry, lo = l'\<rparr>)"

definition parseAmount :: "string \<Rightarrow> amount res" where
  "parseAmount s =
     (let negative = s \<noteq> [] \<and> hd s = CHR ''-'';
          digits = (if negative then tl s else s)
      in if digits = [] \<or> length digits > maxDigits
            \<or> (hd digits = CHR ''0'' \<and> (length digits > 1 \<or> negative)) then Inl ErrInvalidAmount
         else if \<not> list_all isDigit digits then Inl ErrInvalidAmount
         else let a = magnitude digits in Inr (if negative then amount_neg a else a))"

definition amount_Int64 :: "amount \<Rightarrow> 64 word \<times> bool" where
  "amount_Int64 a = (lo a, hi a = signed_drop_bit 63 (lo a))"

definition amount_string :: "amount \<Rightarrow> string res" where
  "amount_string a =
     (case amount_Int64 a of
        (n, True) \<Rightarrow> Inr (formatInt n)
      | (n, False) \<Rightarrow>
          let (sign, b) = (if amount_sign a < 0 then (''-'', amount_neg a) else ('''', a))
          in bindR (div64 (hi b) (lo b) pow19) (\<lambda>(high, low).
               let lowDigits = formatUint low
               in if high = 0 then Inr (sign @ lowDigits)
                  else Inr (sign @ formatUint high @ drop (length lowDigits) (replicate 19 CHR ''0'')
                    @ lowDigits)))"

section \<open>Numerals\<close>

lemma code_digit: "d < 10 \<Longrightarrow> code (digit d) = 48 + d"
  by (simp add: code_def digit_def)

lemma digit_code: "isDigit c \<Longrightarrow> digit (code c - 48) = c"
  by (simp add: isDigit_def code_def digit_def)

lemma isDigit_digit [simp]: "d < 10 \<Longrightarrow> isDigit (digit d)"
  by (simp add: isDigit_def code_digit)

lemma isDigit_zero [simp]: "isDigit CHR ''0''" and isDigit_minus [simp]: "\<not> isDigit CHR ''-''"
  by (simp_all add: isDigit_def code_def)

lemma digit_zero [simp]: "digit 0 = CHR ''0''"
  using digit_code [of "CHR ''0''"] by (simp add: code_def)

lemma digit_eq_zero_iff: "d < 10 \<Longrightarrow> digit d = CHR ''0'' \<longleftrightarrow> d = 0"
  by (metis add_right_imp_eq code_digit digit_zero add.commute zero_less_numeral)

lemma readNat_Nil [simp]: "readNat [] = 0"
  by (simp add: readNat_def)

lemma readNat_snoc [simp]: "readNat (s @ [c]) = 10 * readNat s + (code c - 48)"
  by (simp add: readNat_def)

lemma readNat_append: "readNat (s @ t) = readNat s * 10 ^ length t + readNat t"
  by (induction t rule: rev_induct) (simp_all add: algebra_simps flip: append_assoc)

lemma readNat_zeros [simp]: "readNat (replicate n CHR ''0'') = 0"
  by (induction n) (simp_all add: replicate_append_same [symmetric] code_def)

lemma readNat_less: "list_all isDigit s \<Longrightarrow> readNat s < 10 ^ length s"
proof (induction s rule: rev_induct)
  case (snoc c s)
  then have "readNat s + 1 \<le> 10 ^ length s" "code c - 48 < 10"
    by (auto simp: isDigit_def)
  then show ?case by simp
qed simp

lemma showNat_nonempty [simp]: "showNat n \<noteq> []"
  by (subst showNat.simps) simp

lemma showNat_digits [simp]: "list_all isDigit (showNat n)"
  by (induction n rule: showNat.induct) (subst showNat.simps, simp)

lemma readNat_showNat [simp]: "readNat (showNat n) = n"
proof (induction n rule: showNat.induct)
  case (1 n)
  show ?case
  proof (cases "n < 10")
    case True
    then show ?thesis
      using readNat_snoc [of "[]" "digit n"] by (subst showNat.simps) (simp add: code_digit)
  next
    case False
    then show ?thesis
      using 1 by (subst showNat.simps) (simp add: code_digit)
  qed
qed

lemma hd_showNat: "hd (showNat n) = CHR ''0'' \<longleftrightarrow> n = 0"
proof (induction n rule: showNat.induct)
  case (1 n)
  then show ?case
    by (subst showNat.simps) (auto simp: digit_eq_zero_iff)
qed

definition canonical :: "string \<Rightarrow> bool" where
  "canonical s \<longleftrightarrow> s \<noteq> [] \<and> list_all isDigit s \<and> (hd s = CHR ''0'' \<longrightarrow> length s = 1)"

lemma canonical_showNat [simp]: "canonical (showNat n)"
proof -
  have "showNat 0 = ''0''" by (subst showNat.simps) simp
  then show ?thesis by (auto simp: canonical_def hd_showNat)
qed

lemma code_hd_pos: "isDigit c \<Longrightarrow> c \<noteq> CHR ''0'' \<Longrightarrow> 0 < code c - 48"
  by (metis digit_code digit_zero neq0_conv)

lemma showNat_readNat: "canonical s \<Longrightarrow> showNat (readNat s) = s"
proof (induction s rule: rev_induct)
  case Nil
  then show ?case by (simp add: canonical_def)
next
  case (snoc c s)
  have c: "isDigit c" using snoc.prems by (simp add: canonical_def)
  then have lt: "code c - 48 < 10" by (auto simp: isDigit_def)
  show ?case
  proof (cases "s = []")
    case True
    then show ?thesis
      using c lt readNat_snoc [of "[]" c] by (subst showNat.simps) (simp add: digit_code)
  next
    case False
    then have s: "canonical s" "hd s \<noteq> CHR ''0''"
      using snoc.prems by (auto simp: canonical_def)
    then have "showNat (readNat s) = s" using snoc.IH by blast
    moreover from this have "0 < readNat s"
      using s(2) hd_showNat [of "readNat s"] by (metis neq0_conv)
    ultimately show ?thesis
      using c lt by (subst showNat.simps) (simp add: digit_code)
  qed
qed

lemma length_showNat: "0 < k \<Longrightarrow> length (showNat n) \<le> k \<longleftrightarrow> n < 10 ^ k"
proof (induction n arbitrary: k rule: showNat.induct)
  case (1 n)
  show ?case
  proof (cases "n < 10")
    case True
    have "(10 :: nat) ^ 1 \<le> 10 ^ k" using 1(2) by (intro power_increasing) auto
    then show ?thesis
      using True 1(2) by (subst showNat.simps) (simp add: less_le_trans)
  next
    case False
    then obtain j where j: "k = Suc j" using 1(2) by (cases k) auto
    have "length (showNat (n div 10)) \<le> j \<longleftrightarrow> n div 10 < 10 ^ j"
      using 1(1) False by (cases "j = 0") auto
    then show ?thesis
      using False j by (subst showNat.simps) (simp add: less_mult_imp_div_less div_less_iff_less_mult mult.commute)
  qed
qed

lemma showNat_split:
  assumes "0 < h" "l < 10 ^ k" "0 < k"
  shows "showNat (h * 10 ^ k + l)
    = showNat h @ replicate (k - length (showNat l)) CHR ''0'' @ showNat l"
    (is "_ = ?s")
proof -
  have len: "length (showNat l) \<le> k" using assms length_showNat by blast
  have "readNat ?s = h * 10 ^ k + l"
    using len by (simp add: readNat_append)
  moreover have "canonical ?s"
    using assms(1) showNat_digits [of h] showNat_digits [of l]
    by (auto simp: canonical_def hd_showNat list_all_iff)
  ultimately show ?thesis
    using showNat_readNat [of ?s] by simp
qed

section \<open>Round trip\<close>

lemma div64_exact:
  assumes "y \<noteq> 0" "h < y"
  shows "div64 h l y = Inr (of_nat ((unat h * 2 ^ 64 + unat l) div unat y),
                            of_nat ((unat h * 2 ^ 64 + unat l) mod unat y))"
proof -
  define n where "n = unat h * 2 ^ 64 + unat l"
  have n: "uint h * 2 ^ 64 + uint l = int n"
    unfolding n_def by (simp only: uint_nat of_nat_add of_nat_mult of_nat_power of_nat_numeral)
  have "word_of_int (int n div uint y) = (of_nat (n div unat y) :: u64)"
    and "word_of_int (int n mod uint y) = (of_nat (n mod unat y) :: u64)"
    by (simp_all only: uint_nat of_int_of_nat_eq flip: zdiv_int zmod_int)
  then show ?thesis
    using assms unfolding div64_def n n_def [symmetric] Let_def by (auto simp: not_le)
qed

lemma uint_sint_cases: "uint (w :: u64) = sint w + (if sint w < 0 then 2 ^ 64 else 0)"
proof -
  have "uint w = sint w mod 2 ^ 64" by (simp add: uint_sint take_bit_eq_mod)
  moreover have "sint w mod 2 ^ 64 = sint w + 2 ^ 64" if "sint w < 0"
  proof -
    have "0 \<le> sint w + 2 ^ 64" "sint w + 2 ^ 64 < 2 ^ 64"
      using that sint_u64_range [of w] by auto
    from mod_pos_pos_trivial [OF this] show ?thesis by (simp only: mod_add_self2)
  qed
  moreover have "0 \<le> sint w \<Longrightarrow> sint w mod 2 ^ 64 = sint w"
    using sint_u64_range [of w] by simp
  ultimately show ?thesis by (auto simp: not_less)
qed

lemma sign_word: "sint (signed_drop_bit 63 (w :: u64)) = (if sint w < 0 then - 1 else 0)"
proof -
  have "sint (signed_drop_bit 63 w) = sint w div 2 ^ 63"
    by (simp add: sint_signed_drop_bit_eq drop_bit_eq_div)
  moreover have "sint w < 0 \<Longrightarrow> sint w div 2 ^ 63 = - 1"
    using sint_u64_range [of w] by (intro int_div_pos_eq [where r = "sint w + 2 ^ 63"]) auto
  moreover have "0 \<le> sint w \<Longrightarrow> sint w div 2 ^ 63 = 0"
    using sint_u64_range [of w] by simp
  ultimately show ?thesis by auto
qed

lemma newAmount_val: "aval (newAmount n) = sint n"
  unfolding aval_def newAmount_def amount.simps sign_word uint_sint_cases [of n] by simp

lemma amount_Int64_val: "amount_Int64 a = (n, True) \<Longrightarrow> aval a = sint n"
  using newAmount_val [of n] by (cases a) (auto simp: amount_Int64_def newAmount_def)

definition mag :: "amount \<Rightarrow> nat" where
  "mag a = unat (hi a) * 2 ^ 64 + unat (lo a)"

lemma mag_uval: "int (mag a) = uval a"
  by (simp only: mag_def uval_def of_nat_add of_nat_mult of_nat_power of_nat_numeral uint_nat)

lemma mag_nonneg: "0 \<le> aval a \<Longrightarrow> int (mag a) = aval a"
  using aval_range [of a] by (simp add: mag_uval uval_aval)

lemma mag_neg: "aval a < 0 \<Longrightarrow> int (mag (amount_neg a)) = - aval a"
  using aval_range [of a] by (simp add: mag_uval uval_neg uval_aval [of a] mod_minus_eq)

lemma hi_mag: "unat (hi a) = mag a div 2 ^ 64"
  using unsigned_less [of "lo a", where 'a = nat] by (simp add: mag_def)

lemma unat_of_nat_u64: "n < 2 ^ 64 \<Longrightarrow> unat (of_nat n :: u64) = n"
  by (simp add: unat_of_nat)

lemma print_mag:
  assumes "mag b \<le> 2 ^ 127"
  shows "bindR (div64 (hi b) (lo b) pow19) (\<lambda>(high, low).
               let lowDigits = formatUint low
               in if high = 0 then Inr (sign @ lowDigits)
                  else Inr (sign @ formatUint high @ drop (length lowDigits) (replicate 19 CHR ''0'')
                    @ lowDigits))
         = Inr (sign @ showNat (mag b))"
proof -
  have "unat (hi b) \<le> 2 ^ 63" using assms unfolding hi_mag by simp
  then have "hi b < pow19" unfolding word_less_nat_alt by (simp add: pow19_def)
  moreover have p19: "unat pow19 = 10 ^ 19" "pow19 \<noteq> 0" by (simp_all add: pow19_def)
  ultimately have div: "div64 (hi b) (lo b) pow19 =
      Inr (of_nat (mag b div 10 ^ 19), of_nat (mag b mod 10 ^ 19))"
    using div64_exact [of pow19 "hi b" "lo b"] unfolding mag_def by (simp only: p19)
  define h where "h = mag b div 10 ^ 19"
  define l where "l = mag b mod 10 ^ 19"
  have "h \<le> 2 ^ 127 div 10 ^ 19" unfolding h_def by (rule div_le_mono [OF assms])
  then have h: "h < 2 ^ 64" by simp
  have l: "l < 10 ^ 19" by (simp add: l_def)
  have m: "mag b = h * 10 ^ 19 + l" by (simp only: h_def l_def div_mult_mod_eq)
  have uh: "unat (of_nat h :: u64) = h" and ul: "unat (of_nat l :: u64) = l"
    using h l by (auto intro!: unat_of_nat_u64)
  have h0: "(of_nat h :: u64) = 0 \<longleftrightarrow> h = 0"
    using unat_eq_zero [of "of_nat h :: u64"] unfolding uh by simp
  note div' = div [folded h_def l_def]
  show ?thesis
  proof (cases "h = 0")
    case True
    then have h0': "(of_nat h :: u64) = 0" and m': "mag b = l"
      using h0 m by simp_all
    show ?thesis
      unfolding div' m'
      by (simp only: bindR.simps prod.case Let_def formatUint_def ul h0' refl if_True)
  next
    case False
    then have "0 < h" by simp
    from showNat_split [OF this l] False show ?thesis
      unfolding div' m
      by (simp only: bindR.simps prod.case Let_def formatUint_def uh ul h0 if_False drop_replicate
          append_assoc)
  qed
qed

lemma amount_string_val: "amount_string a = Inr (showInt (aval a))"
proof (cases "amount_Int64 a")
  case (Pair n small)
  show ?thesis
  proof (cases small)
    case True
    with Pair show ?thesis
      using amount_Int64_val [of a n] by (simp add: amount_string_def formatInt_def)
  next
    case False
    define b where "b = (if aval a < 0 then amount_neg a else a)"
    define sg where "sg = (if aval a < 0 then ''-'' else [])"
    have m: "int (mag b) = \<bar>aval a\<bar>"
      using mag_neg [of a] mag_nonneg [of a] by (auto simp: b_def)
    then have "int (mag b) \<le> int (2 ^ 127)" using aval_range [of a] by (simp add: abs_le_iff)
    then have "mag b \<le> 2 ^ 127" by (simp only: of_nat_le_iff)
    moreover have "(if amount_sign a < 0 then (''-'', amount_neg a) else ([], a)) = (sg, b)"
      by (simp add: amount_sign_val sgn_if b_def sg_def)
    ultimately have p: "amount_string a = Inr (sg @ showNat (mag b))"
      using print_mag [of b sg] False unfolding amount_string_def Pair
      by (simp only: prod.case bool.case Let_def)
    have "mag b = nat \<bar>aval a\<bar>" using m by linarith
    then show ?thesis using p by (simp add: showInt_def sg_def)
  qed
qed

lemma parseUint_val:
  assumes "s \<noteq> []" "list_all isDigit s" "length s \<le> 19"
  shows "unat (parseUint s) = readNat s"
proof -
  have "readNat s < 10 ^ length s" using assms(2) by (rule readNat_less)
  also have "\<dots> \<le> 10 ^ 19" using assms(3) by (intro power_increasing) auto
  finally have "readNat s < 2 ^ 64" by simp
  then show ?thesis using assms by (simp add: parseUint_def unat_of_nat_u64)
qed

text \<open>\<^verbatim>\<open>bits.Mul64\<close>, \<^verbatim>\<open>bits.Add64\<close> and the carry compute \<open>high * 10 ^ 19 + low\<close> in 128 bits.\<close>

lemma mul64_exact:
  assumes "mul64 x y = (h, l)"
  shows "unat h * 2 ^ 64 + unat l = unat x * unat y"
proof -
  define n where "n = unat x * unat y"
  have n: "uint x * uint y = int n"
    by (simp only: n_def uint_nat of_nat_mult)
  have "unat x < 2 ^ 64" "unat y < 2 ^ 64"
    using unsigned_less [of x, where 'a = nat] unsigned_less [of y, where 'a = nat] by simp_all
  then have "n < 2 ^ 64 * 2 ^ 64" unfolding n_def by (intro mult_strict_mono) auto
  then have q: "n div 2 ^ 64 < 2 ^ 64" by (simp add: div_less_iff_less_mult)
  have "h = of_int (int n div 2 ^ 64)" and l: "l = of_int (int n)"
    using assms unfolding mul64_def n by auto
  moreover have "int n div 2 ^ 64 = int (n div 2 ^ 64)" by (simp add: zdiv_int)
  ultimately have "h = of_nat (n div 2 ^ 64)" by simp
  then have "unat h = n div 2 ^ 64" using q by (simp add: unat_of_nat_u64)
  moreover have "unat l = n mod 2 ^ 64" unfolding l by (simp add: unat_of_nat)
  ultimately show ?thesis unfolding n_def [symmetric] by simp
qed

lemma digits_value:
  assumes "list_all isDigit d" "d \<noteq> []" "length d \<le> 38"
  defines "k \<equiv> length d - 19"
  shows "unat (if k > 0 then parseUint (take k d) else 0) * 10 ^ 19 + unat (parseUint (drop k d))
    = readNat d"
proof -
  have k: "k < length d" using assms(2) unfolding k_def by (cases d) auto
  have low: "unat (parseUint (drop k d)) = readNat (drop k d)"
    using assms(1,3) k unfolding k_def
    by (intro parseUint_val) (auto simp: list_all_iff dest: in_set_dropD)
  have high: "unat (if k > 0 then parseUint (take k d) else 0) = readNat (take k d)"
    using assms k by (auto intro!: parseUint_val simp: list_all_iff dest!: in_set_takeD)
  have "readNat d = readNat (take k d) * 10 ^ length (drop k d) + readNat (drop k d)"
    by (metis readNat_append append_take_drop_id)
  also have "readNat (take k d) * 10 ^ length (drop k d) = readNat (take k d) * 10 ^ 19"
    by (cases "k = 0") (auto simp: k_def)
  finally show ?thesis unfolding low high by simp
qed

lemma magnitude_val:
  assumes "list_all isDigit d" "d \<noteq> []" "length d \<le> 38"
  shows "aval (magnitude d) = int (readNat d)"
proof -
  define k where "k = length d - 19"
  define high where "high = (if k > 0 then parseUint (take k d) else 0)"
  define low where "low = parseUint (drop k d)"
  obtain h l where m: "mul64 high pow19 = (h, l)" by fastforce
  obtain l' c where a: "add64 l low 0 = (l', c)" by fastforce
  have mg: "magnitude d = \<lparr>hi = h + c, lo = l'\<rparr>"
    unfolding magnitude_def Let_def k_def [symmetric] high_def [symmetric] low_def [symmetric]
    by (simp only: m a prod.case)
  obtain c' where h: "add64 h 0 c = (h + c, c')" by (simp add: add64_def)
  have "uval (magnitude d) = (uval \<lparr>hi = h, lo = l\<rparr> + uval \<lparr>hi = 0, lo = low\<rparr>) mod 2 ^ 128"
    unfolding mg using uval_add [of "\<lparr>hi = h, lo = l\<rparr>" "\<lparr>hi = 0, lo = low\<rparr>"] a h by simp
  moreover have "uval \<lparr>hi = h, lo = l\<rparr> + uval \<lparr>hi = 0, lo = low\<rparr> = int (readNat d)"
  proof -
    have "unat h * 2 ^ 64 + unat l + unat low = readNat d"
      using mul64_exact [OF m] digits_value [OF assms]
      unfolding high_def low_def k_def by (simp add: pow19_def)
    then have "int (unat h * 2 ^ 64 + unat l + unat low) = int (readNat d)" by (simp only:)
    then show ?thesis
      by (simp only: uval_def amount.simps uint_nat unsigned_0 of_nat_add of_nat_mult of_nat_power
          of_nat_numeral of_nat_0 mult_zero_left add_0)
  qed
  moreover have "readNat d < 2 ^ 127"
  proof -
    have "readNat d < 10 ^ length d" using assms by (intro readNat_less)
    also have "\<dots> \<le> 10 ^ 38" using assms(3) by (intro power_increasing) auto
    finally show ?thesis by simp
  qed
  ultimately show ?thesis by (intro aval_eqI) auto
qed

definition canonInt :: "string \<Rightarrow> bool" where
  "canonInt s \<longleftrightarrow> (\<exists>n. in_range n \<and> s = showInt n)"

lemma showNat_eq_iff [simp]: "showNat m = showNat n \<longleftrightarrow> m = n"
  by (metis readNat_showNat)

lemma hd_showNat_minus [simp]: "hd (showNat n) \<noteq> CHR ''-''"
proof
  assume "hd (showNat n) = CHR ''-''"
  moreover have "isDigit (hd (showNat n))"
    using showNat_digits [of n] hd_in_set [of "showNat n"] by (auto simp: list_all_iff)
  ultimately show False by simp
qed

lemma showInt_inject: "showInt m = showInt n \<longleftrightarrow> m = n"
proof -
  have "showNat i \<noteq> CHR ''-'' # t" for i t
    using hd_showNat_minus [of i] by (metis list.sel(1))
  moreover from this have "CHR ''-'' # t \<noteq> showNat i" for i t by metis
  ultimately show ?thesis by (auto simp: showInt_def)
qed

lemma parseAmount_split:
  "parseAmount s =
     (let negative = s \<noteq> [] \<and> hd s = CHR ''-''; digits = (if negative then tl s else s)
      in if canonical digits \<and> length digits \<le> 38 \<and> \<not> (negative \<and> hd digits = CHR ''0'')
         then Inr (if negative then amount_neg (magnitude digits) else magnitude digits)
         else Inl ErrInvalidAmount)"
proof -
  have "digits \<noteq> [] \<Longrightarrow> length digits = 1 \<longleftrightarrow> \<not> 1 < length digits" for digits :: string
    by (cases digits) auto
  then show ?thesis
    unfolding parseAmount_def canonical_def maxDigits_def Let_def not_le [symmetric] by auto
qed

lemma length_showNat_range: "length (showNat (nat n)) \<le> 38 \<longleftrightarrow> n \<le> 10 ^ 38 - 1"
  by (subst length_showNat) auto

lemma parseAmount_showInt:
  assumes "in_range n"
  shows "\<exists>a. parseAmount (showInt n) = Inr a \<and> aval a = n"
proof (cases "n < 0")
  case True
  then have "hd (showNat (nat (- n))) \<noteq> CHR ''0''" by (simp add: hd_showNat)
  moreover have len: "length (showNat (nat (- n))) \<le> 38"
    using assms True by (subst length_showNat_range) (simp add: in_range_def)
  ultimately have "parseAmount (showInt n) = Inr (amount_neg (magnitude (showNat (nat (- n)))))"
    using True by (simp add: parseAmount_split showInt_def)
  moreover have "aval (magnitude (showNat (nat (- n)))) = - n"
    using len True by (subst magnitude_val) auto
  ultimately show ?thesis
    using assms by (simp add: aval_neg in_range_def minAmount_def)
next
  case False
  have len: "length (showNat (nat n)) \<le> 38"
    using assms False by (subst length_showNat_range) (simp add: in_range_def)
  then have "parseAmount (showInt n) = Inr (magnitude (showNat (nat n)))"
    using False by (simp add: parseAmount_split showInt_def)
  moreover have "aval (magnitude (showNat (nat n))) = n"
    using len False by (subst magnitude_val) auto
  ultimately show ?thesis by simp
qed

lemma parseAmount_Inr:
  assumes "parseAmount s = Inr a"
  shows "s = showInt (aval a) \<and> in_range (aval a)"
proof -
  define negative where "negative \<longleftrightarrow> s \<noteq> [] \<and> hd s = CHR ''-''"
  define d where "d = (if negative then tl s else s)"
  have d: "canonical d" "length d \<le> 38" "\<not> (negative \<and> hd d = CHR ''0'')"
    and a: "a = (if negative then amount_neg (magnitude d) else magnitude d)"
    using assms unfolding parseAmount_split Let_def negative_def [symmetric] d_def [symmetric]
    by (auto split: if_splits)
  have m: "aval (magnitude d) = int (readNat d)"
    using d by (intro magnitude_val) (auto simp: canonical_def)
  have dec: "showNat (readNat d) = d" using d(1) by (rule showNat_readNat)
  then have range: "int (readNat d) \<le> 10 ^ 38 - 1"
    using d(2) length_showNat_range [of "int (readNat d)"] by simp
  show ?thesis
  proof (cases negative)
    case True
    then have "s = CHR ''-'' # d" by (cases s) (auto simp: negative_def d_def)
    moreover have "readNat d \<noteq> 0" using d(3) True dec hd_showNat [of "readNat d"] by auto
    ultimately show ?thesis
      using True range m dec a by (simp add: aval_neg in_range_def minAmount_def showInt_def)
  next
    case False
    then show ?thesis using range m dec a by (simp add: d_def in_range_def showInt_def)
  qed
qed

section \<open>Exchange with \<^verbatim>\<open>big.Int\<close> and with a database numeric\<close>

text \<open>A \<^verbatim>\<open>big.Int\<close> is an \<^typ>\<open>int\<close>; \<^verbatim>\<open>Lsh\<close>, \<^verbatim>\<open>Or\<close> and \<^verbatim>\<open>Rsh\<close> of non-negative numbers are
  written as arithmetic. \<^verbatim>\<open>pgtype.Numeric\<close> stands for \<open>num_int * 10 ^ num_exp\<close>.\<close>

definition amount_Big :: "amount \<Rightarrow> int" where
  "amount_Big a =
     (case amount_Int64 a of
        (n, True) \<Rightarrow> sint n
      | (n, False) \<Rightarrow>
          let b = uint (hi (amount_abs a)) * 2 ^ 64 + uint (lo (amount_abs a))
          in if amount_sign a < 0 then - b else b)"

definition amountFromBig :: "int \<Rightarrow> amount res" where
  "amountFromBig b =
     (if - (2 ^ 63) \<le> b \<and> b < 2 ^ 63 then Inr (newAmount (of_int b))
      else if \<bar>b\<bar> > amount_Big maxAmount then Inl ErrOverflow
      else let a = \<lparr>hi = of_int (\<bar>b\<bar> div 2 ^ 64), lo = of_int \<bar>b\<bar>\<rparr>
           in Inr (if b < 0 then amount_neg a else a))"

record numeric =
  num_int :: int
  num_exp :: int
  num_nan :: bool
  num_finite :: bool
  num_valid :: bool

definition numericValue :: "amount \<Rightarrow> numeric" where
  "numericValue a =
     \<lparr>num_int = amount_Big a, num_exp = 0, num_nan = False, num_finite = True, num_valid = True\<rparr>"

fun bitLen :: "nat \<Rightarrow> nat" where
  "bitLen n = (if n = 0 then 0 else Suc (bitLen (n div 2)))"

declare bitLen.simps [simp del]

definition scanNumeric :: "numeric \<Rightarrow> amount res" where
  "scanNumeric n =
     (if \<not> num_valid n \<or> num_nan n \<or> \<not> num_finite n then Inl ErrInvalidAmount
      else if num_int n = 0 then Inr zero_amount
      else if num_exp n > int maxDigits then Inl ErrOverflow
      else if - num_exp n > int (bitLen (nat \<bar>num_int n\<bar>)) then Inl ErrInvalidAmount
      else if num_exp n > 0 then amountFromBig (num_int n * 10 ^ nat (num_exp n))
      else if num_exp n < 0 then
        (if num_int n mod 10 ^ nat (- num_exp n) \<noteq> 0 then Inl ErrInvalidAmount
         else amountFromBig (num_int n div 10 ^ nat (- num_exp n)))
      else amountFromBig (num_int n))"

lemma amount_Big_val: "amount_Big a = aval a"
proof (cases "amount_Int64 a")
  case (Pair n small)
  show ?thesis
  proof (cases small)
    case True
    with Pair show ?thesis using amount_Int64_val [of a n] by (simp add: amount_Big_def)
  next
    case False
    have "amount_Big a = (if aval a < 0 then - uval (amount_neg a) else uval a)"
      using False Pair by (simp add: amount_Big_def uval_def amount_abs_def amount_sign_val sgn_if)
    then show ?thesis
      using mag_neg [of a] mag_nonneg [of a] by (auto simp: mag_uval)
  qed
qed

lemma amountFromBig_val:
  "(in_range b \<longrightarrow> (\<exists>a. amountFromBig b = Inr a \<and> aval a = b))
   \<and> (\<not> in_range b \<longrightarrow> amountFromBig b = Inl ErrOverflow)"
proof (cases "- (2 ^ 63) \<le> b \<and> b < 2 ^ 63")
  case True
  then have "sint (of_int b :: u64) = b"
    by (simp add: sint_sbintrunc' signed_take_bit_int_eq_self)
  moreover have "in_range b" using True by (auto simp: in_range_def)
  ultimately show ?thesis using True by (simp add: amountFromBig_def newAmount_val)
next
  case False
  show ?thesis
  proof (cases "in_range b")
    case True
    define a :: amount where "a = \<lparr>hi = of_int (\<bar>b\<bar> div 2 ^ 64), lo = of_int \<bar>b\<bar>\<rparr>"
    have b: "0 \<le> \<bar>b\<bar>" "\<bar>b\<bar> \<le> 10 ^ 38 - 1" using True by (auto simp: in_range_def)
    have "uint (hi a) = \<bar>b\<bar> div 2 ^ 64" using b by (simp add: a_def uint_word_of_int)
    moreover have "uint (lo a) = \<bar>b\<bar> mod 2 ^ 64" by (simp add: a_def uint_word_of_int)
    ultimately have "uval a = \<bar>b\<bar>" by (simp only: uval_def div_mult_mod_eq)
    then have "aval a = \<bar>b\<bar>" using b by (intro aval_eqI) auto
    then have "aval (if b < 0 then amount_neg a else a) = b"
      using True by (auto simp: aval_neg minAmount_def in_range_def)
    moreover have "amountFromBig b = Inr (if b < 0 then amount_neg a else a)"
    proof -
      have "\<not> \<bar>b\<bar> > amount_Big maxAmount" using b by (simp add: amount_Big_val maxAmount_val)
      then show ?thesis
        unfolding amountFromBig_def Let_def a_def [symmetric] using False by (simp only: if_False)
    qed
    ultimately show ?thesis using True by simp
  next
    case out: False
    then show ?thesis
      using False by (simp add: amountFromBig_def amount_Big_val maxAmount_val in_range_def)
  qed
qed

lemma bitLen_bound: "n < 2 ^ bitLen n"
proof (induction n rule: bitLen.induct)
  case (1 n)
  then show ?case by (cases "n = 0") (simp_all add: bitLen.simps [of n])
qed

lemma numeric_fraction:
  assumes "int (bitLen (nat \<bar>i\<bar>)) < int e" "i \<noteq> 0"
  shows "\<not> (10 :: int) ^ e dvd i"
proof
  assume "10 ^ e dvd i"
  from dvd_imp_le_int [OF assms(2) this] have "10 ^ e \<le> \<bar>i\<bar>" by simp
  moreover have "\<bar>i\<bar> < 2 ^ bitLen (nat \<bar>i\<bar>)"
    using bitLen_bound [of "nat \<bar>i\<bar>"] by (metis abs_ge_zero nat_less_numeral_power_cancel_iff
      of_nat_less_iff int_nat_eq of_nat_power of_nat_numeral)
  moreover have "(2 :: int) ^ bitLen (nat \<bar>i\<bar>) \<le> 2 ^ e"
    using assms(1) by (intro power_increasing) auto
  moreover have "(2 :: int) ^ e \<le> 10 ^ e" by (intro power_mono) auto
  ultimately show False by linarith
qed

lemma scanNumeric_val:
  assumes "num_valid n" "\<not> num_nan n" "num_finite n"
  shows "(\<exists>a. scanNumeric n = Inr a \<and> aval a = v) \<longleftrightarrow>
    in_range v \<and> num_int n * 10 ^ nat (num_exp n) = v * 10 ^ nat (- num_exp n)"
proof -
  have big: "(\<exists>a. amountFromBig b = Inr a \<and> aval a = v) \<longleftrightarrow> in_range b \<and> b = v" for b
    using amountFromBig_val [of b] by (cases "in_range b") auto
  note head = scanNumeric_def assms simp_thms if_False if_True
  consider "num_int n = 0" | "num_int n \<noteq> 0" "num_exp n > 38"
    | "num_int n \<noteq> 0" "- num_exp n > int (bitLen (nat \<bar>num_int n\<bar>))"
    | "num_int n \<noteq> 0" "0 \<le> num_exp n" "num_exp n \<le> 38"
    | "num_int n \<noteq> 0" "num_exp n < 0" "- num_exp n \<le> int (bitLen (nat \<bar>num_int n\<bar>))"
    by linarith
  then show ?thesis
  proof cases
    case 1
    then show ?thesis using assms by (auto simp: scanNumeric_def in_range_def)
  next
    case 2
    have "\<not> in_range (num_int n * 10 ^ nat (num_exp n))"
    proof -
      have "(10 :: int) ^ 38 \<le> 10 ^ nat (num_exp n)" using 2 by (intro power_increasing) auto
      moreover have "1 * (10 :: int) ^ nat (num_exp n) \<le> \<bar>num_int n\<bar> * 10 ^ nat (num_exp n)"
        using 2 by (intro mult_right_mono) auto
      ultimately have "(10 :: int) ^ 38 \<le> \<bar>num_int n\<bar> * 10 ^ nat (num_exp n)" by linarith
      then show ?thesis by (simp add: in_range_def abs_mult)
    qed
    moreover have "nat (- num_exp n) = 0" using 2 by simp
    ultimately show ?thesis using 2 assms by (auto simp: scanNumeric_def maxDigits_def)
  next
    case 3
    then have e: "nat (num_exp n) = 0" by auto
    have "\<not> 10 ^ nat (- num_exp n) dvd num_int n"
      using 3 by (intro numeric_fraction) auto
    then have "num_int n \<noteq> v * 10 ^ nat (- num_exp n)" by (metis dvd_triv_right)
    moreover have "scanNumeric n = Inl ErrInvalidAmount"
      using 3 assms by (auto simp: scanNumeric_def maxDigits_def)
    ultimately show ?thesis using e by simp
  next
    case 4
    then have "scanNumeric n = amountFromBig (num_int n * 10 ^ nat (num_exp n))"
      using assms by (auto simp: scanNumeric_def maxDigits_def)
    moreover have "nat (- num_exp n) = 0" using 4 by simp
    ultimately show ?thesis using big by auto
  next
    case 5
    let ?d = "10 ^ nat (- num_exp n) :: int"
    have s: "scanNumeric n = (if num_int n mod ?d \<noteq> 0 then Inl ErrInvalidAmount
        else amountFromBig (num_int n div ?d))"
      using 5 assms by (auto simp: scanNumeric_def maxDigits_def)
    have "nat (num_exp n) = 0" using 5 by simp
    moreover have "num_int n = v * ?d \<longleftrightarrow> num_int n mod ?d = 0 \<and> num_int n div ?d = v"
      by (auto simp: mod_eq_0_iff_dvd)
    ultimately show ?thesis unfolding s using big [of "num_int n div ?d"] by auto
  qed
qed

section \<open>Currency codes\<close>

definition isUpper :: "char \<Rightarrow> bool" where
  "isUpper c \<longleftrightarrow> 65 \<le> code c \<and> code c \<le> 90"

definition currency_Validate :: "string \<Rightarrow> unit res" where
  "currency_Validate c =
     (if length c < 3 \<or> length c > 16 \<or> \<not> isUpper (hd c) then Inl ErrInvalidCurrency
      else if list_all (\<lambda>x. isUpper x \<or> isDigit x \<or> x = CHR ''_'') c then ok
      else Inl ErrInvalidCurrency)"

lemma currency_Validate_ok:
  "currency_Validate c = ok \<longleftrightarrow>
    3 \<le> length c \<and> length c \<le> 16 \<and> isUpper (hd c) \<and>
    list_all (\<lambda>x. isUpper x \<or> isDigit x \<or> x = CHR ''_'') c"
  by (auto simp: currency_Validate_def)

section \<open>Properties\<close>

text \<open>
  C38. \<open>Add\<close> returns the exact sum whenever it returns one, fails only with \<open>ErrOverflow\<close>, and it fails
  exactly for the sums that \<open>checked\<close> does not let through: those outside \<open>\<plusminus>(10 ^ 38 - 1)\<close>, except
  \<open>- (2 ^ 127)\<close>.
\<close>

theorem amount_add_spec:
  "case amount_add a b of
     Inr s \<Rightarrow> aval s = aval a + aval b \<and> addable (aval a + aval b)
   | Inl e \<Rightarrow> e = ErrOverflow \<and> \<not> addable (aval a + aval b)"
  by (auto simp: amount_add_Inr amount_add_Inl split: sum.split)

text \<open>
  The range check of \<open>Add\<close> has a hole: there are two valid amounts whose sum is out of range and
  is returned without an error, because the absolute value of \<open>- (2 ^ 127)\<close> wraps to itself.
\<close>

theorem amount_add_escapes:
  "\<exists>a b s. amount_add a b = Inr s \<and> in_range (aval a) \<and> in_range (aval b) \<and> \<not> in_range (aval s)"
proof -
  define a where "a = \<lparr>hi = 0xC000000000000000, lo = 0\<rparr>"
  have a: "aval a = - (2 ^ 126)" by (simp add: aval_def a_def)
  have "in_range (aval a)" by (simp add: a in_range_def)
  moreover have "amount_add a a = Inr \<lparr>hi = 0x8000000000000000, lo = 0\<rparr>"
    by (simp add: a_def amount_add_def add64_def amount_checked_def amount_cmp_def amount_sign_def
        amount_abs_def amount_neg_def sub64_def maxAmount_def mul64_def pow19_def)
  moreover have "\<not> in_range (aval \<lparr>hi = 0x8000000000000000, lo = 0\<rparr>)"
    by (simp add: aval_def in_range_def)
  ultimately show ?thesis by blast
qed

text \<open>
  \<open>Sum\<close> of amounts that are not negative is exact, and succeeds exactly when the total is in
  range, in whatever order they are added.
\<close>

theorem sumAmounts_nonneg:
  assumes "\<forall>a \<in> set as. 0 \<le> aval a"
  shows "case sumAmounts as of
      Inr t \<Rightarrow> aval t = (\<Sum>a\<leftarrow>as. aval a) \<and> in_range (\<Sum>a\<leftarrow>as. aval a)
    | Inl e \<Rightarrow> e = ErrOverflow \<and> \<not> in_range (\<Sum>a\<leftarrow>as. aval a)"
proof -
  have "(\<exists>t. sumAmounts as = Inr t) \<longleftrightarrow> in_range (\<Sum>a\<leftarrow>as. aval a)"
    using record_arith.sum_from_nonneg [OF assms, of zero_amount]
    by (simp add: sumAmounts_def sumAmounts_from_eq record_arith.zero_val in_range_def)
  then show ?thesis
    using record_arith.sum_from_exact [of zero_amount as] record_arith.sum_from_error [of zero_amount as]
    by (auto simp: sumAmounts_def sumAmounts_from_eq record_arith.zero_val split: sum.split)
qed

lemma sumAmounts_nonneg_witness:
  "case sumAmounts [newAmount 5, newAmount 7] of
      Inr t \<Rightarrow> aval t = (\<Sum>a\<leftarrow>[newAmount 5, newAmount 7]. aval a) \<and>
        in_range (\<Sum>a\<leftarrow>[newAmount 5, newAmount 7]. aval a)
    | Inl e \<Rightarrow> e = ErrOverflow \<and> \<not> in_range (\<Sum>a\<leftarrow>[newAmount 5, newAmount 7]. aval a)"
  by (rule sumAmounts_nonneg) (simp add: newAmount_val)

text \<open>
  The amounts are totally ordered by the integers they stand for: \<open>Cmp\<close>, \<open>Sign\<close> and \<open>IsZero\<close> are
  comparison, sign and test for zero of the value, and two amounts are the same record when they
  have the same value.
\<close>

theorem amount_order:
  "amount_cmp a b = sgn (aval a - aval b) \<and> amount_sign a = sgn (aval a) \<and>
   (amount_isZero a \<longleftrightarrow> aval a = 0) \<and> (amount_cmp a b = 0 \<longleftrightarrow> a = b)"
  by (auto simp: amount_cmp_val amount_sign_val amount_isZero_val sgn_if aval_inject)

text \<open>
  C39. \<open>ParseAmount\<close> accepts exactly the canonical decimal texts of the integers in range, and returns
  the amount with that value: no plus sign, no leading zero, no negative zero, at most 38 digits.
\<close>

theorem parseAmount_spec:
  "parseAmount s = Inr a \<longleftrightarrow> s = showInt (aval a) \<and> in_range (aval a)"
  using parseAmount_Inr [of s a] parseAmount_showInt [of "aval a"] by (auto simp: aval_inject)

text \<open>
  \<open>String\<close> returns the decimal text of every 128-bit value without an error or panic, the text
  tells amounts apart, and parsing it returns the amount when that is in range.
\<close>

theorem amount_string_spec:
  "amount_string a = Inr (showInt (aval a)) \<and>
   (amount_string a = amount_string b \<longleftrightarrow> a = b) \<and>
   (parseAmount (showInt (aval a)) = Inr a \<longleftrightarrow> in_range (aval a))"
  using parseAmount_Inr [of "showInt (aval a)" a] parseAmount_showInt [of "aval a"]
  by (auto simp: amount_string_val showInt_inject aval_inject)

text \<open>
  A valid database numeric is accepted by \<open>ScanNumeric\<close> with value \<open>v\<close> exactly when \<open>v\<close> is an
  integer in range and the numeric \<open>Int * 10 ^ Exp\<close> equals it.
\<close>

theorem scanNumeric_spec:
  assumes "num_valid n" "\<not> num_nan n" "num_finite n"
  shows "(\<exists>a. scanNumeric n = Inr a \<and> aval a = v) \<longleftrightarrow>
    in_range v \<and> num_int n * 10 ^ nat (num_exp n) = v * 10 ^ nat (- num_exp n)"
  by (rule scanNumeric_val [OF assms])

lemma scanNumeric_spec_witness:
  "\<exists>a. scanNumeric \<lparr>num_int = 1500, num_exp = -2, num_nan = False, num_finite = True, num_valid = True\<rparr>
     = Inr a \<and> aval a = 15"
  by (subst scanNumeric_spec) (simp_all add: in_range_def)

end
