(* ===== verification/Json.thy ===== *)
theory Json
  imports AmountText
begin

text \<open>
  The JSON metadata of the ledger's objects: \<^verbatim>\<open>jsonEqual\<close>, \<^verbatim>\<open>decodeJSON\<close>, \<^verbatim>\<open>readJSON\<close>,
  \<^verbatim>\<open>jsonValueEqual\<close> and \<^verbatim>\<open>canonicalNumber\<close> of \<^verbatim>\<open>internal/modules/ledger/types.go\<close>, and
  \<^verbatim>\<open>mergePatch\<close>, \<^verbatim>\<open>decodeObject\<close>, \<^verbatim>\<open>applyUpdate\<close> of \<^verbatim>\<open>ledgers.go\<close>. Lexing is the standard library's
  (\<^verbatim>\<open>encoding/json/jsontext\<close>): a \<^verbatim>\<open>jsontext.Value\<close> is modelled by what its decoder delivers.
\<close>

section \<open>Values\<close>

text \<open>What \<^verbatim>\<open>readJSON\<close> builds. A Go map is an association list with distinct keys.\<close>

datatype json =
    JNull | JBool bool | JNum string | JStr string | JArr "json list" | JObj "(string \<times> json) list"

datatype token =
    BeginObject | EndObject | BeginArray | EndArray
  | StrTok string | NumTok string | BoolTok bool | NullTok

text \<open>A \<^verbatim>\<open>jsontext.Value\<close>: its length in bytes, how many of them are white space between the tokens,
  whether the bytes are valid UTF-8 without an escaped NUL, and its tokens (\<open>None\<close> when it is not
  well-formed JSON, \<open>Some []\<close> when it is blank).\<close>

record jvalue =
  jv_len :: nat
  jv_space :: nat
  jv_clean :: bool
  jv_tokens :: "token list option"

definition no_jvalue :: jvalue where
  "no_jvalue = \<lparr>jv_len = 0, jv_space = 0, jv_clean = True, jv_tokens = Some []\<rparr>"

definition empty_object :: jvalue where
  "empty_object = \<lparr>jv_len = 2, jv_space = 0, jv_clean = True, jv_tokens = Some [BeginObject, EndObject]\<rparr>"

definition jv_blank :: "jvalue \<Rightarrow> bool" where
  "jv_blank v \<longleftrightarrow> jv_tokens v = Some []"

section \<open>Decoding\<close>

text \<open>The decoder is the list of tokens it has yet to deliver; \<^verbatim>\<open>PeekKind\<close> looks at its head. The
  fuel bounds the recursion depth and is never short when it is the number of tokens plus one.\<close>

fun readJSON :: "nat \<Rightarrow> token list \<Rightarrow> (json \<times> token list) option"
and readMembers :: "nat \<Rightarrow> (string \<times> json) list \<Rightarrow> token list \<Rightarrow> (json \<times> token list) option"
and readElements :: "nat \<Rightarrow> json list \<Rightarrow> token list \<Rightarrow> (json \<times> token list) option" where
  "readJSON 0 ts = None"
| "readJSON (Suc n) [] = None"
| "readJSON (Suc n) (BeginObject # ts) = readMembers n [] ts"
| "readJSON (Suc n) (BeginArray # ts) = readElements n [] ts"
| "readJSON (Suc n) (StrTok s # ts) = Some (JStr s, ts)"
| "readJSON (Suc n) (NumTok s # ts) = Some (JNum s, ts)"
| "readJSON (Suc n) (BoolTok b # ts) = Some (JBool b, ts)"
| "readJSON (Suc n) (t # ts) = Some (JNull, ts)"
| "readMembers 0 obj ts = None"
| "readMembers (Suc n) obj (EndObject # ts) = Some (JObj obj, ts)"
| "readMembers (Suc n) obj (StrTok key # ts) =
     (case readJSON n ts of
        None \<Rightarrow> None
      | Some (v, ts') \<Rightarrow> readMembers n (AList.update key v obj) ts')"
| "readMembers (Suc n) obj ts = None"
| "readElements 0 arr ts = None"
| "readElements (Suc n) arr (EndArray # ts) = Some (JArr arr, ts)"
| "readElements (Suc n) arr ts =
     (case readJSON n ts of
        None \<Rightarrow> None
      | Some (v, ts') \<Rightarrow> readElements n (arr @ [v]) ts')"

definition decodeJSON :: "jvalue \<Rightarrow> json option" where
  "decodeJSON raw =
     (case jv_tokens raw of
        None \<Rightarrow> None
      | Some ts \<Rightarrow>
          (case readJSON (Suc (length ts)) ts of
             Some (v, []) \<Rightarrow> Some v
           | _ \<Rightarrow> None))"

text \<open>\<^verbatim>\<open>json.Unmarshal\<close> into a \<^verbatim>\<open>map[string]jsontext.Value\<close>, which unlike \<^verbatim>\<open>decodeJSON\<close> does not allow a
  name twice in an object, at any depth. A frame of the stack is an open array (\<open>None\<close>) or an open
  object, with the names seen and whether a name comes next.\<close>

fun value_read :: "(string list \<times> bool) option list \<Rightarrow> (string list \<times> bool) option list" where
  "value_read (Some (names, _) # stack) = Some (names, True) # stack"
| "value_read stack = stack"

fun names_unique :: "(string list \<times> bool) option list \<Rightarrow> token list \<Rightarrow> bool" where
  "names_unique stack [] = True"
| "names_unique stack (BeginObject # ts) = names_unique (Some ([], True) # stack) ts"
| "names_unique stack (BeginArray # ts) = names_unique (None # stack) ts"
| "names_unique stack (EndObject # ts) = names_unique (value_read (tl stack)) ts"
| "names_unique stack (EndArray # ts) = names_unique (value_read (tl stack)) ts"
| "names_unique (Some (names, True) # stack) (StrTok s # ts) =
     (s \<notin> set names \<and> names_unique (Some (s # names, False) # stack) ts)"
| "names_unique stack (t # ts) = names_unique (value_read stack) ts"

definition unmarshalsObject :: "jvalue \<Rightarrow> bool" where
  "unmarshalsObject raw \<longleftrightarrow>
     (case decodeJSON raw of Some (JObj _) \<Rightarrow> names_unique [] (the (jv_tokens raw)) | _ \<Rightarrow> False)"

section \<open>Numbers\<close>

definition splitAt :: "(char \<Rightarrow> bool) \<Rightarrow> string \<Rightarrow> (string \<times> string) option" where
  "splitAt p s = (if list_ex p s then Some (takeWhile (\<lambda>c. \<not> p c) s, tl (dropWhile (\<lambda>c. \<not> p c) s)) else None)"

text \<open>\<^verbatim>\<open>strconv.Atoi\<close>: an optional sign and digits, in the range of an \<^verbatim>\<open>int\<close>.\<close>

definition atoi :: "string \<Rightarrow> int option" where
  "atoi s =
     (let neg = (s \<noteq> [] \<and> hd s = CHR ''-'');
          ds = (if s \<noteq> [] \<and> (hd s = CHR ''-'' \<or> hd s = CHR ''+'') then tl s else s);
          n = (if neg then - int (readNat ds) else int (readNat ds))
      in if ds = [] \<or> \<not> list_all isDigit ds \<or> n < - (2 ^ 63) \<or> 2 ^ 63 \<le> n then None else Some n)"

definition trimLeft0 :: "string \<Rightarrow> string" where
  "trimLeft0 s = dropWhile (\<lambda>c. c = CHR ''0'') s"

definition trimRight0 :: "string \<Rightarrow> string" where
  "trimRight0 s = rev (dropWhile (\<lambda>c. c = CHR ''0'') (rev s))"

text \<open>An \<^verbatim>\<open>int\<close> of Go has 64 bits; \<open>wrap64\<close> is its arithmetic.\<close>

definition wrap64 :: "int \<Rightarrow> int" where
  "wrap64 n = (n + 2 ^ 63) mod 2 ^ 64 - 2 ^ 63"

definition canonicalNumber :: "string \<Rightarrow> string" where
  "canonicalNumber n =
     (let sign = (if n \<noteq> [] \<and> hd n = CHR ''-'' then ''-'' else []);
          s = (if n \<noteq> [] \<and> hd n = CHR ''-'' then tl n else n);
          parts = (case splitAt (\<lambda>c. c = CHR ''e'' \<or> c = CHR ''E'') s of
                     None \<Rightarrow> Some (s, 0)
                   | Some (m, e) \<Rightarrow> map_option (\<lambda>k. (m, k)) (atoi e))
      in case parts of
           None \<Rightarrow> n
         | Some (s, exp) \<Rightarrow>
             let (digits, exp) =
                   (case splitAt (\<lambda>c. c = CHR ''.'') s of
                      None \<Rightarrow> (s, exp)
                    | Some (whole, fraction) \<Rightarrow> (whole @ fraction, wrap64 (exp - int (length fraction))));
                 digits = trimLeft0 digits
             in if digits = [] then ''0''
                else let trimmed = trimRight0 digits;
                         exp = wrap64 (exp + int (length digits - length trimmed))
                     in sign @ trimmed @ ''e'' @ showInt exp)"

section \<open>Equality\<close>

lemma size_member: "(k, v) \<in> set kvs \<Longrightarrow> size v < size (JObj kvs)"
  by (induction kvs) auto

lemma size_element: "v \<in> set vs \<Longrightarrow> size v < size (JArr vs)"
  by (induction vs) auto

function (sequential) jsonValueEqual :: "json \<Rightarrow> json \<Rightarrow> bool" where
  "jsonValueEqual (JObj a) (JObj b) \<longleftrightarrow>
     length a = length b \<and>
     list_all (\<lambda>(k, av). case map_of b k of None \<Rightarrow> False | Some bv \<Rightarrow> jsonValueEqual av bv) a"
| "jsonValueEqual (JArr a) (JArr b) \<longleftrightarrow>
     length a = length b \<and> list_all (\<lambda>(x, y). jsonValueEqual x y) (zip a b)"
| "jsonValueEqual (JNum a) (JNum b) \<longleftrightarrow> canonicalNumber a = canonicalNumber b"
| "jsonValueEqual (JStr a) (JStr b) \<longleftrightarrow> a = b"
| "jsonValueEqual (JBool a) (JBool b) \<longleftrightarrow> a = b"
| "jsonValueEqual JNull JNull \<longleftrightarrow> True"
| "jsonValueEqual _ _ \<longleftrightarrow> False"
  by pat_completeness auto

termination
  by (relation "measure (\<lambda>(a, b). size a)")
    (auto dest!: size_member size_element set_zip_leftD)

definition decodeOrEmpty :: "jvalue \<Rightarrow> json option" where
  "decodeOrEmpty raw = (if jv_blank raw then Some (JObj []) else decodeJSON raw)"

definition jsonEqual :: "jvalue \<Rightarrow> jvalue \<Rightarrow> bool" where
  "jsonEqual a b =
     (case (decodeOrEmpty a, decodeOrEmpty b) of
        (Some av, Some bv) \<Rightarrow> jsonValueEqual av bv
      | _ \<Rightarrow> False)"

text \<open>\<^verbatim>\<open>normalizeMetadata\<close>: blank metadata becomes the empty object, the rest loses its white space,
  which no token carries; what is not JSON stays as it is.\<close>

definition normalizeMetadata :: "jvalue \<Rightarrow> jvalue" where
  "normalizeMetadata raw =
     (if jv_blank raw then empty_object
      else if jv_tokens raw = None then raw
      else raw\<lparr>jv_len := jv_len raw - jv_space raw, jv_space := 0\<rparr>)"

section \<open>Encoding\<close>

text \<open>The tokens, the length and the cleanliness of \<^verbatim>\<open>json.Marshal(v, json.Deterministic(true))\<close>:
  a control character takes two bytes when it has a short escape and six otherwise.\<close>

fun tokens_of :: "json \<Rightarrow> token list" where
  "tokens_of JNull = [NullTok]"
| "tokens_of (JBool b) = [BoolTok b]"
| "tokens_of (JNum n) = [NumTok n]"
| "tokens_of (JStr s) = [StrTok s]"
| "tokens_of (JArr vs) = BeginArray # concat (map tokens_of vs) @ [EndArray]"
| "tokens_of (JObj kvs) =
     BeginObject # concat (map (\<lambda>(k, v). StrTok k # tokens_of v) kvs) @ [EndObject]"

definition char_len :: "char \<Rightarrow> nat" where
  "char_len c =
     (if code c \<in> {34, 92, 8, 9, 10, 12, 13} then 2 else if code c < 32 then 6 else 1)"

definition str_len :: "string \<Rightarrow> nat" where
  "str_len s = 2 + sum_list (map char_len s)"

fun text_len :: "json \<Rightarrow> nat" where
  "text_len JNull = 4"
| "text_len (JBool b) = (if b then 4 else 5)"
| "text_len (JNum n) = length n"
| "text_len (JStr s) = str_len s"
| "text_len (JArr vs) = 2 + (length vs - 1) + sum_list (map text_len vs)"
| "text_len (JObj kvs) =
     2 + (length kvs - 1) + sum_list (map (\<lambda>(k, v). str_len k + 1 + text_len v) kvs)"

fun text_clean :: "json \<Rightarrow> bool" where
  "text_clean (JStr s) = list_all (\<lambda>c. code c \<noteq> 0) s"
| "text_clean (JArr vs) = list_all text_clean vs"
| "text_clean (JObj kvs) =
     list_all (\<lambda>(k, v). list_all (\<lambda>c. code c \<noteq> 0) k \<and> text_clean v) kvs"
| "text_clean _ = True"

definition marshal :: "json \<Rightarrow> jvalue" where
  "marshal v = \<lparr>jv_len = text_len v, jv_space = 0, jv_clean = text_clean v, jv_tokens = Some (tokens_of v)\<rparr>"

section \<open>Merge patches\<close>

definition members :: "json option \<Rightarrow> (string \<times> json) list" where
  "members v = (case v of Some (JObj kvs) \<Rightarrow> kvs | _ \<Rightarrow> [])"

function (sequential) mergePatch ::
  "(string \<times> json) list \<Rightarrow> (string \<times> json) list \<Rightarrow> (string \<times> json) list" where
  "mergePatch target [] = target"
| "mergePatch target ((k, JNull) # patch) = mergePatch (AList.delete k target) patch"
| "mergePatch target ((k, JObj v) # patch) =
     mergePatch (AList.update k (JObj (mergePatch (members (map_of target k)) v)) target) patch"
| "mergePatch target ((k, v) # patch) = mergePatch (AList.update k v target) patch"
  by pat_completeness auto

termination
  by (relation "measure (\<lambda>(target, patch). size (JObj patch))") auto

definition decodeObject :: "jvalue \<Rightarrow> (string \<times> json) list res" where
  "decodeObject raw =
     (if jv_blank raw then Inr []
      else case decodeJSON raw of Some (JObj kvs) \<Rightarrow> Inr kvs | _ \<Rightarrow> Inl ErrInvalid)"

section \<open>Well-formed values\<close>

text \<open>The keys of every Go map are distinct.\<close>

fun json_wf :: "json \<Rightarrow> bool" where
  "json_wf (JArr vs) \<longleftrightarrow> list_all json_wf vs"
| "json_wf (JObj kvs) \<longleftrightarrow> distinct (map fst kvs) \<and> list_all (\<lambda>(k, v). json_wf v) kvs"
| "json_wf _ \<longleftrightarrow> True"

lemma json_wf_update:
  assumes "json_wf (JObj kvs)" "json_wf v"
  shows "json_wf (JObj (AList.update k v kvs))"
  using assms by (induction kvs) (auto simp: fst_set_update list_all_iff image_iff)

lemma readJSON_wf_all:
  "(readJSON n ts = Some (v, rest) \<longrightarrow> json_wf v) \<and>
   (json_wf (JObj obj) \<longrightarrow> readMembers n obj ts = Some (v, rest) \<longrightarrow> json_wf v) \<and>
   (json_wf (JArr arr) \<longrightarrow> readElements n arr ts = Some (v, rest) \<longrightarrow> json_wf v)"
proof (induction n arbitrary: ts obj arr v rest)
  case (Suc n)
  have val: "readJSON n ts' = Some (v', rest') \<Longrightarrow> json_wf v'" for ts' v' rest'
    using Suc.IH by blast
  have obj: "json_wf (JObj obj') \<Longrightarrow> readMembers n obj' ts' = Some (v', rest') \<Longrightarrow> json_wf v'"
    for obj' ts' v' rest' using Suc.IH by blast
  have arr: "json_wf (JArr arr') \<Longrightarrow> readElements n arr' ts' = Some (v', rest') \<Longrightarrow> json_wf v'"
    for arr' ts' v' rest' using Suc.IH by blast
  show ?case
  proof (cases ts)
    case Nil
    moreover have "readJSON n [] = None" by (cases n) auto
    ultimately show ?thesis by auto
  next
    case (Cons t rest')
    have "json_wf v" if "json_wf (JObj obj)" "readMembers (Suc n) obj ts = Some (v, rest)"
    proof (cases t)
      case (StrTok key)
      with that Cons obtain w ts' where "readJSON n rest' = Some (w, ts')"
        and "readMembers n (AList.update key w obj) ts' = Some (v, rest)"
        by (auto split: option.splits)
      then show ?thesis using that(1) val obj json_wf_update by metis
    qed (use that Cons in auto)
    moreover have "json_wf v" if "json_wf (JArr arr)" "readElements (Suc n) arr ts = Some (v, rest)"
    proof (cases "t = EndArray")
      case False
      with that Cons obtain w ts' where "readJSON n ts = Some (w, ts')"
        and "readElements n (arr @ [w]) ts' = Some (v, rest)"
        by (cases t) (auto split: option.splits)
      moreover from this have "json_wf (JArr (arr @ [w]))" using that(1) val by simp
      ultimately show ?thesis using arr by metis
    qed (use that Cons in auto)
    moreover have "json_wf v" if "readJSON (Suc n) ts = Some (v, rest)"
      using that Cons obj [of "[]"] arr [of "[]"] by (cases t) auto
    ultimately show ?thesis by blast
  qed
qed simp

lemma readJSON_wf: "readJSON n ts = Some (v, rest) \<Longrightarrow> json_wf v"
  using readJSON_wf_all by blast

lemma decodeJSON_wf: "decodeJSON raw = Some v \<Longrightarrow> json_wf v"
  by (auto simp: decodeJSON_def split: option.splits list.splits dest: readJSON_wf)

lemma map_of_key_eq:
  "distinct (map fst kvs) \<Longrightarrow> length kvs = length lvs \<Longrightarrow> fst ` set kvs \<subseteq> fst ` set lvs \<Longrightarrow>
    distinct (map fst lvs) \<Longrightarrow> fst ` set kvs = fst ` set lvs"
  by (metis card_subset_eq distinct_card finite_imageI finite_set length_map set_map)

text \<open>On objects, \<^const>\<open>jsonValueEqual\<close> compares the two maps key by key.\<close>

lemma jsonValueEqual_JObj:
  assumes "json_wf (JObj a)" "json_wf (JObj b)"
  shows "jsonValueEqual (JObj a) (JObj b) \<longleftrightarrow>
    (\<forall>k. rel_option jsonValueEqual (map_of a k) (map_of b k))"
proof -
  have da: "distinct (map fst a)" and db: "distinct (map fst b)" using assms by auto
  show ?thesis
  proof
    assume eq: "jsonValueEqual (JObj a) (JObj b)"
    then have mem: "\<exists>bv. map_of b k = Some bv \<and> jsonValueEqual av bv" if "(k, av) \<in> set a" for k av
      using that by (auto simp: list_all_iff split: option.splits)
    then have "fst ` set a \<subseteq> fst ` set b"
      by (auto simp: image_iff) (metis fst_conv map_of_SomeD)
    then have "fst ` set a = fst ` set b"
      using eq da db by (intro map_of_key_eq) auto
    then show "\<forall>k. rel_option jsonValueEqual (map_of a k) (map_of b k)"
      using mem by (metis map_of_SomeD map_of_eq_None_iff not_None_eq option.rel_intros)
  next
    assume rel: "\<forall>k. rel_option jsonValueEqual (map_of a k) (map_of b k)"
    then have "dom (map_of a) = dom (map_of b)"
      by (force simp: rel_option_iff split: option.splits)
    then have "fst ` set a = fst ` set b" by (simp add: dom_map_of_conv_image_fst)
    then have "length a = length b" using da db by (metis distinct_card length_map set_map)
    moreover have "case map_of b k of None \<Rightarrow> False | Some bv \<Rightarrow> jsonValueEqual av bv"
      if "(k, av) \<in> set a" for k av
      using rel [THEN spec, of k] that da by (auto simp: option_rel_Some1)
    ultimately show "jsonValueEqual (JObj a) (JObj b)" by (auto simp: list_all_iff)
  qed
qed

lemma json_wf_member: "json_wf (JObj kvs) \<Longrightarrow> map_of kvs k = Some v \<Longrightarrow> json_wf v"
  by (auto simp: list_all_iff dest!: map_of_SomeD)

lemma json_wf_element: "json_wf (JArr vs) \<Longrightarrow> v \<in> set vs \<Longrightarrow> json_wf v"
  by (auto simp: list_all_iff)

lemma size_lookup: "map_of kvs k = Some v \<Longrightarrow> size v < size (JObj kvs)"
  by (rule size_member) (rule map_of_SomeD)

lemma jsonValueEqual_refl: "json_wf v \<Longrightarrow> jsonValueEqual v v"
proof (induction "size v" arbitrary: v rule: less_induct)
  case less
  show ?case
  proof (cases v)
    case (JArr vs)
    then have "jsonValueEqual x x" if "x \<in> set vs" for x
      using less that size_element json_wf_element by blast
    then show ?thesis using JArr by (auto simp: list_all_iff zip_same)
  next
    case (JObj kvs)
    then have "jsonValueEqual x x" if "map_of kvs k = Some x" for k x
      using less that size_lookup json_wf_member by blast
    then have "rel_option jsonValueEqual (map_of kvs k) (map_of kvs k)" for k
      by (cases "map_of kvs k") auto
    then show ?thesis using JObj less.prems jsonValueEqual_JObj by blast
  qed auto
qed

lemma jsonValueEqual_sym:
  "json_wf a \<Longrightarrow> json_wf b \<Longrightarrow> jsonValueEqual a b \<Longrightarrow> jsonValueEqual b a"
proof (induction "size a" arbitrary: a b rule: less_induct)
  case less
  show ?case
  proof (cases a)
    case (JArr vs)
    then obtain ws where b: "b = JArr ws" "length vs = length ws" using less.prems(3) by (cases b) auto
    have "jsonValueEqual (ws ! i) (vs ! i)" if "i < length vs" for i
    proof (rule less.hyps)
      show "size (vs ! i) < size a" using that JArr size_element by simp
      show "json_wf (vs ! i)" "json_wf (ws ! i)"
        using less.prems(1,2) that JArr b json_wf_element by (metis nth_mem)+
      show "jsonValueEqual (vs ! i) (ws ! i)"
        using less.prems(3) that JArr b by (auto simp: list_all_length)
    qed
    then show ?thesis using JArr b by (auto simp: list_all_length)
  next
    case (JObj kvs)
    then obtain lvs where b: "b = JObj lvs" using less.prems(3) by (cases b) auto
    have rel: "rel_option jsonValueEqual (map_of kvs k) (map_of lvs k)" for k
      using less.prems JObj b jsonValueEqual_JObj by blast
    have "rel_option jsonValueEqual (map_of lvs k) (map_of kvs k)" for k
    proof (cases "map_of kvs k")
      case None
      then show ?thesis using rel [of k] by simp
    next
      case (Some v)
      then obtain w where w: "map_of lvs k = Some w" "jsonValueEqual v w"
        using rel [of k] by (auto simp: option_rel_Some1)
      have "jsonValueEqual w v"
        using less.hyps [of v w] less.prems(1,2) JObj b Some w size_lookup json_wf_member by metis
      then show ?thesis using Some w by simp
    qed
    then show ?thesis using less.prems(1,2) JObj b jsonValueEqual_JObj by blast
  qed (use less.prems in \<open>cases b; simp\<close>)+
qed

lemma jsonValueEqual_trans:
  "json_wf a \<Longrightarrow> json_wf b \<Longrightarrow> json_wf c \<Longrightarrow> jsonValueEqual a b \<Longrightarrow> jsonValueEqual b c \<Longrightarrow>
    jsonValueEqual a c"
proof (induction "size a" arbitrary: a b c rule: less_induct)
  case less
  show ?case
  proof (cases a)
    case (JArr vs)
    then obtain ws where b: "b = JArr ws" "length vs = length ws" using less.prems by (cases b) auto
    then obtain us where c: "c = JArr us" "length ws = length us" using less.prems by (cases c) auto
    have "jsonValueEqual (vs ! i) (us ! i)" if "i < length vs" for i
    proof (rule less.hyps)
      show "size (vs ! i) < size a" using that JArr size_element by simp
      show "json_wf (vs ! i)" "json_wf (ws ! i)" "json_wf (us ! i)"
        using less.prems(1-3) that JArr b c json_wf_element by (metis nth_mem)+
      show "jsonValueEqual (vs ! i) (ws ! i)" "jsonValueEqual (ws ! i) (us ! i)"
        using less.prems(4,5) that JArr b c by (auto simp: list_all_length)
    qed
    then show ?thesis using JArr b c by (auto simp: list_all_length)
  next
    case (JObj kvs)
    then obtain lvs where b: "b = JObj lvs" using less.prems by (cases b) auto
    then obtain mvs where c: "c = JObj mvs" using less.prems by (cases c) auto
    have rel: "rel_option jsonValueEqual (map_of kvs k) (map_of lvs k)"
      "rel_option jsonValueEqual (map_of lvs k) (map_of mvs k)" for k
      using less.prems JObj b c jsonValueEqual_JObj by blast+
    have "rel_option jsonValueEqual (map_of kvs k) (map_of mvs k)" for k
    proof (cases "map_of kvs k")
      case None
      then show ?thesis using rel [of k] by simp
    next
      case (Some v)
      then obtain w where w: "map_of lvs k = Some w" "jsonValueEqual v w"
        using rel(1) [of k] by (auto simp: option_rel_Some1)
      then obtain u where u: "map_of mvs k = Some u" "jsonValueEqual w u"
        using rel(2) [of k] by (auto simp: option_rel_Some1)
      have "jsonValueEqual v u"
        using less.hyps [of v w u] less.prems(1-3) JObj b c Some w u size_lookup json_wf_member
        by metis
      then show ?thesis using Some u by simp
    qed
    then show ?thesis using less.prems(1,3) JObj c jsonValueEqual_JObj by blast
  qed (use less.prems in \<open>cases b; cases c; simp\<close>)+
qed

section \<open>Decoding what was encoded\<close>

lemma update_fresh: "k \<notin> fst ` set al \<Longrightarrow> AList.update k v al = al @ [(k, v)]"
  by (induction al) auto

lemma readElements_step:
  "t \<noteq> EndArray \<Longrightarrow> readElements (Suc n) arr (t # ts) =
     (case readJSON n (t # ts) of None \<Rightarrow> None | Some (v, ts') \<Rightarrow> readElements n (arr @ [v]) ts')"
  by (cases t) simp_all

lemma tokens_of_hd: "\<exists>t ts. tokens_of v = t # ts \<and> t \<noteq> EndArray"
  by (cases v) auto

lemma readJSON_tokens_of:
  "json_wf v \<Longrightarrow> length (tokens_of v) < n \<Longrightarrow> readJSON n (tokens_of v @ rest) = Some (v, rest)"
proof (induction "size v" arbitrary: v n rest rule: less_induct)
  case less
  obtain m where n: "n = Suc m" using less.prems(2) by (cases n) auto
  show ?case
  proof (cases v)
    case (JArr vs)
    have elements: "readElements k arr (concat (map tokens_of ws) @ EndArray # rest)
        = Some (JArr (arr @ ws), rest)"
      if "set ws \<subseteq> set vs" "Suc (length (concat (map tokens_of ws))) < k" for ws k arr
      using that
    proof (induction ws arbitrary: k arr)
      case Nil
      then show ?case by (cases k) auto
    next
      case (Cons w ws)
      obtain t ts where w: "tokens_of w = t # ts" "t \<noteq> EndArray" using tokens_of_hd by blast
      obtain j where k: "k = Suc j" using Cons.prems(2) by (cases k) auto
      have "readJSON j (tokens_of w @ concat (map tokens_of ws) @ EndArray # rest)
          = Some (w, concat (map tokens_of ws) @ EndArray # rest)"
        using Cons.prems k w less.prems(1) JArr json_wf_element size_element
        by (intro less.hyps) auto
      then show ?case
        using Cons.IH [of j "arr @ [w]"] Cons.prems k w by (simp add: readElements_step)
    qed
    show ?thesis
      using elements [of vs m "[]"] less.prems(2) JArr n by simp
  next
    case (JObj kvs)
    let ?toks = "\<lambda>(k, v). StrTok k # tokens_of v"
    have members: "readMembers k obj (concat (map ?toks ws) @ EndObject # rest)
        = Some (JObj (obj @ ws), rest)"
      if "set ws \<subseteq> set kvs" "Suc (length (concat (map ?toks ws))) < k" "distinct (map fst (obj @ ws))"
      for ws k obj
      using that
    proof (induction ws arbitrary: k obj)
      case Nil
      then show ?case by (cases k) auto
    next
      case (Cons w ws)
      obtain key x where w: "w = (key, x)" by (cases w)
      obtain j where k: "k = Suc j" using Cons.prems(2) by (cases k) auto
      have "readJSON j (tokens_of x @ concat (map ?toks ws) @ EndObject # rest)
          = Some (x, concat (map ?toks ws) @ EndObject # rest)"
        using Cons.prems k w less.prems(1) JObj size_member
        by (intro less.hyps) (auto simp: list_all_iff)
      moreover have "AList.update key x obj = obj @ [(key, x)]"
        using Cons.prems(3) w by (intro update_fresh) auto
      ultimately show ?case
        using Cons.IH [of j "obj @ [(key, x)]"] Cons.prems k w by simp
    qed
    show ?thesis
      using members [of kvs m "[]"] less.prems JObj n by simp
  qed (use n in simp_all)
qed

lemma decode_marshal: "json_wf v \<Longrightarrow> decodeJSON (marshal v) = Some v"
  using readJSON_tokens_of [of v "Suc (length (tokens_of v))" "[]"]
  by (simp add: decodeJSON_def marshal_def)

section \<open>The meaning of a merge patch\<close>

definition merged :: "json option \<Rightarrow> json option \<Rightarrow> json option" where
  "merged old new =
     (case new of
        None \<Rightarrow> old
      | Some JNull \<Rightarrow> None
      | Some (JObj v) \<Rightarrow> Some (JObj (mergePatch (members old) v))
      | Some v \<Rightarrow> Some v)"

lemma mergePatch_lookup:
  "distinct (map fst patch) \<Longrightarrow>
    map_of (mergePatch target patch) k = merged (map_of target k) (map_of patch k)"
proof (induction patch arbitrary: target)
  case Nil
  then show ?case by (simp add: merged_def)
next
  case (Cons kv patch)
  obtain key v where kv: "kv = (key, v)" by (cases kv)
  have "\<exists>t. mergePatch target (kv # patch) = mergePatch t patch \<and>
      map_of t = (map_of target)(key := merged (map_of target key) (Some v))"
    using kv by (cases v) (auto simp: merged_def delete_conv')
  then obtain t where t: "mergePatch target (kv # patch) = mergePatch t patch"
    "map_of t = (map_of target)(key := merged (map_of target key) (Some v))" by blast
  have fresh: "map_of patch key = None"
    using Cons.prems kv by (auto simp: map_of_eq_None_iff)
  have "map_of (mergePatch t patch) k = merged (map_of t k) (map_of patch k)"
    using Cons by simp
  then show ?case using fresh unfolding t by (cases "k = key") (auto simp: merged_def kv)
qed

lemma mergePatch_distinct:
  "distinct (map fst target) \<Longrightarrow> distinct (map fst (mergePatch target patch))"
proof (induction "length patch" arbitrary: target patch)
  case (Suc n)
  then obtain k v p where "patch = (k, v) # p" by (cases patch) auto
  then show ?case using Suc by (cases v) (auto simp: distinct_delete)
qed simp

lemma mergePatch_wf:
  "json_wf (JObj target) \<Longrightarrow> json_wf (JObj patch) \<Longrightarrow> json_wf (JObj (mergePatch target patch))"
proof (induction "size (JObj patch)" arbitrary: target patch rule: less_induct)
  case less
  let ?m = "mergePatch target patch"
  have d: "distinct (map fst ?m)" using less.prems mergePatch_distinct by auto
  have "json_wf v" if "map_of ?m k = Some v" for k v
  proof -
    have m: "merged (map_of target k) (map_of patch k) = Some v"
      using that less.prems(2) mergePatch_lookup by auto
    have "json_wf (JObj (members (map_of target k)))"
      using json_wf_member [OF less.prems(1), of k]
      by (auto simp: members_def split: option.splits json.splits)
    then show ?thesis
      using m less.hyps less.prems json_wf_member [OF less.prems(2), of k]
        json_wf_member [OF less.prems(1), of k] size_lookup [of patch k]
      by (auto simp: merged_def split: option.splits json.splits simp del: json_wf.simps(2))
  qed
  then show ?case using d by (auto simp: list_all_iff)
qed

text \<open>Applying a patch a second time changes nothing.\<close>

lemma merged_idem:
  assumes "\<And>v m. new = Some (JObj v) \<Longrightarrow> m = mergePatch (members old) v \<Longrightarrow>
      jsonValueEqual (JObj (mergePatch m v)) (JObj m)"
    and "\<And>x. merged old new = Some x \<Longrightarrow> json_wf x"
  shows "rel_option jsonValueEqual (merged (merged old new) new) (merged old new)"
proof (cases new)
  case None
  then show ?thesis
    using assms(2) by (cases old) (auto simp: merged_def intro: jsonValueEqual_refl)
next
  case (Some v)
  then show ?thesis
    using assms jsonValueEqual_refl [of v]
    by (cases v) (auto simp: merged_def members_def simp del: jsonValueEqual.simps)
qed

lemma mergePatch_idem:
  "json_wf (JObj target) \<Longrightarrow> json_wf (JObj patch) \<Longrightarrow>
    jsonValueEqual (JObj (mergePatch (mergePatch target patch) patch)) (JObj (mergePatch target patch))"
proof (induction "size (JObj patch)" arbitrary: target patch rule: less_induct)
  case less
  let ?m = "mergePatch target patch"
  have wf: "json_wf (JObj ?m)" using less.prems mergePatch_wf by blast
  have d: "distinct (map fst patch)" using less.prems by simp
  have "rel_option jsonValueEqual (map_of (mergePatch ?m patch) k) (map_of ?m k)" for k
    unfolding mergePatch_lookup [OF d]
  proof (rule merged_idem)
    fix v m assume v: "map_of patch k = Some (JObj v)" and m: "m = mergePatch (members (map_of target k)) v"
    have "json_wf (JObj (members (map_of target k)))"
      using json_wf_member [OF less.prems(1), of k]
      by (auto simp: members_def split: option.splits json.splits)
    then show "jsonValueEqual (JObj (mergePatch m v)) (JObj m)"
      unfolding m using v less.hyps less.prems(2) json_wf_member size_lookup by blast
  next
    fix x assume "merged (map_of target k) (map_of patch k) = Some x"
    then have "map_of ?m k = Some x" by (simp add: mergePatch_lookup [OF d])
    then show "json_wf x" using wf json_wf_member by blast
  qed
  then show ?case
    using wf mergePatch_wf [OF wf less.prems(2)] jsonValueEqual_JObj by blast
qed

section \<open>Properties\<close>

text \<open>
  Metadata comparison is an equivalence: it is reflexive on all metadata that decodes, symmetric,
  and transitive. Replays compare the stored request with the new one by it.
\<close>

theorem jsonEqual_equivalence:
  "(jsonEqual a a \<longleftrightarrow> decodeOrEmpty a \<noteq> None) \<and> (jsonEqual a b \<longleftrightarrow> jsonEqual b a) \<and>
   (jsonEqual a b \<and> jsonEqual b c \<longrightarrow> jsonEqual a c)"
proof -
  have wf: "json_wf v" if "decodeOrEmpty x = Some v" for x v
    using that decodeJSON_wf by (auto simp: decodeOrEmpty_def split: if_splits)
  have "jsonEqual a a \<longleftrightarrow> decodeOrEmpty a \<noteq> None"
    using wf jsonValueEqual_refl by (auto simp: jsonEqual_def split: option.splits)
  moreover have "jsonEqual x y \<Longrightarrow> jsonEqual y x" for x y
    using wf jsonValueEqual_sym by (auto simp: jsonEqual_def split: option.splits)
  moreover have "jsonEqual a b \<Longrightarrow> jsonEqual b c \<Longrightarrow> jsonEqual a c"
    unfolding jsonEqual_def using jsonValueEqual_trans wf by (simp split: option.splits) metis
  ultimately show ?thesis by blast
qed

definition sample_tags :: json where
  "sample_tags = JObj [(''a'', JNum ''1.50''), (''b'', JArr [JBool True, JStr ''x''])]"

lemma jsonEqual_equivalence_witness:
  "jsonEqual (marshal (JObj [])) no_jvalue \<and> jsonEqual no_jvalue empty_object \<and>
   jsonEqual (marshal (JObj [])) empty_object"
proof -
  have "jsonEqual (marshal (JObj [])) no_jvalue" "jsonEqual no_jvalue empty_object"
    by (simp_all add: jsonEqual_def decodeOrEmpty_def marshal_def no_jvalue_def empty_object_def
        jv_blank_def decodeJSON_def numeral_eq_Suc)
  then show ?thesis
    using jsonEqual_equivalence [of "marshal (JObj [])" no_jvalue empty_object] by blast
qed

text \<open>
  Decoding what \<open>json.Marshal\<close> wrote gives the value back, for every value with distinct keys.
\<close>

theorem decodeJSON_marshal: "json_wf v \<Longrightarrow> decodeJSON (marshal v) = Some v"
  by (rule decode_marshal)

lemma decodeJSON_marshal_witness: "decodeJSON (marshal sample_tags) = Some sample_tags"
  by (rule decodeJSON_marshal) (simp add: sample_tags_def)

text \<open>
  A merge patch removes the keys set to null, merges the objects and replaces every other value;
  it leaves the keys it does not name alone, keeps the keys distinct, and applying it twice is the
  same as applying it once.
\<close>

theorem mergePatch_spec:
  assumes "json_wf (JObj target)" "json_wf (JObj patch)"
  shows "map_of (mergePatch target patch) k = merged (map_of target k) (map_of patch k) \<and>
    json_wf (JObj (mergePatch target patch)) \<and>
    jsonValueEqual (JObj (mergePatch (mergePatch target patch) patch)) (JObj (mergePatch target patch))"
  using assms mergePatch_lookup [of patch target k] mergePatch_wf mergePatch_idem by simp

lemma mergePatch_spec_witness:
  "map_of (mergePatch [(''a'', JNum ''1''), (''b'', JNull)] [(''a'', JNull), (''c'', JStr ''x'')]) ''c''
     = Some (JStr ''x'')"
  by (subst mergePatch_spec [THEN conjunct1]) (simp_all add: merged_def)

end
