(* ===== verification/Types.thy ===== *)
theory Types
  imports Json
begin

text \<open>
  The ledger's data: \<^verbatim>\<open>types.go\<close>, \<^verbatim>\<open>types_accounts.go\<close>, \<^verbatim>\<open>types_transactions.go\<close>,
  \<^verbatim>\<open>types_holds.go\<close> and \<^verbatim>\<open>types_ledgers.go\<close> of \<^verbatim>\<open>internal/modules/ledger\<close>. A
  \<^verbatim>\<open>money.Amount\<close> is the integer it stands for; the operations on it are those of the theory
  Amount that are proved to be the record operations read through \<open>aval\<close>. A nil pointer is
  \<open>None\<close>; a Go string type with constants is a datatype with a constructor for each constant and
  one for every other string.
\<close>

section \<open>Sides and balances\<close>

datatype side = Debit | Credit | OtherSide string

fun side_valid :: "side \<Rightarrow> bool" where
  "side_valid s \<longleftrightarrow> s = Debit \<or> s = Credit"

fun opposite :: "side \<Rightarrow> side" where
  "opposite s = (if s = Debit then Credit else Debit)"

record balance =
  debits :: int
  credits :: int
  net :: int

record balances =
  b_pending :: balance
  b_posted :: balance
  b_available :: balance

record balance_condition =
  cond_gt :: "int option"
  cond_gte :: "int option"
  cond_eq :: "int option"
  cond_lt :: "int option"
  cond_lte :: "int option"
  cond_not_eq :: "int option"

text \<open>\<^verbatim>\<open>violation\<close> returns the name of the first bound that does not hold, and the empty string
  when all hold; the rest of the message is left out.\<close>

fun first_violation :: "(string \<times> int option \<times> (int \<Rightarrow> int \<Rightarrow> bool)) list \<Rightarrow> int \<Rightarrow> string" where
  "first_violation [] v = []"
| "first_violation ((op, bound, holds) # bs) v =
     (case bound of
        None \<Rightarrow> first_violation bs v
      | Some b \<Rightarrow> if holds v b then first_violation bs v else op)"

definition violation :: "balance_condition option \<Rightarrow> int \<Rightarrow> string" where
  "violation c v =
     (case c of
        None \<Rightarrow> []
      | Some c \<Rightarrow> first_violation
          [(''gt'', cond_gt c, \<lambda>v b. v > b), (''gte'', cond_gte c, \<lambda>v b. v \<ge> b),
           (''eq'', cond_eq c, \<lambda>v b. v = b), (''lt'', cond_lt c, \<lambda>v b. v < b),
           (''lte'', cond_lte c, \<lambda>v b. v \<le> b), (''not_eq'', cond_not_eq c, \<lambda>v b. v \<noteq> b)] v)"

record alert_condition =
  alert_field :: string
  alert_operator :: string
  alert_value :: int

definition alert_holds :: "alert_condition \<Rightarrow> balances \<Rightarrow> bool" where
  "alert_holds c b =
     (let v = (if alert_field c = ''pending'' then net (b_pending b)
               else if alert_field c = ''posted'' then net (b_posted b)
               else net (b_available b))
      in if alert_operator c = ''gt'' then v > alert_value c
         else if alert_operator c = ''gte'' then v \<ge> alert_value c
         else if alert_operator c = ''eq'' then v = alert_value c
         else if alert_operator c = ''lt'' then v < alert_value c
         else if alert_operator c = ''lte'' then v \<le> alert_value c
         else v \<noteq> alert_value c)"

section \<open>Postings and transactions\<close>

record posting =
  p_account :: uuid
  p_side :: side
  p_amount :: int
  p_currency :: string
  p_pendingBalance :: "balance_condition option"
  p_postedBalance :: "balance_condition option"
  p_availableBalance :: "balance_condition option"
  p_lockVersion :: "int option"
  p_resulting :: "balances option"
  p_balanceAfter :: int

definition plain_posting :: "uuid \<Rightarrow> side \<Rightarrow> int \<Rightarrow> string \<Rightarrow> posting" where
  "plain_posting a s n c =
     \<lparr>p_account = a, p_side = s, p_amount = n, p_currency = c, p_pendingBalance = None,
      p_postedBalance = None, p_availableBalance = None, p_lockVersion = None, p_resulting = None,
      p_balanceAfter = 0\<rparr>"

definition checkLocks :: "posting \<Rightarrow> balances \<Rightarrow> unit res" where
  "checkLocks p b =
     (if violation (p_pendingBalance p) (net (b_pending b)) \<noteq> [] then Inl ErrBalanceLock
      else if violation (p_postedBalance p) (net (b_posted b)) \<noteq> [] then Inl ErrBalanceLock
      else if violation (p_availableBalance p) (net (b_available b)) \<noteq> [] then Inl ErrBalanceLock
      else ok)"

definition signedAmount :: "posting \<Rightarrow> int" where
  "signedAmount p = (if p_side p = Credit then amt_neg (p_amount p) else p_amount p)"

datatype txn_status = NoStatus | Pending | Posted | Archived | OtherStatus string

record postInput =
  in_key :: string
  in_description :: string
  in_metadata :: jvalue
  in_postings :: "posting list"
  in_status :: txn_status
  in_effectiveAt :: "gotime option"
  in_externalID :: string
  in_archiveOnLockFailure :: bool

definition input_status :: "postInput \<Rightarrow> txn_status" where
  "input_status i = (if in_status i = NoStatus then Posted else in_status i)"

record transaction =
  t_id :: uuid
  t_ledger :: uuid
  t_key :: string
  t_externalID :: string
  t_status :: txn_status
  t_version :: int
  t_description :: string
  t_metadata :: jvalue
  t_reverses :: "uuid option"
  t_postings :: "posting list"
  t_effectiveAt :: gotime
  t_createdAt :: gotime
  t_postedAt :: "gotime option"
  t_archivedAt :: "gotime option"
  t_request :: "postInput option"
  t_entriesVersion :: int

text \<open>\<^verbatim>\<open>for i, p := range in.Postings { existing := stored.Postings[i] ... }\<close>, after the lengths
  were found equal.\<close>

fun samePostings :: "posting list \<Rightarrow> posting list \<Rightarrow> bool" where
  "samePostings (e # es) (p # ps) =
     (if p_account e \<noteq> p_account p \<or> p_side e \<noteq> p_side p \<or> p_amount e \<noteq> p_amount p then False
      else if p_currency p \<noteq> [] \<and> p_currency e \<noteq> [] \<and> p_currency p \<noteq> p_currency e then False
      else samePostings es ps)"
| "samePostings _ _ = True"

definition sameContent :: "postInput \<Rightarrow> postInput \<Rightarrow> bool" where
  "sameContent stored i =
     (if in_description stored \<noteq> in_description i \<or> in_externalID stored \<noteq> in_externalID i
         \<or> length (in_postings stored) \<noteq> length (in_postings i) then False
      else if \<not> jsonEqual (in_metadata stored) (in_metadata i) then False
      else samePostings (in_postings stored) (in_postings i))"

text \<open>\<open>entries_input ps\<close> is \<^verbatim>\<open>PostInput{Postings: ps}\<close>.\<close>

definition entries_input :: "posting list \<Rightarrow> postInput" where
  "entries_input ps =
     \<lparr>in_key = [], in_description = [], in_metadata = no_jvalue, in_postings = ps,
      in_status = NoStatus, in_effectiveAt = None, in_externalID = [],
      in_archiveOnLockFailure = False\<rparr>"

definition txn_matches :: "transaction \<Rightarrow> postInput \<Rightarrow> bool" where
  "txn_matches t i =
     (case t_request t of
        Some r \<Rightarrow>
          (in_effectiveAt r = in_effectiveAt i) \<and> input_status r = input_status i \<and> sameContent r i
      | None \<Rightarrow>
          if input_status i \<noteq> Posted \<or> (case in_effectiveAt i of None \<Rightarrow> False | Some at \<Rightarrow> at \<noteq> t_effectiveAt t) then False
          else sameContent
            (entries_input (t_postings t)\<lparr>in_description := t_description t, in_metadata := t_metadata t,
               in_externalID := t_externalID t\<rparr>) i)"

section \<open>Accounts, holds and ledgers\<close>

datatype acct_status = Open | Frozen | Closed | OtherAcctStatus string

record ledger =
  l_id :: uuid
  l_name :: string
  l_description :: string
  l_metadata :: jvalue
  l_closedBefore :: "gotime option"
  l_version :: int
  l_createdAt :: gotime

record currency =
  cur_code :: string
  cur_exponent :: int
  cur_createdAt :: gotime

datatype hold_status = HoldPending | HoldCaptured | HoldVoided | HoldExpired

record hold =
  h_id :: uuid
  h_key :: string
  h_account :: uuid
  h_currency :: string
  h_amount :: int
  h_status :: hold_status
  h_description :: string
  h_expiresAt :: gotime
  h_createdAt :: gotime
  h_resolvedAt :: "gotime option"
  h_captured :: "int option"
  h_captureTxn :: "uuid option"

record monitor =
  m_id :: uuid
  m_account :: uuid
  m_condition :: alert_condition
  m_description :: string
  m_metadata :: jvalue
  m_version :: int
  m_createdAt :: gotime
  m_triggered :: bool

datatype schedule_status = Scheduled | Executed | ScheduleFailed | Canceled

text \<open>\<^verbatim>\<open>Failure\<close> is the text of an error; the error is kept.\<close>

record schedule =
  sc_id :: uuid
  sc_key :: string
  sc_executeAt :: gotime
  sc_request :: postInput
  sc_status :: schedule_status
  sc_txn :: "uuid option"
  sc_failure :: "err option"
  sc_createdAt :: gotime
  sc_resolvedAt :: "gotime option"

record category =
  cg_id :: uuid
  cg_ledger :: uuid
  cg_currency :: string
  cg_normalSide :: side
  cg_name :: string
  cg_description :: string
  cg_metadata :: jvalue
  cg_version :: int
  cg_createdAt :: gotime

text \<open>A statement as stored: the balances are computed when it is read.\<close>

record statement_row =
  sm_id :: uuid
  sm_ledger :: uuid
  sm_account :: uuid
  sm_description :: string
  sm_from :: gotime
  sm_until :: gotime
  sm_postedBefore :: nat
  sm_startDebits :: int
  sm_startCredits :: int
  sm_endDebits :: int
  sm_endCredits :: int
  sm_entryCount :: nat
  sm_createdAt :: gotime

section \<open>Requests that match\<close>

lemma opposite_simps [simp]: "opposite Debit = Credit" "opposite Credit = Debit"
  by simp_all

lemma opposite_valid [simp]: "side_valid (opposite s)"
  by simp

lemma opposite_involutive: "side_valid s \<Longrightarrow> opposite (opposite s) = s"
  by auto

declare opposite.simps [simp del]

lemma violation_None_iff:
  "violation (Some c) v = [] \<longleftrightarrow>
     (\<forall>b. cond_gt c = Some b \<longrightarrow> v > b) \<and> (\<forall>b. cond_gte c = Some b \<longrightarrow> v \<ge> b) \<and>
     (\<forall>b. cond_eq c = Some b \<longrightarrow> v = b) \<and> (\<forall>b. cond_lt c = Some b \<longrightarrow> v < b) \<and>
     (\<forall>b. cond_lte c = Some b \<longrightarrow> v \<le> b) \<and> (\<forall>b. cond_not_eq c = Some b \<longrightarrow> v \<noteq> b)"
  by (auto simp: violation_def split: option.splits)

lemma samePostings_refl [simp]: "samePostings ps ps"
  by (induction ps) auto

lemma samePostings_iff:
  "length es = length ps \<Longrightarrow> samePostings es ps \<longleftrightarrow>
    list_all2 (\<lambda>e p. p_account e = p_account p \<and> p_side e = p_side p \<and> p_amount e = p_amount p \<and>
      (p_currency p = [] \<or> p_currency e = [] \<or> p_currency p = p_currency e)) es ps"
  by (induction es ps rule: list_induct2) auto

end
