(* ===== verification/State.thy ===== *)
theory State
  imports Types
begin

text \<open>
  \<^verbatim>\<open>internal/modules/ledger/state.go\<close>: the accounts a database transaction has locked, and the
  one place where their balances change. \<open>transition\<close> moves entries out of and into the pending and
  posted totals and releases held funds; \<open>reserve\<close> and \<open>release\<close> change what is held; \<open>commit\<close>
  checks the funds and publishes the staged accounts. Maps of accounts are association lists; the
  pointers of \<^verbatim>\<open>stagedAccounts.changed\<close> are written back with \<^const>\<open>AList.update\<close>.
\<close>

section \<open>One account\<close>

record accountState =
  a_id :: uuid
  a_ledger :: uuid
  a_closedBefore :: "gotime option"
  a_currency :: string
  a_normalSide :: side
  a_status :: acct_status
  a_allowNegative :: bool
  a_overdraftLimit :: int
  postedDebits :: int
  postedCredits :: int
  pendingDebits :: int
  pendingCredits :: int
  held :: int
  a_version :: int
  a_originalVersion :: int

definition postedNet :: "accountState \<Rightarrow> int res" where
  "postedNet a = amt_sub (postedDebits a) (postedCredits a)"

definition available :: "accountState \<Rightarrow> int res" where
  "available a =
     (let (inn, out, pendingOut) =
        (if a_normalSide a = Credit then (postedCredits a, postedDebits a, pendingDebits a)
         else (postedDebits a, postedCredits a, pendingCredits a))
      in bindR (sumAmts [out, pendingOut, held a]) (\<lambda>out. amt_sub inn out))"

text \<open>\<^verbatim>\<open>balance\<close> computes \<^verbatim>\<open>debits.Sub(credits)\<close> first; for a credit account its outcome, an
  error included, is overwritten.\<close>

definition account_balance :: "accountState \<Rightarrow> int \<Rightarrow> int \<Rightarrow> balance res" where
  "account_balance a ds cs =
     bindR (if a_normalSide a = Credit then amt_sub cs ds else amt_sub ds cs)
       (\<lambda>n. Inr \<lparr>debits = ds, credits = cs, net = n\<rparr>)"

definition account_balances :: "accountState \<Rightarrow> (balance \<times> balance \<times> balance) res" where
  "account_balances a =
     bindR (amt_add (postedDebits a) (pendingDebits a)) (\<lambda>pd.
     bindR (amt_add (postedCredits a) (pendingCredits a)) (\<lambda>pc.
     bindR (if a_normalSide a = Debit then bindR (amt_add pc (held a)) (\<lambda>c. Inr (postedDebits a, c))
            else bindR (amt_add pd (held a)) (\<lambda>d. Inr (d, postedCredits a))) (\<lambda>(ad, ac).
     bindR (account_balance a (postedDebits a) (postedCredits a)) (\<lambda>posted.
     bindR (account_balance a pd pc) (\<lambda>pending.
     bindR (account_balance a ad ac) (\<lambda>avail.
     Inr (posted, pending, avail)))))))"

definition account_views :: "accountState \<Rightarrow> balances res" where
  "account_views a =
     bindR (account_balances a) (\<lambda>(posted, pending, avail).
       Inr \<lparr>b_pending = pending, b_posted = posted, b_available = avail\<rparr>)"

definition checkFunds :: "accountState \<Rightarrow> accountState \<Rightarrow> unit res" where
  "checkFunds a before =
     bindR (available a) (\<lambda>after.
     bindR (available before) (\<lambda>prior.
       if a_allowNegative a \<or> after \<ge> prior then ok
       else bindR (amt_add after (a_overdraftLimit a)) (\<lambda>floor.
         if floor < 0 then Inl ErrInsufficientFunds else ok)))"

definition checkOpen :: "accountState \<Rightarrow> unit res" where
  "checkOpen a = (if a_status a \<noteq> Open then Inl ErrAccountNotOpen else ok)"

definition account_dirty :: "accountState \<Rightarrow> bool" where
  "account_dirty a \<longleftrightarrow> a_version a \<noteq> a_originalVersion a"

text \<open>\<^verbatim>\<open>record\<close> adds a posting to a total and notes the net balance after it.\<close>

definition record_posting ::
  "accountState \<Rightarrow> posting \<Rightarrow> txn_status \<Rightarrow> (accountState \<times> posting) res" where
  "record_posting a p status =
     bindR (if status = Pending \<and> p_side p = Debit then
              bindR (amt_add (pendingDebits a) (p_amount p)) (\<lambda>t. Inr (a\<lparr>pendingDebits := t\<rparr>))
            else if status = Pending then
              bindR (amt_add (pendingCredits a) (p_amount p)) (\<lambda>t. Inr (a\<lparr>pendingCredits := t\<rparr>))
            else if p_side p = Debit then
              bindR (amt_add (postedDebits a) (p_amount p)) (\<lambda>t. Inr (a\<lparr>postedDebits := t\<rparr>))
            else
              bindR (amt_add (postedCredits a) (p_amount p)) (\<lambda>t. Inr (a\<lparr>postedCredits := t\<rparr>)))
       (\<lambda>a'. if status = Pending then Inr (a', p)
             else bindR (postedNet a') (\<lambda>n. Inr (a', p\<lparr>p_balanceAfter := n\<rparr>)))"

definition release_amount :: "int \<Rightarrow> int \<Rightarrow> int res" where
  "release_amount h n = (if n > h then Inl (ErrInternal ''release exceeds held'') else amt_sub h n)"

section \<open>The locked accounts\<close>

type_synonym accounts = "(uuid \<times> accountState) list"

record ledgerState =
  s_accounts :: accounts
  s_original :: accounts
  s_monitors :: "(uuid \<times> monitor list) list"

fun add_monitors :: "monitor list \<Rightarrow> (uuid \<times> monitor list) list \<Rightarrow> (uuid \<times> monitor list) list" where
  "add_monitors [] ms = ms"
| "add_monitors (m # rest) ms =
     add_monitors rest
       (AList.update (m_account m) (or_zero [] (map_of ms (m_account m)) @ [m]) ms)"

fun add_accounts :: "accountState list \<Rightarrow> accounts \<Rightarrow> accounts" where
  "add_accounts [] al = al"
| "add_accounts (a # as) al =
     add_accounts as (AList.update (a_id a) (a\<lparr>a_originalVersion := a_version a\<rparr>) al)"

definition newLedgerState :: "accountState list \<Rightarrow> monitor list \<Rightarrow> ledgerState" where
  "newLedgerState as ms =
     \<lparr>s_accounts = add_accounts as [], s_original = add_accounts as [],
      s_monitors = add_monitors ms []\<rparr>"

definition state_dirty :: "ledgerState \<Rightarrow> accountState list" where
  "state_dirty s = filter account_dirty (map snd (s_accounts s))"

fun crossed_by :: "ledgerState \<Rightarrow> accountState list \<Rightarrow> (monitor \<times> balances) list res" where
  "crossed_by s [] = Inr []"
| "crossed_by s (a # as) =
     (case or_zero [] (map_of (s_monitors s) (a_id a)) of
        [] \<Rightarrow> crossed_by s as
      | watchers \<Rightarrow>
          (case map_of (s_original s) (a_id a) of
             None \<Rightarrow> Inl ErrPanic
           | Some orig \<Rightarrow>
               bindR (account_views orig) (\<lambda>before.
               bindR (account_views a) (\<lambda>after.
               bindR (crossed_by s as) (\<lambda>rest.
                 Inr (map (\<lambda>m. (m\<lparr>m_triggered := True\<rparr>, after))
                        (filter (\<lambda>m. \<not> alert_holds (m_condition m) before \<and> alert_holds (m_condition m) after)
                          watchers) @ rest))))))"

definition crossed :: "ledgerState \<Rightarrow> (monitor \<times> balances) list res" where
  "crossed s = crossed_by s (state_dirty s)"

section \<open>Staging\<close>

text \<open>\<^verbatim>\<open>stagedAccounts.account\<close>: the staged copy, or a fresh clone of the base account.\<close>

definition staged_account :: "accounts \<Rightarrow> accounts \<Rightarrow> uuid \<Rightarrow> (accountState \<times> accounts) res" where
  "staged_account base ch i =
     (case map_of ch i of
        Some a \<Rightarrow> Inr (a, ch)
      | None \<Rightarrow>
          (case map_of base i of
             None \<Rightarrow> Inl ErrNotFound
           | Some a \<Rightarrow> Inr (a, AList.update i a ch)))"

fun unpend :: "accounts \<Rightarrow> accounts \<Rightarrow> posting list \<Rightarrow> accounts res" where
  "unpend base ch [] = Inr ch"
| "unpend base ch (p # ps) =
     bindR (staged_account base ch (p_account p)) (\<lambda>(a, ch).
       let t = (if p_side p = Credit then pendingCredits a else pendingDebits a)
       in if p_amount p > t then Inl (ErrInternal ''more than pending'')
          else bindR (amt_sub t (p_amount p)) (\<lambda>t.
            let a' = (if p_side p = Credit then a\<lparr>pendingCredits := t\<rparr> else a\<lparr>pendingDebits := t\<rparr>)
            in unpend base (AList.update (p_account p) a' ch) ps))"

record balanceChange =
  c_ledger :: uuid
  c_unpend :: "posting list"
  c_add :: "posting list"
  c_status :: txn_status
  c_releases :: "(uuid \<times> int) list"

text \<open>The variables of the loop over \<^verbatim>\<open>c.add\<close>: the staged accounts, the ledger and whether it is
  pinned, whether an entry's lock version has moved, the entries done so far and the totals.\<close>

record add_loop =
  lp_changed :: accounts
  lp_ledger :: uuid
  lp_pinned :: bool
  lp_moved :: bool
  lp_totals :: "(string \<times> int) list"

text \<open>\<^verbatim>\<open>deferredVersionErr == nil && p.LockVersion != nil && *p.LockVersion != s.accounts[a.id].version\<close>\<close>

definition lock_moved :: "accounts \<Rightarrow> accountState \<Rightarrow> posting \<Rightarrow> bool \<Rightarrow> bool res" where
  "lock_moved base a p moved =
     (if moved then Inr True
      else case p_lockVersion p of
             None \<Rightarrow> Inr False
           | Some v \<Rightarrow>
               (case map_of base (a_id a) of
                  None \<Rightarrow> Inl ErrPanic
                | Some b \<Rightarrow> Inr (v \<noteq> a_version b)))"

definition add_entry :: "accounts \<Rightarrow> txn_status \<Rightarrow> add_loop \<Rightarrow> posting \<Rightarrow> (add_loop \<times> posting) res" where
  "add_entry base status lp p =
     bindR (staged_account base (lp_changed lp) (p_account p)) (\<lambda>(a, ch).
     bindR (checkOpen a) (\<lambda>_.
     bindR (lock_moved base a p (lp_moved lp)) (\<lambda>moved.
     if lp_pinned lp \<and> a_ledger a \<noteq> lp_ledger lp then Inl ErrCrossLedger
     else if p_currency p \<noteq> [] \<and> p_currency p \<noteq> a_currency a then Inl ErrInvalid
     else
       let p = p\<lparr>p_currency := a_currency a\<rparr>
       in bindR (amt_add (or_zero 0 (map_of (lp_totals lp) (a_currency a))) (signedAmount p)) (\<lambda>t.
          bindR (record_posting a p status) (\<lambda>(a', p').
            Inr (\<lparr>lp_changed = AList.update (p_account p) a' ch, lp_ledger = a_ledger a,
                  lp_pinned = True, lp_moved = moved,
                  lp_totals = AList.update (a_currency a) t (lp_totals lp)\<rparr>, p'))))))"

fun add_entries :: "accounts \<Rightarrow> txn_status \<Rightarrow> add_loop \<Rightarrow> posting list \<Rightarrow> (add_loop \<times> posting list) res" where
  "add_entries base status lp [] = Inr (lp, [])"
| "add_entries base status lp (p # ps) =
     bindR (add_entry base status lp p) (\<lambda>(lp, p').
     bindR (add_entries base status lp ps) (\<lambda>(lp, ps').
       Inr (lp, p' # ps')))"

fun release_holds :: "accounts \<Rightarrow> accounts \<Rightarrow> (uuid \<times> int) list \<Rightarrow> accounts res" where
  "release_holds base ch [] = Inr ch"
| "release_holds base ch ((i, n) # rs) =
     bindR (staged_account base ch i) (\<lambda>(a, ch).
     bindR (release_amount (held a) n) (\<lambda>h.
       release_holds base (AList.update i (a\<lparr>held := h\<rparr>) ch) rs))"

fun checkResultingLocks :: "accounts \<Rightarrow> posting list \<Rightarrow> posting list res" where
  "checkResultingLocks ch [] = Inr []"
| "checkResultingLocks ch (p # ps) =
     (case map_of ch (p_account p) of
        None \<Rightarrow> Inl ErrPanic
      | Some a \<Rightarrow>
          bindR (account_views a) (\<lambda>result.
          bindR (checkLocks p result) (\<lambda>_.
          bindR (checkResultingLocks ch ps) (\<lambda>ps'.
            Inr (p\<lparr>p_resulting := Some result\<rparr> # ps')))))"

section \<open>Committing\<close>

fun check_all_funds :: "accounts \<Rightarrow> accounts \<Rightarrow> unit res" where
  "check_all_funds base [] = ok"
| "check_all_funds base ((i, a) # ch) =
     (case map_of base i of
        None \<Rightarrow> Inl ErrPanic
      | Some before \<Rightarrow> bindR (checkFunds a before) (\<lambda>_. check_all_funds base ch))"

fun copy_accounts :: "accounts \<Rightarrow> accounts \<Rightarrow> accounts" where
  "copy_accounts base [] = base"
| "copy_accounts base ((i, a) # ch) = copy_accounts (AList.update i a base) ch"

definition commit :: "ledgerState \<Rightarrow> accounts \<Rightarrow> ledgerState res" where
  "commit s scratch =
     bindR (check_all_funds (s_accounts s) scratch) (\<lambda>_.
       let bumped = map (\<lambda>(i, a). (i, a\<lparr>a_version := a_version a + 1\<rparr>)) scratch
       in Inr (s\<lparr>s_accounts := copy_accounts (s_accounts s) bumped\<rparr>))"

definition transition :: "ledgerState \<Rightarrow> balanceChange \<Rightarrow> (ledgerState \<times> uuid \<times> posting list) res" where
  "transition s c =
     bindR (unpend (s_accounts s) [] (c_unpend c)) (\<lambda>ch.
     let lp = \<lparr>lp_changed = ch, lp_ledger = c_ledger c, lp_pinned = (c_ledger c \<noteq> 0),
               lp_moved = False, lp_totals = []\<rparr>
     in bindR (add_entries (s_accounts s) (c_status c) lp (c_add c)) (\<lambda>(lp, ps).
     if list_ex (\<lambda>(_, t). t \<noteq> 0) (lp_totals lp) then Inl ErrUnbalanced
     else bindR (release_holds (s_accounts s) (lp_changed lp) (c_releases c)) (\<lambda>ch.
     if lp_moved lp then Inl ErrLockVersion
     else bindR (checkResultingLocks ch ps) (\<lambda>ps.
     bindR (commit s ch) (\<lambda>s'.
       Inr (s', lp_ledger lp, ps))))))"

definition reserve :: "ledgerState \<Rightarrow> uuid \<Rightarrow> string \<Rightarrow> int \<Rightarrow> ledgerState res" where
  "reserve s i cur n =
     (case map_of (s_accounts s) i of
        None \<Rightarrow> Inl ErrNotFound
      | Some a \<Rightarrow>
          bindR (checkOpen a) (\<lambda>_.
          if cur \<noteq> [] \<and> cur \<noteq> a_currency a then Inl ErrInvalid
          else bindR (amt_add (held a) n) (\<lambda>h. commit s [(i, a\<lparr>held := h\<rparr>)])))"

definition release :: "ledgerState \<Rightarrow> uuid \<Rightarrow> int \<Rightarrow> ledgerState res" where
  "release s i n =
     (case map_of (s_accounts s) i of
        None \<Rightarrow> Inl ErrNotFound
      | Some a \<Rightarrow>
          bindR (release_amount (held a) n) (\<lambda>h. commit s [(i, a\<lparr>held := h\<rparr>)]))"

end
