(* ===== verification/State_Laws.thy ===== *)
theory State_Laws
  imports State
begin

text \<open>
  What the operations of \<^verbatim>\<open>state.go\<close> do. \<open>change_account\<close> is the abstract effect of a balance
  change on one account; the main result is that a successful \<open>transition\<close> has exactly this effect
  on every account, that what it posts balances in every currency, and that it keeps the funds.
\<close>

section \<open>The abstract effect\<close>

text \<open>\<open>moved i s ps\<close> is what the entries \<open>ps\<close> move on the side \<open>s\<close> of the account \<open>i\<close>.\<close>

definition moved :: "uuid \<Rightarrow> side \<Rightarrow> posting list \<Rightarrow> int" where
  "moved i s ps = sum_over (\<lambda>p. p_account p = i \<and> p_side p = s) p_amount ps"

definition released :: "uuid \<Rightarrow> (uuid \<times> int) list \<Rightarrow> int" where
  "released i rs = sum_over (\<lambda>(j, _). j = i) snd rs"

definition unpended :: "uuid \<Rightarrow> posting list \<Rightarrow> accountState \<Rightarrow> accountState" where
  "unpended i ps a = a\<lparr>pendingDebits := pendingDebits a - moved i Debit ps,
                       pendingCredits := pendingCredits a - moved i Credit ps\<rparr>"

definition added :: "uuid \<Rightarrow> txn_status \<Rightarrow> posting list \<Rightarrow> accountState \<Rightarrow> accountState" where
  "added i status ps a =
     (if status = Pending
      then a\<lparr>pendingDebits := pendingDebits a + moved i Debit ps,
             pendingCredits := pendingCredits a + moved i Credit ps\<rparr>
      else a\<lparr>postedDebits := postedDebits a + moved i Debit ps,
             postedCredits := postedCredits a + moved i Credit ps\<rparr>)"

definition unheld :: "uuid \<Rightarrow> (uuid \<times> int) list \<Rightarrow> accountState \<Rightarrow> accountState" where
  "unheld i rs a = a\<lparr>held := held a - released i rs\<rparr>"

definition touched :: "balanceChange \<Rightarrow> uuid set" where
  "touched c = p_account ` set (c_unpend c) \<union> p_account ` set (c_add c) \<union> fst ` set (c_releases c)"

definition staged_effect :: "balanceChange \<Rightarrow> uuid \<Rightarrow> accountState \<Rightarrow> accountState" where
  "staged_effect c i a = unheld i (c_releases c) (added i (c_status c) (c_add c) (unpended i (c_unpend c) a))"

definition change_account :: "balanceChange \<Rightarrow> uuid \<Rightarrow> accountState \<Rightarrow> accountState" where
  "change_account c i a =
     (if i \<in> touched c then (staged_effect c i a)\<lparr>a_version := a_version a + 1\<rparr> else a)"

text \<open>What validation guarantees of entries.\<close>

definition entry_ok :: "posting \<Rightarrow> bool" where
  "entry_ok p \<longleftrightarrow> side_valid (p_side p) \<and> 0 < p_amount p \<and> in_range (p_amount p)"

definition entries_ok :: "posting list \<Rightarrow> bool" where
  "entries_ok ps \<longleftrightarrow> list_all entry_ok ps"

definition releases_ok :: "(uuid \<times> int) list \<Rightarrow> bool" where
  "releases_ok rs \<longleftrightarrow> list_all (\<lambda>(_, n). 0 < n \<and> in_range n) rs"

lemma moved_Nil [simp]: "moved i s [] = 0"
  by (simp add: moved_def)

lemma moved_Cons [simp]:
  "moved i s (p # ps) = (if p_account p = i \<and> p_side p = s then p_amount p else 0) + moved i s ps"
  by (simp add: moved_def)

lemma moved_append [simp]: "moved i s (ps @ qs) = moved i s ps + moved i s qs"
  by (simp add: moved_def)

lemma moved_none: "i \<notin> p_account ` set ps \<Longrightarrow> moved i s ps = 0"
  by (induction ps) auto

lemma moved_nonneg: "entries_ok ps \<Longrightarrow> 0 \<le> moved i s ps"
  unfolding moved_def by (rule sum_over_nonneg) (auto simp: entries_ok_def entry_ok_def list_all_iff)

lemma released_Nil [simp]: "released i [] = 0"
  by (simp add: released_def)

lemma released_Cons [simp]:
  "released i ((j, n) # rs) = (if j = i then n else 0) + released i rs"
  by (simp add: released_def)

lemma released_none: "i \<notin> fst ` set rs \<Longrightarrow> released i rs = 0"
  by (induction rs) auto

lemma released_nonneg: "releases_ok rs \<Longrightarrow> 0 \<le> released i rs"
  by (induction rs) (auto simp: releases_ok_def)

lemma accountState_eqI:
  "a_id a = a_id b \<Longrightarrow> a_ledger a = a_ledger b \<Longrightarrow> a_closedBefore a = a_closedBefore b \<Longrightarrow>
   a_currency a = a_currency b \<Longrightarrow> a_normalSide a = a_normalSide b \<Longrightarrow> a_status a = a_status b \<Longrightarrow>
   a_allowNegative a = a_allowNegative b \<Longrightarrow> a_overdraftLimit a = a_overdraftLimit b \<Longrightarrow>
   postedDebits a = postedDebits b \<Longrightarrow> postedCredits a = postedCredits b \<Longrightarrow>
   pendingDebits a = pendingDebits b \<Longrightarrow> pendingCredits a = pendingCredits b \<Longrightarrow> held a = held b \<Longrightarrow>
   a_version a = a_version b \<Longrightarrow> a_originalVersion a = a_originalVersion b \<Longrightarrow>
   (a :: accountState) = b"
  by (cases a, cases b) simp

lemma unpended_none [simp]: "unpended i [] a = a"
  by (rule accountState_eqI) (simp_all add: unpended_def)

lemma added_none [simp]: "added i status [] a = a"
  by (rule accountState_eqI) (simp_all add: added_def)

lemma unheld_none [simp]: "unheld i [] a = a"
  by (rule accountState_eqI) (simp_all add: unheld_def)

lemma unpended_Cons: "unpended i (p # ps) a = unpended i ps (unpended i [p] a)"
  by (rule accountState_eqI) (simp_all add: unpended_def)

lemma added_Cons: "added i st (p # ps) a = added i st ps (added i st [p] a)"
  by (rule accountState_eqI) (simp_all add: added_def)

lemma unheld_Cons: "unheld i (r # rs) a = unheld i rs (unheld i [r] a)"
  by (rule accountState_eqI) (simp_all add: unheld_def released_def)

lemma unpended_other: "i \<noteq> p_account p \<Longrightarrow> unpended i [p] a = a"
  by (rule accountState_eqI) (simp_all add: unpended_def)

lemma added_other: "i \<noteq> p_account p \<Longrightarrow> added i st [p] a = a"
  by (rule accountState_eqI) (simp_all add: added_def)

lemma unheld_other: "i \<noteq> j \<Longrightarrow> unheld i [(j, n)] a = a"
  by (rule accountState_eqI) (simp_all add: unheld_def)

section \<open>Staging\<close>

text \<open>The account as the staging sees it.\<close>

definition current :: "accounts \<Rightarrow> accounts \<Rightarrow> uuid \<Rightarrow> accountState option" where
  "current base ch i = (case map_of ch i of Some a \<Rightarrow> Some a | None \<Rightarrow> map_of base i)"

lemma current_empty [simp]: "current base [] = map_of base"
  by (auto simp: current_def)

lemma current_update [simp]:
  "current base (AList.update j a ch) i = (if i = j then Some a else current base ch i)"
  by (simp add: current_def)

lemma staged_account_Inr:
  assumes "staged_account base ch i = Inr (a, ch')"
  shows "current base ch i = Some a" "map_of ch' = (map_of ch)(i \<mapsto> a)"
  using assms by (auto simp: staged_account_def current_def split: option.splits)

lemma staged_account_current:
  assumes "staged_account base ch i = Inr (a, ch')"
  shows "current base ch' = current base ch" "dom (map_of ch') = insert i (dom (map_of ch))"
  using staged_account_Inr [OF assms] by (auto simp: current_def fun_eq_iff split: option.splits)

lemma staged_account_distinct:
  "staged_account base ch i = Inr (a, ch') \<Longrightarrow> distinct (map fst ch) \<Longrightarrow> distinct (map fst ch')"
  by (auto simp: staged_account_def split: option.splits)

text \<open>Every step of the staging applies a function to one account; \<open>stages\<close> says that the steps
  so far have the effect \<open>f\<close> and have copied the accounts \<open>A\<close>.\<close>

definition stages :: "accounts \<Rightarrow> accounts \<Rightarrow> (uuid \<Rightarrow> accountState \<Rightarrow> accountState) \<Rightarrow> uuid set \<Rightarrow> accounts \<Rightarrow> bool" where
  "stages base ch f A ch' \<longleftrightarrow>
     (\<forall>i. current base ch' i = map_option (f i) (current base ch i)) \<and>
     dom (map_of ch') = dom (map_of ch) \<union> A \<and> A \<subseteq> dom (current base ch) \<and>
     (distinct (map fst ch) \<longrightarrow> distinct (map fst ch'))"

lemma stages_refl: "(\<And>i a. f i a = a) \<Longrightarrow> stages base ch f {} ch"
proof -
  assume "\<And>i a. f i a = a"
  then have "map_option (f i) x = x" for i x by (cases x) simp_all
  then show ?thesis by (simp add: stages_def)
qed

lemma stages_dom: "stages base ch f A ch' \<Longrightarrow> dom (current base ch') = dom (current base ch)"
  by (auto simp: stages_def dom_def)

lemma stages_trans:
  assumes "stages base ch f A ch'" "stages base ch' g B ch''"
  shows "stages base ch (\<lambda>i. g i \<circ> f i) (A \<union> B) ch''"
proof -
  have "current base ch'' i = map_option (g i \<circ> f i) (current base ch i)" for i
    using assms by (simp add: stages_def option.map_comp)
  then show ?thesis
    using assms stages_dom [OF assms(1)] by (simp add: stages_def Un_assoc)
qed

lemma stages_step:
  assumes "staged_account base ch i = Inr (a, ch')" "a' = f i a" "\<And>j b. j \<noteq> i \<Longrightarrow> f j b = b"
  shows "stages base ch f {i} (AList.update i a' ch')"
  unfolding stages_def
proof (intro conjI allI impI)
  show "current base (AList.update i a' ch') j = map_option (f j) (current base ch j)" for j
    using staged_account_Inr(1) [OF assms(1)] staged_account_current(1) [OF assms(1)] assms(2,3)
    by (cases "current base ch j") auto
  show "dom (map_of (AList.update i a' ch')) = dom (map_of ch) \<union> {i}"
    using staged_account_current(2) [OF assms(1)] by auto
  show "{i} \<subseteq> dom (current base ch)"
    using staged_account_Inr(1) [OF assms(1)] by auto
  show "distinct (map fst (AList.update i a' ch'))" if "distinct (map fst ch)"
    using staged_account_distinct [OF assms(1) that] by simp
qed

lemma stages_cong:
  "stages base ch f A ch' \<Longrightarrow> (\<And>i a. f i a = g i a) \<Longrightarrow> stages base ch g A ch'"
  by (simp add: stages_def cong: option.map_cong)

lemma not_min: "in_range n \<Longrightarrow> n \<noteq> minAmount"
  by (auto simp: in_range_def minAmount_def)

lemma amt_neg_range [simp]: "in_range n \<Longrightarrow> amt_neg n = - n"
  using not_min by (simp add: amt_neg_def)

lemma amt_sub_range: "in_range y \<Longrightarrow> amt_sub x y = Inr s \<longleftrightarrow> s = x - y \<and> addable (x - y)"
  by (rule amt_sub_exact)

lemma unpend_stages:
  assumes "unpend base ch ps = Inr ch'" "entries_ok ps"
  shows "stages base ch (\<lambda>i. unpended i ps) (p_account ` set ps) ch'"
  using assms
proof (induction ps arbitrary: ch)
  case Nil
  then show ?case by (auto intro: stages_refl)
next
  case (Cons p ps)
  have p: "entry_ok p" "entries_ok ps" using Cons.prems(2) by (auto simp: entries_ok_def)
  obtain a ch1 where st: "staged_account base ch (p_account p) = Inr (a, ch1)"
    using Cons.prems(1) by (auto simp del: bindR_Inr_iff elim!: bindR.elims)
  define a' where "a' = unpended (p_account p) [p] a"
  have "unpend base (AList.update (p_account p) a' ch1) ps = Inr ch'"
    using Cons.prems(1) st p(1) unfolding a'_def
    by (cases "p_side p = Credit")
      (auto simp: Let_def amt_sub_range entry_ok_def unpended_def split: if_splits
        intro!: arg_cong [where f = "\<lambda>x. unpend base (AList.update (p_account p) x ch1) ps"] accountState_eqI)
  then have "stages base (AList.update (p_account p) a' ch1) (\<lambda>i. unpended i ps) (p_account ` set ps) ch'"
    using Cons.IH p by blast
  moreover have "stages base ch (\<lambda>i. unpended i [p]) {p_account p} (AList.update (p_account p) a' ch1)"
    using st by (rule stages_step) (auto simp: a'_def unpended_other)
  ultimately have "stages base ch (\<lambda>i. unpended i ps \<circ> unpended i [p])
      ({p_account p} \<union> p_account ` set ps) ch'"
    by (rule stages_trans [rotated])
  then show ?case by (auto elim!: stages_cong simp: unpended_Cons [of _ p ps])
qed

section \<open>Amounts stay in range\<close>

definition amount_ok :: "int \<Rightarrow> bool" where
  "amount_ok n \<longleftrightarrow> 0 \<le> n \<and> in_range n"

definition account_ok :: "accountState \<Rightarrow> bool" where
  "account_ok a \<longleftrightarrow>
     amount_ok (a_overdraftLimit a) \<and> amount_ok (postedDebits a) \<and> amount_ok (postedCredits a) \<and>
     amount_ok (pendingDebits a) \<and> amount_ok (pendingCredits a) \<and> amount_ok (held a)"

definition all_ok :: "(uuid \<Rightarrow> accountState option) \<Rightarrow> bool" where
  "all_ok f \<longleftrightarrow> (\<forall>i a. f i = Some a \<longrightarrow> account_ok a)"

lemma amount_ok_neg [simp]: "amount_ok n \<Longrightarrow> amt_neg n = - n"
  by (simp add: amount_ok_def)

lemma amt_sub_ok: "amount_ok y \<Longrightarrow> amt_sub x y = Inr s \<longleftrightarrow> s = x - y \<and> addable (x - y)"
  by (simp add: amount_ok_def amt_sub_range)

lemma amount_ok_add: "amount_ok x \<Longrightarrow> 0 \<le> y \<Longrightarrow> addable (x + y) \<Longrightarrow> amount_ok (x + y)"
  by (simp add: amount_ok_def addable_nonneg)

lemma amount_ok_diff: "amount_ok x \<Longrightarrow> 0 \<le> y \<Longrightarrow> y \<le> x \<Longrightarrow> amount_ok (x - y)"
  by (auto simp: amount_ok_def in_range_def)

lemma in_range_diff: "amount_ok x \<Longrightarrow> amount_ok y \<Longrightarrow> in_range (x - y)"
  by (auto simp: amount_ok_def in_range_def)

lemma amt_sub_total: "amount_ok x \<Longrightarrow> amount_ok y \<Longrightarrow> amt_sub x y = Inr (x - y)"
  by (simp add: amt_sub_ok addable_def in_range_diff)

lemma entry_okD:
  assumes "entry_ok p"
  shows "0 < p_amount p" "in_range (p_amount p)" "p_side p = Debit \<or> p_side p = Credit"
    "amount_ok (p_amount p)"
  using assms by (auto simp: entry_ok_def amount_ok_def)

lemma all_ok_update:
  "all_ok (current base ch) \<Longrightarrow> account_ok a \<Longrightarrow> all_ok (current base (AList.update i a ch))"
  by (auto simp: all_ok_def split: if_splits)

lemma unpend_ok:
  assumes "unpend base ch ps = Inr ch'" "entries_ok ps" "all_ok (current base ch)"
  shows "all_ok (current base ch')"
  using assms
proof (induction ps arbitrary: ch)
  case (Cons p ps)
  have p: "entry_ok p" "entries_ok ps" using Cons.prems(2) by (auto simp: entries_ok_def)
  obtain a ch1 where st: "staged_account base ch (p_account p) = Inr (a, ch1)"
    using Cons.prems(1) by (auto simp del: bindR_Inr_iff elim!: bindR.elims)
  define a' where "a' = unpended (p_account p) [p] a"
  have "account_ok a"
    using staged_account_Inr(1) [OF st] Cons.prems(3) by (auto simp: all_ok_def)
  then have "account_ok a' \<and> unpend base (AList.update (p_account p) a' ch1) ps = Inr ch'"
    using Cons.prems(1) st p(1) entry_okD [OF p(1)] unfolding a'_def
    by (cases "p_side p = Credit")
      (auto simp: Let_def amt_sub_range unpended_def account_ok_def amount_ok_diff split: if_splits
        intro!: arg_cong [where f = "\<lambda>x. unpend base (AList.update (p_account p) x ch1) ps"] accountState_eqI)
  moreover have "all_ok (current base ch1)"
    using Cons.prems(3) staged_account_current(1) [OF st] by simp
  ultimately show ?case using Cons.IH p all_ok_update by blast
qed simp

section \<open>Adding entries\<close>

definition signed_value :: "posting \<Rightarrow> int" where
  "signed_value p = (if p_side p = Credit then - p_amount p else p_amount p)"

lemma signedAmount_value [simp]: "entry_ok p \<Longrightarrow> signedAmount p = signed_value p"
  by (simp add: signedAmount_def signed_value_def entry_ok_def)

lemma signedAmount_currency [simp]: "signedAmount (p\<lparr>p_currency := c\<rparr>) = signedAmount p"
  by (simp add: signedAmount_def)

lemma record_posting_Inr:
  assumes "record_posting a p st = Inr (a', p')" "entry_ok p" "account_ok a" "p_account p = i"
  shows "a' = added i st [p] a" "account_ok a'"
    "p' = (if st = Pending then p else p\<lparr>p_balanceAfter := postedDebits a' - postedCredits a'\<rparr>)"
proof -
  note ok = entry_okD [OF assms(2)] assms(3) [unfolded account_ok_def]
  have net: "postedNet b = Inr n \<Longrightarrow> amount_ok (postedCredits b) \<Longrightarrow> n = postedDebits b - postedCredits b"
    for b n by (simp add: postedNet_def amt_sub_ok)
  show a': "a' = added i st [p] a"
    using assms(1,4) ok(3) by (auto simp: record_posting_def added_def intro!: accountState_eqI split: if_splits)
  show "account_ok a'"
    using assms(1) ok by (auto simp: record_posting_def account_ok_def amount_ok_add split: if_splits)
  then show "p' = (if st = Pending then p else p\<lparr>p_balanceAfter := postedDebits a' - postedCredits a'\<rparr>)"
    using assms(1) net by (auto simp: record_posting_def account_ok_def split: if_splits)
qed

text \<open>One entry: what the checks of the loop establish.\<close>

definition entry_added ::
  "accounts \<Rightarrow> txn_status \<Rightarrow> add_loop \<Rightarrow> posting \<Rightarrow> add_loop \<Rightarrow> posting \<Rightarrow> accountState \<Rightarrow> bool" where
  "entry_added base st lp p lp' p' a \<longleftrightarrow>
     current base (lp_changed lp) (p_account p) = Some a \<and> a_status a = Open \<and>
     (lp_pinned lp \<longrightarrow> a_ledger a = lp_ledger lp) \<and> (p_currency p = [] \<or> p_currency p = a_currency a) \<and>
     lp_pinned lp' \<and> lp_ledger lp' = a_ledger a \<and>
     stages base (lp_changed lp) (\<lambda>i. added i st [p]) {p_account p} (lp_changed lp') \<and>
     lp_totals lp' = AList.update (a_currency a)
       (or_zero 0 (map_of (lp_totals lp) (a_currency a)) + signed_value p) (lp_totals lp) \<and>
     p' = p\<lparr>p_currency := a_currency a, p_balanceAfter :=
       (if st = Pending then p_balanceAfter p
        else postedDebits (added (p_account p) st [p] a) - postedCredits (added (p_account p) st [p] a))\<rparr> \<and>
     (lp_moved lp \<longrightarrow> lp_moved lp') \<and>
     (\<not> lp_moved lp' \<longrightarrow>
       (\<forall>v. p_lockVersion p = Some v \<longrightarrow> (\<exists>b. map_of base (a_id a) = Some b \<and> a_version b = v)))"

lemma entry_ok_currency [simp]: "entry_ok (p\<lparr>p_currency := c\<rparr>) = entry_ok p"
  by (simp add: entry_ok_def)

lemma added_currency [simp]: "added i st [p\<lparr>p_currency := c\<rparr>] = added i st [p]"
  by (simp add: added_def fun_eq_iff)

lemma add_entry_Inr:
  assumes "add_entry base st lp p = Inr (lp', p')" "entry_ok p"
    and "all_ok (current base (lp_changed lp))"
  shows "(\<exists>a. entry_added base st lp p lp' p' a) \<and> all_ok (current base (lp_changed lp'))"
proof -
  obtain a ch where st: "staged_account base (lp_changed lp) (p_account p) = Inr (a, ch)"
    using assms(1) by (auto simp: add_entry_def simp del: bindR_Inr_iff elim!: bindR.elims)
  define q where "q = p\<lparr>p_currency := a_currency a\<rparr>"
  have a: "account_ok a" using staged_account_Inr(1) [OF st] assms(3) by (auto simp: all_ok_def)
  have q: "entry_ok q" "p_account q = p_account p" "signedAmount q = signed_value p"
    using assms(2) by (simp_all add: q_def)
  obtain moved t a' where opened: "checkOpen a = ok" and
    moved: "lock_moved base a p (lp_moved lp) = Inr moved" and
    ledger: "lp_pinned lp \<longrightarrow> a_ledger a = lp_ledger lp" and
    cur: "p_currency p = [] \<or> p_currency p = a_currency a" and
    t: "amt_add (or_zero 0 (map_of (lp_totals lp) (a_currency a))) (signedAmount q) = Inr t" and
    rec: "record_posting a q st = Inr (a', p')" and
    lp': "lp' = \<lparr>lp_changed = AList.update (p_account p) a' ch, lp_ledger = a_ledger a,
      lp_pinned = True, lp_moved = moved, lp_totals = AList.update (a_currency a) t (lp_totals lp)\<rparr>"
    using assms(1) unfolding add_entry_def st q_def
    by (auto simp: Let_def simp del: amt_add_Inr split: if_splits)
  note a' = record_posting_Inr [OF rec q(1) a q(2)]
  have "stages base (lp_changed lp) (\<lambda>i. added i st [p]) {p_account p} (AList.update (p_account p) a' ch)"
    using st by (rule stages_step) (auto simp: a'(1) q_def added_other)
  moreover have "all_ok (current base (AList.update (p_account p) a' ch))"
    using assms(3) staged_account_current(1) [OF st] a'(2) by (auto intro: all_ok_update)
  moreover have "a_status a = Open" using opened by (auto simp: checkOpen_def split: if_splits)
  moreover have "(lp_moved lp \<longrightarrow> moved) \<and> (\<not> moved \<longrightarrow>
      (\<forall>v. p_lockVersion p = Some v \<longrightarrow> (\<exists>b. map_of base (a_id a) = Some b \<and> a_version b = v)))"
    using moved by (auto simp: lock_moved_def split: if_splits option.splits)
  ultimately show ?thesis
    using staged_account_Inr(1) [OF st] ledger cur lp' t q(3) a'(1,3)
    by (auto simp: entry_added_def q_def)
qed

lemma added_fields [simp]:
  "a_id (added i st ps a) = a_id a" "a_ledger (added i st ps a) = a_ledger a"
  "a_currency (added i st ps a) = a_currency a" "a_status (added i st ps a) = a_status a"
  "a_normalSide (added i st ps a) = a_normalSide a" "a_version (added i st ps a) = a_version a"
  "a_allowNegative (added i st ps a) = a_allowNegative a" "held (added i st ps a) = held a"
  "a_overdraftLimit (added i st ps a) = a_overdraftLimit a"
  "a_closedBefore (added i st ps a) = a_closedBefore a"
  "a_originalVersion (added i st ps a) = a_originalVersion a"
  by (simp_all add: added_def)

lemma unpended_fields [simp]:
  "a_id (unpended i ps a) = a_id a" "a_ledger (unpended i ps a) = a_ledger a"
  "a_currency (unpended i ps a) = a_currency a" "a_status (unpended i ps a) = a_status a"
  "a_normalSide (unpended i ps a) = a_normalSide a" "a_version (unpended i ps a) = a_version a"
  "a_allowNegative (unpended i ps a) = a_allowNegative a" "held (unpended i ps a) = held a"
  "a_overdraftLimit (unpended i ps a) = a_overdraftLimit a"
  "a_closedBefore (unpended i ps a) = a_closedBefore a"
  "a_originalVersion (unpended i ps a) = a_originalVersion a"
  "postedDebits (unpended i ps a) = postedDebits a"
  "postedCredits (unpended i ps a) = postedCredits a"
  by (simp_all add: unpended_def)

lemma unheld_fields [simp]:
  "a_id (unheld i rs a) = a_id a" "a_ledger (unheld i rs a) = a_ledger a"
  "a_currency (unheld i rs a) = a_currency a" "a_status (unheld i rs a) = a_status a"
  "a_normalSide (unheld i rs a) = a_normalSide a" "a_version (unheld i rs a) = a_version a"
  "a_allowNegative (unheld i rs a) = a_allowNegative a"
  "a_overdraftLimit (unheld i rs a) = a_overdraftLimit a"
  "a_closedBefore (unheld i rs a) = a_closedBefore a"
  "a_originalVersion (unheld i rs a) = a_originalVersion a"
  "postedDebits (unheld i rs a) = postedDebits a"
  "postedCredits (unheld i rs a) = postedCredits a"
  "pendingDebits (unheld i rs a) = pendingDebits a"
  "pendingCredits (unheld i rs a) = pendingCredits a"
  by (simp_all add: unheld_def)

text \<open>The entry \<open>q\<close> that the posting of \<open>p\<close> produces after the entries \<open>prefix\<close>: it has the
  account's currency and, unless it is pending, the net balance after it.\<close>

definition posted_as ::
  "(uuid \<Rightarrow> accountState option) \<Rightarrow> txn_status \<Rightarrow> posting list \<Rightarrow> posting \<Rightarrow> posting \<Rightarrow> bool" where
  "posted_as cur st prefix p q \<longleftrightarrow>
     (\<exists>a. cur (p_account p) = Some a \<and> a_status a = Open \<and>
       (p_currency p = [] \<or> p_currency p = a_currency a) \<and>
       q = p\<lparr>p_currency := a_currency a, p_balanceAfter :=
         (if st = Pending then p_balanceAfter p
          else postedDebits (added (p_account p) st (prefix @ [p]) a)
               - postedCredits (added (p_account p) st (prefix @ [p]) a))\<rparr>)"

lemma posted_as_Cons:
  assumes "posted_as (\<lambda>i. map_option (added i st [p]) (cur i)) st prefix x q"
  shows "posted_as cur st (p # prefix) x q"
  using assms by (auto simp: posted_as_def added_Cons [of _ st p "prefix @ [x]"])

definition currency_total :: "string \<Rightarrow> posting list \<Rightarrow> int" where
  "currency_total c ps = sum_over (\<lambda>p. p_currency p = c) signed_value ps"

definition entries_added ::
  "accounts \<Rightarrow> txn_status \<Rightarrow> add_loop \<Rightarrow> posting list \<Rightarrow> add_loop \<Rightarrow> posting list \<Rightarrow> bool" where
  "entries_added base st lp ps lp' qs \<longleftrightarrow>
     length qs = length ps \<and>
     (\<forall>k < length ps. posted_as (current base (lp_changed lp)) st (take k ps) (ps ! k) (qs ! k)) \<and>
     stages base (lp_changed lp) (\<lambda>i. added i st ps) (p_account ` set ps) (lp_changed lp') \<and>
     (\<forall>c. or_zero 0 (map_of (lp_totals lp') c) = or_zero 0 (map_of (lp_totals lp) c) + currency_total c qs) \<and>
     (lp_pinned lp \<longrightarrow> lp_pinned lp' \<and> lp_ledger lp' = lp_ledger lp) \<and> (ps \<noteq> [] \<longrightarrow> lp_pinned lp') \<and>
     (\<forall>p \<in> set ps. \<forall>a. current base (lp_changed lp) (p_account p) = Some a \<longrightarrow> a_ledger a = lp_ledger lp') \<and>
     (lp_moved lp \<longrightarrow> lp_moved lp') \<and>
     (\<not> lp_moved lp' \<longrightarrow> (\<forall>p \<in> set ps. \<forall>v a. p_lockVersion p = Some v \<longrightarrow>
       current base (lp_changed lp) (p_account p) = Some a \<longrightarrow>
         (\<exists>b. map_of base (a_id a) = Some b \<and> a_version b = v)))"

lemma entries_added_Nil: "entries_added base st lp [] lp []"
  by (simp add: entries_added_def currency_total_def stages_refl)

lemma stages_apply:
  "stages base ch f A ch' \<Longrightarrow> current base ch' = (\<lambda>i. map_option (f i) (current base ch i))"
  by (auto simp: stages_def)

lemma entries_added_Cons:
  assumes one: "entry_added base st lp p lp1 q a" and p: "entry_ok p"
    and rest: "entries_added base st lp1 ps lp' qs"
  shows "entries_added base st lp (p # ps) lp' (q # qs)"
proof -
  note e = one [unfolded entry_added_def]
  note r = rest [unfolded entries_added_def]
  have cur1: "current base (lp_changed lp1) = (\<lambda>i. map_option (added i st [p]) (current base (lp_changed lp) i))"
    using e stages_apply by blast
  have posted: "posted_as (current base (lp_changed lp)) st (take k (p # ps)) ((p # ps) ! k) ((q # qs) ! k)"
    if "k < length (p # ps)" for k
  proof (cases k)
    case 0
    then show ?thesis using e by (auto simp: posted_as_def)
  next
    case (Suc j)
    then have "posted_as (current base (lp_changed lp1)) st (take j ps) (ps ! j) (qs ! j)"
      using that r by simp
    then show ?thesis using Suc unfolding cur1 by (simp add: posted_as_Cons)
  qed
  have "stages base (lp_changed lp) (\<lambda>i. added i st ps \<circ> added i st [p])
      ({p_account p} \<union> p_account ` set ps) (lp_changed lp')"
    using e r stages_trans by blast
  then have stages: "stages base (lp_changed lp) (\<lambda>i. added i st (p # ps)) (p_account ` set (p # ps)) (lp_changed lp')"
    by (auto elim!: stages_cong simp: added_Cons [of _ st p ps])
  have sv: "signed_value q = signed_value p" "p_currency q = a_currency a"
    using e by (simp_all add: signed_value_def)
  have totals: "or_zero 0 (map_of (lp_totals lp') c) =
      or_zero 0 (map_of (lp_totals lp) c) + currency_total c (q # qs)" for c
  proof -
    have "lp_totals lp1 = AList.update (a_currency a)
        (or_zero 0 (map_of (lp_totals lp) (a_currency a)) + signed_value p) (lp_totals lp)"
      using e by blast
    moreover have "or_zero 0 (map_of (lp_totals lp') c) =
        or_zero 0 (map_of (lp_totals lp1) c) + currency_total c qs"
      using r by blast
    ultimately show ?thesis by (simp add: currency_total_def sv)
  qed
  have ledger: "a_ledger b = lp_ledger lp'"
    if "x \<in> set (p # ps)" "current base (lp_changed lp) (p_account x) = Some b" for x b
  proof (cases "x = p")
    case True
    then have "b = a" using that(2) e by simp
    then show ?thesis using e r by simp
  next
    case False
    then have "x \<in> set ps" using that by simp
    moreover have "current base (lp_changed lp1) (p_account x) = Some (added (p_account x) st [p] b)"
      using that cur1 by simp
    moreover have "\<forall>p \<in> set ps. \<forall>a. current base (lp_changed lp1) (p_account p) = Some a \<longrightarrow> a_ledger a = lp_ledger lp'"
      using r by blast
    ultimately show ?thesis by (metis added_fields(2))
  qed
  have locks: "\<exists>d. map_of base (a_id b) = Some d \<and> a_version d = v"
    if "\<not> lp_moved lp'" "x \<in> set (p # ps)" "p_lockVersion x = Some v"
      "current base (lp_changed lp) (p_account x) = Some b" for x v b
  proof (cases "x = p")
    case True
    then have "b = a" using that(4) e by simp
    moreover have "\<not> lp_moved lp1" using that(1) r by blast
    ultimately show ?thesis using that(3) True e by blast
  next
    case False
    then have "x \<in> set ps" using that by simp
    moreover have "current base (lp_changed lp1) (p_account x) = Some (added (p_account x) st [p] b)"
      using that cur1 by simp
    moreover have "\<forall>p \<in> set ps. \<forall>v a. p_lockVersion p = Some v \<longrightarrow>
       current base (lp_changed lp1) (p_account p) = Some a \<longrightarrow>
         (\<exists>b. map_of base (a_id a) = Some b \<and> a_version b = v)"
      using r that(1) by blast
    ultimately show ?thesis using that(3) by (metis added_fields(1))
  qed
  show ?thesis
    unfolding entries_added_def
    using posted stages totals ledger locks e r by (intro conjI) (blast | simp)+
qed

lemma add_entries_Inr:
  "add_entries base st lp ps = Inr (lp', qs) \<Longrightarrow> entries_ok ps \<Longrightarrow>
    all_ok (current base (lp_changed lp)) \<Longrightarrow>
    entries_added base st lp ps lp' qs \<and> all_ok (current base (lp_changed lp'))"
proof (induction ps arbitrary: lp qs)
  case Nil
  then show ?case by (simp add: entries_added_Nil)
next
  case (Cons p ps)
  then obtain lp1 q qs' where one: "add_entry base st lp p = Inr (lp1, q)"
    and rest: "add_entries base st lp1 ps = Inr (lp', qs')" and qs: "qs = q # qs'"
    by auto
  have p: "entry_ok p" "entries_ok ps" using Cons.prems(2) by (auto simp: entries_ok_def)
  obtain a where "entry_added base st lp p lp1 q a" and "all_ok (current base (lp_changed lp1))"
    using add_entry_Inr [OF one p(1) Cons.prems(3)] by blast
  then show ?case
    using Cons.IH [OF rest p(2)] entries_added_Cons p(1) qs by blast
qed

end
