(* ===== verification/Transition.thy ===== *)
theory Transition
  imports State_Laws
begin

text \<open>
  The whole of \<^verbatim>\<open>transition\<close>, \<^verbatim>\<open>reserve\<close> and \<^verbatim>\<open>release\<close> of \<^verbatim>\<open>state.go\<close>: a success has
  exactly the abstract effect, its entries balance, the funds of every changed account hold, and
  what is returned describes the balances after the change.
\<close>

section \<open>Releases\<close>

lemma release_holds_stages:
  assumes "release_holds base ch rs = Inr ch'" "releases_ok rs" "all_ok (current base ch)"
  shows "stages base ch (\<lambda>i. unheld i rs) (fst ` set rs) ch' \<and> all_ok (current base ch')"
  using assms
proof (induction rs arbitrary: ch)
  case Nil
  then show ?case by (auto intro: stages_refl)
next
  case (Cons r rs)
  obtain i n where r: "r = (i, n)" by (cases r)
  have n: "0 < n" "in_range n" "releases_ok rs" using Cons.prems(2) r by (auto simp: releases_ok_def)
  obtain a ch1 h where st: "staged_account base ch i = Inr (a, ch1)"
    and h: "release_amount (held a) n = Inr h"
    and rest: "release_holds base (AList.update i (a\<lparr>held := h\<rparr>) ch1) rs = Inr ch'"
    using Cons.prems(1) r by auto
  have h': "h = held a - n" "n \<le> held a"
    using h n by (auto simp: release_amount_def amt_sub_range split: if_splits)
  have a: "account_ok a" using staged_account_Inr(1) [OF st] Cons.prems(3) by (auto simp: all_ok_def)
  have eff: "a\<lparr>held := h\<rparr> = unheld i [(i, n)] a"
    by (rule accountState_eqI) (simp_all add: unheld_def h')
  have "account_ok (a\<lparr>held := h\<rparr>)"
    using a h' n by (auto simp: account_ok_def amount_ok_diff)
  then have "all_ok (current base (AList.update i (a\<lparr>held := h\<rparr>) ch1))"
    using Cons.prems(3) staged_account_current(1) [OF st] by (auto intro: all_ok_update)
  then have "stages base (AList.update i (a\<lparr>held := h\<rparr>) ch1) (\<lambda>i. unheld i rs) (fst ` set rs) ch'
      \<and> all_ok (current base ch')"
    using Cons.IH rest n by blast
  moreover have "stages base ch (\<lambda>j. unheld j [(i, n)]) {i} (AList.update i (a\<lparr>held := h\<rparr>) ch1)"
    using st by (rule stages_step) (auto simp: eff unheld_other)
  ultimately have "stages base ch (\<lambda>j. unheld j rs \<circ> unheld j [(i, n)]) ({i} \<union> fst ` set rs) ch'"
    using stages_trans by blast
  then have "stages base ch (\<lambda>j. unheld j (r # rs)) (fst ` set (r # rs)) ch'"
    by (auto elim!: stages_cong simp: r unheld_Cons [of _ "(i, n)" rs])
  then show ?case using \<open>stages _ _ _ _ ch' \<and> all_ok _\<close> by blast
qed

section \<open>Funds\<close>

text \<open>The available balance: posted on the normal side, minus pending outflows and holds.\<close>

definition avail :: "accountState \<Rightarrow> int" where
  "avail a =
     (if a_normalSide a = Credit then postedCredits a - postedDebits a - pendingDebits a
      else postedDebits a - postedCredits a - pendingCredits a) - held a"

definition funds_ok :: "accountState \<Rightarrow> bool" where
  "funds_ok a \<longleftrightarrow> a_allowNegative a \<or> 0 \<le> avail a + a_overdraftLimit a"

lemma sumAmts_ok:
  "\<forall>n \<in> set ns. amount_ok n \<Longrightarrow> sumAmts ns = Inr t \<Longrightarrow> t = sum_list ns \<and> amount_ok t"
proof -
  assume ns: "\<forall>n \<in> set ns. amount_ok n" and sum: "sumAmts ns = Inr t"
  have t: "t = sum_list ns" using sumAmts_Inr [OF sum] by simp
  have "0 \<le> t" unfolding t using ns by (intro sum_list_nonneg) (auto simp: amount_ok_def)
  moreover have "in_range t"
    using int_arith.sum_from_nonneg [of ns 0] ns sum t
    by (auto simp: sumAmts_def sumAmts_from_eq amount_ok_def in_range_def)
  ultimately show "t = sum_list ns \<and> amount_ok t" using t by (simp add: amount_ok_def)
qed

lemma available_avail:
  assumes "account_ok a" "available a = Inr v"
  shows "v = avail a"
proof (cases "a_normalSide a = Credit")
  case True
  then obtain t where "sumAmts [postedDebits a, pendingDebits a, held a] = Inr t"
    and v: "amt_sub (postedCredits a) t = Inr v"
    using assms(2) by (auto simp: available_def Let_def)
  then have "t = postedDebits a + pendingDebits a + held a \<and> amount_ok t"
    using sumAmts_ok [of "[postedDebits a, pendingDebits a, held a]" t] assms(1)
    by (auto simp: account_ok_def)
  then show ?thesis using v True by (auto simp: amt_sub_ok avail_def)
next
  case False
  then obtain t where "sumAmts [postedCredits a, pendingCredits a, held a] = Inr t"
    and v: "amt_sub (postedDebits a) t = Inr v"
    using assms(2) by (auto simp: available_def Let_def)
  then have "t = postedCredits a + pendingCredits a + held a \<and> amount_ok t"
    using sumAmts_ok [of "[postedCredits a, pendingCredits a, held a]" t] assms(1)
    by (auto simp: account_ok_def)
  then show ?thesis using v False by (auto simp: amt_sub_ok avail_def)
qed

lemma checkFunds_ok:
  assumes "checkFunds a before = ok" "account_ok a" "account_ok before"
  shows "a_allowNegative a \<or> avail before \<le> avail a \<or> 0 \<le> avail a + a_overdraftLimit a"
proof -
  obtain after prior where "available a = Inr after" "available before = Inr prior"
    "a_allowNegative a \<or> prior \<le> after \<or> 0 \<le> after + a_overdraftLimit a"
    using assms(1) by (auto simp: checkFunds_def split: if_splits)
  then show ?thesis using available_avail assms(2,3) by metis
qed

lemma check_all_funds_ok:
  "check_all_funds base ch = ok \<Longrightarrow> distinct (map fst ch) \<Longrightarrow> map_of ch i = Some a \<Longrightarrow>
    \<exists>b. map_of base i = Some b \<and> checkFunds a b = ok"
proof (induction base ch rule: check_all_funds.induct)
  case (2 base j c ch)
  then show ?case by (auto split: option.splits if_splits)
qed simp

section \<open>Commit\<close>

lemma map_of_copy_accounts:
  "distinct (map fst ch) \<Longrightarrow> map_of (copy_accounts base ch) i = current base ch i"
proof (induction base ch rule: copy_accounts.induct)
  case (2 base j a ch)
  then have "map_of ch j = None" by (simp add: map_of_eq_None_iff)
  with 2 show ?case by (auto simp: current_def split: option.splits)
qed simp

lemma distinct_copy_accounts:
  "distinct (map fst base) \<Longrightarrow> distinct (map fst (copy_accounts base ch))"
  by (induction base ch rule: copy_accounts.induct) simp_all

lemma map_of_map_snd:
  "map_of (map (\<lambda>(i, a). (i, g a)) al) i = map_option g (map_of al i)"
  by (induction al) auto

definition bump :: "accountState \<Rightarrow> accountState" where
  "bump a = a\<lparr>a_version := a_version a + 1\<rparr>"

lemma commit_Inr:
  assumes "commit s ch = Inr s'" "distinct (map fst ch)"
  shows "map_of (s_accounts s') i =
      (case map_of ch i of Some a \<Rightarrow> Some (bump a) | None \<Rightarrow> map_of (s_accounts s) i)"
    and "map_of ch i = Some a \<Longrightarrow>
      \<exists>b. map_of (s_accounts s) i = Some b \<and> checkFunds a b = ok"
    and "s_original s' = s_original s" "s_monitors s' = s_monitors s"
    and "distinct (map fst (s_accounts s)) \<Longrightarrow> distinct (map fst (s_accounts s'))"
proof -
  let ?bumped = "map (\<lambda>(i, a). (i, bump a)) ch"
  have funds: "check_all_funds (s_accounts s) ch = ok"
    and s': "s' = s\<lparr>s_accounts := copy_accounts (s_accounts s) ?bumped\<rparr>"
    using assms(1) by (auto simp: commit_def Let_def bump_def)
  have "map fst ?bumped = map fst ch" by (induction ch) auto
  then have "distinct (map fst ?bumped)" using assms(2) by (simp only:)
  then show "map_of (s_accounts s') i =
      (case map_of ch i of Some a \<Rightarrow> Some (bump a) | None \<Rightarrow> map_of (s_accounts s) i)"
    unfolding s' by (auto simp: map_of_copy_accounts current_def map_of_map_snd split: option.splits)
  show "\<exists>b. map_of (s_accounts s) i = Some b \<and> checkFunds a b = ok" if "map_of ch i = Some a"
    using check_all_funds_ok [OF funds assms(2) that] .
  show "s_original s' = s_original s" "s_monitors s' = s_monitors s"
    by (simp_all add: s')
  show "distinct (map fst (s_accounts s'))" if "distinct (map fst (s_accounts s))"
    using that by (simp add: s' distinct_copy_accounts)
qed

section \<open>Resulting balances\<close>

lemma checkResultingLocks_Inr:
  assumes "checkResultingLocks ch ps = Inr qs"
  shows "length qs = length ps"
    and "k < length ps \<Longrightarrow> \<exists>a v. map_of ch (p_account (ps ! k)) = Some a \<and> account_views a = Inr v \<and>
      checkLocks (ps ! k) v = ok \<and> qs ! k = (ps ! k)\<lparr>p_resulting := Some v\<rparr>"
  using assms
proof (induction ps arbitrary: qs k)
  case (Cons p ps)
  {
    case 1
    with Cons.IH(1) show ?case by (auto split: option.splits)
  next
    case 2
    with Cons.IH(2) [of "k - 1"] show ?case by (cases k) (auto split: option.splits)
  }
qed simp_all

lemma checkResultingLocks_total:
  "checkResultingLocks ch ps = Inr qs \<Longrightarrow> currency_total c qs = currency_total c ps"
  by (induction ps arbitrary: qs)
    (auto simp: currency_total_def signed_value_def split: option.splits)

section \<open>The transition\<close>

text \<open>What holds after a successful transition. \<open>cur\<close> is the account as it was before, after its
  pending entries were taken out.\<close>

definition accounts_wf :: "accounts \<Rightarrow> bool" where
  "accounts_wf al \<longleftrightarrow>
     distinct (map fst al) \<and> (\<forall>i a. map_of al i = Some a \<longrightarrow> a_id a = i \<and> account_ok a)"

definition change_ok :: "balanceChange \<Rightarrow> bool" where
  "change_ok c \<longleftrightarrow> entries_ok (c_unpend c) \<and> entries_ok (c_add c) \<and> releases_ok (c_releases c)"

definition before_add :: "ledgerState \<Rightarrow> balanceChange \<Rightarrow> uuid \<Rightarrow> accountState option" where
  "before_add s c i = map_option (unpended i (c_unpend c)) (map_of (s_accounts s) i)"

definition returned_entry :: "ledgerState \<Rightarrow> balanceChange \<Rightarrow> nat \<Rightarrow> posting \<Rightarrow> bool" where
  "returned_entry s c k q \<longleftrightarrow>
     (\<exists>q0 a v. posted_as (before_add s c) (c_status c) (take k (c_add c)) (c_add c ! k) q0 \<and>
       map_of (s_accounts s) (p_account (c_add c ! k)) = Some a \<and>
       account_views (staged_effect c (p_account (c_add c ! k)) a) = Inr v \<and>
       checkLocks q0 v = ok \<and> q = q0\<lparr>p_resulting := Some v\<rparr>)"

lemma accounts_wf_ok: "accounts_wf al \<Longrightarrow> all_ok (map_of al)"
  by (auto simp: accounts_wf_def all_ok_def)

lemma transition_inv:
  assumes "transition s c = Inr (s', l, qs)"
  obtains ch0 lp qs0 ch where
    "unpend (s_accounts s) [] (c_unpend c) = Inr ch0"
    "add_entries (s_accounts s) (c_status c)
       \<lparr>lp_changed = ch0, lp_ledger = c_ledger c, lp_pinned = (c_ledger c \<noteq> 0), lp_moved = False,
        lp_totals = []\<rparr> (c_add c) = Inr (lp, qs0)"
    "\<forall>(x, t) \<in> set (lp_totals lp). t = 0"
    "release_holds (s_accounts s) (lp_changed lp) (c_releases c) = Inr ch"
    "\<not> lp_moved lp" "checkResultingLocks ch qs0 = Inr qs" "commit s ch = Inr s'" "l = lp_ledger lp"
  using assms by (auto simp: transition_def Let_def list_ex_iff split_beta split: if_splits)

lemma transition_facts:
  assumes tr: "transition s c = Inr (s', l, qs)"
    and wf: "accounts_wf (s_accounts s)" and c: "change_ok c"
  shows transition_effect:
      "map_of (s_accounts s') i = map_option (change_account c i) (map_of (s_accounts s) i)"
    and transition_length: "length qs = length (c_add c)"
    and transition_entry: "k < length (c_add c) \<Longrightarrow> returned_entry s c k (qs ! k)"
    and transition_balanced: "currency_total cur qs = 0"
    and transition_touched: "touched c \<subseteq> dom (map_of (s_accounts s))"
    and transition_funds: "i \<in> touched c \<Longrightarrow> map_of (s_accounts s) i = Some a \<Longrightarrow>
      checkFunds (staged_effect c i a) a = ok \<and> account_ok (staged_effect c i a)"
    and transition_ledger: "p \<in> set (c_add c) \<Longrightarrow> map_of (s_accounts s) (p_account p) = Some a \<Longrightarrow>
      a_ledger a = l"
    and transition_pinned: "c_ledger c \<noteq> 0 \<Longrightarrow> l = c_ledger c"
    and transition_locks: "p \<in> set (c_add c) \<Longrightarrow> p_lockVersion p = Some v \<Longrightarrow>
      map_of (s_accounts s) (p_account p) = Some a \<Longrightarrow> a_version a = v"
    and transition_frame: "s_original s' = s_original s" "s_monitors s' = s_monitors s"
    and transition_distinct: "distinct (map fst (s_accounts s'))"
proof -
  let ?base = "s_accounts s"
  from tr obtain ch0 lp qs0 ch where
    up: "unpend ?base [] (c_unpend c) = Inr ch0" and
    ad: "add_entries ?base (c_status c)
       \<lparr>lp_changed = ch0, lp_ledger = c_ledger c, lp_pinned = (c_ledger c \<noteq> 0), lp_moved = False,
        lp_totals = []\<rparr> (c_add c) = Inr (lp, qs0)" and
    bal: "\<forall>(x, t) \<in> set (lp_totals lp). t = 0" and
    rel: "release_holds ?base (lp_changed lp) (c_releases c) = Inr ch" and
    mov: "\<not> lp_moved lp" and res: "checkResultingLocks ch qs0 = Inr qs" and
    com: "commit s ch = Inr s'" and l: "l = lp_ledger lp"
    by (rule transition_inv)
  have cs: "entries_ok (c_unpend c)" "entries_ok (c_add c)" "releases_ok (c_releases c)"
    using c by (simp_all add: change_ok_def)
  have ok0: "all_ok (current ?base [])" using wf accounts_wf_ok by simp
  note st1 = unpend_stages [OF up cs(1)] and ok1 = unpend_ok [OF up cs(1) ok0]
  have ad': "entries_added ?base (c_status c)
       \<lparr>lp_changed = ch0, lp_ledger = c_ledger c, lp_pinned = (c_ledger c \<noteq> 0), lp_moved = False,
        lp_totals = []\<rparr> (c_add c) lp qs0" and ok2: "all_ok (current ?base (lp_changed lp))"
    using add_entries_Inr [OF ad cs(2)] ok1 by simp_all
  note ea = ad' [unfolded entries_added_def, simplified]
  have st2: "stages ?base ch0 (\<lambda>i. added i (c_status c) (c_add c)) (p_account ` set (c_add c)) (lp_changed lp)"
    using ea by blast
  have st3: "stages ?base (lp_changed lp) (\<lambda>i. unheld i (c_releases c)) (fst ` set (c_releases c)) ch"
    and ok3: "all_ok (current ?base ch)"
    using release_holds_stages [OF rel cs(3) ok2] by blast+
  have stages: "stages ?base [] (staged_effect c) (touched c) ch"
    using stages_trans [OF stages_trans [OF st1 st2] st3]
    by (auto elim!: stages_cong simp: staged_effect_def touched_def)
  have cur0: "current ?base ch0 = before_add s c"
    using stages_apply [OF st1] by (auto simp: before_add_def)
  have cur: "current ?base ch i = map_option (staged_effect c i) (map_of ?base i)" for i
    using stages_apply [OF stages] by simp
  have dom: "dom (map_of ch) = touched c" and dist: "distinct (map fst ch)"
    and sub: "touched c \<subseteq> dom (map_of ?base)"
    using stages by (auto simp: stages_def)
  have ch: "map_of ch i = (if i \<in> touched c then map_option (staged_effect c i) (map_of ?base i) else None)"
    for i
  proof (cases "map_of ch i")
    case None
    then show ?thesis using dom by auto
  next
    case (Some a)
    then have "current ?base ch i = Some a" by (simp add: current_def)
    then show ?thesis using Some dom cur [of i] by auto
  qed
  note cm = commit_Inr [OF com dist]
  note rl = checkResultingLocks_Inr [OF res]
  show "touched c \<subseteq> dom (map_of ?base)" by (rule sub)
  show "map_of (s_accounts s') i = map_option (change_account c i) (map_of ?base i)"
    unfolding cm(1) ch
    by (cases "map_of ?base i") (auto simp: change_account_def bump_def staged_effect_def)
  show "length qs = length (c_add c)" using rl(1) ea by simp
  show "returned_entry s c k (qs ! k)" if k: "k < length (c_add c)"
  proof -
    have len: "k < length qs0" using k ea by simp
    obtain a v where a: "map_of ch (p_account (qs0 ! k)) = Some a" "account_views a = Inr v"
      "checkLocks (qs0 ! k) v = ok" "qs ! k = (qs0 ! k)\<lparr>p_resulting := Some v\<rparr>"
      using rl(2) [OF len] by blast
    have pa: "posted_as (before_add s c) (c_status c) (take k (c_add c)) (c_add c ! k) (qs0 ! k)"
      using ea k unfolding cur0 by blast
    then have acc: "p_account (qs0 ! k) = p_account (c_add c ! k)" by (auto simp: posted_as_def)
    have "map_option (staged_effect c (p_account (qs0 ! k))) (map_of ?base (p_account (qs0 ! k))) = Some a"
      using a(1) ch [of "p_account (qs0 ! k)"] by (metis option.distinct(1))
    then obtain b where "map_of ?base (p_account (c_add c ! k)) = Some b"
      "a = staged_effect c (p_account (c_add c ! k)) b"
      unfolding acc by auto
    then show ?thesis using pa a unfolding returned_entry_def by blast
  qed
  show "currency_total cur qs = 0"
  proof -
    have "currency_total cur qs = currency_total cur qs0"
      by (rule checkResultingLocks_total [OF res])
    moreover have "or_zero 0 (map_of (lp_totals lp) cur) = currency_total cur qs0"
      using ea by simp
    moreover have "or_zero 0 (map_of (lp_totals lp) cur) = 0"
      using bal by (cases "map_of (lp_totals lp) cur") (auto dest!: map_of_SomeD)
    ultimately show ?thesis by simp
  qed
  show "checkFunds (staged_effect c i a) a = ok \<and> account_ok (staged_effect c i a)"
    if "i \<in> touched c" "map_of ?base i = Some a"
  proof
    have m: "map_of ch i = Some (staged_effect c i a)" using ch that by simp
    then show "checkFunds (staged_effect c i a) a = ok" using cm(2) that by fastforce
    show "account_ok (staged_effect c i a)" using ok3 cur [of i] that by (auto simp: all_ok_def)
  qed
  show "a_ledger a = l" if "p \<in> set (c_add c)" "map_of ?base (p_account p) = Some a"
  proof -
    have "before_add s c (p_account p) = Some (unpended (p_account p) (c_unpend c) a)"
      using that(2) by (simp add: before_add_def)
    then have "a_ledger (unpended (p_account p) (c_unpend c) a) = lp_ledger lp"
      using ea that(1) unfolding cur0 by blast
    then show ?thesis by (simp add: l)
  qed
  show "l = c_ledger c" if "c_ledger c \<noteq> 0" using ea that l by simp
  show "a_version a = v" if "p \<in> set (c_add c)" "p_lockVersion p = Some v" "map_of ?base (p_account p) = Some a"
  proof -
    have "a_id a = p_account p" using wf that(3) by (auto simp: accounts_wf_def)
    moreover have "before_add s c (p_account p) = Some (unpended (p_account p) (c_unpend c) a)"
      using that(3) by (simp add: before_add_def)
    then have "\<exists>b. map_of ?base (a_id (unpended (p_account p) (c_unpend c) a)) = Some b \<and> a_version b = v"
      using ea mov that(1,2) unfolding cur0 by blast
    ultimately show ?thesis using that(3) by simp
  qed
  show "s_original s' = s_original s" "s_monitors s' = s_monitors s" by (rule cm)+
  show "distinct (map fst (s_accounts s'))" using cm(5) wf by (simp add: accounts_wf_def)
qed

section \<open>The invariant of an account\<close>

text \<open>\<open>outflow\<close> is what \<^verbatim>\<open>available\<close> subtracts. The invariant says that the amounts are non-negative
  and within 38 digits, that every balance an account shows can be computed, and that an account
  which may not go negative has funds within its overdraft limit.\<close>

definition outflow :: "accountState \<Rightarrow> int" where
  "outflow a =
     (if a_normalSide a = Credit then postedDebits a + pendingDebits a
      else postedCredits a + pendingCredits a) + held a"

definition views_ok :: "accountState \<Rightarrow> bool" where
  "views_ok a \<longleftrightarrow>
     in_range (postedDebits a + pendingDebits a) \<and> in_range (postedCredits a + pendingCredits a) \<and>
     in_range (outflow a)"

definition account_inv :: "accountState \<Rightarrow> bool" where
  "account_inv a \<longleftrightarrow>
     side_valid (a_normalSide a) \<and> account_ok a \<and> views_ok a \<and> funds_ok a"

definition view_of :: "accountState \<Rightarrow> int \<Rightarrow> int \<Rightarrow> balance" where
  "view_of a ds cs =
     \<lparr>debits = ds, credits = cs, net = (if a_normalSide a = Credit then cs - ds else ds - cs)\<rparr>"

lemma amount_ok_sum: "amount_ok x \<Longrightarrow> amount_ok y \<Longrightarrow> in_range (x + y) \<Longrightarrow> amount_ok (x + y)"
  by (simp add: amount_ok_def)

lemma amt_add_amount_ok: "amount_ok x \<Longrightarrow> amount_ok y \<Longrightarrow> (\<exists>z. amt_add x y = Inr z) \<longleftrightarrow> in_range (x + y)"
  by (auto simp: amount_ok_def addable_nonneg)

lemma account_balance_total:
  "amount_ok ds \<Longrightarrow> amount_ok cs \<Longrightarrow> account_balance a ds cs = Inr (view_of a ds cs)"
  by (simp add: account_balance_def amt_sub_total view_of_def)

text \<open>The three balances that an account shows.\<close>

lemma account_views_total:
  assumes "account_ok a" "views_ok a" "side_valid (a_normalSide a)"
  shows "account_views a = Inr
    \<lparr>b_pending = view_of a (postedDebits a + pendingDebits a) (postedCredits a + pendingCredits a),
     b_posted = view_of a (postedDebits a) (postedCredits a),
     b_available = (if a_normalSide a = Debit
       then view_of a (postedDebits a) (postedCredits a + pendingCredits a + held a)
       else view_of a (postedDebits a + pendingDebits a + held a) (postedCredits a))\<rparr>"
proof -
  have ok: "amount_ok (postedDebits a)" "amount_ok (postedCredits a)"
    "amount_ok (postedDebits a + pendingDebits a)" "amount_ok (postedCredits a + pendingCredits a)"
    "amount_ok (held a)"
    using assms(1,2) by (auto simp: account_ok_def views_ok_def intro: amount_ok_sum)
  have add: "amt_add (postedDebits a) (pendingDebits a) = Inr (postedDebits a + pendingDebits a)"
    "amt_add (postedCredits a) (pendingCredits a) = Inr (postedCredits a + pendingCredits a)"
    using assms(2) by (simp_all add: views_ok_def addable_def)
  show ?thesis
  proof (cases "a_normalSide a = Debit")
    case True
    have out: "in_range (postedCredits a + pendingCredits a + held a)"
      using assms(2) True by (simp add: views_ok_def outflow_def)
    then have "amount_ok (postedCredits a + pendingCredits a + held a)"
      using ok by (auto intro: amount_ok_sum)
    moreover have "amt_add (postedCredits a + pendingCredits a) (held a)
        = Inr (postedCredits a + pendingCredits a + held a)"
      using out by (simp add: addable_def)
    ultimately show ?thesis
      using True ok add
      by (simp add: account_views_def account_balances_def account_balance_total del: amt_add_Inr)
  next
    case False
    then have out: "in_range (postedDebits a + pendingDebits a + held a)"
      using assms(2,3) by (simp add: views_ok_def outflow_def)
    then have "amount_ok (postedDebits a + pendingDebits a + held a)"
      using ok by (auto intro: amount_ok_sum)
    moreover have "amt_add (postedDebits a + pendingDebits a) (held a)
        = Inr (postedDebits a + pendingDebits a + held a)"
      using out by (simp add: addable_def)
    ultimately show ?thesis
      using False ok add
      by (simp add: account_views_def account_balances_def account_balance_total del: amt_add_Inr)
  qed
qed

lemma account_views_ok:
  assumes "account_views a = Inr v" "account_ok a" "side_valid (a_normalSide a)"
  shows "views_ok a"
proof -
  have sums: "in_range (postedDebits a + pendingDebits a)" "in_range (postedCredits a + pendingCredits a)"
    using assms(1,2)
    by (auto simp: account_views_def account_balances_def account_ok_def amount_ok_def addable_nonneg)
  moreover have "in_range (outflow a)"
    using assms by (auto simp: account_views_def account_balances_def account_ok_def amount_ok_def
      addable_nonneg outflow_def split: if_splits)
  ultimately show ?thesis by (simp add: views_ok_def)
qed

lemma available_total:
  assumes "account_ok a" "views_ok a"
  shows "available a = Inr (avail a)"
proof -
  have sum3: "sumAmts [x, y, z] = Inr (x + y + z)"
    if "amount_ok x" "amount_ok y" "amount_ok z" "in_range (x + y + z)" for x y z
  proof -
    have "in_range x" "in_range (x + y)" using that by (auto simp: amount_ok_def in_range_def)
    then show ?thesis using that by (simp add: sumAmts_def addable_def amt_add_def)
  qed
  have ok: "amount_ok (postedDebits a)" "amount_ok (postedCredits a)" "amount_ok (held a)"
    "amount_ok (pendingDebits a)" "amount_ok (pendingCredits a)"
    using assms(1) by (auto simp: account_ok_def)
  have out: "in_range (outflow a)" using assms(2) by (simp add: views_ok_def)
  show ?thesis
  proof (cases "a_normalSide a = Credit")
    case True
    then show ?thesis
      using ok out sum3 [of "postedDebits a" "pendingDebits a" "held a"]
        amt_sub_total [of "postedCredits a" "postedDebits a + pendingDebits a + held a"]
      by (simp add: available_def avail_def outflow_def amount_ok_def)
  next
    case False
    then show ?thesis
      using ok out sum3 [of "postedCredits a" "pendingCredits a" "held a"]
        amt_sub_total [of "postedDebits a" "postedCredits a + pendingCredits a + held a"]
      by (simp add: available_def avail_def outflow_def amount_ok_def)
  qed
qed

lemma funds_ok_kept:
  assumes "checkFunds a b = ok" "account_ok a" "account_ok b" "funds_ok b"
    "a_allowNegative a = a_allowNegative b" "a_overdraftLimit a = a_overdraftLimit b"
  shows "funds_ok a"
  using checkFunds_ok [OF assms(1-3)] assms(4-6) by (auto simp: funds_ok_def)

lemma available_outflow:
  assumes "available a = Inr v" "account_ok a"
  shows "in_range (outflow a)"
proof (cases "a_normalSide a = Credit")
  case True
  then obtain t where "sumAmts [postedDebits a, pendingDebits a, held a] = Inr t"
    using assms(1) by (auto simp: available_def Let_def)
  then have "t = outflow a \<and> amount_ok t"
    using sumAmts_ok [of "[postedDebits a, pendingDebits a, held a]" t] assms(2) True
    by (auto simp: account_ok_def outflow_def)
  then show ?thesis by (auto simp: amount_ok_def)
next
  case False
  then obtain t where "sumAmts [postedCredits a, pendingCredits a, held a] = Inr t"
    using assms(1) by (auto simp: available_def Let_def)
  then have "t = outflow a \<and> amount_ok t"
    using sumAmts_ok [of "[postedCredits a, pendingCredits a, held a]" t] assms(2) False
    by (auto simp: account_ok_def outflow_def)
  then show ?thesis by (auto simp: amount_ok_def)
qed

lemma checkFunds_available: "checkFunds a b = ok \<Longrightarrow> \<exists>v. available a = Inr v"
  by (auto simp: checkFunds_def)

definition invs :: "accounts \<Rightarrow> bool" where
  "invs al \<longleftrightarrow> accounts_wf al \<and> (\<forall>i a. map_of al i = Some a \<longrightarrow> account_inv a)"

lemma invsD:
  assumes "invs al" "map_of al i = Some a"
  shows "account_inv a" "account_ok a" "a_id a = i" "views_ok a" "funds_ok a" "side_valid (a_normalSide a)"
  using assms by (auto simp: invs_def accounts_wf_def account_inv_def)

lemma staged_effect_fields [simp]:
  "a_id (staged_effect c i a) = a_id a" "a_ledger (staged_effect c i a) = a_ledger a"
  "a_currency (staged_effect c i a) = a_currency a" "a_status (staged_effect c i a) = a_status a"
  "a_normalSide (staged_effect c i a) = a_normalSide a" "a_version (staged_effect c i a) = a_version a"
  "a_allowNegative (staged_effect c i a) = a_allowNegative a"
  "a_overdraftLimit (staged_effect c i a) = a_overdraftLimit a"
  "a_closedBefore (staged_effect c i a) = a_closedBefore a"
  "a_originalVersion (staged_effect c i a) = a_originalVersion a"
  by (simp_all add: staged_effect_def)

lemma staged_effect_totals:
  "held (staged_effect c i a) = held a - released i (c_releases c)"
  "pendingDebits (staged_effect c i a) = pendingDebits a - moved i Debit (c_unpend c)
     + (if c_status c = Pending then moved i Debit (c_add c) else 0)"
  "pendingCredits (staged_effect c i a) = pendingCredits a - moved i Credit (c_unpend c)
     + (if c_status c = Pending then moved i Credit (c_add c) else 0)"
  "postedDebits (staged_effect c i a) = postedDebits a
     + (if c_status c = Pending then 0 else moved i Debit (c_add c))"
  "postedCredits (staged_effect c i a) = postedCredits a
     + (if c_status c = Pending then 0 else moved i Credit (c_add c))"
  by (simp_all add: staged_effect_def unheld_def added_def unpended_def)

lemma in_range_below: "0 \<le> x \<Longrightarrow> x \<le> y \<Longrightarrow> in_range y \<Longrightarrow> in_range x"
  by (simp add: in_range_def)

lemma views_ok_shrink:
  assumes "account_ok b" "views_ok a" "a_normalSide b = a_normalSide a"
    "postedDebits b = postedDebits a" "postedCredits b = postedCredits a"
    "pendingDebits b \<le> pendingDebits a" "pendingCredits b \<le> pendingCredits a" "held b \<le> held a"
  shows "views_ok b"
  unfolding views_ok_def
proof (intro conjI)
  show "in_range (postedDebits b + pendingDebits b)"
    by (rule in_range_below [of _ "postedDebits a + pendingDebits a"])
      (use assms in \<open>auto simp: views_ok_def account_ok_def amount_ok_def\<close>)
  show "in_range (postedCredits b + pendingCredits b)"
    by (rule in_range_below [of _ "postedCredits a + pendingCredits a"])
      (use assms in \<open>auto simp: views_ok_def account_ok_def amount_ok_def\<close>)
  show "in_range (outflow b)"
    by (rule in_range_below [of _ "outflow a"])
      (use assms in \<open>auto simp: views_ok_def account_ok_def amount_ok_def outflow_def\<close>)
qed

lemma transition_account_inv:
  assumes tr: "transition s c = Inr (s', l, qs)" and inv: "invs (s_accounts s)" and c: "change_ok c"
    and i: "i \<in> touched c" "map_of (s_accounts s) i = Some a"
  shows "account_inv (staged_effect c i a)"
proof -
  have wf: "accounts_wf (s_accounts s)" using inv by (simp add: invs_def)
  let ?b = "staged_effect c i a"
  have f: "checkFunds ?b a = ok" "account_ok ?b"
    using transition_funds [OF tr wf c i] by auto
  note a = invsD [OF inv i(2)]
  have funds: "funds_ok ?b"
    using funds_ok_kept [OF f a(2,5)] by simp
  have views: "views_ok ?b"
  proof (cases "i \<in> p_account ` set (c_add c)")
    case True
    then obtain k where k: "k < length (c_add c)" "p_account (c_add c ! k) = i"
      by (auto simp: in_set_conv_nth)
    then obtain v where "account_views ?b = Inr v"
      using transition_entry [OF tr wf c k(1)] i(2) by (auto simp: returned_entry_def)
    then show ?thesis using account_views_ok f(2) a(6) by simp
  next
    case False
    then have "moved i sd (c_add c) = 0" for sd by (rule moved_none)
    moreover have "0 \<le> moved i sd (c_unpend c)" "0 \<le> released i (c_releases c)" for sd
      using c moved_nonneg released_nonneg by (auto simp: change_ok_def)
    ultimately show ?thesis
      by (intro views_ok_shrink [OF f(2) a(4)]) (simp_all add: staged_effect_totals)
  qed
  show ?thesis using a funds views f by (simp add: account_inv_def)
qed

lemma account_inv_version [simp]: "account_inv (a\<lparr>a_version := v\<rparr>) = account_inv a"
  by (simp add: account_inv_def account_ok_def views_ok_def funds_ok_def outflow_def avail_def)

lemma transition_invs:
  assumes tr: "transition s c = Inr (s', l, qs)" and inv: "invs (s_accounts s)" and c: "change_ok c"
  shows "invs (s_accounts s')"
proof -
  have wf: "accounts_wf (s_accounts s)" using inv by (simp add: invs_def)
  have "a_id b = i \<and> account_inv b" if "map_of (s_accounts s') i = Some b" for i b
  proof -
    from that obtain a where a: "map_of (s_accounts s) i = Some a" "b = change_account c i a"
      using transition_effect [OF tr wf c] by auto
    then show ?thesis
      using transition_account_inv [OF tr inv c _ a(1)] invsD [OF inv a(1)]
      by (auto simp: change_account_def)
  qed
  then show ?thesis
    using transition_distinct [OF tr wf c] by (auto simp: invs_def accounts_wf_def account_inv_def)
qed

section \<open>Reserve and release\<close>

lemma commit_single:
  assumes "commit s [(i, a)] = Inr s'"
  shows "map_of (s_accounts s') = (map_of (s_accounts s))(i \<mapsto> bump a)"
    and "\<exists>b. map_of (s_accounts s) i = Some b \<and> checkFunds a b = ok"
    and "distinct (map fst (s_accounts s)) \<Longrightarrow> distinct (map fst (s_accounts s'))"
    and "s_original s' = s_original s" "s_monitors s' = s_monitors s"
  using commit_Inr [OF assms] by auto

lemma account_inv_bump [simp]: "account_inv (bump a) = account_inv a"
  by (simp add: bump_def)

lemma bump_id [simp]: "a_id (bump a) = a_id a"
  by (simp add: bump_def)

lemma invs_update:
  assumes "invs al" "map_of al' = (map_of al)(i \<mapsto> b)" "distinct (map fst al')"
    "account_inv b" "a_id b = i"
  shows "invs al'"
  unfolding invs_def accounts_wf_def
proof (intro conjI allI impI)
  fix j a assume "map_of al' j = Some a"
  then have "j = i \<and> a = b \<or> map_of al j = Some a" using assms(2) by (auto split: if_splits)
  then show "a_id a = j" "account_ok a" "account_inv a"
    using assms(4,5) invsD [OF assms(1)] by (auto simp: account_inv_def)
qed (rule assms)

lemma reserve_facts:
  assumes rs: "reserve s i cur n = Inr s'" and inv: "invs (s_accounts s)" and n: "0 < n"
  shows "\<exists>a. map_of (s_accounts s) i = Some a \<and> a_status a = Open \<and>
      (cur = [] \<or> cur = a_currency a) \<and>
      map_of (s_accounts s') = (map_of (s_accounts s))(i \<mapsto> bump (a\<lparr>held := held a + n\<rparr>)) \<and>
      (a_allowNegative a \<or> n \<le> avail a + a_overdraftLimit a)"
    and "invs (s_accounts s')" "s_original s' = s_original s" "s_monitors s' = s_monitors s"
proof -
  obtain a h where a: "map_of (s_accounts s) i = Some a" "checkOpen a = ok"
    "cur = [] \<or> cur = a_currency a" and h: "amt_add (held a) n = Inr h"
    and com: "commit s [(i, a\<lparr>held := h\<rparr>)] = Inr s'"
    using rs by (auto simp: reserve_def simp del: amt_add_Inr split: option.splits if_splits)
  note c = commit_single [OF com]
  let ?b = "a\<lparr>held := h\<rparr>"
  note i = invsD [OF inv a(1)]
  have h': "h = held a + n" "amount_ok h"
    using h i(2) n amount_ok_add by (auto simp: account_ok_def)
  have f: "checkFunds ?b a = ok" using c(2) a(1) by auto
  have ok: "account_ok ?b" using i(2) h' by (simp add: account_ok_def)
  have funds: "funds_ok ?b" using funds_ok_kept [OF f ok i(2,5)] by simp
  have "in_range (outflow ?b)"
    using checkFunds_available [OF f] available_outflow ok by blast
  then have views: "views_ok ?b" using i(4) by (simp add: views_ok_def)
  have binv: "account_inv ?b" using ok funds views i(6) by (simp add: account_inv_def)
  have wf: "accounts_wf (s_accounts s)" using inv by (simp add: invs_def)
  show "invs (s_accounts s')"
  proof (rule invs_update [OF inv c(1)])
    show "distinct (map fst (s_accounts s'))" using c(3) inv by (simp add: invs_def accounts_wf_def)
  qed (simp_all add: binv i(3))
  show "\<exists>a. map_of (s_accounts s) i = Some a \<and> a_status a = Open \<and>
      (cur = [] \<or> cur = a_currency a) \<and>
      map_of (s_accounts s') = (map_of (s_accounts s))(i \<mapsto> bump (a\<lparr>held := held a + n\<rparr>)) \<and>
      (a_allowNegative a \<or> n \<le> avail a + a_overdraftLimit a)"
    using a c(1) h'(1) funds by (auto simp: checkOpen_def funds_ok_def avail_def split: if_splits)
  show "s_original s' = s_original s" "s_monitors s' = s_monitors s" by (rule c)+
qed

lemma release_facts:
  assumes rl: "release s i n = Inr s'" and inv: "invs (s_accounts s)" and n: "0 < n" "in_range n"
  shows "\<exists>a. map_of (s_accounts s) i = Some a \<and> n \<le> held a \<and>
      map_of (s_accounts s') = (map_of (s_accounts s))(i \<mapsto> bump (a\<lparr>held := held a - n\<rparr>))"
    and "invs (s_accounts s')" "s_original s' = s_original s" "s_monitors s' = s_monitors s"
proof -
  obtain a h where a: "map_of (s_accounts s) i = Some a" and h: "release_amount (held a) n = Inr h"
    and com: "commit s [(i, a\<lparr>held := h\<rparr>)] = Inr s'"
    using rl by (auto simp: release_def split: option.splits)
  note c = commit_single [OF com]
  let ?b = "a\<lparr>held := h\<rparr>"
  note i = invsD [OF inv a(1)]
  have h': "h = held a - n" "n \<le> held a"
    using h n by (auto simp: release_amount_def amt_sub_range split: if_splits)
  have f: "checkFunds ?b a = ok" using c(2) a(1) by auto
  have ok: "account_ok ?b" using i(2) h' n by (simp add: account_ok_def amount_ok_diff)
  have funds: "funds_ok ?b" using funds_ok_kept [OF f ok i(2,5)] by simp
  have views: "views_ok ?b" by (rule views_ok_shrink [OF ok i(4)]) (use h' n in auto)
  have binv: "account_inv ?b" using ok funds views i(6) by (simp add: account_inv_def)
  show "invs (s_accounts s')"
  proof (rule invs_update [OF inv c(1)])
    show "distinct (map fst (s_accounts s'))" using c(3) inv by (simp add: invs_def accounts_wf_def)
  qed (simp_all add: binv i(3))
  show "\<exists>a. map_of (s_accounts s) i = Some a \<and> n \<le> held a \<and>
      map_of (s_accounts s') = (map_of (s_accounts s))(i \<mapsto> bump (a\<lparr>held := held a - n\<rparr>))"
    using a c(1) h' by auto
  show "s_original s' = s_original s" "s_monitors s' = s_monitors s" by (rule c)+
qed

end
