(* ===== verification/Evolution.thy ===== *)
theory Evolution
  imports Transition
begin

text \<open>
  Several transitions in a row on the same locked accounts: what stays fixed of an account, that
  its version tells whether it changed, and the running balances of the entries that were posted.
\<close>

section \<open>Evolution of an account\<close>

definition evolved :: "accountState \<Rightarrow> accountState \<Rightarrow> bool" where
  "evolved a b \<longleftrightarrow>
     a_id b = a_id a \<and> a_ledger b = a_ledger a \<and> a_closedBefore b = a_closedBefore a \<and>
     a_currency b = a_currency a \<and> a_normalSide b = a_normalSide a \<and> a_status b = a_status a \<and>
     a_allowNegative b = a_allowNegative a \<and> a_overdraftLimit b = a_overdraftLimit a \<and>
     a_originalVersion b = a_originalVersion a \<and> a_version a \<le> a_version b \<and>
     (a_version b = a_version a \<longrightarrow> b = a)"

lemma evolved_refl [simp]: "evolved a a"
  by (simp add: evolved_def)

lemma evolved_trans: "evolved a b \<Longrightarrow> evolved b c \<Longrightarrow> evolved a c"
  by (auto simp: evolved_def)

definition state_evolves :: "ledgerState \<Rightarrow> ledgerState \<Rightarrow> bool" where
  "state_evolves s s' \<longleftrightarrow>
     (\<forall>i. rel_option evolved (map_of (s_accounts s) i) (map_of (s_accounts s') i)) \<and>
     s_original s' = s_original s \<and> s_monitors s' = s_monitors s"

lemma state_evolves_refl [simp]: "state_evolves s s"
  by (auto simp: state_evolves_def intro: option.rel_refl)

lemma state_evolves_trans:
  assumes "state_evolves s s'" "state_evolves s' s''"
  shows "state_evolves s s''"
proof -
  have "rel_option evolved (map_of (s_accounts s) i) (map_of (s_accounts s'') i)" for i
  proof -
    have "rel_option evolved (map_of (s_accounts s) i) (map_of (s_accounts s') i)"
      "rel_option evolved (map_of (s_accounts s') i) (map_of (s_accounts s'') i)"
      using assms by (simp_all add: state_evolves_def)
    then show ?thesis by (auto simp: rel_option_iff split: option.splits intro: evolved_trans)
  qed
  then show ?thesis using assms by (simp add: state_evolves_def)
qed

lemma state_evolvesD:
  assumes "state_evolves s s'" "map_of (s_accounts s') i = Some b"
  obtains a where "map_of (s_accounts s) i = Some a" "evolved a b"
  using assms by (metis option_rel_Some2 state_evolves_def)

lemma state_evolves_dom:
  "state_evolves s s' \<Longrightarrow> map_of (s_accounts s) i = Some a \<Longrightarrow>
    \<exists>b. map_of (s_accounts s') i = Some b \<and> evolved a b"
  by (metis option_rel_Some1 state_evolves_def)

lemma change_account_evolved: "evolved a (change_account c i a)"
  by (simp add: evolved_def change_account_def)

lemma transition_evolves:
  assumes "transition s c = Inr (s', l, qs)" "accounts_wf (s_accounts s)" "change_ok c"
  shows "state_evolves s s'"
proof -
  have "rel_option evolved (map_of (s_accounts s) i) (map_of (s_accounts s') i)" for i
    unfolding transition_effect [OF assms]
    by (cases "map_of (s_accounts s) i") (simp_all add: change_account_evolved)
  then show ?thesis
    using transition_frame [OF assms] by (simp add: state_evolves_def)
qed

lemma single_evolves:
  assumes "map_of (s_accounts s) i = Some a" "map_of (s_accounts s') = (map_of (s_accounts s))(i \<mapsto> b)"
    "evolved a b" "s_original s' = s_original s" "s_monitors s' = s_monitors s"
  shows "state_evolves s s'"
proof -
  have "rel_option evolved (map_of (s_accounts s) j) (map_of (s_accounts s') j)" for j
    using assms(1-3) by (cases "map_of (s_accounts s) j") auto
  then show ?thesis using assms(4,5) by (simp add: state_evolves_def)
qed

lemma bump_evolved: "evolved a (bump (a\<lparr>held := n\<rparr>))"
  by (simp add: evolved_def bump_def)

section \<open>Entries with running balances\<close>

text \<open>\<open>chained f ps\<close>: each entry carries the net balance of its account after it, when the
  accounts start as \<open>f\<close> and the entries are posted in order.\<close>

definition net_after :: "accountState \<Rightarrow> uuid \<Rightarrow> posting list \<Rightarrow> int" where
  "net_after a i ps =
     postedDebits a + moved i Debit ps - (postedCredits a + moved i Credit ps)"

definition chained :: "(uuid \<Rightarrow> accountState option) \<Rightarrow> posting list \<Rightarrow> bool" where
  "chained f ps \<longleftrightarrow>
     (\<forall>k < length ps. \<exists>a. f (p_account (ps ! k)) = Some a \<and>
       p_balanceAfter (ps ! k) = net_after a (p_account (ps ! k)) (take (Suc k) ps))"

lemma chained_Nil [simp]: "chained f []"
  by (simp add: chained_def)

lemma chained_append:
  assumes "chained f ps" "chained g qs"
    and "\<And>i a. f i = Some a \<Longrightarrow> \<exists>b. g i = Some b \<and>
      postedDebits b = postedDebits a + moved i Debit ps \<and>
      postedCredits b = postedCredits a + moved i Credit ps"
    and "\<And>i b. g i = Some b \<Longrightarrow> f i \<noteq> None"
  shows "chained f (ps @ qs)"
  unfolding chained_def
proof (intro allI impI)
  fix k assume k: "k < length (ps @ qs)"
  show "\<exists>a. f (p_account ((ps @ qs) ! k)) = Some a \<and>
    p_balanceAfter ((ps @ qs) ! k) = net_after a (p_account ((ps @ qs) ! k)) (take (Suc k) (ps @ qs))"
  proof (cases "k < length ps")
    case True
    then show ?thesis using assms(1) by (simp add: chained_def nth_append)
  next
    case False
    define j where "j = k - length ps"
    have j: "j < length qs" "(ps @ qs) ! k = qs ! j" "take (Suc k) (ps @ qs) = ps @ take (Suc j) qs"
      using k False by (auto simp: j_def nth_append Suc_diff_le)
    obtain b where b: "g (p_account (qs ! j)) = Some b"
      "p_balanceAfter (qs ! j) = net_after b (p_account (qs ! j)) (take (Suc j) qs)"
      using assms(2) j(1) by (auto simp: chained_def)
    obtain a where a: "f (p_account (qs ! j)) = Some a"
      using assms(4) [OF b(1)] by blast
    obtain b' where "g (p_account (qs ! j)) = Some b'"
      "postedDebits b' = postedDebits a + moved (p_account (qs ! j)) Debit ps"
      "postedCredits b' = postedCredits a + moved (p_account (qs ! j)) Credit ps"
      using assms(3) [OF a] by blast
    then show ?thesis using a b unfolding j by (simp add: net_after_def)
  qed
qed

section \<open>What a transition returns\<close>

definition entry_of :: "accountState \<Rightarrow> posting \<Rightarrow> bool" where
  "entry_of a q \<longleftrightarrow> a_status a = Open \<and> p_currency q = a_currency a"

lemma moved_cong:
  "map (\<lambda>p. (p_account p, p_side p, p_amount p)) ps = map (\<lambda>p. (p_account p, p_side p, p_amount p)) qs \<Longrightarrow>
    moved i s ps = moved i s qs"
proof (induction ps arbitrary: qs)
  case (Cons p ps)
  then obtain q qs' where "qs = q # qs'" by (cases qs) auto
  with Cons show ?case by auto
qed simp

lemma entries_ok_cong:
  "map (\<lambda>p. (p_account p, p_side p, p_amount p)) ps = map (\<lambda>p. (p_account p, p_side p, p_amount p)) qs \<Longrightarrow>
    entries_ok ps = entries_ok qs"
proof (induction ps arbitrary: qs)
  case (Cons p ps)
  then obtain q qs' where "qs = q # qs'" by (cases qs) auto
  with Cons show ?case by (auto simp: entries_ok_def entry_ok_def)
qed simp

lemma added_posted:
  "st \<noteq> Pending \<Longrightarrow> postedDebits (added i st ps a) = postedDebits a + moved i Debit ps"
  "st \<noteq> Pending \<Longrightarrow> postedCredits (added i st ps a) = postedCredits a + moved i Credit ps"
  by (simp_all add: added_def)

lemma transition_returned:
  assumes tr: "transition s c = Inr (s', l, qs)" and wf: "accounts_wf (s_accounts s)" and c: "change_ok c"
  shows "map (\<lambda>p. (p_account p, p_side p, p_amount p)) qs
      = map (\<lambda>p. (p_account p, p_side p, p_amount p)) (c_add c)"
    and "moved i sd qs = moved i sd (c_add c)" and "entries_ok qs"
    and "q \<in> set qs \<Longrightarrow> \<exists>a. map_of (s_accounts s) (p_account q) = Some a \<and> entry_of a q \<and> a_ledger a = l"
    and "c_status c \<noteq> Pending \<Longrightarrow> chained (map_of (s_accounts s)) qs"
proof -
  note len = transition_length [OF tr wf c]
  have entry: "returned_entry s c k (qs ! k)" if "k < length qs" for k
    using transition_entry [OF tr wf c, of k] that len by simp
  have same: "p_account (qs ! k) = p_account (c_add c ! k) \<and> p_side (qs ! k) = p_side (c_add c ! k) \<and>
      p_amount (qs ! k) = p_amount (c_add c ! k)" if "k < length qs" for k
    using entry [OF that] by (auto simp: returned_entry_def posted_as_def)
  show eq: "map (\<lambda>p. (p_account p, p_side p, p_amount p)) qs
      = map (\<lambda>p. (p_account p, p_side p, p_amount p)) (c_add c)"
    using same len by (intro nth_equalityI) auto
  show "moved i sd qs = moved i sd (c_add c)" by (rule moved_cong [OF eq])
  show "entries_ok qs" using entries_ok_cong [OF eq] c by (simp add: change_ok_def)
  show "\<exists>a. map_of (s_accounts s) (p_account q) = Some a \<and> entry_of a q \<and> a_ledger a = l" if "q \<in> set qs"
  proof -
    obtain k where k: "k < length qs" "q = qs ! k" using \<open>q \<in> set qs\<close> by (auto simp: in_set_conv_nth)
    have "c_add c ! k \<in> set (c_add c)" using k len by simp
    note ledger = transition_ledger [OF tr wf c this]
    obtain q0 a v b where q0: "before_add s c (p_account (c_add c ! k)) = Some b" "a_status b = Open"
      "q0 = (c_add c ! k)\<lparr>p_currency := a_currency b, p_balanceAfter := v\<rparr>"
      and a: "map_of (s_accounts s) (p_account (c_add c ! k)) = Some a"
      and q: "p_currency q = p_currency q0"
      using entry [OF k(1)] k(2) unfolding returned_entry_def posted_as_def by fastforce
    have "b = unpended (p_account (c_add c ! k)) (c_unpend c) a"
      using q0(1) a by (simp add: before_add_def)
    then have "entry_of a q" using q0(2,3) q by (simp add: entry_of_def)
    then show ?thesis using ledger [OF a] a same [OF k(1)] k(2) by metis
  qed
  show "chained (map_of (s_accounts s)) qs" if st: "c_status c \<noteq> Pending"
    unfolding chained_def
  proof (intro allI impI)
    fix k assume k: "k < length qs"
    let ?i = "p_account (c_add c ! k)"
    obtain q0 a v b where q0: "posted_as (before_add s c) (c_status c) (take k (c_add c)) (c_add c ! k) q0"
      and a: "map_of (s_accounts s) ?i = Some a" and q: "qs ! k = q0\<lparr>p_resulting := Some v\<rparr>"
      using entry [OF k] by (auto simp: returned_entry_def)
    have "take k (c_add c) @ [c_add c ! k] = take (Suc k) (c_add c)"
      using k len by (simp add: take_Suc_conv_app_nth)
    moreover obtain b where "before_add s c ?i = Some b"
      and after: "p_balanceAfter q0 = postedDebits (added ?i (c_status c) (take k (c_add c) @ [c_add c ! k]) b)
         - postedCredits (added ?i (c_status c) (take k (c_add c) @ [c_add c ! k]) b)"
      using q0 st unfolding posted_as_def by fastforce
    moreover from this have "b = unpended ?i (c_unpend c) a" using a by (simp add: before_add_def)
    ultimately have "p_balanceAfter q0 = net_after a ?i (take (Suc k) (c_add c))"
      by (simp only: added_posted [OF st] net_after_def unpended_fields)
    moreover have "map (\<lambda>p. (p_account p, p_side p, p_amount p)) (take (Suc k) qs)
        = map (\<lambda>p. (p_account p, p_side p, p_amount p)) (take (Suc k) (c_add c))"
      using arg_cong [OF eq, of "take (Suc k)"] by (simp only: take_map)
    then have "moved j sd (take (Suc k) qs) = moved j sd (take (Suc k) (c_add c))" for j sd
      by (rule moved_cong)
    ultimately show "\<exists>a. map_of (s_accounts s) (p_account (qs ! k)) = Some a \<and>
        p_balanceAfter (qs ! k) = net_after a (p_account (qs ! k)) (take (Suc k) qs)"
      using a q same [OF k] by (simp add: net_after_def)
  qed
qed

end
