(* ===== verification/Samples.thy ===== *)
theory Samples
  imports Evolution
begin

text \<open>
  Small concrete states on which the properties are applied: a ledger with a cash account and a
  customer's account, a deposit of 100, and a reservation.
\<close>

definition sample_account :: "uuid \<Rightarrow> side \<Rightarrow> bool \<Rightarrow> int \<Rightarrow> int \<Rightarrow> accountState" where
  "sample_account i s neg ds cs =
     \<lparr>a_id = i, a_ledger = 1, a_closedBefore = None, a_currency = ''EUR'', a_normalSide = s,
      a_status = Open, a_allowNegative = neg, a_overdraftLimit = 0, postedDebits = ds,
      postedCredits = cs, pendingDebits = 0, pendingCredits = 0, held = 0, a_version = 1,
      a_originalVersion = 1\<rparr>"

definition sample_state :: ledgerState where
  "sample_state =
     newLedgerState [sample_account 11 Debit True 40 0, sample_account 12 Credit False 0 40] []"

definition sample_entries :: "posting list" where
  "sample_entries = [plain_posting 11 Debit 100 ''EUR'', plain_posting 12 Credit 100 []]"

definition sample_change :: balanceChange where
  "sample_change =
     \<lparr>c_ledger = 0, c_unpend = [], c_add = sample_entries, c_status = Posted, c_releases = []\<rparr>"

lemma sample_runs: "\<exists>s' l qs. transition sample_state sample_change = Inr (s', l, qs)"
proof -
  have "\<not> isl (transition sample_state sample_change)" by code_simp
  then show ?thesis by (cases "transition sample_state sample_change") auto
qed

lemma sample_reserves: "\<exists>s'. reserve sample_state 12 ''EUR'' 25 = Inr s'"
proof -
  have "\<not> isl (reserve sample_state 12 ''EUR'' 25)" by code_simp
  then show ?thesis by (cases "reserve sample_state 12 ''EUR'' 25") auto
qed

lemma sample_change_ok: "change_ok sample_change"
  by (simp add: change_ok_def sample_change_def sample_entries_def entries_ok_def entry_ok_def
      releases_ok_def plain_posting_def in_range_def)

lemma sample_invs: "invs (s_accounts sample_state)"
  by (simp add: invs_def accounts_wf_def sample_state_def newLedgerState_def sample_account_def
      account_inv_def account_ok_def amount_ok_def views_ok_def funds_ok_def outflow_def avail_def
      in_range_def)

lemma sample_wf: "accounts_wf (s_accounts sample_state)"
  using sample_invs by (simp add: invs_def)

end
