(* ===== verification/State_Properties.thy ===== *)
theory State_Properties
  imports Samples
begin

text \<open>
  The properties of \<^verbatim>\<open>state.go\<close>: what a balance change does to the accounts, which changes are
  refused, and what reserving and releasing funds does.
\<close>

text \<open>
  C12. A change that succeeds moves each account by exactly the sums of its entries: the entries added
  go to the posted totals, or to the pending totals when the transaction is pending, the entries
  taken back leave the pending totals, and the releases leave the held amount. The version of an
  account goes up by one when the change names the account, and an account it does not name is the
  same as before.
\<close>

theorem transition_moves_accounts:
  assumes "transition s c = Inr (s', l, qs)" "accounts_wf (s_accounts s)" "change_ok c"
    and "map_of (s_accounts s) i = Some a"
  shows "\<exists>b. map_of (s_accounts s') i = Some b \<and>
     postedDebits b = postedDebits a + (if c_status c = Pending then 0 else moved i Debit (c_add c)) \<and>
     postedCredits b = postedCredits a + (if c_status c = Pending then 0 else moved i Credit (c_add c)) \<and>
     pendingDebits b = pendingDebits a - moved i Debit (c_unpend c)
       + (if c_status c = Pending then moved i Debit (c_add c) else 0) \<and>
     pendingCredits b = pendingCredits a - moved i Credit (c_unpend c)
       + (if c_status c = Pending then moved i Credit (c_add c) else 0) \<and>
     held b = held a - released i (c_releases c) \<and>
     a_version b = a_version a + (if i \<in> touched c then 1 else 0) \<and>
     (i \<notin> touched c \<longrightarrow> b = a)"
proof -
  have eff: "map_of (s_accounts s') i = Some (change_account c i a)"
    using transition_effect [OF assms(1-3)] assms(4) by simp
  show ?thesis
  proof (cases "i \<in> touched c")
    case True
    then show ?thesis using eff by (simp add: change_account_def staged_effect_totals)
  next
    case False
    then have "moved i sd (c_add c) = 0" "moved i sd (c_unpend c) = 0" "released i (c_releases c) = 0" for sd
      by (auto simp: touched_def intro: moved_none released_none)
    then show ?thesis using eff False by (simp add: change_account_def)
  qed
qed

lemma transition_moves_accounts_witness:
  "\<exists>s' l qs b. transition sample_state sample_change = Inr (s', l, qs) \<and>
     map_of (s_accounts s') 12 = Some b \<and> postedCredits b = 140 \<and> a_version b = 2"
proof -
  obtain s' l qs where tr: "transition sample_state sample_change = Inr (s', l, qs)"
    using sample_runs by blast
  have a: "map_of (s_accounts sample_state) 12
      = Some (sample_account 12 Credit False 0 40)"
    by (simp add: sample_state_def newLedgerState_def sample_account_def)
  have "moved 12 Credit (c_add sample_change) = 100" "12 \<in> touched sample_change"
    "c_status sample_change = Posted"
    by (simp_all add: sample_change_def sample_entries_def plain_posting_def touched_def)
  then show ?thesis
    using transition_moves_accounts [OF tr sample_wf sample_change_ok a] tr
    by (auto simp: sample_account_def)
qed

text \<open>
  C3. Double entry: the entries a successful change returns sum to zero in every currency, they are
  the entries asked for (same accounts, sides and amounts, in order), and each has the currency of
  an open account of one ledger.
\<close>

theorem transition_double_entry:
  assumes "transition s c = Inr (s', l, qs)" "accounts_wf (s_accounts s)" "change_ok c"
  shows "currency_total cur qs = 0 \<and>
     map (\<lambda>q. (p_account q, p_side q, p_amount q)) qs
       = map (\<lambda>p. (p_account p, p_side p, p_amount p)) (c_add c) \<and>
     (\<forall>q \<in> set qs. \<exists>a. map_of (s_accounts s) (p_account q) = Some a \<and> a_status a = Open \<and>
        p_currency q = a_currency a \<and> a_ledger a = l)"
  using transition_balanced [OF assms] transition_returned(1) [OF assms] transition_returned(4) [OF assms]
  by (auto simp: entry_of_def)

lemma transition_double_entry_witness:
  "\<exists>s' l qs. transition sample_state sample_change = Inr (s', l, qs) \<and> currency_total ''EUR'' qs = 0"
  using sample_runs transition_double_entry [OF _ sample_wf sample_change_ok] by blast

text \<open>
  A successful change keeps the invariant of every account: the totals are amounts in range and
  not negative, the three balances can be computed, and the available balance of an account that may
  not go negative is not below its overdraft limit.
\<close>

theorem transition_keeps_accounts:
  assumes "transition s c = Inr (s', l, qs)" "invs (s_accounts s)" "change_ok c"
  shows "invs (s_accounts s')"
  by (rule transition_invs [OF assms])

lemma transition_keeps_accounts_witness:
  "\<exists>s' l qs. transition sample_state sample_change = Inr (s', l, qs) \<and> invs (s_accounts s')"
  using sample_runs transition_keeps_accounts [OF _ sample_invs sample_change_ok] by blast

text \<open>
  The running balance: unless the change is pending, every returned entry carries the posted net
  balance of its account right after it, counting the entries before it.
\<close>

theorem transition_running_balance:
  assumes "transition s c = Inr (s', l, qs)" "accounts_wf (s_accounts s)" "change_ok c"
    and "c_status c \<noteq> Pending" "k < length qs"
  shows "\<exists>a. map_of (s_accounts s) (p_account (qs ! k)) = Some a \<and>
     p_balanceAfter (qs ! k) = net_after a (p_account (qs ! k)) (take (Suc k) qs)"
  using transition_returned(5) [OF assms(1-3)] assms(4,5) by (simp add: chained_def)

lemma transition_running_balance_witness:
  "\<exists>s' l qs a. transition sample_state sample_change = Inr (s', l, qs) \<and>
     p_balanceAfter (qs ! 1) = net_after a (p_account (qs ! 1)) (take 2 qs)"
proof -
  obtain s' l qs where tr: "transition sample_state sample_change = Inr (s', l, qs)"
    using sample_runs by blast
  have len: "length qs = 2"
    using transition_length [OF tr sample_wf sample_change_ok]
    by (simp add: sample_change_def sample_entries_def)
  have "\<exists>a. map_of (s_accounts sample_state) (p_account (qs ! 1)) = Some a \<and>
     p_balanceAfter (qs ! 1) = net_after a (p_account (qs ! 1)) (take (Suc 1) qs)"
    by (rule transition_running_balance [OF tr sample_wf sample_change_ok])
      (simp_all add: len sample_change_def)
  then show ?thesis using tr by (auto simp: numeral_2_eq_2)
qed

text \<open>
  The guards: a change that succeeds named only locked accounts, all entries are on accounts of the
  ledger it was pinned to, every entry's lock version is the version of its account, and the balance
  conditions of every entry hold on the resulting balances, which the entry carries.
\<close>

theorem transition_guards:
  assumes "transition s c = Inr (s', l, qs)" "accounts_wf (s_accounts s)" "change_ok c"
    and "k < length (c_add c)"
  shows "\<exists>a b v. map_of (s_accounts s) (p_account (c_add c ! k)) = Some a \<and>
     map_of (s_accounts s') (p_account (c_add c ! k)) = Some b \<and>
     a_ledger a = l \<and> (c_ledger c = 0 \<or> l = c_ledger c) \<and>
     (\<forall>n. p_lockVersion (c_add c ! k) = Some n \<longrightarrow> a_version a = n) \<and>
     p_resulting (qs ! k) = Some v \<and> account_views b = Inr v \<and> checkLocks (c_add c ! k) v = ok"
proof -
  let ?p = "c_add c ! k"
  have p: "?p \<in> set (c_add c)" using assms(4) by simp
  then have tch: "p_account ?p \<in> touched c" by (auto simp: touched_def)
  have "returned_entry s c k (qs ! k)" by (rule transition_entry [OF assms])
  then obtain q0 a v where q: "posted_as (before_add s c) (c_status c) (take k (c_add c)) ?p q0"
    "map_of (s_accounts s) (p_account ?p) = Some a"
    "account_views (staged_effect c (p_account ?p) a) = Inr v" "checkLocks q0 v = ok"
    "qs ! k = q0\<lparr>p_resulting := Some v\<rparr>"
    unfolding returned_entry_def by blast
  have views: "account_views (x\<lparr>a_version := w\<rparr>) = account_views x" for x w
    by (simp add: account_views_def account_balances_def account_balance_def cong: if_cong)
  have "checkLocks ?p v = ok"
    using q(1,4) by (auto simp: posted_as_def checkLocks_def)
  moreover have "map_of (s_accounts s') (p_account ?p) = Some (change_account c (p_account ?p) a)"
    using transition_effect [OF assms(1-3)] q(2) by simp
  moreover have "account_views (change_account c (p_account ?p) a) = Inr v"
    using q(3) tch by (simp only: change_account_def if_True views)
  moreover have "p_resulting (qs ! k) = Some v" using q(5) by simp
  moreover have "a_ledger a = l" "c_ledger c = 0 \<or> l = c_ledger c"
    using transition_ledger [OF assms(1-3) p q(2)] transition_pinned [OF assms(1-3)] by auto
  moreover have "\<forall>n. p_lockVersion ?p = Some n \<longrightarrow> a_version a = n"
    using transition_locks [OF assms(1-3) p _ q(2)] by blast
  ultimately show ?thesis using q(2) by blast
qed

lemma transition_guards_witness:
  "\<exists>s' l qs v. transition sample_state sample_change = Inr (s', l, qs) \<and>
     p_resulting (qs ! 0) = Some v \<and> checkLocks (c_add sample_change ! 0) v = ok"
proof -
  obtain s' l qs where tr: "transition sample_state sample_change = Inr (s', l, qs)"
    using sample_runs by blast
  have "0 < length (c_add sample_change)" by (simp add: sample_change_def sample_entries_def)
  from transition_guards [OF tr sample_wf sample_change_ok this] show ?thesis using tr by blast
qed

text \<open>
  Reserving funds for a hold raises the held amount of the account by exactly the amount, on an open
  account of that currency, only when the available balance and the overdraft cover it, and keeps the
  invariant of every account.
\<close>

theorem reserve_spec:
  assumes "reserve s i cur n = Inr s'" "invs (s_accounts s)" "0 < n"
  shows "(\<exists>a b. map_of (s_accounts s) i = Some a \<and> a_status a = Open \<and> (cur = [] \<or> cur = a_currency a) \<and>
      map_of (s_accounts s') = (map_of (s_accounts s))(i \<mapsto> b) \<and>
      b = a\<lparr>held := held a + n, a_version := a_version a + 1\<rparr> \<and>
      (a_allowNegative a \<or> n \<le> avail a + a_overdraftLimit a)) \<and>
    invs (s_accounts s')"
  using reserve_facts(1) [OF assms] reserve_facts(2) [OF assms] by (auto simp: bump_def)

lemma reserve_spec_witness:
  "\<exists>s'. reserve sample_state 12 ''EUR'' 25 = Inr s' \<and> invs (s_accounts s')"
  using sample_reserves reserve_spec [OF _ sample_invs, of 12 "''EUR''" 25] by auto

end
