(* ===== verification/Store.thy ===== *)
theory Store
  imports Transition
begin

text \<open>
  The database as the ledger uses it: \<^verbatim>\<open>store.go\<close>, \<^verbatim>\<open>store_accounts.go\<close>,
  \<^verbatim>\<open>store_transactions.go\<close>, \<^verbatim>\<open>store_holds.go\<close> and \<^verbatim>\<open>events.go\<close>. A table is the list of its rows
  in insertion order. A statement is a function on the whole database that fails where a
  constraint or a trigger of the migrations rejects it; a failed database transaction is an
  \<^const>\<open>Inl\<close> and leaves the database as it was. \<^verbatim>\<open>FOR UPDATE\<close> makes the database transactions
  that touch the same rows run one after the other, which is how the model runs them.
\<close>

section \<open>Rows\<close>

record account_row =
  ac_id :: uuid
  ac_ledger :: uuid
  ac_code :: string
  ac_name :: string
  ac_description :: string
  ac_metadata :: jvalue
  ac_currency :: string
  ac_normalSide :: side
  ac_allowNegative :: bool
  ac_overdraftLimit :: int
  ac_postedDebits :: int
  ac_postedCredits :: int
  ac_pendingDebits :: int
  ac_pendingCredits :: int
  ac_held :: int
  ac_status :: acct_status
  ac_statusChangedAt :: "gotime option"
  ac_version :: int
  ac_createdAt :: gotime

record txn_row =
  tr_id :: uuid
  tr_ledger :: uuid
  tr_key :: string
  tr_externalID :: "string option"
  tr_status :: txn_status
  tr_version :: int
  tr_entriesVersion :: int
  tr_description :: string
  tr_metadata :: jvalue
  tr_reverses :: "uuid option"
  tr_effectiveAt :: gotime
  tr_createdAt :: gotime
  tr_postedAt :: "gotime option"
  tr_archivedAt :: "gotime option"
  tr_request :: "postInput option"

record posting_row =
  pr_id :: nat
  pr_txn :: uuid
  pr_account :: uuid
  pr_currency :: string
  pr_side :: side
  pr_amount :: int
  pr_after :: int

record pending_row =
  pe_id :: nat
  pe_txn :: uuid
  pe_version :: int
  pe_account :: uuid
  pe_currency :: string
  pe_side :: side
  pe_amount :: int

record settlement =
  st_id :: uuid
  st_key :: string
  st_ledger :: uuid
  st_settled :: uuid
  st_contra :: uuid
  st_currency :: string
  st_upperBound :: "gotime option"
  st_amount :: int
  st_entryCount :: int
  st_txn :: "uuid option"
  st_description :: string
  st_metadata :: jvalue
  st_createdAt :: gotime

datatype event =
    TxnEvent string transaction
  | AccountEvent string account_row
  | HoldEvent string hold
  | MonitorEvent monitor balances
  | SettlementEvent settlement

record db =
  db_ledgers :: "ledger list"
  db_currencies :: "currency list"
  db_accounts :: "account_row list"
  db_txns :: "txn_row list"
  db_postings :: "posting_row list"
  db_pending :: "pending_row list"
  db_holds :: "hold list"
  db_monitors :: "monitor list"
  db_settlements :: "settlement list"
  db_settled :: "(nat \<times> uuid) list"
  db_events :: "event list"
  db_sequence :: nat
  db_schedules :: "schedule list"
  db_categories :: "category list"
  db_members :: "(uuid \<times> uuid) list"
  db_edges :: "(uuid \<times> uuid) list"
  db_statements :: "statement_row list"

text \<open>\<open>db_members\<close> pairs a category with an account, \<open>db_edges\<close> a category with one nested in it; the
  ledger and the currency that these rows repeat are those of the category.\<close>

definition ledger_by :: "db \<Rightarrow> uuid \<Rightarrow> ledger option" where
  "ledger_by d = row_by l_id (db_ledgers d)"

definition account_by :: "db \<Rightarrow> uuid \<Rightarrow> account_row option" where
  "account_by d = row_by ac_id (db_accounts d)"

definition txn_by :: "db \<Rightarrow> uuid \<Rightarrow> txn_row option" where
  "txn_by d = row_by tr_id (db_txns d)"

definition hold_by :: "db \<Rightarrow> uuid \<Rightarrow> hold option" where
  "hold_by d = row_by h_id (db_holds d)"

section \<open>Locking accounts\<close>

text \<open>The columns that \<^verbatim>\<open>queueLockAccounts\<close> reads; \<^verbatim>\<open>closed_before\<close> comes from the joined ledger.\<close>

definition row_state :: "gotime option \<Rightarrow> account_row \<Rightarrow> accountState" where
  "row_state closed r =
     \<lparr>a_id = ac_id r, a_ledger = ac_ledger r, a_closedBefore = closed, a_currency = ac_currency r,
      a_normalSide = ac_normalSide r, a_status = ac_status r, a_allowNegative = ac_allowNegative r,
      a_overdraftLimit = ac_overdraftLimit r, postedDebits = ac_postedDebits r,
      postedCredits = ac_postedCredits r, pendingDebits = ac_pendingDebits r,
      pendingCredits = ac_pendingCredits r, held = ac_held r, a_version = ac_version r,
      a_originalVersion = 0\<rparr>"

definition sortedUnique :: "uuid list \<Rightarrow> uuid list" where
  "sortedUnique ids = remdups_adj (sort ids)"

fun lock_rows :: "db \<Rightarrow> account_row list \<Rightarrow> accountState list" where
  "lock_rows d [] = []"
| "lock_rows d (r # rs) =
     (case ledger_by d (ac_ledger r) of
        None \<Rightarrow> lock_rows d rs
      | Some l \<Rightarrow> row_state (l_closedBefore l) r # lock_rows d rs)"

definition lockAccounts :: "db \<Rightarrow> uuid list \<Rightarrow> ledgerState" where
  "lockAccounts d ids =
     newLedgerState
       (lock_rows d (sort_key ac_id (filter (\<lambda>r. ac_id r \<in> set (sortedUnique ids)) (db_accounts d))))
       (filter (\<lambda>m. m_account m \<in> set (sortedUnique ids)) (db_monitors d))"

section \<open>Writing accounts\<close>

text \<open>The constraints and the guards of \<^verbatim>\<open>ledger_accounts\<close> on an updated row.\<close>

definition account_row_check :: "account_row \<Rightarrow> account_row \<Rightarrow> unit res" where
  "account_row_check old new =
     (if ac_version new \<le> ac_version old then Inl (ErrConstraint ''ledger_accounts_guard'')
      else if ac_status old = Closed \<and> ac_status new \<noteq> Closed then
        Inl (ErrConstraint ''ledger_accounts_not_open'')
      else if ac_status old \<noteq> Open \<and>
          (ac_postedDebits new \<noteq> ac_postedDebits old \<or> ac_postedCredits new \<noteq> ac_postedCredits old
           \<or> ac_pendingDebits new > ac_pendingDebits old \<or> ac_pendingCredits new > ac_pendingCredits old
           \<or> ac_held new > ac_held old) then
        Inl (ErrConstraint ''ledger_accounts_not_open'')
      else if list_ex (\<lambda>n. \<not> in_range n)
          [ac_postedDebits new, ac_postedCredits new, ac_pendingDebits new, ac_pendingCredits new, ac_held new] then
        Inl ErrOverflow
      else if list_ex (\<lambda>n. n < 0)
          [ac_postedDebits new, ac_postedCredits new, ac_pendingDebits new, ac_pendingCredits new, ac_held new] then
        Inl (ErrConstraint ''ledger_accounts_nonnegative'')
      else if \<not> ac_allowNegative new \<and>
          (if ac_normalSide new = Debit then ac_postedDebits new - ac_postedCredits new - ac_pendingCredits new
           else ac_postedCredits new - ac_postedDebits new - ac_pendingDebits new)
            - ac_held new + ac_overdraftLimit new < 0 then
        Inl (ErrConstraint ''ledger_accounts_funds_check'')
      else if ac_status new = Closed \<and>
          \<not> (ac_postedDebits new = ac_postedCredits new \<and> ac_pendingDebits new = 0 \<and>
             ac_pendingCredits new = 0 \<and> ac_held new = 0) then
        Inl (ErrConstraint ''ledger_accounts_closed_empty'')
      else ok)"

definition write_row :: "accountState \<Rightarrow> account_row \<Rightarrow> account_row" where
  "write_row a r =
     r\<lparr>ac_postedDebits := postedDebits a, ac_postedCredits := postedCredits a,
       ac_pendingDebits := pendingDebits a, ac_pendingCredits := pendingCredits a,
       ac_held := held a, ac_version := a_version a\<rparr>"

fun write_rows :: "accountState list \<Rightarrow> account_row list \<Rightarrow> account_row list res" where
  "write_rows [] rows = Inr rows"
| "write_rows (a # as) rows =
     (case row_by ac_id rows (a_id a) of
        None \<Rightarrow> Inl ErrRetry
      | Some r \<Rightarrow>
          if ac_version r \<noteq> a_originalVersion a then Inl ErrRetry
          else bindR (account_row_check r (write_row a r)) (\<lambda>_.
            write_rows as (update_rows (\<lambda>x. ac_id x = a_id a) (write_row a) rows)))"

definition monitorEvents :: "ledgerState \<Rightarrow> event list res" where
  "monitorEvents s = bindR (crossed s) (\<lambda>fired. Inr (map (\<lambda>(m, b). MonitorEvent m b) fired))"

definition writeAccounts :: "ledgerState \<Rightarrow> db \<Rightarrow> db res" where
  "writeAccounts s d =
     (case state_dirty s of
        [] \<Rightarrow> Inr d
      | dirty \<Rightarrow>
          bindR (monitorEvents s) (\<lambda>evs.
          bindR (write_rows dirty (db_accounts d)) (\<lambda>rows.
            Inr (d\<lparr>db_accounts := rows, db_events := db_events d @ evs\<rparr>))))"

section \<open>Reading transactions\<close>

definition row_entries :: "db \<Rightarrow> txn_row \<Rightarrow> posting list" where
  "row_entries d r =
     (if tr_status r = Posted
      then map (\<lambda>p. (plain_posting (pr_account p) (pr_side p) (pr_amount p) (pr_currency p))
                    \<lparr>p_balanceAfter := pr_after p\<rparr>)
             (filter (\<lambda>p. pr_txn p = tr_id r) (db_postings d))
      else map (\<lambda>p. plain_posting (pe_account p) (pe_side p) (pe_amount p) (pe_currency p))
             (filter (\<lambda>p. pe_txn p = tr_id r \<and> pe_version p = tr_entriesVersion r) (db_pending d)))"

definition row_txn :: "db \<Rightarrow> txn_row \<Rightarrow> transaction" where
  "row_txn d r =
     \<lparr>t_id = tr_id r, t_ledger = tr_ledger r, t_key = tr_key r, t_externalID = or_zero [] (tr_externalID r),
      t_status = tr_status r, t_version = tr_version r, t_description = tr_description r,
      t_metadata = tr_metadata r, t_reverses = tr_reverses r, t_postings = row_entries d r,
      t_effectiveAt = tr_effectiveAt r, t_createdAt = tr_createdAt r, t_postedAt = tr_postedAt r,
      t_archivedAt = tr_archivedAt r, t_request = tr_request r, t_entriesVersion = tr_entriesVersion r\<rparr>"

text \<open>The entries are joined laterally, so a transaction without entries is not found.\<close>

definition selectTransactions :: "db \<Rightarrow> (txn_row \<Rightarrow> bool) \<Rightarrow> transaction list" where
  "selectTransactions d p =
     map (row_txn d) (filter (\<lambda>r. p r \<and> row_entries d r \<noteq> []) (db_txns d))"

definition selectOneTransaction :: "db \<Rightarrow> (txn_row \<Rightarrow> bool) \<Rightarrow> transaction res" where
  "selectOneTransaction d p =
     (case selectTransactions d p of [] \<Rightarrow> Inl ErrNotFound | t # _ \<Rightarrow> Inr t)"

definition selectTransaction :: "db \<Rightarrow> uuid \<Rightarrow> transaction res" where
  "selectTransaction d i = selectOneTransaction d (\<lambda>r. tr_id r = i)"

definition lockTransaction :: "db \<Rightarrow> uuid \<Rightarrow> transaction res" where
  "lockTransaction d i =
     (case txn_by d i of None \<Rightarrow> Inl ErrNotFound | Some _ \<Rightarrow> selectTransaction d i)"

definition selectReversal :: "db \<Rightarrow> uuid \<Rightarrow> transaction res" where
  "selectReversal d i = selectOneTransaction d (\<lambda>r. tr_reverses r = Some i)"

definition selectByKey :: "db \<Rightarrow> string list \<Rightarrow> (string \<times> transaction) list" where
  "selectByKey d keys = map (\<lambda>t. (t_key t, t)) (selectTransactions d (\<lambda>r. tr_key r \<in> set keys))"

type_synonym externalKey = "uuid \<times> string"

definition selectExternalIDs :: "db \<Rightarrow> string list \<Rightarrow> (externalKey \<times> string) list" where
  "selectExternalIDs d ids =
     map (\<lambda>r. ((tr_ledger r, or_zero [] (tr_externalID r)), tr_key r))
       (filter (\<lambda>r. \<exists>e \<in> set ids. tr_externalID r = Some e) (db_txns d))"

section \<open>Inserting transactions\<close>

definition nullString :: "string \<Rightarrow> string option" where
  "nullString s = (if s = [] then None else Some s)"

text \<open>The row that \<^verbatim>\<open>queueInsertEntries\<close> inserts; \<open>now\<close> is the start of the database transaction.\<close>

definition insert_row :: "gotime \<Rightarrow> transaction \<Rightarrow> txn_row" where
  "insert_row now t =
     \<lparr>tr_id = t_id t, tr_ledger = t_ledger t, tr_key = t_key t,
      tr_externalID = nullString (t_externalID t), tr_status = t_status t, tr_version = 1,
      tr_entriesVersion = 1, tr_description = t_description t, tr_metadata = t_metadata t,
      tr_reverses = t_reverses t, tr_effectiveAt = t_effectiveAt t, tr_createdAt = now,
      tr_postedAt = (if t_status t = Posted then Some now else None),
      tr_archivedAt = (if t_status t = Archived then Some now else None), tr_request = t_request t\<rparr>"

definition period_check :: "db \<Rightarrow> txn_row \<Rightarrow> unit res" where
  "period_check d r =
     (if tr_status r \<noteq> Archived \<and>
         (case ledger_by d (tr_ledger r) of
            None \<Rightarrow> False
          | Some l \<Rightarrow> (case l_closedBefore l of None \<Rightarrow> False | Some c \<Rightarrow> tr_effectiveAt r < c))
      then Inl (ErrConstraint ''ledger_transactions_period_open'') else ok)"

definition txn_row_check :: "db \<Rightarrow> txn_row \<Rightarrow> unit res" where
  "txn_row_check d r =
     bindR (period_check d r) (\<lambda>_.
     if list_ex (\<lambda>x. tr_id x = tr_id r) (db_txns d) then
       Inl (ErrConstraint ''ledger_transactions_pkey'')
     else if list_ex (\<lambda>x. tr_key x = tr_key r) (db_txns d) then
       Inl (ErrConstraint ''ledger_transactions_idempotency_key_key'')
     else if tr_reverses r \<noteq> None \<and> list_ex (\<lambda>x. tr_reverses x = tr_reverses r) (db_txns d) then
       Inl (ErrConstraint ''ledger_transactions_reverses_id_key'')
     else if tr_externalID r \<noteq> None \<and>
         list_ex (\<lambda>x. tr_ledger x = tr_ledger r \<and> tr_externalID x = tr_externalID r) (db_txns d) then
       Inl (ErrConstraint ''ledger_transactions_external_id_key'')
     else ok)"

fun insert_txn_rows :: "txn_row list \<Rightarrow> db \<Rightarrow> db res" where
  "insert_txn_rows [] d = Inr d"
| "insert_txn_rows (r # rs) d =
     bindR (txn_row_check d r) (\<lambda>_. insert_txn_rows rs (d\<lparr>db_txns := db_txns d @ [r]\<rparr>))"

text \<open>\<^verbatim>\<open>entryColumns\<close> pairs each entry with its transaction.\<close>

type_synonym entry_columns = "(uuid \<times> posting) list"

definition entry_columns :: "transaction \<Rightarrow> entry_columns" where
  "entry_columns t = map (\<lambda>p. (t_id t, p)) (t_postings t)"

text \<open>The statement triggers \<^verbatim>\<open>ledger_postings_check\<close> and \<^verbatim>\<open>ledger_pending_entries_check\<close>: the new
  entries balance in each transaction and currency, and belong to accounts of the transaction's
  ledger in their currency.\<close>

definition column_total :: "uuid \<Rightarrow> string \<Rightarrow> entry_columns \<Rightarrow> int" where
  "column_total t c cols =
     sum_over (\<lambda>(x, p). x = t \<and> p_currency p = c) (\<lambda>(x, p). if p_side p = Debit then p_amount p else - p_amount p) cols"

definition entries_check :: "db \<Rightarrow> (txn_row \<Rightarrow> bool) \<Rightarrow> entry_columns \<Rightarrow> unit res" where
  "entries_check d current_row cols =
     (if list_ex (\<lambda>(t, p). column_total t (p_currency p) cols \<noteq> 0) cols then
        Inl (ErrConstraint ''ledger_postings_balanced'')
      else if list_ex (\<lambda>(t, p). case account_by d (p_account p) of
            None \<Rightarrow> True | Some a \<Rightarrow> ac_currency a \<noteq> p_currency p) cols then
        Inl (ErrConstraint ''ledger_postings_account_fkey'')
      else if list_ex (\<lambda>(t, p). case (account_by d (p_account p), txn_by d t) of
            (Some a, Some r) \<Rightarrow> ac_ledger a \<noteq> tr_ledger r | _ \<Rightarrow> True) cols then
        Inl (ErrConstraint ''ledger_postings_same_ledger'')
      else if list_ex (\<lambda>(t, p). case txn_by d t of None \<Rightarrow> True | Some r \<Rightarrow> \<not> current_row r) cols then
        Inl (ErrConstraint ''restrict_violation'')
      else if list_ex (\<lambda>(t, p). p_amount p \<le> 0) cols then
        Inl (ErrConstraint ''ledger_postings_amount_check'')
      else ok)"

fun posting_rows :: "nat \<Rightarrow> entry_columns \<Rightarrow> posting_row list" where
  "posting_rows n [] = []"
| "posting_rows n ((t, p) # cols) =
     \<lparr>pr_id = n, pr_txn = t, pr_account = p_account p, pr_currency = p_currency p, pr_side = p_side p,
      pr_amount = p_amount p, pr_after = p_balanceAfter p\<rparr> # posting_rows (Suc n) cols"

fun pending_rows :: "nat \<Rightarrow> int \<Rightarrow> entry_columns \<Rightarrow> pending_row list" where
  "pending_rows n v [] = []"
| "pending_rows n v ((t, p) # cols) =
     \<lparr>pe_id = n, pe_txn = t, pe_version = v, pe_account = p_account p, pe_currency = p_currency p,
      pe_side = p_side p, pe_amount = p_amount p\<rparr> # pending_rows (Suc n) v cols"

text \<open>The identity columns of the two entry tables draw from one sequence here; only their order
  within a table is used.\<close>

definition insertPostings :: "entry_columns \<Rightarrow> db \<Rightarrow> db res" where
  "insertPostings cols d =
     bindR (entries_check d (\<lambda>r. tr_status r = Posted) cols) (\<lambda>_.
       Inr (d\<lparr>db_postings := db_postings d @ posting_rows (db_sequence d) cols,
              db_sequence := db_sequence d + length cols\<rparr>))"

definition insertPendingEntries :: "int \<Rightarrow> entry_columns \<Rightarrow> db \<Rightarrow> db res" where
  "insertPendingEntries v cols d =
     bindR (entries_check d (\<lambda>r. tr_entriesVersion r = v \<and>
              (tr_status r = Pending \<or> tr_status r = Archived \<and> tr_version r = 1)) cols) (\<lambda>_.
       Inr (d\<lparr>db_pending := db_pending d @ pending_rows (db_sequence d) v cols,
              db_sequence := db_sequence d + length cols\<rparr>))"

definition insertEntries :: "gotime \<Rightarrow> transaction list \<Rightarrow> db \<Rightarrow> db res" where
  "insertEntries now txns d =
     (let posted = concat (map entry_columns (filter (\<lambda>t. t_status t = Posted) txns));
          pending = concat (map entry_columns (filter (\<lambda>t. t_status t \<noteq> Posted) txns))
      in bindR (insert_txn_rows (map (insert_row now) txns) d) (\<lambda>d.
         bindR (if posted = [] then Inr d else insertPostings posted d) (\<lambda>d.
         if pending = [] then Inr d else insertPendingEntries 1 pending d)))"

section \<open>Updating a transaction\<close>

definition update_row :: "gotime \<Rightarrow> transaction \<Rightarrow> txn_row \<Rightarrow> txn_row" where
  "update_row now t r =
     r\<lparr>tr_status := t_status t, tr_version := t_version t, tr_entriesVersion := t_entriesVersion t,
       tr_description := t_description t, tr_metadata := t_metadata t,
       tr_effectiveAt := t_effectiveAt t,
       tr_postedAt := (if t_status t = Posted then Some now else None),
       tr_archivedAt := (if t_status t = Archived then Some now else None)\<rparr>"

text \<open>The triggers \<^verbatim>\<open>ledger_transactions_guard\<close> and \<^verbatim>\<open>ledger_transactions_period_check\<close>.\<close>

definition updateTransactionRow :: "gotime \<Rightarrow> transaction \<Rightarrow> db \<Rightarrow> db res" where
  "updateTransactionRow now t d =
     (case txn_by d (t_id t) of
        None \<Rightarrow> Inr d
      | Some r \<Rightarrow>
          let r' = update_row now t r
          in if tr_status r \<noteq> Pending then Inl (ErrConstraint ''ledger_transactions_not_pending'')
             else if tr_version r' \<noteq> tr_version r + 1 then Inl (ErrConstraint ''restrict_violation'')
             else bindR (period_check d r') (\<lambda>_.
               if tr_entriesVersion r' > tr_version r' then
                 Inl (ErrConstraint ''ledger_transactions_entries_version_current'')
               else Inr (d\<lparr>db_txns := update_rows (\<lambda>x. tr_id x = t_id t) (\<lambda>_. r') (db_txns d)\<rparr>)))"

section \<open>Holds\<close>

definition selectHoldByKey :: "db \<Rightarrow> string \<Rightarrow> hold option" where
  "selectHoldByKey d key = row_by h_key (db_holds d) key"

definition insertHold :: "hold \<Rightarrow> db \<Rightarrow> db res" where
  "insertHold h d =
     (if list_ex (\<lambda>x. h_id x = h_id h) (db_holds d) then Inl (ErrConstraint ''ledger_holds_pkey'')
      else if list_ex (\<lambda>x. h_key x = h_key h) (db_holds d) then
        Inl (ErrConstraint ''ledger_holds_idempotency_key_key'')
      else Inr (d\<lparr>db_holds := db_holds d @ [h]\<rparr>))"

text \<open>The trigger \<^verbatim>\<open>ledger_holds_guard\<close> lets only a pending hold change, and the table's checks tie
  a capture to its amount and transaction.\<close>

definition resolved :: "gotime \<Rightarrow> hold_status \<Rightarrow> int option \<Rightarrow> uuid option \<Rightarrow> hold \<Rightarrow> hold" where
  "resolved now status captured txn h =
     h\<lparr>h_status := status, h_resolvedAt := Some now, h_captured := captured, h_captureTxn := txn\<rparr>"

definition resolveHold ::
  "gotime \<Rightarrow> uuid \<Rightarrow> hold_status \<Rightarrow> int option \<Rightarrow> uuid option \<Rightarrow> db \<Rightarrow> (hold \<times> db) res" where
  "resolveHold now i status captured txn d =
     (case hold_by d i of
        None \<Rightarrow> Inl ErrNotFound
      | Some h \<Rightarrow>
          if h_status h \<noteq> HoldPending then Inl (ErrConstraint ''restrict_violation'')
          else if status = HoldPending \<or> (status = HoldCaptured) \<noteq> (captured \<noteq> None \<and> txn \<noteq> None) then
            Inl (ErrConstraint ''ledger_holds_check'')
          else Inr (resolved now status captured txn h,
            d\<lparr>db_holds := update_rows (\<lambda>x. h_id x = i) (resolved now status captured txn) (db_holds d)\<rparr>))"

section \<open>Events\<close>

definition emit :: "event list \<Rightarrow> db \<Rightarrow> db" where
  "emit evs d = d\<lparr>db_events := db_events d @ evs\<rparr>"

text \<open>\<^verbatim>\<open>transactionResourceOnly\<close> drops the resulting balances.\<close>

definition transactionEvents :: "string \<Rightarrow> transaction list \<Rightarrow> event list" where
  "transactionEvents kind txns =
     map (\<lambda>t. TxnEvent kind (t\<lparr>t_postings := map (\<lambda>p. p\<lparr>p_resulting := None\<rparr>) (t_postings t)\<rparr>)) txns"

end
