(* ===== verification/Engine.thy ===== *)
theory Engine
  imports Store
begin

text \<open>
  \<^verbatim>\<open>engine.go\<close>: \<open>applyRequests\<close> runs a batch of posting requests in one database transaction.
  \<open>resolveRequest\<close> decides each request in turn: a replay of a stored or earlier transaction, an
  error, or a new transaction whose balance changes are applied to the locked accounts. The ids that
  \<^verbatim>\<open>uuid.NewV7\<close> generates are the argument \<open>fresh\<close>; the start of the database transaction is \<open>now\<close>.
\<close>

record postingRequest =
  rq_in :: postInput
  rq_reverses :: "uuid option"
  rq_releases :: "(uuid \<times> int) list"

datatype postingResult = Failure err | Success transaction bool

fun result_failed :: "postingResult \<Rightarrow> bool" where
  "result_failed (Failure e) = True"
| "result_failed (Success t r) = False"

text \<open>The results that are new transactions.\<close>

fun accepted_txn :: "postingResult \<Rightarrow> transaction list" where
  "accepted_txn (Success t False) = [t]"
| "accepted_txn _ = []"

text \<open>The variables that \<^verbatim>\<open>resolveRequest\<close> changes, with the results so far.\<close>

record engine =
  e_state :: ledgerState
  e_taken :: "(externalKey \<times> string) list"
  e_firstByKey :: "(string \<times> nat) list"
  e_results :: "postingResult list"

definition truncated :: "postInput \<Rightarrow> postInput" where
  "truncated i = i\<lparr>in_effectiveAt := map_option truncate_us (in_effectiveAt i)\<rparr>"

fun archived_entries :: "accounts \<Rightarrow> posting list \<Rightarrow> posting list res" where
  "archived_entries al [] = Inr []"
| "archived_entries al (p # ps) =
     (case map_of al (p_account p) of
        None \<Rightarrow> Inl ErrPanic
      | Some a \<Rightarrow> bindR (archived_entries al ps) (\<lambda>ps'. Inr (p\<lparr>p_currency := a_currency a\<rparr> # ps')))"

definition archivedPostings :: "ledgerState \<Rightarrow> posting list \<Rightarrow> (uuid \<times> posting list) res" where
  "archivedPostings s ps =
     bindR (archived_entries (s_accounts s) ps) (\<lambda>ps'.
       case ps of
         [] \<Rightarrow> Inl ErrPanic
       | p # _ \<Rightarrow> (case map_of (s_accounts s) (p_account p) of
                    None \<Rightarrow> Inl ErrPanic
                  | Some a \<Rightarrow> Inr (a_ledger a, ps')))"

definition new_txn ::
  "postInput \<Rightarrow> uuid option \<Rightarrow> uuid \<Rightarrow> gotime \<Rightarrow> txn_status \<Rightarrow> uuid \<Rightarrow> posting list \<Rightarrow> transaction" where
  "new_txn i reverses txnid now status ledgerID ps =
     \<lparr>t_id = txnid, t_ledger = ledgerID, t_key = in_key i, t_externalID = in_externalID i,
      t_status = status, t_version = 1, t_description = in_description i,
      t_metadata = normalizeMetadata (in_metadata i), t_reverses = reverses, t_postings = ps,
      t_effectiveAt = or_zero now (in_effectiveAt i), t_createdAt = now,
      t_postedAt = (if status = Posted then Some now else None),
      t_archivedAt = (if status = Archived then Some now else None),
      t_request = (if status \<noteq> Posted then Some i else None), t_entriesVersion = 1\<rparr>"

text \<open>The balance change of a request, and the archiving of one whose lock failed.\<close>

definition run_change :: "ledgerState \<Rightarrow> postInput \<Rightarrow> (uuid \<times> int) list \<Rightarrow>
    (ledgerState \<times> txn_status \<times> uuid \<times> posting list) res" where
  "run_change s i releases =
     (case transition s \<lparr>c_ledger = 0, c_unpend = [], c_add = in_postings i,
                         c_status = input_status i, c_releases = releases\<rparr> of
        Inr (s', l, ps) \<Rightarrow> Inr (s', input_status i, l, ps)
      | Inl e \<Rightarrow>
          if \<not> in_archiveOnLockFailure i \<or> \<not> (e = ErrBalanceLock \<or> e = ErrLockVersion) then Inl e
          else bindR (archivedPostings s (in_postings i)) (\<lambda>(l, ps). Inr (s, Archived, l, ps)))"

definition period_closed :: "accounts \<Rightarrow> postInput \<Rightarrow> uuid \<Rightarrow> gotime \<Rightarrow> bool" where
  "period_closed al i first now =
     (case map_of al first of
        None \<Rightarrow> False
      | Some a \<Rightarrow> input_status i \<noteq> Archived \<and>
          (case a_closedBefore a of None \<Rightarrow> False | Some c \<Rightarrow> or_zero now (in_effectiveAt i) < c))"

definition external_key :: "accounts \<Rightarrow> postInput \<Rightarrow> uuid \<Rightarrow> externalKey option" where
  "external_key al i first =
     (case map_of al first of
        None \<Rightarrow> None
      | Some a \<Rightarrow> if in_externalID i \<noteq> [] then Some (a_ledger a, in_externalID i) else None)"

text \<open>A request whose key is new to the batch and to the database.\<close>

definition resolve_new ::
  "postingRequest \<Rightarrow> postInput \<Rightarrow> engine \<Rightarrow> gotime \<Rightarrow> uuid \<Rightarrow> engine \<times> postingResult" where
  "resolve_new req i e now txnid =
     (case in_postings i of
        [] \<Rightarrow> (e, Failure ErrPanic)
      | p # _ \<Rightarrow>
          let al = s_accounts (e_state e);
              external = external_key al i (p_account p)
          in if (case external of None \<Rightarrow> False
                 | Some k \<Rightarrow> (case map_of (e_taken e) k of None \<Rightarrow> False | Some owner \<Rightarrow> owner \<noteq> in_key i))
             then (e, Failure ErrExternalIDExists)
             else if period_closed al i (p_account p) now then (e, Failure ErrPeriodClosed)
             else case run_change (e_state e) i (rq_releases req) of
                    Inl err \<Rightarrow> (e, Failure err)
                  | Inr (s', status, l, ps) \<Rightarrow>
                      (e\<lparr>e_state := s',
                         e_taken := (case external of None \<Rightarrow> e_taken e
                                     | Some k \<Rightarrow> AList.update k (in_key i) (e_taken e))\<rparr>,
                       Success (new_txn i (rq_reverses req) txnid now status l ps) False))"

definition resolveRequest ::
  "(string \<times> transaction) list \<Rightarrow> gotime \<Rightarrow> uuid \<Rightarrow> engine \<Rightarrow> nat \<Rightarrow> postingRequest \<Rightarrow>
    engine \<times> postingResult" where
  "resolveRequest existing now txnid e n req =
     (let i = truncated (rq_in req)
      in case map_of existing (in_key i) of
           Some txn \<Rightarrow> if \<not> txn_matches txn i then (e, Failure ErrIdempotencyConflict)
                      else (e, Success txn True)
         | None \<Rightarrow>
             (case map_of (e_firstByKey e) (in_key i) of
                Some j \<Rightarrow>
                  (case e_results e ! j of
                     Failure err \<Rightarrow> (e, Failure err)
                   | Success txn _ \<Rightarrow>
                       if \<not> txn_matches txn i then (e, Failure ErrIdempotencyConflict)
                       else (e, Success txn True))
              | None \<Rightarrow>
                  resolve_new req i
                    (e\<lparr>e_firstByKey := AList.update (in_key i) n (e_firstByKey e)\<rparr>) now txnid))"

text \<open>The loop over the requests. \<open>None\<close> means that an atomic batch met an error; the results so
  far are kept then, and the remaining ones stay zero values, which \<open>runRequests\<close> turns into
  \<^const>\<open>ErrBatchAborted\<close>.\<close>

fun resolve_all ::
  "(string \<times> transaction) list \<Rightarrow> gotime \<Rightarrow> (nat \<Rightarrow> uuid) \<Rightarrow> bool \<Rightarrow> engine \<Rightarrow> nat \<Rightarrow>
    postingRequest list \<Rightarrow> engine \<times> bool" where
  "resolve_all existing now fresh atomic e n [] = (e, True)"
| "resolve_all existing now fresh atomic e n (req # reqs) =
     (let (e', r) = resolveRequest existing now (fresh n) e n req;
          e' = e'\<lparr>e_results := e_results e' @ [r]\<rparr>
      in if result_failed r \<and> atomic then (e', False)
         else resolve_all existing now fresh atomic e' (Suc n) reqs)"

definition request_accounts :: "postingRequest \<Rightarrow> uuid list" where
  "request_accounts req = map p_account (in_postings (rq_in req)) @ map fst (rq_releases req)"

datatype applied = Applied "postingResult list" db | AbortedBatch "postingResult list" | NotApplied err

definition startEngine :: "db \<Rightarrow> postingRequest list \<Rightarrow> engine" where
  "startEngine d reqs =
     \<lparr>e_state = lockAccounts d (concat (map request_accounts reqs)),
      e_taken = selectExternalIDs d (filter (\<lambda>x. x \<noteq> []) (map (\<lambda>r. in_externalID (rq_in r)) reqs)),
      e_firstByKey = [], e_results = []\<rparr>"

text \<open>A violation of the two unique keys becomes a retry of the database transaction.\<close>

definition write_error :: "err \<Rightarrow> err" where
  "write_error e =
     (if e = ErrConstraint ''ledger_transactions_idempotency_key_key''
         \<or> e = ErrConstraint ''ledger_transactions_external_id_key'' then ErrRetry else e)"

text \<open>The events of the monitors are made before anything is sent to the database.\<close>

definition writeBatch :: "gotime \<Rightarrow> transaction list \<Rightarrow> ledgerState \<Rightarrow> db \<Rightarrow> db res" where
  "writeBatch now txns s d =
     bindR (if state_dirty s = [] then Inr [] else monitorEvents s) (\<lambda>_.
     bindR (insertEntries now txns d) (\<lambda>d.
       writeAccounts s (emit (transactionEvents ''transaction.created'' txns) d)))"

definition applyRequests ::
  "db \<Rightarrow> gotime \<Rightarrow> (nat \<Rightarrow> uuid) \<Rightarrow> postingRequest list \<Rightarrow> bool \<Rightarrow> applied" where
  "applyRequests d now fresh reqs atomic =
     (let existing = selectByKey d (map (\<lambda>r. in_key (rq_in r)) reqs);
          (e, done) = resolve_all existing now fresh atomic (startEngine d reqs) 0 reqs;
          accepted = concat (map accepted_txn (e_results e))
      in if \<not> done then AbortedBatch (e_results e)
         else if accepted = [] then Applied (e_results e) d
         else case writeBatch now accepted (e_state e) d of
                Inl err \<Rightarrow> NotApplied (write_error err)
              | Inr d' \<Rightarrow> Applied (e_results e) d')"

text \<open>\<^verbatim>\<open>runRequests\<close> after its database transaction, which is retried on \<^const>\<open>ErrRetry\<close> by the caller:
  an aborted atomic batch reports \<^const>\<open>ErrBatchAborted\<close> for every request that did not itself fail.\<close>

fun abort_result :: "postingResult \<Rightarrow> postingResult" where
  "abort_result (Failure e) = Failure e"
| "abort_result (Success t r) = Failure ErrBatchAborted"

definition abort_results :: "nat \<Rightarrow> postingResult list \<Rightarrow> postingResult list" where
  "abort_results n rs = map abort_result rs @ replicate (n - length rs) (Failure ErrBatchAborted)"

definition runRequests ::
  "db \<Rightarrow> gotime \<Rightarrow> (nat \<Rightarrow> uuid) \<Rightarrow> postingRequest list \<Rightarrow> bool \<Rightarrow> (postingResult list \<times> db) res" where
  "runRequests d now fresh reqs atomic =
     (case applyRequests d now fresh reqs atomic of
        Applied rs d' \<Rightarrow> Inr (rs, d')
      | AbortedBatch rs \<Rightarrow> Inr (abort_results (length reqs) rs, d)
      | NotApplied e \<Rightarrow> Inl e)"

end
