(* ===== verification/Store_Laws.thy ===== *)
theory Store_Laws
  imports Store Evolution
begin

text \<open>
  What locking and writing accounts does to the accounts table: \<open>lockAccounts\<close> delivers the rows
  as they are, and writing back a state that evolved from them replaces exactly the totals of the
  accounts that changed.
\<close>

section \<open>Locking\<close>

definition locked_state :: "db \<Rightarrow> account_row \<Rightarrow> accountState" where
  "locked_state d r =
     (row_state (case ledger_by d (ac_ledger r) of None \<Rightarrow> None | Some l \<Rightarrow> l_closedBefore l) r)
       \<lparr>a_originalVersion := ac_version r\<rparr>"

definition rows_wf :: "db \<Rightarrow> bool" where
  "rows_wf d \<longleftrightarrow>
     distinct (map ac_id (db_accounts d)) \<and>
     (\<forall>r \<in> set (db_accounts d). ledger_by d (ac_ledger r) \<noteq> None)"

lemma map_of_add_accounts:
  "distinct (map a_id as) \<Longrightarrow> map_of (add_accounts as al) i =
     (case row_by a_id as i of
        Some a \<Rightarrow> Some (a\<lparr>a_originalVersion := a_version a\<rparr>)
      | None \<Rightarrow> map_of al i)"
proof (induction as arbitrary: al)
  case (Cons a as)
  then have "a_id a \<notin> a_id ` set as" by simp
  then have "row_by a_id as (a_id a) = None" by (simp add: row_by_None_iff)
  with Cons show ?case by (auto split: option.splits)
qed simp

lemma distinct_add_accounts: "distinct (map fst al) \<Longrightarrow> distinct (map fst (add_accounts as al))"
  by (induction as arbitrary: al) simp_all

lemma lock_rows_eq:
  "\<forall>r \<in> set rs. ledger_by d (ac_ledger r) \<noteq> None \<Longrightarrow>
    lock_rows d rs = map (\<lambda>r. row_state
      (case ledger_by d (ac_ledger r) of None \<Rightarrow> None | Some l \<Rightarrow> l_closedBefore l) r) rs"
  by (induction rs) auto

lemma a_id_row_state [simp]: "a_id (row_state c r) = ac_id r"
  by (simp add: row_state_def)

lemma row_by_map:
  "(\<And>r. key' (f r) = key r) \<Longrightarrow> row_by key' (map f rs) i = map_option f (row_by key rs i)"
  by (induction rs) auto

lemma row_by_filter:
  "(\<And>r. key r = i \<Longrightarrow> p r) \<Longrightarrow> row_by key (filter p rs) i = row_by key rs i"
  by (induction rs) auto

lemma row_by_filter_none:
  "(\<And>r. key r = i \<Longrightarrow> \<not> p r) \<Longrightarrow> row_by key (filter p rs) i = None"
  by (induction rs) auto

lemma distinct_map_filter_key: "distinct (map key rs) \<Longrightarrow> distinct (map key (filter p rs))"
  by (rule distinct_map_filter)

lemma distinct_sort_key: "distinct (map key rs) \<Longrightarrow> distinct (map key (sort_key key' rs))"
  by (metis distinct_map distinct_sort set_sort)

lemma row_by_sort:
  assumes "distinct (map key rs)"
  shows "row_by key (sort_key key' rs) i = row_by key rs i"
proof -
  have "row_by key (sort_key key' rs) i = Some r \<longleftrightarrow> row_by key rs i = Some r" for r
    by (simp add: row_by_eq_Some_iff [OF assms] row_by_eq_Some_iff [OF distinct_sort_key [OF assms]])
  then show ?thesis by (metis not_None_eq)
qed

lemma sortedUnique_set [simp]: "set (sortedUnique ids) = set ids"
  by (simp add: sortedUnique_def)

lemma lockAccounts_accounts:
  assumes "rows_wf d"
  shows "map_of (s_accounts (lockAccounts d ids)) i =
      (if i \<in> set ids then map_option (locked_state d) (account_by d i) else None)"
    and "s_original (lockAccounts d ids) = s_accounts (lockAccounts d ids)"
    and "distinct (map fst (s_accounts (lockAccounts d ids)))"
proof -
  let ?p = "\<lambda>r. ac_id r \<in> set (sortedUnique ids)"
  let ?rows = "sort_key ac_id (filter ?p (db_accounts d))"
  let ?f = "\<lambda>r. row_state (case ledger_by d (ac_ledger r) of None \<Rightarrow> None | Some l \<Rightarrow> l_closedBefore l) r"
  have dist: "distinct (map ac_id (filter ?p (db_accounts d)))"
    using assms by (auto simp: rows_wf_def intro: distinct_map_filter_key)
  have lock: "lock_rows d ?rows = map ?f ?rows"
    using assms by (intro lock_rows_eq) (auto simp: rows_wf_def)
  have acc: "s_accounts (lockAccounts d ids) = add_accounts (map ?f ?rows) []"
    unfolding lockAccounts_def newLedgerState_def lock by simp
  have ids: "map a_id (map ?f ?rows) = map ac_id ?rows" by simp
  have "distinct (map a_id (map ?f ?rows))"
    unfolding ids using dist by (rule distinct_sort_key)
  then have "map_of (s_accounts (lockAccounts d ids)) i =
      (case row_by a_id (map ?f ?rows) i of
        Some a \<Rightarrow> Some (a\<lparr>a_originalVersion := a_version a\<rparr>) | None \<Rightarrow> None)"
    unfolding acc by (simp only: map_of_add_accounts map_of.simps cong: option.case_cong)
  also have "row_by a_id (map ?f ?rows) i = map_option ?f (row_by ac_id ?rows i)"
    by (rule row_by_map) simp
  also have "row_by ac_id ?rows i = row_by ac_id (filter ?p (db_accounts d)) i"
    using dist by (rule row_by_sort)
  also have "\<dots> = (if i \<in> set ids then account_by d i else None)"
    unfolding account_by_def by (auto intro: row_by_filter row_by_filter_none)
  finally show "map_of (s_accounts (lockAccounts d ids)) i =
      (if i \<in> set ids then map_option (locked_state d) (account_by d i) else None)"
    by (auto simp: locked_state_def row_state_def split: option.splits)
  show "s_original (lockAccounts d ids) = s_accounts (lockAccounts d ids)"
    by (simp add: lockAccounts_def newLedgerState_def)
  show "distinct (map fst (s_accounts (lockAccounts d ids)))"
    unfolding acc by (simp add: distinct_add_accounts)
qed

section \<open>Writing\<close>

lemma ac_id_write_row [simp]: "ac_id (write_row a r) = ac_id r"
  by (simp add: write_row_def)

definition rows_written :: "accountState list \<Rightarrow> account_row list \<Rightarrow> account_row list \<Rightarrow> bool" where
  "rows_written as rows rows' \<longleftrightarrow>
     map ac_id rows' = map ac_id rows \<and>
     (\<forall>i. row_by ac_id rows' i = (case row_by a_id as i of
        None \<Rightarrow> row_by ac_id rows i
      | Some a \<Rightarrow> map_option (write_row a) (row_by ac_id rows i))) \<and>
     (\<forall>i a. row_by a_id as i = Some a \<longrightarrow> (\<exists>r. row_by ac_id rows i = Some r \<and>
        ac_version r = a_originalVersion a \<and> account_row_check r (write_row a r) = ok))"

lemma write_rows_written:
  "write_rows as rows = Inr rows' \<Longrightarrow> distinct (map a_id as) \<Longrightarrow> rows_written as rows rows'"
proof (induction as arbitrary: rows)
  case Nil
  then show ?case by (simp add: rows_written_def)
next
  case (Cons b as)
  let ?rows = "update_rows (\<lambda>x. ac_id x = a_id b) (write_row b) rows"
  obtain r where r: "row_by ac_id rows (a_id b) = Some r" "ac_version r = a_originalVersion b"
    "account_row_check r (write_row b r) = ok" and rest: "write_rows as ?rows = Inr rows'"
    using Cons.prems(1) by (auto split: option.splits if_splits)
  have dist: "distinct (map a_id as)" and fresh: "row_by a_id as (a_id b) = None"
    using Cons.prems(2) by (auto simp: row_by_None_iff)
  have IH: "rows_written as ?rows rows'" using Cons.IH rest dist by blast
  have upd: "row_by ac_id ?rows j =
      (if j = a_id b then map_option (write_row b) (row_by ac_id rows j) else row_by ac_id rows j)" for j
    using row_by_update_rows [of "\<lambda>x. ac_id x = a_id b" ac_id "write_row b" rows j]
      row_by_SomeD [of ac_id rows j]
    by (cases "row_by ac_id rows j") auto
  have "map ac_id ?rows = map ac_id rows" by (simp add: map_key_update_rows)
  moreover have "row_by ac_id rows' i = (case row_by a_id (b # as) i of
        None \<Rightarrow> row_by ac_id rows i
      | Some a \<Rightarrow> map_option (write_row a) (row_by ac_id rows i))" for i
  proof -
    have "row_by ac_id rows' i = (case row_by a_id as i of None \<Rightarrow> row_by ac_id ?rows i
      | Some a \<Rightarrow> map_option (write_row a) (row_by ac_id ?rows i))"
      using IH by (simp add: rows_written_def)
    then show ?thesis using fresh by (cases "i = a_id b") (auto simp: upd split: option.splits)
  qed
  moreover have "\<exists>x. row_by ac_id rows i = Some x \<and> ac_version x = a_originalVersion a \<and>
      account_row_check x (write_row a x) = ok" if "row_by a_id (b # as) i = Some a" for i a
  proof (cases "i = a_id b")
    case True
    then show ?thesis using that r by simp
  next
    case False
    then have "row_by a_id as i = Some a" using that by simp
    then have "\<exists>x. row_by ac_id ?rows i = Some x \<and> ac_version x = a_originalVersion a \<and>
        account_row_check x (write_row a x) = ok"
      using IH by (simp add: rows_written_def)
    then show ?thesis using False by (simp add: upd)
  qed
  ultimately show ?case using IH by (simp add: rows_written_def)
qed

lemmas write_rows_Inr = write_rows_written [unfolded rows_written_def, THEN conjunct1]
  write_rows_written [unfolded rows_written_def, THEN conjunct2, THEN conjunct1, rule_format]
  write_rows_written [unfolded rows_written_def, THEN conjunct2, THEN conjunct2, rule_format]

lemma row_by_filter_snd:
  assumes "distinct (map fst al)" "\<forall>(i, a) \<in> set al. a_id a = i"
  shows "row_by a_id (filter p (map snd al)) i =
    (case map_of al i of None \<Rightarrow> None | Some a \<Rightarrow> if p a then Some a else None)"
  using assms
proof (induction al)
  case (Cons x al)
  obtain j b where x: "x = (j, b)" by (cases x)
  have "map_of al j = None" using Cons.prems x by (simp add: map_of_eq_None_iff)
  then show ?case using Cons x by (auto split: option.splits)
qed simp

lemma distinct_snd_ids:
  assumes "distinct (map fst al)" "\<forall>(i, a) \<in> set al. a_id a = i"
  shows "distinct (map a_id (filter p (map snd al)))"
proof -
  have "map a_id (map snd al) = map fst al" using assms(2) by (induction al) auto
  then have "distinct (map a_id (map snd al))" using assms(1) by (simp only:)
  then show ?thesis by (rule distinct_map_filter_key)
qed

lemma account_row_eqI:
  "ac_id a = ac_id b \<Longrightarrow> ac_ledger a = ac_ledger b \<Longrightarrow> ac_code a = ac_code b \<Longrightarrow> ac_name a = ac_name b \<Longrightarrow>
   ac_description a = ac_description b \<Longrightarrow> ac_metadata a = ac_metadata b \<Longrightarrow> ac_currency a = ac_currency b \<Longrightarrow>
   ac_normalSide a = ac_normalSide b \<Longrightarrow> ac_allowNegative a = ac_allowNegative b \<Longrightarrow>
   ac_overdraftLimit a = ac_overdraftLimit b \<Longrightarrow> ac_postedDebits a = ac_postedDebits b \<Longrightarrow>
   ac_postedCredits a = ac_postedCredits b \<Longrightarrow> ac_pendingDebits a = ac_pendingDebits b \<Longrightarrow>
   ac_pendingCredits a = ac_pendingCredits b \<Longrightarrow> ac_held a = ac_held b \<Longrightarrow> ac_status a = ac_status b \<Longrightarrow>
   ac_statusChangedAt a = ac_statusChangedAt b \<Longrightarrow> ac_version a = ac_version b \<Longrightarrow>
   ac_createdAt a = ac_createdAt b \<Longrightarrow> (a :: account_row) = b"
  by (cases a, cases b) simp

lemma write_row_same: "write_row (locked_state d r) r = r"
  by (rule account_row_eqI) (simp_all add: write_row_def locked_state_def row_state_def)

text \<open>Writing back an evolved state.\<close>

lemma writeAccounts_evolved:
  assumes wr: "writeAccounts s d2 = Inr d'" and acc: "db_accounts d2 = db_accounts d"
    and wf: "rows_wf d" and ev: "state_evolves (lockAccounts d ids) s"
    and dist: "distinct (map fst (s_accounts s))"
  shows "account_by d' i = (case map_of (s_accounts s) i of
        None \<Rightarrow> account_by d i
      | Some b \<Rightarrow> map_option (write_row b) (account_by d i))"
    and "map ac_id (db_accounts d') = map ac_id (db_accounts d)"
    and "account_by d i = Some r \<Longrightarrow> account_by d' i = Some r' \<Longrightarrow> r' \<noteq> r \<Longrightarrow> account_row_check r r' = ok"
    and "\<exists>evs. d' = d2\<lparr>db_accounts := db_accounts d', db_events := db_events d2 @ evs\<rparr>"
proof -
  let ?s0 = "lockAccounts d ids"
  let ?dirty = "state_dirty s"
  have locked: "\<exists>r. account_by d j = Some r \<and> evolved (locked_state d r) b"
    if b: "map_of (s_accounts s) j = Some b" for j b
  proof -
    obtain a where "map_of (s_accounts ?s0) j = Some a" "evolved a b"
      using state_evolvesD [OF ev b] by blast
    then show ?thesis
      unfolding lockAccounts_accounts(1) [OF wf] by (auto split: if_splits)
  qed
  have ids: "\<forall>(j, b) \<in> set (s_accounts s). a_id b = j"
  proof clarify
    fix j b assume "(j, b) \<in> set (s_accounts s)"
    then have "map_of (s_accounts s) j = Some b" using dist by simp
    then obtain r where "account_by d j = Some r" "evolved (locked_state d r) b" using locked by blast
    then show "a_id b = j"
      by (auto simp: evolved_def locked_state_def account_by_def dest: row_by_SomeD)
  qed
  have dirty: "row_by a_id ?dirty j = (case map_of (s_accounts s) j of None \<Rightarrow> None
      | Some b \<Rightarrow> if account_dirty b then Some b else None)" for j
    unfolding state_dirty_def by (rule row_by_filter_snd [OF dist ids])
  have clean: "write_row b r = r" if "map_of (s_accounts s) j = Some b" "\<not> account_dirty b" "account_by d j = Some r" for j b r
  proof -
    have "evolved (locked_state d r) b" using locked [OF that(1)] that(3) by auto
    then have "b = locked_state d r"
      using that(2) by (auto simp: evolved_def account_dirty_def locked_state_def row_state_def)
    then show ?thesis by (simp add: write_row_same)
  qed
  have "\<exists>rows. write_rows ?dirty (db_accounts d) = Inr rows \<and> db_accounts d' = rows \<and>
      (\<exists>evs. d' = d2\<lparr>db_accounts := db_accounts d', db_events := db_events d2 @ evs\<rparr>)"
  proof (cases ?dirty)
    case Nil
    then have "d' = d2" using wr by (simp add: writeAccounts_def)
    moreover have "d2 = d2\<lparr>db_accounts := db_accounts d2, db_events := db_events d2 @ []\<rparr>" by simp
    ultimately show ?thesis using Nil acc by (auto intro!: exI [of _ "[]"])
  next
    case (Cons a as)
    then show ?thesis using wr acc by (auto simp: writeAccounts_def)
  qed
  then obtain rows where rows: "write_rows ?dirty (db_accounts d) = Inr rows" "db_accounts d' = rows"
    and evs: "\<exists>evs. d' = d2\<lparr>db_accounts := db_accounts d', db_events := db_events d2 @ evs\<rparr>"
    by blast
  have dist': "distinct (map a_id ?dirty)"
    unfolding state_dirty_def by (rule distinct_snd_ids [OF dist ids])
  note w = write_rows_Inr(1) [OF rows(1) dist'] write_rows_Inr(2) [OF rows(1) dist']
    write_rows_Inr(3) [OF rows(1) dist']
  show eq: "account_by d' i = (case map_of (s_accounts s) i of
        None \<Rightarrow> account_by d i | Some b \<Rightarrow> map_option (write_row b) (account_by d i))"
  proof (cases "map_of (s_accounts s) i")
    case None
    then show ?thesis using w(2) [of i] rows(2) dirty by (simp add: account_by_def)
  next
    case (Some b)
    obtain r where r: "account_by d i = Some r" using locked [OF Some] by blast
    show ?thesis
      using w(2) [of i] rows(2) dirty [of i] Some clean [OF Some _ r] r
      by (cases "account_dirty b") (auto simp: account_by_def)
  qed
  show "map ac_id (db_accounts d') = map ac_id (db_accounts d)" using w(1) rows(2) by simp
  show "account_row_check r r' = ok" if r: "account_by d i = Some r" "account_by d' i = Some r'" "r' \<noteq> r"
  proof (cases "row_by a_id ?dirty i")
    case None
    then have "account_by d' i = account_by d i" using w(2) [of i] rows(2) by (simp add: account_by_def)
    then show ?thesis using r by simp
  next
    case (Some a)
    then show ?thesis using w(2) [of i] w(3) [OF Some] rows(2) r by (auto simp: account_by_def)
  qed
  show "\<exists>evs. d' = d2\<lparr>db_accounts := db_accounts d', db_events := db_events d2 @ evs\<rparr>" by (rule evs)
qed

end
