(* ===== verification/Engine_Laws.thy ===== *)
theory Engine_Laws
  imports Engine Store_Laws
begin

text \<open>
  What \<open>resolveRequest\<close> and the loop over a batch do: the locked accounts have moved by exactly the
  entries of the accepted transactions, each posted entry carries the running balance, and a request
  whose key is already known changes nothing.
\<close>

lemma state_evolves_same_dom:
  "state_evolves s s' \<Longrightarrow> dom (map_of (s_accounts s')) = dom (map_of (s_accounts s))"
  by (auto simp: dom_def dest: state_evolvesD state_evolves_dom)

section \<open>The moves of a batch\<close>

definition moves :: "ledgerState \<Rightarrow> posting list \<Rightarrow> posting list \<Rightarrow> (uuid \<times> int) list \<Rightarrow> ledgerState \<Rightarrow> bool" where
  "moves s0 P Q R s \<longleftrightarrow>
     p_account ` set P \<union> p_account ` set Q \<union> fst ` set R \<subseteq> dom (map_of (s_accounts s0)) \<and>
     (\<forall>i a. map_of (s_accounts s0) i = Some a \<longrightarrow>
       (\<exists>b. map_of (s_accounts s) i = Some b \<and>
         postedDebits b = postedDebits a + moved i Debit P \<and>
         postedCredits b = postedCredits a + moved i Credit P \<and>
         pendingDebits b = pendingDebits a + moved i Debit Q \<and>
         pendingCredits b = pendingCredits a + moved i Credit Q \<and>
         held b = held a - released i R))"

lemma moves_refl [simp]: "moves s [] [] [] s"
  by (simp add: moves_def)

lemma released_append [simp]: "released i (R @ R') = released i R + released i R'"
  by (simp add: released_def)

lemma moves_trans:
  assumes "moves s0 P Q R s" "moves s P' Q' R' s'"
    and "dom (map_of (s_accounts s)) = dom (map_of (s_accounts s0))"
  shows "moves s0 (P @ P') (Q @ Q') (R @ R') s'"
  unfolding moves_def
proof (intro conjI allI impI)
  show "p_account ` set (P @ P') \<union> p_account ` set (Q @ Q') \<union> fst ` set (R @ R')
      \<subseteq> dom (map_of (s_accounts s0))"
    using assms unfolding moves_def by (simp add: image_Un)
  fix i a assume "map_of (s_accounts s0) i = Some a"
  then obtain b where b: "map_of (s_accounts s) i = Some b"
    "postedDebits b = postedDebits a + moved i Debit P" "postedCredits b = postedCredits a + moved i Credit P"
    "pendingDebits b = pendingDebits a + moved i Debit Q" "pendingCredits b = pendingCredits a + moved i Credit Q"
    "held b = held a - released i R"
    using assms(1) unfolding moves_def by blast
  then obtain c where "map_of (s_accounts s') i = Some c"
    "postedDebits c = postedDebits b + moved i Debit P'" "postedCredits c = postedCredits b + moved i Credit P'"
    "pendingDebits c = pendingDebits b + moved i Debit Q'" "pendingCredits c = pendingCredits b + moved i Credit Q'"
    "held c = held b - released i R'"
    using assms(2) unfolding moves_def by blast
  then show "\<exists>b. map_of (s_accounts s') i = Some b \<and>
         postedDebits b = postedDebits a + moved i Debit (P @ P') \<and>
         postedCredits b = postedCredits a + moved i Credit (P @ P') \<and>
         pendingDebits b = pendingDebits a + moved i Debit (Q @ Q') \<and>
         pendingCredits b = pendingCredits a + moved i Credit (Q @ Q') \<and>
         held b = held a - released i (R @ R')"
    using b by (intro exI [of _ c]) simp
qed

text \<open>The entries that a transaction of a given status posts, and those it leaves pending.\<close>

definition posts :: "txn_status \<Rightarrow> posting list \<Rightarrow> posting list" where
  "posts st ps = (if st = Posted then ps else [])"

definition pends :: "txn_status \<Rightarrow> posting list \<Rightarrow> posting list" where
  "pends st ps = (if st = Pending then ps else [])"

lemma transition_moves:
  assumes tr: "transition s c = Inr (s', l, qs)" and wf: "accounts_wf (s_accounts s)" and c: "change_ok c"
    and st: "c_status c = Pending \<or> c_status c = Posted" and up: "c_unpend c = []"
  shows "moves s (posts (c_status c) qs) (pends (c_status c) qs) (c_releases c) s'"
  unfolding moves_def
proof (intro conjI allI impI)
  have "map (\<lambda>p. (p_account p, p_side p, p_amount p)) qs
      = map (\<lambda>p. (p_account p, p_side p, p_amount p)) (c_add c)"
    by (rule transition_returned(1) [OF tr wf c])
  from arg_cong [OF this, of "map fst"] have "map p_account qs = map p_account (c_add c)"
    by (simp only: map_map comp_def fst_conv)
  from arg_cong [OF this, of set] have acc: "p_account ` set qs = p_account ` set (c_add c)"
    by (simp only: set_map)
  have "p_account ` set (posts (c_status c) qs) \<union> p_account ` set (pends (c_status c) qs)
      \<subseteq> p_account ` set qs"
    by (auto simp: posts_def pends_def)
  then show "p_account ` set (posts (c_status c) qs) \<union> p_account ` set (pends (c_status c) qs) \<union>
      fst ` set (c_releases c) \<subseteq> dom (map_of (s_accounts s))"
    using transition_touched [OF tr wf c] unfolding touched_def acc [symmetric]
    by (elim order.trans [rotated]) (rule Un_mono, auto)
next
  fix i a assume a: "map_of (s_accounts s) i = Some a"
  have eff: "map_of (s_accounts s') i = Some (change_account c i a)"
    using transition_effect [OF tr wf c] a by simp
  have q: "moved i sd qs = moved i sd (c_add c)" for sd
    by (rule transition_returned(2) [OF tr wf c])
  show "\<exists>b. map_of (s_accounts s') i = Some b \<and>
         postedDebits b = postedDebits a + moved i Debit (posts (c_status c) qs) \<and>
         postedCredits b = postedCredits a + moved i Credit (posts (c_status c) qs) \<and>
         pendingDebits b = pendingDebits a + moved i Debit (pends (c_status c) qs) \<and>
         pendingCredits b = pendingCredits a + moved i Credit (pends (c_status c) qs) \<and>
         held b = held a - released i (c_releases c)"
  proof (cases "i \<in> touched c")
    case True
    then show ?thesis
      using eff st up q
      by (auto simp: change_account_def posts_def pends_def staged_effect_totals)
  next
    case False
    then have "moved i sd (c_add c) = 0" "released i (c_releases c) = 0" for sd
      by (auto simp: touched_def intro: moved_none released_none)
    then show ?thesis using False eff q by (auto simp: change_account_def posts_def pends_def)
  qed
qed

section \<open>One request\<close>

definition request_ok :: "postingRequest \<Rightarrow> bool" where
  "request_ok req \<longleftrightarrow>
     in_postings (rq_in req) \<noteq> [] \<and> entries_ok (in_postings (rq_in req)) \<and> releases_ok (rq_releases req) \<and>
     (input_status (rq_in req) = Pending \<or> input_status (rq_in req) = Posted)"

lemma truncated_simps [simp]:
  "in_postings (truncated i) = in_postings i" "in_key (truncated i) = in_key i"
  "input_status (truncated i) = input_status i"
  "in_archiveOnLockFailure (truncated i) = in_archiveOnLockFailure i"
  "in_externalID (truncated i) = in_externalID i" "in_description (truncated i) = in_description i"
  "in_metadata (truncated i) = in_metadata i" "in_status (truncated i) = in_status i"
  by (simp_all add: truncated_def input_status_def)

definition taken_by :: "postingRequest \<Rightarrow> postingResult \<Rightarrow> (uuid \<times> int) list" where
  "taken_by req r =
     (case r of Success t False \<Rightarrow> if t_status t = Archived then [] else rq_releases req | _ \<Rightarrow> [])"

definition posted_by :: "postingResult list \<Rightarrow> posting list" where
  "posted_by rs = concat (map (\<lambda>t. posts (t_status t) (t_postings t)) (concat (map accepted_txn rs)))"

definition pended_by :: "postingResult list \<Rightarrow> posting list" where
  "pended_by rs = concat (map (\<lambda>t. pends (t_status t) (t_postings t)) (concat (map accepted_txn rs)))"

definition releases_by :: "postingRequest list \<Rightarrow> postingResult list \<Rightarrow> (uuid \<times> int) list" where
  "releases_by reqs rs = concat (map (\<lambda>(q, r). taken_by q r) (zip reqs rs))"

lemma posted_by_append [simp]: "posted_by (rs @ rs') = posted_by rs @ posted_by rs'"
  and pended_by_append [simp]: "pended_by (rs @ rs') = pended_by rs @ pended_by rs'"
  by (simp_all add: posted_by_def pended_by_def)

lemma archived_entries_moves:
  "archived_entries al ps = Inr qs \<Longrightarrow>
    map (\<lambda>p. (p_account p, p_side p, p_amount p)) qs = map (\<lambda>p. (p_account p, p_side p, p_amount p)) ps"
  by (induction ps arbitrary: qs) (auto split: option.splits)

text \<open>What a successful change of balances establishes, whether or not it ends archived.\<close>

definition txn_status_ok :: "txn_status \<Rightarrow> bool" where
  "txn_status_ok st \<longleftrightarrow> st = Pending \<or> st = Posted \<or> st = Archived"

lemma run_change_facts:
  assumes rc: "run_change s i rel = Inr (s', st, l, ps)"
    and inv: "invs (s_accounts s)" and ok: "entries_ok (in_postings i)" "releases_ok rel"
    and ist: "input_status i = Pending \<or> input_status i = Posted" and ne: "in_postings i \<noteq> []"
  shows "invs (s_accounts s')" "state_evolves s s'"
    "moves s (posts st ps) (pends st ps) (if st = Archived then [] else rel) s'"
    "chained (map_of (s_accounts s)) (posts st ps)" "entries_ok ps" "ps \<noteq> []" "txn_status_ok st"
    "map p_account ps = map p_account (in_postings i)"
    "distinct (map fst (s_accounts s'))"
    "map (\<lambda>p. (p_account p, p_side p, p_amount p)) ps
      = map (\<lambda>p. (p_account p, p_side p, p_amount p)) (in_postings i)"
proof -
  let ?c = "\<lparr>c_ledger = 0, c_unpend = [], c_add = in_postings i, c_status = input_status i,
    c_releases = rel\<rparr>"
  have wf: "accounts_wf (s_accounts s)" using inv by (simp add: invs_def)
  have c: "change_ok ?c" using ok by (simp add: change_ok_def entries_ok_def)
  have "invs (s_accounts s') \<and> state_evolves s s' \<and>
    moves s (posts st ps) (pends st ps) (if st = Archived then [] else rel) s' \<and>
    chained (map_of (s_accounts s)) (posts st ps) \<and> entries_ok ps \<and> txn_status_ok st \<and>
    map (\<lambda>p. (p_account p, p_side p, p_amount p)) ps
      = map (\<lambda>p. (p_account p, p_side p, p_amount p)) (in_postings i)"
  proof (cases "transition s ?c")
    case (Inl e)
    then have x: "archivedPostings s (in_postings i) = Inr (l, ps) \<and> s' = s \<and> st = Archived"
      using rc by (auto simp: run_change_def split: if_splits)
    then have "archived_entries (s_accounts s) (in_postings i) = Inr ps"
    proof (cases "archived_entries (s_accounts s) (in_postings i)")
      case (Inr qs)
      then show ?thesis using x ne
        by (cases "in_postings i") (auto simp: archivedPostings_def split: option.splits)
    qed (use x in \<open>simp add: archivedPostings_def\<close>)
    then have eq: "map (\<lambda>p. (p_account p, p_side p, p_amount p)) ps
        = map (\<lambda>p. (p_account p, p_side p, p_amount p)) (in_postings i)"
      by (rule archived_entries_moves)
    then have "entries_ok ps" using entries_ok_cong ok by blast
    then show ?thesis using x inv eq by (simp add: posts_def pends_def txn_status_ok_def)
  next
    case (Inr r)
    then have tr: "transition s ?c = Inr (s', l, ps)" and st: "st = input_status i"
      using rc by (auto simp: run_change_def split: prod.splits)
    note ret = transition_returned [OF tr wf c]
    have "moves s (posts st ps) (pends st ps) rel s'"
      using transition_moves [OF tr wf c] ist st by simp
    moreover have "chained (map_of (s_accounts s)) (posts st ps)"
      using ret(5) ist st by (auto simp: posts_def)
    moreover have "invs (s_accounts s')" by (rule transition_invs [OF tr inv c])
    moreover have "state_evolves s s'" by (rule transition_evolves [OF tr wf c])
    ultimately show ?thesis
      using ret(1,3) ist st by (auto simp: txn_status_ok_def)
  qed
  note all = this
  show "invs (s_accounts s')" using all by (elim conjE)
  show "state_evolves s s'" using all by (elim conjE)
  show "moves s (posts st ps) (pends st ps) (if st = Archived then [] else rel) s'"
    using all by (elim conjE)
  show "chained (map_of (s_accounts s)) (posts st ps)" using all by (elim conjE)
  show "entries_ok ps" using all by (elim conjE)
  show "txn_status_ok st" using all by (elim conjE)
  show eq: "map (\<lambda>p. (p_account p, p_side p, p_amount p)) ps
      = map (\<lambda>p. (p_account p, p_side p, p_amount p)) (in_postings i)" using all by blast
  from arg_cong [OF this, of length] have "length ps = length (in_postings i)"
    by (simp only: length_map)
  then show "ps \<noteq> []" using ne by auto
  have "map fst (map (\<lambda>p. (p_account p, p_side p, p_amount p)) ps)
      = map fst (map (\<lambda>p. (p_account p, p_side p, p_amount p)) (in_postings i))" by (simp only: eq)
  then show "map p_account ps = map p_account (in_postings i)" by (simp only: map_map comp_def fst_conv)
  show "distinct (map fst (s_accounts s'))" using all [THEN conjunct1] by (simp add: invs_def accounts_wf_def)
qed

section \<open>The loop\<close>

definition accepted :: "engine \<Rightarrow> transaction list" where
  "accepted e = concat (map accepted_txn (e_results e))"

definition txn_ok :: "transaction \<Rightarrow> bool" where
  "txn_ok t \<longleftrightarrow> entries_ok (t_postings t) \<and> t_postings t \<noteq> [] \<and> txn_status_ok (t_status t)"

definition engine_inv :: "ledgerState \<Rightarrow> postingRequest list \<Rightarrow> engine \<Rightarrow> bool" where
  "engine_inv s0 done e \<longleftrightarrow>
     invs (s_accounts (e_state e)) \<and> state_evolves s0 (e_state e) \<and> length (e_results e) = length done \<and>
     moves s0 (posted_by (e_results e)) (pended_by (e_results e)) (releases_by done (e_results e)) (e_state e) \<and>
     chained (map_of (s_accounts s0)) (posted_by (e_results e)) \<and>
     (\<forall>t \<in> set (accepted e). txn_ok t)"

text \<open>A request either leaves the accounts as they are, or adds one accepted transaction.\<close>

lemma resolveRequest_cases:
  assumes "resolveRequest existing now txnid e n req = (e', r)"
  obtains (unchanged) "e_state e' = e_state e" "e_results e' = e_results e" "accepted_txn r = []"
    | (changed) s' st l ps where
        "run_change (e_state e) (truncated (rq_in req)) (rq_releases req) = Inr (s', st, l, ps)"
        "e_state e' = s'" "e_results e' = e_results e"
        "r = Success (new_txn (truncated (rq_in req)) (rq_reverses req) txnid now st l ps) False"
proof -
  note def = assms [unfolded resolveRequest_def Let_def]
  show ?thesis
  proof (cases "map_of existing (in_key (truncated (rq_in req)))")
    case (Some t)
    then show ?thesis using def unchanged by (auto split: if_splits)
  next
    case None
    show ?thesis
    proof (cases "map_of (e_firstByKey e) (in_key (truncated (rq_in req)))")
      case (Some j)
      have "e' = e \<and> accepted_txn r = []"
      proof (cases "e_results e ! j")
        case (Failure err)
        then have "e' = e" "r = Failure err" using def None Some by auto
        then show ?thesis by simp
      next
        case (Success t b)
        then show ?thesis using def None Some by (auto split: if_splits)
      qed
      then show ?thesis using unchanged by blast
    next
      case first: None
      let ?e = "e\<lparr>e_firstByKey := AList.update (in_key (truncated (rq_in req))) n (e_firstByKey e)\<rparr>"
      have new: "resolve_new req (truncated (rq_in req)) ?e now txnid = (e', r)"
        using def None first by simp
      show ?thesis
      proof (cases "run_change (e_state e) (truncated (rq_in req)) (rq_releases req)")
        case (Inl x)
        then show ?thesis
          using new unchanged by (auto simp: resolve_new_def Let_def split: list.splits if_splits)
      next
        case (Inr x)
        obtain s' st l ps where x: "x = (s', st, l, ps)" by (cases x)
        show ?thesis
          using new unchanged changed [of s' st l ps] Inr x
          by (auto simp: resolve_new_def Let_def split: list.splits if_splits)
      qed
    qed
  qed
qed

lemma new_txn_fields [simp]:
  "t_status (new_txn i rv x now st l ps) = st" "t_postings (new_txn i rv x now st l ps) = ps"
  "t_id (new_txn i rv x now st l ps) = x" "t_ledger (new_txn i rv x now st l ps) = l"
  "t_key (new_txn i rv x now st l ps) = in_key i" "t_reverses (new_txn i rv x now st l ps) = rv"
  by (simp_all add: new_txn_def)

lemma accepted_snoc:
  "accepted (e\<lparr>e_results := rs @ [r]\<rparr>) = concat (map accepted_txn rs) @ accepted_txn r"
  by (simp add: accepted_def)

lemma releases_by_snoc:
  "length rs = length reqs \<Longrightarrow> releases_by (reqs @ [q]) (rs @ [r]) = releases_by reqs rs @ taken_by q r"
  by (simp add: releases_by_def)

lemma accepted_nil_by: "accepted_txn r = [] \<Longrightarrow> posted_by [r] = [] \<and> pended_by [r] = [] \<and> taken_by q r = []"
  by (cases r rule: accepted_txn.cases) (auto simp: posted_by_def pended_by_def taken_by_def)

lemma resolveRequest_inv:
  assumes rr: "resolveRequest existing now txnid e n req = (e', r)"
    and inv: "engine_inv s0 done e" and req: "request_ok req" and wf0: "accounts_wf (s_accounts s0)"
  shows "engine_inv s0 (done @ [req]) (e'\<lparr>e_results := e_results e' @ [r]\<rparr>)"
  using rr
proof (cases rule: resolveRequest_cases)
  case unchanged
  have len: "length (e_results e) = length done" using inv by (simp add: engine_inv_def)
  show ?thesis
    using inv unchanged accepted_nil_by [OF unchanged(3)] len
    by (simp add: engine_inv_def accepted_def releases_by_snoc)
next
  case (changed s' st l ps)
  let ?t = "new_txn (truncated (rq_in req)) (rq_reverses req) txnid now st l ps"
  have i: "invs (s_accounts (e_state e))" and len: "length (e_results e) = length done"
    using inv by (simp_all add: engine_inv_def)
  note f = run_change_facts [OF changed(1) i] 
  have ok: "entries_ok (in_postings (truncated (rq_in req)))" "releases_ok (rq_releases req)"
    "input_status (truncated (rq_in req)) = Pending \<or> input_status (truncated (rq_in req)) = Posted"
    "in_postings (truncated (rq_in req)) \<noteq> []"
    using req by (simp_all add: request_ok_def)
  note f = f [OF ok]
  have by1: "posted_by [r] = posts st ps" "pended_by [r] = pends st ps"
    "taken_by req r = (if st = Archived then [] else rq_releases req)"
    using changed(4) by (simp_all add: posted_by_def pended_by_def taken_by_def)
  have mv: "moves s0 (posted_by (e_results e) @ posts st ps) (pended_by (e_results e) @ pends st ps)
      (releases_by done (e_results e) @ (if st = Archived then [] else rq_releases req)) s'"
    using inv by (intro moves_trans [OF _ f(3)] state_evolves_same_dom) (simp_all add: engine_inv_def)
  have ch: "chained (map_of (s_accounts s0)) (posted_by (e_results e) @ posts st ps)"
  proof (rule chained_append [OF _ f(4)])
    show "chained (map_of (s_accounts s0)) (posted_by (e_results e))" using inv by (simp add: engine_inv_def)
    show "\<exists>b. map_of (s_accounts (e_state e)) j = Some b \<and>
        postedDebits b = postedDebits a + moved j Debit (posted_by (e_results e)) \<and>
        postedCredits b = postedCredits a + moved j Credit (posted_by (e_results e))"
      if "map_of (s_accounts s0) j = Some a" for j a
    proof -
      have "moves s0 (posted_by (e_results e)) (pended_by (e_results e)) (releases_by done (e_results e)) (e_state e)"
        using inv by (simp add: engine_inv_def)
      then show ?thesis using that unfolding moves_def by blast
    qed
    show "map_of (s_accounts s0) j \<noteq> None" if "map_of (s_accounts (e_state e)) j = Some b" for j b
    proof -
      have "state_evolves s0 (e_state e)" using inv by (simp add: engine_inv_def)
      then show ?thesis using that by (metis state_evolvesD option.distinct(1))
    qed
  qed
  have "state_evolves s0 s'"
    using inv f(2) state_evolves_trans unfolding engine_inv_def by blast
  moreover have "txn_ok ?t" using f(5,6,7) by (simp add: txn_ok_def)
  ultimately show ?thesis
    using inv f(1) mv ch by1 len changed(2,3,4)
    by (auto simp: engine_inv_def accepted_def releases_by_snoc)
qed

lemma resolve_all_inv:
  "resolve_all existing now fresh atomic e n reqs = (e', True) \<Longrightarrow> engine_inv s0 done e \<Longrightarrow>
    \<forall>req \<in> set reqs. request_ok req \<Longrightarrow> accounts_wf (s_accounts s0) \<Longrightarrow>
    engine_inv s0 (done @ reqs) e'"
proof (induction reqs arbitrary: e n "done")
  case (Cons req reqs)
  obtain e1 r where rr: "resolveRequest existing now (fresh n) e n req = (e1, r)" by fastforce
  have inv: "engine_inv s0 (done @ [req]) (e1\<lparr>e_results := e_results e1 @ [r]\<rparr>)"
    using resolveRequest_inv [OF rr Cons.prems(2) _ Cons.prems(4)] Cons.prems(3) by simp
  have "resolve_all existing now fresh atomic (e1\<lparr>e_results := e_results e1 @ [r]\<rparr>) (Suc n) reqs = (e', True)"
    using Cons.prems(1) rr by (auto simp: Let_def split: if_splits)
  from Cons.IH [OF this inv] show ?case using Cons.prems(3,4) by simp
qed simp

lemma engine_inv_start:
  assumes "invs (s_accounts s0)" "e_state e = s0" "e_results e = []"
  shows "engine_inv s0 [] e"
  using assms by (simp add: engine_inv_def posted_by_def pended_by_def releases_by_def accepted_def)

section \<open>A whole batch\<close>

lemma applyRequests_Applied:
  assumes ap: "applyRequests d now fresh reqs atomic = Applied rs d'"
    and locked: "invs (s_accounts (lockAccounts d (concat (map request_accounts reqs))))"
    and reqs: "\<forall>req \<in> set reqs. request_ok req"
  obtains (nothing) "d' = d" "concat (map accepted_txn rs) = []" "length rs = length reqs"
    | (batch) s where
        "writeBatch now (concat (map accepted_txn rs)) s d = Inr d'"
        "invs (s_accounts s)" "state_evolves (lockAccounts d (concat (map request_accounts reqs))) s"
        "moves (lockAccounts d (concat (map request_accounts reqs))) (posted_by rs) (pended_by rs)
           (releases_by reqs rs) s"
        "chained (map_of (s_accounts (lockAccounts d (concat (map request_accounts reqs))))) (posted_by rs)"
        "\<forall>t \<in> set (concat (map accepted_txn rs)). txn_ok t" "length rs = length reqs"
proof -
  let ?s0 = "lockAccounts d (concat (map request_accounts reqs))"
  let ?ex = "selectByKey d (map (\<lambda>r. in_key (rq_in r)) reqs)"
  obtain e fin where ra: "resolve_all ?ex now fresh atomic (startEngine d reqs) 0 reqs = (e, fin)"
    by fastforce
  have fin: "fin" and rs: "rs = e_results e"
    and rest: "concat (map accepted_txn (e_results e)) = [] \<and> d' = d \<or>
      concat (map accepted_txn (e_results e)) \<noteq> [] \<and>
      writeBatch now (concat (map accepted_txn (e_results e))) (e_state e) d = Inr d'"
    using ap ra by (auto simp: applyRequests_def Let_def split: if_splits sum.splits)
  have "engine_inv ?s0 [] (startEngine d reqs)"
    using locked by (intro engine_inv_start) (simp_all add: startEngine_def)
  then have inv: "engine_inv ?s0 reqs e"
    using resolve_all_inv [of ?ex now fresh atomic "startEngine d reqs" 0 reqs e ?s0 "[]"] ra fin reqs locked
    by (simp add: invs_def)
  then have len: "length rs = length reqs" using rs by (simp add: engine_inv_def)
  show ?thesis
  proof (cases "concat (map accepted_txn rs) = []")
    case True
    then have "d' = d" using rest rs by (elim disjE) (auto simp only:)
    then show ?thesis using True len by (rule nothing)
  next
    case False
    then have wb: "writeBatch now (concat (map accepted_txn rs)) (e_state e) d = Inr d'"
      using rest rs by (elim disjE conjE) (simp_all only: simp_thms)
    show ?thesis
      using batch [OF wb] inv rs len unfolding engine_inv_def accepted_def by simp
  qed
qed

end
