(* ===== verification/Books.thy ===== *)
theory Books
  imports Engine_Laws
begin

text \<open>
  The invariant of the database: its keys are unique, its rows are well formed, the totals of every
  account agree with the entries and holds that make them up, every transaction balances, and the
  running balances of the journal are right. The lemmas show how the statements of a batch change
  each of the sums involved.
\<close>

section \<open>Sums\<close>

definition posted_sum :: "db \<Rightarrow> uuid \<Rightarrow> side \<Rightarrow> int" where
  "posted_sum d i s = sum_over (\<lambda>p. pr_account p = i \<and> pr_side p = s) pr_amount (db_postings d)"

definition live :: "db \<Rightarrow> pending_row \<Rightarrow> bool" where
  "live d p =
     (case txn_by d (pe_txn p) of
        None \<Rightarrow> False
      | Some r \<Rightarrow> tr_status r = Pending \<and> tr_entriesVersion r = pe_version p)"

definition pending_sum :: "db \<Rightarrow> uuid \<Rightarrow> side \<Rightarrow> int" where
  "pending_sum d i s =
     sum_over (\<lambda>p. pe_account p = i \<and> pe_side p = s \<and> live d p) pe_amount (db_pending d)"

definition held_sum :: "db \<Rightarrow> uuid \<Rightarrow> int" where
  "held_sum d i = sum_over (\<lambda>h. h_account h = i \<and> h_status h = HoldPending) h_amount (db_holds d)"

text \<open>The totals of an account are the sums of its entries and holds; \<open>R\<close> are the releases whose
  holds are about to be resolved in the same database transaction.\<close>

definition row_books :: "(uuid \<times> int) list \<Rightarrow> db \<Rightarrow> account_row \<Rightarrow> bool" where
  "row_books R d r \<longleftrightarrow>
     ac_postedDebits r = posted_sum d (ac_id r) Debit \<and> ac_postedCredits r = posted_sum d (ac_id r) Credit \<and>
     ac_pendingDebits r = pending_sum d (ac_id r) Debit \<and> ac_pendingCredits r = pending_sum d (ac_id r) Credit \<and>
     ac_held r = held_sum d (ac_id r) - released (ac_id r) R"

definition signed_row :: "posting_row \<Rightarrow> int" where
  "signed_row p = (if pr_side p = Debit then pr_amount p else - pr_amount p)"

definition row_net :: "uuid \<Rightarrow> posting_row list \<Rightarrow> int" where
  "row_net i ps = sum_over (\<lambda>p. pr_account p = i) signed_row ps"

section \<open>The invariant\<close>

definition row_inv :: "account_row \<Rightarrow> bool" where
  "row_inv r \<longleftrightarrow>
     account_inv (row_state None r) \<and>
     (ac_status r = Closed \<longrightarrow> ac_postedDebits r = ac_postedCredits r \<and> ac_pendingDebits r = 0 \<and>
        ac_pendingCredits r = 0 \<and> ac_held r = 0)"

definition accounts_inv :: "db \<Rightarrow> bool" where
  "accounts_inv d \<longleftrightarrow> rows_wf d \<and> (\<forall>r \<in> set (db_accounts d). row_inv r)"

definition books :: "(uuid \<times> int) list \<Rightarrow> db \<Rightarrow> bool" where
  "books R d \<longleftrightarrow> (\<forall>r \<in> set (db_accounts d). row_books R d r)"

definition entry_home :: "db \<Rightarrow> uuid \<Rightarrow> uuid \<Rightarrow> string \<Rightarrow> bool" where
  "entry_home d t i c \<longleftrightarrow>
     (\<exists>r a. txn_by d t = Some r \<and> account_by d i = Some a \<and> ac_currency a = c \<and> ac_ledger a = tr_ledger r)"

definition posting_ok :: "db \<Rightarrow> posting_row \<Rightarrow> bool" where
  "posting_ok d p \<longleftrightarrow>
     entry_home d (pr_txn p) (pr_account p) (pr_currency p) \<and>
     (\<exists>r. txn_by d (pr_txn p) = Some r \<and> tr_status r = Posted) \<and>
     side_valid (pr_side p) \<and> 0 < pr_amount p \<and> in_range (pr_amount p)"

definition pending_ok :: "db \<Rightarrow> pending_row \<Rightarrow> bool" where
  "pending_ok d p \<longleftrightarrow>
     entry_home d (pe_txn p) (pe_account p) (pe_currency p) \<and>
     (\<exists>r. txn_by d (pe_txn p) = Some r \<and> pe_version p \<le> tr_entriesVersion r) \<and>
     side_valid (pe_side p) \<and> 0 < pe_amount p \<and> in_range (pe_amount p)"

definition txn_row_ok :: "db \<Rightarrow> txn_row \<Rightarrow> bool" where
  "txn_row_ok d r \<longleftrightarrow>
     txn_status_ok (tr_status r) \<and> tr_entriesVersion r \<le> tr_version r \<and> row_entries d r \<noteq> []"

definition journal_inv :: "db \<Rightarrow> bool" where
  "journal_inv d \<longleftrightarrow>
     (\<forall>p \<in> set (db_postings d). posting_ok d p) \<and> (\<forall>p \<in> set (db_pending d). pending_ok d p) \<and>
     distinct (map tr_id (db_txns d)) \<and> distinct (map tr_key (db_txns d)) \<and>
     (\<forall>r \<in> set (db_txns d). txn_row_ok d r)"

definition balanced :: "db \<Rightarrow> bool" where
  "balanced d \<longleftrightarrow>
     (\<forall>t c. sum_over (\<lambda>p. pr_txn p = t \<and> pr_currency p = c) signed_row (db_postings d) = 0)"

definition running :: "posting_row list \<Rightarrow> bool" where
  "running ps \<longleftrightarrow>
     (\<forall>k < length ps. pr_after (ps ! k) = row_net (pr_account (ps ! k)) (take (Suc k) ps))"

definition numbered :: "nat \<Rightarrow> nat list \<Rightarrow> bool" where
  "numbered n ids \<longleftrightarrow> sorted_wrt (<) ids \<and> (\<forall>i \<in> set ids. i < n)"

definition hold_ok :: "db \<Rightarrow> hold \<Rightarrow> bool" where
  "hold_ok d h \<longleftrightarrow>
     (\<exists>a. account_by d (h_account h) = Some a \<and> ac_currency a = h_currency h) \<and>
     0 < h_amount h \<and> in_range (h_amount h) \<and>
     (h_status h = HoldPending \<longleftrightarrow> h_resolvedAt h = None) \<and>
     (h_status h = HoldCaptured \<longleftrightarrow> h_captured h \<noteq> None \<and> h_captureTxn h \<noteq> None)"

definition holds_inv :: "db \<Rightarrow> bool" where
  "holds_inv d \<longleftrightarrow>
     distinct (map h_id (db_holds d)) \<and> distinct (map h_key (db_holds d)) \<and>
     (\<forall>h \<in> set (db_holds d). hold_ok d h)"

definition settled_net :: "db \<Rightarrow> uuid \<Rightarrow> int" where
  "settled_net d s =
     sum_over (\<lambda>p. (pr_id p, s) \<in> set (db_settled d)) signed_row (db_postings d)"

definition settled_inv :: "db \<Rightarrow> bool" where
  "settled_inv d \<longleftrightarrow>
     (\<forall>s \<in> set (db_settlements d). settled_net d (st_id s) = 0) \<and>
     (\<forall>(p, s) \<in> set (db_settled d). p < db_sequence d \<and> s \<in> st_id ` set (db_settlements d))"

definition db_inv_but :: "(uuid \<times> int) list \<Rightarrow> db \<Rightarrow> bool" where
  "db_inv_but R d \<longleftrightarrow>
     accounts_inv d \<and> books R d \<and> journal_inv d \<and> balanced d \<and> running (db_postings d) \<and>
     numbered (db_sequence d) (map pr_id (db_postings d)) \<and>
     numbered (db_sequence d) (map pe_id (db_pending d)) \<and> holds_inv d \<and> settled_inv d"

definition db_inv :: "db \<Rightarrow> bool" where
  "db_inv d \<longleftrightarrow> db_inv_but [] d"

section \<open>Events and other tables\<close>

text \<open>The outbox of events is not part of the invariant.\<close>

lemma lookups_events [simp]:
  "account_by (d\<lparr>db_events := e\<rparr>) = account_by d" "txn_by (d\<lparr>db_events := e\<rparr>) = txn_by d"
  "ledger_by (d\<lparr>db_events := e\<rparr>) = ledger_by d" "hold_by (d\<lparr>db_events := e\<rparr>) = hold_by d"
  by (rule ext, simp add: account_by_def txn_by_def ledger_by_def hold_by_def)+

lemma sums_events [simp]:
  "live (d\<lparr>db_events := e\<rparr>) = live d" "posted_sum (d\<lparr>db_events := e\<rparr>) = posted_sum d"
  "pending_sum (d\<lparr>db_events := e\<rparr>) = pending_sum d" "held_sum (d\<lparr>db_events := e\<rparr>) = held_sum d"
  "row_entries (d\<lparr>db_events := e\<rparr>) = row_entries d" "settled_net (d\<lparr>db_events := e\<rparr>) = settled_net d"
  by (intro ext, simp add: live_def posted_sum_def pending_sum_def held_sum_def row_entries_def
      settled_net_def)+

lemma parts_events [simp]:
  "accounts_inv (d\<lparr>db_events := e\<rparr>) = accounts_inv d" "books R (d\<lparr>db_events := e\<rparr>) = books R d"
  "journal_inv (d\<lparr>db_events := e\<rparr>) = journal_inv d" "balanced (d\<lparr>db_events := e\<rparr>) = balanced d"
  "holds_inv (d\<lparr>db_events := e\<rparr>) = holds_inv d" "settled_inv (d\<lparr>db_events := e\<rparr>) = settled_inv d"
  by (simp_all add: accounts_inv_def rows_wf_def books_def row_books_def journal_inv_def posting_ok_def
      pending_ok_def entry_home_def txn_row_ok_def balanced_def holds_inv_def hold_ok_def settled_inv_def)

lemma db_inv_but_events [simp]: "db_inv_but R (d\<lparr>db_events := e\<rparr>) = db_inv_but R d"
  by (simp add: db_inv_but_def)

lemma db_inv_emit [simp]: "db_inv_but R (emit evs d) = db_inv_but R d" "db_inv (emit evs d) = db_inv d"
  by (simp_all add: emit_def db_inv_def)

section \<open>Rows and states\<close>

lemma account_inv_cong:
  "a_normalSide a = a_normalSide b \<Longrightarrow> a_allowNegative a = a_allowNegative b \<Longrightarrow>
   a_overdraftLimit a = a_overdraftLimit b \<Longrightarrow> postedDebits a = postedDebits b \<Longrightarrow>
   postedCredits a = postedCredits b \<Longrightarrow> pendingDebits a = pendingDebits b \<Longrightarrow>
   pendingCredits a = pendingCredits b \<Longrightarrow> held a = held b \<Longrightarrow> account_inv a = account_inv b"
  by (simp only: account_inv_def account_ok_def views_ok_def funds_ok_def outflow_def avail_def)

lemma account_inv_row [simp]: "NO_MATCH None c \<Longrightarrow> account_inv (row_state c r) = account_inv (row_state None r)"
  by (rule account_inv_cong) (simp_all add: row_state_def)

lemma account_inv_original [simp]: "account_inv (a\<lparr>a_originalVersion := v\<rparr>) = account_inv a"
  by (rule account_inv_cong) simp_all

lemma account_inv_locked [simp]: "account_inv (locked_state d r) = account_inv (row_state None r)"
  by (simp add: locked_state_def)

lemma account_by_set: "rows_wf d \<Longrightarrow> r \<in> set (db_accounts d) \<Longrightarrow> account_by d (ac_id r) = Some r"
  by (simp add: account_by_def rows_wf_def row_by_in_set)

lemma account_by_SomeD: "account_by d i = Some r \<Longrightarrow> r \<in> set (db_accounts d) \<and> ac_id r = i"
  unfolding account_by_def by (rule row_by_SomeD)

lemma locked_state_id: "a_id (locked_state d r) = ac_id r"
  by (simp add: locked_state_def row_state_def)

lemma locked_invs:
  assumes "accounts_inv d"
  shows "invs (s_accounts (lockAccounts d ids))"
proof -
  have wf: "rows_wf d" using assms by (simp add: accounts_inv_def)
  have all: "a_id a = i \<and> account_inv a" if a: "map_of (s_accounts (lockAccounts d ids)) i = Some a" for i a
  proof -
    have "map_option (locked_state d) (account_by d i) = Some a"
      using a unfolding lockAccounts_accounts(1) [OF wf] by (simp split: if_splits)
    then obtain r where r: "account_by d i = Some r" "a = locked_state d r" by blast
    have "r \<in> set (db_accounts d)" "ac_id r = i" using account_by_SomeD [OF r(1)] by simp_all
    then show ?thesis using assms r(2) by (simp add: accounts_inv_def row_inv_def locked_state_id)
  qed
  have "accounts_wf (s_accounts (lockAccounts d ids))"
    unfolding accounts_wf_def
    using lockAccounts_accounts(3) [OF wf] all account_inv_def by blast
  then show ?thesis unfolding invs_def using all by blast
qed

lemma account_inv_write:
  assumes "account_inv b" "evolved (locked_state d r) b"
  shows "account_inv (row_state None (write_row b r))"
proof -
  have "a_normalSide b = ac_normalSide r" "a_allowNegative b = ac_allowNegative r"
    "a_overdraftLimit b = ac_overdraftLimit r"
    using assms(2) by (simp_all add: evolved_def locked_state_def row_state_def)
  then have "account_inv (row_state None (write_row b r)) = account_inv b"
    by (intro account_inv_cong) (simp_all add: row_state_def write_row_def)
  then show ?thesis using assms(1) by simp
qed

text \<open>Rewriting the totals keeps the accounts well formed.\<close>

lemma write_accounts_inv:
  assumes wr: "writeAccounts s d2 = Inr d'" and acc: "db_accounts d2 = db_accounts d"
    and led: "db_ledgers d2 = db_ledgers d" and inv: "accounts_inv d"
    and ev: "state_evolves (lockAccounts d ids) s" and sinv: "invs (s_accounts s)"
  shows "accounts_inv d'"
proof -
  have wf: "rows_wf d" using inv by (simp add: accounts_inv_def)
  have dist: "distinct (map fst (s_accounts s))" using sinv by (simp add: invs_def accounts_wf_def)
  note w = writeAccounts_evolved [OF wr acc wf ev dist]
  obtain evs where d': "d' = d2\<lparr>db_accounts := db_accounts d', db_events := db_events d2 @ evs\<rparr>"
    using w(4) by blast
  have ids: "distinct (map ac_id (db_accounts d'))" using w(2) wf by (simp add: rows_wf_def)
  have old: "\<exists>r. account_by d (ac_id r') = Some r \<and> (r' = r \<or>
      (\<exists>b. map_of (s_accounts s) (ac_id r') = Some b \<and> r' = write_row b r \<and> evolved (locked_state d r) b))"
    if new: "r' \<in> set (db_accounts d')" for r'
  proof -
    have "account_by d' (ac_id r') = Some r'"
      using new ids by (simp add: account_by_def row_by_in_set)
    then have eq: "(case map_of (s_accounts s) (ac_id r') of None \<Rightarrow> account_by d (ac_id r')
        | Some b \<Rightarrow> map_option (write_row b) (account_by d (ac_id r'))) = Some r'"
      using w(1) by simp
    show ?thesis
    proof (cases "map_of (s_accounts s) (ac_id r')")
      case None
      then show ?thesis using eq by simp
    next
      case (Some b)
      then obtain r where r: "account_by d (ac_id r') = Some r" "r' = write_row b r" using eq by auto
      obtain a where "map_of (s_accounts (lockAccounts d ids)) (ac_id r') = Some a" "evolved a b"
        using state_evolvesD [OF ev Some] by blast
      then have "evolved (locked_state d r) b"
        using r(1) unfolding lockAccounts_accounts(1) [OF wf] by (auto split: if_splits)
      then show ?thesis using r Some by blast
    qed
  qed
  have "row_inv r' \<and> ledger_by d' (ac_ledger r') \<noteq> None" if new: "r' \<in> set (db_accounts d')" for r'
  proof -
    have led': "ledger_by d' i = ledger_by d i" for i
      by (subst d') (simp add: ledger_by_def led)
    obtain r where r: "account_by d (ac_id r') = Some r" and c: "r' = r \<or>
      (\<exists>b. map_of (s_accounts s) (ac_id r') = Some b \<and> r' = write_row b r \<and> evolved (locked_state d r) b)"
      using old [OF new] by blast
    have rin: "r \<in> set (db_accounts d)" using account_by_SomeD [OF r] by blast
    then have rr: "row_inv r" "ledger_by d (ac_ledger r) \<noteq> None"
      using inv by (auto simp: accounts_inv_def rows_wf_def)
    show ?thesis
    proof (cases "r' = r")
      case True
      then show ?thesis using rr led' by simp
    next
      case False
      then obtain b where b: "map_of (s_accounts s) (ac_id r') = Some b" "r' = write_row b r"
        "evolved (locked_state d r) b" using c by blast
      have "account_by d' (ac_id r') = Some r'"
        using new ids by (simp add: account_by_def row_by_in_set)
      then have "account_row_check r r' = ok" using w(3) [OF r _ False] by simp
      then have "ac_status r' = Closed \<longrightarrow> ac_postedDebits r' = ac_postedCredits r' \<and> ac_pendingDebits r' = 0 \<and>
        ac_pendingCredits r' = 0 \<and> ac_held r' = 0"
        by (auto simp: account_row_check_def split: if_splits)
      moreover have "account_inv (row_state None r')"
        unfolding b(2) using invsD(1) [OF sinv b(1)] b(3) by (rule account_inv_write)
      moreover have "ac_ledger r' = ac_ledger r" by (simp add: b(2) write_row_def)
      ultimately show ?thesis using rr led' by (simp add: row_inv_def)
    qed
  qed
  then show ?thesis using ids by (simp add: accounts_inv_def rows_wf_def)
qed

text \<open>The totals after writing, for a state that moved.\<close>

lemma write_accounts_totals:
  assumes wr: "writeAccounts s d2 = Inr d'" and acc: "db_accounts d2 = db_accounts d"
    and wf: "rows_wf d" and ev: "state_evolves (lockAccounts d ids) s"
    and dist: "distinct (map fst (s_accounts s))" and mv: "moves (lockAccounts d ids) P Q R s"
    and r': "account_by d' i = Some r'"
  shows "\<exists>r. account_by d i = Some r \<and>
     ac_postedDebits r' = ac_postedDebits r + moved i Debit P \<and>
     ac_postedCredits r' = ac_postedCredits r + moved i Credit P \<and>
     ac_pendingDebits r' = ac_pendingDebits r + moved i Debit Q \<and>
     ac_pendingCredits r' = ac_pendingCredits r + moved i Credit Q \<and>
     ac_held r' = ac_held r - released i R \<and>
     ac_currency r' = ac_currency r \<and> ac_ledger r' = ac_ledger r \<and> ac_id r' = ac_id r \<and>
     ac_status r' = ac_status r \<and> ac_normalSide r' = ac_normalSide r"
proof (cases "i \<in> set ids \<and> account_by d i \<noteq> None")
  case True
  then obtain r where r: "account_by d i = Some r" by blast
  then have a: "map_of (s_accounts (lockAccounts d ids)) i = Some (locked_state d r)"
    using True lockAccounts_accounts(1) [OF wf] by simp
  then obtain b where b: "map_of (s_accounts s) i = Some b"
    "postedDebits b = postedDebits (locked_state d r) + moved i Debit P"
    "postedCredits b = postedCredits (locked_state d r) + moved i Credit P"
    "pendingDebits b = pendingDebits (locked_state d r) + moved i Debit Q"
    "pendingCredits b = pendingCredits (locked_state d r) + moved i Credit Q"
    "held b = held (locked_state d r) - released i R"
    using mv unfolding moves_def by blast
  have "r' = write_row b r"
    using writeAccounts_evolved(1) [OF wr acc wf ev dist, of i] r' r b(1) by simp
  then show ?thesis using r b by (auto simp: write_row_def locked_state_def row_state_def)
next
  case False
  have none: "map_of (s_accounts s) i = None"
  proof (rule ccontr)
    assume "map_of (s_accounts s) i \<noteq> None"
    then obtain b where "map_of (s_accounts s) i = Some b" by blast
    then obtain a where "map_of (s_accounts (lockAccounts d ids)) i = Some a"
      using state_evolvesD [OF ev] by blast
    then show False using False lockAccounts_accounts(1) [OF wf] by (auto split: if_splits)
  qed
  then have same: "account_by d' i = account_by d i"
    using writeAccounts_evolved(1) [OF wr acc wf ev dist, of i] by simp
  have "i \<notin> dom (map_of (s_accounts (lockAccounts d ids)))"
    using False lockAccounts_accounts(1) [OF wf] by (auto split: if_splits)
  then have "i \<notin> p_account ` set P" "i \<notin> p_account ` set Q" "i \<notin> fst ` set R"
    using mv unfolding moves_def by blast+
  then have "moved i sd P = 0" "moved i sd Q = 0" "released i R = 0" for sd
    by (auto intro!: moved_none released_none)
  moreover have "account_by d i = Some r'" using same r' by simp
  ultimately show ?thesis by simp
qed

end
