(* ===== verification/Journal.thy ===== *)
theory Journal
  imports Books
begin

text \<open>
  What \<open>insertEntries\<close> adds to the journal, and that writing a batch keeps the invariant of the
  database, except that the holds a batch releases have still to be resolved.
\<close>

section \<open>The rows of a list of columns\<close>

lemma posting_rows_append:
  "posting_rows n (xs @ ys) = posting_rows n xs @ posting_rows (n + length xs) ys"
  by (induction xs arbitrary: n) auto

lemma length_posting_rows [simp]: "length (posting_rows n cols) = length cols"
  by (induction cols arbitrary: n) auto

lemma length_pending_rows [simp]: "length (pending_rows n v cols) = length cols"
  by (induction cols arbitrary: n) auto

lemma posting_rows_ids: "map pr_id (posting_rows n cols) = [n ..< n + length cols]"
  by (induction cols arbitrary: n) (auto simp: upt_conv_Cons simp del: upt_Suc)

lemma pending_rows_ids: "map pe_id (pending_rows n v cols) = [n ..< n + length cols]"
  by (induction cols arbitrary: n) (auto simp: upt_conv_Cons simp del: upt_Suc)

lemma set_posting_rows:
  "p \<in> set (posting_rows n cols) \<Longrightarrow> \<exists>t q. (t, q) \<in> set cols \<and> pr_txn p = t \<and> pr_account p = p_account q \<and>
    pr_currency p = p_currency q \<and> pr_side p = p_side q \<and> pr_amount p = p_amount q \<and>
    pr_after p = p_balanceAfter q"
  by (induction n cols rule: posting_rows.induct) auto

lemma set_pending_rows:
  "p \<in> set (pending_rows n v cols) \<Longrightarrow> \<exists>t q. (t, q) \<in> set cols \<and> pe_txn p = t \<and> pe_version p = v \<and>
    pe_account p = p_account q \<and> pe_currency p = p_currency q \<and> pe_side p = p_side q \<and>
    pe_amount p = p_amount q"
  by (induction n v cols rule: pending_rows.induct) auto

lemma in_posting_rows: "(t, q) \<in> set cols \<Longrightarrow> \<exists>p \<in> set (posting_rows n cols). pr_txn p = t"
  by (induction cols arbitrary: n) auto

lemma in_pending_rows: "(t, q) \<in> set cols \<Longrightarrow> \<exists>p \<in> set (pending_rows n v cols). pe_txn p = t \<and> pe_version p = v"
  by (induction cols arbitrary: n) auto

lemma posting_rows_moved:
  "sum_over (\<lambda>p. pr_account p = i \<and> pr_side p = s) pr_amount (posting_rows n cols) = moved i s (map snd cols)"
  by (induction n cols rule: posting_rows.induct) auto

lemma posting_rows_total:
  "sum_over (\<lambda>p. pr_txn p = t \<and> pr_currency p = c) signed_row (posting_rows n cols) = column_total t c cols"
  by (induction n cols rule: posting_rows.induct) (auto simp: column_total_def signed_row_def)

lemma take_posting_rows: "take k (posting_rows n cols) = posting_rows n (take k cols)"
  by (induction n cols arbitrary: k rule: posting_rows.induct) (auto simp: take_Cons')

lemma nth_posting_rows:
  "k < length cols \<Longrightarrow> pr_account (posting_rows n cols ! k) = p_account (snd (cols ! k)) \<and>
    pr_after (posting_rows n cols ! k) = p_balanceAfter (snd (cols ! k))"
  by (induction n cols arbitrary: k rule: posting_rows.induct) (auto simp: nth_Cons')

lemma row_net_append [simp]: "row_net i (ps @ qs) = row_net i ps + row_net i qs"
  by (simp add: row_net_def)

lemma row_net_sides:
  "\<forall>p \<in> set ps. side_valid (pr_side p) \<Longrightarrow> row_net i ps =
    sum_over (\<lambda>p. pr_account p = i \<and> pr_side p = Debit) pr_amount ps -
    sum_over (\<lambda>p. pr_account p = i \<and> pr_side p = Credit) pr_amount ps"
  by (induction ps) (auto simp: row_net_def signed_row_def)

lemma entries_ok_mem: "entries_ok ps \<Longrightarrow> p \<in> set ps \<Longrightarrow> entry_ok p"
  by (auto simp: entries_ok_def list_all_iff)

lemma posting_rows_sides:
  assumes "entries_ok (map snd cols)"
  shows "\<forall>p \<in> set (posting_rows n cols). side_valid (pr_side p)"
proof
  fix p assume "p \<in> set (posting_rows n cols)"
  then obtain t q where "(t, q) \<in> set cols" "pr_side p = p_side q" using set_posting_rows by blast
  then show "side_valid (pr_side p)"
    using entries_ok_mem [OF assms, of q] by (force simp: entry_ok_def)
qed

lemma posting_rows_net:
  assumes "entries_ok (map snd cols)"
  shows "row_net i (posting_rows n cols) = moved i Debit (map snd cols) - moved i Credit (map snd cols)"
  by (simp add: row_net_sides [OF posting_rows_sides [OF assms]] posting_rows_moved)

section \<open>The running balance\<close>

lemma running_append:
  assumes "running ps"
    and "\<And>k. k < length qs \<Longrightarrow>
      pr_after (qs ! k) = row_net (pr_account (qs ! k)) ps + row_net (pr_account (qs ! k)) (take (Suc k) qs)"
  shows "running (ps @ qs)"
  unfolding running_def
proof (intro allI impI)
  fix k assume k: "k < length (ps @ qs)"
  show "pr_after ((ps @ qs) ! k) = row_net (pr_account ((ps @ qs) ! k)) (take (Suc k) (ps @ qs))"
  proof (cases "k < length ps")
    case True
    then have "take (Suc k) (ps @ qs) = take (Suc k) ps" by simp
    then show ?thesis using assms(1) True by (simp add: running_def nth_append)
  next
    case False
    then have "take (Suc k) (ps @ qs) = ps @ take (Suc (k - length ps)) qs"
      by (simp add: Suc_diff_le)
    then show ?thesis using assms(2) [of "k - length ps"] False k by (simp add: nth_append)
  qed
qed

lemma numbered_append:
  assumes "numbered n ids" "n \<le> m"
  shows "numbered (m + k) (ids @ [m ..< m + k])"
  using assms by (auto simp: numbered_def sorted_wrt_append dest: order.strict_trans2)

lemma numbered_mono: "numbered n ids \<Longrightarrow> n \<le> m \<Longrightarrow> numbered m ids"
  by (auto simp: numbered_def)

section \<open>Inserting entries\<close>

definition posted_columns :: "transaction list \<Rightarrow> entry_columns" where
  "posted_columns ts = concat (map entry_columns (filter (\<lambda>t. t_status t = Posted) ts))"

definition pending_columns :: "transaction list \<Rightarrow> entry_columns" where
  "pending_columns ts = concat (map entry_columns (filter (\<lambda>t. t_status t \<noteq> Posted) ts))"

lemma columns_Nil [simp]: "posted_columns [] = []" "pending_columns [] = []"
  by (simp_all add: posted_columns_def pending_columns_def)

lemma columns_Cons [simp]:
  "posted_columns (t # ts) = (if t_status t = Posted then entry_columns t else []) @ posted_columns ts"
  "pending_columns (t # ts) = (if t_status t = Posted then [] else entry_columns t) @ pending_columns ts"
  by (simp_all add: posted_columns_def pending_columns_def)

lemma snd_entry_columns [simp]: "map snd (entry_columns t) = t_postings t"
  by (simp add: entry_columns_def comp_def)

lemma set_entry_columns: "(x, p) \<in> set (entry_columns t) \<longleftrightarrow> x = t_id t \<and> p \<in> set (t_postings t)"
  by (auto simp: entry_columns_def)

lemma set_posted_columns:
  "(x, p) \<in> set (posted_columns ts) \<longleftrightarrow>
    (\<exists>t \<in> set ts. t_status t = Posted \<and> x = t_id t \<and> p \<in> set (t_postings t))"
  by (auto simp: posted_columns_def set_entry_columns)

lemma set_pending_columns:
  "(x, p) \<in> set (pending_columns ts) \<longleftrightarrow>
    (\<exists>t \<in> set ts. t_status t \<noteq> Posted \<and> x = t_id t \<and> p \<in> set (t_postings t))"
  by (auto simp: pending_columns_def set_entry_columns)

lemma insert_txn_rows_Inr:
  "insert_txn_rows rs d = Inr d' \<Longrightarrow>
    d' = d\<lparr>db_txns := db_txns d @ rs\<rparr> \<and>
    (distinct (map tr_id (db_txns d)) \<longrightarrow> distinct (map tr_id (db_txns d @ rs))) \<and>
    (distinct (map tr_key (db_txns d)) \<longrightarrow> distinct (map tr_key (db_txns d @ rs)))"
proof (induction rs arbitrary: d)
  case (Cons r rs)
  then have c: "txn_row_check d r = ok"
    and ih: "insert_txn_rows rs (d\<lparr>db_txns := db_txns d @ [r]\<rparr>) = Inr d'" by auto
  have "tr_id r \<notin> tr_id ` set (db_txns d)" "tr_key r \<notin> tr_key ` set (db_txns d)"
    using c by (auto simp: txn_row_check_def list_ex_iff image_iff split: if_splits)
  then show ?case using Cons.IH [OF ih] by simp
qed simp

lemma entries_check_Nil [simp]: "entries_check d P [] = ok"
  by (simp add: entries_check_def)

lemma insertEntries_Inr:
  assumes "insertEntries now ts d = Inr d'"
  shows "d' = d\<lparr>db_txns := db_txns d @ map (insert_row now) ts,
      db_postings := db_postings d @ posting_rows (db_sequence d) (posted_columns ts),
      db_pending := db_pending d @
        pending_rows (db_sequence d + length (posted_columns ts)) 1 (pending_columns ts),
      db_sequence := db_sequence d + length (posted_columns ts) + length (pending_columns ts)\<rparr>"
    and "distinct (map tr_id (db_txns d)) \<Longrightarrow> distinct (map tr_id (db_txns d'))"
    and "distinct (map tr_key (db_txns d)) \<Longrightarrow> distinct (map tr_key (db_txns d'))"
    and "entries_check (d\<lparr>db_txns := db_txns d'\<rparr>) (\<lambda>r. tr_status r = Posted) (posted_columns ts) = ok"
    and "entries_check (d\<lparr>db_txns := db_txns d'\<rparr>) (\<lambda>r. tr_entriesVersion r = 1 \<and>
      (tr_status r = Pending \<or> tr_status r = Archived \<and> tr_version r = 1)) (pending_columns ts) = ok"
proof -
  let ?po = "posted_columns ts" and ?pe = "pending_columns ts"
  obtain d1 d2 where d1: "insert_txn_rows (map (insert_row now) ts) d = Inr d1"
    and d2: "(if ?po = [] then Inr d1 else insertPostings ?po d1) = Inr d2"
    and d3: "(if ?pe = [] then Inr d2 else insertPendingEntries 1 ?pe d2) = Inr d'"
    using assms unfolding insertEntries_def Let_def posted_columns_def [symmetric]
      pending_columns_def [symmetric] by (simp only: bindR_Inr_iff) blast
  note i1 = insert_txn_rows_Inr [OF d1]
  have i2: "d2 = d1\<lparr>db_postings := db_postings d1 @ posting_rows (db_sequence d1) ?po,
      db_sequence := db_sequence d1 + length ?po\<rparr> \<and>
      entries_check d1 (\<lambda>r. tr_status r = Posted) ?po = ok"
    using d2 by (auto simp: insertPostings_def split: if_splits)
  have i3: "d' = d2\<lparr>db_pending := db_pending d2 @ pending_rows (db_sequence d2) 1 ?pe,
      db_sequence := db_sequence d2 + length ?pe\<rparr> \<and>
      entries_check d2 (\<lambda>r. tr_entriesVersion r = 1 \<and>
      (tr_status r = Pending \<or> tr_status r = Archived \<and> tr_version r = 1)) ?pe = ok"
    using d3 by (auto simp: insertPendingEntries_def split: if_splits)
  have same: "entries_check d2 P cols = entries_check d1 P cols" for P cols
    using i2 by (simp add: entries_check_def account_by_def txn_by_def)
  show "d' = d\<lparr>db_txns := db_txns d @ map (insert_row now) ts,
      db_postings := db_postings d @ posting_rows (db_sequence d) ?po,
      db_pending := db_pending d @ pending_rows (db_sequence d + length ?po) 1 ?pe,
      db_sequence := db_sequence d + length ?po + length ?pe\<rparr>"
    using i1 i2 i3 by simp
  have tx: "db_txns d' = db_txns d1" "d1 = d\<lparr>db_txns := db_txns d'\<rparr>" using i1 i2 i3 by simp_all
  show "distinct (map tr_id (db_txns d)) \<Longrightarrow> distinct (map tr_id (db_txns d'))"
    "distinct (map tr_key (db_txns d)) \<Longrightarrow> distinct (map tr_key (db_txns d'))"
    unfolding tx(1) using i1 by simp_all
  show "entries_check (d\<lparr>db_txns := db_txns d'\<rparr>) (\<lambda>r. tr_status r = Posted) ?po = ok"
    unfolding tx(2) [symmetric] using i2 by (rule conjunct2)
  show "entries_check (d\<lparr>db_txns := db_txns d'\<rparr>) (\<lambda>r. tr_entriesVersion r = 1 \<and>
      (tr_status r = Pending \<or> tr_status r = Archived \<and> tr_version r = 1)) ?pe = ok"
    unfolding tx(2) [symmetric] using i3 [THEN conjunct2] unfolding same .
qed

lemma entries_checkD:
  assumes "entries_check d P cols = ok"
  shows "(t, p) \<in> set cols \<Longrightarrow> entry_home d t (p_account p) (p_currency p)"
    and "(t, p) \<in> set cols \<Longrightarrow> \<exists>r. txn_by d t = Some r \<and> P r"
    and "(t, p) \<in> set cols \<Longrightarrow> 0 < p_amount p"
    and "column_total t c cols = 0"
proof -
  note c = assms [unfolded entries_check_def if_Inl_eq_Inr]
  show "entry_home d t (p_account p) (p_currency p)" if "(t, p) \<in> set cols"
    using c that by (fastforce simp: list_ex_iff entry_home_def split: option.splits)
  show "\<exists>r. txn_by d t = Some r \<and> P r" if "(t, p) \<in> set cols"
    using c that by (fastforce simp: list_ex_iff split: option.splits)
  show "0 < p_amount p" if "(t, p) \<in> set cols"
    using c that by (fastforce simp: list_ex_iff)
  show "column_total t c cols = 0"
  proof (cases "\<exists>p. (t, p) \<in> set cols \<and> p_currency p = c")
    case True
    then show ?thesis using c by (fastforce simp: list_ex_iff)
  next
    case False
    then show ?thesis unfolding column_total_def by (intro sum_over_none) auto
  qed
qed

section \<open>Appending to the journal\<close>

text \<open>\<open>extends d d'\<close>: no row of an account or a transaction disappears or changes its home, a posted
  transaction stays posted and the version of the entries never goes down.\<close>

definition extends :: "db \<Rightarrow> db \<Rightarrow> bool" where
  "extends d d' \<longleftrightarrow>
     (\<forall>t r. txn_by d t = Some r \<longrightarrow> (\<exists>r'. txn_by d' t = Some r' \<and> tr_ledger r' = tr_ledger r \<and>
        (tr_status r = Posted \<longrightarrow> tr_status r' = Posted) \<and> tr_entriesVersion r \<le> tr_entriesVersion r')) \<and>
     (\<forall>i a. account_by d i = Some a \<longrightarrow> (\<exists>a'. account_by d' i = Some a' \<and>
        ac_currency a' = ac_currency a \<and> ac_ledger a' = ac_ledger a))"

definition appended :: "db \<Rightarrow> entry_columns \<Rightarrow> int \<Rightarrow> entry_columns \<Rightarrow> db \<Rightarrow> bool" where
  "appended d cols v pcols d' \<longleftrightarrow>
     db_postings d' = db_postings d @ posting_rows (db_sequence d) cols \<and>
     db_pending d' = db_pending d @ pending_rows (db_sequence d + length cols) v pcols \<and>
     db_sequence d' = db_sequence d + length cols + length pcols \<and>
     db_holds d' = db_holds d \<and> db_settlements d' = db_settlements d \<and> db_settled d' = db_settled d"

lemma extends_refl [simp]: "extends d d"
  by (auto simp: extends_def)

lemma extends_trans:
  assumes "extends d d'" "extends d' d''"
  shows "extends d d''"
  unfolding extends_def
proof (intro conjI allI impI)
  fix t r assume "txn_by d t = Some r"
  then obtain r' where "txn_by d' t = Some r'" "tr_ledger r' = tr_ledger r"
    "tr_status r = Posted \<longrightarrow> tr_status r' = Posted" "tr_entriesVersion r \<le> tr_entriesVersion r'"
    using assms(1) unfolding extends_def by blast
  moreover from this(1) obtain r'' where "txn_by d'' t = Some r''" "tr_ledger r'' = tr_ledger r'"
    "tr_status r' = Posted \<longrightarrow> tr_status r'' = Posted" "tr_entriesVersion r' \<le> tr_entriesVersion r''"
    using assms(2) unfolding extends_def by blast
  ultimately show "\<exists>r'. txn_by d'' t = Some r' \<and> tr_ledger r' = tr_ledger r \<and>
      (tr_status r = Posted \<longrightarrow> tr_status r' = Posted) \<and> tr_entriesVersion r \<le> tr_entriesVersion r'"
    by auto
next
  fix i a assume "account_by d i = Some a"
  then show "\<exists>a'. account_by d'' i = Some a' \<and> ac_currency a' = ac_currency a \<and> ac_ledger a' = ac_ledger a"
    using assms unfolding extends_def by metis
qed

lemma extends_txn:
  assumes "extends d d'" "txn_by d t = Some r"
  obtains r' where "txn_by d' t = Some r'" "tr_ledger r' = tr_ledger r"
    "tr_status r = Posted \<Longrightarrow> tr_status r' = Posted" "tr_entriesVersion r \<le> tr_entriesVersion r'"
  using assms unfolding extends_def by blast

lemma extends_account:
  assumes "extends d d'" "account_by d i = Some a"
  obtains a' where "account_by d' i = Some a'" "ac_currency a' = ac_currency a" "ac_ledger a' = ac_ledger a"
  using assms unfolding extends_def by blast

lemma extends_home:
  assumes "extends d d'" "entry_home d t i c"
  shows "entry_home d' t i c"
proof -
  obtain r a where ra: "txn_by d t = Some r" "account_by d i = Some a" "ac_currency a = c"
    "ac_ledger a = tr_ledger r"
    using assms(2) unfolding entry_home_def by blast
  obtain r' where "txn_by d' t = Some r'" "tr_ledger r' = tr_ledger r"
    using extends_txn [OF assms(1) ra(1)] .
  moreover obtain a' where "account_by d' i = Some a'" "ac_currency a' = ac_currency a"
    "ac_ledger a' = ac_ledger a"
    using extends_account [OF assms(1) ra(2)] .
  ultimately show ?thesis using ra by (simp add: entry_home_def)
qed

lemma extends_posting_ok:
  assumes "extends d d'" "posting_ok d p"
  shows "posting_ok d' p"
proof -
  obtain r where "txn_by d (pr_txn p) = Some r" "tr_status r = Posted"
    using assms(2) unfolding posting_ok_def by blast
  then have "\<exists>r. txn_by d' (pr_txn p) = Some r \<and> tr_status r = Posted"
    using extends_txn [OF assms(1)] by metis
  then show ?thesis using assms extends_home unfolding posting_ok_def by blast
qed

lemma extends_pending_ok:
  assumes "extends d d'" "pending_ok d p"
  shows "pending_ok d' p"
proof -
  obtain r where "txn_by d (pe_txn p) = Some r" "pe_version p \<le> tr_entriesVersion r"
    using assms(2) unfolding pending_ok_def by blast
  then have "\<exists>r. txn_by d' (pe_txn p) = Some r \<and> pe_version p \<le> tr_entriesVersion r"
    using extends_txn [OF assms(1)] by (metis order.trans)
  then show ?thesis using assms extends_home unfolding pending_ok_def by blast
qed

lemma extends_hold_ok:
  assumes "extends d d'" "hold_ok d h"
  shows "hold_ok d' h"
proof -
  obtain a where "account_by d (h_account h) = Some a" "ac_currency a = h_currency h"
    using assms(2) unfolding hold_ok_def by blast
  then have "\<exists>a. account_by d' (h_account h) = Some a \<and> ac_currency a = h_currency h"
    using extends_account [OF assms(1)] by metis
  then show ?thesis using assms(2) unfolding hold_ok_def by blast
qed

lemma appended_balanced:
  assumes "appended d cols v pcols d'" "balanced d" "\<And>t c. column_total t c cols = 0"
  shows "balanced d'"
  using assms by (simp add: appended_def balanced_def posting_rows_total)

lemma appended_numbered:
  assumes "appended d cols v pcols d'" "numbered (db_sequence d) (map pr_id (db_postings d))"
    "numbered (db_sequence d) (map pe_id (db_pending d))"
  shows "numbered (db_sequence d') (map pr_id (db_postings d')) \<and>
    numbered (db_sequence d') (map pe_id (db_pending d'))"
proof -
  have "numbered (db_sequence d + length cols) (map pr_id (db_postings d'))"
    using assms numbered_append [OF assms(2) order.refl] by (simp add: appended_def posting_rows_ids)
  moreover have "numbered (db_sequence d + length cols + length pcols) (map pe_id (db_pending d'))"
    using assms numbered_append [OF assms(3), of "db_sequence d + length cols"]
    by (simp add: appended_def pending_rows_ids)
  ultimately show ?thesis
    using assms(1) numbered_mono [of "db_sequence d + length cols" _ "db_sequence d'"]
    by (simp add: appended_def)
qed

lemma appended_running:
  assumes ap: "appended d cols v pcols d'" and run: "running (db_postings d)"
    and ok: "entries_ok (map snd cols)"
    and after: "\<And>k. k < length cols \<Longrightarrow> p_balanceAfter (snd (cols ! k)) =
      row_net (p_account (snd (cols ! k))) (db_postings d) +
      (moved (p_account (snd (cols ! k))) Debit (take (Suc k) (map snd cols)) -
       moved (p_account (snd (cols ! k))) Credit (take (Suc k) (map snd cols)))"
  shows "running (db_postings d')"
proof -
  have "running (db_postings d @ posting_rows (db_sequence d) cols)"
  proof (rule running_append [OF run])
    fix k assume "k < length (posting_rows (db_sequence d) cols)"
    then have k: "k < length cols" by simp
    have "entries_ok (map snd (take (Suc k) cols))"
      using ok by (auto simp: entries_ok_def list_all_iff dest: in_set_takeD)
    from posting_rows_net [OF this]
    show "pr_after (posting_rows (db_sequence d) cols ! k) =
        row_net (pr_account (posting_rows (db_sequence d) cols ! k)) (db_postings d) +
        row_net (pr_account (posting_rows (db_sequence d) cols ! k))
          (take (Suc k) (posting_rows (db_sequence d) cols))"
      using nth_posting_rows [OF k] after [OF k] by (simp add: take_posting_rows take_map)
  qed
  then show ?thesis using ap by (simp add: appended_def)
qed

lemma appended_settled:
  assumes ap: "appended d cols v pcols d'" and inv: "settled_inv d"
  shows "settled_inv d'"
proof -
  have same: "db_settlements d' = db_settlements d" "db_settled d' = db_settled d"
    "db_sequence d \<le> db_sequence d'"
    using ap by (simp_all add: appended_def)
  have "settled_net d' s = settled_net d s" for s
  proof -
    have "sum_over (\<lambda>p. (pr_id p, s) \<in> set (db_settled d)) signed_row
        (posting_rows (db_sequence d) cols) = 0"
    proof (rule sum_over_none)
      fix p assume "p \<in> set (posting_rows (db_sequence d) cols)"
      then have "pr_id p \<in> set (map pr_id (posting_rows (db_sequence d) cols))" by simp
      then have "db_sequence d \<le> pr_id p" unfolding posting_rows_ids by simp
      then show "(pr_id p, s) \<notin> set (db_settled d)" using inv by (fastforce simp: settled_inv_def)
    qed
    then show ?thesis using ap by (simp add: settled_net_def appended_def)
  qed
  then show ?thesis using inv same by (fastforce simp: settled_inv_def)
qed

lemma appended_holds:
  assumes "appended d cols v pcols d'" "extends d d'" "holds_inv d"
  shows "holds_inv d'"
  using assms extends_hold_ok [OF assms(2)] by (auto simp: holds_inv_def appended_def)

lemma posting_rows_ok:
  assumes "entries_ok (map snd cols)"
    and "\<And>t q. (t, q) \<in> set cols \<Longrightarrow> entry_home d' t (p_account q) (p_currency q)"
    and "\<And>t q. (t, q) \<in> set cols \<Longrightarrow> \<exists>r. txn_by d' t = Some r \<and> tr_status r = Posted"
    and "p \<in> set (posting_rows n cols)"
  shows "posting_ok d' p"
proof -
  obtain t q where q: "(t, q) \<in> set cols" "pr_txn p = t" "pr_account p = p_account q"
    "pr_currency p = p_currency q" "pr_side p = p_side q" "pr_amount p = p_amount q"
    using set_posting_rows [OF assms(4)] by blast
  have "entry_ok q" using entries_ok_mem [OF assms(1)] q(1) by force
  then show ?thesis using q assms(2,3) [OF q(1)] by (simp add: posting_ok_def entry_ok_def)
qed

lemma pending_rows_ok:
  assumes "entries_ok (map snd cols)"
    and "\<And>t q. (t, q) \<in> set cols \<Longrightarrow> entry_home d' t (p_account q) (p_currency q)"
    and "\<And>t q. (t, q) \<in> set cols \<Longrightarrow> \<exists>r. txn_by d' t = Some r \<and> v \<le> tr_entriesVersion r"
    and "p \<in> set (pending_rows n v cols)"
  shows "pending_ok d' p"
proof -
  obtain t q where q: "(t, q) \<in> set cols" "pe_txn p = t" "pe_version p = v" "pe_account p = p_account q"
    "pe_currency p = p_currency q" "pe_side p = p_side q" "pe_amount p = p_amount q"
    using set_pending_rows [OF assms(4)] by blast
  have "entry_ok q" using entries_ok_mem [OF assms(1)] q(1) by force
  then show ?thesis using q assms(2,3) [OF q(1)] by (simp add: pending_ok_def entry_ok_def)
qed

lemma appended_posted_sum:
  "appended d cols v pcols d' \<Longrightarrow> posted_sum d' i s = posted_sum d i s + moved i s (map snd cols)"
  by (simp add: appended_def posted_sum_def posting_rows_moved)

lemma appended_held_sum: "appended d cols v pcols d' \<Longrightarrow> held_sum d' i = held_sum d i"
  by (simp add: appended_def held_sum_def)

lemma books_row_net:
  assumes "journal_inv d" "books R d" "account_by d i = Some r"
  shows "row_net i (db_postings d) = ac_postedDebits r - ac_postedCredits r"
proof -
  have r: "r \<in> set (db_accounts d)" "ac_id r = i" using account_by_SomeD [OF assms(3)] by simp_all
  have "\<forall>p \<in> set (db_postings d). side_valid (pr_side p)"
    using assms(1) by (simp add: journal_inv_def posting_ok_def)
  then show ?thesis
    using assms(2) r by (simp add: row_net_sides books_def row_books_def posted_sum_def)
qed

section \<open>Writing accounts extends the database\<close>

lemma writeAccounts_extends:
  assumes wr: "writeAccounts s d2 = Inr d'" and acc: "db_accounts d2 = db_accounts d"
    and wf: "rows_wf d" and ev: "state_evolves (lockAccounts d ids) s"
    and dist: "distinct (map fst (s_accounts s))"
  shows "extends d2 d'" and "db_txns d' = db_txns d2" and "db_postings d' = db_postings d2"
    and "db_pending d' = db_pending d2" and "db_sequence d' = db_sequence d2"
    and "db_holds d' = db_holds d2" and "db_settlements d' = db_settlements d2"
    and "db_settled d' = db_settled d2" and "db_ledgers d' = db_ledgers d2"
    and "map ac_id (db_accounts d') = map ac_id (db_accounts d)"
proof -
  note w = writeAccounts_evolved [OF wr acc wf ev dist]
  obtain evs where d': "d' = d2\<lparr>db_accounts := db_accounts d', db_events := db_events d2 @ evs\<rparr>"
    using w(4) by blast
  have txns: "db_txns d' = db_txns d2" by (subst d') simp
  then show "db_txns d' = db_txns d2" .
  show "db_postings d' = db_postings d2" "db_pending d' = db_pending d2"
    "db_sequence d' = db_sequence d2" "db_holds d' = db_holds d2"
    "db_settlements d' = db_settlements d2" "db_settled d' = db_settled d2"
    "db_ledgers d' = db_ledgers d2"
    by (subst d', simp)+
  show "map ac_id (db_accounts d') = map ac_id (db_accounts d)" by (rule w(2))
  show "extends d2 d'"
    unfolding extends_def
  proof (intro conjI allI impI)
    fix i a assume "account_by d2 i = Some a"
    then have "account_by d i = Some a" using acc by (simp add: account_by_def)
    then show "\<exists>a'. account_by d' i = Some a' \<and> ac_currency a' = ac_currency a \<and> ac_ledger a' = ac_ledger a"
      using w(1) [of i] by (auto simp: write_row_def split: option.splits)
  qed (simp add: txn_by_def txns)
qed

section \<open>A batch\<close>

lemma posts_columns:
  "map snd (posted_columns ts) = concat (map (\<lambda>t. posts (t_status t) (t_postings t)) ts)"
  by (induction ts) (auto simp: posts_def)

lemma pending_rows_append:
  "pending_rows n v (xs @ ys) = pending_rows n v xs @ pending_rows (n + length xs) v ys"
  by (induction xs arbitrary: n) auto

lemma pending_rows_moved:
  "sum_over (\<lambda>p. pe_account p = i \<and> pe_side p = s) pe_amount (pending_rows n v cols) = moved i s (map snd cols)"
  by (induction n v cols rule: pending_rows.induct) auto

lemma pending_rows_same:
  assumes "\<And>t q. (t, q) \<in> set cols \<Longrightarrow>
    \<exists>r. txn_by d t = Some r \<and> (tr_status r = Pending \<and> tr_entriesVersion r = v \<longleftrightarrow> b)"
  shows "sum_over (\<lambda>p. pe_account p = i \<and> pe_side p = s \<and> live d p) pe_amount (pending_rows n v cols)
    = (if b then moved i s (map snd cols) else 0)"
proof -
  have "live d p \<longleftrightarrow> b" if "p \<in> set (pending_rows n v cols)" for p
    using set_pending_rows [OF that] assms by (fastforce simp: live_def)
  then have "sum_over (\<lambda>p. pe_account p = i \<and> pe_side p = s \<and> live d p) pe_amount (pending_rows n v cols)
    = sum_over (\<lambda>p. pe_account p = i \<and> pe_side p = s \<and> b) pe_amount (pending_rows n v cols)"
    by (intro sum_over_cong) auto
  then show ?thesis by (auto simp: pending_rows_moved intro: sum_over_none)
qed

lemma pends_columns:
  assumes "\<And>t. t \<in> set ts \<Longrightarrow> txn_by d (t_id t) = Some (insert_row now t)"
  shows "sum_over (\<lambda>p. pe_account p = i \<and> pe_side p = s \<and> live d p) pe_amount
      (pending_rows n 1 (pending_columns ts)) =
    moved i s (concat (map (\<lambda>t. pends (t_status t) (t_postings t)) ts))"
  using assms
proof (induction ts arbitrary: n)
  case (Cons t ts)
  have "txn_by d (t_id t) = Some (insert_row now t)" using Cons.prems by simp
  then have "sum_over (\<lambda>p. pe_account p = i \<and> pe_side p = s \<and> live d p) pe_amount
      (pending_rows m 1 (entry_columns t)) = (if t_status t = Pending then moved i s (t_postings t) else 0)" for m
    using pending_rows_same [of "entry_columns t" d 1 "t_status t = Pending" i s m]
    by (auto simp: insert_row_def set_entry_columns)
  then show ?case using Cons by (auto simp: pending_rows_append pends_def)
qed simp

text \<open>The rows that were live before a batch are still live, and no others.\<close>

lemma live_old:
  assumes "journal_inv d" "p \<in> set (db_pending d)" "db_txns d' = db_txns d @ rs"
  shows "live d' p = live d p"
proof -
  obtain r where r: "txn_by d (pe_txn p) = Some r"
    using assms(1,2) by (auto simp: journal_inv_def pending_ok_def)
  then have "txn_by d' (pe_txn p) = Some r"
    using assms(3) by (simp add: txn_by_def row_by_append)
  then show ?thesis using r by (simp add: live_def)
qed

lemma txn_row_entries:
  assumes "t \<in> set ts" "t_postings t \<noteq> []" "db_postings d' = ps @ posting_rows n (posted_columns ts)"
    "db_pending d' = qs @ pending_rows m 1 (pending_columns ts)"
  shows "row_entries d' (insert_row now t) \<noteq> []"
proof -
  obtain q where q: "q \<in> set (t_postings t)" using assms(2) by (cases "t_postings t") auto
  show ?thesis
  proof (cases "t_status t = Posted")
    case True
    then have "(t_id t, q) \<in> set (posted_columns ts)" using q assms(1) by (auto simp: set_posted_columns)
    then have "\<exists>p \<in> set (db_postings d'). pr_txn p = t_id t"
      using in_posting_rows [of "t_id t" q _ n] assms(3) by auto
    then show ?thesis using True by (auto simp: row_entries_def insert_row_def filter_empty_conv)
  next
    case False
    then have "(t_id t, q) \<in> set (pending_columns ts)" using q assms(1) by (auto simp: set_pending_columns)
    then have "\<exists>p \<in> set (db_pending d'). pe_txn p = t_id t \<and> pe_version p = 1"
      using in_pending_rows [of "t_id t" q _ m 1] assms(4) by auto
    then show ?thesis using False by (auto simp: row_entries_def insert_row_def filter_empty_conv)
  qed
qed

lemma row_entries_mono:
  assumes "row_entries d r \<noteq> []" "set (db_postings d) \<subseteq> set (db_postings d')"
    "set (db_pending d) \<subseteq> set (db_pending d')"
  shows "row_entries d' r \<noteq> []"
  using assms by (fastforce simp: row_entries_def filter_empty_conv split: if_splits)

lemma appended_row_ok:
  assumes "appended d cols v pcols d'" "txn_row_ok d r"
  shows "txn_row_ok d' r"
proof -
  have "set (db_postings d) \<subseteq> set (db_postings d')" "set (db_pending d) \<subseteq> set (db_pending d')"
    using assms(1) by (auto simp: appended_def)
  then show ?thesis using assms(2) row_entries_mono unfolding txn_row_ok_def by blast
qed

lemma appended_journal:
  assumes ap: "appended d cols v pcols d'" and ex: "extends d d'" and inv: "journal_inv d"
    and ids: "distinct (map tr_id (db_txns d'))" "distinct (map tr_key (db_txns d'))"
    and okP: "entries_ok (map snd cols)" and okQ: "entries_ok (map snd pcols)"
    and P: "\<And>t q. (t, q) \<in> set cols \<Longrightarrow> entry_home d' t (p_account q) (p_currency q) \<and>
      (\<exists>r. txn_by d' t = Some r \<and> tr_status r = Posted)"
    and Q: "\<And>t q. (t, q) \<in> set pcols \<Longrightarrow> entry_home d' t (p_account q) (p_currency q) \<and>
      (\<exists>r. txn_by d' t = Some r \<and> v \<le> tr_entriesVersion r)"
    and rows: "\<And>r. r \<in> set (db_txns d') \<Longrightarrow> txn_row_ok d' r"
  shows "journal_inv d'"
proof -
  have "posting_ok d' p" if p: "p \<in> set (db_postings d')" for p
  proof (cases "p \<in> set (db_postings d)")
    case True
    then show ?thesis using inv extends_posting_ok [OF ex] by (simp add: journal_inv_def)
  next
    case False
    then have "p \<in> set (posting_rows (db_sequence d) cols)" using p ap by (auto simp: appended_def)
    then show ?thesis using posting_rows_ok [OF okP] P by blast
  qed
  moreover have "pending_ok d' p" if p: "p \<in> set (db_pending d')" for p
  proof (cases "p \<in> set (db_pending d)")
    case True
    then show ?thesis using inv extends_pending_ok [OF ex] by (simp add: journal_inv_def)
  next
    case False
    then have "p \<in> set (pending_rows (db_sequence d + length cols) v pcols)" using p ap by (auto simp: appended_def)
    then show ?thesis using pending_rows_ok [OF okQ] Q by blast
  qed
  ultimately show ?thesis using ids rows unfolding journal_inv_def by blast
qed

text \<open>What one \<open>writeBatch\<close> does to the tables.\<close>

lemma writeBatch_tables:
  assumes wb: "writeBatch now ts s d = Inr d'" and wf: "rows_wf d"
    and ev: "state_evolves (lockAccounts d ids) s" and dist: "distinct (map fst (s_accounts s))"
  obtains d2 where "writeAccounts s d2 = Inr d'" "db_accounts d2 = db_accounts d"
    "db_ledgers d2 = db_ledgers d" "extends d d'" "extends (d\<lparr>db_txns := db_txns d'\<rparr>) d'"
    "appended d (posted_columns ts) 1 (pending_columns ts) d'"
    "db_txns d' = db_txns d @ map (insert_row now) ts"
    "entries_check (d\<lparr>db_txns := db_txns d'\<rparr>) (\<lambda>r. tr_status r = Posted) (posted_columns ts) = ok"
    "entries_check (d\<lparr>db_txns := db_txns d'\<rparr>) (\<lambda>r. tr_entriesVersion r = 1 \<and>
      (tr_status r = Pending \<or> tr_status r = Archived \<and> tr_version r = 1)) (pending_columns ts) = ok"
    "distinct (map tr_id (db_txns d)) \<longrightarrow> distinct (map tr_id (db_txns d'))"
    "distinct (map tr_key (db_txns d)) \<longrightarrow> distinct (map tr_key (db_txns d'))"
proof -
  obtain d1 where d1: "insertEntries now ts d = Inr d1"
    and wr: "writeAccounts s (emit (transactionEvents ''transaction.created'' ts) d1) = Inr d'"
    using wb by (auto simp: writeBatch_def)
  let ?d2 = "emit (transactionEvents ''transaction.created'' ts) d1"
  note i = insertEntries_Inr [OF d1]
  have acc: "db_accounts ?d2 = db_accounts d" by (subst i(1)) (simp add: emit_def)
  have led: "db_ledgers ?d2 = db_ledgers d" by (subst i(1)) (simp add: emit_def)
  note w = writeAccounts_extends [OF wr acc wf ev dist]
  have tx: "db_txns d' = db_txns d1" using w(2) by (simp add: emit_def)
  have new: "db_txns d' = db_txns d @ map (insert_row now) ts" unfolding tx by (subst i(1)) simp
  have ap: "appended d (posted_columns ts) 1 (pending_columns ts) d'"
    unfolding appended_def w(3-8) by (subst i(1))+ (simp add: emit_def i(1))
  have "extends (d\<lparr>db_txns := db_txns d'\<rparr>) ?d2"
    unfolding extends_def using acc tx by (simp add: account_by_def txn_by_def emit_def)
  then have ex1: "extends (d\<lparr>db_txns := db_txns d'\<rparr>) d'" using w(1) extends_trans by blast
  have "extends d (d\<lparr>db_txns := db_txns d'\<rparr>)"
    unfolding extends_def new by (auto simp: account_by_def txn_by_def row_by_append)
  then have ex: "extends d d'" using ex1 extends_trans by blast
  show ?thesis
    using that [OF wr acc led ex ex1 ap new] i(2-5) unfolding tx by blast
qed

lemma appended_pending_sum:
  assumes "appended d cols v pcols d'" "\<And>p. p \<in> set (db_pending d) \<Longrightarrow> live d' p = live d p"
  shows "pending_sum d' i s = pending_sum d i s +
    sum_over (\<lambda>p. pe_account p = i \<and> pe_side p = s \<and> live d' p) pe_amount
      (pending_rows (db_sequence d + length cols) v pcols)"
proof -
  have "sum_over (\<lambda>p. pe_account p = i \<and> pe_side p = s \<and> live d' p) pe_amount (db_pending d) = pending_sum d i s"
    unfolding pending_sum_def using assms(2) by (intro sum_over_cong) auto
  then show ?thesis using assms(1) by (simp add: pending_sum_def appended_def)
qed

lemma chained_after:
  assumes wf: "rows_wf d" and inv: "journal_inv d" "books R d"
    and ch: "chained (map_of (s_accounts (lockAccounts d ids))) (map snd cols)" and k: "k < length cols"
  shows "p_balanceAfter (snd (cols ! k)) =
      row_net (p_account (snd (cols ! k))) (db_postings d) +
      (moved (p_account (snd (cols ! k))) Debit (take (Suc k) (map snd cols)) -
       moved (p_account (snd (cols ! k))) Credit (take (Suc k) (map snd cols)))"
proof -
  let ?q = "snd (cols ! k)"
  obtain a where a: "map_of (s_accounts (lockAccounts d ids)) (p_account ?q) = Some a"
    "p_balanceAfter ?q = net_after a (p_account ?q) (take (Suc k) (map snd cols))"
    using ch k unfolding chained_def by auto
  then obtain r where r: "account_by d (p_account ?q) = Some r" "a = locked_state d r"
    unfolding lockAccounts_accounts(1) [OF wf] by (auto split: if_splits)
  have "row_net (p_account ?q) (db_postings d) = ac_postedDebits r - ac_postedCredits r"
    by (rule books_row_net [OF inv r(1)])
  then show ?thesis using a(2) r(2) by (simp add: net_after_def locked_state_def row_state_def)
qed

lemma writeBatch_inv:
  assumes wb: "writeBatch now ts s d = Inr d'" and inv: "db_inv d"
    and ev: "state_evolves (lockAccounts d ids) s" and sinv: "invs (s_accounts s)"
    and mv: "moves (lockAccounts d ids) (concat (map (\<lambda>t. posts (t_status t) (t_postings t)) ts))
       (concat (map (\<lambda>t. pends (t_status t) (t_postings t)) ts)) R s"
    and ch: "chained (map_of (s_accounts (lockAccounts d ids)))
       (concat (map (\<lambda>t. posts (t_status t) (t_postings t)) ts))"
    and txns: "\<forall>t \<in> set ts. txn_ok t"
  shows "db_inv_but R d'"
proof -
  have i: "accounts_inv d" "books [] d" "journal_inv d" "balanced d" "running (db_postings d)"
    "numbered (db_sequence d) (map pr_id (db_postings d))"
    "numbered (db_sequence d) (map pe_id (db_pending d))" "holds_inv d" "settled_inv d"
    using inv unfolding db_inv_def db_inv_but_def by blast+
  have wf: "rows_wf d" using i(1) by (simp add: accounts_inv_def)
  have dist: "distinct (map fst (s_accounts s))" using sinv by (simp add: invs_def accounts_wf_def)
  obtain d2 where d2: "writeAccounts s d2 = Inr d'" "db_accounts d2 = db_accounts d"
    "db_ledgers d2 = db_ledgers d" "extends d d'" "extends (d\<lparr>db_txns := db_txns d'\<rparr>) d'"
    "appended d (posted_columns ts) 1 (pending_columns ts) d'"
    "db_txns d' = db_txns d @ map (insert_row now) ts"
    "entries_check (d\<lparr>db_txns := db_txns d'\<rparr>) (\<lambda>r. tr_status r = Posted) (posted_columns ts) = ok"
    "entries_check (d\<lparr>db_txns := db_txns d'\<rparr>) (\<lambda>r. tr_entriesVersion r = 1 \<and>
      (tr_status r = Pending \<or> tr_status r = Archived \<and> tr_version r = 1)) (pending_columns ts) = ok"
    "distinct (map tr_id (db_txns d)) \<longrightarrow> distinct (map tr_id (db_txns d'))"
    "distinct (map tr_key (db_txns d)) \<longrightarrow> distinct (map tr_key (db_txns d'))"
    using writeBatch_tables [OF wb wf ev dist] .
  let ?P = "map snd (posted_columns ts)"
  have P: "concat (map (\<lambda>t. posts (t_status t) (t_postings t)) ts) = ?P" by (rule posts_columns [symmetric])
  have okP: "entries_ok ?P" and okQ: "entries_ok (map snd (pending_columns ts))"
    using txns by (fastforce simp: entries_ok_def list_all_iff txn_ok_def set_posted_columns set_pending_columns)+
  have home: "entry_home d' t (p_account q) (p_currency q)"
    if "(t, q) \<in> set (posted_columns ts) \<or> (t, q) \<in> set (pending_columns ts)" for t q
    using that entries_checkD(1) [OF d2(8)] entries_checkD(1) [OF d2(9)] extends_home [OF d2(5)] by blast
  have ids: "distinct (map tr_id (db_txns d'))" "distinct (map tr_key (db_txns d'))"
    using d2(10,11) i(3) by (simp_all add: journal_inv_def)
  have fresh: "txn_by d' (t_id t) = Some (insert_row now t)" if "t \<in> set ts" for t
  proof -
    have "insert_row now t \<in> set (db_txns d')" using that d2(7) by simp
    from row_by_in_set [OF ids(1) this] show ?thesis by (simp add: txn_by_def insert_row_def)
  qed
  have acc: "accounts_inv d'" by (rule write_accounts_inv [OF d2(1-3) i(1) ev sinv])
  have journal: "journal_inv d'"
  proof (rule appended_journal [OF d2(6,4) i(3) ids okP okQ])
    show "entry_home d' t (p_account q) (p_currency q) \<and> (\<exists>r. txn_by d' t = Some r \<and> tr_status r = Posted)"
      if "(t, q) \<in> set (posted_columns ts)" for t q
      using that home fresh by (auto simp: set_posted_columns insert_row_def)
    show "entry_home d' t (p_account q) (p_currency q) \<and> (\<exists>r. txn_by d' t = Some r \<and> 1 \<le> tr_entriesVersion r)"
      if "(t, q) \<in> set (pending_columns ts)" for t q
      using that home fresh by (auto simp: set_pending_columns insert_row_def)
    show "txn_row_ok d' r" if r: "r \<in> set (db_txns d')" for r
    proof (cases "r \<in> set (db_txns d)")
      case True
      then show ?thesis using appended_row_ok [OF d2(6)] i(3) by (simp add: journal_inv_def)
    next
      case False
      then obtain t where new: "t \<in> set ts" "r = insert_row now t" using r d2(7) by auto
      then have "txn_ok t" using txns by blast
      moreover have "row_entries d' (insert_row now t) \<noteq> []"
        using txn_row_entries [OF new(1)] d2(6) \<open>txn_ok t\<close> by (auto simp: appended_def txn_ok_def)
      ultimately show ?thesis using new(2) by (simp add: txn_row_ok_def txn_ok_def insert_row_def)
    qed
  qed
  have bal: "balanced d'"
    using appended_balanced [OF d2(6) i(4)] entries_checkD(4) [OF d2(8)] by blast
  have run: "running (db_postings d')"
  proof (rule appended_running [OF d2(6) i(5) okP])
    fix k assume "k < length (posted_columns ts)"
    from chained_after [OF wf i(3,2) ch [unfolded P] this]
    show "p_balanceAfter (snd (posted_columns ts ! k)) =
        row_net (p_account (snd (posted_columns ts ! k))) (db_postings d) +
        (moved (p_account (snd (posted_columns ts ! k))) Debit (take (Suc k) ?P) -
         moved (p_account (snd (posted_columns ts ! k))) Credit (take (Suc k) ?P))" .
  qed
  have books: "books R d'"
    unfolding books_def row_books_def
  proof
    fix r' assume r': "r' \<in> set (db_accounts d')"
    have "account_by d' (ac_id r') = Some r'"
      using r' acc account_by_set unfolding accounts_inv_def by blast
    from write_accounts_totals [OF d2(1,2) wf ev dist mv this]
    obtain r where r: "account_by d (ac_id r') = Some r"
      "ac_postedDebits r' = ac_postedDebits r + moved (ac_id r') Debit ?P"
      "ac_postedCredits r' = ac_postedCredits r + moved (ac_id r') Credit ?P"
      "ac_pendingDebits r' = ac_pendingDebits r +
        moved (ac_id r') Debit (concat (map (\<lambda>t. pends (t_status t) (t_postings t)) ts))"
      "ac_pendingCredits r' = ac_pendingCredits r +
        moved (ac_id r') Credit (concat (map (\<lambda>t. pends (t_status t) (t_postings t)) ts))"
      "ac_held r' = ac_held r - released (ac_id r') R" unfolding P by blast
    have b: "row_books [] d r" "ac_id r = ac_id r'"
      using i(2) account_by_SomeD [OF r(1)] by (simp_all add: books_def)
    have pend: "pending_sum d' j sd = pending_sum d j sd +
        moved j sd (concat (map (\<lambda>t. pends (t_status t) (t_postings t)) ts))" for j sd
      using appended_pending_sum [OF d2(6)] live_old [OF i(3) _ d2(7)] pends_columns fresh by simp
    show "ac_postedDebits r' = posted_sum d' (ac_id r') Debit \<and>
      ac_postedCredits r' = posted_sum d' (ac_id r') Credit \<and>
      ac_pendingDebits r' = pending_sum d' (ac_id r') Debit \<and>
      ac_pendingCredits r' = pending_sum d' (ac_id r') Credit \<and>
      ac_held r' = held_sum d' (ac_id r') - released (ac_id r') R"
      using r b pend appended_posted_sum [OF d2(6)] appended_held_sum [OF d2(6)]
      by (simp add: row_books_def)
  qed
  show ?thesis
    unfolding db_inv_but_def
    using acc books journal bal run appended_numbered [OF d2(6) i(6,7)]
      appended_holds [OF d2(6,4) i(8)] appended_settled [OF d2(6) i(9)] by blast
qed

text \<open>A batch of posting requests keeps the invariant; the funds it released are to be accounted
  for by the holds that the caller resolves.\<close>

lemma releases_by_none:
  assumes "concat (map accepted_txn rs) = []"
  shows "releases_by reqs rs = []"
proof -
  have "taken_by q r = []" if "(q, r) \<in> set (zip reqs rs)" for q r
  proof -
    have "r \<in> set rs" using that by (rule set_zip_rightD)
    then have "accepted_txn r = []" using assms by auto
    then show ?thesis using accepted_nil_by by blast
  qed
  then show ?thesis by (auto simp: releases_by_def)
qed

lemma applyRequests_inv:
  assumes ap: "applyRequests d now fresh reqs atomic = Applied rs d'" and inv: "db_inv d"
    and reqs: "\<forall>req \<in> set reqs. request_ok req"
  shows "db_inv_but (releases_by reqs rs) d'"
proof -
  have "accounts_inv d" using inv unfolding db_inv_def db_inv_but_def by blast
  then have locked: "invs (s_accounts (lockAccounts d (concat (map request_accounts reqs))))"
    by (rule locked_invs)
  from ap locked reqs show ?thesis
  proof (cases rule: applyRequests_Applied)
    case nothing
    then show ?thesis using inv releases_by_none by (simp add: db_inv_def)
  next
    case (batch s)
    show ?thesis
      by (rule writeBatch_inv [OF batch(1) inv batch(3,2)])
        (use batch in \<open>simp_all add: posted_by_def pended_by_def\<close>)
  qed
qed

end
