(* ===== verification/Verify.thy ===== *)
theory Verify
  imports Journal
begin

text \<open>
  \<^verbatim>\<open>verify.go\<close>: the integrity checks that compare every total the service keeps with the rows it
  is made of. Each check is the list of the rows its query returns; an issue keeps the values that
  the query formats. The lemmas say what an empty report means, and that the invariant of the
  database implies an empty report.
\<close>

datatype issue =
    UnbalancedCurrency string int
  | EmptyTransaction uuid txn_status
  | JournalStatus uuid txn_status
  | PostedTotals uuid int int int int
  | PendingTotals uuid int int int int
  | HeldFunds uuid int int
  | SettlementNet uuid int
  | RunningBalance uuid int int

definition trial_balance :: "db \<Rightarrow> issue list" where
  "trial_balance d =
     map (\<lambda>(c, t). UnbalancedCurrency c t)
       (filter (\<lambda>(c, t). t \<noteq> 0)
         (map (\<lambda>c. (c, sum_over (\<lambda>p. pr_currency p = c) signed_row (db_postings d)))
           (remdups (map pr_currency (db_postings d)))))"

definition empty_transactions :: "db \<Rightarrow> issue list" where
  "empty_transactions d =
     map (\<lambda>r. EmptyTransaction (tr_id r) (tr_status r))
       (filter (\<lambda>r. \<not> list_ex (\<lambda>p. pr_txn p = tr_id r) (db_postings d) \<and>
                    \<not> list_ex (\<lambda>e. pe_txn e = tr_id r \<and> pe_version e = tr_entriesVersion r) (db_pending d))
         (db_txns d))"

definition journal_status :: "db \<Rightarrow> issue list" where
  "journal_status d =
     map (\<lambda>r. JournalStatus (tr_id r) (tr_status r))
       (filter (\<lambda>r. tr_status r \<noteq> Posted \<and> list_ex (\<lambda>p. pr_txn p = tr_id r) (db_postings d)) (db_txns d))"

definition posted_totals :: "db \<Rightarrow> issue list" where
  "posted_totals d =
     map (\<lambda>a. PostedTotals (ac_id a) (ac_postedDebits a) (ac_postedCredits a)
               (posted_sum d (ac_id a) Debit) (posted_sum d (ac_id a) Credit))
       (filter (\<lambda>a. ac_postedDebits a \<noteq> posted_sum d (ac_id a) Debit \<or>
                    ac_postedCredits a \<noteq> posted_sum d (ac_id a) Credit) (db_accounts d))"

definition pending_totals :: "db \<Rightarrow> issue list" where
  "pending_totals d =
     map (\<lambda>a. PendingTotals (ac_id a) (ac_pendingDebits a) (ac_pendingCredits a)
               (pending_sum d (ac_id a) Debit) (pending_sum d (ac_id a) Credit))
       (filter (\<lambda>a. ac_pendingDebits a \<noteq> pending_sum d (ac_id a) Debit \<or>
                    ac_pendingCredits a \<noteq> pending_sum d (ac_id a) Credit) (db_accounts d))"

definition held_funds :: "db \<Rightarrow> issue list" where
  "held_funds d =
     map (\<lambda>a. HeldFunds (ac_id a) (ac_held a) (held_sum d (ac_id a)))
       (filter (\<lambda>a. ac_held a \<noteq> held_sum d (ac_id a)) (db_accounts d))"

definition settlement_nets :: "db \<Rightarrow> issue list" where
  "settlement_nets d =
     map (\<lambda>s. SettlementNet (st_id s) (settled_net d (st_id s)))
       (filter (\<lambda>s. settled_net d (st_id s) \<noteq> 0) (db_settlements d))"

text \<open>The last posting of an account by id.\<close>

definition last_posting :: "db \<Rightarrow> uuid \<Rightarrow> posting_row option" where
  "last_posting d i =
     (case rev (sort_key pr_id (filter (\<lambda>p. pr_account p = i) (db_postings d))) of
        [] \<Rightarrow> None | p # _ \<Rightarrow> Some p)"

definition running_balance :: "db \<Rightarrow> issue list" where
  "running_balance d =
     concat (map (\<lambda>a. case last_posting d (ac_id a) of
         None \<Rightarrow> []
       | Some p \<Rightarrow> if pr_after p \<noteq> ac_postedDebits a - ac_postedCredits a
           then [RunningBalance (ac_id a) (pr_after p) (ac_postedDebits a - ac_postedCredits a)] else [])
       (db_accounts d))"

definition integrity_issues :: "db \<Rightarrow> issue list" where
  "integrity_issues d =
     concat (map (\<lambda>check. check d)
       [trial_balance, empty_transactions, journal_status, posted_totals, pending_totals, held_funds,
        settlement_nets, running_balance])"

section \<open>What an empty report means\<close>

lemma trial_balance_iff:
  "trial_balance d = [] \<longleftrightarrow> (\<forall>c. sum_over (\<lambda>p. pr_currency p = c) signed_row (db_postings d) = 0)"
proof -
  have "sum_over (\<lambda>p. pr_currency p = c) signed_row (db_postings d) = 0"
    if "c \<notin> set (map pr_currency (db_postings d))" for c
    using that by (intro sum_over_none) auto
  then have "(\<forall>c \<in> set (map pr_currency (db_postings d)). sum_over (\<lambda>p. pr_currency p = c) signed_row (db_postings d) = 0)
      \<longleftrightarrow> (\<forall>c. sum_over (\<lambda>p. pr_currency p = c) signed_row (db_postings d) = 0)" by blast
  then show ?thesis by (simp add: trial_balance_def filter_empty_conv)
qed

lemma empty_transactions_iff:
  "empty_transactions d = [] \<longleftrightarrow>
    (\<forall>r \<in> set (db_txns d). (\<exists>p \<in> set (db_postings d). pr_txn p = tr_id r) \<or>
      (\<exists>e \<in> set (db_pending d). pe_txn e = tr_id r \<and> pe_version e = tr_entriesVersion r))"
  by (auto simp: empty_transactions_def filter_empty_conv list_ex_iff)

lemma journal_status_iff:
  "journal_status d = [] \<longleftrightarrow>
    (\<forall>r \<in> set (db_txns d). tr_status r \<noteq> Posted \<longrightarrow> (\<forall>p \<in> set (db_postings d). pr_txn p \<noteq> tr_id r))"
  by (auto simp: journal_status_def filter_empty_conv list_ex_iff)

lemma totals_iff:
  "posted_totals d = [] \<and> pending_totals d = [] \<and> held_funds d = [] \<longleftrightarrow> books [] d"
  by (auto simp: posted_totals_def pending_totals_def held_funds_def books_def row_books_def
      filter_empty_conv released_def)

lemma settlement_nets_iff:
  "settlement_nets d = [] \<longleftrightarrow> (\<forall>s \<in> set (db_settlements d). settled_net d (st_id s) = 0)"
  by (auto simp: settlement_nets_def filter_empty_conv)

lemma running_balance_iff:
  "running_balance d = [] \<longleftrightarrow> (\<forall>a \<in> set (db_accounts d). \<forall>p. last_posting d (ac_id a) = Some p \<longrightarrow>
     pr_after p = ac_postedDebits a - ac_postedCredits a)"
  by (auto simp: running_balance_def split: option.splits)

lemma integrity_issues_Nil:
  "integrity_issues d = [] \<longleftrightarrow> trial_balance d = [] \<and> empty_transactions d = [] \<and> journal_status d = [] \<and>
    (posted_totals d = [] \<and> pending_totals d = [] \<and> held_funds d = []) \<and> settlement_nets d = [] \<and>
    running_balance d = []"
  by (auto simp: integrity_issues_def)

section \<open>The invariant implies an empty report\<close>

lemma sum_over_partition:
  assumes "finite K" "\<And>r. r \<in> set rs \<Longrightarrow> p r \<Longrightarrow> key r \<in> K"
  shows "sum_over p f rs = (\<Sum>k\<in>K. sum_over (\<lambda>r. key r = k \<and> p r) f rs)"
  using assms(2)
proof (induction rs)
  case (Cons r rs)
  have "(\<Sum>k\<in>K. if key r = k \<and> p r then f r else 0) = (if p r then f r else 0)"
    using Cons.prems [of r] assms(1) by (cases "p r") (simp_all add: sum.delta')
  then show ?case using Cons by (simp add: sum.distrib)
qed simp

lemma balanced_currency:
  assumes "balanced d"
  shows "sum_over (\<lambda>p. pr_currency p = c) signed_row (db_postings d) = 0"
proof -
  have "sum_over (\<lambda>p. pr_currency p = c) signed_row (db_postings d)
      = (\<Sum>t\<in>pr_txn ` set (db_postings d).
          sum_over (\<lambda>p. pr_txn p = t \<and> pr_currency p = c) signed_row (db_postings d))"
    by (rule sum_over_partition) auto
  then show ?thesis using assms by (simp add: balanced_def)
qed

lemma sorted_filter_ids:
  "sorted_wrt (<) (map pr_id ps) \<Longrightarrow> sort_key pr_id (filter q ps) = filter q ps"
proof (rule sort_key_id_if_sorted)
  assume s: "sorted_wrt (<) (map pr_id ps)"
  then show "sorted (map pr_id (filter q ps))"
    by (induction ps) (auto simp: less_imp_le)
qed

lemma running_last:
  assumes "running ps" "p \<in> set ps" "filter (\<lambda>x. pr_account x = pr_account p) ps = us @ [p]"
  shows "pr_after p = row_net (pr_account p) ps"
  using assms
proof (induction ps rule: rev_induct)
  case (snoc q ps)
  show ?case
  proof (cases "pr_account q = pr_account p")
    case True
    then have "q = p" using snoc.prems(3) by simp
    then show ?thesis
      using snoc.prems(1) by (auto simp: running_def dest!: spec [of _ "length ps"])
  next
    case False
    have "running ps"
      unfolding running_def
    proof (intro allI impI)
      fix k assume k: "k < length ps"
      then have "pr_after ((ps @ [q]) ! k) = row_net (pr_account ((ps @ [q]) ! k)) (take (Suc k) (ps @ [q]))"
        using snoc.prems(1) unfolding running_def by (auto simp: row_net_def)
      then show "pr_after (ps ! k) = row_net (pr_account (ps ! k)) (take (Suc k) ps)"
        using k by (simp add: nth_append row_net_def)
    qed
    then have "pr_after p = row_net (pr_account p) ps" using snoc False by auto
    then show ?thesis using False by (simp add: row_net_def)
  qed
qed simp

lemma last_posting_net:
  assumes "running (db_postings d)" "numbered n (map pr_id (db_postings d))" "last_posting d i = Some p"
  shows "pr_after p = row_net i (db_postings d)"
proof -
  let ?ps = "filter (\<lambda>x. pr_account x = i) (db_postings d)"
  have "sort_key pr_id ?ps = ?ps"
    by (rule sorted_filter_ids) (use assms(2) in \<open>simp add: numbered_def\<close>)
  then obtain us where us: "?ps = us @ [p]"
    using assms(3) by (auto simp: last_posting_def split: list.splits)
  have "p \<in> set ?ps" unfolding us by simp
  then have p: "p \<in> set (db_postings d)" "pr_account p = i" by auto
  then show ?thesis using running_last [OF assms(1) p(1)] us by simp
qed

lemma db_inv_no_issues:
  assumes "db_inv d"
  shows "integrity_issues d = []"
proof -
  have i: "accounts_inv d" "books [] d" "journal_inv d" "balanced d" "running (db_postings d)"
    "numbered (db_sequence d) (map pr_id (db_postings d))" "settled_inv d"
    using assms unfolding db_inv_def db_inv_but_def by blast+
  have "empty_transactions d = []"
    unfolding empty_transactions_iff
  proof
    fix r assume "r \<in> set (db_txns d)"
    then have "row_entries d r \<noteq> []" using i(3) by (simp add: journal_inv_def txn_row_ok_def)
    then show "(\<exists>p \<in> set (db_postings d). pr_txn p = tr_id r) \<or>
      (\<exists>e \<in> set (db_pending d). pe_txn e = tr_id r \<and> pe_version e = tr_entriesVersion r)"
      by (auto simp: row_entries_def filter_empty_conv split: if_splits)
  qed
  moreover have "journal_status d = []"
    unfolding journal_status_iff
  proof (intro ballI impI notI)
    fix r p assume r: "r \<in> set (db_txns d)" "tr_status r \<noteq> Posted" and p: "p \<in> set (db_postings d)" "pr_txn p = tr_id r"
    have "txn_by d (tr_id r) = Some r"
      using r(1) i(3) row_by_in_set by (auto simp: txn_by_def journal_inv_def)
    then show False using p r(2) i(3) by (auto simp: journal_inv_def posting_ok_def)
  qed
  moreover have "running_balance d = []"
    unfolding running_balance_iff
  proof (intro ballI allI impI)
    fix a p assume a: "a \<in> set (db_accounts d)" and p: "last_posting d (ac_id a) = Some p"
    have "account_by d (ac_id a) = Some a" using account_by_set a i(1) by (simp add: accounts_inv_def)
    then show "pr_after p = ac_postedDebits a - ac_postedCredits a"
      using last_posting_net [OF i(5,6) p] books_row_net [OF i(3,2)] by simp
  qed
  moreover have "trial_balance d = []"
    using balanced_currency [OF i(4)] by (simp add: trial_balance_iff)
  moreover have "settlement_nets d = []"
    using i(7) by (simp add: settlement_nets_iff settled_inv_def)
  ultimately show ?thesis using totals_iff i(2) unfolding integrity_issues_Nil by blast
qed

end
