(* ===== verification/TypeID.thy ===== *)
theory TypeID
  imports Prelude "HOL-Library.Word"
begin

text \<open>
  \<^verbatim>\<open>kernel/typeid/typeid.go\<close>: the text of an id is its prefix, an underscore, and the 128 bits of the
  UUID with two zero bits in front, five bits to a character of a base-32 alphabet. A UUID is the list
  of its sixteen bytes. The lemmas read both directions as statements about single bits.
\<close>

unbundle bit_operations_syntax

type_synonym byte = "8 word"
type_synonym uuid_bytes = "byte list"

definition alphabet :: string where
  "alphabet = ''0123456789abcdefghjkmnpqrstvwxyz''"

definition suffixLen :: nat where
  "suffixLen = 26"

section \<open>Bits of a UUID\<close>

definition bit_at :: "uuid_bytes \<Rightarrow> nat \<Rightarrow> bool" where
  "bit_at ident k \<longleftrightarrow> ident ! (k div 8) AND drop_bit (k mod 8) 0x80 \<noteq> 0"

definition set_bit_at :: "nat \<Rightarrow> uuid_bytes \<Rightarrow> uuid_bytes" where
  "set_bit_at k ident = ident[k div 8 := ident ! (k div 8) OR drop_bit (k mod 8) 0x80]"

section \<open>Encoding\<close>

text \<open>The inner loop: \<^verbatim>\<open>bit := 5*i + b - 2\<close> is negative for the first two bits of the first
  character.\<close>

definition encode_bit :: "uuid_bytes \<Rightarrow> nat \<Rightarrow> nat \<Rightarrow> byte \<Rightarrow> byte" where
  "encode_bit ident i b v =
     (let v = push_bit 1 v
      in if 5 * i + b \<ge> 2 \<and> bit_at ident (5 * i + b - 2) then v OR 1 else v)"

definition encode_char :: "uuid_bytes \<Rightarrow> nat \<Rightarrow> byte" where
  "encode_char ident i = fold (encode_bit ident i) [0..<5] 0"

definition encodeID :: "string \<Rightarrow> uuid_bytes \<Rightarrow> string" where
  "encodeID prefix ident =
     prefix @ ''_'' @ map (\<lambda>i. alphabet ! unat (encode_char ident i)) [0..<suffixLen]"

section \<open>Parsing\<close>

text \<open>\<^verbatim>\<open>decodeTable\<close> maps every byte outside the alphabet to \<^verbatim>\<open>0xff\<close>.\<close>

fun index_from :: "nat \<Rightarrow> string \<Rightarrow> char \<Rightarrow> byte" where
  "index_from n [] c = 0xff"
| "index_from n (x # xs) c = (if x = c then of_nat n else index_from (Suc n) xs c)"

definition decodeTable :: "char \<Rightarrow> byte" where
  "decodeTable = index_from 0 alphabet"

definition cutPrefix :: "string \<Rightarrow> string \<Rightarrow> string option" where
  "cutPrefix s p = (if take (length p) s = p then Some (drop (length p) s) else None)"

definition parse_bit :: "byte \<Rightarrow> nat \<Rightarrow> nat \<Rightarrow> uuid_bytes \<Rightarrow> uuid_bytes" where
  "parse_bit v i b ident =
     (if 5 * i + b \<ge> 2 \<and> v AND drop_bit b 0x10 \<noteq> 0 then set_bit_at (5 * i + b - 2) ident else ident)"

fun parse_chars :: "nat \<Rightarrow> string \<Rightarrow> uuid_bytes \<Rightarrow> uuid_bytes res" where
  "parse_chars i [] ident = Inr ident"
| "parse_chars i (c # cs) ident =
     (let v = decodeTable c
      in if v = 0xff then Inl ErrInvalid
         else parse_chars (Suc i) cs (fold (parse_bit v i) [0..<5] ident))"

definition parseID :: "string \<Rightarrow> string \<Rightarrow> uuid_bytes res" where
  "parseID prefix s =
     (case cutPrefix s (prefix @ ''_'') of
        None \<Rightarrow> Inl ErrInvalid
      | Some suffix \<Rightarrow>
          if length suffix \<noteq> suffixLen \<or> of_char (suffix ! 0) > (of_char (CHR ''7'') :: nat) then Inl ErrInvalid
          else parse_chars 0 suffix (replicate 16 0))"

section \<open>Single bits\<close>

lemma byte_zero_iff: "(w :: byte) = 0 \<longleftrightarrow> (\<forall>n<8. \<not> bit w n)"
  by (auto intro: bit_word_eqI)

lemma mask_bit:
  assumes "k < 8"
  shows "bit (drop_bit k (0x80 :: byte)) n \<longleftrightarrow> n = 7 - k"
proof -
  have "bit ((2 :: byte) ^ 7) (k + n) \<longleftrightarrow> k + n = 7"
    by (simp only: bit_exp_iff) auto
  then have "bit (0x80 :: byte) (k + n) \<longleftrightarrow> k + n = 7" by simp
  then show ?thesis using assms by (auto simp only: bit_drop_bit_eq comp_def)
qed

lemma bit_at_bit: "bit_at ident k \<longleftrightarrow> bit (ident ! (k div 8)) (7 - k mod 8)"
  by (auto simp: bit_at_def byte_zero_iff bit_and_iff mask_bit)

lemma bit_at_set:
  assumes "length ident = 16" "k < 128" "j < 128"
  shows "bit_at (set_bit_at k ident) j \<longleftrightarrow> j = k \<or> bit_at ident j"
proof -
  have "j = k \<longleftrightarrow> j div 8 = k div 8 \<and> 7 - j mod 8 = 7 - k mod 8"
  proof
    assume "j div 8 = k div 8 \<and> 7 - j mod 8 = 7 - k mod 8"
    then have "j div 8 = k div 8" "j mod 8 = k mod 8"
      using mod_less_divisor [of 8 j] mod_less_divisor [of 8 k] by linarith+
    then show "j = k" by (metis div_mult_mod_eq)
  qed simp
  then show ?thesis
    using assms
    by (cases "j div 8 = k div 8") (auto simp: bit_at_bit set_bit_at_def bit_or_iff mask_bit)
qed

lemma length_set_bit [simp]: "length (set_bit_at k ident) = length ident"
  by (simp add: set_bit_at_def)

lemma bytes_eqI:
  assumes "length x = 16" "length y = 16" "\<And>j. j < 128 \<Longrightarrow> bit_at x j = bit_at y j"
  shows "x = y"
proof (rule nth_equalityI)
  fix i assume i: "i < length x"
  show "x ! i = y ! i"
  proof (rule bit_word_eqI)
    fix n assume n: "n < LENGTH(8)"
    define b where "b = 7 - n"
    have b: "b < 8" "7 - b = n" using n by (auto simp: b_def)
    let ?j = "8 * i + b"
    have "?j div 8 = i" "?j mod 8 = b" "?j < 128" using b i assms(1) by simp_all
    then show "bit (x ! i) n = bit (y ! i) n" using assms(3) [of ?j] b by (simp add: bit_at_bit)
  qed
qed (use assms in simp)

section \<open>The characters\<close>

lemma encode_bits:
  "m \<le> 8 \<Longrightarrow> bit (fold (encode_bit ident i) [0..<m] 0) n \<longleftrightarrow>
     n < m \<and> 5 * i + (m - 1 - n) \<ge> 2 \<and> bit_at ident (5 * i + (m - 1 - n) - 2)"
proof (induction m arbitrary: n)
  case (Suc m)
  let ?v = "fold (encode_bit ident i) [0..<m] 0"
  have step: "bit (encode_bit ident i m v) n \<longleftrightarrow>
      0 < n \<and> n < 8 \<and> bit v (n - 1) \<or> n = 0 \<and> 5 * i + m \<ge> 2 \<and> bit_at ident (5 * i + m - 2)" for v n
  proof -
    have "bit (push_bit 1 v) n \<longleftrightarrow> 0 < n \<and> n < 8 \<and> bit v (n - 1)"
      by (simp only: bit_push_bit_iff) auto
    then show ?thesis
      unfolding encode_bit_def Let_def by (auto simp only: bit_or_iff bit_1_iff split: if_splits)
  qed
  show ?case
  proof (cases n)
    case 0
    then show ?thesis by (simp add: step)
  next
    case (Suc k)
    have "bit ?v k \<longleftrightarrow> k < m \<and> 5 * i + (m - 1 - k) \<ge> 2 \<and> bit_at ident (5 * i + (m - 1 - k) - 2)"
      using Suc.IH Suc.prems by simp
    then show ?thesis using Suc.prems Suc by (auto simp: step)
  qed
qed simp

lemma encode_char_bit:
  "bit (encode_char ident i) n \<longleftrightarrow> n < 5 \<and> 5 * i + (4 - n) \<ge> 2 \<and> bit_at ident (5 * i + (4 - n) - 2)"
  unfolding encode_char_def by (subst encode_bits) auto

lemma byte_below:
  assumes "\<And>n. m \<le> n \<Longrightarrow> \<not> bit (v :: byte) n"
  shows "unat v < 2 ^ m"
proof -
  have "take_bit m v = v"
  proof (rule bit_word_eqI)
    show "bit (take_bit m v) n = bit v n" for n using assms [of n] by (cases "n < m") (simp_all add: bit_take_bit_iff)
  qed
  then show ?thesis by (metis take_bit_nat_less_exp unsigned_take_bit_eq)
qed

lemma decode_all: "list_all (\<lambda>n. decodeTable (alphabet ! n) = of_nat n) [0..<32]"
  by code_simp

lemma decode_alphabet: "unat v < 32 \<Longrightarrow> decodeTable (alphabet ! unat v) = v"
  using decode_all by (simp add: list_all_iff)

lemma index_from_found:
  "index_from n xs c = 0xff \<or> (\<exists>k<length xs. xs ! k = c \<and> index_from n xs c = of_nat (n + k))"
proof (induction xs arbitrary: n)
  case (Cons x xs)
  show ?case
  proof (cases "x = c")
    case False
    from Cons.IH [of "Suc n"] show ?thesis
    proof
      assume "\<exists>k<length xs. xs ! k = c \<and> index_from (Suc n) xs c = of_nat (Suc n + k)"
      then obtain k where k: "k < length xs" "xs ! k = c" "index_from (Suc n) xs c = of_nat (Suc n + k)" by blast
      then have "Suc k < length (x # xs)" "(x # xs) ! Suc k = c" "index_from n (x # xs) c = of_nat (n + Suc k)"
        using False by simp_all
      then show ?thesis by blast
    qed (use False in simp)
  qed auto
qed simp

lemma decode_found:
  assumes "decodeTable c \<noteq> 0xff"
  shows "unat (decodeTable c) < 32" "alphabet ! unat (decodeTable c) = c"
proof -
  obtain k where k: "k < length alphabet" "alphabet ! k = c" "decodeTable c = of_nat k"
    using index_from_found [of 0 alphabet c] assms by (auto simp: decodeTable_def)
  have "length alphabet = 32" by (simp add: alphabet_def)
  then have "unat (of_nat k :: byte) = k" using k(1) by (simp add: unat_of_nat)
  then show "unat (decodeTable c) < 32" "alphabet ! unat (decodeTable c) = c"
    using k \<open>length alphabet = 32\<close> by simp_all
qed

section \<open>The loops of the parser\<close>

lemma five_mask: "b < 5 \<Longrightarrow> v AND drop_bit b 0x10 \<noteq> 0 \<longleftrightarrow> bit (v :: byte) (4 - b)"
proof -
  assume b: "b < 5"
  have "bit (drop_bit b (0x10 :: byte)) n \<longleftrightarrow> n = 4 - b" for n
  proof -
    have "bit ((2 :: byte) ^ 4) (b + n) \<longleftrightarrow> b + n = 4" by (simp only: bit_exp_iff) auto
    then have "bit (0x10 :: byte) (b + n) \<longleftrightarrow> b + n = 4" by simp
    then show ?thesis using b by (auto simp only: bit_drop_bit_eq comp_def)
  qed
  then show ?thesis using b by (auto simp: byte_zero_iff bit_and_iff)
qed

lemma parse_bits:
  assumes "length ident = 16" "i < 26" "m \<le> 5" "j < 128"
  shows "(bit_at (fold (parse_bit v i) [0..<m] ident) j \<longleftrightarrow>
    bit_at ident j \<or> (\<exists>b<m. 5 * i + b = j + 2 \<and> bit v (4 - b))) \<and>
    length (fold (parse_bit v i) [0..<m] ident) = 16"
  using assms(3)
proof (induction m)
  case (Suc m)
  let ?x = "fold (parse_bit v i) [0..<m] ident"
  have IH: "bit_at ?x j \<longleftrightarrow> bit_at ident j \<or> (\<exists>b<m. 5 * i + b = j + 2 \<and> bit v (4 - b))" "length ?x = 16"
    using Suc.IH Suc.prems by simp_all
  have "length (fold (parse_bit v i) [0..<Suc m] ident) = 16"
    using IH(2) by (simp add: parse_bit_def)
  moreover have lt: "5 * i + m - 2 < 128" using Suc.prems assms(2) by simp
  have "bit_at (parse_bit v i m ?x) j \<longleftrightarrow> bit_at ?x j \<or> 5 * i + m = j + 2 \<and> bit v (4 - m)"
    using Suc.prems bit_at_set [OF IH(2) lt assms(4)] five_mask [of m v]
    by (auto simp: parse_bit_def)
  then have "bit_at (fold (parse_bit v i) [0..<Suc m] ident) j \<longleftrightarrow>
    bit_at ident j \<or> (\<exists>b<Suc m. 5 * i + b = j + 2 \<and> bit v (4 - b))"
    using IH(1) by (auto simp: less_Suc_eq)
  ultimately show ?case by blast
qed (use assms(1) in simp_all)

lemma parse_chars_Inr:
  assumes "length ident = 16" "i + length cs \<le> 26" "parse_chars i cs ident = Inr out"
  shows "length out = 16 \<and> (\<forall>c \<in> set cs. decodeTable c \<noteq> 0xff) \<and>
    (\<forall>j<128. bit_at out j \<longleftrightarrow> bit_at ident j \<or>
      (\<exists>k<length cs. \<exists>b<5. 5 * (i + k) + b = j + 2 \<and> bit (decodeTable (cs ! k)) (4 - b)))"
  using assms
proof (induction cs arbitrary: i ident)
  case (Cons c cs)
  let ?x = "fold (parse_bit (decodeTable c) i) [0..<5] ident"
  have i: "i < 26" using Cons.prems(2) by simp
  have len: "length ?x = 16" using parse_bits [OF Cons.prems(1) i, of 5 0] by simp
  have rest: "parse_chars (Suc i) cs ?x = Inr out" "decodeTable c \<noteq> 0xff"
    using Cons.prems(3) by (auto simp: Let_def split: if_splits)
  note IH = Cons.IH [OF len _ rest(1)]
  have ex: "(\<exists>k<length (c # cs). \<exists>b<5. 5 * (i + k) + b = j + 2 \<and> bit (decodeTable ((c # cs) ! k)) (4 - b)) \<longleftrightarrow>
      (\<exists>b<5. 5 * i + b = j + 2 \<and> bit (decodeTable c) (4 - b)) \<or>
      (\<exists>k<length cs. \<exists>b<5. 5 * (Suc i + k) + b = j + 2 \<and> bit (decodeTable (cs ! k)) (4 - b))" for j
    by (simp add: Ex_less_Suc2)
  show ?case
    using IH Cons.prems(2) rest(2) parse_bits [OF Cons.prems(1) i, of 5] ex by auto
qed auto

lemma parse_chars_total:
  "\<forall>c \<in> set cs. decodeTable c \<noteq> 0xff \<Longrightarrow> \<exists>out. parse_chars i cs ident = Inr out"
  by (induction cs arbitrary: i ident) (auto simp: Let_def)

lemma parse_all_bits:
  assumes "length cs = 26" "parse_chars 0 cs (replicate 16 0) = Inr out" "j < 128"
  shows "bit_at out j \<longleftrightarrow> bit (decodeTable (cs ! ((j + 2) div 5))) (4 - (j + 2) mod 5)"
proof -
  have z: "\<not> bit_at (replicate 16 0) j" using assms(3) by (simp add: bit_at_bit)
  have "bit_at out j \<longleftrightarrow> (\<exists>k<26. \<exists>b<5. 5 * k + b = j + 2 \<and> bit (decodeTable (cs ! k)) (4 - b))"
    using parse_chars_Inr [OF _ _ assms(2)] assms(1,3) z by simp
  also have "\<dots> \<longleftrightarrow> bit (decodeTable (cs ! ((j + 2) div 5))) (4 - (j + 2) mod 5)"
  proof
    assume "bit (decodeTable (cs ! ((j + 2) div 5))) (4 - (j + 2) mod 5)"
    moreover have "(j + 2) div 5 < 26" "(j + 2) mod 5 < 5" "5 * ((j + 2) div 5) + (j + 2) mod 5 = j + 2"
      using assms(3) by auto
    ultimately show "\<exists>k<26. \<exists>b<5. 5 * k + b = j + 2 \<and> bit (decodeTable (cs ! k)) (4 - b)" by blast
  next
    assume "\<exists>k<26. \<exists>b<5. 5 * k + b = j + 2 \<and> bit (decodeTable (cs ! k)) (4 - b)"
    then obtain k b where kb: "b < 5" "5 * k + b = j + 2" "bit (decodeTable (cs ! k)) (4 - b)" by blast
    have "(j + 2) div 5 = k" "(j + 2) mod 5 = b" using kb(1) unfolding kb(2) [symmetric] by auto
    then show "bit (decodeTable (cs ! ((j + 2) div 5))) (4 - (j + 2) mod 5)" using kb(3) by simp
  qed
  finally show ?thesis .
qed

section \<open>Properties\<close>

lemma encode_char_small: "unat (encode_char ident i) < 32"
  using byte_below [of 5 "encode_char ident i"] by (simp add: encode_char_bit)

lemma encode_char_first: "unat (encode_char ident 0) < 8"
proof -
  have top: "3 \<le> n \<Longrightarrow> \<not> bit (encode_char ident 0) n" for n by (auto simp: encode_char_bit)
  have "unat (encode_char ident 0) < 2 ^ 3" by (rule byte_below) (rule top)
  then show ?thesis by simp
qed

lemma first_char: "n < 32 \<Longrightarrow> (of_char (alphabet ! n) :: nat) > of_char (CHR ''7'') \<longleftrightarrow> n \<ge> 8"
proof -
  have "list_all (\<lambda>n. ((of_char (alphabet ! n) :: nat) > of_char (CHR ''7'')) = (n \<ge> 8)) [0..<32]"
    by code_simp
  then show "n < 32 \<Longrightarrow> (of_char (alphabet ! n) :: nat) > of_char (CHR ''7'') \<longleftrightarrow> n \<ge> 8"
    by (simp add: list_all_iff)
qed

lemma cutPrefix_append [simp]: "cutPrefix (p @ s) p = Some s"
  by (simp add: cutPrefix_def)

lemma cutPrefix_Some: "cutPrefix s p = Some r \<longleftrightarrow> s = p @ r"
  by (auto simp: cutPrefix_def split: if_splits) (metis append_take_drop_id)

lemma parse_encode:
  assumes "length ident = 16"
  shows "parseID prefix (encodeID prefix ident) = Inr ident"
proof -
  let ?cs = "map (\<lambda>i. alphabet ! unat (encode_char ident i)) [0..<26]"
  have dec: "decodeTable (?cs ! k) = encode_char ident k" if "k < 26" for k
    using that decode_alphabet [OF encode_char_small] by simp
  have "decodeTable c \<noteq> 0xff" if "c \<in> set ?cs" for c
  proof -
    obtain k where "k < length ?cs" "?cs ! k = c" using \<open>c \<in> set ?cs\<close> by (metis in_set_conv_nth)
    then have "unat (decodeTable c) < 32" using dec [of k] encode_char_small by fastforce
    then show ?thesis by auto
  qed
  then obtain out where out: "parse_chars 0 ?cs (replicate 16 0) = Inr out" using parse_chars_total by blast
  have "bit_at out j = bit_at ident j" if "j < 128" for j
  proof -
    have "(j + 2) div 5 < 26" "5 * ((j + 2) div 5) + (j + 2) mod 5 = j + 2" "(j + 2) mod 5 < 5" using that by auto
    then show ?thesis
      using parse_all_bits [OF _ out that] dec [of "(j + 2) div 5"] by (auto simp: encode_char_bit simp del: nth_map)
  qed
  moreover have "length out = 16" using parse_chars_Inr [OF _ _ out] by simp
  ultimately have "out = ident" using bytes_eqI assms by blast
  moreover have "\<not> (of_char (?cs ! 0) :: nat) > of_char (CHR ''7'')"
    using first_char [OF encode_char_small] encode_char_first [of ident] by simp
  moreover have "cutPrefix (encodeID prefix ident) (prefix @ ''_'') = Some ?cs"
    by (simp add: cutPrefix_Some encodeID_def suffixLen_def)
  ultimately show ?thesis using out by (simp add: parseID_def suffixLen_def)
qed

lemma encode_parse:
  assumes "parseID prefix s = Inr ident"
  shows "length ident = 16" "encodeID prefix ident = s"
proof -
  obtain cs where s: "s = prefix @ ''_'' @ cs" and len: "length cs = 26"
    and first: "\<not> (of_char (cs ! 0) :: nat) > of_char (CHR ''7'')"
    and out: "parse_chars 0 cs (replicate 16 0) = Inr ident"
    using assms by (auto simp: parseID_def cutPrefix_Some suffixLen_def split: option.splits if_splits)
  note facts = parse_chars_Inr [OF _ _ out]
  show "length ident = 16" using facts len by simp
  have dec: "unat (decodeTable (cs ! k)) < 32" "alphabet ! unat (decodeTable (cs ! k)) = cs ! k" if "k < 26" for k
    using facts decode_found [of "cs ! k"] that len by simp_all
  have small: "n < m" if "unat (v :: byte) < 2 ^ m" "bit v n" for v n m
  proof (rule ccontr)
    assume "\<not> n < m"
    moreover have "take_bit m (unat v) = unat v" using that(1) by (rule take_bit_nat_eq_self)
    ultimately have "\<not> bit (unat v) n" by (metis bit_take_bit_iff)
    then show False using that(2) by (simp add: bit_unsigned_iff)
  qed
  have "encode_char ident k = decodeTable (cs ! k)" if k: "k < 26" for k
  proof (rule bit_word_eqI)
    fix n
    have n5: "bit (decodeTable (cs ! k)) n \<Longrightarrow> n < 5" using small [of _ 5] dec(1) [OF k] by simp
    have n3: "bit (decodeTable (cs ! 0)) n \<Longrightarrow> n < 3"
    proof -
      have "unat (decodeTable (cs ! 0)) < 8"
        using first first_char [OF dec(1) [of 0]] dec(2) [of 0] by simp
      then show "bit (decodeTable (cs ! 0)) n \<Longrightarrow> n < 3" using small [of _ 3] by simp
    qed
    show "bit (encode_char ident k) n = bit (decodeTable (cs ! k)) n"
    proof (cases "n < 5 \<and> 5 * k + (4 - n) \<ge> 2")
      case True
      let ?j = "5 * k + (4 - n) - 2"
      have j: "?j < 128" "?j + 2 = 5 * k + (4 - n)" using True k by auto
      define b where "b = 4 - n"
      have "b < 5" by (simp add: b_def)
      then have "(5 * k + b) div 5 = k" "(5 * k + b) mod 5 = b" by simp_all
      then have jd: "(?j + 2) div 5 = k" "(?j + 2) mod 5 = b" unfolding j(2) b_def by simp_all
      then have "bit_at ident ?j = bit (decodeTable (cs ! k)) (4 - b)"
        unfolding parse_all_bits [OF len out j(1)] jd by simp
      then show ?thesis using True b_def by (auto simp: encode_char_bit)
    next
      case False
      then have "n \<ge> 5 \<or> k = 0 \<and> n \<ge> 3" by auto
      then show ?thesis using n5 n3 False by (auto simp: encode_char_bit)
    qed
  qed
  then have "map (\<lambda>i. alphabet ! unat (encode_char ident i)) [0..<26] = cs"
    using dec(2) len by (intro nth_equalityI) simp_all
  then show "encodeID prefix ident = s" by (simp add: encodeID_def suffixLen_def s)
qed

text \<open>
  C40. The text of an id is canonical: parsing what \<^verbatim>\<open>Encode\<close> wrote gives the id back, and every
  text that \<^verbatim>\<open>Parse\<close> accepts is the one that \<^verbatim>\<open>Encode\<close> writes for the id it returns.
\<close>

theorem typeid_spec:
  "parseID prefix s = Inr ident \<longleftrightarrow> length ident = 16 \<and> s = encodeID prefix ident"
  using parse_encode encode_parse by metis

end
