(* ===== verification/Validate.thy ===== *)
theory Validate
  imports State AmountText
begin

text \<open>
  \<^verbatim>\<open>validate.go\<close> and the input types it checks. Every check fails with \<^const>\<open>ErrInvalid\<close>; the
  order of the checks is the code's. A string is its bytes, so the UTF-8 test and the white space
  that \<^verbatim>\<open>strings.TrimSpace\<close> removes are written out on bytes.
\<close>

section \<open>Inputs\<close>

record currencyInput =
  ci_code :: string
  ci_exponent :: int

record accountInput =
  ai_ledger :: uuid
  ai_code :: string
  ai_name :: string
  ai_description :: string
  ai_metadata :: jvalue
  ai_currency :: string
  ai_normalSide :: side
  ai_allowNegative :: bool
  ai_overdraftLimit :: int

record transactionUpdate =
  tu_description :: "string option"
  tu_metadata :: jvalue
  tu_postings :: "posting list option"
  tu_effectiveAt :: "gotime option"

record reverseInput =
  ri_key :: string
  ri_description :: string
  ri_metadata :: jvalue

record holdInput =
  hi_key :: string
  hi_account :: uuid
  hi_amount :: int
  hi_currency :: string
  hi_description :: string
  hi_expiresAt :: gotime

record captureInput =
  ca_key :: string
  ca_destination :: uuid
  ca_amount :: int
  ca_description :: string
  ca_metadata :: jvalue

record scheduleInput =
  si_post :: postInput
  si_executeAt :: gotime

record updateInput =
  ui_name :: "string option"
  ui_description :: "string option"
  ui_metadata :: jvalue

section \<open>Text\<close>

definition utf8_cont :: "nat \<Rightarrow> bool" where
  "utf8_cont b \<longleftrightarrow> 0x80 \<le> b \<and> b \<le> 0xBF"

fun valid_utf8 :: "nat list \<Rightarrow> bool" where
  "valid_utf8 [] = True"
| "valid_utf8 (a # bs) =
     (if a < 0x80 then valid_utf8 bs
      else if 0xC2 \<le> a \<and> a \<le> 0xDF then
        (case bs of b # bs \<Rightarrow> utf8_cont b \<and> valid_utf8 bs | _ \<Rightarrow> False)
      else if 0xE0 \<le> a \<and> a \<le> 0xEF then
        (case bs of b # c # bs \<Rightarrow>
             utf8_cont b \<and> (a = 0xE0 \<longrightarrow> 0xA0 \<le> b) \<and> (a = 0xED \<longrightarrow> b \<le> 0x9F) \<and> utf8_cont c \<and> valid_utf8 bs
           | _ \<Rightarrow> False)
      else if 0xF0 \<le> a \<and> a \<le> 0xF4 then
        (case bs of b # c # e # bs \<Rightarrow>
             utf8_cont b \<and> (a = 0xF0 \<longrightarrow> 0x90 \<le> b) \<and> (a = 0xF4 \<longrightarrow> b \<le> 0x8F) \<and> utf8_cont c \<and> utf8_cont e \<and>
             valid_utf8 bs
           | _ \<Rightarrow> False)
      else False)"

text \<open>\<^verbatim>\<open>strings.TrimSpace(s) == ""\<close>: all white space, as \<^verbatim>\<open>unicode.IsSpace\<close> has it.\<close>

fun blank_bytes :: "nat list \<Rightarrow> bool" where
  "blank_bytes [] = True"
| "blank_bytes (a # bs) =
     (if a \<in> {9, 10, 11, 12, 13, 32} then blank_bytes bs
      else if a = 0xC2 then (case bs of b # bs \<Rightarrow> b \<in> {0x85, 0xA0} \<and> blank_bytes bs | _ \<Rightarrow> False)
      else if a \<in> {0xE1, 0xE2, 0xE3} then
        (case bs of b # c # bs \<Rightarrow>
             (a = 0xE1 \<and> b = 0x9A \<and> c = 0x80
              \<or> a = 0xE2 \<and> b = 0x80 \<and> (0x80 \<le> c \<and> c \<le> 0x8A \<or> c \<in> {0xA8, 0xA9, 0xAF})
              \<or> a = 0xE2 \<and> b = 0x81 \<and> c = 0x9F
              \<or> a = 0xE3 \<and> b = 0x80 \<and> c = 0x80) \<and> blank_bytes bs
           | _ \<Rightarrow> False)
      else False)"

definition blank_text :: "string \<Rightarrow> bool" where
  "blank_text s = blank_bytes (map code s)"

definition storableText :: "string \<Rightarrow> bool" where
  "storableText s \<longleftrightarrow> valid_utf8 (map code s) \<and> \<not> list_ex (\<lambda>c. code c = 0) s"

definition validateText :: "string \<Rightarrow> jvalue \<Rightarrow> unit res" where
  "validateText description metadata =
     (if length description > 1024 then Inl ErrInvalid
      else if jv_len metadata > 16384 then Inl ErrInvalid
      else if \<not> storableText description then Inl ErrInvalid
      else if \<not> jv_clean metadata then Inl ErrInvalid
      else if \<not> jv_blank metadata then
        (if unmarshalsObject metadata then ok else Inl ErrInvalid)
      else ok)"

definition validateKeyAndText :: "string \<Rightarrow> string \<Rightarrow> jvalue \<Rightarrow> unit res" where
  "validateKeyAndText key description metadata =
     (if blank_text key \<or> length key > 255 then Inl ErrInvalid
      else if \<not> storableText key then Inl ErrInvalid
      else validateText description metadata)"

definition validateDetails :: "string \<Rightarrow> string \<Rightarrow> jvalue \<Rightarrow> bool \<Rightarrow> unit res" where
  "validateDetails name description metadata nameRequired =
     (if nameRequired \<and> blank_text name then Inl ErrInvalid
      else if length name > 255 then Inl ErrInvalid
      else if \<not> storableText name then Inl ErrInvalid
      else validateText description metadata)"

section \<open>Entries and times\<close>

text \<open>The number of nanoseconds from the start of the year 1 to the start of the year 10000.\<close>

definition year_10000 :: gotime where
  "year_10000 = 3652059 * 86400 * 1000000000"

definition representableTime :: "gotime \<Rightarrow> bool" where
  "representableTime t \<longleftrightarrow> 0 \<le> t \<and> t < year_10000"

definition entry_check :: "posting \<Rightarrow> unit res" where
  "entry_check p =
     (if p_account p = 0 then Inl ErrInvalid
      else if \<not> side_valid (p_side p) then Inl ErrInvalid
      else if p_amount p \<le> 0 then Inl ErrInvalid
      else if p_currency p \<noteq> [] \<and> currency_Validate (p_currency p) \<noteq> ok then Inl ErrInvalid
      else if (case p_lockVersion p of None \<Rightarrow> False | Some v \<Rightarrow> v < 0) then Inl ErrInvalid
      else ok)"

fun entry_checks :: "posting list \<Rightarrow> unit res" where
  "entry_checks [] = ok"
| "entry_checks (p # ps) = bindR (entry_check p) (\<lambda>_. entry_checks ps)"

definition validateEntries :: "posting list \<Rightarrow> unit res" where
  "validateEntries ps =
     (if length ps < 2 \<or> length ps > 1000 then Inl ErrInvalid else entry_checks ps)"

definition validatePartialEntries :: "posting list \<Rightarrow> unit res" where
  "validatePartialEntries ps = (if ps = [] then ok else validateEntries ps)"

section \<open>Requests\<close>

definition validateCurrency :: "currencyInput \<Rightarrow> unit res" where
  "validateCurrency i =
     (if currency_Validate (ci_code i) \<noteq> ok then Inl ErrInvalid
      else if ci_exponent i < 0 \<or> ci_exponent i > 30 then Inl ErrInvalid
      else ok)"

definition validateAccount :: "accountInput \<Rightarrow> unit res" where
  "validateAccount i =
     bindR (validateDetails (ai_name i) (ai_description i) (ai_metadata i) False) (\<lambda>_.
     if ai_ledger i = 0 then Inl ErrInvalid
     else if blank_text (ai_code i) \<or> length (ai_code i) > 128 then Inl ErrInvalid
     else if \<not> storableText (ai_code i) then Inl ErrInvalid
     else if currency_Validate (ai_currency i) \<noteq> ok then Inl ErrInvalid
     else if \<not> side_valid (ai_normalSide i) then Inl ErrInvalid
     else if ai_overdraftLimit i < 0 then Inl ErrInvalid
     else ok)"

definition validatePost :: "postInput \<Rightarrow> unit res" where
  "validatePost i =
     bindR (validateKeyAndText (in_key i) (in_description i) (in_metadata i)) (\<lambda>_.
     if in_status i \<noteq> NoStatus \<and> in_status i \<noteq> Pending \<and> in_status i \<noteq> Posted then Inl ErrInvalid
     else if length (in_externalID i) > 255 then Inl ErrInvalid
     else if \<not> storableText (in_externalID i) then Inl ErrInvalid
     else if (case in_effectiveAt i of None \<Rightarrow> False | Some t \<Rightarrow> \<not> representableTime t) then Inl ErrInvalid
     else validateEntries (in_postings i))"

definition validateUpdateTransaction :: "transactionUpdate \<Rightarrow> unit res" where
  "validateUpdateTransaction i =
     bindR (case tu_description i of None \<Rightarrow> ok | Some s \<Rightarrow> validateText s no_jvalue) (\<lambda>_.
     if jv_len (tu_metadata i) > 16384 then Inl ErrInvalid
     else if (case tu_effectiveAt i of None \<Rightarrow> False | Some t \<Rightarrow> \<not> representableTime t) then Inl ErrInvalid
     else case tu_postings i of None \<Rightarrow> ok | Some ps \<Rightarrow> validateEntries ps)"

definition validateReverse :: "reverseInput \<Rightarrow> unit res" where
  "validateReverse i = validateKeyAndText (ri_key i) (ri_description i) (ri_metadata i)"

definition validateHold :: "holdInput \<Rightarrow> unit res" where
  "validateHold i =
     bindR (validateKeyAndText (hi_key i) (hi_description i) no_jvalue) (\<lambda>_.
     if hi_account i = 0 then Inl ErrInvalid
     else if hi_amount i \<le> 0 then Inl ErrInvalid
     else if hi_currency i \<noteq> [] \<and> currency_Validate (hi_currency i) \<noteq> ok then Inl ErrInvalid
     else if hi_expiresAt i = 0 then Inl ErrInvalid
     else ok)"

definition validateCapture :: "captureInput \<Rightarrow> unit res" where
  "validateCapture i =
     bindR (validateKeyAndText (ca_key i) (ca_description i) (ca_metadata i)) (\<lambda>_.
     if ca_destination i = 0 then Inl ErrInvalid
     else if ca_amount i \<le> 0 then Inl ErrInvalid
     else ok)"

definition validateSchedule :: "scheduleInput \<Rightarrow> unit res" where
  "validateSchedule i =
     (if si_executeAt i = 0 then Inl ErrInvalid else validatePost (si_post i))"

section \<open>What a valid request is\<close>

lemma entry_checks_iff: "entry_checks ps = ok \<longleftrightarrow> (\<forall>p \<in> set ps. entry_check p = ok)"
  by (induction ps) auto

lemma validateEntries_iff:
  "validateEntries ps = ok \<longleftrightarrow> 2 \<le> length ps \<and> length ps \<le> 1000 \<and> (\<forall>p \<in> set ps. entry_check p = ok)"
  by (auto simp: validateEntries_def entry_checks_iff)

lemma entry_check_ok:
  "entry_check p = ok \<Longrightarrow> side_valid (p_side p) \<and> 0 < p_amount p \<and> p_account p \<noteq> 0"
  by (auto simp: entry_check_def split: if_splits)

end
