(* ===== verification/Updates.thy ===== *)
theory Updates
  imports Validate
begin

text \<open>
  \<^verbatim>\<open>applyUpdate\<close> and \<^verbatim>\<open>sameDetails\<close> of \<^verbatim>\<open>ledgers.go\<close>: how a PATCH changes the name, the
  description and the metadata of a ledger, an account or a transaction.
\<close>

definition patched_metadata :: "jvalue \<Rightarrow> jvalue \<Rightarrow> jvalue res" where
  "patched_metadata metadata patch =
     (if jv_tokens patch = Some [NullTok] then Inr empty_object
      else if \<not> jv_blank patch then
        bindR (decodeObject patch) (\<lambda>p.
        bindR (decodeObject metadata) (\<lambda>target.
          Inr (marshal (JObj (mergePatch target p)))))
      else Inr metadata)"

definition applyUpdate ::
  "string \<Rightarrow> string \<Rightarrow> jvalue \<Rightarrow> updateInput \<Rightarrow> bool \<Rightarrow> (string \<times> string \<times> jvalue) res" where
  "applyUpdate name description metadata i nameRequired =
     (let name = or_zero name (ui_name i);
          description = or_zero description (ui_description i)
      in bindR (patched_metadata metadata (ui_metadata i)) (\<lambda>metadata.
         bindR (validateDetails name description metadata nameRequired) (\<lambda>_.
           Inr (name, description, normalizeMetadata metadata))))"

definition sameDetails :: "string \<Rightarrow> string \<Rightarrow> jvalue \<Rightarrow> string \<Rightarrow> string \<Rightarrow> jvalue \<Rightarrow> bool" where
  "sameDetails name description metadata name' description' metadata' \<longleftrightarrow>
     name = name' \<and> description = description' \<and> jsonEqual metadata metadata'"

lemma decodeObject_iff:
  "decodeObject raw = Inr kvs \<longleftrightarrow> decodeOrEmpty raw = Some (JObj kvs)"
  by (auto simp: decodeObject_def decodeOrEmpty_def split: option.splits json.splits)

lemma decodeObject_wf: "decodeObject raw = Inr kvs \<Longrightarrow> json_wf (JObj kvs)"
  using decodeJSON_wf by (fastforce simp: decodeObject_iff decodeOrEmpty_def split: if_splits)

lemma marshal_not_blank [simp]: "\<not> jv_blank (marshal v)"
  by (cases v) (simp_all add: marshal_def jv_blank_def)

lemma decodeObject_marshal: "json_wf (JObj kvs) \<Longrightarrow> decodeObject (marshal (JObj kvs)) = Inr kvs"
  using decode_marshal [of "JObj kvs"] by (simp add: decodeObject_def)

end
