(* ===== verification/Posting.thy ===== *)
theory Posting
  imports Verify Updates
begin

text \<open>
  The posting operations of \<^verbatim>\<open>service.go\<close>: a batch of transactions, the reversal of a posted
  transaction, and the translation of constraint violations into the errors of the domain
  (\<^verbatim>\<open>asDomainError\<close>). \<^verbatim>\<open>RunTx\<close> of \<^verbatim>\<open>internal/kernel/db/tx.go\<close> runs a database transaction
  again when it met a conflict.
\<close>

section \<open>Running a database transaction\<close>

text \<open>\<open>safe\<close> is \<^verbatim>\<open>pgconn.SafeToRetry\<close>; the SQL states of a serialization failure and of a deadlock
  are internal errors here. \<open>fn k\<close> is the outcome of attempt \<open>k\<close>, \<open>slept k\<close> the error of the
  interrupted sleep after it.\<close>

definition retryable :: "(err \<Rightarrow> bool) \<Rightarrow> err \<Rightarrow> bool" where
  "retryable safe e \<longleftrightarrow> e = ErrRetry \<or> e = ErrInternal ''40001'' \<or> e = ErrInternal ''40P01'' \<or> safe e"

fun attempts :: "(err \<Rightarrow> bool) \<Rightarrow> (nat \<Rightarrow> err option) \<Rightarrow> nat \<Rightarrow> (nat \<Rightarrow> 'a res) \<Rightarrow> nat \<Rightarrow> err \<Rightarrow> 'a res" where
  "attempts safe slept 0 fn k e = Inl e"
| "attempts safe slept (Suc n) fn k e =
     (case fn k of
        Inr x \<Rightarrow> Inr x
      | Inl e \<Rightarrow>
          if \<not> retryable safe e then Inl e
          else case slept k of
                 Some e' \<Rightarrow> Inl e'
               | None \<Rightarrow> attempts safe slept n fn (Suc k) e)"

definition runTx :: "(err \<Rightarrow> bool) \<Rightarrow> (nat \<Rightarrow> err option) \<Rightarrow> (nat \<Rightarrow> 'a res) \<Rightarrow> 'a res" where
  "runTx safe slept fn = attempts safe slept 6 fn 0 ErrRetry"

section \<open>Errors of the domain\<close>

definition domain_constraints :: "(string \<times> err) list" where
  "domain_constraints =
     [(''ledger_accounts_funds_check'', ErrInsufficientFunds),
      (''ledger_accounts_currency_fkey'', ErrUnknownCurrency),
      (''ledger_accounts_ledger_id_fkey'', ErrUnknownLedger),
      (''ledger_categories_ledger_id_fkey'', ErrUnknownLedger),
      (''ledger_categories_currency_fkey'', ErrUnknownCurrency),
      (''ledger_category_accounts_account_fkey'', ErrCategoryMismatch),
      (''ledger_category_accounts_category_fkey'', ErrCategoryMismatch),
      (''ledger_category_edges_parent_fkey'', ErrCategoryMismatch),
      (''ledger_category_edges_child_fkey'', ErrCategoryMismatch),
      (''ledger_postings_same_ledger'', ErrCrossLedger),
      (''ledger_transactions_not_pending'', ErrNotPending),
      (''ledger_accounts_not_open'', ErrAccountNotOpen),
      (''ledger_accounts_closed_empty'', ErrAccountNotEmpty),
      (''ledger_transactions_reverses_id_key'', ErrAlreadyReversed),
      (''ledger_postings_balanced'', ErrUnbalanced),
      (''ledger_transactions_period_open'', ErrPeriodClosed)]"

definition domainErrors :: "err list" where
  "domainErrors =
     [ErrNotFound, ErrAccountExists, ErrAccountNotOpen, ErrAccountNotEmpty, ErrCurrencyExists,
      ErrUnknownCurrency, ErrUnknownLedger, ErrCrossLedger, ErrNotPending, ErrNotPosted,
      ErrExternalIDExists, ErrBalanceLock, ErrLockVersion, ErrCategoryCycle, ErrCategoryDepth,
      ErrCategoryMismatch, ErrInvalid, ErrUnbalanced, ErrInsufficientFunds, ErrIdempotencyConflict,
      ErrAlreadyReversed, ErrHoldNotPending, ErrScheduleNotPending, ErrBatchAborted, ErrStopped,
      ErrPeriodClosed, ErrOverflow]"

definition asDomainError :: "err \<Rightarrow> err option" where
  "asDomainError e =
     (case (case e of ErrConstraint c \<Rightarrow> map_of domain_constraints c | _ \<Rightarrow> None) of
        Some e' \<Rightarrow> Some e'
      | None \<Rightarrow> if e = ErrInternal ''22003'' then Some ErrOverflow
                else if e \<in> set domainErrors then Some e else None)"

section \<open>Batches\<close>

datatype batchResult = BatchError err | BatchTxn transaction bool

definition failedResult :: "err \<Rightarrow> batchResult" where
  "failedResult e = BatchError (or_zero e (asDomainError e))"

definition plain_request :: "postInput \<Rightarrow> postingRequest" where
  "plain_request i = \<lparr>rq_in = i, rq_reverses = None, rq_releases = []\<rparr>"

fun batch_result :: "postingResult \<Rightarrow> batchResult" where
  "batch_result (Failure e) = failedResult e"
| "batch_result (Success t r) = BatchTxn t r"

text \<open>The results of the valid inputs fill the places that the invalid ones left.\<close>

fun place_results :: "postInput list \<Rightarrow> postingResult list \<Rightarrow> batchResult list" where
  "place_results [] rs = []"
| "place_results (i # ins) rs =
     (case validatePost i of
        Inl e \<Rightarrow> failedResult e # place_results ins rs
      | Inr _ \<Rightarrow>
          (case rs of [] \<Rightarrow> BatchError ErrPanic # place_results ins []
           | r # rs \<Rightarrow> batch_result r # place_results ins rs))"

fun first_invalid :: "postInput list \<Rightarrow> unit res" where
  "first_invalid [] = ok"
| "first_invalid (i # ins) = bindR (validatePost i) (\<lambda>_. first_invalid ins)"

definition valid_requests :: "postInput list \<Rightarrow> postingRequest list" where
  "valid_requests ins = map plain_request (filter (\<lambda>i. validatePost i = ok) ins)"

definition postBatch ::
  "db \<Rightarrow> gotime \<Rightarrow> (nat \<Rightarrow> uuid) \<Rightarrow> postInput list \<Rightarrow> bool \<Rightarrow> (batchResult list \<times> db) res" where
  "postBatch d now fresh ins atomic =
     (if ins = [] \<or> length ins > 1000 then Inl ErrInvalid
      else bindR (if atomic then first_invalid ins else ok) (\<lambda>_.
        let reqs = valid_requests ins
        in bindR (if reqs = [] then Inr ([], d) else runRequests d now fresh reqs atomic) (\<lambda>(rs, d).
             Inr (place_results ins rs, d))))"

section \<open>One request\<close>

text \<open>\<^verbatim>\<open>applyRequests(..., true)\<close> for one request: an aborted batch still yields its result.\<close>

definition apply_one :: "db \<Rightarrow> gotime \<Rightarrow> (nat \<Rightarrow> uuid) \<Rightarrow> postingRequest \<Rightarrow> (postingResult \<times> db) res" where
  "apply_one d now fresh req =
     (case applyRequests d now fresh [req] True of
        NotApplied e \<Rightarrow> Inl e
      | AbortedBatch rs \<Rightarrow> (case rs of [] \<Rightarrow> Inl ErrPanic | r # _ \<Rightarrow> Inr (r, d))
      | Applied rs d' \<Rightarrow> (case rs of [] \<Rightarrow> Inl ErrPanic | r # _ \<Rightarrow> Inr (r, d')))"

section \<open>Reversal\<close>

definition reversed_entry :: "posting \<Rightarrow> posting" where
  "reversed_entry p = plain_posting (p_account p) (opposite (p_side p)) (p_amount p) (p_currency p)"

definition reversalRequest :: "transaction \<Rightarrow> reverseInput \<Rightarrow> postingRequest" where
  "reversalRequest orig r =
     \<lparr>rq_in = \<lparr>in_key = ri_key r, in_description = ri_description r, in_metadata = ri_metadata r,
        in_postings = map reversed_entry (t_postings orig), in_status = NoStatus, in_effectiveAt = None,
        in_externalID = [], in_archiveOnLockFailure = False\<rparr>,
      rq_reverses = Some (t_id orig), rq_releases = []\<rparr>"

text \<open>The request that \<open>resolveRequest\<close> has truncated in place is the one \<open>matches\<close> saw before: it has
  no effective time.\<close>

definition reverse ::
  "db \<Rightarrow> gotime \<Rightarrow> (nat \<Rightarrow> uuid) \<Rightarrow> uuid \<Rightarrow> reverseInput \<Rightarrow> (transaction \<times> bool \<times> db) res" where
  "reverse d now fresh i inp =
     bindR (validateReverse inp) (\<lambda>_.
     bindR (lockTransaction d i) (\<lambda>orig.
     if t_status orig \<noteq> Posted then Inl ErrNotPosted
     else
       let req = reversalRequest orig inp
       in case selectReversal d i of
            Inr prior \<Rightarrow>
              if t_key prior = ri_key inp \<and> txn_matches prior (rq_in req) then Inr (prior, True, d)
              else Inl ErrAlreadyReversed
          | Inl e \<Rightarrow>
              if e \<noteq> ErrNotFound then Inl e
              else bindR (apply_one d now fresh req) (\<lambda>(r, d').
                case r of
                  Failure e \<Rightarrow> Inl e
                | Success t replayed \<Rightarrow>
                    if replayed \<and> (case selectReversal d' i of Inl _ \<Rightarrow> True | Inr prior \<Rightarrow> t_id prior \<noteq> t_id t)
                    then Inl ErrIdempotencyConflict
                    else Inr (t, replayed, d'))))"

end
