(* ===== verification/Pending_Laws.thy ===== *)
theory Pending_Laws
  imports Pending
begin

text \<open>
  The laws of \<open>changePending\<close>: what an edit must do for the change to keep the invariant of the
  database, and that the three edits of the service do it.
\<close>

section \<open>What an edit decides\<close>

definition sound_edit :: "transaction \<Rightarrow> transaction \<Rightarrow> balanceChange \<Rightarrow> bool" where
  "sound_edit cur nxt c \<longleftrightarrow>
     t_id nxt = t_id cur \<and> c_releases c = [] \<and>
     (c = no_change \<and> t_status nxt = Pending \<and> t_entriesVersion nxt = t_entriesVersion cur \<or>
      c_unpend c = t_postings cur \<and> c_ledger c = t_ledger cur \<and> entries_ok (c_add c) \<and>
      (t_status nxt = Pending \<and> c_status c = Pending \<and> c_add c \<noteq> [] \<and> t_entriesVersion nxt = t_version cur + 1 \<or>
       t_status nxt = Posted \<and> c_status c = Posted \<and> c_add c \<noteq> [] \<and> t_entriesVersion nxt = t_entriesVersion cur \<or>
       t_status nxt = Archived \<and> c_add c = [] \<and> t_entriesVersion nxt = t_entriesVersion cur))"

section \<open>Reading a transaction\<close>

lemma journal_ids: "journal_inv d \<Longrightarrow> r \<in> set (db_txns d) \<Longrightarrow> txn_by d (tr_id r) = Some r"
  using row_by_in_set by (auto simp: txn_by_def journal_inv_def)

lemma txn_by_SomeD: "txn_by d i = Some r \<Longrightarrow> r \<in> set (db_txns d) \<and> tr_id r = i"
  unfolding txn_by_def by (rule row_by_SomeD)

lemma selectTransaction_Inr:
  assumes "journal_inv d" "selectTransaction d i = Inr t"
  shows "\<exists>r. txn_by d i = Some r \<and> t = row_txn d r"
proof -
  obtain ts where "map (row_txn d) (filter (\<lambda>r. tr_id r = i \<and> row_entries d r \<noteq> []) (db_txns d)) = t # ts"
    using assms(2) by (auto simp: selectTransaction_def selectOneTransaction_def selectTransactions_def
        split: list.splits)
  then obtain r rs where f: "filter (\<lambda>r. tr_id r = i \<and> row_entries d r \<noteq> []) (db_txns d) = r # rs"
    "t = row_txn d r" by (cases "filter (\<lambda>r. tr_id r = i \<and> row_entries d r \<noteq> []) (db_txns d)") auto
  have "r \<in> set (filter (\<lambda>r. tr_id r = i \<and> row_entries d r \<noteq> []) (db_txns d))" unfolding f by simp
  then have "r \<in> set (db_txns d)" "tr_id r = i" by auto
  then show ?thesis using journal_ids [OF assms(1)] f(2) by blast
qed

lemma lockTransaction_Inr:
  assumes "journal_inv d" "lockTransaction d i = Inr t"
  shows "\<exists>r. txn_by d i = Some r \<and> t = row_txn d r"
  using assms(2) by (auto simp: lockTransaction_def dest!: selectTransaction_Inr [OF assms(1)] split: option.splits)

lemma row_txn_fields [simp]:
  "t_id (row_txn d r) = tr_id r" "t_ledger (row_txn d r) = tr_ledger r" "t_status (row_txn d r) = tr_status r"
  "t_version (row_txn d r) = tr_version r" "t_entriesVersion (row_txn d r) = tr_entriesVersion r"
  "t_postings (row_txn d r) = row_entries d r" "t_key (row_txn d r) = tr_key r"
  "t_reverses (row_txn d r) = tr_reverses r" "t_description (row_txn d r) = tr_description r"
  "t_metadata (row_txn d r) = tr_metadata r" "t_effectiveAt (row_txn d r) = tr_effectiveAt r"
  by (simp_all add: row_txn_def)

lemma plain_posting_fields [simp]:
  "p_account (plain_posting a s n c) = a" "p_side (plain_posting a s n c) = s"
  "p_amount (plain_posting a s n c) = n" "p_currency (plain_posting a s n c) = c"
  "p_lockVersion (plain_posting a s n c) = None"
  by (simp_all add: plain_posting_def)

lemma row_entries_ok:
  assumes "journal_inv d"
  shows "entries_ok (row_entries d r)"
  using assms
  by (auto simp: row_entries_def entries_ok_def list_all_iff entry_ok_def journal_inv_def posting_ok_def
      pending_ok_def)

lemma row_entries_moved:
  "tr_status r \<noteq> Posted \<Longrightarrow> moved i s (row_entries d r) =
    sum_over (\<lambda>p. pe_txn p = tr_id r \<and> pe_version p = tr_entriesVersion r \<and> pe_account p = i \<and> pe_side p = s)
      pe_amount (db_pending d)"
  by (simp add: row_entries_def moved_def sum_over_map sum_over_filter conj_assoc)

section \<open>The effect of a change on the account rows\<close>

lemma change_written:
  assumes tr: "transition (lockAccounts d ids) c = Inr (s, l, qs)" and inv: "accounts_inv d"
    and c: "change_ok c" and wr: "writeAccounts s d = Inr d'" and r': "account_by d' i = Some r'"
  shows "\<exists>r. account_by d i = Some r \<and>
     ac_postedDebits r' = ac_postedDebits r + (if c_status c = Pending then 0 else moved i Debit (c_add c)) \<and>
     ac_postedCredits r' = ac_postedCredits r + (if c_status c = Pending then 0 else moved i Credit (c_add c)) \<and>
     ac_pendingDebits r' = ac_pendingDebits r - moved i Debit (c_unpend c)
       + (if c_status c = Pending then moved i Debit (c_add c) else 0) \<and>
     ac_pendingCredits r' = ac_pendingCredits r - moved i Credit (c_unpend c)
       + (if c_status c = Pending then moved i Credit (c_add c) else 0) \<and>
     ac_held r' = ac_held r - released i (c_releases c)"
proof -
  let ?s0 = "lockAccounts d ids"
  have wf: "rows_wf d" using inv by (simp add: accounts_inv_def)
  have i0: "invs (s_accounts ?s0)" by (rule locked_invs [OF inv])
  then have wf0: "accounts_wf (s_accounts ?s0)" by (simp add: invs_def)
  have ev: "state_evolves ?s0 s" by (rule transition_evolves [OF tr wf0 c])
  have dist: "distinct (map fst (s_accounts s))" by (rule transition_distinct [OF tr wf0 c])
  note w = writeAccounts_evolved(1) [OF wr refl wf ev dist, of i]
  note eff = transition_effect [OF tr wf0 c, of i]
  show ?thesis
  proof (cases "map_of (s_accounts ?s0) i")
    case None
    then have "account_by d i = Some r'" using w eff r' by simp
    moreover have "i \<notin> touched c" using transition_touched [OF tr wf0 c] None by (auto simp: dom_def)
    then have "moved i sd (c_add c) = 0" "moved i sd (c_unpend c) = 0" "released i (c_releases c) = 0" for sd
      by (auto simp: touched_def intro: moved_none released_none)
    ultimately show ?thesis by simp
  next
    case (Some a)
    then obtain r where r: "account_by d i = Some r" "a = locked_state d r"
      unfolding lockAccounts_accounts(1) [OF wf] by (auto split: if_splits)
    have st: "map_of (s_accounts s) i = Some (change_account c i a)" using eff Some by simp
    then have "r' = write_row (change_account c i a) r" using w r r' by simp
    moreover have "moved i sd (c_add c) = 0" "moved i sd (c_unpend c) = 0" "released i (c_releases c) = 0"
      if "i \<notin> touched c" for sd
      using that by (auto simp: touched_def intro: moved_none released_none)
    ultimately show ?thesis
      using r by (cases "i \<in> touched c")
        (simp_all add: change_account_def staged_effect_totals write_row_def locked_state_def row_state_def)
  qed
qed

section \<open>Updating the row of a transaction\<close>

text \<open>\<open>retxn d d' r r'\<close>: the row \<open>r\<close> of a pending transaction becomes \<open>r'\<close>.\<close>

definition retxn :: "db \<Rightarrow> db \<Rightarrow> txn_row \<Rightarrow> txn_row \<Rightarrow> bool" where
  "retxn d d' r r' \<longleftrightarrow>
     txn_by d (tr_id r) = Some r \<and> tr_status r = Pending \<and> tr_id r' = tr_id r \<and> tr_key r' = tr_key r \<and>
     tr_ledger r' = tr_ledger r \<and> tr_version r' = tr_version r + 1 \<and>
     tr_entriesVersion r \<le> tr_entriesVersion r' \<and> tr_entriesVersion r' \<le> tr_version r' \<and>
     txn_status_ok (tr_status r') \<and>
     db_txns d' = update_rows (\<lambda>x. tr_id x = tr_id r) (\<lambda>_. r') (db_txns d)"

lemma retxn_txn_by:
  assumes "retxn d d' r r'"
  shows "txn_by d' t = (if t = tr_id r then Some r' else txn_by d t)"
proof -
  have "txn_by d' t = map_option (\<lambda>x. if tr_id x = tr_id r then r' else x) (txn_by d t)"
    using assms unfolding retxn_def txn_by_def
    by (elim conjE) (simp only:, subst row_by_update_rows, simp_all)
  then show ?thesis using assms txn_by_SomeD [of d t] by (cases "txn_by d t") (auto simp: retxn_def)
qed

lemma retxn_extends:
  assumes re: "retxn d d' r r'"
    and acc: "\<And>i a. account_by d i = Some a \<Longrightarrow> \<exists>a'. account_by d' i = Some a' \<and>
      ac_currency a' = ac_currency a \<and> ac_ledger a' = ac_ledger a"
  shows "extends d d'"
  unfolding extends_def
proof (intro conjI allI impI)
  fix t x assume "txn_by d t = Some x"
  then show "\<exists>x'. txn_by d' t = Some x' \<and> tr_ledger x' = tr_ledger x \<and>
      (tr_status x = Posted \<longrightarrow> tr_status x' = Posted) \<and> tr_entriesVersion x \<le> tr_entriesVersion x'"
    using re by (auto simp: retxn_txn_by [OF re] retxn_def)
qed (rule acc)

lemma retxn_ids:
  assumes "retxn d d' r r'"
  shows "map tr_id (db_txns d') = map tr_id (db_txns d)"
  using assms unfolding retxn_def by (elim conjE) (simp only:, rule map_key_update_rows, simp)

lemma retxn_keys:
  assumes re: "retxn d d' r r'" and inv: "journal_inv d"
  shows "map tr_key (db_txns d') = map tr_key (db_txns d)"
proof -
  have "tr_key (if tr_id x = tr_id r then r' else x) = tr_key x" if "x \<in> set (db_txns d)" for x
  proof (cases "tr_id x = tr_id r")
    case True
    have "txn_by d (tr_id r) = Some r" "tr_key r' = tr_key r" using re unfolding retxn_def by blast+
    moreover have "txn_by d (tr_id r) = Some x" using journal_ids [OF inv that] True by simp
    ultimately show ?thesis using True by simp
  qed simp
  moreover have "db_txns d' = update_rows (\<lambda>x. tr_id x = tr_id r) (\<lambda>_. r') (db_txns d)"
    using re unfolding retxn_def by blast
  ultimately show ?thesis by (simp add: update_rows_def)
qed

lemma retxn_set:
  assumes re: "retxn d d' r r'" and x: "x \<in> set (db_txns d')"
  shows "x = r' \<or> x \<in> set (db_txns d) \<and> tr_id x \<noteq> tr_id r"
proof -
  have "db_txns d' = update_rows (\<lambda>x. tr_id x = tr_id r) (\<lambda>_. r') (db_txns d)"
    using re unfolding retxn_def by blast
  then show ?thesis using x by (auto simp: set_update_rows split: if_splits)
qed

text \<open>An old pending entry of another transaction stays what it was; those of this transaction stay
  live exactly when it stays pending with the same version of its entries.\<close>

lemma retxn_live:
  assumes re: "retxn d d' r r'" and inv: "journal_inv d" and p: "p \<in> set (db_pending d)"
    and keep: "keep \<longleftrightarrow> tr_status r' = Pending \<and> tr_entriesVersion r' = tr_entriesVersion r"
    and new: "tr_entriesVersion r' = tr_entriesVersion r \<or> tr_entriesVersion r' = tr_version r + 1"
  shows "live d' p \<longleftrightarrow> live d p \<and> (pe_txn p = tr_id r \<longrightarrow> keep)"
proof (cases "pe_txn p = tr_id r")
  case True
  have "pending_ok d p" using inv p by (simp add: journal_inv_def)
  then have v: "pe_version p \<le> tr_entriesVersion r"
    using True re by (auto simp: pending_ok_def retxn_def)
  have "r \<in> set (db_txns d)" using re txn_by_SomeD by (auto simp: retxn_def)
  then have "tr_entriesVersion r \<le> tr_version r" using inv by (simp add: journal_inv_def txn_row_ok_def)
  then show ?thesis
    using True re v keep new by (auto simp: live_def retxn_txn_by [OF re] retxn_def)
next
  case False
  then show ?thesis by (simp add: live_def retxn_txn_by [OF re])
qed

lemma retxn_pending_sum:
  assumes re: "retxn d d' r r'" and inv: "journal_inv d"
    and keep: "keep \<longleftrightarrow> tr_status r' = Pending \<and> tr_entriesVersion r' = tr_entriesVersion r"
    and new: "tr_entriesVersion r' = tr_entriesVersion r \<or> tr_entriesVersion r' = tr_version r + 1"
  shows "sum_over (\<lambda>p. pe_account p = i \<and> pe_side p = s \<and> live d' p) pe_amount (db_pending d)
    = pending_sum d i s - (if keep then 0 else moved i s (row_entries d r))"
proof -
  have eq: "sum_over (\<lambda>p. pe_account p = i \<and> pe_side p = s \<and> live d' p) pe_amount (db_pending d)
    = sum_over (\<lambda>p. pe_account p = i \<and> pe_side p = s \<and> live d p \<and> (pe_txn p = tr_id r \<longrightarrow> keep)) pe_amount (db_pending d)"
    by (intro sum_over_cong) (auto simp: retxn_live [OF re inv _ keep new])
  have mine: "moved i s (row_entries d r) =
      sum_over (\<lambda>p. pe_account p = i \<and> pe_side p = s \<and> live d p \<and> pe_txn p = tr_id r) pe_amount (db_pending d)"
    using re
    by (subst row_entries_moved) (auto simp: retxn_def live_def intro!: sum_over_cong)
  have split: "sum_over q f ps = sum_over (\<lambda>p. q p \<and> \<not> u p) f ps + sum_over (\<lambda>p. q p \<and> u p) f ps"
    for q u :: "pending_row \<Rightarrow> bool" and f ps
    by (induction ps) auto
  show ?thesis
  proof (cases keep)
    case False
    have "pending_sum d i s =
        sum_over (\<lambda>p. (pe_account p = i \<and> pe_side p = s \<and> live d p) \<and> pe_txn p \<noteq> tr_id r) pe_amount (db_pending d) +
        sum_over (\<lambda>p. (pe_account p = i \<and> pe_side p = s \<and> live d p) \<and> pe_txn p = tr_id r) pe_amount (db_pending d)"
      unfolding pending_sum_def by (rule split)
    then show ?thesis using eq mine False by (simp add: conj_assoc)
  qed (use eq in \<open>simp add: pending_sum_def\<close>)
qed

section \<open>Changing one pending transaction keeps the invariant\<close>

lemma change_inv:
  assumes inv: "db_inv d" and re: "retxn d d' r r'" and ap: "appended d cols v pcols d'"
    and acc: "accounts_inv d'" and ex: "extends d d'"
    and keep: "keep \<longleftrightarrow> tr_status r' = Pending \<and> tr_entriesVersion r' = tr_entriesVersion r"
    and new: "tr_entriesVersion r' = tr_entriesVersion r \<or> tr_entriesVersion r' = tr_version r + 1"
    and okP: "entries_ok (map snd cols)" and okQ: "entries_ok (map snd pcols)"
    and P: "\<And>t q. (t, q) \<in> set cols \<Longrightarrow> entry_home d' t (p_account q) (p_currency q) \<and>
      t = tr_id r \<and> tr_status r' = Posted"
    and Q: "\<And>t q. (t, q) \<in> set pcols \<Longrightarrow> entry_home d' t (p_account q) (p_currency q) \<and>
      t = tr_id r \<and> tr_status r' = Pending \<and> tr_entriesVersion r' = v"
    and bal: "\<And>t c. column_total t c cols = 0"
    and after: "\<And>k. k < length cols \<Longrightarrow> p_balanceAfter (snd (cols ! k)) =
      row_net (p_account (snd (cols ! k))) (db_postings d) +
      (moved (p_account (snd (cols ! k))) Debit (take (Suc k) (map snd cols)) -
       moved (p_account (snd (cols ! k))) Credit (take (Suc k) (map snd cols)))"
    and ne: "row_entries d' r' \<noteq> []"
    and tot: "\<And>i a'. account_by d' i = Some a' \<Longrightarrow> \<exists>a. account_by d i = Some a \<and>
      ac_postedDebits a' = ac_postedDebits a + moved i Debit (map snd cols) \<and>
      ac_postedCredits a' = ac_postedCredits a + moved i Credit (map snd cols) \<and>
      ac_pendingDebits a' = ac_pendingDebits a - (if keep then 0 else moved i Debit (row_entries d r))
        + moved i Debit (map snd pcols) \<and>
      ac_pendingCredits a' = ac_pendingCredits a - (if keep then 0 else moved i Credit (row_entries d r))
        + moved i Credit (map snd pcols) \<and>
      ac_held a' = ac_held a"
  shows "db_inv d'"
proof -
  have i: "accounts_inv d" "books [] d" "journal_inv d" "balanced d" "running (db_postings d)"
    "numbered (db_sequence d) (map pr_id (db_postings d))"
    "numbered (db_sequence d) (map pe_id (db_pending d))" "holds_inv d" "settled_inv d"
    using inv unfolding db_inv_def db_inv_but_def by blast+
  have mine: "txn_by d' (tr_id r) = Some r'" by (simp add: retxn_txn_by [OF re])
  have ids: "distinct (map tr_id (db_txns d'))" "distinct (map tr_key (db_txns d'))"
    using i(3) retxn_ids [OF re] retxn_keys [OF re i(3)] by (simp_all add: journal_inv_def)
  have journal: "journal_inv d'"
  proof (rule appended_journal [OF ap ex i(3) ids okP okQ])
    show "entry_home d' t (p_account q) (p_currency q) \<and> (\<exists>r. txn_by d' t = Some r \<and> tr_status r = Posted)"
      if "(t, q) \<in> set cols" for t q using P [OF that] mine by blast
    show "entry_home d' t (p_account q) (p_currency q) \<and> (\<exists>r. txn_by d' t = Some r \<and> v \<le> tr_entriesVersion r)"
      if "(t, q) \<in> set pcols" for t q using Q [OF that] mine by auto
    show "txn_row_ok d' x" if "x \<in> set (db_txns d')" for x
      using retxn_set [OF re that]
    proof
      assume "x = r'"
      then show ?thesis using re ne unfolding txn_row_ok_def retxn_def by blast
    next
      assume "x \<in> set (db_txns d) \<and> tr_id x \<noteq> tr_id r"
      then have "txn_row_ok d x" using i(3) by (simp add: journal_inv_def)
      then show ?thesis by (rule appended_row_ok [OF ap])
    qed
  qed
  have psum: "pending_sum d' j s = pending_sum d j s - (if keep then 0 else moved j s (row_entries d r))
      + moved j s (map snd pcols)" for j s
  proof -
    have "sum_over (\<lambda>p. pe_account p = j \<and> pe_side p = s \<and> live d' p) pe_amount
        (pending_rows (db_sequence d + length cols) v pcols) = moved j s (map snd pcols)"
      using pending_rows_same [of pcols d' v True j s] Q mine by fastforce
    moreover have "pending_sum d' j s =
        sum_over (\<lambda>p. pe_account p = j \<and> pe_side p = s \<and> live d' p) pe_amount (db_pending d) +
        sum_over (\<lambda>p. pe_account p = j \<and> pe_side p = s \<and> live d' p) pe_amount
          (pending_rows (db_sequence d + length cols) v pcols)"
      using ap by (simp add: pending_sum_def appended_def)
    ultimately show ?thesis using retxn_pending_sum [OF re i(3) keep new, of j s] by simp
  qed
  have books: "books [] d'"
    unfolding books_def
  proof
    fix a' assume a': "a' \<in> set (db_accounts d')"
    have "account_by d' (ac_id a') = Some a'"
      using a' acc account_by_set unfolding accounts_inv_def by blast
    from tot [OF this] obtain a where a: "account_by d (ac_id a') = Some a"
      "ac_postedDebits a' = ac_postedDebits a + moved (ac_id a') Debit (map snd cols)"
      "ac_postedCredits a' = ac_postedCredits a + moved (ac_id a') Credit (map snd cols)"
      "ac_pendingDebits a' = ac_pendingDebits a - (if keep then 0 else moved (ac_id a') Debit (row_entries d r))
        + moved (ac_id a') Debit (map snd pcols)"
      "ac_pendingCredits a' = ac_pendingCredits a - (if keep then 0 else moved (ac_id a') Credit (row_entries d r))
        + moved (ac_id a') Credit (map snd pcols)"
      "ac_held a' = ac_held a" by blast
    have "row_books [] d a" "ac_id a = ac_id a'"
      using i(2) account_by_SomeD [OF a(1)] by (simp_all add: books_def)
    then show "row_books [] d' a'"
      using a psum appended_posted_sum [OF ap] appended_held_sum [OF ap] by (simp add: row_books_def)
  qed
  show ?thesis
    unfolding db_inv_def db_inv_but_def
    using acc books journal appended_balanced [OF ap i(4) bal] appended_running [OF ap i(5) okP after]
      appended_numbered [OF ap i(6,7)] appended_holds [OF ap ex i(8)] appended_settled [OF ap i(9)] by blast
qed

section \<open>The statements of a change\<close>

definition changed_columns :: "transaction \<Rightarrow> entry_columns" where
  "changed_columns t = (if t_status t = Posted then entry_columns t else [])"

definition changed_pending :: "transaction \<Rightarrow> entry_columns" where
  "changed_pending t =
     (if t_status t \<noteq> Posted \<and> t_entriesVersion t = t_version t then entry_columns t else [])"

lemma insert_changed_Inr:
  assumes "insert_changed t d = Inr d'"
  shows "appended d (changed_columns t) (t_version t) (changed_pending t) d'"
    and "db_txns d' = db_txns d" "db_accounts d' = db_accounts d" "db_ledgers d' = db_ledgers d"
    and "(x, q) \<in> set (changed_columns t) \<union> set (changed_pending t) \<Longrightarrow>
      entry_home d x (p_account q) (p_currency q)"
    and "column_total x c (changed_columns t) = 0"
proof -
  have "appended d (changed_columns t) (t_version t) (changed_pending t) d' \<and>
    db_txns d' = db_txns d \<and> db_accounts d' = db_accounts d \<and> db_ledgers d' = db_ledgers d \<and>
    (\<exists>P Q. entries_check d P (changed_columns t) = ok \<and> entries_check d Q (changed_pending t) = ok)"
    using assms
    by (auto simp: insert_changed_def insertPostings_def insertPendingEntries_def appended_def
        changed_columns_def changed_pending_def split: if_splits)
  then obtain P Q where c: "appended d (changed_columns t) (t_version t) (changed_pending t) d'"
    "db_txns d' = db_txns d" "db_accounts d' = db_accounts d" "db_ledgers d' = db_ledgers d"
    "entries_check d P (changed_columns t) = ok" "entries_check d Q (changed_pending t) = ok" by blast
  show "appended d (changed_columns t) (t_version t) (changed_pending t) d'"
    "db_txns d' = db_txns d" "db_accounts d' = db_accounts d" "db_ledgers d' = db_ledgers d"
    using c by blast+
  show "entry_home d x (p_account q) (p_currency q)"
    if "(x, q) \<in> set (changed_columns t) \<union> set (changed_pending t)"
    using that entries_checkD(1) [OF c(5)] entries_checkD(1) [OF c(6)] by blast
  show "column_total x c (changed_columns t) = 0" by (rule entries_checkD(4) [OF c(5)])
qed

lemma updateTransactionRow_Inr:
  assumes "updateTransactionRow now t d = Inr d'" "txn_by d (t_id t) = Some r"
  shows "d' = d\<lparr>db_txns := update_rows (\<lambda>x. tr_id x = tr_id r) (\<lambda>_. update_row now t r) (db_txns d)\<rparr>"
    and "tr_status r = Pending" "t_version t = tr_version r + 1" "t_entriesVersion t \<le> t_version t"
proof -
  have "tr_id r = t_id t" using txn_by_SomeD [OF assms(2)] by simp
  then show "d' = d\<lparr>db_txns := update_rows (\<lambda>x. tr_id x = tr_id r) (\<lambda>_. update_row now t r) (db_txns d)\<rparr>"
    "tr_status r = Pending" "t_version t = tr_version r + 1" "t_entriesVersion t \<le> t_version t"
    using assms by (auto simp: updateTransactionRow_def Let_def update_row_def split: if_splits)
qed

text \<open>The two cases of \<open>changePending\<close>, after its balances have been changed: the database \<open>d1\<close>
  has the journal of \<open>d\<close> and its accounts rewritten.\<close>

lemma retxn_steps:
  assumes r: "txn_by d (tr_id r) = Some r" and up: "updateTransactionRow now t d1 = Inr d2"
    and ins: "insert_changed t d2 = Inr d3" and t: "t_id t = tr_id r"
    and tx: "db_txns d1 = db_txns d" and st: "txn_status_ok (t_status t)"
    and v: "tr_entriesVersion r \<le> t_entriesVersion t"
  shows "retxn d d3 r (update_row now t r)" and "tr_status r = Pending" and "t_version t = tr_version r + 1"
    and "d2 = d1\<lparr>db_txns := db_txns d3\<rparr>"
proof -
  have r1: "txn_by d1 (t_id t) = Some r" using r tx t by (simp add: txn_by_def)
  note u = updateTransactionRow_Inr [OF up r1]
  show "tr_status r = Pending" "t_version t = tr_version r + 1" by (rule u)+
  have tx3: "db_txns d3 = db_txns d2" by (rule insert_changed_Inr(2) [OF ins])
  show "d2 = d1\<lparr>db_txns := db_txns d3\<rparr>" unfolding tx3 by (subst u(1))+ simp
  have "db_txns d3 = update_rows (\<lambda>x. tr_id x = tr_id r) (\<lambda>_. update_row now t r) (db_txns d)"
    unfolding tx3 tx [symmetric] by (subst u(1)) simp
  then show "retxn d d3 r (update_row now t r)"
    using r u(2-4) st v unfolding retxn_def by (simp add: update_row_def)
qed

lemma change_metadata_inv:
  assumes inv: "db_inv d" and r: "txn_by d (tr_id r) = Some r"
    and up: "updateTransactionRow now t d = Inr d2" and ins: "insert_changed t d2 = Inr d3"
    and t: "t_id t = tr_id r" "t_status t = Pending" "t_entriesVersion t = tr_entriesVersion r"
  shows "db_inv d3"
proof -
  have j: "accounts_inv d" "journal_inv d" using inv unfolding db_inv_def db_inv_but_def by blast+
  have ok: "txn_row_ok d r" using j(2) txn_by_SomeD [OF r] by (simp add: journal_inv_def)
  note s = retxn_steps [OF r up ins t(1) refl]
  have re: "retxn d d3 r (update_row now t r)" and v: "t_version t = tr_version r + 1"
    and d2: "d2 = d\<lparr>db_txns := db_txns d3\<rparr>"
    using s t by (simp_all add: txn_status_ok_def)
  have none: "changed_columns t = []" "changed_pending t = []"
    using t v ok by (simp_all add: changed_columns_def changed_pending_def txn_row_ok_def)
  have d3: "d3 = d2" using ins t v ok by (simp add: insert_changed_def txn_row_ok_def)
  have acc: "db_accounts d3 = db_accounts d" "db_ledgers d3 = db_ledgers d"
    unfolding d3 by (subst d2, simp)+
  have ap: "appended d [] 0 [] d3" unfolding d3 by (subst d2)+ (simp add: appended_def)
  have by_same: "account_by d3 = account_by d" using acc by (simp add: account_by_def)
  have ex: "extends d d3" by (rule retxn_extends [OF re]) (simp add: by_same)
  show ?thesis
  proof (rule change_inv [OF inv re ap _ ex, where keep = True])
    show "accounts_inv d3"
      using j(1) acc by (simp add: accounts_inv_def rows_wf_def ledger_by_def)
    show "row_entries d3 (update_row now t r) \<noteq> []"
      using ok ap t re
      by (simp add: row_entries_def update_row_def appended_def txn_row_ok_def retxn_def split: if_splits)
  qed (use t in \<open>simp_all add: update_row_def by_same entries_ok_def column_total_def\<close>)
qed

lemma row_entries_changed:
  assumes st: "tr_status r = Pending" and ne: "row_entries d r \<noteq> []"
    and ap: "appended d (changed_columns t) (t_version t) (changed_pending t) d'"
    and t: "t_id t = tr_id r" "t_postings t \<noteq> [] \<or> t_status t = Archived"
    and v: "t_entriesVersion t = (if t_status t = Pending then t_version t else tr_entriesVersion r)"
    and ok: "txn_status_ok (t_status t)"
  shows "row_entries d' (update_row now t r) \<noteq> []"
proof -
  consider (posted) "t_status t = Posted" | (pending) "t_status t = Pending" | (archived) "t_status t = Archived"
    using ok by (auto simp: txn_status_ok_def)
  then show ?thesis
  proof cases
    case posted
    then obtain q where "(t_id t, q) \<in> set (changed_columns t)"
      using t by (cases "t_postings t") (auto simp: changed_columns_def entry_columns_def)
    then have "\<exists>p \<in> set (db_postings d'). pr_txn p = tr_id r"
      using in_posting_rows [of "t_id t" q _ "db_sequence d"] ap t(1) by (auto simp: appended_def)
    then show ?thesis using posted by (auto simp: row_entries_def update_row_def filter_empty_conv)
  next
    case pending
    then obtain q where "(t_id t, q) \<in> set (changed_pending t)"
      using t v by (cases "t_postings t") (auto simp: changed_pending_def entry_columns_def)
    then have "\<exists>p \<in> set (db_pending d'). pe_txn p = tr_id r \<and> pe_version p = t_version t"
      using in_pending_rows [of "t_id t" q _ _ "t_version t"] ap t(1) by (fastforce simp: appended_def)
    then show ?thesis using pending v by (auto simp: row_entries_def update_row_def filter_empty_conv)
  next
    case archived
    have "row_entries d' r \<noteq> []"
      by (rule row_entries_mono [OF ne]) (use ap in \<open>auto simp: appended_def\<close>)
    then show ?thesis using st archived v by (simp add: row_entries_def update_row_def)
  qed
qed

lemma change_entries_inv:
  assumes inv: "db_inv d" and r: "txn_by d (tr_id r) = Some r"
    and tr: "transition (lockAccounts d ids) c = Inr (s, l, qs)" and wr: "writeAccounts s d = Inr d1"
    and up: "updateTransactionRow now t d1 = Inr d2" and ins: "insert_changed t d2 = Inr d3"
    and t: "t_id t = tr_id r" "t_postings t = qs"
      "t_entriesVersion t = (if t_status t = Pending then t_version t else tr_entriesVersion r)"
    and c: "c_unpend c = row_entries d r" "c_releases c = []" "entries_ok (c_add c)"
    and kind: "t_status t = Archived \<and> c_add c = [] \<or>
      c_add c \<noteq> [] \<and> c_status c = t_status t \<and> (t_status t = Pending \<or> t_status t = Posted)"
  shows "db_inv d3"
proof -
  have i: "accounts_inv d" "books [] d" "journal_inv d"
    using inv unfolding db_inv_def db_inv_but_def by blast+
  have wf: "rows_wf d" using i(1) by (simp add: accounts_inv_def)
  have rok: "txn_row_ok d r" using i(3) txn_by_SomeD [OF r] by (simp add: journal_inv_def)
  have i0: "invs (s_accounts (lockAccounts d ids))" by (rule locked_invs [OF i(1)])
  then have wf0: "accounts_wf (s_accounts (lockAccounts d ids))" by (simp add: invs_def)
  have cok: "change_ok c"
    using c row_entries_ok [OF i(3)] by (simp add: change_ok_def releases_ok_def)
  note ret = transition_returned [OF tr wf0 cok]
  have ev: "state_evolves (lockAccounts d ids) s" by (rule transition_evolves [OF tr wf0 cok])
  have dist: "distinct (map fst (s_accounts s))" by (rule transition_distinct [OF tr wf0 cok])
  note w = writeAccounts_extends [OF wr refl wf ev dist]
  have len: "length qs = length (c_add c)" by (rule transition_length [OF tr wf0 cok])
  have st: "txn_status_ok (t_status t)" using kind by (auto simp: txn_status_ok_def)
  have v: "tr_entriesVersion r \<le> t_entriesVersion t"
  proof -
    have "txn_by d1 (t_id t) = Some r" using r w(2) t(1) by (simp add: txn_by_def)
    from updateTransactionRow_Inr(3) [OF up this] show ?thesis
      using t(3) rok by (simp add: txn_row_ok_def)
  qed
  note rs = retxn_steps [OF r up ins t(1) w(2) st v]
  note ic = insert_changed_Inr [OF ins]
  have d2: "db_accounts d2 = db_accounts d1" "db_ledgers d2 = db_ledgers d1" "db_postings d2 = db_postings d"
    "db_pending d2 = db_pending d" "db_sequence d2 = db_sequence d" "db_holds d2 = db_holds d"
    "db_settlements d2 = db_settlements d" "db_settled d2 = db_settled d"
    using w(3-8) by (subst rs(4), simp)+
  have ap: "appended d (changed_columns t) (t_version t) (changed_pending t) d3"
    using ic(1) d2 by (simp add: appended_def)
  have acc3: "account_by d3 = account_by d1" using ic(3) d2(1) by (simp add: account_by_def)
  have ex: "extends d d3"
  proof (rule retxn_extends [OF rs(1)])
    fix j a assume "account_by d j = Some a"
    then show "\<exists>a'. account_by d3 j = Some a' \<and> ac_currency a' = ac_currency a \<and> ac_ledger a' = ac_ledger a"
      unfolding acc3 using extends_account [OF w(1)] by metis
  qed
  have ex2: "extends d2 d3"
    using ic(2,3) by (simp add: extends_def txn_by_def account_by_def)
  have cols: "map snd (changed_columns t) = (if t_status t = Posted then qs else [])"
    "map snd (changed_pending t) = (if t_status t = Pending then qs else [])"
    using t kind rs(3) rok
    by (auto simp: changed_columns_def changed_pending_def txn_row_ok_def)
  have archived: "t_status t = Archived \<Longrightarrow> moved j sd (c_add c) = 0" for j sd using kind by auto
  show ?thesis
  proof (rule change_inv [OF inv rs(1) ap _ ex, where keep = False])
    have sinv: "invs (s_accounts s)" by (rule transition_invs [OF tr i0 cok])
    have "accounts_inv d1" by (rule write_accounts_inv [OF wr refl refl i(1) ev sinv])
    then show "accounts_inv d3"
      using ic(3,4) d2 by (simp add: accounts_inv_def rows_wf_def ledger_by_def)
    show "entries_ok (map snd (changed_columns t))" "entries_ok (map snd (changed_pending t))"
      using ret(3) by (simp_all add: cols) (simp_all add: entries_ok_def)
    show "entry_home d3 x (p_account q) (p_currency q) \<and> x = tr_id r \<and> tr_status (update_row now t r) = Posted"
      if "(x, q) \<in> set (changed_columns t)" for x q
      using that ic(5) extends_home [OF ex2] t(1)
      by (auto simp: changed_columns_def entry_columns_def update_row_def split: if_splits)
    show "entry_home d3 x (p_account q) (p_currency q) \<and> x = tr_id r \<and>
        tr_status (update_row now t r) = Pending \<and> tr_entriesVersion (update_row now t r) = t_version t"
      if "(x, q) \<in> set (changed_pending t)" for x q
    proof -
      have "t_status t = Pending" using that cols(2) by (cases "changed_pending t") (auto split: if_splits)
      then show ?thesis
        using that ic(5) extends_home [OF ex2] t(1)
        by (auto simp: changed_pending_def entry_columns_def update_row_def split: if_splits)
    qed
    show "row_entries d3 (update_row now t r) \<noteq> []"
      using rok kind t len
      by (intro row_entries_changed [OF rs(2) _ ap t(1) _ t(3) st]) (auto simp: txn_row_ok_def)
    show "p_balanceAfter (snd (changed_columns t ! k)) =
        row_net (p_account (snd (changed_columns t ! k))) (db_postings d) +
        (moved (p_account (snd (changed_columns t ! k))) Debit (take (Suc k) (map snd (changed_columns t))) -
         moved (p_account (snd (changed_columns t ! k))) Credit (take (Suc k) (map snd (changed_columns t))))"
      if k: "k < length (changed_columns t)" for k
    proof -
      have "t_status t = Posted" using k by (auto simp: changed_columns_def split: if_splits)
      then have "chained (map_of (s_accounts (lockAccounts d ids))) (map snd (changed_columns t))"
        using ret(5) kind by (auto simp: cols)
      then show ?thesis by (rule chained_after [OF wf i(3,2) _ k])
    qed
    fix j a' assume a': "account_by d3 j = Some a'"
    then have "account_by d1 j = Some a'" by (simp add: acc3)
    from change_written [OF tr i(1) cok wr this] show "\<exists>a. account_by d j = Some a \<and>
      ac_postedDebits a' = ac_postedDebits a + moved j Debit (map snd (changed_columns t)) \<and>
      ac_postedCredits a' = ac_postedCredits a + moved j Credit (map snd (changed_columns t)) \<and>
      ac_pendingDebits a' = ac_pendingDebits a - (if False then 0 else moved j Debit (row_entries d r))
        + moved j Debit (map snd (changed_pending t)) \<and>
      ac_pendingCredits a' = ac_pendingCredits a - (if False then 0 else moved j Credit (row_entries d r))
        + moved j Credit (map snd (changed_pending t)) \<and>
      ac_held a' = ac_held a"
      unfolding cols using kind c(1,2) ret(2) archived by (auto simp: released_def)
  qed (use rs(3) t rok ic(6) in \<open>simp_all add: update_row_def txn_row_ok_def\<close>)
qed

section \<open>The interface of an edit\<close>

text \<open>
  What \<open>changePending\<close> relies on: for a valid request, the edit of a pending transaction either only
  changes its details, or takes back all of its entries and adds entries for the new status.
\<close>

locale pending_change =
  fixes edit :: "'a \<Rightarrow> txn_edit" and valid :: "'a \<Rightarrow> bool"
  assumes edit_sound: "valid x \<Longrightarrow> t_status cur = Pending \<Longrightarrow> entries_ok (t_postings cur) \<Longrightarrow>
    t_postings cur \<noteq> [] \<Longrightarrow> edit x cur = Inr (nxt, Some c) \<Longrightarrow> sound_edit cur nxt c"
begin

lemma change_keeps_inv:
  assumes x: "valid x" and inv: "db_inv d" and ch: "changePending d now i (edit x) already = Inr (out, d')"
  shows "db_inv d'"
proof -
  have j: "accounts_inv d" "journal_inv d" using inv unfolding db_inv_def db_inv_but_def by blast+
  obtain cur where cur: "lockTransaction d i = Inr cur" using ch by (auto simp: changePending_def)
  then obtain r where r: "txn_by d i = Some r" "cur = row_txn d r"
    using lockTransaction_Inr [OF j(2)] by blast
  have ri: "tr_id r = i" and rok: "txn_row_ok d r"
    using txn_by_SomeD [OF r(1)] j(2) by (auto simp: journal_inv_def)
  show ?thesis
  proof (cases "t_status cur = Pending")
    case False
    then have "d' = d" using ch cur by (auto simp: changePending_def split: option.splits if_splits)
    then show ?thesis using inv by simp
  next
    case True
    obtain nxt c where ed: "edit x cur = Inr (nxt, c)" using ch cur True by (auto simp: changePending_def)
    show ?thesis
    proof (cases c)
      case None
      then have "d' = d" using ch cur True ed by (auto simp: changePending_def)
      then show ?thesis using inv by simp
    next
      case (Some c')
      let ?nxt = "nxt\<lparr>t_version := t_version cur + 1\<rparr>"
      have pos: "entries_ok (t_postings cur)" "t_postings cur \<noteq> []"
        using row_entries_ok [OF j(2)] rok r(2) by (simp_all add: txn_row_ok_def)
      have sound: "sound_edit cur nxt c'"
        using edit_sound [OF x True pos] ed Some by simp
      obtain t d1 d2 d3 evs where cb: "change_balances d ?nxt c' = Inr (t, d1)"
        and up: "updateTransactionRow now t d1 = Inr d2" and ins: "insert_changed t d2 = Inr d3"
        and d': "d' = emit evs d3"
        using ch cur True ed Some by (auto simp: changePending_def Let_def)
      have rr: "txn_by d (tr_id r) = Some r" using r ri by simp
      have "db_inv d3"
      proof (cases "c' = no_change")
        case True
        then have t: "t = ?nxt" "d1 = d" using cb by (simp_all add: change_balances_def no_change_def)
        have "c_unpend c' \<noteq> t_postings cur" using True pos(2) by (simp add: no_change_def)
        then show ?thesis
          using change_metadata_inv [OF inv rr _ ins] up sound t r(2) by (simp add: sound_edit_def)
      next
        case False
        then have sn: "t_id nxt = t_id cur" "c_releases c' = []" "c_unpend c' = t_postings cur" "entries_ok (c_add c')"
          "t_status nxt = Pending \<and> c_status c' = Pending \<and> c_add c' \<noteq> [] \<and> t_entriesVersion nxt = t_version cur + 1 \<or>
           t_status nxt = Posted \<and> c_status c' = Posted \<and> c_add c' \<noteq> [] \<and> t_entriesVersion nxt = t_entriesVersion cur \<or>
           t_status nxt = Archived \<and> c_add c' = [] \<and> t_entriesVersion nxt = t_entriesVersion cur"
          using sound unfolding sound_edit_def by blast+
        then obtain s l qs where tr: "transition (lockAccounts d (map p_account (c_unpend c') @ map p_account (c_add c'))) c'
            = Inr (s, l, qs)" and wr: "writeAccounts s d = Inr d1" and t: "t = ?nxt\<lparr>t_postings := qs\<rparr>"
          using cb pos(2) by (auto simp: change_balances_def)
        show ?thesis
          by (rule change_entries_inv [OF inv rr tr wr up ins])
            (use sn r(2) t in \<open>auto split: if_splits\<close>)
      qed
      then show ?thesis by (simp add: d')
    qed
  qed
qed

end

definition update_ok :: "transactionUpdate \<Rightarrow> bool" where
  "update_ok u \<longleftrightarrow> (\<forall>ps. tu_postings u = Some ps \<longrightarrow> entries_ok ps \<and> ps \<noteq> [])"

interpretation upd: pending_change update_edit update_ok
proof
  fix u cur nxt c
  assume u: "update_ok u" and st: "t_status cur = Pending" and ed: "update_edit u cur = Inr (nxt, Some c)"
  obtain ds md where ap: "applyTransactionUpdate cur u = Inr (ds, md)" using ed by (auto simp: update_edit_def)
  show "sound_edit cur nxt c"
  proof (cases "c = no_change")
    case True
    then show ?thesis using ed ap st
      by (auto simp: update_edit_def Let_def sound_edit_def no_change_def split: if_splits option.splits)
  next
    case False
    then obtain ps where ps: "tu_postings u = Some ps"
      using ed ap by (auto simp: update_edit_def Let_def split: if_splits option.splits)
    then have "entries_ok ps" "ps \<noteq> []" using u by (simp_all add: update_ok_def)
    then show ?thesis
      using ed ap st ps False by (auto simp: update_edit_def Let_def sound_edit_def split: if_splits)
  qed
qed

interpretation part: pending_change post_edit entries_ok
proof
  fix ps cur nxt c
  assume "entries_ok ps" "t_status cur = Pending" "entries_ok (t_postings cur)" "t_postings cur \<noteq> []"
    and "post_edit ps cur = Inr (nxt, Some c)"
  then show "sound_edit cur nxt c" by (auto simp: post_edit_def sound_edit_def split: if_splits)
qed

interpretation arch: pending_change "\<lambda>_::unit. archive_edit" "\<lambda>_. True"
  by unfold_locales (auto simp: archive_edit_def sound_edit_def entries_ok_def)

section \<open>Partial posting\<close>

lemma moved_absent: "\<forall>q \<in> set ps. p_account q = a \<longrightarrow> p_side q \<noteq> s \<Longrightarrow> moved a s ps = 0"
  unfolding moved_def by (rule sum_over_none) auto

lemma pending_limits_Inr:
  assumes "pending_limits ls ps = Inr ls'"
  shows "map_of ls' (a, s) =
    (if \<exists>p \<in> set ps. p_account p = a \<and> p_side p = s then Some (or_zero 0 (map_of ls (a, s)) + moved a s ps)
     else map_of ls (a, s))"
  using assms
proof (induction ps arbitrary: ls)
  case (Cons p ps)
  have "pending_limits (AList.update (p_account p, p_side p)
      (or_zero 0 (map_of ls (p_account p, p_side p)) + p_amount p) ls) ps = Inr ls'"
    using Cons.prems by auto
  from Cons.IH [OF this] show ?case by (auto simp: algebra_simps moved_absent)
qed simp

lemma moved_entries_nonneg: "entries_ok ps \<Longrightarrow> 0 \<le> moved a s ps"
  by (auto simp: moved_def entries_ok_def list_all_iff entry_ok_def intro!: sum_over_nonneg)

lemma pending_limits_ok:
  assumes "entries_ok ps" "\<And>a s. 0 \<le> or_zero 0 (map_of ls (a, s))"
    and "\<And>a s. in_range (or_zero 0 (map_of ls (a, s)) + moved a s ps)"
  shows "\<exists>ls'. pending_limits ls ps = Inr ls'"
  using assms
proof (induction ps arbitrary: ls)
  case (Cons p ps)
  have p: "0 < p_amount p" and ps: "entries_ok ps" using Cons.prems(1) by (auto simp: entries_ok_def entry_ok_def)
  let ?k = "(p_account p, p_side p)" and ?t = "or_zero 0 (map_of ls (p_account p, p_side p)) + p_amount p"
  have t: "0 \<le> ?t" using p Cons.prems(2) [of "p_account p" "p_side p"] by simp
  have "in_range ?t"
    using Cons.prems(3) [of "p_account p" "p_side p"] t moved_entries_nonneg [OF ps, of "p_account p" "p_side p"]
    by (simp add: in_range_def)
  then have add: "amt_add (or_zero 0 (map_of ls ?k)) (p_amount p) = Inr ?t"
    using t by (simp add: addable_nonneg)
  have "\<exists>ls'. pending_limits (AList.update ?k ?t ls) ps = Inr ls'"
  proof (rule Cons.IH [OF ps])
    show "0 \<le> or_zero 0 (map_of (AList.update ?k ?t ls) (a, s))" for a s
      using t Cons.prems(2) [of a s] by auto
    show "in_range (or_zero 0 (map_of (AList.update ?k ?t ls) (a, s)) + moved a s ps)" for a s
      using Cons.prems(3) [of a s] by (cases "(a, s) = ?k") (auto simp: add.assoc)
  qed
  then show ?case using add by simp
qed simp

lemma within_limits_iff:
  assumes "entries_ok ps" "\<And>k n. map_of ls k = Some n \<Longrightarrow> 0 \<le> n \<and> in_range n"
  shows "within_limits ls ps = ok \<longleftrightarrow>
    (\<forall>a s. (\<exists>p \<in> set ps. p_account p = a \<and> p_side p = s) \<longrightarrow>
       (\<exists>n. map_of ls (a, s) = Some n \<and> moved a s ps \<le> n))"
  using assms
proof (induction ps arbitrary: ls)
  case (Cons p ps)
  have p: "0 < p_amount p" "in_range (p_amount p)" and ps: "entries_ok ps"
    using Cons.prems(1) by (auto simp: entries_ok_def entry_ok_def)
  have nn: "0 \<le> moved a s ps" for a s by (rule moved_entries_nonneg [OF ps])
  let ?k = "(p_account p, p_side p)"
  show ?case
  proof (cases "map_of ls ?k")
    case None
    have "\<not> (\<forall>a s. (\<exists>q \<in> set (p # ps). p_account q = a \<and> p_side q = s) \<longrightarrow>
       (\<exists>n. map_of ls (a, s) = Some n \<and> moved a s (p # ps) \<le> n))" (is "\<not> ?all")
    proof
      assume ?all
      from this [rule_format, of "p_account p" "p_side p"] show False using None by auto
    qed
    then show ?thesis using None by simp
  next
    case (Some n)
    then have n: "0 \<le> n" "in_range n" using Cons.prems(2) by auto
    have sub: "amt_sub n (p_amount p) = Inr (n - p_amount p)"
      using n p unfolding amt_sub_exact [OF p(2)] addable_def in_range_def by linarith
    show ?thesis
    proof (cases "n - p_amount p < 0")
      case True
      then have big: "\<not> moved (p_account p) (p_side p) (p # ps) \<le> n" using nn [of "p_account p" "p_side p"] by simp
      have "\<not> (\<forall>a s. (\<exists>q \<in> set (p # ps). p_account q = a \<and> p_side q = s) \<longrightarrow>
         (\<exists>n. map_of ls (a, s) = Some n \<and> moved a s (p # ps) \<le> n))" (is "\<not> ?all")
      proof
        assume ?all
        from this [rule_format, of "p_account p" "p_side p"] show False using Some big by auto
      qed
      then show ?thesis using Some sub True by simp
    next
      case False
      let ?ls = "AList.update ?k (n - p_amount p) ls"
      have ih: "within_limits ?ls ps = ok \<longleftrightarrow>
        (\<forall>a s. (\<exists>q \<in> set ps. p_account q = a \<and> p_side q = s) \<longrightarrow>
          (\<exists>m. map_of ?ls (a, s) = Some m \<and> moved a s ps \<le> m))"
      proof (rule Cons.IH [OF ps])
        fix k m assume m: "map_of ?ls k = Some m"
        have "in_range (n - p_amount p)" using False n p unfolding in_range_def by linarith
        then show "0 \<le> m \<and> in_range m"
          using m False Cons.prems(2) [of k m] by (cases "k = ?k") auto
      qed
      have "within_limits ls (p # ps) = ok \<longleftrightarrow> within_limits ?ls ps = ok" using Some sub False by simp
      also have "\<dots> \<longleftrightarrow> (\<forall>a s. (\<exists>q \<in> set (p # ps). p_account q = a \<and> p_side q = s) \<longrightarrow>
          (\<exists>m. map_of ls (a, s) = Some m \<and> moved a s (p # ps) \<le> m))"
        unfolding ih
      proof (intro all_cong1)
        fix a s
        show "((\<exists>q \<in> set ps. p_account q = a \<and> p_side q = s) \<longrightarrow>
            (\<exists>m. map_of ?ls (a, s) = Some m \<and> moved a s ps \<le> m)) =
          ((\<exists>q \<in> set (p # ps). p_account q = a \<and> p_side q = s) \<longrightarrow>
            (\<exists>m. map_of ls (a, s) = Some m \<and> moved a s (p # ps) \<le> m))"
          using Some False by (cases "(a, s) = ?k") (auto simp: moved_absent)
      qed
      finally show ?thesis .
    qed
  qed
qed simp

text \<open>Posting a part of a pending transaction is allowed exactly when no account posts more on a side
  than was pending there.\<close>

lemma checkPartial_iff:
  assumes pend: "entries_ok pending" and post: "entries_ok posted"
    and range: "\<And>a s. in_range (moved a s pending)"
  shows "checkPartial pending posted = ok \<longleftrightarrow> (\<forall>a s. moved a s posted \<le> moved a s pending)"
proof -
  obtain ls where lim: "pending_limits [] pending = Inr ls"
    using pending_limits_ok [OF pend, of "[]"] range by auto
  note nn = moved_entries_nonneg
  have ls: "map_of ls (a, s) = (if \<exists>p \<in> set pending. p_account p = a \<and> p_side p = s
      then Some (moved a s pending) else None)" for a s
    using pending_limits_Inr [OF lim, of a s] by simp
  have "checkPartial pending posted = ok \<longleftrightarrow> within_limits ls posted = ok"
    by (simp add: checkPartial_def lim)
  also have "\<dots> \<longleftrightarrow> (\<forall>a s. (\<exists>p \<in> set posted. p_account p = a \<and> p_side p = s) \<longrightarrow>
       (\<exists>n. map_of ls (a, s) = Some n \<and> moved a s posted \<le> n))"
  proof (rule within_limits_iff [OF post])
    show "0 \<le> n \<and> in_range n" if "map_of ls k = Some n" for k n
      using that ls [of "fst k" "snd k"] nn [OF pend] range by (auto split: if_splits)
  qed
  also have "\<dots> \<longleftrightarrow> (\<forall>a s. moved a s posted \<le> moved a s pending)"
  proof (intro all_cong1)
    fix a s
    show "((\<exists>p \<in> set posted. p_account p = a \<and> p_side p = s) \<longrightarrow>
        (\<exists>n. map_of ls (a, s) = Some n \<and> moved a s posted \<le> n)) = (moved a s posted \<le> moved a s pending)"
    proof (cases "\<exists>p \<in> set posted. p_account p = a \<and> p_side p = s")
      case True
      then have "0 < moved a s posted"
        using post
      proof (induction posted)
        case (Cons p ps)
        then have "entry_ok p" "entries_ok ps" by (auto simp: entries_ok_def)
        then show ?case using Cons nn [of ps a s] by (auto simp: entry_ok_def add_pos_nonneg)
      qed simp
      then show ?thesis using True ls [of a s] by (auto simp: moved_absent)
    next
      case False
      then show ?thesis using nn [OF pend] by (auto simp: moved_absent)
    qed
  qed
  finally show ?thesis .
qed

end
