(* ===== verification/Posting_Laws.thy ===== *)
theory Posting_Laws
  imports Posting Pending_Laws
begin

text \<open>
  The laws of posting: valid requests satisfy what the engine assumes of them, a batch keeps the
  invariant of the database, and a reversal takes back what its transaction posted.
\<close>

lemma db_invD:
  assumes "db_inv d"
  shows "accounts_inv d" "rows_wf d" "journal_inv d" "holds_inv d" "books [] d"
  using assms unfolding db_inv_def db_inv_but_def accounts_inv_def by blast+

section \<open>One request\<close>

lemma run_change_status:
  "run_change s i rel = Inr (s', st, l, ps) \<Longrightarrow> \<not> in_archiveOnLockFailure i \<Longrightarrow> st = input_status i"
  by (auto simp: run_change_def split: sum.splits prod.splits if_splits)

lemma applyRequests_single:
  assumes "applyRequests d now fresh [req] atomic = Applied rs d'"
  shows "\<exists>r. rs = [r] \<and> (\<forall>t. r = Success t False \<longrightarrow> \<not> in_archiveOnLockFailure (rq_in req) \<longrightarrow>
    t_status t = input_status (rq_in req))"
proof -
  let ?ex = "selectByKey d [in_key (rq_in req)]"
  obtain e r where rr: "resolveRequest ?ex now (fresh 0) (startEngine d [req]) 0 req = (e, r)" by fastforce
  have res: "e_results e = []"
    using rr by (cases rule: resolveRequest_cases) (simp_all add: startEngine_def)
  have rs: "rs = [r]"
    using assms rr res by (auto simp: applyRequests_def Let_def split: if_splits sum.splits)
  have "t_status t = input_status (rq_in req)"
    if r: "r = Success t False" and na: "\<not> in_archiveOnLockFailure (rq_in req)" for t
    using rr
  proof (cases rule: resolveRequest_cases)
    case unchanged
    then show ?thesis using r by simp
  next
    case (changed s' st l ps)
    have "\<not> in_archiveOnLockFailure (truncated (rq_in req))" using na by simp
    from run_change_status [OF changed(1) this] show ?thesis using changed(4) r by simp
  qed
  then show ?thesis using rs by blast
qed

lemma applyRequests_holds:
  assumes ap: "applyRequests d now fresh reqs atomic = Applied rs d'" and inv: "db_inv d"
    and reqs: "\<forall>req \<in> set reqs. request_ok req"
  shows "db_holds d' = db_holds d"
proof -
  have locked: "invs (s_accounts (lockAccounts d (concat (map request_accounts reqs))))"
    by (rule locked_invs [OF db_invD(1) [OF inv]])
  from ap locked reqs show ?thesis
  proof (cases rule: applyRequests_Applied)
    case (batch s)
    have dist: "distinct (map fst (s_accounts s))" using batch(2) by (simp add: invs_def accounts_wf_def)
    show ?thesis
      using writeBatch_tables [OF batch(1) db_invD(2) [OF inv] batch(3) dist] unfolding appended_def by blast
  qed simp
qed

lemma apply_one_Applied:
  assumes ap: "apply_one d now fresh req = Inr (Success t r, d')"
  shows "applyRequests d now fresh [req] True = Applied [Success t r] d'"
proof (cases "applyRequests d now fresh [req] True")
  case (Applied rs d2)
  then show ?thesis using ap applyRequests_single [OF Applied] by (auto simp: apply_one_def)
next
  case (AbortedBatch rs)
  let ?ex = "selectByKey d [in_key (rq_in req)]"
  obtain e r where rr: "resolveRequest ?ex now (fresh 0) (startEngine d [req]) 0 req = (e, r)" by fastforce
  have "e_results e = []"
    using rr by (cases rule: resolveRequest_cases) (simp_all add: startEngine_def)
  then have "rs = [r] \<and> result_failed r"
    using AbortedBatch rr by (auto simp: applyRequests_def Let_def split: if_splits sum.splits)
  then show ?thesis using ap AbortedBatch by (auto simp: apply_one_def)
qed (use ap in \<open>simp add: apply_one_def\<close>)

lemma apply_one_inv:
  assumes ap: "apply_one d now fresh req = Inr (Success t False, d')" and inv: "db_inv d"
    and req: "request_ok req" and na: "\<not> in_archiveOnLockFailure (rq_in req)"
  shows "db_inv_but (rq_releases req) d'" and "db_holds d' = db_holds d"
proof -
  note A = apply_one_Applied [OF ap]
  have st: "t_status t = input_status (rq_in req)" using applyRequests_single [OF A] na by simp
  then have "taken_by req (Success t False) = rq_releases req"
    using req by (auto simp: taken_by_def request_ok_def)
  then have "releases_by [req] [Success t False] = rq_releases req" by (simp add: releases_by_def)
  then show "db_inv_but (rq_releases req) d'" using applyRequests_inv [OF A inv] req by simp
  show "db_holds d' = db_holds d" using applyRequests_holds [OF A inv] req by simp
qed


text \<open>What a new transaction adds to the tables.\<close>

lemma apply_one_posts:
  assumes ap: "apply_one d now fresh req = Inr (Success t False, d')" and inv: "db_inv d"
    and req: "request_ok req" and na: "\<not> in_archiveOnLockFailure (rq_in req)"
    and posted: "input_status (rq_in req) = Posted"
  shows "t_id t = fresh 0" and "t_status t = Posted" and "t_key t = in_key (rq_in req)"
    and "t_reverses t = rq_reverses req"
    and "map (\<lambda>p. (p_account p, p_side p, p_amount p)) (t_postings t)
      = map (\<lambda>p. (p_account p, p_side p, p_amount p)) (in_postings (rq_in req))"
    and "db_txns d' = db_txns d @ [insert_row now t]"
    and "appended d (entry_columns t) 1 [] d'"
    and "distinct (map tr_id (db_txns d'))"
proof -
  note A = apply_one_Applied [OF ap]
  have locked: "invs (s_accounts (lockAccounts d (concat (map request_accounts [req]))))"
    by (rule locked_invs [OF db_invD(1) [OF inv]])
  have reqs: "\<forall>q \<in> set [req]. request_ok q" using req by simp
  let ?ex = "selectByKey d [in_key (rq_in req)]"
  obtain e r where rr: "resolveRequest ?ex now (fresh 0) (startEngine d [req]) 0 req = (e, r)" by fastforce
  have "e_results e = []"
    using rr by (cases rule: resolveRequest_cases) (simp_all add: startEngine_def)
  then have r: "r = Success t False"
    using A rr by (auto simp: applyRequests_def Let_def split: if_splits sum.splits)
  from rr obtain s' st l ps where rc: "run_change (lockAccounts d (request_accounts req))
      (truncated (rq_in req)) (rq_releases req) = Inr (s', st, l, ps)"
    and t: "t = new_txn (truncated (rq_in req)) (rq_reverses req) (fresh 0) now st l ps"
    by (cases rule: resolveRequest_cases) (use r in \<open>auto simp: startEngine_def\<close>)
  have "st = Posted" using run_change_status [OF rc] na posted by simp
  moreover have "map (\<lambda>p. (p_account p, p_side p, p_amount p)) ps
      = map (\<lambda>p. (p_account p, p_side p, p_amount p)) (in_postings (rq_in req))"
    using run_change_facts(10) [OF rc] locked req posted by (simp add: request_ok_def)
  ultimately show tf: "t_id t = fresh 0" "t_status t = Posted" "t_key t = in_key (rq_in req)"
    "t_reverses t = rq_reverses req"
    "map (\<lambda>p. (p_account p, p_side p, p_amount p)) (t_postings t)
      = map (\<lambda>p. (p_account p, p_side p, p_amount p)) (in_postings (rq_in req))"
    by (simp_all add: t)
  have "db_txns d' = db_txns d @ [insert_row now t] \<and> appended d (entry_columns t) 1 [] d' \<and>
    distinct (map tr_id (db_txns d'))"
    using A locked reqs
  proof (cases rule: applyRequests_Applied)
    case (batch s)
    have dist: "distinct (map fst (s_accounts s))" using batch(2) by (simp add: invs_def accounts_wf_def)
    have "distinct (map tr_id (db_txns d))" using db_invD(3) [OF inv] by (simp add: journal_inv_def)
    note ids = this
    show ?thesis
    proof (rule writeBatch_tables [OF batch(1) db_invD(2) [OF inv] batch(3) dist])
      assume "appended d (posted_columns (concat (map accepted_txn [Success t False]))) 1
          (pending_columns (concat (map accepted_txn [Success t False]))) d'"
        and "db_txns d' = db_txns d @ map (insert_row now) (concat (map accepted_txn [Success t False]))"
        and "distinct (map tr_id (db_txns d)) \<longrightarrow> distinct (map tr_id (db_txns d'))"
      then show ?thesis using tf(2) ids by simp
    qed
  qed simp
  then show "db_txns d' = db_txns d @ [insert_row now t]" "appended d (entry_columns t) 1 [] d'"
    "distinct (map tr_id (db_txns d'))" by blast+
qed

section \<open>Valid requests\<close>

text \<open>An amount that came out of the decoder is in range; validation adds that it is positive.\<close>

definition amounts_ok :: "posting list \<Rightarrow> bool" where
  "amounts_ok ps \<longleftrightarrow> list_all (\<lambda>p. in_range (p_amount p)) ps"

lemma validateEntries_entries_ok:
  "validateEntries ps = ok \<Longrightarrow> amounts_ok ps \<Longrightarrow> entries_ok ps \<and> ps \<noteq> []"
  using entry_check_ok
  by (fastforce simp: validateEntries_iff entries_ok_def entry_ok_def amounts_ok_def list_all_iff)

lemma validatePost_Inr:
  assumes "validatePost i = ok"
  shows "validateEntries (in_postings i) = ok" "input_status i = Pending \<or> input_status i = Posted"
  using assms by (auto simp: validatePost_def input_status_def)

lemma validatePost_request_ok:
  assumes "validatePost i = ok" "amounts_ok (in_postings i)"
  shows "request_ok (plain_request i)"
  using validatePost_Inr [OF assms(1)] validateEntries_entries_ok [OF _ assms(2)]
  by (simp add: request_ok_def plain_request_def releases_ok_def)

lemma valid_requests_ok:
  "list_all (\<lambda>i. amounts_ok (in_postings i)) ins \<Longrightarrow> \<forall>req \<in> set (valid_requests ins). request_ok req"
  by (auto simp: valid_requests_def list_all_iff intro: validatePost_request_ok)

lemma releases_by_plain:
  assumes "\<forall>req \<in> set reqs. rq_releases req = []"
  shows "releases_by reqs rs = []"
  using assms by (auto simp: releases_by_def taken_by_def set_zip_rightD dest!: set_zip_leftD split: postingResult.splits bool.splits)

section \<open>Batches\<close>

lemma runRequests_inv:
  assumes run: "runRequests d now fresh reqs atomic = Inr (rs, d')" and inv: "db_inv d"
    and reqs: "\<forall>req \<in> set reqs. request_ok req" and plain: "\<forall>req \<in> set reqs. rq_releases req = []"
  shows "db_inv d'"
proof (cases "applyRequests d now fresh reqs atomic")
  case (Applied rs1 d1)
  then have "d1 = d'" using run by (simp add: runRequests_def)
  then show ?thesis
    using applyRequests_inv [OF Applied inv reqs] releases_by_plain [OF plain] by (simp add: db_inv_def)
qed (use run inv in \<open>simp_all add: runRequests_def\<close>)

lemma postBatch_inv:
  assumes "postBatch d now fresh ins atomic = Inr (rs, d')" "db_inv d"
    and "list_all (\<lambda>i. amounts_ok (in_postings i)) ins"
  shows "db_inv d'"
proof -
  have plain: "\<forall>req \<in> set (valid_requests ins). rq_releases req = []"
    by (auto simp: valid_requests_def plain_request_def)
  show ?thesis
    using assms(1) runRequests_inv [OF _ assms(2) valid_requests_ok [OF assms(3)] plain] assms(2)
    by (auto simp: postBatch_def Let_def split: if_splits)
qed

section \<open>Reversal\<close>

lemma reversed_entries_ok:
  "entries_ok ps \<Longrightarrow> entries_ok (map reversed_entry ps)"
  by (auto simp: entries_ok_def entry_ok_def reversed_entry_def plain_posting_def list_all_iff)

lemma lockTransaction_entries_ok:
  assumes "journal_inv d" "lockTransaction d i = Inr t"
  shows "entries_ok (t_postings t)" "t_postings t \<noteq> []"
proof -
  obtain r where r: "txn_by d i = Some r" "t = row_txn d r" using lockTransaction_Inr [OF assms] by blast
  then show "entries_ok (t_postings t)" using row_entries_ok [OF assms(1)] by simp
  have "r \<in> set (db_txns d)" using r(1) txn_by_SomeD by blast
  then show "t_postings t \<noteq> []" using assms(1) r(2) by (simp add: journal_inv_def txn_row_ok_def)
qed

lemma reversalRequest_ok:
  assumes "entries_ok (t_postings t)" "t_postings t \<noteq> []"
  shows "request_ok (reversalRequest t inp)"
  using assms reversed_entries_ok [OF assms(1)]
  by (simp add: request_ok_def reversalRequest_def releases_ok_def input_status_def)

lemma apply_one_keeps:
  assumes ap: "apply_one d now fresh req = Inr (r, d')" and inv: "db_inv d" and req: "request_ok req"
    and plain: "rq_releases req = []"
  shows "db_inv d'"
proof (cases "applyRequests d now fresh [req] True")
  case (Applied rs d1)
  then have "d1 = d'" using ap by (auto simp: apply_one_def split: list.splits)
  then show ?thesis
    using applyRequests_inv [OF Applied inv] req releases_by_plain [of "[req]" rs] plain
    by (simp add: db_inv_def)
qed (use ap inv in \<open>auto simp: apply_one_def split: list.splits\<close>)

lemma reverse_inv:
  assumes rv: "reverse d now fresh i inp = Inr (t, replayed, d')" and inv: "db_inv d"
  shows "db_inv d'"
proof -
  obtain orig where lk: "lockTransaction d i = Inr orig" using rv by (auto simp: reverse_def)
  have ok: "request_ok (reversalRequest orig inp)"
    by (rule reversalRequest_ok [OF lockTransaction_entries_ok [OF db_invD(3) [OF inv] lk]])
  have plain: "rq_releases (reversalRequest orig inp) = []" by (simp add: reversalRequest_def)
  show ?thesis
  proof (cases "selectReversal d i")
    case (Inr prior)
    then show ?thesis using rv lk inv by (auto simp: reverse_def Let_def split: if_splits)
  next
    case (Inl e)
    obtain r d1 where ap: "apply_one d now fresh (reversalRequest orig inp) = Inr (r, d1)"
      using rv lk Inl by (auto simp: reverse_def Let_def)
    have "d' = d1"
      using rv lk Inl ap by (cases r) (auto simp: reverse_def Let_def)
    then show ?thesis using apply_one_keeps [OF ap inv ok plain] by simp
  qed
qed

end
