(* ===== verification/Batcher.thy ===== *)
theory Batcher
  imports Posting_Laws "HOL-Library.Multiset"
begin

text \<open>
  \<^verbatim>\<open>batcher.go\<close>: single postings wait in a queue, workers collect what is waiting into a batch and post
  the batch in one database transaction. When that fails, the requests of the batch are posted one by
  one, so that one of them cannot fail the others. The first part has the functions that a worker runs,
  the second the steps of all workers and callers together, interleaved in any order.
\<close>

section \<open>Collecting\<close>

text \<open>\<open>ch_id\<close> identifies the channel \<^verbatim>\<open>done\<close> on which the caller waits for its result.\<close>

record request =
  ch_id :: nat
  ch_req :: postingRequest

fun collect :: "nat \<Rightarrow> request list \<Rightarrow> request list \<Rightarrow> request list \<times> request list" where
  "collect maxBatch batch [] = (batch, [])"
| "collect maxBatch batch (r # queue) =
     (if length batch < maxBatch then collect maxBatch (batch @ [r]) queue else (batch, r # queue))"

lemma collect_split: "collect n batch queue = (b, rest) \<Longrightarrow> batch @ queue = b @ rest"
  by (induction n batch queue rule: collect.induct) (auto split: if_splits)

lemma collect_take: "collect n batch queue = (batch @ take (n - length batch) queue, drop (n - length batch) queue)"
proof (induction n batch queue rule: collect.induct)
  case (2 n batch r queue)
  show ?case
  proof (cases "length batch < n")
    case True
    then have "n - length batch = Suc (n - Suc (length batch))" by simp
    then show ?thesis using 2 True by simp
  qed simp
qed simp

lemma length_collect_rest: "collect n batch queue = (b, rest) \<Longrightarrow> length rest \<le> length queue"
  by (auto simp: collect_take)

section \<open>Committing\<close>

text \<open>
  \<open>run k\<close> is the database transaction number \<open>k\<close>, \<open>ended k i\<close> the error of the caller \<open>i\<close> whose context
  has ended before it. An answer is the caller and the result it gets.
\<close>

type_synonym runner = "nat \<Rightarrow> db \<Rightarrow> postingRequest list \<Rightarrow> (postingResult list \<times> db) res"

definition ended_answers :: "(nat \<Rightarrow> err option) \<Rightarrow> request list \<Rightarrow> (nat \<times> postingResult) list" where
  "ended_answers ended batch =
     concat (map (\<lambda>r. case ended (ch_id r) of None \<Rightarrow> [] | Some e \<Rightarrow> [(ch_id r, Failure e)]) batch)"

definition live_requests :: "(nat \<Rightarrow> err option) \<Rightarrow> request list \<Rightarrow> request list" where
  "live_requests ended batch = filter (\<lambda>r. ended (ch_id r) = None) batch"

text \<open>The call of \<^verbatim>\<open>commit\<close> on a batch of one, which does not call itself again.\<close>

definition commit_one ::
  "runner \<Rightarrow> (nat \<Rightarrow> nat \<Rightarrow> err option) \<Rightarrow> nat \<Rightarrow> db \<Rightarrow> request \<Rightarrow> (nat \<times> postingResult) list \<times> db" where
  "commit_one run ended k d r =
     (case ended k (ch_id r) of
        Some e \<Rightarrow> ([(ch_id r, Failure e)], d)
      | None \<Rightarrow>
          (case run k d [ch_req r] of
             Inl e \<Rightarrow> ([(ch_id r, Failure e)], d)
           | Inr (rs, d') \<Rightarrow> (zip [ch_id r] rs, d')))"

fun commit_each ::
  "runner \<Rightarrow> (nat \<Rightarrow> nat \<Rightarrow> err option) \<Rightarrow> nat \<Rightarrow> db \<Rightarrow> request list \<Rightarrow> (nat \<times> postingResult) list \<times> db" where
  "commit_each run ended k d [] = ([], d)"
| "commit_each run ended k d (r # rs) =
     (let (a, d1) = commit_one run ended k d r; (b, d2) = commit_each run ended (Suc k) d1 rs in (a @ b, d2))"

definition commit_batch ::
  "runner \<Rightarrow> (nat \<Rightarrow> nat \<Rightarrow> err option) \<Rightarrow> nat \<Rightarrow> db \<Rightarrow> request list \<Rightarrow> (nat \<times> postingResult) list \<times> db" where
  "commit_batch run ended k d batch =
     (let over = ended_answers (ended k) batch; live = live_requests (ended k) batch
      in if live = [] then (over, d)
         else case run k d (map ch_req live) of
                Inl e \<Rightarrow>
                  if length live > 1
                  then let (a, d') = commit_each run ended (Suc k) d live in (over @ a, d')
                  else (over @ map (\<lambda>r. (ch_id r, Failure e)) live, d)
              | Inr (rs, d') \<Rightarrow> (over @ zip (map ch_id live) rs, d'))"

lemma commit_batch_single: "commit_batch run ended k d [r] = commit_one run ended k d r"
  by (auto simp: commit_batch_def commit_one_def ended_answers_def live_requests_def Let_def
      split: option.splits sum.splits)

section \<open>Draining\<close>

text \<open>The loop of a worker that shuts down, alone at the queue: \<open>drain\<close> takes and commits batches until
  the queue is empty. \<open>k\<close> counts the database transactions; a batch uses at most one more than it has
  requests.\<close>

function drain ::
  "runner \<Rightarrow> (nat \<Rightarrow> nat \<Rightarrow> err option) \<Rightarrow> nat \<Rightarrow> nat \<Rightarrow> db \<Rightarrow> request list \<Rightarrow> (nat \<times> postingResult) list \<times> db" where
  "drain run ended maxBatch k d queue =
     (case queue of
        [] \<Rightarrow> ([], d)
      | r # rest \<Rightarrow>
          let (batch, rest') = collect maxBatch [r] rest;
              (a, d1) = commit_batch run ended k d batch;
              (b, d2) = drain run ended maxBatch (k + length batch + 1) d1 rest'
          in (a @ b, d2))"
  by pat_completeness auto

termination drain
  by (relation "measure (\<lambda>(run, ended, maxBatch, k, d, queue). length queue)")
    (auto simp: le_imp_less_Suc dest!: length_collect_rest [OF sym])

declare drain.simps [simp del]

section \<open>The contract of a database transaction\<close>

text \<open>What the batcher relies on: a database transaction that succeeds keeps the invariant and has one
  result for each request.\<close>

locale committer =
  fixes run :: runner and good :: "db \<Rightarrow> bool" and valid :: "postingRequest \<Rightarrow> bool"
  assumes run_keeps: "good d \<Longrightarrow> \<forall>q \<in> set reqs. valid q \<Longrightarrow> run k d reqs = Inr (rs, d') \<Longrightarrow>
    good d' \<and> length rs = length reqs"
begin

lemma commit_one_keeps:
  assumes "commit_one run ended k d r = (a, d')" "good d" "valid (ch_req r)"
  shows "good d' \<and> map fst a = [ch_id r]"
  using assms run_keeps [of d "[ch_req r]" k]
  by (auto simp: commit_one_def length_Suc_conv split: option.splits sum.splits)

lemma commit_each_keeps:
  assumes "commit_each run ended k d rs = (a, d')" "good d" "\<forall>r \<in> set rs. valid (ch_req r)"
  shows "good d' \<and> map fst a = map ch_id rs"
  using assms
proof (induction rs arbitrary: k d a)
  case (Cons r rs)
  obtain b1 d1 b2 where c: "commit_one run ended k d r = (b1, d1)"
    "commit_each run ended (Suc k) d1 rs = (b2, d')" "a = b1 @ b2"
    using Cons.prems(1) by (auto split: prod.splits)
  have "good d1 \<and> map fst b1 = [ch_id r]" using commit_one_keeps [OF c(1)] Cons.prems by simp
  then show ?case using Cons.IH [OF c(2)] Cons.prems c(3) by simp
qed simp

text \<open>Every request of a batch gets exactly one answer.\<close>

lemma commit_batch_keeps:
  assumes c: "commit_batch run ended k d batch = (a, d')" and g: "good d"
    and v: "\<forall>r \<in> set batch. valid (ch_req r)"
  shows "good d' \<and> mset (map fst a) = mset (map ch_id batch)"
proof -
  let ?over = "ended_answers (ended k) batch" and ?live = "live_requests (ended k) batch"
  have parts: "mset (map fst ?over) + mset (map ch_id ?live) = mset (map ch_id batch)"
    by (induction batch) (auto simp: ended_answers_def live_requests_def)
  have vl: "\<forall>r \<in> set ?live. valid (ch_req r)" using v by (auto simp: live_requests_def)
  show ?thesis
  proof (cases "?live = []")
    case True
    then show ?thesis using c g parts by (auto simp: commit_batch_def)
  next
    case False
    show ?thesis
    proof (cases "run k d (map ch_req ?live)")
      case (Inl e)
      show ?thesis
      proof (cases "length ?live > 1")
        case True
        obtain b where b: "commit_each run ended (Suc k) d ?live = (b, d')" "a = ?over @ b"
          using c False Inl True by (auto simp: commit_batch_def Let_def split: prod.splits)
        show ?thesis using commit_each_keeps [OF b(1) g vl] b(2) parts by simp
      next
        case small: False
        have "a = ?over @ map (\<lambda>r. (ch_id r, Failure e)) ?live" "d' = d"
          using c False Inl small by (auto simp: commit_batch_def Let_def)
        then show ?thesis using g parts by (simp add: comp_def)
      qed
    next
      case (Inr x)
      obtain rs d1 where x: "x = (rs, d1)" by fastforce
      have k: "good d1 \<and> length rs = length (map ch_req ?live)"
        using run_keeps [OF g, of "map ch_req ?live" k rs d1] vl Inr x by simp
      have "a = ?over @ zip (map ch_id ?live) rs" "d' = d1"
        using c False Inr x by (auto simp: commit_batch_def Let_def)
      then show ?thesis using k parts by simp
    qed
  qed
qed

text \<open>A worker that drains a queue ends, answers every request in it once and keeps the database.\<close>

lemma drain_answers:
  assumes "drain run ended maxBatch k d queue = (a, d')" "good d" "\<forall>r \<in> set queue. valid (ch_req r)"
  shows "good d' \<and> mset (map fst a) = mset (map ch_id queue)"
  using assms
proof (induction "length queue" arbitrary: k d queue a rule: less_induct)
  case less
  show ?case
  proof (cases queue)
    case Nil
    then show ?thesis using less.prems by (simp add: drain.simps)
  next
    case (Cons r rest)
    obtain batch rest' where c: "collect maxBatch [r] rest = (batch, rest')" by fastforce
    obtain b d1 where b: "commit_batch run ended k d batch = (b, d1)" by fastforce
    obtain b2 where d2: "drain run ended maxBatch (k + length batch + 1) d1 rest' = (b2, d')" "a = b @ b2"
      using less.prems(1) Cons c b by (subst (asm) drain.simps) (auto split: prod.splits)
    have q: "queue = batch @ rest'" using collect_split [OF c] Cons by simp
    have vb: "\<forall>r \<in> set batch. valid (ch_req r)" and vr: "\<forall>r \<in> set rest'. valid (ch_req r)"
      using less.prems(3) q by auto
    have one: "good d1 \<and> mset (map fst b) = mset (map ch_id batch)"
      by (rule commit_batch_keeps [OF b less.prems(2) vb])
    have "length rest' < length queue" using length_collect_rest [OF c] Cons by simp
    from less.hyps [OF this d2(1) _ vr] one
    have "good d' \<and> mset (map fst b2) = mset (map ch_id rest')" by simp
    then show ?thesis using one d2(2) q by simp
  qed
qed

end

section \<open>The database transaction of a group\<close>

text \<open>\<open>down k\<close> is the error of a database that cannot be reached, or that timed out, in the database
  transaction number \<open>k\<close>; \<open>now\<close> and \<open>fresh\<close> are its time and the ids it creates.\<close>

definition batch_run :: "(nat \<Rightarrow> err option) \<Rightarrow> (nat \<Rightarrow> gotime) \<Rightarrow> (nat \<Rightarrow> nat \<Rightarrow> uuid) \<Rightarrow> runner" where
  "batch_run down now fresh k d reqs =
     (case down k of Some e \<Rightarrow> Inl e | None \<Rightarrow> runRequests d (now k) (fresh k) reqs False)"

definition plain_ok :: "postingRequest \<Rightarrow> bool" where
  "plain_ok req \<longleftrightarrow> request_ok req \<and> rq_releases req = []"

lemma resolve_all_not_atomic: "resolve_all ex now fresh False e n reqs = (e', b) \<Longrightarrow> b"
  by (induction reqs arbitrary: e n) (auto simp: Let_def split: prod.splits if_splits)

lemma runRequests_length:
  assumes run: "runRequests d now fresh reqs False = Inr (rs, d')" and inv: "db_inv d"
    and reqs: "\<forall>req \<in> set reqs. request_ok req"
  shows "length rs = length reqs"
proof (cases "applyRequests d now fresh reqs False")
  case (Applied rs1 d1)
  then have rs: "rs1 = rs" using run by (simp add: runRequests_def)
  show ?thesis
    using Applied locked_invs [OF db_invD(1) [OF inv]] reqs rs by (cases rule: applyRequests_Applied) simp_all
next
  case (AbortedBatch rs1)
  then show ?thesis
    by (auto simp: applyRequests_def Let_def dest!: resolve_all_not_atomic split: if_splits prod.splits sum.splits)
qed (use run in \<open>simp add: runRequests_def\<close>)

interpretation group: committer "batch_run down now fresh" db_inv plain_ok for down now fresh
proof
  fix d reqs k rs d'
  assume inv: "db_inv d" and reqs: "\<forall>q \<in> set reqs. plain_ok q" and run: "batch_run down now fresh k d reqs = Inr (rs, d')"
  have run': "runRequests d (now k) (fresh k) reqs False = Inr (rs, d')"
    using run by (simp add: batch_run_def split: option.splits)
  show "db_inv d' \<and> length rs = length reqs"
    using runRequests_inv [OF run' inv] runRequests_length [OF run' inv] reqs by (simp add: plain_ok_def)
qed

section \<open>Workers and callers\<close>

text \<open>
  A worker waits, collects a batch, posts the requests of a failed batch one by one, or has returned.
  The group commit of \<open>commit_group\<close> is one database transaction, so that the steps of other workers
  can come between the retries of a batch.
\<close>

datatype worker = Idle | Collecting "request list" | Retrying "request list" | Exited

fun requests_of :: "worker \<Rightarrow> request list" where
  "requests_of (Collecting b) = b"
| "requests_of (Retrying b) = b"
| "requests_of _ = []"

record pool =
  pl_queue :: "request list"
  pl_workers :: "worker list"
  pl_answers :: "(nat \<times> postingResult) list"
  pl_accepted :: "nat list"
  pl_stopping :: bool
  pl_db :: db
  pl_count :: nat

definition commit_group ::
  "runner \<Rightarrow> (nat \<Rightarrow> nat \<Rightarrow> err option) \<Rightarrow> nat \<Rightarrow> db \<Rightarrow> request list \<Rightarrow> (nat \<times> postingResult) list \<times> worker \<times> db" where
  "commit_group run ended k d batch =
     (let over = ended_answers (ended k) batch; live = live_requests (ended k) batch
      in if live = [] then (over, Idle, d)
         else case run k d (map ch_req live) of
                Inl e \<Rightarrow>
                  if length live > 1 then (over, Retrying live, d)
                  else (over @ map (\<lambda>r. (ch_id r, Failure e)) live, Idle, d)
              | Inr (rs, d') \<Rightarrow> (over @ zip (map ch_id live) rs, Idle, d'))"

text \<open>The steps of the workers. A batch is committed at any moment after it has a request: \<^verbatim>\<open>collect\<close>
  returns when the queue was empty once, whatever comes into it later.\<close>

inductive work :: "runner \<Rightarrow> (nat \<Rightarrow> nat \<Rightarrow> err option) \<Rightarrow> nat \<Rightarrow> pool \<Rightarrow> pool \<Rightarrow> bool"
  for run ended maxBatch where
  first: "work run ended maxBatch p
      (p\<lparr>pl_queue := queue, pl_workers := (pl_workers p)[w := Collecting [r]]\<rparr>)"
    if "w < length (pl_workers p)" "pl_workers p ! w = Idle" "pl_queue p = r # queue"
| more: "work run ended maxBatch p
      (p\<lparr>pl_queue := queue, pl_workers := (pl_workers p)[w := Collecting (batch @ [r])]\<rparr>)"
    if "w < length (pl_workers p)" "pl_workers p ! w = Collecting batch" "length batch < maxBatch"
       "pl_queue p = r # queue"
| group: "work run ended maxBatch p
      (p\<lparr>pl_workers := (pl_workers p)[w := x], pl_answers := pl_answers p @ a, pl_db := d', pl_count := Suc (pl_count p)\<rparr>)"
    if "w < length (pl_workers p)" "pl_workers p ! w = Collecting batch"
       "commit_group run ended (pl_count p) (pl_db p) batch = (a, x, d')"
| single: "work run ended maxBatch p
      (p\<lparr>pl_workers := (pl_workers p)[w := Retrying rs], pl_answers := pl_answers p @ a, pl_db := d', pl_count := Suc (pl_count p)\<rparr>)"
    if "w < length (pl_workers p)" "pl_workers p ! w = Retrying (r # rs)"
       "commit_one run ended (pl_count p) (pl_db p) r = (a, d')"
| retried: "work run ended maxBatch p (p\<lparr>pl_workers := (pl_workers p)[w := Idle]\<rparr>)"
    if "w < length (pl_workers p)" "pl_workers p ! w = Retrying []"
| exit: "work run ended maxBatch p (p\<lparr>pl_workers := (pl_workers p)[w := Exited]\<rparr>)"
    if "w < length (pl_workers p)" "pl_workers p ! w = Idle" "pl_stopping p" "pl_queue p = []"

text \<open>\<^verbatim>\<open>submit\<close> puts a request with a new channel into the queue when there is room; \<^verbatim>\<open>post\<close> has
  validated it. \<open>stop\<close> ends the context of the workers.\<close>

inductive pool_step :: "runner \<Rightarrow> (nat \<Rightarrow> nat \<Rightarrow> err option) \<Rightarrow> nat \<Rightarrow> nat \<Rightarrow> pool \<Rightarrow> pool \<Rightarrow> bool"
  for run ended maxBatch queueSize where
  submit: "pool_step run ended maxBatch queueSize p
      (p\<lparr>pl_queue := pl_queue p @ [\<lparr>ch_id = c, ch_req = plain_request i\<rparr>], pl_accepted := pl_accepted p @ [c]\<rparr>)"
    if "validatePost i = ok" "amounts_ok (in_postings i)" "length (pl_queue p) < queueSize" "c \<notin> set (pl_accepted p)"
| work: "work run ended maxBatch p p' \<Longrightarrow> pool_step run ended maxBatch queueSize p p'"
| stop: "pool_step run ended maxBatch queueSize p (p\<lparr>pl_stopping := True\<rparr>)"

inductive_cases workE [consumes 1, case_names first more group single retried exit]: "work run ended maxBatch p p'"
inductive_cases pool_stepE [consumes 1, case_names submit work stop]: "pool_step run ended maxBatch queueSize p p'"

definition pool_start :: "nat \<Rightarrow> db \<Rightarrow> pool" where
  "pool_start workers d =
     \<lparr>pl_queue = [], pl_workers = replicate workers Idle, pl_answers = [], pl_accepted = [],
      pl_stopping = False, pl_db = d, pl_count = 0\<rparr>"

definition pool_requests :: "pool \<Rightarrow> request list" where
  "pool_requests p = pl_queue p @ concat (map requests_of (pl_workers p))"

definition pool_inv :: "nat \<Rightarrow> nat \<Rightarrow> pool \<Rightarrow> bool" where
  "pool_inv maxBatch queueSize p \<longleftrightarrow>
     db_inv (pl_db p) \<and> (\<forall>r \<in> set (pool_requests p). plain_ok (ch_req r)) \<and>
     mset (map fst (pl_answers p)) + mset (map ch_id (pool_requests p)) = mset (pl_accepted p) \<and>
     distinct (pl_accepted p) \<and> length (pl_queue p) \<le> queueSize \<and>
     (\<forall>x \<in> set (pl_workers p). length (requests_of x) \<le> max 1 maxBatch)"

lemma mset_requests_update:
  "w < length ws \<Longrightarrow> mset (concat (map requests_of (ws[w := x]))) + mset (requests_of (ws ! w)) =
    mset (concat (map requests_of ws)) + mset (requests_of x)"
proof (induction ws arbitrary: w)
  case (Cons y ws)
  then show ?case by (cases w) (auto simp: ac_simps)
qed simp

lemma mset_move:
  fixes S :: "'a multiset"
  assumes "M' + X + T = M + Y" "A + Y = X + T" "A0 + M = S"
  shows "(A0 + A) + M' = S"
proof (rule multiset_eqI)
  fix x
  have "count M' x + count X x + count T x = count M x + count Y x"
    "count A x + count Y x = count X x + count T x" "count A0 x + count M x = count S x"
    using arg_cong [OF assms(1), of "\<lambda>m. count m x"] arg_cong [OF assms(2), of "\<lambda>m. count m x"]
      arg_cong [OF assms(3), of "\<lambda>m. count m x"] by simp_all
  then show "count ((A0 + A) + M') x = count S x" by simp
qed

text \<open>A step that only moves requests between the queue, one worker and the answers.\<close>

lemma pool_inv_move:
  assumes inv: "pool_inv maxBatch queueSize p" and w: "w < length (pl_workers p)"
    and q: "pl_queue p = taken @ queue" and d: "db_inv d'"
    and ids: "mset (map fst a) + mset (map ch_id (requests_of x)) = mset (map ch_id (requests_of (pl_workers p ! w))) + mset (map ch_id taken)"
    and sub: "set (requests_of x) \<subseteq> set (requests_of (pl_workers p ! w)) \<union> set taken"
    and len: "length (requests_of x) \<le> max 1 maxBatch"
  shows "pool_inv maxBatch queueSize
    (p\<lparr>pl_queue := queue, pl_workers := (pl_workers p)[w := x], pl_answers := pl_answers p @ a, pl_db := d', pl_count := n\<rparr>)"
proof -
  let ?p = "p\<lparr>pl_queue := queue, pl_workers := (pl_workers p)[w := x], pl_answers := pl_answers p @ a, pl_db := d', pl_count := n\<rparr>"
  have i: "mset (map fst (pl_answers p)) + mset (map ch_id (pool_requests p)) = mset (pl_accepted p)"
    "\<forall>r \<in> set (pool_requests p). plain_ok (ch_req r)" "distinct (pl_accepted p)" "length (pl_queue p) \<le> queueSize"
    "\<forall>x \<in> set (pl_workers p). length (requests_of x) \<le> max 1 maxBatch"
    using inv unfolding pool_inv_def by blast+
  note upd = mset_requests_update [OF w, of x]
  have "mset (pool_requests ?p) + mset (requests_of (pl_workers p ! w)) + mset taken =
      mset (pool_requests p) + mset (requests_of x)"
    using upd by (simp add: pool_requests_def q ac_simps)
  from arg_cong [OF this, of "image_mset ch_id"]
  have ids': "mset (map ch_id (pool_requests ?p)) + mset (map ch_id (requests_of (pl_workers p ! w))) + mset (map ch_id taken) =
      mset (map ch_id (pool_requests p)) + mset (map ch_id (requests_of x))"
    by simp
  have "mset (map fst (pl_answers p)) + mset (map fst a) + mset (map ch_id (pool_requests ?p)) = mset (pl_accepted p)"
    by (rule mset_move [OF ids' ids i(1)])
  then have "mset (map fst (pl_answers ?p)) + mset (map ch_id (pool_requests ?p)) = mset (pl_accepted ?p)"
    by simp
  moreover have "set (pool_requests ?p) \<subseteq> set (pool_requests p)"
  proof -
    have "set ((pl_workers p)[w := x]) \<subseteq> insert x (set (pl_workers p))" by (rule set_update_subset_insert)
    moreover have "requests_of (pl_workers p ! w) \<in> requests_of ` set (pl_workers p)" using w by simp
    ultimately show ?thesis using sub by (fastforce simp: pool_requests_def q)
  qed
  then have "\<forall>r \<in> set (pool_requests ?p). plain_ok (ch_req r)" using i(2) by blast
  moreover have "\<forall>y \<in> set ((pl_workers p)[w := x]). length (requests_of y) \<le> max 1 maxBatch"
    using i(5) len set_update_subset_insert [of "pl_workers p" w x] by blast
  ultimately show ?thesis using i(3,4) d q unfolding pool_inv_def by simp
qed

lemma commit_group_batch:
  "commit_group run ended k d batch = (a, x, d') \<Longrightarrow>
    (x = Idle \<and> commit_batch run ended k d batch = (a, d')) \<or>
    (x = Retrying (live_requests (ended k) batch) \<and> d' = d \<and> a = ended_answers (ended k) batch \<and>
      1 < length (live_requests (ended k) batch))"
  by (auto simp: commit_group_def commit_batch_def Let_def split: if_splits sum.splits)

lemma ended_and_live:
  "mset (map fst (ended_answers ended batch)) + mset (map ch_id (live_requests ended batch)) = mset (map ch_id batch)"
  by (induction batch) (auto simp: ended_answers_def live_requests_def)

lemma work_keeps_inv:
  assumes w: "work (batch_run down now fresh) ended maxBatch p p'" and inv: "pool_inv maxBatch queueSize p"
  shows "pool_inv maxBatch queueSize p'"
proof -
  have d: "db_inv (pl_db p)" using inv by (simp add: pool_inv_def)
  have valid: "\<forall>r \<in> set (requests_of (pl_workers p ! w)). plain_ok (ch_req r)" if "w < length (pl_workers p)" for w
  proof -
    have "set (requests_of (pl_workers p ! w)) \<subseteq> set (pool_requests p)"
      using nth_mem [OF that] by (auto simp: pool_requests_def)
    then show ?thesis using inv unfolding pool_inv_def by blast
  qed
  have size: "length (requests_of (pl_workers p ! w)) \<le> max 1 maxBatch" if "w < length (pl_workers p)" for w
    using inv nth_mem [OF that] unfolding pool_inv_def by blast
  note move = pool_inv_move [OF inv]
  show ?thesis
    using w
  proof (cases rule: workE)
    case (first w r queue)
    show ?thesis unfolding first(1)
      using move [OF first(2), of "[r]" queue "pl_db p" "[]" "Collecting [r]" "pl_count p"] first d by simp
  next
    case (more w batch r queue)
    show ?thesis unfolding more(1)
      using move [OF more(2), of "[r]" queue "pl_db p" "[]" "Collecting (batch @ [r])" "pl_count p"] more d by simp
  next
    case (group w batch a x d')
    have v: "\<forall>r \<in> set batch. plain_ok (ch_req r)" using valid [OF group(2)] group(3) by simp
    have out: "db_inv d' \<and> mset (map fst a) + mset (map ch_id (requests_of x)) = mset (map ch_id batch) \<and>
        set (requests_of x) \<subseteq> set batch \<and> length (requests_of x) \<le> length batch"
      using commit_group_batch [OF group(4)]
    proof
      assume c: "x = Idle \<and> commit_batch (batch_run down now fresh) ended (pl_count p) (pl_db p) batch = (a, d')"
      then show ?thesis using group.commit_batch_keeps d v by fastforce
    next
      assume "x = Retrying (live_requests (ended (pl_count p)) batch) \<and> d' = pl_db p \<and>
        a = ended_answers (ended (pl_count p)) batch \<and> 1 < length (live_requests (ended (pl_count p)) batch)"
      then show ?thesis using d ended_and_live [of "ended (pl_count p)" batch] by (auto simp: live_requests_def)
    qed
    show ?thesis unfolding group(1)
      using move [OF group(2), of "[]" "pl_queue p" d' a x "Suc (pl_count p)"] out group(3) size [OF group(2)] by simp
  next
    case (single w r rs a d')
    have "db_inv d' \<and> map fst a = [ch_id r]"
      using group.commit_one_keeps [OF single(4) d] valid [OF single(2)] single(3) by simp
    then show ?thesis unfolding single(1)
      using move [OF single(2), of "[]" "pl_queue p" d' a "Retrying rs" "Suc (pl_count p)"] single(3) size [OF single(2)]
      by auto
  next
    case (retried w)
    show ?thesis unfolding retried(1)
      using move [OF retried(2), of "[]" "pl_queue p" "pl_db p" "[]" Idle "pl_count p"] retried d by simp
  next
    case (exit w)
    show ?thesis unfolding exit(1)
      using move [OF exit(2), of "[]" "pl_queue p" "pl_db p" "[]" Exited "pl_count p"] exit(3) d by simp
  qed
qed

lemma pool_step_keeps_inv:
  assumes "pool_step (batch_run down now fresh) ended maxBatch queueSize p p'" "pool_inv maxBatch queueSize p"
  shows "pool_inv maxBatch queueSize p'"
  using assms
proof (cases rule: pool_stepE)
  case (submit i c)
  have "plain_ok (plain_request i)"
    using validatePost_request_ok [OF submit(2,3)] by (simp add: plain_ok_def plain_request_def)
  then show ?thesis using assms(2) submit by (auto simp: pool_inv_def pool_requests_def)
next
  case stop
  then show ?thesis using assms(2) by (simp add: pool_inv_def pool_requests_def)
qed (rule work_keeps_inv)

lemma pool_start_inv: "db_inv d \<Longrightarrow> pool_inv maxBatch queueSize (pool_start n d)"
  by (auto simp: pool_inv_def pool_start_def pool_requests_def concat_replicate_trivial)

lemma pool_reachable_inv:
  assumes "(pool_step (batch_run down now fresh) ended maxBatch queueSize)\<^sup>*\<^sup>* (pool_start n d) p" "db_inv d"
  shows "pool_inv maxBatch queueSize p"
  using assms(1)
  by (induction rule: rtranclp_induct) (auto simp: pool_start_inv assms(2) intro: pool_step_keeps_inv)

section \<open>Shutting down\<close>

fun weight :: "worker \<Rightarrow> nat" where
  "weight Idle = 1"
| "weight (Collecting b) = 2 * length b + 2"
| "weight (Retrying b) = length b + 2"
| "weight Exited = 0"

definition pool_measure :: "pool \<Rightarrow> nat" where
  "pool_measure p = 4 * length (pl_queue p) + sum_list (map weight (pl_workers p))"

lemma sum_weight_update:
  "w < length ws \<Longrightarrow> sum_list (map weight (ws[w := x])) + weight (ws ! w) = sum_list (map weight ws) + weight x"
proof (induction ws arbitrary: w)
  case (Cons y ws)
  then show ?case by (cases w) auto
qed simp

text \<open>Without new requests the workers stop working: every step of a worker makes the measure smaller.\<close>

lemma work_decreases:
  assumes "work run ended maxBatch p p'"
  shows "pool_measure p' < pool_measure p"
  using assms
proof (cases rule: workE)
  case (group w batch a x d')
  have "length (live_requests (ended (pl_count p)) batch) \<le> length batch" by (simp add: live_requests_def)
  then have "weight x < 2 * length batch + 2"
    using group(4) by (auto simp: commit_group_def Let_def split: if_splits sum.splits)
  then show ?thesis using sum_weight_update [OF group(2), of x] group by (simp add: pool_measure_def)
next
  case (first w r queue)
  then show ?thesis using sum_weight_update [OF first(2), of "Collecting [r]"] by (simp add: pool_measure_def)
next
  case (more w batch r queue)
  then show ?thesis using sum_weight_update [OF more(2), of "Collecting (batch @ [r])"] by (simp add: pool_measure_def)
next
  case (single w r rs a d')
  then show ?thesis using sum_weight_update [OF single(2), of "Retrying rs"] by (simp add: pool_measure_def)
next
  case (retried w)
  then show ?thesis using sum_weight_update [OF retried(2), of Idle] by (simp add: pool_measure_def)
next
  case (exit w)
  then show ?thesis using sum_weight_update [OF exit(2), of Exited] by (simp add: pool_measure_def)
qed

lemma work_keeps_rest:
  assumes "work run ended maxBatch p p'"
  shows "pl_stopping p' = pl_stopping p" "pl_accepted p' = pl_accepted p"
    "length (pl_workers p') = length (pl_workers p)"
  using assms by (cases rule: workE; simp)+

text \<open>Workers that were told to stop have something to do until all of them returned.\<close>

lemma work_progress:
  assumes stop: "pl_stopping p" and w: "w < length (pl_workers p)" "pl_workers p ! w \<noteq> Exited"
  shows "\<exists>p'. work run ended maxBatch p p'"
proof (cases "pl_workers p ! w")
  case Idle
  then show ?thesis
  proof (cases "pl_queue p")
    case Nil
    then show ?thesis using work.exit [OF w(1) Idle stop] by blast
  next
    case (Cons r queue)
    then show ?thesis using work.first [OF w(1) Idle] by blast
  qed
next
  case (Collecting batch)
  obtain a x d' where "commit_group run ended (pl_count p) (pl_db p) batch = (a, x, d')" by (rule prod_cases3)
  then show ?thesis using work.group [OF w(1) Collecting] by blast
next
  case (Retrying batch)
  show ?thesis
  proof (cases batch)
    case Nil
    then show ?thesis using work.retried [OF w(1)] Retrying by blast
  next
    case (Cons r rs)
    obtain a d' where "commit_one run ended (pl_count p) (pl_db p) r = (a, d')" by fastforce
    then show ?thesis using work.single [OF w(1)] Retrying Cons by blast
  qed
qed (use w in simp)

lemma work_finishes: "\<exists>p'. (work run ended maxBatch)\<^sup>*\<^sup>* p p' \<and> \<not> (\<exists>p''. work run ended maxBatch p' p'')"
proof (induction "pool_measure p" arbitrary: p rule: less_induct)
  case less
  show ?case
  proof (cases "\<exists>p''. work run ended maxBatch p p''")
    case True
    then obtain p1 where p1: "work run ended maxBatch p p1" by blast
    from less.hyps [OF work_decreases [OF p1]] show ?thesis using p1 by (meson converse_rtranclp_into_rtranclp)
  qed blast
qed

text \<open>Once a worker has returned, the queue was empty; a worker that is left takes what comes after.\<close>

definition drained :: "pool \<Rightarrow> bool" where
  "drained p \<longleftrightarrow> (Exited \<in> set (pl_workers p) \<longrightarrow> pl_queue p = [])"

lemma work_drained:
  assumes "work run ended maxBatch p p'" "drained p"
  shows "drained p'"
  using assms
proof (cases rule: workE)
  case (group w batch a x d')
  have "x \<noteq> Exited" using group(4) by (auto simp: commit_group_def Let_def split: if_splits sum.splits)
  then show ?thesis using assms(2) group set_update_subset_insert [of "pl_workers p" w x] by (auto simp: drained_def)
qed (use assms(2) in \<open>auto simp: drained_def dest!: set_update_subset_insert [THEN subsetD]\<close>)

lemma shut_down:
  assumes run: "(work (batch_run down now fresh) ended maxBatch)\<^sup>*\<^sup>* p p'" and stop: "pl_stopping p"
    and over: "\<not> (\<exists>p''. work (batch_run down now fresh) ended maxBatch p' p'')"
    and inv: "pool_inv maxBatch queueSize p" and dr: "drained p" and n: "pl_workers p \<noteq> []"
  shows "set (pl_workers p') = {Exited} \<and> pl_queue p' = [] \<and> mset (map fst (pl_answers p')) = mset (pl_accepted p)"
proof -
  have k: "pl_stopping p' \<and> pl_accepted p' = pl_accepted p \<and> length (pl_workers p') = length (pl_workers p) \<and>
      pool_inv maxBatch queueSize p' \<and> drained p'"
    using run
  proof (induction rule: rtranclp_induct)
    case base
    then show ?case using stop inv dr by simp
  next
    case (step q q')
    then show ?case using work_keeps_rest [OF step(2)] work_keeps_inv [OF step(2)] work_drained [OF step(2)] by simp
  qed
  have ex: "pl_workers p' ! w = Exited" if "w < length (pl_workers p')" for w
    using work_progress [of p' w "batch_run down now fresh" ended maxBatch] over that k by blast
  then have "\<forall>x \<in> set (pl_workers p'). x = Exited" by (auto simp: in_set_conv_nth)
  moreover have ne: "pl_workers p' \<noteq> []" using k n by auto
  ultimately have s: "set (pl_workers p') = {Exited}" by (cases "pl_workers p'") auto
  then have q: "pl_queue p' = []" using k by (simp add: drained_def)
  have none: "pool_requests p' = []" using s q by (simp add: pool_requests_def)
  have "mset (map fst (pl_answers p')) + mset (map ch_id (pool_requests p')) = mset (pl_accepted p')"
    using k unfolding pool_inv_def by blast
  then have "mset (map fst (pl_answers p')) = mset (pl_accepted p')" unfolding none by simp
  then show ?thesis using s q k by simp
qed

end
