(* ===== verification/Paging.thy ===== *)
theory Paging
  imports Store Validate
begin

text \<open>
  Lists are read a page at a time: every list statement of the stores filters the rows, keeps those
  with an id below the cursor \<^verbatim>\<open>Before\<close> (all of them for the nil id), orders by id descending and
  takes at most \<^verbatim>\<open>Limit\<close> rows. The locale \<open>listing\<close> is the contract of such a table; inside it, a
  client that follows the cursor from page to page is proved to read every matching row exactly once.
  The checks that come before the statements (\<^verbatim>\<open>validateMetadataFilter\<close>, \<^verbatim>\<open>validateRange\<close>) and the
  metadata filter are those of \<^verbatim>\<open>history.go\<close> and \<^verbatim>\<open>store.go\<close>.
\<close>

section \<open>Filters\<close>

definition maxListLimit :: nat where
  "maxListLimit = 1000"

definition limit_ok :: "int \<Rightarrow> bool" where
  "limit_ok n \<longleftrightarrow> \<not> (n < 1 \<or> n > int maxListLimit)"

type_synonym metadata_filter = "(string \<times> string) list"

definition validateMetadataFilter :: "metadata_filter \<Rightarrow> unit res" where
  "validateMetadataFilter m =
     (if length m > 20 then Inl ErrInvalid
      else if list_ex (\<lambda>(k, v). k = [] \<or> \<not> storableText k \<or> \<not> storableText v) m then Inl ErrInvalid
      else ok)"

text \<open>\<^verbatim>\<open>metadata @> $n\<close> for the object of the filter's strings; an empty filter is NULL.\<close>

definition metadata_matches :: "metadata_filter \<Rightarrow> jvalue \<Rightarrow> bool" where
  "metadata_matches m raw \<longleftrightarrow>
     m = [] \<or> (case decodeObject raw of
                 Inl _ \<Rightarrow> False
               | Inr kvs \<Rightarrow> list_all (\<lambda>(k, v). map_of kvs k = Some (JStr v)) m)"

record effectiveRange =
  from_time :: "gotime option"
  until_time :: "gotime option"

definition validateRange :: "effectiveRange \<Rightarrow> unit res" where
  "validateRange r =
     (case (from_time r, until_time r) of
        (Some a, Some b) \<Rightarrow> if \<not> b > a then Inl ErrInvalid else ok
      | _ \<Rightarrow> ok)"

definition in_interval :: "effectiveRange \<Rightarrow> gotime \<Rightarrow> bool" where
  "in_interval r t \<longleftrightarrow>
     (case from_time r of None \<Rightarrow> True | Some a \<Rightarrow> t \<ge> a) \<and>
     (case until_time r of None \<Rightarrow> True | Some b \<Rightarrow> t < b)"

definition range_truncated :: "effectiveRange \<Rightarrow> effectiveRange" where
  "range_truncated r =
     \<lparr>from_time = map_option truncate_us (from_time r), until_time = map_option truncate_us (until_time r)\<rparr>"

definition narrow :: "effectiveRange \<Rightarrow> effectiveRange \<Rightarrow> effectiveRange" where
  "narrow a b =
     (let a = (case from_time b of
                 None \<Rightarrow> a
               | Some f \<Rightarrow> if (case from_time a of None \<Rightarrow> True | Some f' \<Rightarrow> f > f') then a\<lparr>from_time := Some f\<rparr> else a)
      in case until_time b of
           None \<Rightarrow> a
         | Some u \<Rightarrow> if (case until_time a of None \<Rightarrow> True | Some u' \<Rightarrow> u < u') then a\<lparr>until_time := Some u\<rparr> else a)"

lemma in_interval_narrow: "in_interval (narrow a b) t \<longleftrightarrow> in_interval a t \<and> in_interval b t"
  by (cases "from_time a"; cases "until_time a"; cases "from_time b"; cases "until_time b")
    (auto simp: in_interval_def narrow_def Let_def)

section \<open>Pages\<close>

definition nullUUID :: "uuid \<Rightarrow> uuid option" where
  "nullUUID i = (if i = 0 then None else Some i)"

definition opt_matches :: "'k option \<Rightarrow> 'k \<Rightarrow> bool" where
  "opt_matches m k \<longleftrightarrow> (case m of None \<Rightarrow> True | Some x \<Rightarrow> k = x)"

definition page :: "('r \<Rightarrow> uuid) \<Rightarrow> ('r \<Rightarrow> bool) \<Rightarrow> uuid \<Rightarrow> nat \<Rightarrow> 'r list \<Rightarrow> 'r list" where
  "page key p before limit rows =
     take limit (rev (sort_key key (filter (\<lambda>r.
       (case nullUUID before of None \<Rightarrow> True | Some b \<Rightarrow> key r < b) \<and> p r) rows)))"

text \<open>A client that reads page after page, at most \<open>n\<close> of them.\<close>

fun read_pages :: "('r \<Rightarrow> uuid) \<Rightarrow> ('r \<Rightarrow> bool) \<Rightarrow> nat \<Rightarrow> 'r list \<Rightarrow> nat \<Rightarrow> uuid \<Rightarrow> 'r list" where
  "read_pages key p limit rows 0 before = []"
| "read_pages key p limit rows (Suc n) before =
     (let pg = page key p before limit rows
      in if pg = [] then [] else pg @ read_pages key p limit rows n (key (last pg)))"

definition matching :: "('r \<Rightarrow> uuid) \<Rightarrow> ('r \<Rightarrow> bool) \<Rightarrow> 'r list \<Rightarrow> 'r list" where
  "matching key p rows = rev (sort_key key (filter p rows))"

lemma sort_key_filter: "sort_key k (filter q xs) = filter q (sort_key k xs)"
  by (rule filter_sort [symmetric])

lemma page_below:
  assumes "before \<noteq> 0"
  shows "page key p before limit rows = take limit (filter (\<lambda>r. key r < before) (matching key p rows))"
  using assms by (simp add: page_def matching_def nullUUID_def rev_filter [symmetric] filter_sort conj_commute)

lemma page_first: "page key p 0 limit rows = take limit (matching key p rows)"
  by (simp add: page_def matching_def nullUUID_def)

text \<open>In a list with falling keys, the rows below the last row of a prefix are the rest.\<close>

lemma filter_below_last:
  assumes "sorted_wrt (\<lambda>x y. key y < key x) xs" "0 < k" "xs \<noteq> []"
  shows "filter (\<lambda>r. key r < (key (last (take k xs)) :: nat)) xs = drop k xs"
proof -
  let ?a = "take k xs" and ?b = "drop k xs"
  have ne: "?a \<noteq> []" using assms(2,3) by simp
  have s: "sorted_wrt (\<lambda>x y. key y < key x) (?a @ ?b)" using assms(1) by simp
  have "key (last ?a) \<le> key x" if "x \<in> set ?a" for x
  proof -
    have a: "?a = butlast ?a @ [last ?a]" using ne by simp
    have "sorted_wrt (\<lambda>x y. key y < key x) (butlast ?a @ [last ?a])"
      using s a by (simp only: sorted_wrt_append)
    then have "\<forall>x \<in> set (butlast ?a). key (last ?a) < key x" by (simp add: sorted_wrt_append)
    moreover have "x \<in> set (butlast ?a) \<or> x = last ?a"
      using that a by (metis Un_iff empty_iff empty_set set_ConsD set_append)
    ultimately show ?thesis by auto
  qed
  then have "filter (\<lambda>r. key r < key (last ?a)) ?a = []" by (fastforce simp: filter_empty_conv)
  moreover have "filter (\<lambda>r. key r < key (last ?a)) ?b = ?b"
  proof -
    have "last ?a \<in> set ?a" using ne by (rule last_in_set)
    then have "\<forall>r \<in> set ?b. key r < key (last ?a)" using s unfolding sorted_wrt_append by blast
    then show ?thesis by (simp add: filter_id_conv)
  qed
  moreover have "filter q xs = filter q ?a @ filter q ?b" for q
    by (metis append_take_drop_id filter_append)
  ultimately show ?thesis by simp
qed

lemma sorted_wrt_matching:
  assumes "distinct (map key rows)"
  shows "sorted_wrt (\<lambda>x y. (key y :: nat) < key x) (matching key p rows)"
proof -
  let ?xs = "sort_key key (filter p rows)"
  have "sorted (map key ?xs)" by simp
  moreover have "distinct (map key ?xs)"
    using assms by (simp add: distinct_map distinct_filter inj_on_def)
  ultimately have "sorted_wrt (<) (map key ?xs)" by (simp add: strict_sorted_iff)
  then show ?thesis by (simp add: matching_def sorted_wrt_rev sorted_wrt_map)
qed

lemma read_pages_from:
  assumes srt: "sorted_wrt (\<lambda>x y. (key y :: nat) < key x) (matching key p rows)"
    and nz: "\<forall>r \<in> set (matching key p rows). key r \<noteq> 0" and limit: "0 < limit"
  shows "matching key p rows = xs @ ys \<Longrightarrow> xs \<noteq> [] \<Longrightarrow> length ys \<le> n \<Longrightarrow>
    read_pages key p limit rows n (key (last xs)) = ys"
proof (induction n arbitrary: xs ys)
  case 0
  then show ?case by simp
next
  case (Suc n)
  let ?m = "matching key p rows"
  have "key (last xs) \<noteq> 0" using Suc.prems nz by auto
  moreover have "filter (\<lambda>r. key r < key (last xs)) ?m = ys"
    using filter_below_last [OF srt, of "length xs"] Suc.prems by simp
  ultimately have pg: "page key p (key (last xs)) limit rows = take limit ys" by (simp add: page_below)
  show ?case
  proof (cases "ys = []")
    case True
    then show ?thesis using pg by simp
  next
    case False
    have "?m = (xs @ take limit ys) @ drop limit ys" using Suc.prems by simp
    from Suc.IH [OF this] have "read_pages key p limit rows n (key (last (take limit ys))) = drop limit ys"
      using Suc.prems(3) limit False by simp
    then show ?thesis using pg limit False by (simp add: Let_def)
  qed
qed

locale listing =
  fixes table :: "db \<Rightarrow> 'r list" and key :: "'r \<Rightarrow> uuid" and good :: "db \<Rightarrow> bool"
  assumes distinct_keys: "good d \<Longrightarrow> distinct (map key (table d))"
begin

lemma reads_all:
  assumes "good d" "\<forall>r \<in> set (table d). key r \<noteq> 0" "0 < limit" "length (table d) < n"
  shows "read_pages key p limit (table d) n 0 = matching key p (table d)"
proof -
  let ?rows = "table d" and ?m = "matching key p (table d)"
  have srt: "sorted_wrt (\<lambda>x y. key y < key x) ?m" by (rule sorted_wrt_matching [OF distinct_keys [OF assms(1)]])
  have nz: "\<forall>r \<in> set ?m. key r \<noteq> 0" using assms(2) by (simp add: matching_def)
  obtain k where n: "n = Suc k" using assms(4) by (cases n) auto
  show ?thesis
  proof (cases "?m = []")
    case True
    then show ?thesis using n by (simp add: page_first)
  next
    case False
    have "length ?m \<le> length ?rows" by (simp add: matching_def)
    then have "length (drop limit ?m) \<le> k" using assms(4) n by simp
    moreover have "?m = take limit ?m @ drop limit ?m" by simp
    ultimately have "read_pages key p limit ?rows k (key (last (take limit ?m))) = drop limit ?m"
      using read_pages_from [OF srt nz assms(3)] False assms(3) by simp
    then show ?thesis using n False assms(3) by (simp add: page_first Let_def)
  qed
qed

lemma reads_once:
  assumes "good d" "\<forall>r \<in> set (table d). key r \<noteq> 0" "0 < limit" "length (table d) < n"
  shows "distinct (map key (read_pages key p limit (table d) n 0))"
    and "set (read_pages key p limit (table d) n 0) = {r \<in> set (table d). p r}"
proof -
  have d: "distinct (map key (table d))" by (rule distinct_keys [OF assms(1)])
  show "distinct (map key (read_pages key p limit (table d) n 0))"
    using d unfolding reads_all [OF assms] by (simp add: matching_def distinct_map inj_on_def rev_map [symmetric])
  show "set (read_pages key p limit (table d) n 0) = {r \<in> set (table d). p r}"
    unfolding reads_all [OF assms] by (simp add: matching_def)
qed

end

end
