(* ===== verification/Ledgers.thy ===== *)
theory Ledgers
  imports Paging Updates Books
begin

text \<open>
  Currencies and ledgers: \<^verbatim>\<open>ledgers.go\<close>, \<^verbatim>\<open>store_ledgers.go\<close> and the currency operations of
  \<^verbatim>\<open>service.go\<close>. A row returned by \<^verbatim>\<open>RETURNING\<close> is the row as stored.
\<close>

section \<open>Currencies\<close>

definition selectCurrency :: "db \<Rightarrow> string \<Rightarrow> currency res" where
  "selectCurrency d c =
     (case row_by cur_code (db_currencies d) c of None \<Rightarrow> Inl ErrNotFound | Some r \<Rightarrow> Inr r)"

definition insertCurrency :: "db \<Rightarrow> gotime \<Rightarrow> currencyInput \<Rightarrow> currency option \<times> db" where
  "insertCurrency d now i =
     (case row_by cur_code (db_currencies d) (ci_code i) of
        Some _ \<Rightarrow> (None, d)
      | None \<Rightarrow>
          let c = \<lparr>cur_code = ci_code i, cur_exponent = ci_exponent i, cur_createdAt = now\<rparr>
          in (Some c, d\<lparr>db_currencies := db_currencies d @ [c]\<rparr>))"

definition createCurrency :: "db \<Rightarrow> gotime \<Rightarrow> currencyInput \<Rightarrow> (currency \<times> db) res" where
  "createCurrency d now i =
     bindR (validateCurrency i) (\<lambda>_.
     case insertCurrency d now i of
       (Some c, d') \<Rightarrow> Inr (c, d')
     | (None, d') \<Rightarrow>
         bindR (selectCurrency d' (ci_code i)) (\<lambda>existing.
         if cur_exponent existing \<noteq> ci_exponent i then Inl ErrCurrencyExists else Inr (existing, d')))"

section \<open>Ledgers\<close>

record ledgerInput =
  li_name :: string
  li_description :: string
  li_metadata :: jvalue

definition queryLedger :: "db \<Rightarrow> uuid \<Rightarrow> ledger res" where
  "queryLedger d i = (case ledger_by d i of None \<Rightarrow> Inl ErrNotFound | Some l \<Rightarrow> Inr l)"

definition insertLedger :: "db \<Rightarrow> gotime \<Rightarrow> uuid \<Rightarrow> ledgerInput \<Rightarrow> (ledger \<times> db) res" where
  "insertLedger d now newid i =
     (if ledger_by d newid \<noteq> None then Inl (ErrConstraint ''ledger_ledgers_pkey'')
      else let l = \<lparr>l_id = newid, l_name = li_name i, l_description = li_description i,
                    l_metadata = normalizeMetadata (li_metadata i), l_closedBefore = None,
                    l_version = 0, l_createdAt = now\<rparr>
           in Inr (l, d\<lparr>db_ledgers := db_ledgers d @ [l]\<rparr>))"

definition createLedger :: "db \<Rightarrow> gotime \<Rightarrow> uuid \<Rightarrow> ledgerInput \<Rightarrow> (ledger \<times> db) res" where
  "createLedger d now newid i =
     bindR (validateDetails (li_name i) (li_description i) (li_metadata i) True) (\<lambda>_.
       insertLedger d now newid i)"

definition replaceLedger :: "db \<Rightarrow> ledger \<Rightarrow> db" where
  "replaceLedger d l = d\<lparr>db_ledgers := update_rows (\<lambda>x. l_id x = l_id l) (\<lambda>_. l) (db_ledgers d)\<rparr>"

text \<open>The function \<^verbatim>\<open>updateLedger\<close> of the store; the service's operation has the same name.\<close>

definition updateLedgerRow :: "db \<Rightarrow> ledger \<Rightarrow> ledger \<times> db" where
  "updateLedgerRow d nxt = (let l = nxt\<lparr>l_version := l_version nxt + 1\<rparr> in (l, replaceLedger d l))"

definition updateLedger :: "db \<Rightarrow> uuid \<Rightarrow> updateInput \<Rightarrow> (ledger \<times> db) res" where
  "updateLedger d i inp =
     bindR (queryLedger d i) (\<lambda>cur.
     bindR (applyUpdate (l_name cur) (l_description cur) (l_metadata cur) inp True) (\<lambda>(name, description, metadata).
     let nxt = cur\<lparr>l_name := name, l_description := description, l_metadata := metadata\<rparr>
     in if sameDetails (l_name cur) (l_description cur) (l_metadata cur) (l_name nxt) (l_description nxt) (l_metadata nxt)
        then Inr (cur, d)
        else Inr (updateLedgerRow d nxt)))"

definition sameTime :: "gotime option \<Rightarrow> gotime option \<Rightarrow> bool" where
  "sameTime a b = (case (a, b) of (Some x, Some y) \<Rightarrow> x = y | _ \<Rightarrow> a = None \<and> b = None)"

definition closePeriod :: "db \<Rightarrow> gotime \<Rightarrow> uuid \<Rightarrow> gotime option \<Rightarrow> (ledger \<times> db) res" where
  "closePeriod d now i closed =
     (let closed = map_option truncate_us closed
      in if (case closed of None \<Rightarrow> False | Some at \<Rightarrow> \<not> representableTime at) then Inl ErrInvalid
         else bindR (queryLedger d i) (\<lambda>cur.
           if (case closed of None \<Rightarrow> False | Some at \<Rightarrow> at > now) then Inl ErrInvalid
           else if sameTime (l_closedBefore cur) closed then Inr (cur, d)
           else let l = cur\<lparr>l_closedBefore := closed, l_version := l_version cur + 1\<rparr>
                in Inr (l, replaceLedger d l)))"

text \<open>\<^verbatim>\<open>waitForOlderTransactions\<close>: poll \<open>k\<close> asks whether every older database transaction has ended;
  \<open>stopped k\<close> is the error of the context, when it ends before the pause after poll \<open>k\<close> does.\<close>

partial_function (option) waitForOlder ::
  "(nat \<Rightarrow> bool res) \<Rightarrow> (nat \<Rightarrow> err option) \<Rightarrow> nat \<Rightarrow> unit res option" where
  "waitForOlder poll stopped k =
     (case poll k of
        Inl e \<Rightarrow> Some (Inl e)
      | Inr older_done \<Rightarrow>
          if older_done then Some ok
          else case stopped k of
                 Some e \<Rightarrow> Some (Inl e)
               | None \<Rightarrow> waitForOlder poll stopped (Suc k))"

record ledgerList =
  ll_metadata :: metadata_filter
  ll_before :: uuid
  ll_limit :: int

definition listLedgers :: "db \<Rightarrow> ledgerList \<Rightarrow> ledger list res" where
  "listLedgers d i =
     (if \<not> limit_ok (ll_limit i) then Inl ErrInvalid
      else bindR (validateMetadataFilter (ll_metadata i)) (\<lambda>_.
        Inr (page l_id (\<lambda>l. metadata_matches (ll_metadata i) (l_metadata l)) (ll_before i)
          (nat (ll_limit i)) (db_ledgers d))))"

section \<open>Waiting\<close>

lemma waitForOlder_settled:
  assumes "poll k \<noteq> Inr False \<or> stopped k \<noteq> None"
  shows "waitForOlder poll stopped k =
    Some (case poll k of Inl e \<Rightarrow> Inl e | Inr True \<Rightarrow> ok | Inr False \<Rightarrow> Inl (the (stopped k)))"
  using assms
  by (subst waitForOlder.simps) (auto split: sum.splits option.splits bool.splits)

lemma waitForOlder_first:
  assumes "\<forall>j. k \<le> j \<and> j < k + m \<longrightarrow> poll j = Inr False \<and> stopped j = None"
  shows "waitForOlder poll stopped k = waitForOlder poll stopped (k + m)"
  using assms
proof (induction m arbitrary: k)
  case (Suc m)
  have "poll k = Inr False" "stopped k = None" using Suc.prems by auto
  then have "waitForOlder poll stopped k = waitForOlder poll stopped (Suc k)"
    by (subst waitForOlder.simps) simp
  also have "\<dots> = waitForOlder poll stopped (Suc k + m)" by (rule Suc.IH) (use Suc.prems in auto)
  finally show ?case by simp
qed simp

end
