(* ===== verification/Accounts.thy ===== *)
theory Accounts
  imports Ledgers
begin

text \<open>
  Accounts: the operations of \<^verbatim>\<open>service.go\<close> on one account and their statements in
  \<^verbatim>\<open>store_accounts.go\<close>. An account is its row, the exponent of its currency and its three balances,
  which \<open>scanAccount\<close> computes from the stored totals.
\<close>

section \<open>Reading\<close>

record account =
  acc_row :: account_row
  acc_exponent :: int
  acc_posted :: balance
  acc_pending :: balance
  acc_available :: balance

definition no_rows :: err where
  "no_rows = ErrInternal ''no rows in result set''"

text \<open>The join with the currencies makes an account of an unknown currency no row. The account state
  that \<^verbatim>\<open>scanAccount\<close> fills has the side, the totals and the held amount of the row.\<close>

definition scanAccount :: "db \<Rightarrow> account_row \<Rightarrow> account res" where
  "scanAccount d r =
     (case row_by cur_code (db_currencies d) (ac_currency r) of
        None \<Rightarrow> Inl no_rows
      | Some c \<Rightarrow>
          bindR (account_balances (row_state None r)) (\<lambda>(posted, pending, available).
            Inr \<lparr>acc_row = r, acc_exponent = cur_exponent c, acc_posted = posted,
                 acc_pending = pending, acc_available = available\<rparr>))"

definition found :: "'a res \<Rightarrow> 'a res" where
  "found r = (if r = Inl no_rows then Inl ErrNotFound else r)"

definition scan_row :: "db \<Rightarrow> account_row option \<Rightarrow> account res" where
  "scan_row d r = (case r of None \<Rightarrow> Inl no_rows | Some r \<Rightarrow> scanAccount d r)"

definition queryAccount :: "db \<Rightarrow> uuid \<Rightarrow> account res" where
  "queryAccount d i = found (scan_row d (account_by d i))"

definition account_by_code :: "db \<Rightarrow> uuid \<Rightarrow> string \<Rightarrow> account_row option" where
  "account_by_code d l c = find (\<lambda>r. ac_ledger r = l \<and> ac_code r = c) (db_accounts d)"

definition selectAccountByCode :: "db \<Rightarrow> uuid \<Rightarrow> string \<Rightarrow> account res" where
  "selectAccountByCode d l c = found (scan_row d (account_by_code d l c))"

section \<open>Creating\<close>

definition new_account :: "gotime \<Rightarrow> uuid \<Rightarrow> accountInput \<Rightarrow> account_row" where
  "new_account now newid i =
     \<lparr>ac_id = newid, ac_ledger = ai_ledger i, ac_code = ai_code i, ac_name = ai_name i,
      ac_description = ai_description i, ac_metadata = normalizeMetadata (ai_metadata i),
      ac_currency = ai_currency i, ac_normalSide = ai_normalSide i, ac_allowNegative = ai_allowNegative i,
      ac_overdraftLimit = ai_overdraftLimit i, ac_postedDebits = 0, ac_postedCredits = 0,
      ac_pendingDebits = 0, ac_pendingCredits = 0, ac_held = 0, ac_status = Open,
      ac_statusChangedAt = None, ac_version = 0, ac_createdAt = now\<rparr>"

text \<open>The foreign keys are checked when the statement ends, after the conflict on the code.\<close>

definition insertAccount :: "db \<Rightarrow> gotime \<Rightarrow> uuid \<Rightarrow> accountInput \<Rightarrow> (account option \<times> db) res" where
  "insertAccount d now newid i =
     (if account_by_code d (ai_ledger i) (ai_code i) \<noteq> None then Inr (None, d)
      else if account_by d newid \<noteq> None then Inl (ErrConstraint ''ledger_accounts_pkey'')
      else if row_by cur_code (db_currencies d) (ai_currency i) = None then
        Inl (ErrConstraint ''ledger_accounts_currency_fkey'')
      else if ledger_by d (ai_ledger i) = None then
        Inl (ErrConstraint ''ledger_accounts_ledger_id_fkey'')
      else let r = new_account now newid i
           in bindR (scanAccount d r) (\<lambda>a. Inr (Some a, d\<lparr>db_accounts := db_accounts d @ [r]\<rparr>)))"

definition sameTerms :: "account \<Rightarrow> accountInput \<Rightarrow> bool" where
  "sameTerms a i \<longleftrightarrow>
     ac_currency (acc_row a) = ai_currency i \<and> ac_normalSide (acc_row a) = ai_normalSide i \<and>
     ac_allowNegative (acc_row a) = ai_allowNegative i \<and> ac_overdraftLimit (acc_row a) = ai_overdraftLimit i"

definition createAccount :: "db \<Rightarrow> gotime \<Rightarrow> uuid \<Rightarrow> accountInput \<Rightarrow> (account \<times> db) res" where
  "createAccount d now newid i =
     bindR (validateAccount i) (\<lambda>_.
     bindR (insertAccount d now newid i) (\<lambda>(created, d').
     case created of
       Some a \<Rightarrow> Inr (a, emit [AccountEvent ''account.created'' (acc_row a)] d')
     | None \<Rightarrow>
         bindR (selectAccountByCode d' (ai_ledger i) (ai_code i)) (\<lambda>existing.
         if \<not> sameTerms existing i then Inl ErrAccountExists else Inr (existing, d'))))"

section \<open>Changing\<close>

text \<open>An update of one row, under the guards and checks of the table.\<close>

definition updateAccountRow :: "db \<Rightarrow> uuid \<Rightarrow> (account_row \<Rightarrow> account_row) \<Rightarrow> (account \<times> db) res" where
  "updateAccountRow d i f =
     (case account_by d i of
        None \<Rightarrow> Inl no_rows
      | Some r \<Rightarrow>
          bindR (account_row_check r (f r)) (\<lambda>_.
          bindR (scanAccount d (f r)) (\<lambda>a.
            Inr (a, d\<lparr>db_accounts := update_rows (\<lambda>x. ac_id x = i) (\<lambda>_. f r) (db_accounts d)\<rparr>))))"

definition updateAccountStatus :: "db \<Rightarrow> gotime \<Rightarrow> uuid \<Rightarrow> acct_status \<Rightarrow> (account \<times> db) res" where
  "updateAccountStatus d now i status =
     updateAccountRow d i (\<lambda>r. r\<lparr>ac_status := status, ac_statusChangedAt := Some now,
       ac_version := ac_version r + 1\<rparr>)"

definition updateAccountDetails :: "db \<Rightarrow> account_row \<Rightarrow> (account \<times> db) res" where
  "updateAccountDetails d nxt =
     updateAccountRow d (ac_id nxt) (\<lambda>r. r\<lparr>ac_name := ac_name nxt, ac_description := ac_description nxt,
       ac_metadata := ac_metadata nxt, ac_version := ac_version r + 1\<rparr>)"

definition setAccountStatus :: "db \<Rightarrow> gotime \<Rightarrow> uuid \<Rightarrow> acct_status \<Rightarrow> (account \<times> db) res" where
  "setAccountStatus d now i target =
     bindR (queryAccount d i) (\<lambda>cur.
     if ac_status (acc_row cur) = target then Inr (cur, d)
     else if ac_status (acc_row cur) = Closed then Inl ErrAccountNotOpen
     else if target = Closed \<and>
         (net (acc_posted cur) \<noteq> 0 \<or> acc_pending cur \<noteq> acc_posted cur \<or> ac_held (acc_row cur) \<noteq> 0)
     then Inl ErrAccountNotEmpty
     else bindR (updateAccountStatus d now i target) (\<lambda>(a, d').
       Inr (a, emit [AccountEvent ''account.updated'' (acc_row a)] d')))"

definition updateAccount :: "db \<Rightarrow> uuid \<Rightarrow> updateInput \<Rightarrow> (account \<times> db) res" where
  "updateAccount d i inp =
     bindR (queryAccount d i) (\<lambda>cur.
     let r = acc_row cur
     in bindR (applyUpdate (ac_name r) (ac_description r) (ac_metadata r) inp False)
       (\<lambda>(name, description, metadata).
       let nxt = r\<lparr>ac_name := name, ac_description := description, ac_metadata := metadata\<rparr>
       in if sameDetails (ac_name r) (ac_description r) (ac_metadata r) (ac_name nxt) (ac_description nxt) (ac_metadata nxt)
          then Inr (cur, d)
          else bindR (updateAccountDetails d nxt) (\<lambda>(a, d').
            Inr (a, emit [AccountEvent ''account.updated'' (acc_row a)] d'))))"

section \<open>Listing\<close>

record accountList =
  al_ledger :: uuid
  al_category :: uuid
  al_code :: string
  al_status :: "acct_status option"
  al_currency :: string
  al_metadata :: metadata_filter
  al_before :: uuid
  al_limit :: int

text \<open>The status is \<open>None\<close> for the empty string.\<close>

definition validateListAccounts :: "accountList \<Rightarrow> unit res" where
  "validateListAccounts i =
     (if \<not> (al_status i = None \<or> al_status i \<in> {Some Open, Some Frozen, Some Closed}) then Inl ErrInvalid
      else if al_currency i \<noteq> [] \<and> currency_Validate (al_currency i) \<noteq> ok then Inl ErrInvalid
      else if \<not> limit_ok (al_limit i) then Inl ErrInvalid
      else validateMetadataFilter (al_metadata i))"

text \<open>\<open>inside c\<close> are the accounts of the category \<open>c\<close>, which the query \<^verbatim>\<open>categoryMembers\<close> yields.\<close>

definition listed_account :: "(uuid \<Rightarrow> uuid list) \<Rightarrow> accountList \<Rightarrow> account_row \<Rightarrow> bool" where
  "listed_account inside i r \<longleftrightarrow>
     opt_matches (al_status i) (ac_status r) \<and> opt_matches (nullString (al_currency i)) (ac_currency r) \<and>
     opt_matches (nullUUID (al_ledger i)) (ac_ledger r) \<and> opt_matches (nullString (al_code i)) (ac_code r) \<and>
     metadata_matches (al_metadata i) (ac_metadata r) \<and>
     (case nullUUID (al_category i) of None \<Rightarrow> True | Some c \<Rightarrow> ac_id r \<in> set (inside c))"

fun scan_all :: "db \<Rightarrow> account_row list \<Rightarrow> account list res" where
  "scan_all d [] = Inr []"
| "scan_all d (r # rs) = bindR (scanAccount d r) (\<lambda>a. bindR (scan_all d rs) (\<lambda>as. Inr (a # as)))"

definition listAccounts :: "db \<Rightarrow> (uuid \<Rightarrow> uuid list) \<Rightarrow> accountList \<Rightarrow> account list res" where
  "listAccounts d inside i =
     bindR (validateListAccounts i) (\<lambda>_.
       scan_all d (page ac_id (\<lambda>r. listed_account inside i r \<and>
           row_by cur_code (db_currencies d) (ac_currency r) \<noteq> None)
         (al_before i) (nat (al_limit i)) (db_accounts d)))"

end
