(* ===== verification/Holds.thy ===== *)
theory Holds
  imports Posting_Laws
begin

text \<open>
  \<^verbatim>\<open>holds.go\<close>: a hold reserves funds of an account until it is captured by a transaction, voided,
  or expires. Each operation is one database transaction that changes the held amount of the account
  together with the row of the hold.
\<close>

definition hold_matches :: "hold \<Rightarrow> holdInput \<Rightarrow> bool" where
  "hold_matches h i \<longleftrightarrow>
     h_account h = hi_account i \<and> h_amount h = hi_amount i \<and>
     (hi_currency i = [] \<or> hi_currency i = h_currency h) \<and> h_description h = hi_description i \<and>
     h_expiresAt h = hi_expiresAt i"

definition new_hold :: "gotime \<Rightarrow> uuid \<Rightarrow> holdInput \<Rightarrow> string \<Rightarrow> hold" where
  "new_hold now i inp cur =
     \<lparr>h_id = i, h_key = hi_key inp, h_account = hi_account inp, h_currency = cur, h_amount = hi_amount inp,
      h_status = HoldPending, h_description = hi_description inp, h_expiresAt = hi_expiresAt inp,
      h_createdAt = now, h_resolvedAt = None, h_captured = None, h_captureTxn = None\<rparr>"

text \<open>A violation of the unique key of holds becomes a retry of the database transaction.\<close>

definition hold_key_error :: "db res \<Rightarrow> db res" where
  "hold_key_error r =
     (if r = Inl (ErrConstraint ''ledger_holds_idempotency_key_key'') then Inl ErrRetry else r)"

definition createHold :: "db \<Rightarrow> gotime \<Rightarrow> uuid \<Rightarrow> holdInput \<Rightarrow> (hold \<times> bool \<times> db) res" where
  "createHold d now newid inp =
     bindR (validateHold inp) (\<lambda>_.
     let inp = inp\<lparr>hi_expiresAt := truncate_us (hi_expiresAt inp)\<rparr>
     in case selectHoldByKey d (hi_key inp) of
          Some h \<Rightarrow> if \<not> hold_matches h inp then Inl ErrIdempotencyConflict else Inr (h, True, d)
        | None \<Rightarrow>
            bindR (reserve (lockAccounts d [hi_account inp]) (hi_account inp) (hi_currency inp) (hi_amount inp)) (\<lambda>s.
            case map_of (s_accounts s) (hi_account inp) of
              None \<Rightarrow> Inl ErrPanic
            | Some a \<Rightarrow>
                let h = new_hold now newid inp (a_currency a)
                in bindR (hold_key_error (insertHold h d)) (\<lambda>d.
                   bindR (writeAccounts s d) (\<lambda>d.
                     Inr (h, False, emit [HoldEvent ''hold.created'' h] d)))))"

definition capture_input :: "hold \<Rightarrow> side \<Rightarrow> captureInput \<Rightarrow> postInput" where
  "capture_input h normal c =
     (let s = opposite normal
      in \<lparr>in_key = ca_key c, in_description = ca_description c, in_metadata = ca_metadata c,
          in_postings = [plain_posting (h_account h) s (ca_amount c) (h_currency h),
                         plain_posting (ca_destination c) (opposite s) (ca_amount c) (h_currency h)],
          in_status = NoStatus, in_effectiveAt = None, in_externalID = [],
          in_archiveOnLockFailure = False\<rparr>)"

definition captureHold ::
  "db \<Rightarrow> gotime \<Rightarrow> gotime \<Rightarrow> (nat \<Rightarrow> uuid) \<Rightarrow> uuid \<Rightarrow> captureInput \<Rightarrow> (hold \<times> bool \<times> db) res" where
  "captureHold d now clock fresh i c =
     bindR (validateCapture c) (\<lambda>_.
     case hold_by d i of
       None \<Rightarrow> Inl ErrNotFound
     | Some h \<Rightarrow>
         (case account_by d (h_account h) of
            None \<Rightarrow> Inl (ErrInternal ''no rows in result set'')
          | Some a \<Rightarrow>
              let post = capture_input h (ac_normalSide a) c
              in if h_status h = HoldCaptured then
                   (case h_captureTxn h of
                      None \<Rightarrow> Inl ErrPanic
                    | Some t \<Rightarrow>
                        bindR (selectTransaction d t) (\<lambda>txn.
                        if t_key txn \<noteq> ca_key c then Inl ErrHoldNotPending
                        else if h_captured h \<noteq> Some (ca_amount c) \<or> \<not> txn_matches txn post then
                          Inl ErrIdempotencyConflict
                        else Inr (h, True, d)))
                 else if h_status h \<noteq> HoldPending then Inl ErrHoldNotPending
                 else if ca_amount c > h_amount h then Inl ErrInvalid
                 else if \<not> clock < h_expiresAt h then Inl ErrHoldNotPending
                 else bindR (apply_one d now fresh
                        \<lparr>rq_in = post, rq_reverses = None, rq_releases = [(h_account h, h_amount h)]\<rparr>) (\<lambda>(r, d).
                   case r of
                     Failure e \<Rightarrow> Inl e
                   | Success t replayed \<Rightarrow>
                       if replayed then Inl ErrIdempotencyConflict
                       else bindR (resolveHold now i HoldCaptured (Some (ca_amount c)) (Some (t_id t)) d) (\<lambda>(h, d).
                         Inr (h, False, emit [HoldEvent ''hold.captured'' h] d)))))"

definition voidHold :: "db \<Rightarrow> gotime \<Rightarrow> uuid \<Rightarrow> (hold \<times> bool \<times> db) res" where
  "voidHold d now i =
     (case hold_by d i of
        None \<Rightarrow> Inl ErrNotFound
      | Some h \<Rightarrow>
          if h_status h = HoldVoided then Inr (h, True, d)
          else if h_status h \<noteq> HoldPending then Inl ErrHoldNotPending
          else bindR (release (lockAccounts d [h_account h]) (h_account h) (h_amount h)) (\<lambda>s.
               bindR (writeAccounts s d) (\<lambda>d.
               bindR (resolveHold now i HoldVoided None None d) (\<lambda>(h, d).
                 Inr (h, False, emit [HoldEvent ''hold.voided'' h] d)))))"

fun release_all :: "ledgerState \<Rightarrow> (uuid \<times> int) list \<Rightarrow> ledgerState res" where
  "release_all s [] = Inr s"
| "release_all s ((i, n) # rs) = bindR (release s i n) (\<lambda>s. release_all s rs)"

text \<open>\<open>skip\<close> are the rows that others have locked.\<close>

definition due_holds :: "db \<Rightarrow> gotime \<Rightarrow> (uuid \<Rightarrow> bool) \<Rightarrow> nat \<Rightarrow> hold list" where
  "due_holds d now skip limit =
     take limit (sort_key h_expiresAt
       (filter (\<lambda>h. h_status h = HoldPending \<and> h_expiresAt h \<le> now \<and> \<not> skip (h_id h)) (db_holds d)))"

definition expireHolds :: "db \<Rightarrow> gotime \<Rightarrow> (uuid \<Rightarrow> bool) \<Rightarrow> nat \<Rightarrow> (nat \<times> db) res" where
  "expireHolds d now skip limit =
     (let due = due_holds d now skip limit
      in if due = [] then Inr (0, d)
         else bindR (release_all (lockAccounts d (map h_account due)) (map (\<lambda>h. (h_account h, h_amount h)) due)) (\<lambda>s.
              bindR (writeAccounts s d) (\<lambda>d.
              let mine = (\<lambda>h. h_id h \<in> set (map h_id due));
                  holds = update_rows mine (resolved now HoldExpired None None) (db_holds d)
              in Inr (length due, emit (map (HoldEvent ''hold.expired'') (filter mine holds))
                   (d\<lparr>db_holds := holds\<rparr>)))))"

end
