(* ===== verification/Holds_Laws.thy ===== *)
theory Holds_Laws
  imports Holds
begin

text \<open>
  The laws of holds: the held amount of an account is the sum of its pending holds before and after
  every operation, so creating, capturing, voiding and expiring holds keep the invariant of the
  database.
\<close>

section \<open>Writing accounts alone\<close>

lemma released_cong_books:
  assumes "\<And>i. released i R = released i R'"
  shows "db_inv_but R d = db_inv_but R' d"
  using assms by (simp add: db_inv_but_def books_def row_books_def)

lemma accounts_write_inv:
  assumes wr: "writeAccounts s d = Inr d'" and inv: "db_inv_but R0 d"
    and ev: "state_evolves (lockAccounts d ids) s" and sinv: "invs (s_accounts s)"
    and mv: "moves (lockAccounts d ids) [] [] R s"
  shows "db_inv_but (R0 @ R) d'"
proof -
  have i: "accounts_inv d" "books R0 d" "journal_inv d" "balanced d" "running (db_postings d)"
    "numbered (db_sequence d) (map pr_id (db_postings d))"
    "numbered (db_sequence d) (map pe_id (db_pending d))" "holds_inv d" "settled_inv d"
    using inv unfolding db_inv_but_def by blast+
  have wf: "rows_wf d" using i(1) by (simp add: accounts_inv_def)
  have dist: "distinct (map fst (s_accounts s))" using sinv by (simp add: invs_def accounts_wf_def)
  note w = writeAccounts_extends [OF wr refl wf ev dist]
  have ap: "appended d [] 0 [] d'" using w by (simp add: appended_def)
  have acc: "accounts_inv d'" by (rule write_accounts_inv [OF wr refl refl i(1) ev sinv])
  have live: "live d' = live d" by (rule ext) (simp add: live_def txn_by_def w(2))
  have journal: "journal_inv d'"
  proof (rule appended_journal [OF ap w(1) i(3)])
    show "txn_row_ok d' r" if "r \<in> set (db_txns d')" for r
      using appended_row_ok [OF ap] that i(3) w(2) by (simp add: journal_inv_def)
  qed (use i(3) w(2) in \<open>simp_all add: journal_inv_def entries_ok_def\<close>)
  have books: "books (R0 @ R) d'"
    unfolding books_def
  proof
    fix r' assume r': "r' \<in> set (db_accounts d')"
    have "account_by d' (ac_id r') = Some r'"
      using r' acc account_by_set unfolding accounts_inv_def by blast
    from write_accounts_totals [OF wr refl wf ev dist mv this]
    obtain r where r: "account_by d (ac_id r') = Some r"
      "ac_postedDebits r' = ac_postedDebits r" "ac_postedCredits r' = ac_postedCredits r"
      "ac_pendingDebits r' = ac_pendingDebits r" "ac_pendingCredits r' = ac_pendingCredits r"
      "ac_held r' = ac_held r - released (ac_id r') R" by auto
    have "row_books R0 d r" "ac_id r = ac_id r'"
      using i(2) account_by_SomeD [OF r(1)] by (simp_all add: books_def)
    then show "row_books (R0 @ R) d' r'"
      using r w live
      by (simp add: row_books_def posted_sum_def pending_sum_def held_sum_def)
  qed
  show ?thesis
    unfolding db_inv_but_def
    using acc books journal appended_balanced [OF ap i(4)] appended_running [OF ap i(5)]
      appended_numbered [OF ap i(6,7)] appended_holds [OF ap w(1) i(8)] appended_settled [OF ap i(9)]
    by (simp add: column_total_def entries_ok_def)
qed

section \<open>Changing the table of holds\<close>

lemma sum_over_update_row:
  assumes "distinct (map key rs)" "row_by key rs k = Some r"
  shows "sum_over p f (update_rows (\<lambda>x. key x = k) g rs) =
    sum_over p f rs - (if p r then f r else 0) + (if p (g r) then f (g r) else 0)"
  using assms
proof (induction rs)
  case (Cons x rs)
  show ?case
  proof (cases "key x = k")
    case True
    then have "x = r" "k \<notin> key ` set rs" using Cons.prems by auto
    then have "update_rows (\<lambda>x. key x = k) g rs = rs"
      by (auto simp: update_rows_def intro!: map_idI)
    then show ?thesis using True \<open>x = r\<close> by simp
  next
    case False
    then show ?thesis using Cons by simp
  qed
qed simp

text \<open>A database that differs only in its holds.\<close>

lemma holds_only:
  assumes inv: "db_inv_but R d" and h: "holds_inv (d\<lparr>db_holds := hs\<rparr>)"
    and sums: "\<And>i. held_sum (d\<lparr>db_holds := hs\<rparr>) i - released i R' = held_sum d i - released i R"
  shows "db_inv_but R' (d\<lparr>db_holds := hs\<rparr>)"
proof -
  have same: "account_by (d\<lparr>db_holds := hs\<rparr>) = account_by d" "txn_by (d\<lparr>db_holds := hs\<rparr>) = txn_by d"
    "live (d\<lparr>db_holds := hs\<rparr>) = live d" "row_entries (d\<lparr>db_holds := hs\<rparr>) = row_entries d"
    "posted_sum (d\<lparr>db_holds := hs\<rparr>) = posted_sum d" "pending_sum (d\<lparr>db_holds := hs\<rparr>) = pending_sum d"
    "settled_net (d\<lparr>db_holds := hs\<rparr>) = settled_net d" "ledger_by (d\<lparr>db_holds := hs\<rparr>) = ledger_by d"
    by (intro ext, simp add: account_by_def txn_by_def live_def row_entries_def posted_sum_def
        pending_sum_def settled_net_def ledger_by_def)+
  have "books R' (d\<lparr>db_holds := hs\<rparr>)"
    using inv sums same by (simp add: db_inv_but_def books_def row_books_def)
  then show ?thesis
    using inv h same
    by (simp add: db_inv_but_def accounts_inv_def rows_wf_def journal_inv_def posting_ok_def pending_ok_def
        entry_home_def txn_row_ok_def balanced_def settled_inv_def)
qed

lemma insertHold_inv:
  assumes inv: "db_inv d" and ins: "insertHold h d = Inr d'" and st: "h_status h = HoldPending"
    and ok: "hold_ok d h"
  shows "db_inv_but [(h_account h, h_amount h)] d'"
proof -
  have d': "d' = d\<lparr>db_holds := db_holds d @ [h]\<rparr>" and new: "h_id h \<notin> h_id ` set (db_holds d)"
    "h_key h \<notin> h_key ` set (db_holds d)"
    using ins by (auto simp: insertHold_def list_ex_iff image_iff split: if_splits)
  have "holds_inv d" using inv by (simp add: db_inv_def db_inv_but_def)
  then have "holds_inv (d\<lparr>db_holds := db_holds d @ [h]\<rparr>)"
    using new ok by (auto simp: holds_inv_def hold_ok_def account_by_def)
  then show ?thesis
    unfolding d' using inv st
    by (intro holds_only [where R = "[]"]) (auto simp: db_inv_def held_sum_def released_def)
qed

lemma resolveHold_inv:
  assumes inv: "db_inv_but [(h_account h, h_amount h)] d" and h: "hold_by d i = Some h"
    and rs: "resolveHold now i st cap txn d = Inr (h', d')"
  shows "db_inv d'"
proof -
  have st: "h_status h = HoldPending" "st \<noteq> HoldPending" "st = HoldCaptured \<longleftrightarrow> cap \<noteq> None \<and> txn \<noteq> None"
    and d': "d' = d\<lparr>db_holds := update_rows (\<lambda>x. h_id x = i) (resolved now st cap txn) (db_holds d)\<rparr>"
    using rs h by (auto simp: resolveHold_def split: if_splits)
  let ?hs = "update_rows (\<lambda>x. h_id x = i) (resolved now st cap txn) (db_holds d)"
  have hi: "holds_inv d" using inv by (simp add: db_inv_but_def)
  have row: "row_by h_id (db_holds d) i = Some h" using h by (simp add: hold_by_def)
  have dist: "distinct (map h_id (db_holds d))" using hi by (simp add: holds_inv_def)
  have "map h_id ?hs = map h_id (db_holds d)" "map h_key ?hs = map h_key (db_holds d)"
    by (rule map_key_update_rows, simp add: resolved_def)+
  moreover have "hold_ok (d\<lparr>db_holds := ?hs\<rparr>) x" if x: "x \<in> set ?hs" for x
  proof -
    obtain y where y: "y \<in> set (db_holds d)" "x = (if h_id y = i then resolved now st cap txn y else y)"
      using x by (auto simp: set_update_rows)
    have "hold_ok d y" using y(1) hi by (simp add: holds_inv_def)
    then show ?thesis using y(2) st(2,3) by (auto simp: hold_ok_def account_by_def resolved_def)
  qed
  ultimately have "holds_inv (d\<lparr>db_holds := ?hs\<rparr>)" using hi by (simp add: holds_inv_def)
  then have "db_inv_but [] (d\<lparr>db_holds := ?hs\<rparr>)"
  proof (rule holds_only [OF inv])
    show "held_sum (d\<lparr>db_holds := ?hs\<rparr>) j - released j [] =
        held_sum d j - released j [(h_account h, h_amount h)]" for j
      using sum_over_update_row [OF dist row, of "\<lambda>h. h_account h = j \<and> h_status h = HoldPending" h_amount
          "resolved now st cap txn"] st
      by (auto simp: held_sum_def released_def resolved_def)
  qed
  then show ?thesis by (simp add: d' db_inv_def)
qed

section \<open>Reserving and releasing\<close>

lemma reserve_moves:
  assumes rs: "reserve s i cur n = Inr s'" and inv: "invs (s_accounts s)" and n: "0 < n"
  shows "moves s [] [] [(i, - n)] s'" "state_evolves s s'" "invs (s_accounts s')"
    and "\<exists>a b. map_of (s_accounts s) i = Some a \<and> map_of (s_accounts s') i = Some b \<and>
      a_currency b = a_currency a \<and> in_range n"
proof -
  obtain a where a: "map_of (s_accounts s) i = Some a"
    "map_of (s_accounts s') = (map_of (s_accounts s))(i \<mapsto> bump (a\<lparr>held := held a + n\<rparr>))"
    using reserve_facts(1) [OF assms] by blast
  note f = reserve_facts(2-4) [OF assms]
  show "invs (s_accounts s')" by (rule f(1))
  show "moves s [] [] [(i, - n)] s'"
    using a by (auto simp: moves_def bump_def)
  show "state_evolves s s'"
    using single_evolves [OF a(1) a(2)] f bump_evolved [of a "held a + n"] by simp
  have "map_of (s_accounts s') i = Some (bump (a\<lparr>held := held a + n\<rparr>))" using a(2) by simp
  then have "account_ok (bump (a\<lparr>held := held a + n\<rparr>))" "account_ok a"
    using invsD(2) [OF f(1)] invsD(2) [OF inv a(1)] by blast+
  then have "in_range n" using n by (auto simp: account_ok_def amount_ok_def in_range_def bump_def)
  then show "\<exists>a b. map_of (s_accounts s) i = Some a \<and> map_of (s_accounts s') i = Some b \<and>
      a_currency b = a_currency a \<and> in_range n"
    using a by (auto simp: bump_def)
qed

lemma release_moves:
  assumes rl: "release s i n = Inr s'" and inv: "invs (s_accounts s)" and n: "0 < n" "in_range n"
  shows "moves s [] [] [(i, n)] s'" "state_evolves s s'" "invs (s_accounts s')"
proof -
  obtain a where a: "map_of (s_accounts s) i = Some a"
    "map_of (s_accounts s') = (map_of (s_accounts s))(i \<mapsto> bump (a\<lparr>held := held a - n\<rparr>))"
    using release_facts(1) [OF assms] by blast
  note f = release_facts(2-4) [OF assms]
  show "invs (s_accounts s')" by (rule f(1))
  show "moves s [] [] [(i, n)] s'"
    using a by (auto simp: moves_def bump_def)
  show "state_evolves s s'"
    using single_evolves [OF a(1) a(2)] f bump_evolved [of a "held a - n"] by simp
qed

lemma release_all_moves:
  "release_all s R = Inr s' \<Longrightarrow> invs (s_accounts s) \<Longrightarrow> releases_ok R \<Longrightarrow>
    moves s [] [] R s' \<and> state_evolves s s' \<and> invs (s_accounts s')"
proof (induction R arbitrary: s)
  case (Cons x R)
  obtain i n where x: "x = (i, n)" by (cases x)
  obtain s1 where s1: "release s i n = Inr s1" and rest: "release_all s1 R = Inr s'"
    using Cons.prems(1) by (auto simp: x)
  have n: "0 < n" "in_range n" and R: "releases_ok R" using Cons.prems(3) by (auto simp: x releases_ok_def)
  note m = release_moves [OF s1 Cons.prems(2) n]
  have ih: "moves s1 [] [] R s' \<and> state_evolves s1 s' \<and> invs (s_accounts s')"
    by (rule Cons.IH [OF rest m(3) R])
  then have "moves s ([] @ []) ([] @ []) ([(i, n)] @ R) s'"
    using moves_trans [OF m(1) _ state_evolves_same_dom [OF m(2)]] by blast
  then show ?case using ih m(2) state_evolves_trans by (auto simp: x)
qed simp

section \<open>The operations\<close>

lemma lockAccounts_holds [simp]: "lockAccounts (d\<lparr>db_holds := hs\<rparr>) = lockAccounts d"
proof
  fix ids
  have "lock_rows (d\<lparr>db_holds := hs\<rparr>) rs = lock_rows d rs" for rs
    by (induction rs) (auto simp: ledger_by_def split: option.splits)
  then show "lockAccounts (d\<lparr>db_holds := hs\<rparr>) ids = lockAccounts d ids"
    by (simp add: lockAccounts_def)
qed

lemma createHold_inv:
  assumes inv: "db_inv d" and ch: "createHold d now newid inp = Inr (h, replayed, d')"
  shows "db_inv d'"
proof (cases "selectHoldByKey d (hi_key inp)")
  case (Some x)
  then have "d' = d" using ch by (auto simp: createHold_def Let_def split: if_splits)
  then show ?thesis using inv by simp
next
  case None
  let ?acct = "hi_account inp" and ?n = "hi_amount inp"
  have n: "0 < ?n" using ch by (auto simp: createHold_def validateHold_def split: if_splits)
  obtain s a d1 d2 where rs: "reserve (lockAccounts d [?acct]) ?acct (hi_currency inp) ?n = Inr s"
    and a: "map_of (s_accounts s) ?acct = Some a"
    and h: "h = new_hold now newid (inp\<lparr>hi_expiresAt := truncate_us (hi_expiresAt inp)\<rparr>) (a_currency a)"
    and ins: "insertHold h d = Inr d1" and wr: "writeAccounts s d1 = Inr d2"
    and d': "d' = emit [HoldEvent ''hold.created'' h] d2"
    using ch None
    by (auto simp: createHold_def Let_def hold_key_error_def split: option.splits if_splits)
  note i = db_invD [OF inv]
  have i0: "invs (s_accounts (lockAccounts d [?acct]))" by (rule locked_invs [OF i(1)])
  note m = reserve_moves [OF rs i0 n]
  obtain a0 where a0: "map_of (s_accounts (lockAccounts d [?acct])) ?acct = Some a0"
    "a_currency a = a_currency a0" "in_range ?n"
    using m(4) a by auto
  then obtain r where r: "account_by d ?acct = Some r" "a0 = locked_state d r"
    unfolding lockAccounts_accounts(1) [OF i(2)] by (auto split: if_splits)
  have ok: "hold_ok d h"
    using r a0 n by (simp add: h hold_ok_def new_hold_def locked_state_def row_state_def)
  have hs: "h_status h = HoldPending" "h_account h = ?acct" "h_amount h = ?n"
    by (simp_all add: h new_hold_def)
  have one: "db_inv_but [(?acct, ?n)] d1"
    using insertHold_inv [OF inv ins hs(1) ok] hs by simp
  have "lockAccounts d1 = lockAccounts d"
    using ins by (auto simp: insertHold_def split: if_splits)
  then have "db_inv_but ([(?acct, ?n)] @ [(?acct, - ?n)]) d2"
    using accounts_write_inv [OF wr one, of "[?acct]"] m(1-3) by simp
  then have "db_inv d2"
    using released_cong_books [of "[(?acct, ?n), (?acct, - ?n)]" "[]" d2]
    by (simp add: db_inv_def)
  then show ?thesis by (simp add: d')
qed

lemma hold_by_SomeD: "hold_by d i = Some h \<Longrightarrow> h \<in> set (db_holds d) \<and> h_id h = i"
  unfolding hold_by_def by (rule row_by_SomeD)

lemma voidHold_inv:
  assumes inv: "db_inv d" and vh: "voidHold d now i = Inr (h', replayed, d')"
  shows "db_inv d'"
proof -
  obtain h where h: "hold_by d i = Some h" using vh by (auto simp: voidHold_def split: option.splits)
  show ?thesis
  proof (cases "h_status h = HoldPending")
    case False
    then have "d' = d" using vh h by (auto simp: voidHold_def split: if_splits)
    then show ?thesis using inv by simp
  next
    case True
    obtain s d1 d2 evs where rl: "release (lockAccounts d [h_account h]) (h_account h) (h_amount h) = Inr s"
      and wr: "writeAccounts s d = Inr d1" and rs: "resolveHold now i HoldVoided None None d1 = Inr (h', d2)"
      and d': "d' = emit evs d2"
      using vh h True by (auto simp: voidHold_def split: if_splits)
    note j = db_invD [OF inv]
    have ok: "0 < h_amount h" "in_range (h_amount h)"
      using hold_by_SomeD [OF h] j(4) by (auto simp: holds_inv_def hold_ok_def)
    note m = release_moves [OF rl locked_invs [OF j(1)] ok]
    have "db_inv_but ([] @ [(h_account h, h_amount h)]) d1"
      by (rule accounts_write_inv [OF wr _ m(2,3,1)]) (use inv in \<open>simp add: db_inv_def\<close>)
    moreover have "hold_by d1 i = Some h"
    proof -
      have "distinct (map fst (s_accounts s))" using m(3) by (simp add: invs_def accounts_wf_def)
      from writeAccounts_extends(6) [OF wr refl j(2) m(2) this] show ?thesis
        using h by (simp add: hold_by_def)
    qed
    ultimately have "db_inv d2" using resolveHold_inv [OF _ _ rs] by simp
    then show ?thesis by (simp add: d')
  qed
qed

section \<open>Capture\<close>

lemma captureHold_inv:
  assumes inv: "db_inv d" and ch: "captureHold d now clock fresh i c = Inr (h', replayed, d')"
  shows "db_inv d'"
proof -
  have n: "0 < ca_amount c" using ch by (auto simp: captureHold_def validateCapture_def split: if_splits)
  obtain h a where h: "hold_by d i = Some h" and a: "account_by d (h_account h) = Some a"
    using ch by (auto simp: captureHold_def split: option.splits)
  show ?thesis
  proof (cases "h_status h = HoldPending")
    case False
    then have "d' = d" using ch h a by (auto simp: captureHold_def Let_def split: if_splits option.splits)
    then show ?thesis using inv by simp
  next
    case True
    let ?req = "\<lparr>rq_in = capture_input h (ac_normalSide a) c, rq_reverses = None,
      rq_releases = [(h_account h, h_amount h)]\<rparr>"
    obtain r d1 where ap0: "apply_one d now fresh ?req = Inr (r, d1)" and le: "ca_amount c \<le> h_amount h"
      and rest: "(case r of Failure e \<Rightarrow> Inl e | Success t replayed \<Rightarrow>
          if replayed then Inl ErrIdempotencyConflict
          else bindR (resolveHold now i HoldCaptured (Some (ca_amount c)) (Some (t_id t)) d1) (\<lambda>(h, d).
            Inr (h, False, emit [HoldEvent ''hold.captured'' h] d))) = Inr (h', replayed, d')"
      using ch h a True by (auto simp: captureHold_def Let_def split: if_splits)
    then obtain t d2 evs where r: "r = Success t False"
      and rs: "resolveHold now i HoldCaptured (Some (ca_amount c)) (Some (t_id t)) d1 = Inr (h', d2)"
      and d': "d' = emit evs d2"
      by (cases r) (auto split: if_splits)
    note ap = ap0 [unfolded r]
    have hok: "0 < h_amount h" "in_range (h_amount h)"
      using hold_by_SomeD [OF h] db_invD(4) [OF inv] by (auto simp: holds_inv_def hold_ok_def)
    have "in_range (ca_amount c)" using n le hok by (auto simp: in_range_def)
    then have req: "request_ok ?req"
      using n hok by (simp add: request_ok_def capture_input_def Let_def entries_ok_def entry_ok_def
          releases_ok_def input_status_def plain_posting_def opposite.simps)
    have na: "\<not> in_archiveOnLockFailure (rq_in ?req)" by (simp add: capture_input_def Let_def)
    note one = apply_one_inv [OF ap inv req na]
    have "hold_by d1 i = Some h" using h one(2) by (simp add: hold_by_def)
    then have "db_inv d2" using resolveHold_inv [OF _ _ rs] one(1) by simp
    then show ?thesis by (simp add: d')
  qed
qed

section \<open>Expiry\<close>

lemma sum_over_disj:
  "(\<And>x. \<not> (p x \<and> q x)) \<Longrightarrow> sum_over (\<lambda>h. p h \<or> q h) f xs = sum_over p f xs + sum_over q f xs"
  by (induction xs) auto

lemma sum_over_split:
  "sum_over p f xs = sum_over (\<lambda>h. p h \<and> \<not> q h) f xs + sum_over (\<lambda>h. p h \<and> q h) f xs"
  by (induction xs) auto

lemma released_due:
  assumes "distinct (map h_id hs)" "\<And>h. h \<in> set ds \<Longrightarrow> h \<in> set hs" "distinct (map h_id ds)"
  shows "released j (map (\<lambda>h. (h_account h, h_amount h)) ds) =
    sum_over (\<lambda>h. h_account h = j \<and> h_id h \<in> set (map h_id ds)) h_amount hs"
  using assms(2,3)
proof (induction ds)
  case Nil
  then show ?case by (simp add: released_def sum_over_none)
next
  case (Cons d ds)
  have one: "sum_over (\<lambda>h. h_account h = j \<and> h_id h = h_id d) h_amount hs
      = (if h_account d = j then h_amount d else 0)"
  proof -
    have "d \<in> set hs" using Cons.prems by simp
    then show ?thesis using assms(1)
    proof (induction hs)
      case (Cons x xs)
      have "sum_over (\<lambda>h. h_account h = j \<and> h_id h = h_id d) h_amount xs = 0" if "x = d"
        using Cons.prems that by (intro sum_over_none) (auto simp: image_iff)
      moreover have "h_id x \<noteq> h_id d" if "x \<noteq> d"
        using Cons.prems that by (auto simp: image_iff)
      ultimately show ?case using Cons by auto
    qed simp
  qed
  have "sum_over (\<lambda>h. h_account h = j \<and> h_id h \<in> set (map h_id (d # ds))) h_amount hs =
      sum_over (\<lambda>h. (h_account h = j \<and> h_id h = h_id d) \<or> (h_account h = j \<and> h_id h \<in> set (map h_id ds))) h_amount hs"
    by (intro sum_over_cong) auto
  also have "\<dots> = sum_over (\<lambda>h. h_account h = j \<and> h_id h = h_id d) h_amount hs +
      sum_over (\<lambda>h. h_account h = j \<and> h_id h \<in> set (map h_id ds)) h_amount hs"
    by (rule sum_over_disj) (use Cons.prems(2) in auto)
  finally show ?case using Cons one by (simp add: released_def)
qed

lemma expireHolds_inv:
  assumes inv: "db_inv d" and ex: "expireHolds d now skip limit = Inr (n, d')"
  shows "db_inv d'"
proof (cases "due_holds d now skip limit = []")
  case True
  then show ?thesis using inv ex by (simp add: expireHolds_def)
next
  case False
  let ?due = "due_holds d now skip limit"
  let ?R = "map (\<lambda>h. (h_account h, h_amount h)) ?due"
  let ?mine = "\<lambda>h. h_id h \<in> set (map h_id ?due)"
  obtain s d1 evs where rl: "release_all (lockAccounts d (map h_account ?due)) ?R = Inr s"
    and wr: "writeAccounts s d = Inr d1"
    and d': "d' = emit evs (d1\<lparr>db_holds := update_rows ?mine (resolved now HoldExpired None None) (db_holds d1)\<rparr>)"
    using ex False by (auto simp: expireHolds_def Let_def)
  note j = db_invD [OF inv]
  have dist: "distinct (map h_id (db_holds d))" using j(4) by (simp add: holds_inv_def)
  have due: "h \<in> set (db_holds d) \<and> h_status h = HoldPending" if "h \<in> set ?due" for h
    using that by (auto simp: due_holds_def dest!: in_set_takeD)
  have hok: "0 < h_amount h \<and> in_range (h_amount h)" if "h \<in> set ?due" for h
    using due [OF that] j(4) by (auto simp: holds_inv_def hold_ok_def)
  have ddist: "distinct (map h_id ?due)"
  proof -
    have "distinct (map h_id (filter (\<lambda>h. h_status h = HoldPending \<and> h_expiresAt h \<le> now \<and> \<not> skip (h_id h)) (db_holds d)))"
      using dist by (rule distinct_map_filter)
    then have "distinct (map h_id (sort_key h_expiresAt
        (filter (\<lambda>h. h_status h = HoldPending \<and> h_expiresAt h \<le> now \<and> \<not> skip (h_id h)) (db_holds d))))"
      by (simp add: distinct_map)
    then show ?thesis unfolding due_holds_def take_map [symmetric] by (rule distinct_take)
  qed
  have "releases_ok ?R" using hok by (auto simp: releases_ok_def list_all_iff)
  then have m: "moves (lockAccounts d (map h_account ?due)) [] [] ?R s"
    "state_evolves (lockAccounts d (map h_account ?due)) s" "invs (s_accounts s)"
    using release_all_moves [OF rl locked_invs [OF j(1)]] by blast+
  have one: "db_inv_but ([] @ ?R) d1"
    by (rule accounts_write_inv [OF wr _ m(2,3,1)]) (use inv in \<open>simp add: db_inv_def\<close>)
  have hs: "db_holds d1 = db_holds d"
  proof -
    have "distinct (map fst (s_accounts s))" using m(3) by (simp add: invs_def accounts_wf_def)
    from writeAccounts_extends(6) [OF wr refl j(2) m(2) this] show ?thesis .
  qed
  let ?hs = "update_rows ?mine (resolved now HoldExpired None None) (db_holds d1)"
  have pend: "h_status h = HoldPending" if h: "h \<in> set (db_holds d)" and mine: "?mine h" for h
  proof -
    obtain x where x: "x \<in> set ?due" "h_id x = h_id h" using mine by auto
    then have "x = h" using due [OF x(1)] h dist by (auto simp: distinct_map dest: inj_onD)
    then show ?thesis using due [OF x(1)] by simp
  qed
  have "db_inv_but [] (d1\<lparr>db_holds := ?hs\<rparr>)"
  proof (rule holds_only [OF one])
    have hi: "holds_inv d1" using one by (simp add: db_inv_but_def)
    have "map h_id ?hs = map h_id (db_holds d1)" "map h_key ?hs = map h_key (db_holds d1)"
      by (rule map_key_update_rows, simp add: resolved_def)+
    moreover have "hold_ok (d1\<lparr>db_holds := ?hs\<rparr>) x" if x: "x \<in> set ?hs" for x
    proof -
      obtain y where y: "y \<in> set (db_holds d1)" "x = (if ?mine y then resolved now HoldExpired None None y else y)"
        using x by (auto simp: set_update_rows)
      have "hold_ok d1 y" using y(1) hi by (simp add: holds_inv_def)
      then show ?thesis using y(2) by (auto simp: hold_ok_def account_by_def resolved_def)
    qed
    ultimately show "holds_inv (d1\<lparr>db_holds := ?hs\<rparr>)" using hi by (simp add: holds_inv_def)
    show "held_sum (d1\<lparr>db_holds := ?hs\<rparr>) k - released k [] = held_sum d1 k - released k ([] @ ?R)" for k
    proof -
      have "held_sum (d1\<lparr>db_holds := ?hs\<rparr>) k =
          sum_over (\<lambda>h. h_account h = k \<and> h_status h = HoldPending \<and> \<not> ?mine h) h_amount (db_holds d)"
      proof -
        have "sum_over (\<lambda>h. h_account h = k \<and> h_status h = HoldPending) h_amount
            (update_rows q (resolved now HoldExpired None None) xs) =
          sum_over (\<lambda>h. h_account h = k \<and> h_status h = HoldPending \<and> \<not> q h) h_amount xs" for q xs
          by (induction xs) (auto simp: resolved_def)
        then show ?thesis by (simp add: held_sum_def hs)
      qed
      moreover have "held_sum d1 k =
          sum_over (\<lambda>h. h_account h = k \<and> h_status h = HoldPending \<and> \<not> ?mine h) h_amount (db_holds d) +
          sum_over (\<lambda>h. h_account h = k \<and> ?mine h) h_amount (db_holds d)"
      proof -
        have "held_sum d1 k =
          sum_over (\<lambda>h. (h_account h = k \<and> h_status h = HoldPending) \<and> \<not> ?mine h) h_amount (db_holds d) +
          sum_over (\<lambda>h. (h_account h = k \<and> h_status h = HoldPending) \<and> ?mine h) h_amount (db_holds d)"
          unfolding held_sum_def hs by (rule sum_over_split)
        moreover have "sum_over (\<lambda>h. (h_account h = k \<and> h_status h = HoldPending) \<and> ?mine h) h_amount (db_holds d)
          = sum_over (\<lambda>h. h_account h = k \<and> ?mine h) h_amount (db_holds d)"
          using pend by (intro sum_over_cong) auto
        ultimately show ?thesis by (simp only: conj_assoc)
      qed
      moreover have "released k ?R = sum_over (\<lambda>h. h_account h = k \<and> ?mine h) h_amount (db_holds d)"
        using due by (intro released_due [OF dist _ ddist]) blast
      moreover have "released k [] = 0" by (simp add: released_def)
      ultimately show ?thesis unfolding append_Nil by linarith
    qed
  qed
  then show ?thesis by (simp add: d' db_inv_def)
qed

end
