(* ===== verification/Registry_Laws.thy ===== *)
theory Registry_Laws
  imports Accounts Holds_Laws
begin

text \<open>
  The laws of currencies, ledgers and accounts. Their operations leave the journal alone, so they keep
  the invariant of the database as soon as they keep every account, its ledger, its currency and its
  totals; the registry has an invariant of its own, unique ids, codes and currency codes.
\<close>

section \<open>Leaving the journal alone\<close>

definition same_journal :: "db \<Rightarrow> db \<Rightarrow> bool" where
  "same_journal d d' \<longleftrightarrow>
     db_txns d' = db_txns d \<and> db_postings d' = db_postings d \<and> db_pending d' = db_pending d \<and>
     db_holds d' = db_holds d \<and> db_settlements d' = db_settlements d \<and> db_settled d' = db_settled d \<and>
     db_sequence d' = db_sequence d"

lemma same_journal_lookups:
  assumes "same_journal d d'"
  shows "txn_by d' = txn_by d" "live d' = live d" "posted_sum d' = posted_sum d"
    "pending_sum d' = pending_sum d" "held_sum d' = held_sum d" "row_entries d' = row_entries d"
    "settled_net d' = settled_net d"
proof -
  show t: "txn_by d' = txn_by d" using assms by (simp add: same_journal_def txn_by_def fun_eq_iff)
  show l: "live d' = live d" by (simp add: live_def t fun_eq_iff)
  show "posted_sum d' = posted_sum d" "pending_sum d' = pending_sum d" "held_sum d' = held_sum d"
    "row_entries d' = row_entries d" "settled_net d' = settled_net d"
    using assms
    by (simp_all add: same_journal_def posted_sum_def pending_sum_def held_sum_def row_entries_def
        settled_net_def l fun_eq_iff)
qed

lemma same_journal_inv:
  assumes inv: "db_inv d" and same: "same_journal d d'" and ext: "extends d d'"
    and acc: "accounts_inv d'" and books: "books [] d'"
  shows "db_inv d'"
proof -
  note l = same_journal_lookups [OF same]
  note s = same [unfolded same_journal_def]
  have "journal_inv d'"
    using db_invD(3) [OF inv] extends_posting_ok [OF ext] extends_pending_ok [OF ext] s l
    by (simp add: journal_inv_def txn_row_ok_def)
  moreover have "holds_inv d'"
    using db_invD(4) [OF inv] extends_hold_ok [OF ext] s by (simp add: holds_inv_def)
  moreover have "settled_inv d'" "balanced d'"
    using inv s l by (simp_all add: db_inv_def db_inv_but_def settled_inv_def balanced_def)
  ultimately show ?thesis
    using inv acc books s by (simp add: db_inv_def db_inv_but_def)
qed

section \<open>Currencies and ledgers\<close>

lemma ledgers_inv:
  assumes inv: "db_inv d" and same: "same_journal d d'" and acc: "db_accounts d' = db_accounts d"
    and led: "\<forall>i. ledger_by d i \<noteq> None \<longrightarrow> ledger_by d' i \<noteq> None"
  shows "db_inv d'"
proof (rule same_journal_inv [OF inv same])
  have a: "account_by d' = account_by d" by (simp add: account_by_def fun_eq_iff acc)
  show "extends d d'"
    by (simp add: extends_def a same_journal_lookups [OF same])
  show "accounts_inv d'"
    using db_invD(1) [OF inv] led acc by (simp add: accounts_inv_def rows_wf_def)
  show "books [] d'"
    using db_invD(5) [OF inv] acc by (simp add: books_def row_books_def same_journal_lookups [OF same])
qed

lemma createCurrency_inv:
  assumes "createCurrency d now i = Inr (c, d')" "db_inv d"
  shows "db_inv d'"
proof -
  have "d' = d \<or> (\<exists>cs. d' = d\<lparr>db_currencies := cs\<rparr>)"
    using assms(1) by (auto simp: createCurrency_def insertCurrency_def Let_def split: option.splits if_splits)
  then show ?thesis
    using assms(2) by (auto intro!: ledgers_inv [OF assms(2)] simp: same_journal_def ledger_by_def)
qed

lemma replaceLedger_inv:
  assumes "db_inv d"
  shows "db_inv (replaceLedger d l)"
proof -
  have "map l_id (db_ledgers (replaceLedger d l)) = map l_id (db_ledgers d)"
    by (auto simp: replaceLedger_def intro: map_key_update_rows)
  then have "\<forall>i. ledger_by (replaceLedger d l) i = None \<longleftrightarrow> ledger_by d i = None"
    by (simp add: ledger_by_def row_by_None_iff flip: set_map)
  then show ?thesis
    by (intro ledgers_inv [OF assms]) (simp_all add: same_journal_def replaceLedger_def)
qed

lemma createLedger_inv:
  assumes "createLedger d now newid i = Inr (l, d')" "db_inv d"
  shows "db_inv d'"
proof -
  have "d' = d\<lparr>db_ledgers := db_ledgers d @ [l]\<rparr>"
    using assms(1) by (auto simp: createLedger_def insertLedger_def Let_def split: if_splits)
  then show ?thesis
    by (intro ledgers_inv [OF assms(2)])
      (auto simp: same_journal_def ledger_by_def row_by_append split: option.splits)
qed

lemma updateLedger_inv:
  assumes "updateLedger d i inp = Inr (l, d')" "db_inv d"
  shows "db_inv d'"
  using assms replaceLedger_inv
  by (auto simp: updateLedger_def updateLedgerRow_def Let_def split: if_splits)

lemma closePeriod_inv:
  assumes "closePeriod d now i closed = Inr (l, d')" "db_inv d"
  shows "db_inv d'"
  using assms replaceLedger_inv by (auto simp: closePeriod_def Let_def split: if_splits)

section \<open>Accounts\<close>

lemma no_entries_of_unknown:
  assumes inv: "db_inv d" and new: "account_by d i = None"
  shows "posted_sum d i s = 0" "pending_sum d i s = 0" "held_sum d i = 0"
proof -
  have "pr_account p \<noteq> i" if "p \<in> set (db_postings d)" for p
    using db_invD(3) [OF inv] that new by (auto simp: journal_inv_def posting_ok_def entry_home_def)
  then show "posted_sum d i s = 0" by (auto simp: posted_sum_def intro: sum_over_none)
  have "pe_account p \<noteq> i" if "p \<in> set (db_pending d)" for p
    using db_invD(3) [OF inv] that new by (auto simp: journal_inv_def pending_ok_def entry_home_def)
  then show "pending_sum d i s = 0" by (auto simp: pending_sum_def intro: sum_over_none)
  have "h_account h \<noteq> i" if "h \<in> set (db_holds d)" for h
    using db_invD(4) [OF inv] that new by (auto simp: holds_inv_def hold_ok_def)
  then show "held_sum d i = 0" by (auto simp: held_sum_def intro: sum_over_none)
qed

lemma new_account_inv:
  assumes "validateAccount i = ok" "in_range (ai_overdraftLimit i)"
  shows "row_inv (new_account now newid i)"
  using assms
  by (auto simp: row_inv_def account_inv_def account_ok_def views_ok_def funds_ok_def avail_def new_account_def
      row_state_def validateAccount_def outflow_def in_range_def amount_ok_def)

lemma insertAccount_inv:
  assumes ins: "insertAccount d now newid i = Inr (Some a, d')" and inv: "db_inv d"
    and val: "validateAccount i = ok" and rng: "in_range (ai_overdraftLimit i)"
  shows "db_inv d'"
proof -
  let ?r = "new_account now newid i"
  have new: "account_by d newid = None" and led: "ledger_by d (ai_ledger i) \<noteq> None"
    and d': "d' = d\<lparr>db_accounts := db_accounts d @ [?r]\<rparr>"
    using ins by (auto simp: insertAccount_def Let_def split: if_splits)
  have id: "ac_id ?r = newid" by (simp add: new_account_def)
  have same: "same_journal d d'" by (simp add: d' same_journal_def)
  have by': "account_by d' k = (if k = newid then Some ?r else account_by d k)" for k
    using new id by (auto simp: d' account_by_def row_by_append split: option.splits)
  show ?thesis
  proof (rule same_journal_inv [OF inv same])
    show "extends d d'" using new by (auto simp: extends_def by' same_journal_lookups [OF same])
    have "distinct (map ac_id (db_accounts d'))"
      using db_invD(2) [OF inv] new id by (auto simp: rows_wf_def d' account_by_def row_by_None_iff)
    moreover have "ledger_by d' = ledger_by d" by (simp add: d' ledger_by_def fun_eq_iff)
    ultimately show "accounts_inv d'"
      using db_invD(1) [OF inv] new_account_inv [OF val rng] led
      by (auto simp: accounts_inv_def rows_wf_def d' new_account_def)
    show "books [] d'"
      using db_invD(5) [OF inv] no_entries_of_unknown [OF inv new] same_journal_lookups [OF same]
      by (auto simp: books_def row_books_def d' new_account_def released_def)
  qed
qed

lemma createAccount_inv:
  assumes cr: "createAccount d now newid i = Inr (a, d')" and inv: "db_inv d"
    and rng: "in_range (ai_overdraftLimit i)"
  shows "db_inv d'"
proof -
  obtain c d1 where ins: "insertAccount d now newid i = Inr (c, d1)" and val: "validateAccount i = ok"
    using cr by (auto simp: createAccount_def)
  show ?thesis
  proof (cases c)
    case None
    then have "d1 = d" using ins by (auto simp: insertAccount_def Let_def split: if_splits)
    then show ?thesis using cr ins val None inv by (auto simp: createAccount_def split: if_splits)
  next
    case (Some b)
    then have "d' = emit [AccountEvent ''account.created'' (acc_row b)] d1"
      using cr ins val by (auto simp: createAccount_def)
    then show ?thesis using insertAccount_inv [OF _ inv val rng] ins Some by (simp add: db_inv_def db_inv_emit)
  qed
qed

text \<open>An update that keeps the account's identity and totals.\<close>

definition keeps_totals :: "account_row \<Rightarrow> account_row \<Rightarrow> bool" where
  "keeps_totals r r' \<longleftrightarrow>
     ac_id r' = ac_id r \<and> ac_ledger r' = ac_ledger r \<and> ac_currency r' = ac_currency r \<and>
     ac_normalSide r' = ac_normalSide r \<and> ac_allowNegative r' = ac_allowNegative r \<and>
     ac_overdraftLimit r' = ac_overdraftLimit r \<and>
     ac_postedDebits r' = ac_postedDebits r \<and> ac_postedCredits r' = ac_postedCredits r \<and>
     ac_pendingDebits r' = ac_pendingDebits r \<and> ac_pendingCredits r' = ac_pendingCredits r \<and>
     ac_held r' = ac_held r"

lemma updateAccountRow_inv:
  assumes up: "updateAccountRow d i f = Inr (a, d')" and inv: "db_inv d"
    and keep: "\<And>r. keeps_totals r (f r)"
  shows "db_inv d'"
proof -
  obtain r where r: "account_by d i = Some r" and chk: "account_row_check r (f r) = ok"
    and d': "d' = d\<lparr>db_accounts := update_rows (\<lambda>x. ac_id x = i) (\<lambda>_. f r) (db_accounts d)\<rparr>"
    using up by (auto simp: updateAccountRow_def split: option.splits)
  have k: "keeps_totals r (f r)" by (rule keep)
  have rid: "ac_id r = i" "r \<in> set (db_accounts d)"
    using account_by_SomeD [OF r] by auto
  have ids: "map ac_id (db_accounts d') = map ac_id (db_accounts d)"
    using k rid by (auto simp: d' keeps_totals_def intro: map_key_update_rows)
  have by': "account_by d' j = (if j = i then Some (f r) else account_by d j)" for j
  proof -
    have "row_by ac_id (update_rows (\<lambda>x. ac_id x = i) (\<lambda>_. f r) (db_accounts d)) j =
        map_option (\<lambda>x. if ac_id x = i then f r else x) (row_by ac_id (db_accounts d) j)"
      by (rule row_by_update_rows) (use k rid in \<open>simp add: keeps_totals_def\<close>)
    then have "account_by d' j = map_option (\<lambda>x. if ac_id x = i then f r else x) (account_by d j)"
      by (simp add: d' account_by_def)
    then show ?thesis using r account_by_SomeD by (cases "account_by d j") fastforce+
  qed
  have mem: "x \<in> set (db_accounts d') \<Longrightarrow> x = f r \<or> x \<in> set (db_accounts d)" for x
    by (auto simp: d' set_update_rows split: if_splits)
  have same: "same_journal d d'" by (simp add: d' same_journal_def)
  have "row_inv r" using db_invD(1) [OF inv] rid(2) by (simp add: accounts_inv_def)
  moreover have "account_inv (row_state None (f r)) = account_inv (row_state None r)"
    by (rule account_inv_cong) (use k in \<open>simp_all add: row_state_def keeps_totals_def\<close>)
  moreover have "ac_status (f r) = Closed \<Longrightarrow> ac_postedDebits (f r) = ac_postedCredits (f r) \<and>
      ac_pendingDebits (f r) = 0 \<and> ac_pendingCredits (f r) = 0 \<and> ac_held (f r) = 0"
    using chk by (simp add: account_row_check_def split: if_splits)
  ultimately have row: "row_inv (f r)" by (simp add: row_inv_def)
  show ?thesis
  proof (rule same_journal_inv [OF inv same])
    show "extends d d'"
      using r k by (auto simp: extends_def by' same_journal_lookups [OF same] keeps_totals_def)
    have "ledger_by d' = ledger_by d" by (simp add: d' ledger_by_def fun_eq_iff)
    then show "accounts_inv d'"
      using db_invD(1) [OF inv] row ids mem k rid
      by (fastforce simp: accounts_inv_def rows_wf_def keeps_totals_def)
    show "books [] d'"
      unfolding books_def
    proof
      fix x assume "x \<in> set (db_accounts d')"
      then consider "x = f r" | "x \<in> set (db_accounts d)" using mem by blast
      moreover have "row_books [] d r" using db_invD(5) [OF inv] rid(2) by (simp add: books_def)
      ultimately have "row_books [] d x"
        using db_invD(5) [OF inv] k by cases (simp_all add: books_def row_books_def keeps_totals_def)
      then show "row_books [] d' x" by (simp add: row_books_def same_journal_lookups [OF same])
    qed
  qed
qed

lemma setAccountStatus_inv:
  assumes st: "setAccountStatus d now i target = Inr (a, d')" and inv: "db_inv d"
  shows "db_inv d'"
proof (cases "d' = d")
  case False
  then obtain d1 a1 evs where up: "updateAccountStatus d now i target = Inr (a1, d1)" and d': "d' = emit evs d1"
    using st by (auto simp: setAccountStatus_def split: if_splits)
  have "db_inv d1"
    using up unfolding updateAccountStatus_def
    by (rule updateAccountRow_inv [OF _ inv]) (simp add: keeps_totals_def)
  then show ?thesis by (simp add: d' db_inv_def db_inv_emit)
qed (use inv in simp)

lemma updateAccount_inv:
  assumes st: "updateAccount d i inp = Inr (a, d')" and inv: "db_inv d"
  shows "db_inv d'"
proof (cases "d' = d")
  case False
  then obtain d1 a1 nxt evs where up: "updateAccountDetails d nxt = Inr (a1, d1)" and d': "d' = emit evs d1"
    using st by (auto simp: updateAccount_def Let_def split: if_splits)
  have "db_inv d1"
    using up unfolding updateAccountDetails_def
    by (rule updateAccountRow_inv [OF _ inv]) (simp add: keeps_totals_def)
  then show ?thesis by (simp add: d' db_inv_def db_inv_emit)
qed (use inv in simp)

end
