(* ===== verification/Monitors.thy ===== *)
theory Monitors
  imports Registry_Laws
begin

text \<open>
  \<^verbatim>\<open>monitors.go\<close>: a balance monitor watches a balance of an account. The operations create, read,
  update and delete monitors; the engine fires them when a change of balances makes the condition
  hold (\<open>crossed\<close>).
\<close>

record monitorInput =
  mi_account :: uuid
  mi_condition :: alert_condition
  mi_description :: string
  mi_metadata :: jvalue

definition validateMonitor :: "monitorInput \<Rightarrow> unit res" where
  "validateMonitor i =
     (if mi_account i = 0 then Inl ErrInvalid
      else if alert_field (mi_condition i) \<noteq> ''pending'' \<and> alert_field (mi_condition i) \<noteq> ''posted''
          \<and> alert_field (mi_condition i) \<noteq> ''available'' then Inl ErrInvalid
      else if alert_operator (mi_condition i) \<notin> {''gt'', ''gte'', ''eq'', ''lt'', ''lte'', ''not_eq''} then
        Inl ErrInvalid
      else validateText (mi_description i) (mi_metadata i))"

definition accountBalances :: "account \<Rightarrow> balances" where
  "accountBalances a = \<lparr>b_pending = acc_pending a, b_posted = acc_posted a, b_available = acc_available a\<rparr>"

definition read_monitor :: "db \<Rightarrow> monitor \<Rightarrow> monitor res" where
  "read_monitor d m =
     bindR (queryAccount d (m_account m)) (\<lambda>a.
       Inr (m\<lparr>m_triggered := alert_holds (m_condition m) (accountBalances a)\<rparr>))"

fun readMonitors :: "db \<Rightarrow> monitor list \<Rightarrow> monitor list res" where
  "readMonitors d [] = Inr []"
| "readMonitors d (m # ms) =
     bindR (read_monitor d m) (\<lambda>m'. bindR (readMonitors d ms) (\<lambda>ms'. Inr (m' # ms')))"

definition createMonitor :: "db \<Rightarrow> gotime \<Rightarrow> uuid \<Rightarrow> monitorInput \<Rightarrow> (monitor \<times> db) res" where
  "createMonitor d now newid i =
     bindR (validateMonitor i) (\<lambda>_.
     bindR (queryAccount d (mi_account i)) (\<lambda>a.
     if row_by m_id (db_monitors d) newid \<noteq> None then Inl (ErrConstraint ''ledger_balance_monitors_pkey'')
     else let m = \<lparr>m_id = newid, m_account = mi_account i, m_condition = mi_condition i,
                   m_description = mi_description i, m_metadata = normalizeMetadata (mi_metadata i),
                   m_version = 0, m_createdAt = now, m_triggered = False\<rparr>
          in Inr (m\<lparr>m_triggered := alert_holds (mi_condition i) (accountBalances a)\<rparr>,
                  d\<lparr>db_monitors := db_monitors d @ [m]\<rparr>)))"

definition queryMonitor :: "db \<Rightarrow> uuid \<Rightarrow> monitor res" where
  "queryMonitor d i =
     bindR (readMonitors d (filter (\<lambda>m. m_id m = i) (db_monitors d))) (\<lambda>ms.
       case ms of [] \<Rightarrow> Inl ErrNotFound | m # _ \<Rightarrow> Inr m)"

record monitorList =
  ml_account :: uuid
  ml_before :: uuid
  ml_limit :: int

definition listMonitors :: "db \<Rightarrow> monitorList \<Rightarrow> monitor list res" where
  "listMonitors d i =
     (if \<not> limit_ok (ml_limit i) then Inl ErrInvalid
      else readMonitors d (page m_id (\<lambda>m. opt_matches (nullUUID (ml_account i)) (m_account m))
        (ml_before i) (nat (ml_limit i)) (db_monitors d)))"

text \<open>The update, and the read of the monitor that follows its database transaction.\<close>

definition updateMonitor :: "db \<Rightarrow> uuid \<Rightarrow> updateInput \<Rightarrow> (monitor res \<times> db) res" where
  "updateMonitor d i inp =
     (if ui_name inp \<noteq> None then Inl ErrInvalid
      else case row_by m_id (db_monitors d) i of
             None \<Rightarrow> Inl ErrNotFound
           | Some cur \<Rightarrow>
               bindR (applyUpdate [] (m_description cur) (m_metadata cur) inp False)
                 (\<lambda>(_, description, metadata).
                 let d' = (if sameDetails [] (m_description cur) (m_metadata cur) [] description metadata then d
                           else d\<lparr>db_monitors := update_rows (\<lambda>m. m_id m = i)
                             (\<lambda>m. m\<lparr>m_description := description, m_metadata := metadata,
                                m_version := m_version m + 1\<rparr>) (db_monitors d)\<rparr>)
                 in Inr (queryMonitor d' i, d')))"

definition deleteMonitor :: "db \<Rightarrow> uuid \<Rightarrow> db res" where
  "deleteMonitor d i =
     (if row_by m_id (db_monitors d) i = None then Inl ErrNotFound
      else Inr (d\<lparr>db_monitors := filter (\<lambda>m. m_id m \<noteq> i) (db_monitors d)\<rparr>))"

section \<open>Laws\<close>

lemma db_inv_monitors:
  assumes "db_inv d"
  shows "db_inv (d\<lparr>db_monitors := ms\<rparr>)"
  by (rule ledgers_inv [OF assms]) (simp_all add: same_journal_def ledger_by_def)

lemma createMonitor_inv: "createMonitor d now newid i = Inr (m, d') \<Longrightarrow> db_inv d \<Longrightarrow> db_inv d'"
  by (auto simp: createMonitor_def Let_def intro: db_inv_monitors)

lemma updateMonitor_inv: "updateMonitor d i inp = Inr (m, d') \<Longrightarrow> db_inv d \<Longrightarrow> db_inv d'"
  by (auto simp: updateMonitor_def Let_def split: option.splits if_splits intro: db_inv_monitors)

lemma deleteMonitor_inv: "deleteMonitor d i = Inr d' \<Longrightarrow> db_inv d \<Longrightarrow> db_inv d'"
  by (auto simp: deleteMonitor_def intro: db_inv_monitors)

text \<open>A valid condition is decided by its field and its operator alone.\<close>

lemma validateMonitor_condition:
  assumes "validateMonitor i = ok"
  shows "alert_field (mi_condition i) \<in> {''pending'', ''posted'', ''available''}"
    "alert_operator (mi_condition i) \<in> {''gt'', ''gte'', ''eq'', ''lt'', ''lte'', ''not_eq''}"
  using assms by (auto simp: validateMonitor_def split: if_splits)

end
