(* ===== verification/Settlements.thy ===== *)
theory Settlements
  imports Posting_Laws Paging TypeID
begin

text \<open>
  \<^verbatim>\<open>settlements.go\<close> and \<^verbatim>\<open>store_settlements.go\<close>: a settlement sums the entries of an account that no
  earlier settlement has included, moves their net to a contra account with a transaction of its own,
  and marks those entries and the one it posted. The laws show that the marked entries net to zero,
  which is what the integrity check of settlements asks.
\<close>

record settlementInput =
  se_key :: string
  se_settled :: uuid
  se_contra :: uuid
  se_upperBound :: "gotime option"
  se_description :: string
  se_metadata :: jvalue

definition validateSettlement :: "settlementInput \<Rightarrow> unit res" where
  "validateSettlement i =
     bindR (validateKeyAndText (se_key i) (se_description i) (se_metadata i)) (\<lambda>_.
     if se_settled i = 0 \<or> se_contra i = 0 then Inl ErrInvalid
     else if se_settled i = se_contra i then Inl ErrInvalid
     else ok)"

definition settlement_matches :: "settlement \<Rightarrow> settlementInput \<Rightarrow> bool" where
  "settlement_matches st i \<longleftrightarrow>
     st_upperBound st = se_upperBound i \<and> st_settled st = se_settled i \<and> st_contra st = se_contra i \<and>
     st_description st = se_description i \<and> jsonEqual (st_metadata st) (se_metadata i)"

section \<open>Unsettled entries\<close>

definition unsettled :: "db \<Rightarrow> posting_row \<Rightarrow> bool" where
  "unsettled d p \<longleftrightarrow> pr_id p \<notin> set (map fst (db_settled d))"

definition effective_below :: "db \<Rightarrow> gotime option \<Rightarrow> posting_row \<Rightarrow> bool" where
  "effective_below d bound p \<longleftrightarrow>
     (case txn_by d (pr_txn p) of
        None \<Rightarrow> False
      | Some r \<Rightarrow> (case bound of None \<Rightarrow> True | Some b \<Rightarrow> tr_effectiveAt r < b))"

definition unsettled_rows :: "db \<Rightarrow> uuid \<Rightarrow> gotime option \<Rightarrow> posting_row list" where
  "unsettled_rows d i bound =
     filter (\<lambda>p. pr_account p = i \<and> effective_below d bound p \<and> unsettled d p) (db_postings d)"

text \<open>A sum is scanned into an amount, which fails when it is out of range.\<close>

definition scan_sum :: "int \<Rightarrow> int res" where
  "scan_sum n = (if in_range n then Inr n else Inl ErrOverflow)"

definition sumUnsettled :: "db \<Rightarrow> uuid \<Rightarrow> gotime option \<Rightarrow> (int \<times> int \<times> nat) res" where
  "sumUnsettled d i bound =
     (let rows = unsettled_rows d i bound
      in bindR (scan_sum (sum_over (\<lambda>p. pr_side p = Debit) pr_amount rows)) (\<lambda>debits.
         bindR (scan_sum (sum_over (\<lambda>p. pr_side p = Credit) pr_amount rows)) (\<lambda>credits.
           Inr (debits, credits, length rows))))"

definition marked_rows :: "db \<Rightarrow> settlement \<Rightarrow> posting_row list" where
  "marked_rows d st =
     filter (\<lambda>p. pr_account p = st_settled st \<and> txn_by d (pr_txn p) \<noteq> None \<and>
         (Some (pr_txn p) = st_txn st \<or> st_upperBound st = None \<or> effective_below d (st_upperBound st) p) \<and>
         unsettled d p) (db_postings d)"

definition markSettled :: "settlement \<Rightarrow> db \<Rightarrow> nat \<times> db" where
  "markSettled st d =
     (let rows = marked_rows d st
      in (length rows, d\<lparr>db_settled := db_settled d @ map (\<lambda>p. (pr_id p, st_id st)) rows\<rparr>))"

section \<open>Settling\<close>

text \<open>\<^verbatim>\<open>typeid.Encode("stl", id)\<close> on the sixteen bytes of the id.\<close>

definition bytes_of_uuid :: "uuid \<Rightarrow> uuid_bytes" where
  "bytes_of_uuid u = map (\<lambda>i. of_nat (u div 256 ^ (15 - i))) [0..<16]"

definition settlement_text :: "uuid \<Rightarrow> string" where
  "settlement_text i = encodeID ''stl'' (bytes_of_uuid i)"

definition settlement_input :: "settlement \<Rightarrow> side \<Rightarrow> postInput" where
  "settlement_input st settledSide =
     (let (s, n) = (if st_amount st < 0 then (settledSide, amt_neg (st_amount st))
                    else (opposite settledSide, st_amount st))
      in \<lparr>in_key = settlement_text (st_id st), in_description = st_description st,
          in_metadata = marshal (JObj [(''settlement_id'', JStr (settlement_text (st_id st)))]),
          in_postings = [plain_posting (st_settled st) s n [], plain_posting (st_contra st) (opposite s) n []],
          in_status = NoStatus, in_effectiveAt = None, in_externalID = [],
          in_archiveOnLockFailure = False\<rparr>)"

definition postSettlement ::
  "db \<Rightarrow> gotime \<Rightarrow> (nat \<Rightarrow> uuid) \<Rightarrow> settlement \<Rightarrow> side \<Rightarrow> (transaction \<times> db) res" where
  "postSettlement d now fresh st settledSide =
     bindR (apply_one d now fresh (plain_request (settlement_input st settledSide))) (\<lambda>(r, d').
       case r of Failure e \<Rightarrow> Inl e | Success t _ \<Rightarrow> Inr (t, d'))"

definition insertSettlement :: "gotime \<Rightarrow> settlement \<Rightarrow> db \<Rightarrow> (settlement \<times> db) res" where
  "insertSettlement now st d =
     (if list_ex (\<lambda>x. st_id x = st_id st) (db_settlements d) then
        Inl (ErrConstraint ''ledger_settlements_pkey'')
      else if list_ex (\<lambda>x. st_key x = st_key st) (db_settlements d) then Inl ErrRetry
      else let st = st\<lparr>st_createdAt := now\<rparr>
           in Inr (st, d\<lparr>db_settlements := db_settlements d @ [st]\<rparr>))"

definition new_settlement ::
  "uuid \<Rightarrow> settlementInput \<Rightarrow> accountState \<Rightarrow> int \<Rightarrow> nat \<Rightarrow> settlement" where
  "new_settlement newid i settled amount count =
     \<lparr>st_id = newid, st_key = se_key i, st_ledger = a_ledger settled, st_settled = se_settled i,
      st_contra = se_contra i, st_currency = a_currency settled, st_upperBound = se_upperBound i,
      st_amount = amount, st_entryCount = int count, st_txn = None, st_description = se_description i,
      st_metadata = normalizeMetadata (se_metadata i), st_createdAt = 0\<rparr>"

text \<open>The part of \<^verbatim>\<open>settle\<close> that posts the net, and the part that inserts the settlement and marks its
  entries.\<close>

definition post_net ::
  "db \<Rightarrow> gotime \<Rightarrow> (nat \<Rightarrow> uuid) \<Rightarrow> settlement \<Rightarrow> side \<Rightarrow> (settlement \<times> db) res" where
  "post_net d now fresh st settledSide =
     (if st_amount st \<noteq> 0
      then bindR (postSettlement d now fresh st settledSide) (\<lambda>(t, d).
             Inr (st\<lparr>st_txn := Some (t_id t)\<rparr>, d))
      else Inr (st, d))"

definition insert_and_mark :: "gotime \<Rightarrow> nat \<Rightarrow> settlement \<Rightarrow> db \<Rightarrow> (settlement \<times> db) res" where
  "insert_and_mark now count st d =
     bindR (insertSettlement now st d) (\<lambda>(st, d).
       if fst (markSettled st d) \<noteq> count + (if st_txn st = None then 0 else 1)
       then Inl (ErrInternal ''settlement marked'')
       else Inr (st, snd (markSettled st d)))"

definition settle ::
  "db \<Rightarrow> gotime \<Rightarrow> uuid \<Rightarrow> (nat \<Rightarrow> uuid) \<Rightarrow> settlementInput \<Rightarrow> (settlement \<times> db) res" where
  "settle d now newid fresh i =
     (let accounts = s_accounts (lockAccounts d [se_settled i, se_contra i])
      in case map_of accounts (se_settled i) of
           None \<Rightarrow> Inl ErrNotFound
         | Some settled \<Rightarrow>
             (case map_of accounts (se_contra i) of
                None \<Rightarrow> Inl ErrNotFound
              | Some contra \<Rightarrow>
                  if a_ledger settled \<noteq> a_ledger contra \<or> a_currency settled \<noteq> a_currency contra then
                    Inl ErrInvalid
                  else bindR (sumUnsettled d (se_settled i) (se_upperBound i)) (\<lambda>(ds, cs, count).
                    bindR (account_balance settled ds cs) (\<lambda>b.
                    bindR (post_net d now fresh (new_settlement newid i settled (net b) count)
                             (a_normalSide settled)) (\<lambda>(st, d).
                      insert_and_mark now count st d)))))"

definition createSettlement ::
  "db \<Rightarrow> gotime \<Rightarrow> uuid \<Rightarrow> (nat \<Rightarrow> uuid) \<Rightarrow> settlementInput \<Rightarrow> (settlement \<times> bool \<times> db) res" where
  "createSettlement d now newid fresh i =
     bindR (validateSettlement i) (\<lambda>_.
     let i = i\<lparr>se_upperBound := map_option truncate_us (se_upperBound i)\<rparr>
     in case row_by st_key (db_settlements d) (se_key i) of
          Some st \<Rightarrow> if \<not> settlement_matches st i then Inl ErrIdempotencyConflict else Inr (st, True, d)
        | None \<Rightarrow>
            bindR (settle d now newid fresh i) (\<lambda>(st, d).
              Inr (st, False, emit [SettlementEvent st] d)))"

definition querySettlement :: "db \<Rightarrow> uuid \<Rightarrow> settlement res" where
  "querySettlement d i =
     (case row_by st_id (db_settlements d) i of None \<Rightarrow> Inl ErrNotFound | Some st \<Rightarrow> Inr st)"

record settlementList =
  sl_account :: uuid
  sl_before :: uuid
  sl_limit :: int

definition listSettlements :: "db \<Rightarrow> settlementList \<Rightarrow> settlement list res" where
  "listSettlements d i =
     (if \<not> limit_ok (sl_limit i) then Inl ErrInvalid
      else Inr (page st_id (\<lambda>s. opt_matches (nullUUID (sl_account i)) (st_settled s)) (sl_before i)
        (nat (sl_limit i)) (db_settlements d)))"

end
