(* ===== verification/Settlement_Laws.thy ===== *)
theory Settlement_Laws
  imports Settlements
begin

text \<open>
  The laws of settlements: what the transaction of a settlement posts, that the entries it marks net
  to zero, and that a settlement keeps the invariant of the database. The idempotency key of that
  transaction is the text of the new settlement's id; that no transaction has it yet is the
  uniqueness of the ids that \<^verbatim>\<open>uuid.NewV7\<close> generates.
\<close>

section \<open>Changing the settlements\<close>

lemma settled_only:
  assumes inv: "db_inv d" and s: "settled_inv (d\<lparr>db_settlements := ss, db_settled := es\<rparr>)"
  shows "db_inv (d\<lparr>db_settlements := ss, db_settled := es\<rparr>)"
proof -
  let ?d = "d\<lparr>db_settlements := ss, db_settled := es\<rparr>"
  have same: "account_by ?d = account_by d" "txn_by ?d = txn_by d" "live ?d = live d"
    "row_entries ?d = row_entries d" "posted_sum ?d = posted_sum d" "pending_sum ?d = pending_sum d"
    "held_sum ?d = held_sum d" "ledger_by ?d = ledger_by d"
    by (intro ext, simp add: account_by_def txn_by_def live_def row_entries_def posted_sum_def
        pending_sum_def held_sum_def ledger_by_def)+
  have "books [] ?d" using db_invD(5) [OF inv] same by (simp add: books_def row_books_def)
  then show ?thesis
    using inv s same
    by (simp add: db_inv_def db_inv_but_def accounts_inv_def rows_wf_def journal_inv_def posting_ok_def
        pending_ok_def entry_home_def txn_row_ok_def balanced_def holds_inv_def hold_ok_def)
qed

lemma db_inv_settled:
  assumes "db_inv d"
  shows "settled_inv d" "numbered (db_sequence d) (map pr_id (db_postings d))"
  using assms unfolding db_inv_def db_inv_but_def by blast+

text \<open>Marking rows that net to zero for a settlement with a new id.\<close>

lemma mark_inv:
  assumes inv: "db_inv d" and new: "\<forall>s \<in> set (db_settlements d). st_id s \<noteq> st_id st"
    and rows: "rows = filter q (db_postings d)" and zero: "sum_over (\<lambda>_. True) signed_row rows = 0"
  shows "db_inv (d\<lparr>db_settlements := db_settlements d @ [st],
    db_settled := db_settled d @ map (\<lambda>p. (pr_id p, st_id st)) rows\<rparr>)"
    (is "db_inv ?d")
proof (rule settled_only [OF inv])
  note si = db_inv_settled [OF inv]
  have dist: "distinct (map pr_id (db_postings d))"
    using si(2) by (simp add: numbered_def strict_sorted_iff)
  have old: "settled_net ?d s = settled_net d s" if "s \<noteq> st_id st" for s
    using that by (auto simp: settled_net_def image_iff intro: sum_over_cong)
  have mem: "(pr_id p, st_id st) \<in> set (db_settled ?d) \<longleftrightarrow> q p" if "p \<in> set (db_postings d)" for p
  proof -
    have "(pr_id p, st_id st) \<notin> set (db_settled d)"
      using si(1) new by (fastforce simp: settled_inv_def)
    moreover have "pr_id p \<in> pr_id ` set rows \<longleftrightarrow> q p"
      using that dist by (auto simp: rows distinct_map inj_on_def)
    ultimately show ?thesis by (auto simp: image_iff)
  qed
  have "settled_net ?d (st_id st) =
      sum_over (\<lambda>p. (pr_id p, st_id st) \<in> set (db_settled ?d)) signed_row (db_postings d)"
    by (simp add: settled_net_def)
  also have "\<dots> = sum_over q signed_row (db_postings d)" by (rule sum_over_cong) (simp_all only: mem)
  also have "\<dots> = 0" using zero by (simp add: rows sum_over_filter)
  finally have "settled_net ?d (st_id st) = 0" .
  moreover have "pr_id p < db_sequence d" if "p \<in> set rows" for p
    using si(2) that by (auto simp: numbered_def rows)
  ultimately show "settled_inv ?d"
    using si(1) old new by (auto simp: settled_inv_def)
qed

section \<open>The entries that are marked\<close>

lemma signed_split:
  assumes "\<forall>p \<in> set rows. side_valid (pr_side p)"
  shows "sum_over (\<lambda>_. True) signed_row rows =
    sum_over (\<lambda>p. pr_side p = Debit) pr_amount rows - sum_over (\<lambda>p. pr_side p = Credit) pr_amount rows"
  using assms by (induction rows) (auto simp: signed_row_def)

lemma effective_below_append:
  assumes "db_txns d' = db_txns d @ rs" "txn_by d (pr_txn p) \<noteq> None"
  shows "effective_below d' b p = effective_below d b p" "txn_by d' (pr_txn p) \<noteq> None"
  using assms by (auto simp: effective_below_def txn_by_def row_by_append split: option.splits)

lemma unsettled_marked:
  assumes "st_txn st = None" "db_inv d"
  shows "marked_rows (d\<lparr>db_settlements := ss\<rparr>) st = unsettled_rows d (st_settled st) (st_upperBound st)"
  by (auto simp: marked_rows_def unsettled_rows_def unsettled_def effective_below_def txn_by_def assms(1)
      intro!: filter_cong split: option.splits)

lemma posted_marked:
  assumes inv: "db_inv d" and ap: "appended d (entry_columns t) 1 [] d'"
    and txns: "db_txns d' = db_txns d @ [insert_row now t]" and ids: "distinct (map tr_id (db_txns d'))"
    and ps: "t_postings t = [p, q]" "p_account p = st_settled st" "p_account q \<noteq> st_settled st"
    and st: "st_txn st = Some (t_id t)"
  shows "marked_rows (d'\<lparr>db_settlements := ss\<rparr>) st =
    unsettled_rows d (st_settled st) (st_upperBound st) @ posting_rows (db_sequence d) [(t_id t, p)]"
proof -
  let ?d = "d'\<lparr>db_settlements := ss\<rparr>"
  let ?q = "\<lambda>d p. pr_account p = st_settled st \<and> txn_by d (pr_txn p) \<noteq> None \<and>
    (Some (pr_txn p) = st_txn st \<or> st_upperBound st = None \<or> effective_below d (st_upperBound st) p) \<and> unsettled d p"
  have posts: "db_postings d' = db_postings d @ posting_rows (db_sequence d) [(t_id t, p), (t_id t, q)]"
    and sett: "db_settled d' = db_settled d"
    using ap ps(1) by (simp_all add: appended_def entry_columns_def)
  have txn: "txn_by ?d = txn_by d'" by (simp add: txn_by_def fun_eq_iff)
  have tid: "tr_id (insert_row now t) = t_id t" by (simp add: insert_row_def)
  have new: "t_id t \<notin> tr_id ` set (db_txns d)" using ids txns tid by auto
  have at: "txn_by d' (t_id t) \<noteq> None"
    by (auto simp: txn_by_def txns row_by_append tid split: option.splits)
  have "?q ?d x \<longleftrightarrow> pr_account x = st_settled st \<and> effective_below d (st_upperBound st) x \<and> unsettled d x"
    if x: "x \<in> set (db_postings d)" for x
  proof -
    obtain r where r: "txn_by d (pr_txn x) = Some r"
      using db_invD(3) [OF inv] x unfolding journal_inv_def posting_ok_def by blast
    then have "pr_txn x \<noteq> t_id t" using new txn_by_SomeD by (metis image_eqI)
    moreover have "effective_below ?d b x = effective_below d b x" for b
      using effective_below_append(1) [OF txns, of x b] r txn by (simp add: effective_below_def)
    moreover have "txn_by ?d (pr_txn x) \<noteq> None" using effective_below_append(2) [OF txns, of x] r txn by simp
    ultimately show ?thesis
      using r st sett by (auto simp: effective_below_def unsettled_def split: option.splits)
  qed
  then have 1: "filter (?q ?d) (db_postings d) = unsettled_rows d (st_settled st) (st_upperBound st)"
    unfolding unsettled_rows_def by (intro filter_cong) auto
  have "db_sequence d \<notin> fst ` set (db_settled d)"
    using db_inv_settled(1) [OF inv] by (fastforce simp: settled_inv_def)
  then have 2: "filter (?q ?d) (posting_rows (db_sequence d) [(t_id t, p), (t_id t, q)]) =
      posting_rows (db_sequence d) [(t_id t, p)]"
    using ps at st sett txn by (simp add: unsettled_def)
  have "db_postings ?d = db_postings d @ posting_rows (db_sequence d) [(t_id t, p), (t_id t, q)]"
    using posts by simp
  then show ?thesis unfolding marked_rows_def by (simp only: filter_append 1 2)
qed

section \<open>Settling\<close>

definition key_fresh :: "db \<Rightarrow> string \<Rightarrow> bool" where
  "key_fresh d k \<longleftrightarrow> (\<forall>r \<in> set (db_txns d). tr_key r \<noteq> k)"

lemma fresh_not_replayed:
  assumes ap: "apply_one d now fresh req = Inr (Success t r, d')" and key: "key_fresh d (in_key (rq_in req))"
  shows "\<not> r"
proof -
  let ?ex = "selectByKey d [in_key (rq_in req)]"
  obtain e x where rr: "resolveRequest ?ex now (fresh 0) (startEngine d [req]) 0 req = (e, x)" by fastforce
  have "e_results e = []"
    using rr by (cases rule: resolveRequest_cases) (simp_all add: startEngine_def)
  then have x: "x = Success t r"
    using apply_one_Applied [OF ap] rr by (auto simp: applyRequests_def Let_def split: if_splits sum.splits)
  have "filter (\<lambda>r. tr_key r = in_key (rq_in req) \<and> row_entries d r \<noteq> []) (db_txns d) = []"
    using key by (auto simp: key_fresh_def filter_empty_conv)
  then have "?ex = []" by (simp add: selectByKey_def selectTransactions_def)
  then have "resolve_new req (truncated (rq_in req))
      (startEngine d [req]\<lparr>e_firstByKey := AList.update (in_key (rq_in req)) 0 []\<rparr>) now (fresh 0) = (e, x)"
    using rr by (simp add: resolveRequest_def startEngine_def Let_def)
  then show ?thesis
    using x by (auto simp: resolve_new_def Let_def split: list.splits if_splits sum.splits prod.splits)
qed

lemma settlement_request_ok:
  assumes "st_amount st \<noteq> 0" "in_range (st_amount st)" "side_valid s"
  shows "request_ok (plain_request (settlement_input st s))"
  using assms
  by (auto simp: request_ok_def plain_request_def settlement_input_def releases_ok_def input_status_def
      entries_ok_def entry_ok_def plain_posting_def amt_neg_def in_range_def minAmount_def opposite.simps)

lemma postSettlement_posts:
  assumes ps: "postSettlement d now fresh st s = Inr (t, d')" and inv: "db_inv d"
    and amount: "st_amount st \<noteq> 0" "in_range (st_amount st)" and s: "side_valid s"
    and key: "key_fresh d (settlement_text (st_id st))"
  obtains p q where "t_postings t = [p, q]" "p_account p = st_settled st" "p_account q = st_contra st"
    "db_inv d'" "db_txns d' = db_txns d @ [insert_row now t]" "appended d (entry_columns t) 1 [] d'"
    "distinct (map tr_id (db_txns d'))"
    "(if p_side p = Debit then p_amount p else - p_amount p) =
      (if s = Credit then st_amount st else - st_amount st)"
proof -
  let ?req = "plain_request (settlement_input st s)"
  have ok: "request_ok ?req" by (rule settlement_request_ok [OF amount s])
  have key': "key_fresh d (in_key (rq_in ?req))"
    using key by (simp add: plain_request_def settlement_input_def split: prod.splits)
  obtain x d1 where x: "apply_one d now fresh ?req = Inr (x, d1)"
    using ps by (auto simp: postSettlement_def)
  then obtain r where r: "apply_one d now fresh ?req = Inr (Success t r, d')"
    using ps by (cases x) (auto simp: postSettlement_def)
  then have ap: "apply_one d now fresh ?req = Inr (Success t False, d')"
    using fresh_not_replayed [OF r key'] by simp
  have na: "\<not> in_archiveOnLockFailure (rq_in ?req)" "input_status (rq_in ?req) = Posted"
    by (auto simp: plain_request_def settlement_input_def input_status_def split: prod.splits)
  note f = apply_one_posts [OF ap inv ok na]
  obtain p q where pq: "t_postings t = [p, q]"
    using f(5) by (auto simp: plain_request_def settlement_input_def split: prod.splits)
  have "rq_releases ?req = []" by (simp add: plain_request_def)
  then have inv': "db_inv d'" using apply_one_keeps [OF ap inv ok] by simp
  have "p_account p = st_settled st" "p_account q = st_contra st"
    "(if p_side p = Debit then p_amount p else - p_amount p) =
      (if s = Credit then st_amount st else - st_amount st)"
    using f(5) pq s amount
    by (auto simp: plain_request_def settlement_input_def plain_posting_def amt_neg_def opposite.simps
        in_range_def minAmount_def split: if_splits)
  then show ?thesis by (intro that) (use pq inv' f in auto)
qed

text \<open>What is marked nets to zero: nothing is posted, or the transaction that takes the net out.\<close>

lemma post_net_marks:
  assumes pn: "post_net d now fresh st s = Inr (st', d')" and inv: "db_inv d"
    and amount: "in_range (st_amount st)" and s: "side_valid s" and txn: "st_txn st = None"
    and key: "key_fresh d (settlement_text (st_id st))" and ne: "st_settled st \<noteq> st_contra st"
    and total: "sum_over (\<lambda>_. True) signed_row (unsettled_rows d (st_settled st) (st_upperBound st)) =
      (if s = Credit then - st_amount st else st_amount st)"
  shows "db_inv d'" "st_id st' = st_id st"
    "sum_over (\<lambda>_. True) signed_row (marked_rows (d'\<lparr>db_settlements := ss\<rparr>) (st'\<lparr>st_createdAt := now\<rparr>)) = 0"
proof -
  have "db_inv d' \<and> st_id st' = st_id st \<and>
    sum_over (\<lambda>_. True) signed_row (marked_rows (d'\<lparr>db_settlements := ss\<rparr>) (st'\<lparr>st_createdAt := now\<rparr>)) = 0"
  proof (cases "st_amount st = 0")
    case True
    then have "st' = st" "d' = d" using pn by (simp_all add: post_net_def)
    then show ?thesis
      using unsettled_marked [of "st\<lparr>st_createdAt := now\<rparr>" d ss] inv txn total True by simp
  next
    case False
    obtain t where t: "postSettlement d now fresh st s = Inr (t, d')" "st' = st\<lparr>st_txn := Some (t_id t)\<rparr>"
      using pn False by (auto simp: post_net_def)
    obtain p q where pq: "t_postings t = [p, q]" "p_account p = st_settled st" "p_account q = st_contra st"
      "db_inv d'" "db_txns d' = db_txns d @ [insert_row now t]" "appended d (entry_columns t) 1 [] d'"
      "distinct (map tr_id (db_txns d'))"
      "(if p_side p = Debit then p_amount p else - p_amount p) =
        (if s = Credit then st_amount st else - st_amount st)"
      by (rule postSettlement_posts [OF t(1) inv False amount s key])
    have "marked_rows (d'\<lparr>db_settlements := ss\<rparr>) (st'\<lparr>st_createdAt := now\<rparr>) =
        unsettled_rows d (st_settled st) (st_upperBound st) @ posting_rows (db_sequence d) [(t_id t, p)]"
      using posted_marked [OF inv pq(6,5,7,1), of "st'\<lparr>st_createdAt := now\<rparr>" ss] pq(2,3) ne t(2) by simp
    then show ?thesis
      using pq(4,8) total t(2) by (auto simp: signed_row_def split: if_splits)
  qed
  then show "db_inv d'" "st_id st' = st_id st"
    "sum_over (\<lambda>_. True) signed_row (marked_rows (d'\<lparr>db_settlements := ss\<rparr>) (st'\<lparr>st_createdAt := now\<rparr>)) = 0"
    by blast+
qed

lemma insert_and_mark_inv:
  assumes im: "insert_and_mark now n st d = Inr (st', d')" and inv: "db_inv d"
    and zero: "\<And>ss. sum_over (\<lambda>_. True) signed_row
      (marked_rows (d\<lparr>db_settlements := ss\<rparr>) (st\<lparr>st_createdAt := now\<rparr>)) = 0"
  shows "db_inv d'"
proof -
  let ?st = "st\<lparr>st_createdAt := now\<rparr>" and ?ss = "db_settlements d @ [st\<lparr>st_createdAt := now\<rparr>]"
  have new: "\<forall>s \<in> set (db_settlements d). st_id s \<noteq> st_id ?st"
    and d': "d' = snd (markSettled ?st (d\<lparr>db_settlements := ?ss\<rparr>))"
    using im by (auto simp: insert_and_mark_def insertSettlement_def Let_def list_ex_iff split: if_splits)
  let ?rows = "marked_rows (d\<lparr>db_settlements := ?ss\<rparr>) ?st"
  obtain q where "?rows = filter q (db_postings d)" by (simp add: marked_rows_def)
  from mark_inv [OF inv new this zero] show ?thesis
    by (simp add: d' markSettled_def Let_def)
qed

lemma sumUnsettled_Inr:
  assumes "sumUnsettled d i bound = Inr (ds, cs, n)" "db_inv d"
  shows "sum_over (\<lambda>_. True) signed_row (unsettled_rows d i bound) = ds - cs"
    "0 \<le> ds" "0 \<le> cs" "in_range ds" "in_range cs" "n = length (unsettled_rows d i bound)"
proof -
  let ?rows = "unsettled_rows d i bound"
  have ok: "side_valid (pr_side p) \<and> 0 < pr_amount p" if "p \<in> set ?rows" for p
    using db_invD(3) [OF assms(2)] that by (auto simp: unsettled_rows_def journal_inv_def posting_ok_def)
  show "sum_over (\<lambda>_. True) signed_row ?rows = ds - cs"
    using assms(1) signed_split [of ?rows] ok
    by (auto simp: sumUnsettled_def Let_def scan_sum_def split: if_splits)
  have "0 \<le> sum_over (\<lambda>p. pr_side p = sd) pr_amount ?rows" for sd
    by (rule sum_over_nonneg) (use ok in force)
  then show "0 \<le> ds" "0 \<le> cs" "in_range ds" "in_range cs" "n = length ?rows"
    using assms(1) by (auto simp: sumUnsettled_def Let_def scan_sum_def split: if_splits)
qed

lemma settle_inv:
  assumes st: "settle d now newid fresh i = Inr (st, d')" and inv: "db_inv d"
    and val: "se_settled i \<noteq> se_contra i" and key: "key_fresh d (settlement_text newid)"
  shows "db_inv d'"
proof -
  let ?al = "s_accounts (lockAccounts d [se_settled i, se_contra i])"
  obtain settled ds cs n b st1 d1 where a: "map_of ?al (se_settled i) = Some settled"
    and sums: "sumUnsettled d (se_settled i) (se_upperBound i) = Inr (ds, cs, n)"
    and b: "account_balance settled ds cs = Inr b"
    and post: "post_net d now fresh (new_settlement newid i settled (net b) n) (a_normalSide settled) = Inr (st1, d1)"
    and ins: "insert_and_mark now n st1 d1 = Inr (st, d')"
    using st by (auto simp: settle_def Let_def split: option.splits if_splits)
  note u = sumUnsettled_Inr [OF sums inv]
  obtain r where r: "account_by d (se_settled i) = Some r" "settled = locked_state d r"
    using a lockAccounts_accounts(1) [OF db_invD(2) [OF inv]] by (auto split: if_splits)
  have "row_inv r" using db_invD(1) [OF inv] account_by_SomeD [OF r(1)] by (auto simp: accounts_inv_def)
  then have side: "side_valid (a_normalSide settled)"
    using r(2) by (auto simp: row_inv_def account_inv_def locked_state_def row_state_def)
  have netb: "net b = (if a_normalSide settled = Credit then cs - ds else ds - cs)"
    using b u amt_sub_exact by (auto simp: account_balance_def split: if_splits)
  then have "in_range (net b)" using u by (auto simp: in_range_def)
  then show ?thesis
    using post_net_marks [OF post inv _ side] insert_and_mark_inv [OF ins] key val u(1) netb
    by (simp add: new_settlement_def)
qed

lemma createSettlement_inv:
  assumes "createSettlement d now newid fresh i = Inr (st, replayed, d')" "db_inv d"
    and "key_fresh d (settlement_text newid)"
  shows "db_inv d'"
proof (cases "d' = d")
  case False
  obtain d1 i' where "settle d now newid fresh i' = Inr (st, d1)" "se_settled i' \<noteq> se_contra i'"
    "d' = emit [SettlementEvent st] d1"
    using assms(1) False
    by (auto simp: createSettlement_def validateSettlement_def Let_def split: option.splits if_splits)
  then show ?thesis using settle_inv assms(2,3) by (simp add: db_inv_def db_inv_emit)
qed (use assms in simp)

end
