(* ===== verification/Frame.thy ===== *)
theory Frame
  imports Settlement_Laws Holds_Laws "HOL-Library.Sublist"
begin

text \<open>
  What the operations on transactions, holds and settlements leave alone. Every operation is made of a
  few SQL statements; a relation between two databases that holds across each statement holds across
  each operation, which the locale \<open>statements\<close> proves once. Two relations are instances: \<open>frame\<close>, that the ledgers
  and currencies, the identity of every account, the monitors, the schedules, the categories and the
  statements stay; and \<open>appends_journal\<close>, that postings and events are only appended and that a transaction
  that is not pending never changes. \<open>keeps_journal\<close> leaves the events out, which retention deletes.
\<close>

section \<open>Operations as sequences of statements\<close>

lemma hold_key_error_Inr [simp]: "hold_key_error r = Inr d \<longleftrightarrow> r = Inr d"
  by (auto simp: hold_key_error_def)

locale statements =
  fixes R :: "db \<Rightarrow> db \<Rightarrow> bool"
  assumes stay_refl: "R d d"
    and stay_trans: "R d d' \<Longrightarrow> R d' d'' \<Longrightarrow> R d d''"
    and emitted: "R d (emit evs d)"
    and accounts_written: "writeAccounts s d = Inr d' \<Longrightarrow> R d d'"
    and entries_inserted: "insertEntries now ts d = Inr d' \<Longrightarrow> R d d'"
    and txn_changed: "updateTransactionRow now t d = Inr d1 \<Longrightarrow> insert_changed t d1 = Inr d' \<Longrightarrow> R d d'"
    and holds_written: "R d (d\<lparr>db_holds := hs\<rparr>)"
    and settlements_written: "R d (d\<lparr>db_settlements := sts\<rparr>)"
    and settled_written: "R d (d\<lparr>db_settled := ses\<rparr>)"
begin

declare stay_refl [simp]

lemma insertHold_stays: "insertHold h d = Inr d' \<Longrightarrow> R d d'"
  by (auto simp: insertHold_def split: if_splits intro: holds_written)

lemma resolveHold_stays: "resolveHold now i st c t d = Inr (h, d') \<Longrightarrow> R d d'"
  by (auto simp: resolveHold_def split: option.splits if_splits intro: holds_written)

lemma writeBatch_stays:
  assumes "writeBatch now ts s d = Inr d'"
  shows "R d d'"
proof -
  obtain d1 evs where "insertEntries now ts d = Inr d1" "writeAccounts s (emit evs d1) = Inr d'"
    using assms by (auto simp: writeBatch_def)
  then show ?thesis using entries_inserted emitted accounts_written stay_trans by metis
qed

lemma applyRequests_stays: "applyRequests d now fresh reqs atomic = Applied rs d' \<Longrightarrow> R d d'"
  by (auto simp: applyRequests_def Let_def split: prod.splits if_splits sum.splits simp add: stay_refl intro: writeBatch_stays)

lemma runRequests_stays: "runRequests d now fresh reqs atomic = Inr (rs, d') \<Longrightarrow> R d d'"
  by (auto simp: runRequests_def split: applied.splits intro: applyRequests_stays)

lemma apply_one_stays: "apply_one d now fresh req = Inr (r, d') \<Longrightarrow> R d d'"
  by (auto simp: apply_one_def split: applied.splits list.splits intro: applyRequests_stays)

lemma postBatch_stays: "postBatch d now fresh ins atomic = Inr (rs, d') \<Longrightarrow> R d d'"
  by (auto simp: postBatch_def Let_def split: if_splits intro: runRequests_stays)

lemma reverse_stays:
  assumes "reverse d now fresh i inp = Inr (t, replayed, d')"
  shows "R d d'"
proof -
  obtain orig where lk: "lockTransaction d i = Inr orig" using assms by (auto simp: reverse_def)
  show ?thesis
  proof (cases "selectReversal d i")
    case (Inr prior)
    then show ?thesis using assms lk by (auto simp: reverse_def Let_def split: if_splits)
  next
    case (Inl e)
    obtain r d1 where ap: "apply_one d now fresh (reversalRequest orig inp) = Inr (r, d1)"
      using assms lk Inl by (auto simp: reverse_def Let_def)
    have "d' = d1" using assms lk Inl ap by (cases r) (auto simp: reverse_def Let_def)
    then show ?thesis using apply_one_stays [OF ap] by simp
  qed
qed

lemma change_balances_stays: "change_balances d nxt c = Inr (t, d') \<Longrightarrow> R d d'"
  by (auto simp: change_balances_def split: if_splits intro: accounts_written)

lemma changePending_stays:
  assumes "changePending d now i edit already = Inr (t, d')"
  shows "R d d'"
proof (cases "d' = d")
  case False
  obtain cur where lk: "lockTransaction d i = Inr cur" using assms by (auto simp: changePending_def)
  have pend: "t_status cur = Pending"
    using assms lk False by (auto simp: changePending_def split: option.splits if_splits)
  obtain nxt c where e: "edit cur = Inr (nxt, c)" using assms lk pend by (auto simp: changePending_def)
  obtain c' where c: "c = Some c'"
    using assms lk pend e False by (cases c) (auto simp: changePending_def)
  obtain n1 d1 d2 d3 evs where "change_balances d (nxt\<lparr>t_version := t_version cur + 1\<rparr>) c' = Inr (n1, d1)"
    "updateTransactionRow now n1 d1 = Inr d2" "insert_changed n1 d2 = Inr d3" "d' = emit evs d3"
    using assms lk pend e c by (auto simp: changePending_def Let_def)
  then show ?thesis
    using change_balances_stays txn_changed emitted stay_trans by metis
qed (simp add: stay_refl)

lemma updateTransaction_stays: "updateTransaction d now i u = Inr (t, d') \<Longrightarrow> R d d'"
  by (auto simp: updateTransaction_def intro: changePending_stays)

lemma postPending_stays: "postPending d now i ps = Inr (t, d') \<Longrightarrow> R d d'"
  by (auto simp: postPending_def intro: changePending_stays)

lemma archiveTransaction_stays: "archiveTransaction d now i = Inr (t, d') \<Longrightarrow> R d d'"
  by (auto simp: archiveTransaction_def intro: changePending_stays)

lemma createHold_stays:
  assumes "createHold d now newid inp = Inr (h, replayed, d')"
  shows "R d d'"
proof (cases "d' = d")
  case False
  then obtain h1 s d1 d2 evs where "insertHold h1 d = Inr d1" "writeAccounts s d1 = Inr d2" "d' = emit evs d2"
    using assms by (auto simp: createHold_def Let_def split: option.splits if_splits)
  then show ?thesis using insertHold_stays accounts_written emitted stay_trans by metis
qed (simp add: stay_refl)

lemma captureHold_stays:
  assumes "captureHold d now clock fresh i c = Inr (h, replayed, d')"
  shows "R d d'"
proof (cases "d' = d")
  case False
  then obtain req r d1 where ap: "apply_one d now fresh req = Inr (r, d1)"
    and rest: "(case r of Failure e \<Rightarrow> Inl e
       | Success t replayed \<Rightarrow> if replayed then Inl ErrIdempotencyConflict
         else bindR (resolveHold now i HoldCaptured (Some (ca_amount c)) (Some (t_id t)) d1) (\<lambda>(h, d).
                Inr (h, False, emit [HoldEvent ''hold.captured'' h] d))) = Inr (h, replayed, d')"
    using assms
    by (auto simp: captureHold_def Let_def split: option.splits if_splits)
  obtain h1 d2 evs n t where "resolveHold now i HoldCaptured n t d1 = Inr (h1, d2)" "d' = emit evs d2"
    using rest by (cases r) (auto split: if_splits)
  then show ?thesis using apply_one_stays [OF ap] resolveHold_stays emitted stay_trans by metis
qed (simp add: stay_refl)

lemma voidHold_stays:
  assumes "voidHold d now i = Inr (h, replayed, d')"
  shows "R d d'"
proof (cases "d' = d")
  case False
  then obtain s d1 h1 d2 evs where "writeAccounts s d = Inr d1" "resolveHold now i HoldVoided None None d1 = Inr (h1, d2)"
    "d' = emit evs d2"
    using assms by (auto simp: voidHold_def split: option.splits if_splits)
  then show ?thesis using accounts_written resolveHold_stays emitted stay_trans by metis
qed (simp add: stay_refl)

lemma expireHolds_stays:
  assumes "expireHolds d now skip limit = Inr (n, d')"
  shows "R d d'"
proof (cases "d' = d")
  case False
  then obtain s d1 hs evs where "writeAccounts s d = Inr d1" "d' = emit evs (d1\<lparr>db_holds := hs\<rparr>)"
    using assms by (auto simp: expireHolds_def Let_def split: if_splits)
  then show ?thesis using accounts_written holds_written emitted stay_trans by metis
qed (simp add: stay_refl)

lemma postSettlement_stays:
  assumes "postSettlement d now fresh st s = Inr (t, d')"
  shows "R d d'"
proof -
  obtain r d1 where ap: "apply_one d now fresh (plain_request (settlement_input st s)) = Inr (r, d1)"
    using assms by (auto simp: postSettlement_def)
  then have "d' = d1" using assms by (cases r) (auto simp: postSettlement_def)
  then show ?thesis using apply_one_stays [OF ap] by simp
qed

lemma createSettlement_stays:
  assumes "createSettlement d now newid fresh i = Inr (st, replayed, d')"
  shows "R d d'"
proof (cases "d' = d")
  case False
  then obtain i' d1 evs where st: "settle d now newid fresh i' = Inr (st, d1)" and d': "d' = emit evs d1"
    using assms by (auto simp: createSettlement_def Let_def split: option.splits if_splits)
  obtain st0 s st1 d2 n where pn: "post_net d now fresh st0 s = Inr (st1, d2)"
    and im: "insert_and_mark now n st1 d2 = Inr (st, d1)"
    using st by (auto simp: settle_def Let_def split: option.splits if_splits)
  have "R d d2"
    using pn by (auto simp: post_net_def split: if_splits intro: postSettlement_stays)
  moreover have "R d2 d1"
    using im by (auto simp: insert_and_mark_def insertSettlement_def markSettled_def Let_def
        split: if_splits intro: stay_trans [OF settlements_written settled_written])
  ultimately show ?thesis unfolding d' using emitted stay_trans by metis
qed (simp add: stay_refl)

end

section \<open>The tables that stay\<close>

definition account_key :: "account_row \<Rightarrow> uuid \<times> uuid \<times> string \<times> string \<times> side" where
  "account_key r = (ac_id r, ac_ledger r, ac_code r, ac_currency r, ac_normalSide r)"

definition tables :: "db \<Rightarrow> ledger list \<times> currency list \<times> monitor list \<times> schedule list \<times> category list \<times>
    (uuid \<times> uuid) list \<times> (uuid \<times> uuid) list \<times> statement_row list" where
  "tables d = (db_ledgers d, db_currencies d, db_monitors d, db_schedules d, db_categories d,
     db_members d, db_edges d, db_statements d)"

definition frame :: "db \<Rightarrow> db \<Rightarrow> bool" where
  "frame d d' \<longleftrightarrow> tables d' = tables d \<and> map account_key (db_accounts d') = map account_key (db_accounts d)"

lemma frame_refl [simp]: "frame d d"
  by (simp add: frame_def)

lemma frame_trans [trans]: "frame d d' \<Longrightarrow> frame d' d'' \<Longrightarrow> frame d d''"
  by (simp add: frame_def)

lemma frameI:
  "tables d' = tables d \<Longrightarrow> db_accounts d' = db_accounts d \<Longrightarrow> frame d d'"
  by (simp add: frame_def)

lemma write_rows_key:
  "write_rows as rows = Inr rows' \<Longrightarrow> map account_key rows' = map account_key rows"
proof (induction "as" arbitrary: rows)
  case (Cons a as)
  obtain r where r: "row_by ac_id rows (a_id a) = Some r"
    and rest: "write_rows as (update_rows (\<lambda>x. ac_id x = a_id a) (write_row a) rows) = Inr rows'"
    using Cons.prems by (auto split: option.splits if_splits)
  have "map account_key (update_rows (\<lambda>x. ac_id x = a_id a) (write_row a) rows) = map account_key rows"
    by (rule map_key_update_rows) (simp add: account_key_def write_row_def)
  then show ?case using Cons.IH [OF rest] by simp
qed simp

lemma writeAccounts_frame: "writeAccounts s d = Inr d' \<Longrightarrow> frame d d'"
  by (auto simp: writeAccounts_def frame_def tables_def write_rows_key simp del: write_rows.simps
      split: list.splits)

lemma insertEntries_frame: "insertEntries now ts d = Inr d' \<Longrightarrow> frame d d'"
  by (subst insertEntries_Inr(1)) (auto simp: tables_def intro: frameI)

lemma txn_changed_frame:
  assumes "updateTransactionRow now t d = Inr d1" "insert_changed t d1 = Inr d'"
  shows "frame d d'"
proof -
  have "frame d d1"
    using assms(1) by (auto simp: updateTransactionRow_def Let_def tables_def split: option.splits if_splits intro: frameI)
  moreover have "frame d1 d'"
    using assms(2) by (auto simp: insert_changed_def insertPostings_def insertPendingEntries_def tables_def
        split: if_splits intro: frameI)
  ultimately show ?thesis by (rule frame_trans)
qed

interpretation fr: statements frame
  by unfold_locales (auto simp: emit_def tables_def writeAccounts_frame insertEntries_frame
    intro: frameI frame_trans txn_changed_frame)

section \<open>The journal that only grows\<close>

definition same_txn :: "db \<Rightarrow> db \<Rightarrow> uuid \<Rightarrow> txn_row \<Rightarrow> bool" where
  "same_txn d d' i r \<longleftrightarrow>
     (\<exists>r'. txn_by d' i = Some r' \<and> tr_key r' = tr_key r \<and> tr_request r' = tr_request r \<and>
        (tr_status r \<noteq> Pending \<longrightarrow> r' = r \<and> row_entries d' r = row_entries d r))"

definition keeps_journal :: "db \<Rightarrow> db \<Rightarrow> bool" where
  "keeps_journal d d' \<longleftrightarrow>
     prefix (db_postings d) (db_postings d') \<and> prefix (db_pending d) (db_pending d') \<and>
     (\<forall>i r. txn_by d i = Some r \<longrightarrow> same_txn d d' i r)"

text \<open>The operations append to the events as well; only their retention removes any.\<close>

definition appends_journal :: "db \<Rightarrow> db \<Rightarrow> bool" where
  "appends_journal d d' \<longleftrightarrow> keeps_journal d d' \<and> prefix (db_events d) (db_events d')"

lemma appends_keeps: "appends_journal d d' \<Longrightarrow> keeps_journal d d'"
  by (simp add: appends_journal_def)

lemma keeps_journal_refl [simp]: "keeps_journal d d"
  by (simp add: keeps_journal_def same_txn_def)

lemma appends_journal_refl [simp]: "appends_journal d d"
  by (simp add: appends_journal_def)

lemma same_txn_trans:
  assumes "same_txn d d' i r" "\<And>r'. txn_by d' i = Some r' \<Longrightarrow> same_txn d' d'' i r'"
  shows "same_txn d d'' i r"
proof -
  obtain r' where r': "txn_by d' i = Some r'" "tr_key r' = tr_key r" "tr_request r' = tr_request r"
    "tr_status r \<noteq> Pending \<longrightarrow> r' = r \<and> row_entries d' r = row_entries d r"
    using assms(1) by (auto simp: same_txn_def)
  then show ?thesis using assms(2) [OF r'(1)] by (auto simp: same_txn_def)
qed

lemma keeps_journal_trans [trans]:
  assumes a: "keeps_journal d d'" and b: "keeps_journal d' d''"
  shows "keeps_journal d d''"
proof -
  have "same_txn d d'' i r" if "txn_by d i = Some r" for i r
    using a b that by (intro same_txn_trans [of d d' i r d'']) (simp_all add: keeps_journal_def)
  moreover have "prefix (db_postings d) (db_postings d'')" "prefix (db_pending d) (db_pending d'')"
    using a b by (auto simp: keeps_journal_def intro: prefix_order.trans)
  ultimately show ?thesis by (simp add: keeps_journal_def)
qed

lemma appends_journal_trans [trans]:
  "appends_journal d d' \<Longrightarrow> appends_journal d' d'' \<Longrightarrow> appends_journal d d''"
  using keeps_journal_trans by (auto simp: appends_journal_def intro: prefix_order.trans)

lemma appends_journal_same:
  "db_postings d' = db_postings d \<Longrightarrow> db_pending d' = db_pending d \<Longrightarrow> db_events d' = db_events d \<Longrightarrow>
    db_txns d' = db_txns d \<Longrightarrow> appends_journal d d'"
  by (simp add: appends_journal_def keeps_journal_def same_txn_def txn_by_def row_entries_def)

lemma emit_journal: "appends_journal d (d\<lparr>db_accounts := as, db_events := db_events d @ evs\<rparr>)"
  "appends_journal d (d\<lparr>db_events := db_events d @ evs\<rparr>)"
  by (simp_all add: appends_journal_def keeps_journal_def same_txn_def txn_by_def row_entries_def)

lemma writeAccounts_journal: "writeAccounts s d = Inr d' \<Longrightarrow> appends_journal d d'"
  by (auto simp: writeAccounts_def simp del: write_rows.simps split: list.splits intro: emit_journal)

text \<open>New entries are those of the transactions in the statement.\<close>

lemma rows_of_columns:
  "i \<notin> fst ` set cols \<Longrightarrow> filter (\<lambda>p. pr_txn p = i) (posting_rows n cols) = []"
  "i \<notin> fst ` set cols \<Longrightarrow> filter (\<lambda>p. pe_txn p = i \<and> pe_version p = v) (pending_rows n w cols) = []"
  by (induction n cols rule: posting_rows.induct) auto

lemma columns_txns: "fst ` set (posted_columns ts) \<subseteq> t_id ` set ts" "fst ` set (pending_columns ts) \<subseteq> t_id ` set ts"
  by (auto simp: posted_columns_def pending_columns_def entry_columns_def)

lemma insert_txn_rows_new: "insert_txn_rows rs d = Inr d' \<Longrightarrow> r \<in> set rs \<Longrightarrow> txn_by d (tr_id r) = None"
proof (induction rs arbitrary: d)
  case (Cons x rs)
  have x: "txn_row_check d x = ok" "insert_txn_rows rs (d\<lparr>db_txns := db_txns d @ [x]\<rparr>) = Inr d'"
    using Cons.prems(1) by auto
  then have "txn_by d (tr_id x) = None"
    by (auto simp: txn_row_check_def txn_by_def row_by_None_iff list_ex_iff split: if_splits)
  moreover have "txn_by (d\<lparr>db_txns := db_txns d @ [x]\<rparr>) (tr_id r) = None \<Longrightarrow> txn_by d (tr_id r) = None"
    by (auto simp: txn_by_def row_by_append split: option.splits)
  ultimately show ?case using Cons.IH [OF x(2)] Cons.prems(2) by auto
qed simp

lemma insertEntries_journal:
  assumes "insertEntries now ts d = Inr d'"
  shows "appends_journal d d'"
proof -
  obtain d1 where "insert_txn_rows (map (insert_row now) ts) d = Inr d1"
    using assms by (auto simp: insertEntries_def Let_def)
  then have new: "txn_by d (t_id t) = None" if "t \<in> set ts" for t
    using insert_txn_rows_new [of _ _ _ "insert_row now t"] that by (simp add: insert_row_def)
  note i = insertEntries_Inr(1) [OF assms]
  have "same_txn d d' j r" if r: "txn_by d j = Some r" for j r
  proof -
    have j: "tr_id r = j" "j \<notin> t_id ` set ts" using new r by (auto dest: txn_by_SomeD)
    then have "j \<notin> fst ` set (posted_columns ts)" "j \<notin> fst ` set (pending_columns ts)" using columns_txns by blast+
    then show ?thesis using r j(1) by (simp add: same_txn_def i row_entries_def rows_of_columns txn_by_def row_by_append)
  qed
  then show ?thesis by (simp add: appends_journal_def keeps_journal_def i)
qed

lemma updateTransactionRow_other:
  assumes "updateTransactionRow now t d = Inr d1" "txn_by d j = Some r"
  shows "\<exists>r'. txn_by d1 j = Some r' \<and> tr_key r' = tr_key r \<and> tr_request r' = tr_request r \<and>
    (tr_status r \<noteq> Pending \<longrightarrow> j \<noteq> t_id t \<and> r' = r)"
proof (cases "txn_by d (t_id t)")
  case None
  then show ?thesis using assms by (auto simp: updateTransactionRow_def)
next
  case (Some x)
  have "tr_id x = t_id t" using Some by (auto dest: txn_by_SomeD)
  then have u: "tr_id (update_row now t x) = t_id t" by (simp add: update_row_def)
  have row: "row_by tr_id (update_rows (\<lambda>y. tr_id y = t_id t) (\<lambda>_. update_row now t x) rs) j =
      (if j = t_id t \<and> row_by tr_id rs j \<noteq> None then Some (update_row now t x) else row_by tr_id rs j)" for rs j
    by (induction rs) (auto simp: update_rows_def u)
  have "tr_status x = Pending" "db_txns d1 = update_rows (\<lambda>y. tr_id y = t_id t) (\<lambda>_. update_row now t x) (db_txns d)"
    using assms(1) Some by (auto simp: updateTransactionRow_def Let_def split: if_splits)
  then show ?thesis using assms(2) Some row by (auto simp: txn_by_def update_row_def)
qed

lemma txn_changed_journal:
  assumes up: "updateTransactionRow now t d = Inr d1" and ins: "insert_changed t d1 = Inr d'"
  shows "appends_journal d d'"
proof -
  have d1: "db_postings d1 = db_postings d" "db_pending d1 = db_pending d" "db_events d1 = db_events d"
    using up by (auto simp: updateTransactionRow_def Let_def split: option.splits if_splits)
  have cols: "j \<notin> fst ` set (entry_columns t)" if "j \<noteq> t_id t" for j using that by (auto simp: entry_columns_def)
  have d': "prefix (db_postings d1) (db_postings d') \<and> prefix (db_pending d1) (db_pending d') \<and>
      db_events d' = db_events d1 \<and> db_txns d' = db_txns d1"
    using ins by (auto simp: insert_changed_def insertPostings_def insertPendingEntries_def split: if_splits)
  have rows: "row_entries d' r = row_entries d r" if "tr_id r \<noteq> t_id t" for r
    using ins d1 rows_of_columns [OF cols [OF that]]
    by (auto simp: insert_changed_def insertPostings_def insertPendingEntries_def row_entries_def split: if_splits)
  have "same_txn d d' j r" if r: "txn_by d j = Some r" for j r
    using updateTransactionRow_other [OF up r] rows [of r] txn_by_SomeD [OF r] d' by (auto simp: same_txn_def txn_by_def)
  then show ?thesis using d1 d' by (simp add: appends_journal_def keeps_journal_def)
qed

interpretation journal: statements appends_journal
  by unfold_locales (auto simp: appends_journal_same emit_def
    intro: emit_journal writeAccounts_journal appends_journal_trans insertEntries_journal txn_changed_journal)

lemma keeps_journal_row:
  assumes "keeps_journal d d'" "txn_by d i = Some r" "tr_status r \<noteq> Pending"
  shows "txn_by d' i = Some r"
proof -
  have "same_txn d d' i r" using assms(1,2) by (simp add: appends_journal_def keeps_journal_def)
  then show ?thesis using assms(3) by (auto simp: same_txn_def)
qed

end
