(* ===== verification/Categories.thy ===== *)
theory Categories
  imports Monitors Frame
begin

text \<open>
  \<^verbatim>\<open>categories.go\<close>: categories group accounts of one ledger and currency and nest in each other. An
  edge may not close a cycle, and a chain of categories has at most seven; the balances of a category
  add up those of the accounts inside it. A recursive query is the list of its rows, level by level.
\<close>

definition maxCategoryDepth :: nat where
  "maxCategoryDepth = 7"

type_synonym edges = "(uuid \<times> uuid) list"

section \<open>The graph\<close>

definition children :: "edges \<Rightarrow> uuid \<Rightarrow> uuid list" where
  "children E x = map snd (filter (\<lambda>e. fst e = x) E)"

definition parents :: "edges \<Rightarrow> uuid \<Rightarrow> uuid list" where
  "parents E x = map fst (filter (\<lambda>e. snd e = x) E)"

text \<open>The recursive queries \<open>up\<close> and \<open>down\<close>: the rows of depth \<open>depth\<close> are \<open>xs\<close>, and \<open>n\<close> more levels
  follow while \<^verbatim>\<open>depth <= $3\<close>.\<close>

fun levels :: "(uuid \<Rightarrow> uuid list) \<Rightarrow> nat \<Rightarrow> nat \<Rightarrow> uuid list \<Rightarrow> (uuid \<times> nat) list" where
  "levels step 0 depth xs = map (\<lambda>x. (x, depth)) xs"
| "levels step (Suc n) depth xs =
     map (\<lambda>x. (x, depth)) xs @ (if xs = [] then [] else levels step n (Suc depth) (concat (map step xs)))"

definition up :: "edges \<Rightarrow> uuid \<Rightarrow> (uuid \<times> nat) list" where
  "up E x = levels (parents E) maxCategoryDepth 1 [x]"

definition down :: "edges \<Rightarrow> uuid \<Rightarrow> (uuid \<times> nat) list" where
  "down E x = levels (children E) maxCategoryDepth 1 [x]"

definition max_depth :: "(uuid \<times> nat) list \<Rightarrow> nat" where
  "max_depth rows = fold max (map snd rows) 0"

text \<open>The recursive query \<^verbatim>\<open>tree\<close> of \<open>categoryMembers\<close> drops duplicates: it is repeated until nothing
  is new, which takes at most as many rounds as there are edges.\<close>

definition grow :: "edges \<Rightarrow> uuid list \<Rightarrow> uuid list" where
  "grow E xs = remdups (xs @ concat (map (children E) xs))"

definition tree :: "edges \<Rightarrow> uuid \<Rightarrow> uuid list" where
  "tree E x = (grow E ^^ length E) [x]"

definition categoryMembers :: "db \<Rightarrow> uuid \<Rightarrow> uuid list" where
  "categoryMembers d c =
     remdups (map snd (filter (\<lambda>(c', a). c' \<in> set (tree (db_edges d) c)) (db_members d)))"

section \<open>Balances\<close>

definition group_state :: "side \<Rightarrow> int \<Rightarrow> int \<Rightarrow> int \<Rightarrow> int \<Rightarrow> int \<Rightarrow> accountState" where
  "group_state s pd pc qd qc h =
     \<lparr>a_id = 0, a_ledger = 0, a_closedBefore = None, a_currency = [], a_normalSide = s, a_status = Open,
      a_allowNegative = False, a_overdraftLimit = 0, postedDebits = pd, postedCredits = pc,
      pendingDebits = qd, pendingCredits = qc, held = h, a_version = 0, a_originalVersion = 0\<rparr>"

definition scan_group :: "side \<Rightarrow> int \<Rightarrow> int \<Rightarrow> int \<Rightarrow> int \<Rightarrow> int \<Rightarrow> accountState res" where
  "scan_group s pd pc qd qc h =
     bindR (scan_sum pd) (\<lambda>pd. bindR (scan_sum pc) (\<lambda>pc. bindR (scan_sum qd) (\<lambda>qd.
     bindR (scan_sum qc) (\<lambda>qc. bindR (scan_sum h) (\<lambda>h. Inr (group_state s pd pc qd qc h))))))"

text \<open>One row of the query without a range: the accounts of one normal side, if there are any.\<close>

definition account_group :: "db \<Rightarrow> uuid list \<Rightarrow> side \<Rightarrow> accountState res option" where
  "account_group d inside s =
     (let rows = filter (\<lambda>a. ac_id a \<in> set inside \<and> ac_normalSide a = s) (db_accounts d);
          total = (\<lambda>f. \<Sum>a\<leftarrow>rows. f a)
      in if rows = [] then None
         else Some (scan_group s (total ac_postedDebits) (total ac_postedCredits) (total ac_pendingDebits)
           (total ac_pendingCredits) (total ac_held)))"

text \<open>The rows \<open>x\<close> of the query with a range: account, side, amount, posted, effective time.\<close>

definition range_rows :: "db \<Rightarrow> uuid list \<Rightarrow> (uuid \<times> side \<times> int \<times> bool \<times> gotime) list" where
  "range_rows d inside =
     concat (map (\<lambda>p. case txn_by d (pr_txn p) of
         None \<Rightarrow> [] | Some t \<Rightarrow> [(pr_account p, pr_side p, pr_amount p, True, tr_effectiveAt t)])
       (filter (\<lambda>p. pr_account p \<in> set inside) (db_postings d))) @
     concat (map (\<lambda>e. case txn_by d (pe_txn e) of
         None \<Rightarrow> []
       | Some t \<Rightarrow> if pe_version e = tr_entriesVersion t \<and> tr_status t = Pending
                  then [(pe_account e, pe_side e, pe_amount e, False, tr_effectiveAt t)] else [])
       (filter (\<lambda>e. pe_account e \<in> set inside) (db_pending d)))"

definition range_group :: "db \<Rightarrow> uuid list \<Rightarrow> effectiveRange \<Rightarrow> side \<Rightarrow> accountState res option" where
  "range_group d inside r s =
     (let rows = filter (\<lambda>(i, _, _, _, t). in_interval r t \<and>
            (case account_by d i of None \<Rightarrow> False | Some a \<Rightarrow> ac_normalSide a = s)) (range_rows d inside);
          total = (\<lambda>sd po. sum_over (\<lambda>(_, x, _, y, _). x = sd \<and> y = po) (\<lambda>(_, _, n, _, _). n) rows)
      in if rows = [] then None
         else Some (scan_group s (total Debit True) (total Credit True) (total Debit False) (total Credit False) 0))"

definition balance_groups :: "db \<Rightarrow> uuid list \<Rightarrow> effectiveRange \<Rightarrow> accountState res list" where
  "balance_groups d inside r =
     List.map_filter
       (if from_time r = None \<and> until_time r = None then account_group d inside else range_group d inside r)
       [Debit, Credit]"

type_synonym sums = "(int \<times> int) \<times> (int \<times> int) \<times> (int \<times> int)"

definition add_balance :: "int \<times> int \<Rightarrow> balance \<Rightarrow> (int \<times> int) res" where
  "add_balance s b =
     bindR (amt_add (fst s) (debits b)) (\<lambda>ds. bindR (amt_add (snd s) (credits b)) (\<lambda>cs. Inr (ds, cs)))"

fun add_groups :: "sums \<Rightarrow> accountState res list \<Rightarrow> sums res" where
  "add_groups acc [] = Inr acc"
| "add_groups (s1, s2, s3) (g # gs) =
     bindR g (\<lambda>a. bindR (account_balances a) (\<lambda>(posted, pending, available).
     bindR (add_balance s1 posted) (\<lambda>s1. bindR (add_balance s2 pending) (\<lambda>s2.
     bindR (add_balance s3 available) (\<lambda>s3. add_groups (s1, s2, s3) gs)))))"

definition rollUp :: "db \<Rightarrow> category \<Rightarrow> effectiveRange \<Rightarrow> balances res" where
  "rollUp d c r =
     bindR (add_groups ((0, 0), (0, 0), (0, 0)) (balance_groups d (categoryMembers d (cg_id c)) r))
       (\<lambda>(s1, s2, s3).
       let view = group_state (cg_normalSide c) 0 0 0 0 0
       in bindR (account_balance view (fst s1) (snd s1)) (\<lambda>posted.
          bindR (account_balance view (fst s2) (snd s2)) (\<lambda>pending.
          bindR (account_balance view (fst s3) (snd s3)) (\<lambda>available.
            Inr \<lparr>b_pending = pending, b_posted = posted, b_available = available\<rparr>))))"

section \<open>Operations\<close>

record categoryInput =
  gi_ledger :: uuid
  gi_currency :: string
  gi_normalSide :: side
  gi_name :: string
  gi_description :: string
  gi_metadata :: jvalue

definition validateCategory :: "categoryInput \<Rightarrow> unit res" where
  "validateCategory i =
     bindR (validateDetails (gi_name i) (gi_description i) (gi_metadata i) True) (\<lambda>_.
     if gi_ledger i = 0 then Inl ErrInvalid
     else if currency_Validate (gi_currency i) \<noteq> ok then Inl ErrInvalid
     else if \<not> side_valid (gi_normalSide i) then Inl ErrInvalid
     else ok)"

definition queryCategory :: "db \<Rightarrow> uuid \<Rightarrow> category res" where
  "queryCategory d i =
     (case row_by cg_id (db_categories d) i of None \<Rightarrow> Inl ErrNotFound | Some c \<Rightarrow> Inr c)"

definition createCategory :: "db \<Rightarrow> gotime \<Rightarrow> uuid \<Rightarrow> categoryInput \<Rightarrow> (category \<times> db) res" where
  "createCategory d now newid i =
     bindR (validateCategory i) (\<lambda>_.
     if row_by cg_id (db_categories d) newid \<noteq> None then Inl (ErrConstraint ''ledger_categories_pkey'')
     else if ledger_by d (gi_ledger i) = None then Inl (ErrConstraint ''ledger_categories_ledger_id_fkey'')
     else if row_by cur_code (db_currencies d) (gi_currency i) = None then
       Inl (ErrConstraint ''ledger_categories_currency_fkey'')
     else let c = \<lparr>cg_id = newid, cg_ledger = gi_ledger i, cg_currency = gi_currency i,
                   cg_normalSide = gi_normalSide i, cg_name = gi_name i, cg_description = gi_description i,
                   cg_metadata = normalizeMetadata (gi_metadata i), cg_version = 0, cg_createdAt = now\<rparr>
          in Inr (c, d\<lparr>db_categories := db_categories d @ [c]\<rparr>))"

text \<open>\<^verbatim>\<open>service.category\<close>\<close>

definition getCategory :: "db \<Rightarrow> uuid \<Rightarrow> effectiveRange \<Rightarrow> (category \<times> balances) res" where
  "getCategory d i r =
     bindR (validateRange r) (\<lambda>_. bindR (queryCategory d i) (\<lambda>c. bindR (rollUp d c r) (\<lambda>b. Inr (c, b))))"

definition all_time :: effectiveRange where
  "all_time = \<lparr>from_time = None, until_time = None\<rparr>"

definition updateCategory :: "db \<Rightarrow> uuid \<Rightarrow> updateInput \<Rightarrow> (category \<times> balances \<times> db) res" where
  "updateCategory d i inp =
     bindR (queryCategory d i) (\<lambda>cur.
     bindR (applyUpdate (cg_name cur) (cg_description cur) (cg_metadata cur) inp True) (\<lambda>(name, description, metadata).
     let (c, d') =
       (if \<not> sameDetails (cg_name cur) (cg_description cur) (cg_metadata cur) name description metadata
        then let c = cur\<lparr>cg_name := name, cg_description := description, cg_metadata := metadata,
                       cg_version := cg_version cur + 1\<rparr>
             in (c, d\<lparr>db_categories := update_rows (\<lambda>x. cg_id x = i) (\<lambda>_. c) (db_categories d)\<rparr>)
        else (cur, d))
     in bindR (rollUp d' c all_time) (\<lambda>b. Inr (c, b, d'))))"

text \<open>\<^verbatim>\<open>changeGraph\<close> reads the category again after the lock of its ledger; database transactions that
  change the graph of one ledger run one after the other.\<close>

definition changeGraph :: "db \<Rightarrow> uuid \<Rightarrow> (db \<Rightarrow> category \<Rightarrow> db res) \<Rightarrow> (category \<times> db) res" where
  "changeGraph d i change = bindR (queryCategory d i) (\<lambda>c. bindR (change d c) (\<lambda>d'. Inr (c, d')))"

definition deleteCategory :: "db \<Rightarrow> uuid \<Rightarrow> db res" where
  "deleteCategory d i =
     bindR (changeGraph d i (\<lambda>d c. Inr (d\<lparr>db_categories := filter (\<lambda>x. cg_id x \<noteq> i) (db_categories d),
         db_members := filter (\<lambda>m. fst m \<noteq> i) (db_members d),
         db_edges := filter (\<lambda>e. fst e \<noteq> i \<and> snd e \<noteq> i) (db_edges d)\<rparr>)))
       (\<lambda>(_, d'). Inr d')"

definition set_member_change :: "uuid \<Rightarrow> uuid \<Rightarrow> bool \<Rightarrow> db \<Rightarrow> category \<Rightarrow> db res" where
  "set_member_change c a isMember d cur =
     (if \<not> isMember then Inr (d\<lparr>db_members := filter (\<lambda>m. m \<noteq> (c, a)) (db_members d)\<rparr>)
      else bindR (queryAccount d a) (\<lambda>acc.
        if ac_ledger (acc_row acc) \<noteq> cg_ledger cur \<or> ac_currency (acc_row acc) \<noteq> cg_currency cur then
          Inl ErrCategoryMismatch
        else Inr (if (c, a) \<in> set (db_members d) then d
                  else d\<lparr>db_members := db_members d @ [(c, a)]\<rparr>)))"

definition setMember :: "db \<Rightarrow> uuid \<Rightarrow> uuid \<Rightarrow> bool \<Rightarrow> ((category \<times> balances) res \<times> db) res" where
  "setMember d c a isMember =
     bindR (changeGraph d c (set_member_change c a isMember)) (\<lambda>(cur, d').
       Inr (getCategory d' (cg_id cur) all_time, d'))"

definition set_child_change :: "uuid \<Rightarrow> uuid \<Rightarrow> bool \<Rightarrow> db \<Rightarrow> category \<Rightarrow> db res" where
  "set_child_change p c nested d parent =
     (if \<not> nested then Inr (d\<lparr>db_edges := filter (\<lambda>e. e \<noteq> (p, c)) (db_edges d)\<rparr>)
      else bindR (queryCategory d c) (\<lambda>child.
        if cg_ledger child \<noteq> cg_ledger parent \<or> cg_currency child \<noteq> cg_currency parent then
          Inl ErrCategoryMismatch
        else if list_ex (\<lambda>(x, _). x = p) (down (db_edges d) c) then Inl ErrCategoryCycle
        else if max_depth (up (db_edges d) p) + max_depth (down (db_edges d) c) > maxCategoryDepth then
          Inl ErrCategoryDepth
        else Inr (if (p, c) \<in> set (db_edges d) then d
                  else d\<lparr>db_edges := db_edges d @ [(p, c)]\<rparr>)))"

definition setChild :: "db \<Rightarrow> uuid \<Rightarrow> uuid \<Rightarrow> bool \<Rightarrow> ((category \<times> balances) res \<times> db) res" where
  "setChild d p c nested =
     bindR (changeGraph d p (set_child_change p c nested)) (\<lambda>(_, d'). Inr (getCategory d' p all_time, d'))"

record categoryList =
  gl_ledger :: uuid
  gl_parent :: uuid
  gl_account :: uuid
  gl_metadata :: metadata_filter
  gl_before :: uuid
  gl_limit :: int

definition listed_category :: "db \<Rightarrow> categoryList \<Rightarrow> category \<Rightarrow> bool" where
  "listed_category d i c \<longleftrightarrow>
     opt_matches (nullUUID (gl_ledger i)) (cg_ledger c) \<and>
     (case nullUUID (gl_parent i) of None \<Rightarrow> True | Some p \<Rightarrow> (p, cg_id c) \<in> set (db_edges d)) \<and>
     (case nullUUID (gl_account i) of None \<Rightarrow> True | Some a \<Rightarrow> (cg_id c, a) \<in> set (db_members d)) \<and>
     metadata_matches (gl_metadata i) (cg_metadata c)"

fun roll_all :: "db \<Rightarrow> category list \<Rightarrow> (category \<times> balances) list res" where
  "roll_all d [] = Inr []"
| "roll_all d (c # cs) =
     bindR (rollUp d c all_time) (\<lambda>b. bindR (roll_all d cs) (\<lambda>rest. Inr ((c, b) # rest)))"

definition listCategories :: "db \<Rightarrow> categoryList \<Rightarrow> (category \<times> balances) list res" where
  "listCategories d i =
     (if \<not> limit_ok (gl_limit i) then Inl ErrInvalid
      else bindR (validateMetadataFilter (gl_metadata i)) (\<lambda>_.
        roll_all d (page cg_id (listed_category d i) (gl_before i) (nat (gl_limit i)) (db_categories d))))"

end
