(* ===== verification/History.thy ===== *)
theory History
  imports Categories
begin

text \<open>
  \<^verbatim>\<open>history.go\<close> and \<^verbatim>\<open>store_history.go\<close>: the entries of the journal, the balances of an account over a
  range of effective times, and statements. PostgreSQL gives every database transaction a number;
  \<open>xid t\<close> is the number under which the transaction \<open>t\<close> was posted, and a statement keeps the smallest
  number that was still running when it was made, so that it can be computed again later.
\<close>

section \<open>Entries\<close>

record entry =
  en_sequence :: nat
  en_txn :: uuid
  en_ledger :: uuid
  en_account :: uuid
  en_status :: txn_status
  en_side :: side
  en_amount :: int
  en_currency :: string
  en_balanceAfter :: "int option"
  en_effectiveAt :: gotime
  en_createdAt :: gotime
  en_settlement :: "uuid option"

record entryList =
  el_status :: txn_status
  el_ledger :: uuid
  el_account :: uuid
  el_txn :: uuid
  el_statement :: uuid
  el_settlement :: uuid
  el_settled :: "bool option"
  el_side :: "side option"
  el_metadata :: metadata_filter
  el_effective :: effectiveRange
  el_after :: int
  el_limit :: int

definition validateListEntries :: "entryList \<Rightarrow> unit res" where
  "validateListEntries i =
     (if el_status i \<noteq> Pending \<and> el_status i \<noteq> Posted \<and> el_status i \<noteq> Archived then Inl ErrInvalid
      else if (case el_side i of None \<Rightarrow> False | Some s \<Rightarrow> \<not> side_valid s) then Inl ErrInvalid
      else if \<not> limit_ok (el_limit i) then Inl ErrInvalid
      else bindR (validateMetadataFilter (el_metadata i)) (\<lambda>_. validateRange (el_effective i)))"

definition xidBound :: "nat \<Rightarrow> nat option" where
  "xidBound n = (if n = 0 then None else Some n)"

definition posted_below :: "(uuid \<Rightarrow> nat) \<Rightarrow> nat \<Rightarrow> txn_row \<Rightarrow> bool" where
  "posted_below xid bound t \<longleftrightarrow> (case xidBound bound of None \<Rightarrow> True | Some b \<Rightarrow> xid (tr_id t) < b)"

text \<open>The conditions that both queries have.\<close>

definition entry_listed :: "entryList \<Rightarrow> txn_row \<Rightarrow> nat \<Rightarrow> uuid \<Rightarrow> side \<Rightarrow> bool" where
  "entry_listed i t sequence account s \<longleftrightarrow>
     int sequence > el_after i \<and> opt_matches (nullUUID (el_account i)) account \<and>
     opt_matches (nullUUID (el_ledger i)) (tr_ledger t) \<and> opt_matches (nullUUID (el_txn i)) (tr_id t) \<and>
     opt_matches (el_side i) s \<and> metadata_matches (el_metadata i) (tr_metadata t) \<and>
     in_interval (el_effective i) (tr_effectiveAt t)"

definition listed_posting :: "db \<Rightarrow> (uuid \<Rightarrow> nat) \<Rightarrow> nat \<Rightarrow> entryList \<Rightarrow> posting_row \<Rightarrow> bool" where
  "listed_posting d xid bound i p \<longleftrightarrow>
     account_by d (pr_account p) \<noteq> None \<and>
     (case txn_by d (pr_txn p) of
        None \<Rightarrow> False
      | Some t \<Rightarrow> entry_listed i t (pr_id p) (pr_account p) (pr_side p) \<and> posted_below xid bound t) \<and>
     (case nullUUID (el_settlement i) of
        None \<Rightarrow> True | Some s \<Rightarrow> map_of (db_settled d) (pr_id p) = Some s) \<and>
     (case el_settled i of None \<Rightarrow> True | Some b \<Rightarrow> (map_of (db_settled d) (pr_id p) \<noteq> None) = b)"

definition listed_pending :: "db \<Rightarrow> entryList \<Rightarrow> pending_row \<Rightarrow> bool" where
  "listed_pending d i e \<longleftrightarrow>
     (case txn_by d (pe_txn e) of
        None \<Rightarrow> False
      | Some t \<Rightarrow> entry_listed i t (pe_id e) (pe_account e) (pe_side e) \<and>
          pe_version e = tr_entriesVersion t \<and> tr_status t = el_status i) \<and>
     nullUUID (el_settlement i) = None \<and> el_settled i \<noteq> Some True"

text \<open>A posting of a transaction with no time of posting cannot be scanned: \<^verbatim>\<open>CreatedAt\<close> is not a pointer.\<close>

definition posting_entry :: "db \<Rightarrow> posting_row \<Rightarrow> entry res" where
  "posting_entry d p =
     (case (txn_by d (pr_txn p), account_by d (pr_account p)) of
        (Some t, Some a) \<Rightarrow>
          (case tr_postedAt t of
             None \<Rightarrow> Inl (ErrInternal ''scan'')
           | Some at \<Rightarrow> Inr
               \<lparr>en_sequence = pr_id p, en_txn = pr_txn p, en_ledger = tr_ledger t, en_account = pr_account p,
                en_status = tr_status t, en_side = pr_side p, en_amount = pr_amount p,
                en_currency = pr_currency p,
                en_balanceAfter = Some (if ac_normalSide a = Credit then - pr_after p else pr_after p),
                en_effectiveAt = tr_effectiveAt t, en_createdAt = at,
                en_settlement = map_of (db_settled d) (pr_id p)\<rparr>)
      | _ \<Rightarrow> Inl no_rows)"

definition pending_entry :: "db \<Rightarrow> pending_row \<Rightarrow> entry res" where
  "pending_entry d e =
     (case txn_by d (pe_txn e) of
        None \<Rightarrow> Inl no_rows
      | Some t \<Rightarrow> Inr
          \<lparr>en_sequence = pe_id e, en_txn = pe_txn e, en_ledger = tr_ledger t, en_account = pe_account e,
           en_status = tr_status t, en_side = pe_side e, en_amount = pe_amount e, en_currency = pe_currency e,
           en_balanceAfter = None, en_effectiveAt = tr_effectiveAt t, en_createdAt = tr_createdAt t,
           en_settlement = None\<rparr>)"

fun collect_rows :: "('r \<Rightarrow> 'a res) \<Rightarrow> 'r list \<Rightarrow> 'a list res" where
  "collect_rows f [] = Inr []"
| "collect_rows f (r # rs) = bindR (f r) (\<lambda>x. bindR (collect_rows f rs) (\<lambda>xs. Inr (x # xs)))"

definition selectEntries :: "db \<Rightarrow> (uuid \<Rightarrow> nat) \<Rightarrow> entryList \<Rightarrow> nat \<Rightarrow> entry list res" where
  "selectEntries d xid i bound =
     (if el_status i \<noteq> Posted
      then collect_rows (pending_entry d)
        (take (nat (el_limit i)) (sort_key pe_id (filter (listed_pending d i) (db_pending d))))
      else collect_rows (posting_entry d)
        (take (nat (el_limit i)) (sort_key pr_id (filter (listed_posting d xid bound i) (db_postings d)))))"

text \<open>A line of \<^verbatim>\<open>accountEntries\<close>: the posting, its balance read on the normal side, its time.\<close>

definition maxStatementLimit :: nat where
  "maxStatementLimit = 1000"

definition selectAccountEntries ::
  "db \<Rightarrow> account \<Rightarrow> int \<Rightarrow> nat \<Rightarrow> (posting_row \<times> int \<times> gotime) list" where
  "selectAccountEntries d a aft limit =
     concat (map (\<lambda>p. case txn_by d (pr_txn p) of
         None \<Rightarrow> []
       | Some t \<Rightarrow> [(p, if ac_normalSide (acc_row a) = Credit then amt_neg (pr_after p) else pr_after p,
                     tr_createdAt t)])
       (take limit (sort_key pr_id (filter (\<lambda>p. pr_account p = ac_id (acc_row a) \<and> int (pr_id p) > aft \<and>
           txn_by d (pr_txn p) \<noteq> None) (db_postings d)))))"

definition accountEntries :: "db \<Rightarrow> uuid \<Rightarrow> int \<Rightarrow> int \<Rightarrow> (posting_row \<times> int \<times> gotime) list res" where
  "accountEntries d i aft limit =
     (if limit < 1 \<or> limit > int maxStatementLimit \<or> aft < 0 then Inl ErrInvalid
      else bindR (queryAccount d i) (\<lambda>a. Inr (selectAccountEntries d a aft (nat limit))))"

section \<open>Totals over a range\<close>

record totals =
  to_postedDebits :: int
  to_postedCredits :: int
  to_pendingDebits :: int
  to_pendingCredits :: int
  to_count :: nat

definition posted_within :: "db \<Rightarrow> (uuid \<Rightarrow> nat) \<Rightarrow> nat \<Rightarrow> uuid \<Rightarrow> effectiveRange \<Rightarrow> posting_row list" where
  "posted_within d xid bound i r =
     filter (\<lambda>p. pr_account p = i \<and>
       (case txn_by d (pr_txn p) of
          None \<Rightarrow> False | Some t \<Rightarrow> in_interval r (tr_effectiveAt t) \<and> posted_below xid bound t)) (db_postings d)"

definition pending_within :: "db \<Rightarrow> nat \<Rightarrow> uuid \<Rightarrow> effectiveRange \<Rightarrow> pending_row list" where
  "pending_within d bound i r =
     filter (\<lambda>e. pe_account e = i \<and> xidBound bound = None \<and>
       (case txn_by d (pe_txn e) of
          None \<Rightarrow> False
        | Some t \<Rightarrow> pe_version e = tr_entriesVersion t \<and> tr_status t = Pending \<and>
            in_interval r (tr_effectiveAt t))) (db_pending d)"

definition selectTotals :: "db \<Rightarrow> (uuid \<Rightarrow> nat) \<Rightarrow> uuid \<Rightarrow> effectiveRange \<Rightarrow> nat \<Rightarrow> totals res" where
  "selectTotals d xid i r bound =
     (let ps = posted_within d xid bound i r; es = pending_within d bound i r
      in bindR (scan_sum (sum_over (\<lambda>p. pr_side p = Debit) pr_amount ps)) (\<lambda>pd.
         bindR (scan_sum (sum_over (\<lambda>p. pr_side p = Credit) pr_amount ps)) (\<lambda>pc.
         bindR (scan_sum (sum_over (\<lambda>e. pe_side e = Debit) pe_amount es)) (\<lambda>qd.
         bindR (scan_sum (sum_over (\<lambda>e. pe_side e = Credit) pe_amount es)) (\<lambda>qc.
         Inr \<lparr>to_postedDebits = pd, to_postedCredits = pc, to_pendingDebits = qd, to_pendingCredits = qc,
              to_count = length ps\<rparr>)))))"

definition balancesAt :: "db \<Rightarrow> (uuid \<Rightarrow> nat) \<Rightarrow> uuid \<Rightarrow> effectiveRange \<Rightarrow> balances res" where
  "balancesAt d xid i r =
     bindR (validateRange r) (\<lambda>_.
     bindR (queryAccount d i) (\<lambda>a.
     bindR (selectTotals d xid i (range_truncated r) 0) (\<lambda>t.
     bindR (account_balances (group_state (ac_normalSide (acc_row a)) (to_postedDebits t) (to_postedCredits t)
         (to_pendingDebits t) (to_pendingCredits t) 0)) (\<lambda>(posted, pending, available).
       Inr \<lparr>b_pending = pending, b_posted = posted, b_available = available\<rparr>))))"

section \<open>Statements\<close>

record statementInput =
  ti_account :: uuid
  ti_description :: string
  ti_from :: gotime
  ti_until :: gotime

record statement =
  sm_row :: statement_row
  sm_currency :: string
  sm_starting :: balance
  sm_ending :: balance

definition validateStatement :: "statementInput \<Rightarrow> unit res" where
  "validateStatement i =
     (if ti_account i = 0 then Inl ErrInvalid
      else if ti_from i = 0 \<or> ti_until i = 0 then Inl ErrInvalid
      else bindR (validateRange \<lparr>from_time = Some (ti_from i), until_time = Some (ti_until i)\<rparr>) (\<lambda>_.
        validateText (ti_description i) no_jvalue))"

definition scanStatement :: "db \<Rightarrow> statement_row \<Rightarrow> statement res" where
  "scanStatement d s =
     (case account_by d (sm_account s) of
        None \<Rightarrow> Inl no_rows
      | Some a \<Rightarrow>
          let view = group_state (ac_normalSide a) 0 0 0 0 0
          in bindR (account_balance view (sm_startDebits s) (sm_startCredits s)) (\<lambda>starting.
             bindR (account_balance view (sm_endDebits s) (sm_endCredits s)) (\<lambda>ending.
               Inr \<lparr>sm_row = s, sm_currency = ac_currency a, sm_starting = starting, sm_ending = ending\<rparr>)))"

text \<open>The checks of the table: totals that fit, and no total that falls.\<close>

definition statement_check :: "statement_row \<Rightarrow> bool" where
  "statement_check s \<longleftrightarrow>
     0 \<le> sm_startDebits s \<and> 0 \<le> sm_startCredits s \<and> sm_startDebits s \<le> sm_endDebits s \<and>
     sm_startCredits s \<le> sm_endCredits s \<and> sm_from s < sm_until s"

definition insertStatement :: "db \<Rightarrow> statement_row \<Rightarrow> (statement \<times> db) res" where
  "insertStatement d s =
     (if row_by sm_id (db_statements d) (sm_id s) \<noteq> None then Inl (ErrConstraint ''ledger_statements_pkey'')
      else if \<not> statement_check s then Inl (ErrConstraint ''ledger_statements_check'')
      else bindR (scanStatement d s) (\<lambda>st. Inr (st, d\<lparr>db_statements := db_statements d @ [s]\<rparr>)))"

definition createStatement ::
  "db \<Rightarrow> (uuid \<Rightarrow> nat) \<Rightarrow> nat \<Rightarrow> gotime \<Rightarrow> uuid \<Rightarrow> statementInput \<Rightarrow> (statement \<times> db) res" where
  "createStatement d xid xmin now newid i =
     (let i = i\<lparr>ti_from := truncate_us (ti_from i), ti_until := truncate_us (ti_until i)\<rparr>
      in bindR (validateStatement i) (\<lambda>_.
         bindR (queryAccount d (ti_account i)) (\<lambda>a.
         bindR (selectTotals d xid (ac_id (acc_row a)) \<lparr>from_time = None, until_time = Some (ti_from i)\<rparr> xmin) (\<lambda>opening.
         bindR (selectTotals d xid (ac_id (acc_row a)) \<lparr>from_time = Some (ti_from i), until_time = Some (ti_until i)\<rparr> xmin) (\<lambda>period.
         bindR (amt_add (to_postedDebits opening) (to_postedDebits period)) (\<lambda>endDebits.
         bindR (amt_add (to_postedCredits opening) (to_postedCredits period)) (\<lambda>endCredits.
           insertStatement d
             \<lparr>sm_id = newid, sm_ledger = ac_ledger (acc_row a), sm_account = ac_id (acc_row a),
              sm_description = ti_description i, sm_from = ti_from i, sm_until = ti_until i,
              sm_postedBefore = xmin, sm_startDebits = to_postedDebits opening,
              sm_startCredits = to_postedCredits opening, sm_endDebits = endDebits,
              sm_endCredits = endCredits, sm_entryCount = to_count period, sm_createdAt = now\<rparr>)))))))"

definition queryStatement :: "db \<Rightarrow> uuid \<Rightarrow> statement res" where
  "queryStatement d i =
     found (case row_by sm_id (db_statements d) i of None \<Rightarrow> Inl no_rows | Some s \<Rightarrow> scanStatement d s)"

record statementList =
  sp_account :: uuid
  sp_before :: uuid
  sp_limit :: int

definition listStatements :: "db \<Rightarrow> statementList \<Rightarrow> statement list res" where
  "listStatements d i =
     (if \<not> limit_ok (sp_limit i) then Inl ErrInvalid
      else collect_rows (scanStatement d)
        (page sm_id (\<lambda>s. opt_matches (nullUUID (sp_account i)) (sm_account s) \<and> account_by d (sm_account s) \<noteq> None)
          (sp_before i) (nat (sp_limit i)) (db_statements d)))"

definition listEntries :: "db \<Rightarrow> (uuid \<Rightarrow> nat) \<Rightarrow> entryList \<Rightarrow> entry list res" where
  "listEntries d xid i =
     (let i = (if el_status i = NoStatus then i\<lparr>el_status := Posted\<rparr> else i)
      in bindR (validateListEntries i) (\<lambda>_.
         if el_statement i = 0 then selectEntries d xid i 0
         else bindR (queryStatement d (el_statement i)) (\<lambda>st.
           let s = sm_row st
           in if el_status i \<noteq> Posted \<or> el_account i \<noteq> 0 \<and> el_account i \<noteq> sm_account s then Inr []
              else selectEntries d xid
                (i\<lparr>el_account := sm_account s,
                   el_effective := narrow (el_effective i) \<lparr>from_time = Some (sm_from s), until_time = Some (sm_until s)\<rparr>\<rparr>)
                (sm_postedBefore s))))"

end
