(* ===== verification/Category_Laws.thy ===== *)
theory Category_Laws
  imports Categories
begin

text \<open>
  The laws of categories: the recursive queries find the chains of the graph, nesting keeps every chain
  within seven categories, so that the graph stays acyclic, the members of a category are those of the
  categories reachable from it, and the balances of a category are the sums over its accounts.
\<close>

section \<open>Chains\<close>

fun chain :: "edges \<Rightarrow> uuid list \<Rightarrow> bool" where
  "chain E [] = False"
| "chain E [x] = True"
| "chain E (x # y # r) \<longleftrightarrow> (x, y) \<in> set E \<and> chain E (y # r)"

definition chains_ok :: "edges \<Rightarrow> bool" where
  "chains_ok E \<longleftrightarrow> (\<forall>xs. chain E xs \<longrightarrow> length xs \<le> maxCategoryDepth)"

definition flipped :: "edges \<Rightarrow> edges" where
  "flipped E = map (\<lambda>(x, y). (y, x)) E"

lemma chain_nonempty [simp]: "chain E xs \<Longrightarrow> xs \<noteq> []"
  by auto

lemma chain_mono: "chain E xs \<Longrightarrow> set E \<subseteq> set E' \<Longrightarrow> chain E' xs"
  by (induction E xs rule: chain.induct) auto

lemma chain_append:
  "xs \<noteq> [] \<Longrightarrow> ys \<noteq> [] \<Longrightarrow> chain E (xs @ ys) \<longleftrightarrow> chain E xs \<and> chain E ys \<and> (last xs, hd ys) \<in> set E"
proof (induction E xs rule: chain.induct)
  case (2 E x)
  then show ?case by (cases ys) auto
qed auto

lemma chain_rev: "chain (flipped E) (rev xs) \<longleftrightarrow> chain E xs"
proof (induction E xs rule: chain.induct)
  case (3 E x y r)
  have "chain (flipped E) (rev (x # y # r)) \<longleftrightarrow> chain (flipped E) (rev (y # r)) \<and> (y, x) \<in> set (flipped E)"
    using chain_append [of "rev r @ [y]" "[x]" "flipped E"] by simp
  also have "(y, x) \<in> set (flipped E) \<longleftrightarrow> (x, y) \<in> set E" by (auto simp: flipped_def)
  finally show ?case using 3 by auto
qed auto

lemma parents_flipped: "parents E = children (flipped E)"
  by (rule ext, induction E) (auto simp: parents_def children_def flipped_def)

section \<open>The recursive queries\<close>

lemma levels_children:
  "(y, k) \<in> set (levels (children E) n depth xs) \<longleftrightarrow>
     (\<exists>x \<in> set xs. \<exists>ys. chain E (x # ys) \<and> last (x # ys) = y \<and> k = depth + length ys \<and> length ys \<le> n)"
proof (induction n arbitrary: depth xs)
  case 0
  then show ?case by auto
next
  case (Suc n)
  have "(\<exists>x \<in> set xs. \<exists>ys. chain E (x # ys) \<and> last (x # ys) = y \<and> k = depth + length ys \<and> length ys \<le> Suc n) \<longleftrightarrow>
    y \<in> set xs \<and> k = depth \<or>
    (\<exists>z \<in> set (concat (map (children E) xs)). \<exists>ys. chain E (z # ys) \<and> last (z # ys) = y \<and>
       k = Suc depth + length ys \<and> length ys \<le> n)" (is "?L \<longleftrightarrow> ?A \<or> ?B")
  proof
    assume ?L
    then obtain x ys where x: "x \<in> set xs" "chain E (x # ys)" "last (x # ys) = y" "k = depth + length ys"
      "length ys \<le> Suc n" by blast
    show "?A \<or> ?B"
    proof (cases ys)
      case Nil
      then show ?thesis using x by simp
    next
      case (Cons z zs)
      then have "z \<in> set (concat (map (children E) xs))" using x(1,2) by (force simp: children_def)
      moreover have "chain E (z # zs)" "last (z # zs) = y" "k = Suc depth + length zs" "length zs \<le> n"
        using x Cons by auto
      ultimately show ?thesis by blast
    qed
  next
    assume "?A \<or> ?B"
    then show ?L
    proof
      assume ?A
      then show ?L by (intro bexI [of _ y] exI [of _ "[]"]) auto
    next
      assume ?B
      then obtain z ys where z: "z \<in> set (concat (map (children E) xs))" "chain E (z # ys)" "last (z # ys) = y"
        "k = Suc depth + length ys" "length ys \<le> n" by blast
      then obtain x where "x \<in> set xs" "(x, z) \<in> set E" by (auto simp: children_def)
      then show ?L using z by (intro bexI [of _ x] exI [of _ "z # ys"]) auto
    qed
  qed
  then show ?case using Suc.IH [of "Suc depth" "concat (map (children E) xs)"] by (cases "xs = []") auto
qed

lemma down_iff:
  "(y, k) \<in> set (down E x) \<longleftrightarrow> (\<exists>ys. chain E (x # ys) \<and> last (x # ys) = y \<and> k = length (x # ys) \<and>
     length ys \<le> maxCategoryDepth)"
  by (auto simp: down_def levels_children)

lemma up_iff:
  "(y, k) \<in> set (up E x) \<longleftrightarrow> (\<exists>ys. chain E (ys @ [x]) \<and> hd (ys @ [x]) = y \<and> k = length (ys @ [x]) \<and>
     length ys \<le> maxCategoryDepth)"
proof -
  have "(y, k) \<in> set (up E x) \<longleftrightarrow> (\<exists>ys. chain (flipped E) (x # ys) \<and> last (x # ys) = y \<and>
      k = length (x # ys) \<and> length ys \<le> maxCategoryDepth)"
    by (auto simp: up_def parents_flipped levels_children)
  also have "\<dots> \<longleftrightarrow> (\<exists>ys. chain (flipped E) (x # rev ys) \<and> last (x # rev ys) = y \<and>
      k = length (x # ys) \<and> length ys \<le> maxCategoryDepth)"
    by (metis length_Cons length_rev rev_rev_ident)
  also have "\<dots> \<longleftrightarrow> (\<exists>ys. chain E (ys @ [x]) \<and> hd (ys @ [x]) = y \<and> k = length (ys @ [x]) \<and>
      length ys \<le> maxCategoryDepth)"
    using chain_rev [of E "ys @ [x]" for ys] by (auto simp: last_rev hd_append)
  finally show ?thesis .
qed

lemma fold_max_ge: "(b :: nat) \<le> fold max xs b \<and> (k \<in> set xs \<longrightarrow> k \<le> fold max xs b)"
proof (induction xs arbitrary: b)
  case (Cons x xs)
  from Cons.IH [of "max x b"] show ?case by auto
qed simp

lemma max_depth_ge: "(y, k) \<in> set rows \<Longrightarrow> k \<le> max_depth rows"
  using fold_max_ge [of 0 "map snd rows" k] by (force simp: max_depth_def)

section \<open>Nesting\<close>

lemma chain_split:
  "chain (E @ [(p, c)]) xs \<Longrightarrow> chain E xs \<or>
    (\<exists>ys zs. xs = ys @ zs \<and> chain E ys \<and> last ys = p \<and> chain (E @ [(p, c)]) zs \<and> hd zs = c)"
proof (induction "E @ [(p, c)]" xs rule: chain.induct)
  case (3 x y r)
  then have rest: "chain (E @ [(p, c)]) (y # r)" and e: "(x, y) \<in> set E \<or> x = p \<and> y = c" by auto
  from e show ?case
  proof
    assume xy: "(x, y) \<in> set E"
    from "3.hyps" [OF rest] show ?case
    proof
      assume "\<exists>ys zs. y # r = ys @ zs \<and> chain E ys \<and> last ys = p \<and> chain (E @ [(p, c)]) zs \<and> hd zs = c"
      then obtain ys zs where s: "y # r = ys @ zs" "chain E ys" "last ys = p" "chain (E @ [(p, c)]) zs" "hd zs = c"
        by blast
      then have "chain E (x # ys)" using xy by (cases ys) auto
      moreover have "x # y # r = (x # ys) @ zs" "last (x # ys) = p" using s by auto
      ultimately show ?case using s(4,5) by blast
    qed (use xy in simp)
  next
    assume "x = p \<and> y = c"
    then have "x # y # r = [x] @ (y # r)" "chain E [x]" "last [x] = p" "hd (y # r) = c" by auto
    then show ?case using rest by blast
  qed
qed auto

lemma nest_chains_ok:
  assumes ok: "chains_ok E" and no: "\<And>k. (p, k) \<notin> set (down E c)"
    and bound: "max_depth (up E p) + max_depth (down E c) \<le> maxCategoryDepth"
  shows "chains_ok (E @ [(p, c)])"
  unfolding chains_ok_def
proof (intro allI impI)
  fix xs assume "chain (E @ [(p, c)]) xs"
  from chain_split [OF this] show "length xs \<le> maxCategoryDepth"
  proof
    assume "\<exists>ys zs. xs = ys @ zs \<and> chain E ys \<and> last ys = p \<and> chain (E @ [(p, c)]) zs \<and> hd zs = c"
    then obtain ys zs where xs: "xs = ys @ zs" and ys: "chain E ys" "last ys = p"
      and zs: "chain (E @ [(p, c)]) zs" "hd zs = c" by blast
    have zsE: "chain E zs"
      using chain_split [OF zs(1)]
    proof
      assume "\<exists>us vs. zs = us @ vs \<and> chain E us \<and> last us = p \<and> chain (E @ [(p, c)]) vs \<and> hd vs = c"
      then obtain us vs where us: "zs = us @ vs" "chain E us" "last us = p" by blast
      have "hd us = c" using us(1) zs(2) chain_nonempty [OF us(2)] by simp
      then obtain ws where ws: "us = c # ws" using us(2) by (cases us) auto
      have "length us \<le> maxCategoryDepth" using ok us(2) by (simp add: chains_ok_def)
      then have "length ws \<le> maxCategoryDepth" using ws by simp
      moreover have "chain E (c # ws)" "last (c # ws) = p" using us(2,3) ws by blast+
      ultimately have "(p, length (c # ws)) \<in> set (down E c)" unfolding down_iff by blast
      then show ?thesis using no by blast
    qed
    have "length ys \<le> max_depth (up E p)"
    proof (rule max_depth_ge)
      obtain us where us: "ys = us @ [p]" using ys by (metis append_butlast_last_id chain_nonempty)
      have "length ys \<le> maxCategoryDepth" using ok ys(1) by (simp add: chains_ok_def)
      then have "length us \<le> maxCategoryDepth" using us by simp
      then show "(hd ys, length ys) \<in> set (up E p)"
        using ys(1) unfolding up_iff us by blast
    qed
    moreover have "length zs \<le> max_depth (down E c)"
    proof (rule max_depth_ge)
      obtain ws where ws: "zs = c # ws" using zsE zs(2) by (cases zs) auto
      have "length zs \<le> maxCategoryDepth" using ok zsE by (simp add: chains_ok_def)
      then have "length ws \<le> maxCategoryDepth" using ws by simp
      then show "(last zs, length zs) \<in> set (down E c)"
        using zsE unfolding down_iff ws by blast
    qed
    ultimately show ?thesis using bound xs by simp
  qed (use ok in \<open>simp add: chains_ok_def\<close>)
qed

lemma chains_ok_subset: "chains_ok E \<Longrightarrow> set E' \<subseteq> set E \<Longrightarrow> chains_ok E'"
  using chain_mono by (auto simp: chains_ok_def)

lemma relpow_chain: "(x, y) \<in> set E ^^ n \<Longrightarrow> \<exists>ys. chain E (x # ys) \<and> last (x # ys) = y \<and> length ys = n"
proof (induction n arbitrary: x)
  case 0
  then show ?case by (intro exI [of _ "[]"]) simp
next
  case (Suc n)
  then obtain z where z: "(x, z) \<in> set E" "(z, y) \<in> set E ^^ n" by (blast dest: relpow_Suc_D2)
  from Suc.IH [OF z(2)] obtain ys where "chain E (z # ys)" "last (z # ys) = y" "length ys = n" by blast
  then show ?case using z(1) by (intro exI [of _ "z # ys"]) simp
qed

lemma chains_ok_acyclic:
  assumes "chains_ok E"
  shows "acyclic (set E)"
proof (rule acyclicI, intro allI notI)
  fix x assume "(x, x) \<in> (set E)\<^sup>+"
  then obtain n where n: "0 < n" "(x, x) \<in> set E ^^ n" using trancl_power by blast
  have "(x, x) \<in> set E ^^ (n * k)" for k
  proof (induction k)
    case (Suc k)
    have "set E ^^ (n * Suc k) = set E ^^ n O set E ^^ (n * k)" by (simp add: relpow_add)
    then show ?case using Suc n(2) by auto
  qed simp
  then have "(x, x) \<in> set E ^^ (n * Suc maxCategoryDepth)" .
  from relpow_chain [OF this] obtain ys where "chain E (x # ys)" "length ys = n * Suc maxCategoryDepth" by blast
  moreover have "Suc maxCategoryDepth \<le> n * Suc maxCategoryDepth" using n(1) by (cases n) auto
  ultimately show False using assms unfolding chains_ok_def by fastforce
qed

section \<open>Members\<close>

lemma set_grow: "set (grow E xs) = set xs \<union> set E `` set xs"
  by (force simp: grow_def children_def)

lemma set_grows: "set ((grow E ^^ n) [x]) = {y. \<exists>k\<le>n. (x, y) \<in> set E ^^ k}"
proof (induction n)
  case (Suc n)
  have "set ((grow E ^^ Suc n) [x]) = {y. \<exists>k\<le>n. (x, y) \<in> set E ^^ k} \<union> {y. \<exists>k\<le>n. (x, y) \<in> set E ^^ Suc k}"
    using Suc by (auto simp: set_grow)
  also have "\<dots> = {y. \<exists>k\<le>Suc n. (x, y) \<in> set E ^^ k}"
  proof -
    have "(\<exists>k\<le>n. (x, y) \<in> set E ^^ k) \<or> (\<exists>k\<le>n. (x, y) \<in> set E ^^ Suc k) \<longleftrightarrow> (\<exists>k\<le>Suc n. (x, y) \<in> set E ^^ k)" for y
    proof
      assume "\<exists>k\<le>Suc n. (x, y) \<in> set E ^^ k"
      then obtain k where k: "k \<le> Suc n" "(x, y) \<in> set E ^^ k" by blast
      show "(\<exists>k\<le>n. (x, y) \<in> set E ^^ k) \<or> (\<exists>k\<le>n. (x, y) \<in> set E ^^ Suc k)"
        using k by (cases k) (auto intro: exI [of _ 0])
    qed (use Suc_le_mono le_SucI in blast)
    then show ?thesis by blast
  qed
  finally show ?case .
qed simp

lemma set_tree: "set (tree E x) = {y. (x, y) \<in> (set E)\<^sup>*}"
proof -
  have "card (set E) \<le> length E" by (rule card_length)
  then have "(\<exists>k\<le>length E. (x, y) \<in> set E ^^ k) \<longleftrightarrow> (x, y) \<in> (set E)\<^sup>*" for y
    using rtrancl_finite_eq_relpow [of "set E"] by (auto simp: relpow_imp_rtrancl) (meson le_trans)
  then show ?thesis by (simp add: tree_def set_grows)
qed

lemma categoryMembers_iff:
  "a \<in> set (categoryMembers d c) \<longleftrightarrow>
     (\<exists>x. (c, x) \<in> (set (db_edges d))\<^sup>* \<and> (x, a) \<in> set (db_members d))"
  by (force simp: categoryMembers_def set_tree)

lemma distinct_categoryMembers: "distinct (categoryMembers d c)"
  by (simp add: categoryMembers_def)

section \<open>The balances of a category\<close>

text \<open>The totals of one account over a range, summed from its entries: \<open>live\<close> are the entries of the current
  version of a transaction that is pending. Holds are counted only without a range.\<close>

definition effective_within :: "db \<Rightarrow> effectiveRange \<Rightarrow> uuid \<Rightarrow> bool" where
  "effective_within d r i = (case txn_by d i of None \<Rightarrow> False | Some t \<Rightarrow> in_interval r (tr_effectiveAt t))"

definition posted_over :: "db \<Rightarrow> effectiveRange \<Rightarrow> side \<Rightarrow> account_row \<Rightarrow> int" where
  "posted_over d r s a =
     sum_over (\<lambda>p. pr_account p = ac_id a \<and> pr_side p = s \<and> effective_within d r (pr_txn p)) pr_amount (db_postings d)"

definition pending_over :: "db \<Rightarrow> effectiveRange \<Rightarrow> side \<Rightarrow> account_row \<Rightarrow> int" where
  "pending_over d r s a =
     sum_over (\<lambda>e. pe_account e = ac_id a \<and> pe_side e = s \<and> live d e \<and> effective_within d r (pe_txn e))
       pe_amount (db_pending d)"

definition held_over :: "db \<Rightarrow> effectiveRange \<Rightarrow> account_row \<Rightarrow> int" where
  "held_over d r a = (if r = all_time then held_sum d (ac_id a) else 0)"

lemma range_all_time: "from_time r = None \<and> until_time r = None \<longleftrightarrow> r = all_time"
  by (cases r) (simp add: all_time_def)

lemma account_balances_Inr:
  assumes "account_balances a = Inr (po, pe, av)"
  shows "debits po = postedDebits a" "credits po = postedCredits a"
    "debits pe = postedDebits a + pendingDebits a" "credits pe = postedCredits a + pendingCredits a"
    "debits av = (if a_normalSide a = Debit then postedDebits a else postedDebits a + pendingDebits a + held a)"
    "credits av = (if a_normalSide a = Debit then postedCredits a + pendingCredits a + held a else postedCredits a)"
  using assms by (auto simp: account_balances_def account_balance_def amt_add_Inr split: if_splits)

lemma scan_group_Inr:
  "scan_group s pd pc qd qc h = Inr a \<Longrightarrow> a = group_state s pd pc qd qc h"
  by (auto simp: scan_group_def scan_sum_def split: if_splits)

lemma add_balance_Inr:
  "add_balance s b = Inr s' \<Longrightarrow> s' = (fst s + debits b, snd s + credits b)"
  by (auto simp: add_balance_def amt_add_Inr)

definition group_sum :: "(accountState \<Rightarrow> int) \<Rightarrow> accountState res list \<Rightarrow> int" where
  "group_sum f gs = (\<Sum>g\<leftarrow>gs. case g of Inl _ \<Rightarrow> 0 | Inr a \<Rightarrow> f a)"

definition available_debits :: "accountState \<Rightarrow> int" where
  "available_debits a = (if a_normalSide a = Debit then postedDebits a else postedDebits a + pendingDebits a + held a)"

definition available_credits :: "accountState \<Rightarrow> int" where
  "available_credits a = (if a_normalSide a = Debit then postedCredits a + pendingCredits a + held a else postedCredits a)"

lemma add_groups_Inr:
  "add_groups (s1, s2, s3) gs = Inr (r1, r2, r3) \<Longrightarrow>
    r1 = (fst s1 + group_sum postedDebits gs, snd s1 + group_sum postedCredits gs) \<and>
    r2 = (fst s2 + group_sum (\<lambda>a. postedDebits a + pendingDebits a) gs,
      snd s2 + group_sum (\<lambda>a. postedCredits a + pendingCredits a) gs) \<and>
    r3 = (fst s3 + group_sum available_debits gs, snd s3 + group_sum available_credits gs)"
proof (induction gs arbitrary: s1 s2 s3)
  case (Cons g gs)
  obtain a po pe av t1 t2 t3 where g: "g = Inr a" "account_balances a = Inr (po, pe, av)"
    "add_balance s1 po = Inr t1" "add_balance s2 pe = Inr t2" "add_balance s3 av = Inr t3"
    "add_groups (t1, t2, t3) gs = Inr (r1, r2, r3)"
    using Cons.prems by auto
  show ?case
    using Cons.IH [OF g(6)] account_balances_Inr [OF g(2)] g(1) add_balance_Inr [OF g(3)] add_balance_Inr [OF g(4)]
      add_balance_Inr [OF g(5)]
    by (simp add: group_sum_def available_debits_def available_credits_def)
qed (simp add: group_sum_def)

lemma add_groups_ok: "add_groups acc gs = Inr r \<Longrightarrow> \<forall>g \<in> set gs. \<exists>a. g = Inr a"
  by (induction acc gs arbitrary: r rule: add_groups.induct) (auto)

text \<open>The sum of a total over the accounts of a list of ids, each account once.\<close>

definition members_sum :: "db \<Rightarrow> uuid list \<Rightarrow> (account_row \<Rightarrow> int) \<Rightarrow> int" where
  "members_sum d inside f = sum_over (\<lambda>a. ac_id a \<in> set inside) f (db_accounts d)"

definition side_sum :: "db \<Rightarrow> uuid list \<Rightarrow> side \<Rightarrow> (account_row \<Rightarrow> int) \<Rightarrow> int" where
  "side_sum d inside s f = (\<Sum>a\<leftarrow>filter (\<lambda>a. ac_id a \<in> set inside \<and> ac_normalSide a = s) (db_accounts d). f a)"

lemma side_sums:
  "\<forall>a \<in> set (db_accounts d). side_valid (ac_normalSide a) \<Longrightarrow>
    side_sum d inside Debit f + side_sum d inside Credit f = members_sum d inside f"
proof -
  have "(\<Sum>a\<leftarrow>filter (\<lambda>a. P a \<and> ac_normalSide a = Debit) rs. f a) +
      (\<Sum>a\<leftarrow>filter (\<lambda>a. P a \<and> ac_normalSide a = Credit) rs. f a) = sum_over P f rs"
    if "\<forall>a \<in> set rs. side_valid (ac_normalSide a)" for rs and P :: "account_row \<Rightarrow> bool"
    using that by (induction rs) auto
  then show "\<forall>a \<in> set (db_accounts d). side_valid (ac_normalSide a) \<Longrightarrow>
      side_sum d inside Debit f + side_sum d inside Credit f = members_sum d inside f"
    by (simp add: side_sum_def members_sum_def)
qed

text \<open>Rows that belong to accounts can be summed account by account.\<close>

lemma sum_one_account:
  "distinct (map ac_id as) \<Longrightarrow> (\<Sum>a\<leftarrow>filter Q as. if k = ac_id a then n else 0) =
    (if \<exists>a. row_by ac_id as k = Some a \<and> Q a then n else (0 :: int))"
proof (induction as)
  case (Cons a as)
  then have "k = ac_id a \<Longrightarrow> row_by ac_id as k = None" by (auto simp: row_by_None_iff)
  then show ?case using Cons by auto
qed simp

lemma sum_by_account:
  assumes "distinct (map ac_id as)"
  shows "sum_over (\<lambda>x. (\<exists>a. row_by ac_id as (key x) = Some a \<and> Q a) \<and> p x) f xs =
    (\<Sum>a\<leftarrow>filter Q as. sum_over (\<lambda>x. key x = ac_id a \<and> p x) f xs)"
proof (induction xs)
  case (Cons x xs)
  have "(\<Sum>a\<leftarrow>filter Q as. sum_over (\<lambda>x. key x = ac_id a \<and> p x) f (x # xs)) =
      (\<Sum>a\<leftarrow>filter Q as. if key x = ac_id a then if p x then f x else 0 else 0) +
      (\<Sum>a\<leftarrow>filter Q as. sum_over (\<lambda>x. key x = ac_id a \<and> p x) f xs)"
    by (simp only: sum_over_Cons sum_list_addf [symmetric]) (auto intro!: arg_cong [where f = sum_list])
  then show ?case using Cons sum_one_account [OF assms, where Q = Q and k = "key x" and n = "if p x then f x else 0"] by auto
qed (simp add: sum_list_0)

definition side_is :: "db \<Rightarrow> side \<Rightarrow> uuid \<Rightarrow> bool" where
  "side_is d s i = (case account_by d i of None \<Rightarrow> False | Some a \<Rightarrow> ac_normalSide a = s)"

lemma side_is_row:
  "side_is d s i \<and> i \<in> I \<longleftrightarrow>
    (\<exists>a. row_by ac_id (db_accounts d) i = Some a \<and> ac_id a \<in> I \<and> ac_normalSide a = s)"
  by (auto simp: side_is_def account_by_def dest: row_by_SomeD split: option.splits)

lemma posted_range_rows:
  "sum_over (\<lambda>(_, x, _, y, _). x = sd \<and> y = po) (\<lambda>(_, _, n, _, _). n)
     (filter (\<lambda>(i, _, _, _, t). in_interval r t \<and> S i)
       (concat (map (\<lambda>p. case txn_by d (pr_txn p) of
           None \<Rightarrow> [] | Some t \<Rightarrow> [(pr_account p, pr_side p, pr_amount p, True, tr_effectiveAt t)])
         (filter (\<lambda>p. pr_account p \<in> I) ps)))) =
   (if po then sum_over (\<lambda>p. (S (pr_account p) \<and> pr_account p \<in> I) \<and> pr_side p = sd \<and> effective_within d r (pr_txn p))
      pr_amount ps else 0)"
  by (induction ps) (auto simp: effective_within_def split: option.splits)

lemma pending_range_rows:
  "sum_over (\<lambda>(_, x, _, y, _). x = sd \<and> y = po) (\<lambda>(_, _, n, _, _). n)
     (filter (\<lambda>(i, _, _, _, t). in_interval r t \<and> S i)
       (concat (map (\<lambda>e. case txn_by d (pe_txn e) of
           None \<Rightarrow> []
         | Some t \<Rightarrow> if pe_version e = tr_entriesVersion t \<and> tr_status t = Pending
                    then [(pe_account e, pe_side e, pe_amount e, False, tr_effectiveAt t)] else [])
         (filter (\<lambda>e. pe_account e \<in> I) es)))) =
   (if po then 0 else sum_over (\<lambda>e. (S (pe_account e) \<and> pe_account e \<in> I) \<and> pe_side e = sd \<and> live d e \<and>
      effective_within d r (pe_txn e)) pe_amount es)"
proof (induction es)
  case (Cons e es)
  show ?case
  proof (cases "txn_by d (pe_txn e)")
    case None
    then have "\<not> live d e" by (simp add: live_def)
    then show ?thesis using Cons.IH None by (cases po) simp_all
  next
    case (Some t)
    then have l: "(pe_version e = tr_entriesVersion t \<and> tr_status t = Pending) = live d e"
      and w: "effective_within d r (pe_txn e) = in_interval r (tr_effectiveAt t)"
      by (auto simp: live_def effective_within_def)
    show ?thesis
      using Cons.IH by (cases po; cases "live d e"; cases "pe_account e \<in> I") (simp_all add: Some l w)
  qed
qed simp

lemma range_totals:
  assumes "rows_wf d"
  shows "sum_over (\<lambda>(_, x, _, y, _). x = sd \<and> y = po) (\<lambda>(_, _, n, _, _). n)
      (filter (\<lambda>(i, _, _, _, t). in_interval r t \<and> side_is d s i) (range_rows d inside)) =
    side_sum d inside s (if po then posted_over d r sd else pending_over d r sd)"
proof -
  have dist: "distinct (map ac_id (db_accounts d))" using assms by (simp add: rows_wf_def)
  show ?thesis
    unfolding range_rows_def filter_append sum_over_append posted_range_rows pending_range_rows side_is_row
      sum_by_account [OF dist]
    by (cases po) (simp_all add: side_sum_def posted_over_def pending_over_def)
qed

definition category_group :: "db \<Rightarrow> uuid list \<Rightarrow> effectiveRange \<Rightarrow> side \<Rightarrow> accountState res option" where
  "category_group d inside r s = (if r = all_time then account_group d inside s else range_group d inside r s)"

lemma balance_groups_eq: "balance_groups d inside r = List.map_filter (category_group d inside r) [Debit, Credit]"
  unfolding balance_groups_def range_all_time
  by (rule arg_cong [where f = "\<lambda>g. List.map_filter g [Debit, Credit]"]) (simp add: fun_eq_iff category_group_def)

lemma all_time_totals:
  assumes inv: "db_inv d" and a: "a \<in> set (db_accounts d)"
  shows "ac_postedDebits a = posted_over d all_time Debit a" "ac_postedCredits a = posted_over d all_time Credit a"
    "ac_pendingDebits a = pending_over d all_time Debit a" "ac_pendingCredits a = pending_over d all_time Credit a"
    "ac_held a = held_over d all_time a"
proof -
  have b: "row_books [] d a" using db_invD(5) [OF inv] a by (simp add: books_def)
  have "effective_within d all_time (pr_txn p)" if "p \<in> set (db_postings d)" for p
    using db_invD(3) [OF inv] that by (auto simp: journal_inv_def posting_ok_def effective_within_def all_time_def in_interval_def)
  then have "posted_over d all_time s a = posted_sum d (ac_id a) s" for s
    unfolding posted_over_def posted_sum_def by (intro sum_over_cong) auto
  moreover have "live d e \<Longrightarrow> effective_within d all_time (pe_txn e)" for e
    by (auto simp: live_def effective_within_def all_time_def in_interval_def split: option.splits)
  then have "pending_over d all_time s a = pending_sum d (ac_id a) s" for s
    unfolding pending_over_def pending_sum_def by (intro sum_over_cong) auto
  ultimately show "ac_postedDebits a = posted_over d all_time Debit a" "ac_postedCredits a = posted_over d all_time Credit a"
    "ac_pendingDebits a = pending_over d all_time Debit a" "ac_pendingCredits a = pending_over d all_time Credit a"
    "ac_held a = held_over d all_time a"
    using b by (simp_all add: row_books_def held_over_def released_def)
qed

text \<open>One row of either query: the totals of the accounts of one normal side; no row where they are zero.\<close>

lemma category_group_totals:
  fixes inside :: "uuid list" and s :: side
  assumes inv: "db_inv d"
  defines "t \<equiv> side_sum d inside s"
  shows "category_group d inside r s = Some (scan_group s (t (posted_over d r Debit)) (t (posted_over d r Credit))
      (t (pending_over d r Debit)) (t (pending_over d r Credit)) (t (held_over d r))) \<or>
    category_group d inside r s = None \<and> t (posted_over d r Debit) = 0 \<and> t (posted_over d r Credit) = 0 \<and>
      t (pending_over d r Debit) = 0 \<and> t (pending_over d r Credit) = 0 \<and> t (held_over d r) = 0"
proof (cases "r = all_time")
  case True
  let ?rows = "filter (\<lambda>a. ac_id a \<in> set inside \<and> ac_normalSide a = s) (db_accounts d)"
  have "(\<Sum>a\<leftarrow>?rows. f a) = (\<Sum>a\<leftarrow>?rows. g a)" if "\<And>a. a \<in> set (db_accounts d) \<Longrightarrow> f a = g a" for f g :: "account_row \<Rightarrow> int"
    using that by (intro arg_cong [where f = sum_list] map_cong) auto
  note eq = this [OF all_time_totals(1) [OF inv]] this [OF all_time_totals(2) [OF inv]]
    this [OF all_time_totals(3) [OF inv]] this [OF all_time_totals(4) [OF inv]] this [OF all_time_totals(5) [OF inv]]
  show ?thesis using True eq by (simp add: category_group_def account_group_def t_def side_sum_def Let_def)
next
  case False
  have held: "t (held_over d r) = 0"
    using False by (simp add: t_def side_sum_def held_over_def)
  let ?rows = "filter (\<lambda>(i, _, _, _, u). in_interval r u \<and> side_is d s i) (range_rows d inside)"
  have "category_group d inside r s = (if ?rows = [] then None else
      Some (scan_group s (t (posted_over d r Debit)) (t (posted_over d r Credit))
        (t (pending_over d r Debit)) (t (pending_over d r Credit)) 0))"
    using False unfolding t_def category_group_def range_group_def Let_def side_is_def [symmetric]
      range_totals [OF db_invD(2) [OF inv]] by simp
  moreover have "t (if po then posted_over d r sd else pending_over d r sd) = 0" if "?rows = []" for sd po
    using range_totals [OF db_invD(2) [OF inv], of sd po r s inside, unfolded that] by (simp add: t_def)
  from this [of True Debit] this [of True Credit] this [of False Debit] this [of False Credit]
  have "?rows = [] \<Longrightarrow> t (posted_over d r Debit) = 0 \<and> t (posted_over d r Credit) = 0 \<and>
      t (pending_over d r Debit) = 0 \<and> t (pending_over d r Credit) = 0" by simp
  ultimately show ?thesis using held by auto
qed

lemma side_sum_linear:
  "h1 s * side_sum d inside s f1 + h2 s * side_sum d inside s f2 + h3 s * side_sum d inside s f3 +
      h4 s * side_sum d inside s f4 + h5 s * side_sum d inside s f5 =
    side_sum d inside s (\<lambda>a. h1 (ac_normalSide a) * f1 a + h2 (ac_normalSide a) * f2 a + h3 (ac_normalSide a) * f3 a +
      h4 (ac_normalSide a) * f4 a + h5 (ac_normalSide a) * f5 a)"
proof -
  have "h1 s * (\<Sum>a\<leftarrow>rs. f1 a) + h2 s * (\<Sum>a\<leftarrow>rs. f2 a) + h3 s * (\<Sum>a\<leftarrow>rs. f3 a) + h4 s * (\<Sum>a\<leftarrow>rs. f4 a) +
      h5 s * (\<Sum>a\<leftarrow>rs. f5 a) = (\<Sum>a\<leftarrow>rs. h1 (ac_normalSide a) * f1 a + h2 (ac_normalSide a) * f2 a +
      h3 (ac_normalSide a) * f3 a + h4 (ac_normalSide a) * f4 a + h5 (ac_normalSide a) * f5 a)"
    if "\<forall>a \<in> set rs. ac_normalSide a = s" for rs
    using that by (induction rs) (simp_all add: algebra_simps)
  then show ?thesis by (simp add: side_sum_def)
qed

lemma group_sums:
  assumes inv: "db_inv d" and ok: "\<forall>g \<in> set (balance_groups d inside r). \<exists>a. g = Inr a"
    and f: "\<And>s pd pc qd qc h. f (group_state s pd pc qd qc h) =
      h1 s * pd + h2 s * pc + h3 s * qd + h4 s * qc + h5 s * h"
  shows "group_sum f (balance_groups d inside r) = members_sum d inside
    (\<lambda>a. h1 (ac_normalSide a) * posted_over d r Debit a + h2 (ac_normalSide a) * posted_over d r Credit a +
      h3 (ac_normalSide a) * pending_over d r Debit a + h4 (ac_normalSide a) * pending_over d r Credit a +
      h5 (ac_normalSide a) * held_over d r a)" (is "_ = members_sum d inside ?F")
proof -
  have one: "(case category_group d inside r s of None \<Rightarrow> 0 | Some g \<Rightarrow> (case g of Inl _ \<Rightarrow> 0 | Inr a \<Rightarrow> f a)) =
      side_sum d inside s ?F" if s: "s = Debit \<or> s = Credit" for s
    using category_group_totals [OF inv, of inside r s]
  proof (elim disjE conjE)
    assume g: "category_group d inside r s = Some (scan_group s (side_sum d inside s (posted_over d r Debit))
        (side_sum d inside s (posted_over d r Credit)) (side_sum d inside s (pending_over d r Debit))
        (side_sum d inside s (pending_over d r Credit)) (side_sum d inside s (held_over d r)))" (is "_ = Some ?g")
    then have "?g \<in> set (balance_groups d inside r)"
      using s by (auto simp: balance_groups_eq List.map_filter_def)
    then obtain a where a: "?g = Inr a" using ok by blast
    show ?thesis using g a scan_group_Inr [OF a] f side_sum_linear by simp
  qed (simp add: side_sum_linear [symmetric])
  have "\<forall>a \<in> set (db_accounts d). side_valid (ac_normalSide a)"
    using db_invD(1) [OF inv] by (auto simp: accounts_inv_def row_inv_def account_inv_def row_state_def)
  from side_sums [OF this, of inside ?F] show ?thesis
    using one [of Debit] one [of Credit]
    by (simp add: group_sum_def balance_groups_eq List.map_filter_def split: option.splits)
qed

definition available_over :: "db \<Rightarrow> effectiveRange \<Rightarrow> side \<Rightarrow> account_row \<Rightarrow> int" where
  "available_over d r s a =
     posted_over d r s a + (if ac_normalSide a = s then 0 else pending_over d r s a + held_over d r a)"

lemma account_balance_Inr:
  assumes "account_balance a ds cs = Inr b" "0 \<le> ds" "0 \<le> cs"
  shows "debits b = ds \<and> credits b = cs \<and> net b = (if a_normalSide a = Credit then cs - ds else ds - cs)"
proof -
  have "ds \<noteq> minAmount" "cs \<noteq> minAmount" using assms(2,3) by (simp_all add: minAmount_def)
  then show ?thesis using assms(1) by (auto simp: account_balance_def amt_sub_Inr split: if_splits)
qed

lemma over_nonneg:
  assumes "db_inv d"
  shows "0 \<le> posted_over d r s a" "0 \<le> pending_over d r s a" "0 \<le> held_over d r a" "0 \<le> available_over d r s a"
proof -
  have j: "journal_inv d" and h: "holds_inv d" using db_invD [OF assms] by simp_all
  show p: "0 \<le> posted_over d r s a"
    unfolding posted_over_def by (rule sum_over_nonneg) (use j in \<open>force simp: journal_inv_def posting_ok_def\<close>)
  show q: "0 \<le> pending_over d r s a"
    unfolding pending_over_def by (rule sum_over_nonneg) (use j in \<open>force simp: journal_inv_def pending_ok_def\<close>)
  show u: "0 \<le> held_over d r a"
    unfolding held_over_def held_sum_def using h by (auto simp: holds_inv_def hold_ok_def intro!: sum_over_nonneg)
  show "0 \<le> available_over d r s a" using p q u by (simp add: available_over_def)
qed

lemma members_sum_nonneg: "(\<And>a. 0 \<le> f a) \<Longrightarrow> 0 \<le> members_sum d inside f"
  by (simp add: members_sum_def sum_over_nonneg)

definition balance_sum :: "db \<Rightarrow> category \<Rightarrow> (side \<Rightarrow> account_row \<Rightarrow> int) \<Rightarrow> balance \<Rightarrow> bool" where
  "balance_sum d c f b \<longleftrightarrow>
     debits b = members_sum d (categoryMembers d (cg_id c)) (f Debit) \<and>
     credits b = members_sum d (categoryMembers d (cg_id c)) (f Credit) \<and>
     net b = (if cg_normalSide c = Credit then credits b - debits b else debits b - credits b)"

lemma rollUp_sums:
  assumes ru: "rollUp d c r = Inr b" and inv: "db_inv d"
  shows "balance_sum d c (posted_over d r) (b_posted b)"
    and "balance_sum d c (\<lambda>s a. posted_over d r s a + pending_over d r s a) (b_pending b)"
    and "balance_sum d c (available_over d r) (b_available b)"
proof -
  let ?m = "categoryMembers d (cg_id c)"
  let ?gs = "balance_groups d ?m r" and ?v = "group_state (cg_normalSide c) 0 0 0 0 0"
  obtain s1 s2 s3 where ag: "add_groups ((0, 0), (0, 0), (0, 0)) ?gs = Inr (s1, s2, s3)"
    and b: "account_balance ?v (fst s1) (snd s1) = Inr (b_posted b)"
      "account_balance ?v (fst s2) (snd s2) = Inr (b_pending b)"
      "account_balance ?v (fst s3) (snd s3) = Inr (b_available b)"
    using ru by (auto simp: rollUp_def Let_def)
  note g = group_sums [OF inv add_groups_ok [OF ag]]
  note s = add_groups_Inr [OF ag]
  have v: "a_normalSide ?v = cg_normalSide c" by (simp add: group_state_def)
  have side: "side_valid (ac_normalSide a)" if "a \<in> set (db_accounts d)" for a
    using db_invD(1) [OF inv] that by (auto simp: accounts_inv_def row_inv_def account_inv_def row_state_def)
  have "fst s1 = members_sum d ?m (posted_over d r Debit)"
    using s g [of postedDebits "\<lambda>_. 1" "\<lambda>_. 0" "\<lambda>_. 0" "\<lambda>_. 0" "\<lambda>_. 0"] by (simp add: group_state_def)
  moreover have "snd s1 = members_sum d ?m (posted_over d r Credit)"
    using s g [of postedCredits "\<lambda>_. 0" "\<lambda>_. 1" "\<lambda>_. 0" "\<lambda>_. 0" "\<lambda>_. 0"] by (simp add: group_state_def)
  ultimately show "balance_sum d c (posted_over d r) (b_posted b)"
    using account_balance_Inr [OF b(1)] v over_nonneg [OF inv] by (simp add: balance_sum_def members_sum_nonneg)
  have "fst s2 = members_sum d ?m (\<lambda>a. posted_over d r Debit a + pending_over d r Debit a)"
    using s g [of "\<lambda>a. postedDebits a + pendingDebits a" "\<lambda>_. 1" "\<lambda>_. 0" "\<lambda>_. 1" "\<lambda>_. 0" "\<lambda>_. 0"]
    by (simp add: group_state_def)
  moreover have "snd s2 = members_sum d ?m (\<lambda>a. posted_over d r Credit a + pending_over d r Credit a)"
    using s g [of "\<lambda>a. postedCredits a + pendingCredits a" "\<lambda>_. 0" "\<lambda>_. 1" "\<lambda>_. 0" "\<lambda>_. 1" "\<lambda>_. 0"]
    by (simp add: group_state_def)
  ultimately show "balance_sum d c (\<lambda>s a. posted_over d r s a + pending_over d r s a) (b_pending b)"
    using account_balance_Inr [OF b(2)] v over_nonneg [OF inv] by (simp add: balance_sum_def members_sum_nonneg)
  let ?p = "\<lambda>x s. if s = x then 0 else 1 :: int"
  have "fst s3 = members_sum d ?m (available_over d r Debit)"
  proof -
    have "fst s3 = members_sum d ?m (\<lambda>a. posted_over d r Debit a + ?p Debit (ac_normalSide a) * pending_over d r Debit a +
        ?p Debit (ac_normalSide a) * held_over d r a)"
      using s g [of available_debits "\<lambda>_. 1" "\<lambda>_. 0" "?p Debit" "\<lambda>_. 0" "?p Debit"]
      by (simp add: group_state_def available_debits_def)
    then show ?thesis unfolding members_sum_def by (auto simp: available_over_def intro!: sum_over_cong)
  qed
  moreover have "snd s3 = members_sum d ?m (available_over d r Credit)"
  proof -
    let ?q = "\<lambda>s. if s = Debit then 1 else 0 :: int"
    have "snd s3 = members_sum d ?m (\<lambda>a. posted_over d r Credit a + ?q (ac_normalSide a) * pending_over d r Credit a +
        ?q (ac_normalSide a) * held_over d r a)"
      using s g [of available_credits "\<lambda>_. 0" "\<lambda>_. 1" "\<lambda>_. 0" ?q ?q]
      by (simp add: group_state_def available_credits_def)
    then show ?thesis
      unfolding members_sum_def using side by (fastforce simp: available_over_def intro!: sum_over_cong)
  qed
  ultimately show "balance_sum d c (available_over d r) (b_available b)"
    using account_balance_Inr [OF b(3)] v over_nonneg [OF inv] by (simp add: balance_sum_def members_sum_nonneg)
qed

section \<open>The invariant of the graph\<close>

definition graph_inv :: "db \<Rightarrow> bool" where
  "graph_inv d \<longleftrightarrow>
     distinct (map cg_id (db_categories d)) \<and> chains_ok (db_edges d) \<and>
     (\<forall>(p, c) \<in> set (db_edges d). \<exists>x y. row_by cg_id (db_categories d) p = Some x \<and>
        row_by cg_id (db_categories d) c = Some y \<and> cg_ledger x = cg_ledger y \<and> cg_currency x = cg_currency y) \<and>
     (\<forall>(c, a) \<in> set (db_members d). \<exists>x r. row_by cg_id (db_categories d) c = Some x \<and>
        account_by d a = Some r \<and> ac_ledger r = cg_ledger x \<and> ac_currency r = cg_currency x)"

lemma graph_invI:
  assumes "graph_inv d" and "distinct (map cg_id cs)"
    and "set es \<subseteq> set (db_edges d)" and "set ms \<subseteq> set (db_members d)"
    and "\<And>i x. row_by cg_id (db_categories d) i = Some x \<Longrightarrow>
      (\<exists>e \<in> set es. i = fst e \<or> i = snd e) \<or> (\<exists>m \<in> set ms. i = fst m) \<Longrightarrow>
      \<exists>y. row_by cg_id cs i = Some y \<and> cg_ledger y = cg_ledger x \<and> cg_currency y = cg_currency x"
  shows "graph_inv (d\<lparr>db_categories := cs, db_members := ms, db_edges := es\<rparr>)"
proof -
  have acc: "account_by (d\<lparr>db_categories := cs, db_members := ms, db_edges := es\<rparr>) = account_by d"
    by (simp add: account_by_def fun_eq_iff)
  note g = assms(1) [unfolded graph_inv_def]
  have "\<exists>x y. row_by cg_id cs p = Some x \<and> row_by cg_id cs c = Some y \<and> cg_ledger x = cg_ledger y \<and>
      cg_currency x = cg_currency y" if e: "(p, c) \<in> set es" for p c
  proof -
    obtain x y where "row_by cg_id (db_categories d) p = Some x" "row_by cg_id (db_categories d) c = Some y"
      "cg_ledger x = cg_ledger y" "cg_currency x = cg_currency y"
      using g e assms(3) by blast
    then show ?thesis using assms(5) [of p x] assms(5) [of c y] e by fastforce
  qed
  moreover have "\<exists>x r. row_by cg_id cs c = Some x \<and> account_by d a = Some r \<and> ac_ledger r = cg_ledger x \<and>
      ac_currency r = cg_currency x" if m: "(c, a) \<in> set ms" for c a
  proof -
    obtain x r where "row_by cg_id (db_categories d) c = Some x" "account_by d a = Some r"
      "ac_ledger r = cg_ledger x" "ac_currency r = cg_currency x"
      using g m assms(4) by blast
    then show ?thesis using assms(5) [of c x] m by fastforce
  qed
  ultimately show ?thesis
    using chains_ok_subset [OF _ assms(3)] g assms(2) by (auto simp: graph_inv_def acc)
qed

lemma createCategory_inv:
  assumes "createCategory d now newid i = Inr (c, d')" "graph_inv d"
  shows "graph_inv d'"
proof -
  have d': "d' = d\<lparr>db_categories := db_categories d @ [c]\<rparr>" and new: "row_by cg_id (db_categories d) newid = None"
    and cid: "cg_id c = newid"
    using assms(1) by (auto simp: createCategory_def Let_def split: if_splits)
  have "graph_inv (d\<lparr>db_categories := db_categories d @ [c], db_members := db_members d, db_edges := db_edges d\<rparr>)"
    by (rule graph_invI [OF assms(2)])
      (use assms(2) new cid in \<open>auto simp: graph_inv_def row_by_None_iff row_by_append\<close>)
  then show ?thesis by (simp add: d')
qed

lemma updateCategory_row:
  assumes up: "updateCategory d i inp = Inr (c, b, d')" and ne: "d' \<noteq> d"
    and cur: "row_by cg_id (db_categories d) i = Some cur"
  shows "\<exists>n ds m. d' = d\<lparr>db_categories := update_rows (\<lambda>x. cg_id x = i)
      (\<lambda>_. cur\<lparr>cg_name := n, cg_description := ds, cg_metadata := m, cg_version := cg_version cur + 1\<rparr>) (db_categories d)\<rparr>"
proof -
  obtain n ds m where a: "applyUpdate (cg_name cur) (cg_description cur) (cg_metadata cur) inp True = Inr (n, ds, m)"
    using up cur by (cases "applyUpdate (cg_name cur) (cg_description cur) (cg_metadata cur) inp True")
      (auto simp: updateCategory_def queryCategory_def Let_def split: if_splits)
  have "i = cg_id cur" using row_by_SomeD [OF cur] by simp
  then have "d' = d\<lparr>db_categories := update_rows (\<lambda>x. cg_id x = i)
      (\<lambda>_. cur\<lparr>cg_name := n, cg_description := ds, cg_metadata := m, cg_version := cg_version cur + 1\<rparr>) (db_categories d)\<rparr>"
    using up a cur ne by (simp add: updateCategory_def queryCategory_def Let_def split: if_splits sum.splits) fastforce
  then show ?thesis by blast
qed

lemma updateCategory_inv:
  assumes up: "updateCategory d i inp = Inr (c, b, d')" and inv: "graph_inv d"
  shows "graph_inv d'"
proof (cases "d' = d")
  case False
  obtain cur where cur: "row_by cg_id (db_categories d) i = Some cur"
    using up by (auto simp: updateCategory_def queryCategory_def split: option.splits)
  obtain n ds m where d0: "d' = d\<lparr>db_categories := update_rows (\<lambda>x. cg_id x = i)
      (\<lambda>_. cur\<lparr>cg_name := n, cg_description := ds, cg_metadata := m, cg_version := cg_version cur + 1\<rparr>) (db_categories d)\<rparr>"
    using updateCategory_row [OF up False cur] by blast
  define c' where "c' = cur\<lparr>cg_name := n, cg_description := ds, cg_metadata := m, cg_version := cg_version cur + 1\<rparr>"
  have c': "cg_id c' = i" "cg_ledger c' = cg_ledger cur" "cg_currency c' = cg_currency cur"
    using row_by_SomeD [OF cur] by (simp_all add: c'_def)
  have d': "d' = d\<lparr>db_categories := update_rows (\<lambda>x. cg_id x = i) (\<lambda>_. c') (db_categories d)\<rparr>"
    using d0 by (simp only: c'_def)
  have row: "row_by cg_id (update_rows (\<lambda>x. cg_id x = i) (\<lambda>_. c') (db_categories d)) j =
      map_option (\<lambda>x. if cg_id x = i then c' else x) (row_by cg_id (db_categories d) j)" for j
    by (rule row_by_update_rows) (use c' in simp)
  have "graph_inv (d\<lparr>db_categories := update_rows (\<lambda>x. cg_id x = i) (\<lambda>_. c') (db_categories d),
      db_members := db_members d, db_edges := db_edges d\<rparr>)"
  proof (rule graph_invI [OF inv])
    have "map cg_id (update_rows (\<lambda>x. cg_id x = i) (\<lambda>_. c') (db_categories d)) = map cg_id (db_categories d)"
      by (rule map_key_update_rows) (use c' in simp)
    then show "distinct (map cg_id (update_rows (\<lambda>x. cg_id x = i) (\<lambda>_. c') (db_categories d)))"
      using inv by (simp add: graph_inv_def)
    show "\<exists>y. row_by cg_id (update_rows (\<lambda>x. cg_id x = i) (\<lambda>_. c') (db_categories d)) j = Some y \<and>
        cg_ledger y = cg_ledger x \<and> cg_currency y = cg_currency x"
      if "row_by cg_id (db_categories d) j = Some x" for j x
      using that cur c' row_by_SomeD [OF that] by (auto simp: row)
  qed simp_all
  then show ?thesis by (simp add: d')
qed (use inv in simp)

lemma deleteCategory_inv:
  assumes "deleteCategory d i = Inr d'" "graph_inv d"
  shows "graph_inv d'"
proof -
  have d': "d' = d\<lparr>db_categories := filter (\<lambda>x. cg_id x \<noteq> i) (db_categories d),
      db_members := filter (\<lambda>m. fst m \<noteq> i) (db_members d),
      db_edges := filter (\<lambda>e. fst e \<noteq> i \<and> snd e \<noteq> i) (db_edges d)\<rparr>"
    using assms(1) by (auto simp: deleteCategory_def changeGraph_def)
  have row: "row_by cg_id (filter (\<lambda>x. cg_id x \<noteq> i) cs) j = row_by cg_id cs j" if "j \<noteq> i" for j cs
    using that by (induction cs) auto
  show ?thesis
    unfolding d'
  proof (rule graph_invI [OF assms(2)])
    show "distinct (map cg_id (filter (\<lambda>x. cg_id x \<noteq> i) (db_categories d)))"
      using assms(2) by (simp add: graph_inv_def distinct_map_filter)
    fix j x
    assume r: "row_by cg_id (db_categories d) j = Some x"
      and "(\<exists>e \<in> set (filter (\<lambda>e. fst e \<noteq> i \<and> snd e \<noteq> i) (db_edges d)). j = fst e \<or> j = snd e) \<or>
        (\<exists>m \<in> set (filter (\<lambda>m. fst m \<noteq> i) (db_members d)). j = fst m)"
    then have "j \<noteq> i" by auto
    then show "\<exists>y. row_by cg_id (filter (\<lambda>x. cg_id x \<noteq> i) (db_categories d)) j = Some y \<and>
        cg_ledger y = cg_ledger x \<and> cg_currency y = cg_currency x"
      using row [of j "db_categories d"] r by simp
  qed auto
qed

lemma members_only_inv:
  assumes "graph_inv d" "row_by cg_id (db_categories d) c = Some x" "account_by d a = Some r"
    and "ac_ledger r = cg_ledger x" "ac_currency r = cg_currency x"
  shows "graph_inv (d\<lparr>db_members := db_members d @ [(c, a)]\<rparr>)"
proof -
  have "account_by (d\<lparr>db_members := db_members d @ [(c, a)]\<rparr>) = account_by d"
    by (simp add: account_by_def fun_eq_iff)
  then show ?thesis using assms by (simp add: graph_inv_def)
qed

lemma queryAccount_row: "queryAccount d a = Inr acc \<Longrightarrow> account_by d a = Some (acc_row acc)"
  by (auto simp: queryAccount_def found_def scan_row_def scanAccount_def split: if_splits option.splits)

lemma setMember_inv:
  assumes sm: "setMember d c a isMember = Inr (r, d')" and inv: "graph_inv d"
  shows "graph_inv d'"
proof -
  obtain cur where cur: "row_by cg_id (db_categories d) c = Some cur"
    and ch: "set_member_change c a isMember d cur = Inr d'"
    using sm by (auto simp: setMember_def changeGraph_def queryCategory_def split: option.splits)
  show ?thesis
  proof (cases isMember)
    case False
    have "graph_inv (d\<lparr>db_categories := db_categories d, db_members := filter (\<lambda>m. m \<noteq> (c, a)) (db_members d),
        db_edges := db_edges d\<rparr>)"
      by (rule graph_invI [OF inv]) (use inv in \<open>auto simp: graph_inv_def\<close>)
    then show ?thesis using ch False by (auto simp: set_member_change_def)
  next
    case True
    obtain acc where acc: "queryAccount d a = Inr acc"
      "ac_ledger (acc_row acc) = cg_ledger cur" "ac_currency (acc_row acc) = cg_currency cur"
      using ch True by (auto simp: set_member_change_def split: if_splits)
    show ?thesis
    proof (cases "(c, a) \<in> set (db_members d)")
      case False
      then have "d' = d\<lparr>db_members := db_members d @ [(c, a)]\<rparr>"
        using ch True acc by (simp add: set_member_change_def)
      then show ?thesis using members_only_inv [OF inv cur queryAccount_row [OF acc(1)] acc(2,3)] by simp
    qed (use ch True acc inv in \<open>simp add: set_member_change_def\<close>)
  qed
qed

lemma setChild_inv:
  assumes sc: "setChild d p c nested = Inr (r, d')" and inv: "graph_inv d"
  shows "graph_inv d'"
proof -
  obtain x where x: "row_by cg_id (db_categories d) p = Some x"
    and ch: "set_child_change p c nested d x = Inr d'"
    using sc by (auto simp: setChild_def changeGraph_def queryCategory_def split: option.splits)
  show ?thesis
  proof (cases nested)
    case False
    have "graph_inv (d\<lparr>db_categories := db_categories d, db_members := db_members d,
        db_edges := filter (\<lambda>e. e \<noteq> (p, c)) (db_edges d)\<rparr>)"
      by (rule graph_invI [OF inv]) (use inv in \<open>auto simp: graph_inv_def\<close>)
    then show ?thesis using ch False by (auto simp: set_child_change_def)
  next
    case True
    obtain y where y: "row_by cg_id (db_categories d) c = Some y" "cg_ledger y = cg_ledger x"
      "cg_currency y = cg_currency x" and no: "\<not> list_ex (\<lambda>(x, _). x = p) (down (db_edges d) c)"
      and dep: "max_depth (up (db_edges d) p) + max_depth (down (db_edges d) c) \<le> maxCategoryDepth"
      and d': "d' = (if (p, c) \<in> set (db_edges d) then d else d\<lparr>db_edges := db_edges d @ [(p, c)]\<rparr>)"
      using ch True by (auto simp: set_child_change_def queryCategory_def split: option.splits if_splits)
    have no': "\<And>k. (p, k) \<notin> set (down (db_edges d) c)" using no by (auto simp: list_ex_iff)
    have "chains_ok (db_edges d @ [(p, c)])"
      using inv by (intro nest_chains_ok [OF _ no' dep]) (simp add: graph_inv_def)
    moreover have "account_by (d\<lparr>db_edges := db_edges d @ [(p, c)]\<rparr>) = account_by d"
      by (simp add: account_by_def fun_eq_iff)
    ultimately have "graph_inv (d\<lparr>db_edges := db_edges d @ [(p, c)]\<rparr>)"
      using inv x y by (auto simp: graph_inv_def)
    then show ?thesis using d' inv by simp
  qed
qed

end
