(* ===== verification/History_Laws.thy ===== *)
theory History_Laws
  imports History Category_Laws
begin

text \<open>
  What the history shows: the totals of an account over all time, computed from its entries, are the
  ones the account keeps; the totals of two ranges that follow each other add up; the totals behind a
  statement never change once it is made; and the entries listed for a statement are the ones it counted.
\<close>

section \<open>Balances over all time\<close>

lemma scan_sum_Inr: "scan_sum n = Inr m \<longleftrightarrow> m = n \<and> in_range n"
  by (auto simp: scan_sum_def)

lemma scan_sum_ok: "in_range n \<Longrightarrow> scan_sum n = Inr n"
  by (simp add: scan_sum_def)

lemma posted_below_0 [simp]: "posted_below xid 0 t"
  by (simp add: posted_below_def xidBound_def)

lemma in_interval_all_time [simp]: "in_interval all_time t"
  by (simp add: in_interval_def all_time_def)

lemma posted_within_all_time:
  assumes "journal_inv d"
  shows "posted_within d xid 0 i all_time = filter (\<lambda>p. pr_account p = i) (db_postings d)"
proof (unfold posted_within_def, rule filter_cong [OF refl])
  fix p assume "p \<in> set (db_postings d)"
  then obtain t where "txn_by d (pr_txn p) = Some t" using assms by (auto simp: journal_inv_def posting_ok_def)
  then show "(pr_account p = i \<and> (case txn_by d (pr_txn p) of None \<Rightarrow> False
      | Some t \<Rightarrow> in_interval all_time (tr_effectiveAt t) \<and> posted_below xid 0 t)) = (pr_account p = i)" by simp
qed

lemma pending_within_all_time:
  "pending_within d 0 i all_time = filter (\<lambda>e. pe_account e = i \<and> live d e) (db_pending d)"
  unfolding pending_within_def
  by (rule filter_cong [OF refl]) (auto simp: live_def xidBound_def split: option.splits)

lemma row_totals:
  assumes inv: "db_inv d" and r: "account_by d i = Some r"
  shows "selectTotals d xid i all_time 0 = Inr
    \<lparr>to_postedDebits = ac_postedDebits r, to_postedCredits = ac_postedCredits r,
     to_pendingDebits = ac_pendingDebits r, to_pendingCredits = ac_pendingCredits r,
     to_count = length (filter (\<lambda>p. pr_account p = i) (db_postings d))\<rparr>"
proof -
  have r': "r \<in> set (db_accounts d)" "ac_id r = i" using account_by_SomeD [OF r] by simp_all
  have "books [] d" and j: "journal_inv d" and a: "accounts_inv d"
    using inv unfolding db_inv_def db_inv_but_def by blast+
  then have b: "row_books [] d r" and ok: "account_inv (row_state None r)"
    using r'(1) by (auto simp: books_def accounts_inv_def row_inv_def)
  have rng: "in_range (ac_postedDebits r)" "in_range (ac_postedCredits r)" "in_range (ac_pendingDebits r)"
    "in_range (ac_pendingCredits r)"
    using ok by (simp_all add: account_inv_def account_ok_def amount_ok_def row_state_def)
  have "ac_postedDebits r = sum_over (\<lambda>p. pr_side p = Debit) pr_amount (posted_within d xid 0 i all_time)"
    "ac_postedCredits r = sum_over (\<lambda>p. pr_side p = Credit) pr_amount (posted_within d xid 0 i all_time)"
    using b r'(2) by (simp_all add: row_books_def posted_sum_def posted_within_all_time [OF j] sum_over_filter)
  moreover have "ac_pendingDebits r = sum_over (\<lambda>e. pe_side e = Debit) pe_amount (pending_within d 0 i all_time)"
    "ac_pendingCredits r = sum_over (\<lambda>e. pe_side e = Credit) pe_amount (pending_within d 0 i all_time)"
    using b r'(2) by (simp_all add: row_books_def pending_sum_def pending_within_all_time sum_over_filter conj_ac)
  ultimately show ?thesis
    using rng by (simp add: selectTotals_def Let_def scan_sum_ok posted_within_all_time [OF j])
qed

lemma range_truncated_all_time [simp]: "range_truncated all_time = all_time"
  by (simp add: range_truncated_def all_time_def)

lemma validateRange_all_time [simp]: "validateRange all_time = ok"
  by (simp add: validateRange_def all_time_def)

lemma balances_without_holds:
  assumes "account_inv (row_state None r)"
  shows "\<exists>po pe av av'. account_balances (row_state None r) = Inr (po, pe, av) \<and>
    account_balances (group_state (ac_normalSide r) (ac_postedDebits r) (ac_postedCredits r)
      (ac_pendingDebits r) (ac_pendingCredits r) 0) = Inr (po, pe, av')"
proof -
  let ?a = "row_state None r"
  let ?g = "group_state (ac_normalSide r) (ac_postedDebits r) (ac_postedCredits r)
      (ac_pendingDebits r) (ac_pendingCredits r) 0"
  have a: "account_ok ?a" "views_ok ?a" "side_valid (a_normalSide ?a)" using assms by (simp_all add: account_inv_def)
  have g: "account_ok ?g" "views_ok ?g" "side_valid (a_normalSide ?g)"
    using a by (auto simp: account_ok_def views_ok_def outflow_def row_state_def group_state_def amount_ok_def in_range_def
        split: if_splits)
  have va: "\<exists>v. account_views ?a = Inr v \<and> b_posted v = view_of ?a (ac_postedDebits r) (ac_postedCredits r) \<and>
      b_pending v = view_of ?a (ac_postedDebits r + ac_pendingDebits r) (ac_postedCredits r + ac_pendingCredits r)"
    using account_views_total a by (simp add: row_state_def)
  have vg: "\<exists>v. account_views ?g = Inr v \<and> b_posted v = view_of ?a (ac_postedDebits r) (ac_postedCredits r) \<and>
      b_pending v = view_of ?a (ac_postedDebits r + ac_pendingDebits r) (ac_postedCredits r + ac_pendingCredits r)"
    using account_views_total g by (simp add: group_state_def view_of_def row_state_def)
  show ?thesis using va vg by (auto simp: account_views_def)
qed

lemma balancesAt_all_time:
  assumes inv: "db_inv d" and a: "queryAccount d i = Inr a"
  shows "\<exists>b. balancesAt d xid i all_time = Inr b \<and> b_posted b = acc_posted a \<and> b_pending b = acc_pending a"
proof -
  let ?r = "acc_row a"
  have r: "account_by d i = Some ?r" by (rule queryAccount_row [OF a])
  have "accounts_inv d" using inv unfolding db_inv_def db_inv_but_def by blast
  then have ok: "account_inv (row_state None ?r)"
    using account_by_SomeD [OF r] by (auto simp: accounts_inv_def row_inv_def)
  obtain po pe av av' where b: "account_balances (row_state None ?r) = Inr (po, pe, av)"
    "account_balances (group_state (ac_normalSide ?r) (ac_postedDebits ?r) (ac_postedCredits ?r)
      (ac_pendingDebits ?r) (ac_pendingCredits ?r) 0) = Inr (po, pe, av')"
    using balances_without_holds [OF ok] by blast
  have "acc_posted a = po" "acc_pending a = pe"
    using a b(1) by (auto simp: queryAccount_def found_def scan_row_def scanAccount_def split: if_splits option.splits)
  then show ?thesis
    using a b(2) row_totals [OF inv r, of xid] by (simp add: balancesAt_def)
qed

section \<open>Statements\<close>

lemma in_interval_split:
  assumes "f \<le> (u :: gotime)"
  shows "in_interval \<lparr>from_time = None, until_time = Some u\<rparr> t \<longleftrightarrow>
    in_interval \<lparr>from_time = None, until_time = Some f\<rparr> t \<or> in_interval \<lparr>from_time = Some f, until_time = Some u\<rparr> t"
    and "\<not> (in_interval \<lparr>from_time = None, until_time = Some f\<rparr> t \<and>
      in_interval \<lparr>from_time = Some f, until_time = Some u\<rparr> t)"
  using assms by (auto simp: in_interval_def)

text \<open>The total of an account on a side before a time, and the entries of a statement's period.\<close>

definition total_before :: "db \<Rightarrow> (uuid \<Rightarrow> nat) \<Rightarrow> nat \<Rightarrow> uuid \<Rightarrow> gotime \<Rightarrow> side \<Rightarrow> int" where
  "total_before d xid bound i t s =
     sum_over (\<lambda>p. pr_side p = s) pr_amount (posted_within d xid bound i \<lparr>from_time = None, until_time = Some t\<rparr>)"

lemma total_before_period:
  assumes "f \<le> u"
  shows "total_before d xid bound i u s = total_before d xid bound i f s +
    sum_over (\<lambda>p. pr_side p = s) pr_amount (posted_within d xid bound i \<lparr>from_time = Some f, until_time = Some u\<rparr>)"
proof -
  have "sum_over (\<lambda>p. pr_side p = s) pr_amount (filter (\<lambda>p. pr_account p = i \<and>
        (case txn_by d (pr_txn p) of None \<Rightarrow> False
         | Some t \<Rightarrow> in_interval \<lparr>from_time = None, until_time = Some u\<rparr> (tr_effectiveAt t) \<and> posted_below xid bound t)) ps)
      = sum_over (\<lambda>p. pr_side p = s) pr_amount (filter (\<lambda>p. pr_account p = i \<and>
        (case txn_by d (pr_txn p) of None \<Rightarrow> False
         | Some t \<Rightarrow> in_interval \<lparr>from_time = None, until_time = Some f\<rparr> (tr_effectiveAt t) \<and> posted_below xid bound t)) ps)
      + sum_over (\<lambda>p. pr_side p = s) pr_amount (filter (\<lambda>p. pr_account p = i \<and>
        (case txn_by d (pr_txn p) of None \<Rightarrow> False
         | Some t \<Rightarrow> in_interval \<lparr>from_time = Some f, until_time = Some u\<rparr> (tr_effectiveAt t) \<and> posted_below xid bound t)) ps)"
    for ps
  proof (induction ps)
    case (Cons p ps)
    then show ?case
      using in_interval_split [OF assms] by (cases "txn_by d (pr_txn p)") auto
  qed simp
  then show ?thesis by (simp add: total_before_def posted_within_def)
qed

lemma selectTotals_before:
  assumes "selectTotals d xid i \<lparr>from_time = None, until_time = Some t\<rparr> bound = Inr to"
  shows "to_postedDebits to = total_before d xid bound i t Debit"
    and "to_postedCredits to = total_before d xid bound i t Credit"
  using assms by (auto simp: selectTotals_def Let_def scan_sum_Inr total_before_def)

definition statement_ok :: "db \<Rightarrow> (uuid \<Rightarrow> nat) \<Rightarrow> statement_row \<Rightarrow> bool" where
  "statement_ok d xid s \<longleftrightarrow>
     sm_startDebits s = total_before d xid (sm_postedBefore s) (sm_account s) (sm_from s) Debit \<and>
     sm_startCredits s = total_before d xid (sm_postedBefore s) (sm_account s) (sm_from s) Credit \<and>
     sm_endDebits s = total_before d xid (sm_postedBefore s) (sm_account s) (sm_until s) Debit \<and>
     sm_endCredits s = total_before d xid (sm_postedBefore s) (sm_account s) (sm_until s) Credit \<and>
     sm_entryCount s = length (posted_within d xid (sm_postedBefore s) (sm_account s)
       \<lparr>from_time = Some (sm_from s), until_time = Some (sm_until s)\<rparr>)"

lemma createStatement_row:
  assumes "createStatement d xid xmin now newid i = Inr (st, d')"
  shows "d' = d\<lparr>db_statements := db_statements d @ [sm_row st]\<rparr>" "sm_id (sm_row st) = newid"
    "sm_account (sm_row st) = ti_account i" "sm_from (sm_row st) = truncate_us (ti_from i)"
    "sm_until (sm_row st) = truncate_us (ti_until i)" "sm_postedBefore (sm_row st) = xmin"
    "row_by sm_id (db_statements d) newid = None" "sm_from (sm_row st) < sm_until (sm_row st)"
    "scanStatement d (sm_row st) = Inr st" "statement_ok d xid (sm_row st)"
proof -
  let ?f = "truncate_us (ti_from i)" and ?u = "truncate_us (ti_until i)"
  obtain a o1 o2 e1 e2 where
    v: "validateStatement (i\<lparr>ti_from := ?f, ti_until := ?u\<rparr>) = ok" and
    a: "queryAccount d (ti_account i) = Inr a" and
    o1: "selectTotals d xid (ac_id (acc_row a)) \<lparr>from_time = None, until_time = Some ?f\<rparr> xmin = Inr o1" and
    o2: "selectTotals d xid (ac_id (acc_row a)) \<lparr>from_time = Some ?f, until_time = Some ?u\<rparr> xmin = Inr o2" and
    e: "e1 = to_postedDebits o1 + to_postedDebits o2" "e2 = to_postedCredits o1 + to_postedCredits o2" and
    ins: "insertStatement d
       \<lparr>sm_id = newid, sm_ledger = ac_ledger (acc_row a), sm_account = ac_id (acc_row a),
        sm_description = ti_description i, sm_from = ?f, sm_until = ?u, sm_postedBefore = xmin,
        sm_startDebits = to_postedDebits o1, sm_startCredits = to_postedCredits o1, sm_endDebits = e1,
        sm_endCredits = e2, sm_entryCount = to_count o2, sm_createdAt = now\<rparr> = Inr (st, d')"
    using assms by (simp add: createStatement_def Let_def) blast
  let ?s = "\<lparr>sm_id = newid, sm_ledger = ac_ledger (acc_row a), sm_account = ac_id (acc_row a),
        sm_description = ti_description i, sm_from = ?f, sm_until = ?u, sm_postedBefore = xmin,
        sm_startDebits = to_postedDebits o1, sm_startCredits = to_postedCredits o1, sm_endDebits = e1,
        sm_endCredits = e2, sm_entryCount = to_count o2, sm_createdAt = now\<rparr>"
  have id: "ac_id (acc_row a) = ti_account i" using account_by_SomeD [OF queryAccount_row [OF a]] by simp
  have row: "sm_row st = ?s" and new: "row_by sm_id (db_statements d) newid = None"
    and chk: "statement_check ?s" and sc: "scanStatement d ?s = Inr st"
    and d': "d' = d\<lparr>db_statements := db_statements d @ [?s]\<rparr>"
    using ins by (auto simp: insertStatement_def scanStatement_def Let_def split: if_splits option.splits)
  show "d' = d\<lparr>db_statements := db_statements d @ [sm_row st]\<rparr>" "sm_id (sm_row st) = newid"
    "sm_account (sm_row st) = ti_account i" "sm_from (sm_row st) = ?f" "sm_until (sm_row st) = ?u"
    "sm_postedBefore (sm_row st) = xmin" "row_by sm_id (db_statements d) newid = None"
    "scanStatement d (sm_row st) = Inr st"
    using d' new sc id by (simp_all add: row)
  show lt: "sm_from (sm_row st) < sm_until (sm_row st)" using chk by (simp add: row statement_check_def)
  have "?f \<le> ?u" using lt by (simp add: row)
  note period = total_before_period [OF this, of d xid xmin "ti_account i"]
  have o2': "to_postedDebits o2 = sum_over (\<lambda>p. pr_side p = Debit) pr_amount
        (posted_within d xid xmin (ti_account i) \<lparr>from_time = Some ?f, until_time = Some ?u\<rparr>)"
      "to_postedCredits o2 = sum_over (\<lambda>p. pr_side p = Credit) pr_amount
        (posted_within d xid xmin (ti_account i) \<lparr>from_time = Some ?f, until_time = Some ?u\<rparr>)"
      "to_count o2 = length (posted_within d xid xmin (ti_account i) \<lparr>from_time = Some ?f, until_time = Some ?u\<rparr>)"
    using o2 by (auto simp: selectTotals_def Let_def scan_sum_Inr id)
  show "statement_ok d xid (sm_row st)"
    using selectTotals_before [OF o1] o2' e period [of Debit] period [of Credit]
    by (simp add: statement_ok_def row id)
qed

text \<open>What happens after the statement: postings are only added, those of later database transactions,
  and the transactions of the old ones keep their effective time.\<close>

definition posted_later :: "(uuid \<Rightarrow> nat) \<Rightarrow> nat \<Rightarrow> db \<Rightarrow> db \<Rightarrow> bool" where
  "posted_later xid bound d d' \<longleftrightarrow>
     (\<exists>new. db_postings d' = db_postings d @ new \<and>
        (\<forall>p \<in> set new. \<forall>t. txn_by d' (pr_txn p) = Some t \<longrightarrow> bound \<le> xid (tr_id t))) \<and>
     (\<forall>p \<in> set (db_postings d).
        map_option (\<lambda>t. (tr_id t, tr_effectiveAt t)) (txn_by d' (pr_txn p)) =
        map_option (\<lambda>t. (tr_id t, tr_effectiveAt t)) (txn_by d (pr_txn p)))"

lemma posted_within_later:
  assumes later: "posted_later xid bound d d'" and b: "0 < bound"
  shows "posted_within d' xid bound i r = posted_within d xid bound i r"
proof -
  obtain new where new: "db_postings d' = db_postings d @ new"
    and high: "\<And>p t. p \<in> set new \<Longrightarrow> txn_by d' (pr_txn p) = Some t \<Longrightarrow> bound \<le> xid (tr_id t)"
    and old: "\<And>p. p \<in> set (db_postings d) \<Longrightarrow>
      map_option (\<lambda>t. (tr_id t, tr_effectiveAt t)) (txn_by d' (pr_txn p)) =
      map_option (\<lambda>t. (tr_id t, tr_effectiveAt t)) (txn_by d (pr_txn p))"
    using later unfolding posted_later_def by blast
  let ?q = "\<lambda>d p. pr_account p = i \<and> (case txn_by d (pr_txn p) of None \<Rightarrow> False
      | Some t \<Rightarrow> in_interval r (tr_effectiveAt t) \<and> posted_below xid bound t)"
  have "\<not> ?q d' p" if "p \<in> set new" for p
    using high [OF that] b by (cases "txn_by d' (pr_txn p)") (fastforce simp: posted_below_def xidBound_def)+
  then have "filter (?q d') new = []" by (simp add: filter_empty_conv)
  moreover have "filter (?q d') (db_postings d) = filter (?q d) (db_postings d)"
  proof (rule filter_cong [OF refl])
    fix p assume "p \<in> set (db_postings d)"
    from old [OF this] show "?q d' p = ?q d p"
      by (cases "txn_by d' (pr_txn p)"; cases "txn_by d (pr_txn p)") (auto simp: posted_below_def split: option.splits)
  qed
  ultimately show ?thesis by (simp add: posted_within_def new)
qed

lemma statement_ok_later:
  "posted_later xid (sm_postedBefore s) d d' \<Longrightarrow> 0 < sm_postedBefore s \<Longrightarrow> statement_ok d xid s \<Longrightarrow> statement_ok d' xid s"
  by (simp add: statement_ok_def total_before_def posted_within_later)

end
