(* ===== verification/Answers.thy ===== *)
theory Answers
  imports Frame
begin

text \<open>
  What the result of a posting request says of the database: a result that is a transaction names one
  that is stored under the key of its request, that matches the request, and whose entries are those that
  were stored. The lemmas follow a request through \<open>transition\<close>, the loop over a batch, the rows that the
  batch inserts, and back through \<open>selectByKey\<close> to \<open>txn_matches\<close>. The idempotency of posting, the batcher, the
  schedules and the bulk requests rest on them.
\<close>

section \<open>What a change returns matches what was asked\<close>

definition entry_key :: "posting \<Rightarrow> uuid \<times> side \<times> int \<times> string" where
  "entry_key p = (p_account p, p_side p, p_amount p, p_currency p)"

lemma samePostings_cong:
  "map entry_key es = map entry_key es' \<Longrightarrow> samePostings es ps = samePostings es' ps"
proof (induction es ps arbitrary: es' rule: samePostings.induct)
  case (1 e es p ps)
  then obtain x xs where "es' = x # xs" "entry_key x = entry_key e" "map entry_key es = map entry_key xs" by auto
  moreover from this have "samePostings es ps = samePostings xs ps" if "\<not> (p_account e \<noteq> p_account p \<or>
      p_side e \<noteq> p_side p \<or> p_amount e \<noteq> p_amount p)" "\<not> (p_currency p \<noteq> [] \<and> p_currency e \<noteq> [] \<and> p_currency p \<noteq> p_currency e)"
    using 1(1) that by blast
  ultimately show ?case by (simp add: entry_key_def)
qed auto

lemma record_posting_key: "record_posting a p st = Inr (a', p') \<Longrightarrow> entry_key p' = entry_key p"
  by (auto simp: record_posting_def entry_key_def split: if_splits)

lemma add_entry_key:
  assumes "add_entry base st lp p = Inr (lp', q)"
  shows "entry_key q = (p_account p, p_side p, p_amount p, p_currency q) \<and>
    (p_currency p = [] \<or> p_currency q = p_currency p)"
proof -
  obtain a a' where r: "record_posting a (p\<lparr>p_currency := a_currency a\<rparr>) st = Inr (a', q)"
    and c: "p_currency p = [] \<or> p_currency p = a_currency a"
    using assms by (auto simp: add_entry_def Let_def split: if_splits)
  show ?thesis using record_posting_key [OF r] c by (auto simp: entry_key_def)
qed

lemma add_entries_same:
  "add_entries base st lp ps = Inr (lp', qs) \<Longrightarrow> length qs = length ps \<and> samePostings qs ps"
proof (induction ps arbitrary: lp qs)
  case (Cons p ps)
  obtain lp1 q qs' where q: "add_entry base st lp p = Inr (lp1, q)" "add_entries base st lp1 ps = Inr (lp', qs')"
    "qs = q # qs'"
    using Cons.prems by auto
  show ?case using Cons.IH [OF q(2)] add_entry_key [OF q(1)] q(3) by (auto simp: entry_key_def)
qed simp

lemma checkResultingLocks_key: "checkResultingLocks ch ps = Inr qs \<Longrightarrow> map entry_key qs = map entry_key ps"
proof (induction ps arbitrary: qs)
  case (Cons p ps)
  obtain r qs' where "checkResultingLocks ch ps = Inr qs'" "qs = p\<lparr>p_resulting := r\<rparr> # qs'"
    using Cons.prems by (auto split: option.splits)
  then show ?case using Cons.IH by (simp add: entry_key_def)
qed simp

lemma transition_same:
  assumes "transition s c = Inr (s', l, qs)"
  shows "length qs = length (c_add c) \<and> samePostings qs (c_add c)"
proof -
  obtain lp lp' qs0 ch where a: "add_entries (s_accounts s) (c_status c) lp (c_add c) = Inr (lp', qs0)"
    and k: "checkResultingLocks ch qs0 = Inr qs"
    using assms by (auto simp: transition_def Let_def split: if_splits)
  have len: "length qs = length qs0" using arg_cong [OF checkResultingLocks_key [OF k], of length] by simp
  show ?thesis
    using add_entries_same [OF a] len samePostings_cong [OF checkResultingLocks_key [OF k], of "c_add c"] by simp
qed

lemma jsonEqual_self: "jv_blank m \<or> (\<exists>v. decodeJSON m = Some v) \<Longrightarrow> jsonEqual m m"
  using decodeJSON_wf jsonValueEqual_refl by (fastforce simp: jsonEqual_def decodeOrEmpty_def)

lemma normalized_same:
  assumes "jv_blank m \<or> (\<exists>v. decodeJSON m = Some v)"
  shows "jsonEqual (normalizeMetadata m) m"
proof -
  have "jsonEqual m m" using assms by (rule jsonEqual_self)
  moreover have "decodeOrEmpty empty_object = Some (JObj [])" by code_simp
  then have "jv_blank m \<Longrightarrow> decodeOrEmpty empty_object = decodeOrEmpty m" by (simp add: decodeOrEmpty_def)
  moreover have "decodeOrEmpty (m\<lparr>jv_len := k, jv_space := j\<rparr>) = decodeOrEmpty m" for k j
    by (simp add: decodeOrEmpty_def decodeJSON_def jv_blank_def)
  ultimately show ?thesis by (auto simp: normalizeMetadata_def jsonEqual_def)
qed

section \<open>A new transaction matches its request\<close>

definition text_ok :: "postInput \<Rightarrow> bool" where
  "text_ok i \<longleftrightarrow> jv_blank (in_metadata i) \<or> (\<exists>v. decodeJSON (in_metadata i) = Some v)"

lemma valid_text_ok: "validatePost i = ok \<Longrightarrow> text_ok i"
  by (auto simp: text_ok_def validatePost_def validateKeyAndText_def validateText_def unmarshalsObject_def
      split: if_splits option.splits)

lemma text_ok_truncated [simp]: "text_ok (truncated i) = text_ok i"
  by (simp add: text_ok_def truncated_def)

lemma request_same: "text_ok i \<Longrightarrow> sameContent i i"
  by (simp add: text_ok_def sameContent_def jsonEqual_self)

lemma new_txn_matches:
  assumes rc: "run_change s i rel = Inr (s', st, l, ps)" and ti: "text_ok i"
  shows "txn_matches (new_txn i rv x now st l ps) i"
proof (cases "st = Posted")
  case True
  then obtain l' where tr: "transition s \<lparr>c_ledger = 0, c_unpend = [], c_add = in_postings i,
      c_status = input_status i, c_releases = rel\<rparr> = Inr (s', l', ps)"
    and st: "input_status i = Posted"
    using rc by (auto simp: run_change_def split: sum.splits if_splits)
  have "length ps = length (in_postings i)" "samePostings ps (in_postings i)"
    using transition_same [OF tr] by simp_all
  moreover have "jsonEqual (normalizeMetadata (in_metadata i)) (in_metadata i)"
    using ti by (intro normalized_same) (simp add: text_ok_def)
  ultimately show ?thesis
    using True st by (auto simp: txn_matches_def new_txn_def sameContent_def entries_input_def split: option.splits)
next
  case False
  then show ?thesis using request_same [OF ti] by (simp add: txn_matches_def new_txn_def)
qed

section \<open>The loop over a batch\<close>

definition known :: "db \<Rightarrow> string \<Rightarrow> uuid \<Rightarrow> bool" where
  "known d key i \<longleftrightarrow> (\<exists>x. txn_by d i = Some x \<and> tr_key x = key)"

lemma known_keeps: "known d key i \<Longrightarrow> keeps_journal d d' \<Longrightarrow> known d' key i"
  by (fastforce simp: known_def keeps_journal_def same_txn_def)

lemma known_row: "known d key i \<Longrightarrow> \<exists>x \<in> set (db_txns d). tr_id x = i \<and> tr_key x = key"
  unfolding known_def using txn_by_SomeD by blast

lemma known_unique:
  assumes j: "journal_inv d" and "known d key i" "known d key j"
  shows "i = j"
proof -
  obtain x y where x: "x \<in> set (db_txns d)" "tr_id x = i" "tr_key x = key"
    and y: "y \<in> set (db_txns d)" "tr_id y = j" "tr_key y = key"
    using known_row [OF assms(2)] known_row [OF assms(3)] by blast
  have "inj_on tr_key (set (db_txns d))" using j by (simp add: journal_inv_def distinct_map)
  then have "x = y" using x y by (auto dest: inj_onD)
  then show ?thesis using x y by simp
qed

definition answer_ok :: "(string \<times> transaction) list \<Rightarrow> transaction list \<Rightarrow> postInput \<Rightarrow> transaction \<Rightarrow> bool" where
  "answer_ok ex acc i t \<longleftrightarrow>
     (t \<in> set acc \<and> t_key t = in_key i \<or> map_of ex (in_key i) = Some t) \<and>
     (text_ok i \<longrightarrow> txn_matches t (truncated i))"

definition accepted_ok :: "transaction \<Rightarrow> bool" where
  "accepted_ok t \<longleftrightarrow> t_status t = Posted \<and> t_request t = None \<or> t_status t \<noteq> Posted \<and> t_request t \<noteq> None"

definition keyed :: "(string \<times> transaction) list \<Rightarrow> postingRequest list \<Rightarrow> engine \<Rightarrow> bool" where
  "keyed ex reqs e \<longleftrightarrow>
     length (e_results e) = length reqs \<and>
     (\<forall>key j. map_of (e_firstByKey e) key = Some j \<longrightarrow> j < length reqs \<and> in_key (rq_in (reqs ! j)) = key) \<and>
     (\<forall>k < length reqs. \<forall>t r. e_results e ! k = Success t r \<longrightarrow>
        answer_ok ex (concat (map accepted_txn (e_results e))) (rq_in (reqs ! k)) t) \<and>
     (\<forall>t \<in> set (concat (map accepted_txn (e_results e))). accepted_ok t)"

lemma answer_ok_more: "answer_ok ex acc i t \<Longrightarrow> set acc \<subseteq> set acc' \<Longrightarrow> answer_ok ex acc' i t"
  by (auto simp: answer_ok_def)

lemma resolveRequest_answer:
  assumes k: "keyed ex reqs e" and rr: "resolveRequest ex now txnid e (length reqs) req = (e', Success t b)"
  shows "answer_ok ex (concat (map accepted_txn (e_results e @ [Success t b]))) (rq_in req) t \<and>
    (\<not> b \<longrightarrow> accepted_ok t)"
proof -
  let ?key = "in_key (rq_in req)"
  have key: "in_key (truncated (rq_in req)) = ?key" by (simp add: truncated_def)
  show ?thesis
  proof (cases "map_of ex ?key")
    case (Some x)
    then show ?thesis using rr by (auto simp: answer_ok_def resolveRequest_def key Let_def split: if_splits)
  next
    case ex: None
    show ?thesis
    proof (cases "map_of (e_firstByKey e) ?key")
      case (Some j)
      then have j: "j < length reqs" "in_key (rq_in (reqs ! j)) = ?key" using k by (simp_all add: keyed_def)
      obtain b' where b': "e_results e ! j = Success t b'" "txn_matches t (truncated (rq_in req))" "b"
        using rr ex Some by (auto simp: resolveRequest_def key Let_def split: if_splits postingResult.splits)
      have "answer_ok ex (concat (map accepted_txn (e_results e))) (rq_in (reqs ! j)) t"
        using k j(1) b'(1) by (simp add: keyed_def)
      then show ?thesis using j(2) b'(2,3) ex by (auto simp: answer_ok_def)
    next
      case None
      have "accepted_txn (Success t b) \<noteq> []"
        using rr ex None
        by (auto simp: resolveRequest_def resolve_new_def key Let_def split: if_splits list.splits sum.splits option.splits)
      then have nb: "b = False" by (cases b) simp_all
      from rr show ?thesis
      proof (cases rule: resolveRequest_cases)
        case unchanged
        then show ?thesis using nb by simp
      next
        case (changed s' st l ps)
        then have t: "t = new_txn (truncated (rq_in req)) (rq_reverses req) txnid now st l ps" by simp
        have "text_ok (rq_in req) \<longrightarrow> txn_matches t (truncated (rq_in req))"
          using new_txn_matches [OF changed(1)] by (simp add: t)
        moreover have "t_key t = ?key" "accepted_ok t" by (simp_all add: t new_txn_def accepted_ok_def truncated_def)
        ultimately show ?thesis using nb by (simp add: answer_ok_def)
      qed
    qed
  qed
qed

lemma resolveRequest_keyed:
  assumes k: "keyed ex reqs e" and rr: "resolveRequest ex now txnid e (length reqs) req = (e', r)"
  shows "keyed ex (reqs @ [req]) (e'\<lparr>e_results := e_results e' @ [r]\<rparr>)"
proof -
  let ?key = "in_key (rq_in req)" and ?acc = "concat (map accepted_txn (e_results e @ [r]))"
  have res: "e_results e' = e_results e" using rr by (cases rule: resolveRequest_cases) simp_all
  have first: "map_of (e_firstByKey e') = map_of (e_firstByKey e) \<or>
      map_of (e_firstByKey e') = (map_of (e_firstByKey e))(?key \<mapsto> length reqs)"
    using rr
    by (auto simp: resolveRequest_def resolve_new_def truncated_def Let_def update_conv' split: option.splits postingResult.splits
        list.splits if_splits sum.splits)
  have new: "answer_ok ex ?acc (rq_in req) t \<and> (\<not> b \<longrightarrow> accepted_ok t)" if "r = Success t b" for t b
    using resolveRequest_answer [OF k] rr that by blast
  have old: "answer_ok ex ?acc (rq_in (reqs ! n)) t" if "n < length reqs" "e_results e ! n = Success t b" for n t b
  proof -
    have "answer_ok ex (concat (map accepted_txn (e_results e))) (rq_in (reqs ! n)) t"
      using k that by (simp add: keyed_def)
    then show ?thesis by (rule answer_ok_more) auto
  qed
  have "accepted_ok t" if "t \<in> set (accepted_txn r)" for t
    using new that by (cases r rule: accepted_txn.cases) auto
  then have acc: "\<forall>t \<in> set ?acc. accepted_ok t" using k by (auto simp: keyed_def)
  have len: "length (e_results e) = length reqs" using k by (simp add: keyed_def)
  have "answer_ok ex ?acc (rq_in ((reqs @ [req]) ! n)) t"
    if "n < length (reqs @ [req])" "(e_results e @ [r]) ! n = Success t b" for n t b
    using that old new len by (cases "n < length reqs") (auto simp: nth_append less_Suc_eq)
  moreover have "j < length (reqs @ [req]) \<and> in_key (rq_in ((reqs @ [req]) ! j)) = key"
    if "map_of (e_firstByKey e') key = Some j" for key j
    using first that k by (auto simp: keyed_def nth_append less_Suc_eq split: if_splits)
  ultimately show ?thesis using acc len unfolding keyed_def by (simp add: res)
qed

lemma resolve_all_keyed:
  "resolve_all ex now fresh atomic e (length before) reqs = (e', True) \<Longrightarrow> keyed ex before e \<Longrightarrow>
    keyed ex (before @ reqs) e'"
proof (induction reqs arbitrary: e before)
  case (Cons req reqs)
  obtain e1 r where rr: "resolveRequest ex now (fresh (length before)) e (length before) req = (e1, r)" by fastforce
  have "keyed ex (before @ [req]) (e1\<lparr>e_results := e_results e1 @ [r]\<rparr>)"
    by (rule resolveRequest_keyed [OF Cons.prems(2) rr])
  from Cons.IH [OF _ this] Cons.prems(1) rr show ?case by (simp add: Let_def split: if_splits)
qed simp

lemma resolve_all_prefix:
  "resolve_all ex now fresh atomic e n reqs = (e', fin) \<Longrightarrow> prefix (e_results e) (e_results e')"
proof (induction reqs arbitrary: e n)
  case (Cons req reqs)
  obtain e1 r where rr: "resolveRequest ex now (fresh n) e n req = (e1, r)" by fastforce
  let ?e = "e1\<lparr>e_results := e_results e1 @ [r]\<rparr>"
  have res: "e_results e1 = e_results e" using rr by (cases rule: resolveRequest_cases) simp_all
  have "e' = ?e \<or> resolve_all ex now fresh atomic ?e (Suc n) reqs = (e', fin)"
    using Cons.prems rr by (auto simp: Let_def split: if_splits)
  then have "prefix (e_results e @ [r]) (e_results e')" using Cons.IH [of ?e "Suc n"] res by auto
  then show ?case by (rule append_prefixD)
qed simp

text \<open>A request whose key is stored is answered with the stored transaction, wherever it is in a batch.\<close>

lemma resolve_all_known:
  assumes "resolve_all ex now fresh atomic e n reqs = (e', True)" "k < length reqs"
    and "map_of ex (in_key (rq_in (reqs ! k))) = Some x" "txn_matches x (truncated (rq_in (reqs ! k)))"
  shows "e_results e' ! (length (e_results e) + k) = Success x True"
  using assms
proof (induction reqs arbitrary: e n k)
  case (Cons req reqs)
  obtain e1 r where rr: "resolveRequest ex now (fresh n) e n req = (e1, r)" by fastforce
  let ?e = "e1\<lparr>e_results := e_results e1 @ [r]\<rparr>"
  have rest: "resolve_all ex now fresh atomic ?e (Suc n) reqs = (e', True)"
    using Cons.prems(1) rr by (auto simp: Let_def split: if_splits)
  have res: "e_results e1 = e_results e" using rr by (cases rule: resolveRequest_cases) simp_all
  show ?case
  proof (cases k)
    case 0
    have "r = Success x True" using rr Cons.prems(3,4) 0 by (auto simp: resolveRequest_def truncated_def Let_def)
    moreover have "prefix (e_results e @ [r]) (e_results e')" using resolve_all_prefix [OF rest] res by simp
    ultimately show ?thesis using 0 by (auto simp: prefix_def nth_append)
  next
    case (Suc m)
    then show ?thesis using Cons.IH [OF rest, of m] Cons.prems(2-4) res by simp
  qed
qed simp

section \<open>A whole batch\<close>

lemma selectByKey_row:
  "map_of (selectByKey d keys) key = Some t \<Longrightarrow> \<exists>x \<in> set (db_txns d). t = row_txn d x \<and> tr_key x = key"
  by (auto dest!: map_of_SomeD simp: selectByKey_def selectTransactions_def row_txn_def)

lemma distinct_rows_by: "distinct (map tr_id (db_txns d)) \<Longrightarrow> x \<in> set (db_txns d) \<Longrightarrow> txn_by d (tr_id x) = Some x"
  by (simp add: txn_by_def row_by_in_set)

lemma applied_batch:
  assumes ap: "applyRequests d now fresh reqs atomic = Applied rs d'" and inv: "db_inv d"
    and reqs: "\<forall>req \<in> set reqs. request_ok req"
  shows "length rs = length reqs"
    and "db_txns d' = db_txns d @ map (insert_row now) (concat (map accepted_txn rs))"
    and "distinct (map tr_id (db_txns d'))"
    and "db_postings d' = db_postings d @ posting_rows (db_sequence d) (posted_columns (concat (map accepted_txn rs)))"
    and "\<forall>t \<in> set (concat (map accepted_txn rs)). accepted_ok t"
    and "\<forall>k < length reqs. \<forall>t r. rs ! k = Success t r \<longrightarrow>
      answer_ok (selectByKey d (map (\<lambda>r. in_key (rq_in r)) reqs)) (concat (map accepted_txn rs)) (rq_in (reqs ! k)) t"
proof -
  let ?ex = "selectByKey d (map (\<lambda>r. in_key (rq_in r)) reqs)"
  have locked: "invs (s_accounts (lockAccounts d (concat (map request_accounts reqs))))"
    by (rule locked_invs [OF db_invD(1) [OF inv]])
  have ids: "distinct (map tr_id (db_txns d))" using db_invD(3) [OF inv] by (simp add: journal_inv_def)
  have tables: "length rs = length reqs \<and> db_txns d' = db_txns d @ map (insert_row now) (concat (map accepted_txn rs)) \<and>
      distinct (map tr_id (db_txns d')) \<and>
      db_postings d' = db_postings d @ posting_rows (db_sequence d) (posted_columns (concat (map accepted_txn rs)))"
    using ap locked reqs
  proof (cases rule: applyRequests_Applied)
    case empty: nothing
    then have none: "posted_columns (concat (map accepted_txn rs)) = []" by (simp only: columns_Nil)
    show ?thesis unfolding none using empty ids by simp
  next
    case (batch s)
    have dist: "distinct (map fst (s_accounts s))" using batch(2) by (simp add: invs_def accounts_wf_def)
    show ?thesis
      by (rule writeBatch_tables [OF batch(1) db_invD(2) [OF inv] batch(3) dist])
        (use ids batch(7) in \<open>simp add: appended_def\<close>)
  qed
  then show "length rs = length reqs"
    "db_txns d' = db_txns d @ map (insert_row now) (concat (map accepted_txn rs))" "distinct (map tr_id (db_txns d'))"
    "db_postings d' = db_postings d @ posting_rows (db_sequence d) (posted_columns (concat (map accepted_txn rs)))"
    by blast+
  obtain e fin where ra: "resolve_all ?ex now fresh atomic (startEngine d reqs) 0 reqs = (e, fin)" by fastforce
  have e: "fin" "rs = e_results e" using ap ra by (auto simp: applyRequests_def Let_def split: if_splits sum.splits)
  have "keyed ?ex [] (startEngine d reqs)" by (simp add: keyed_def startEngine_def)
  then have "keyed ?ex reqs e"
    using resolve_all_keyed [of ?ex now fresh atomic "startEngine d reqs" "[]" reqs e] ra e(1) by simp
  then show "\<forall>t \<in> set (concat (map accepted_txn rs)). accepted_ok t"
    "\<forall>k < length reqs. \<forall>t r. rs ! k = Success t r \<longrightarrow> answer_ok ?ex (concat (map accepted_txn rs)) (rq_in (reqs ! k)) t"
    unfolding keyed_def e(2) by blast+
qed

text \<open>A result that is a transaction names one that is stored under the key of the request and matches it.\<close>

lemma applied_known:
  assumes ap: "applyRequests d now fresh reqs atomic = Applied rs d'" and inv: "db_inv d"
    and reqs: "\<forall>req \<in> set reqs. request_ok req" and k: "k < length reqs" "rs ! k = Success t r"
  shows "known d' (in_key (rq_in (reqs ! k))) (t_id t)"
    and "text_ok (rq_in (reqs ! k)) \<Longrightarrow> txn_matches t (truncated (rq_in (reqs ! k)))"
proof -
  let ?ex = "selectByKey d (map (\<lambda>r. in_key (rq_in r)) reqs)" and ?key = "in_key (rq_in (reqs ! k))"
  note b = applied_batch [OF ap inv reqs]
  have a: "answer_ok ?ex (concat (map accepted_txn rs)) (rq_in (reqs ! k)) t" using b(6) k by blast
  then show "text_ok (rq_in (reqs ! k)) \<Longrightarrow> txn_matches t (truncated (rq_in (reqs ! k)))" by (simp add: answer_ok_def)
  have "\<exists>x \<in> set (db_txns d'). tr_id x = t_id t \<and> tr_key x = ?key"
    using a unfolding answer_ok_def
  proof (elim conjE disjE)
    assume t: "t \<in> set (concat (map accepted_txn rs))" "t_key t = ?key"
    then have "insert_row now t \<in> set (db_txns d')" using b(2) by auto
    then show ?thesis using t(2) by (force simp: insert_row_def)
  next
    assume "map_of ?ex ?key = Some t"
    from selectByKey_row [OF this] show ?thesis using b(2) by (auto simp: row_txn_def)
  qed
  then show "known d' ?key (t_id t)" unfolding known_def using distinct_rows_by [OF b(3)] by metis
qed

section \<open>What is stored is what was returned\<close>

lemma filter_posting_rows:
  "map (\<lambda>p. (pr_account p, pr_side p, pr_amount p, pr_currency p))
     (filter (\<lambda>p. pr_txn p = i) (posting_rows n (map (\<lambda>q. (i, q)) ps))) = map entry_key ps"
  by (induction ps arbitrary: n) (auto simp: entry_key_def)

lemma posted_rows_of:
  assumes "distinct (map t_id ts)" "t \<in> set ts" "t_status t = Posted"
  shows "map (\<lambda>p. (pr_account p, pr_side p, pr_amount p, pr_currency p))
    (filter (\<lambda>p. pr_txn p = t_id t) (posting_rows n (posted_columns ts))) = map entry_key (t_postings t)"
  using assms
proof (induction ts arbitrary: n)
  case (Cons x ts)
  have app: "posting_rows n (a @ b) = posting_rows n a @ posting_rows (n + length a) b" for n a b
    by (induction n a rule: posting_rows.induct) auto
  have none: "filter (\<lambda>p. pr_txn p = t_id t) (posting_rows n (posted_columns ts)) = []"
    if "t_id t \<notin> t_id ` set ts" for n
    using that columns_txns(1) [of ts] by (intro rows_of_columns(1)) blast
  show ?case
  proof (cases "t = x")
    case True
    then show ?thesis
      using Cons.prems none filter_posting_rows [of "t_id x" n "t_postings x"] by (simp add: app entry_columns_def)
  next
    case False
    then have t: "t \<in> set ts" "t_id x \<noteq> t_id t" using Cons.prems by auto
    then have "filter (\<lambda>p. pr_txn p = t_id t) (posting_rows n (entry_columns x)) = []" for n
      by (intro rows_of_columns(1)) (auto simp: entry_columns_def)
    then show ?thesis using Cons.IH [of n] Cons.IH [of "n + length (entry_columns x)"] Cons.prems t(1) by (simp add: app)
  qed
qed simp

definition stored_as :: "db \<Rightarrow> gotime \<Rightarrow> transaction \<Rightarrow> bool" where
  "stored_as d now t \<longleftrightarrow>
     txn_by d (t_id t) = Some (insert_row now t) \<and> accepted_ok t \<and>
     (t_status t = Posted \<longrightarrow> map entry_key (row_entries d (insert_row now t)) = map entry_key (t_postings t))"

lemma applied_stored:
  assumes ap: "applyRequests d now fresh reqs atomic = Applied rs d'" and inv: "db_inv d"
    and reqs: "\<forall>req \<in> set reqs. request_ok req" and t: "t \<in> set (concat (map accepted_txn rs))"
  shows "stored_as d' now t" "txn_by d (t_id t) = None"
proof -
  note b = applied_batch [OF ap inv reqs]
  have row: "insert_row now t \<in> set (db_txns d')" using b(2) t by auto
  have dist: "distinct (map t_id (concat (map accepted_txn rs)))"
    using b(3) unfolding b(2) by (simp add: comp_def insert_row_def)
  have "t_id t \<notin> tr_id ` set (db_txns d)"
    using b(3) t unfolding b(2) by (force simp: insert_row_def)
  then show new: "txn_by d (t_id t) = None" by (simp add: txn_by_def row_by_None_iff)
  have none: "filter (\<lambda>p. pr_txn p = t_id t) (db_postings d) = []"
    using db_invD(3) [OF inv] new by (fastforce simp: filter_empty_conv journal_inv_def posting_ok_def)
  have key: "entry_key ((plain_posting a s m c)\<lparr>p_balanceAfter := z\<rparr>) = (a, s, m, c)" for a s m c z
    by (simp add: entry_key_def plain_posting_def)
  have "map entry_key (row_entries d' (insert_row now t)) = map entry_key (t_postings t)" if "t_status t = Posted"
    using posted_rows_of [OF dist t that, of "db_sequence d"] that
    by (simp add: row_entries_def insert_row_def b(4) none key comp_def)
  moreover have "accepted_ok t" using b(5) t by blast
  moreover have "txn_by d' (t_id t) = Some (insert_row now t)"
    using distinct_rows_by [OF b(3) row] by (simp add: insert_row_def)
  ultimately show "stored_as d' now t" by (simp add: stored_as_def)
qed

text \<open>Later, the stored transaction still matches what the returned one matched.\<close>

lemma stored_matches:
  assumes st: "stored_as d1 now t" and k: "keeps_journal d1 d2"
  shows "\<exists>r. txn_by d2 (t_id t) = Some r \<and> tr_key r = t_key t \<and>
    (txn_matches t i \<longrightarrow> txn_matches (row_txn d2 r) i) \<and>
    (t_status t \<noteq> Pending \<longrightarrow> r = insert_row now t \<and> row_entries d2 r = row_entries d1 r)"
proof -
  let ?r = "insert_row now t"
  have "same_txn d1 d2 (t_id t) ?r" using st k by (simp add: stored_as_def keeps_journal_def)
  then obtain r where r: "txn_by d2 (t_id t) = Some r" "tr_key r = t_key t" "tr_request r = t_request t"
    "t_status t \<noteq> Pending \<longrightarrow> r = ?r \<and> row_entries d2 r = row_entries d1 r"
    by (auto simp: same_txn_def insert_row_def)
  have "txn_matches (row_txn d2 r) i" if m: "txn_matches t i"
  proof (cases "t_status t = Posted")
    case True
    then have s: "r = ?r" "t_request t = None" "row_entries d2 ?r = row_entries d1 ?r"
      using r(4) st by (auto simp: stored_as_def accepted_ok_def)
    then have e: "map entry_key (row_entries d2 ?r) = map entry_key (t_postings t)"
      using st True by (simp add: stored_as_def)
    have "length (row_entries d2 ?r) = length (t_postings t)" using arg_cong [OF e, of length] by simp
    moreover have "samePostings (row_entries d2 ?r) ps = samePostings (t_postings t) ps" for ps
      by (rule samePostings_cong [OF e])
    ultimately show ?thesis
      using m s by (auto simp: txn_matches_def row_txn_def insert_row_def sameContent_def entries_input_def
          nullString_def split: if_splits option.splits)
  next
    case False
    then obtain q where "t_request t = Some q" using st by (auto simp: stored_as_def accepted_ok_def)
    then show ?thesis using m r(3) by (simp add: txn_matches_def row_txn_def)
  qed
  then show ?thesis using r by blast
qed

lemma selectByKey_hit:
  assumes j: "journal_inv d" and r: "txn_by d i = Some r" and k: "tr_key r \<in> set keys"
  shows "map_of (selectByKey d keys) (tr_key r) = Some (row_txn d r)"
proof (rule map_of_is_SomeI)
  have "map fst (selectByKey d keys) = map tr_key (filter (\<lambda>r. tr_key r \<in> set keys \<and> row_entries d r \<noteq> []) (db_txns d))"
    by (simp add: selectByKey_def selectTransactions_def comp_def)
  then show "distinct (map fst (selectByKey d keys))" using j by (simp add: journal_inv_def distinct_map_filter)
  have "r \<in> set (db_txns d)" using txn_by_SomeD [OF r] by simp
  then have "r \<in> set (db_txns d)" "row_entries d r \<noteq> []" using j by (auto simp: journal_inv_def txn_row_ok_def)
  then show "(tr_key r, row_txn d r) \<in> set (selectByKey d keys)"
    using k by (force simp: selectByKey_def selectTransactions_def)
qed

end
