(* ===== verification/Schedules.thy ===== *)
theory Schedules
  imports Answers
begin

text \<open>
  \<^verbatim>\<open>schedules.go\<close>: a posting request kept until its time. \<open>executeDue\<close> runs the requests that are due
  as one batch, which need not be atomic, and records the outcome of each.
\<close>

definition selectSchedule :: "db \<Rightarrow> uuid \<Rightarrow> schedule res" where
  "selectSchedule d i =
     (case row_by sc_id (db_schedules d) i of None \<Rightarrow> Inl ErrNotFound | Some s \<Rightarrow> Inr s)"

definition checkAccountsExist :: "db \<Rightarrow> posting list \<Rightarrow> unit res" where
  "checkAccountsExist d ps =
     (let ids = sortedUnique (map p_account ps)
      in if length (filter (\<lambda>a. ac_id a \<in> set ids) (db_accounts d)) \<noteq> length ids then Inl ErrNotFound
         else ok)"

text \<open>\<^verbatim>\<open>Transaction{request: &request}.matches(in.PostInput)\<close> reads nothing but the request.\<close>

definition schedule_matches :: "schedule \<Rightarrow> scheduleInput \<Rightarrow> bool" where
  "schedule_matches s i \<longleftrightarrow>
     sc_executeAt s = si_executeAt i \<and>
     in_effectiveAt (sc_request s) = in_effectiveAt (si_post i) \<and>
     input_status (sc_request s) = input_status (si_post i) \<and> sameContent (sc_request s) (si_post i)"

definition new_schedule :: "gotime \<Rightarrow> uuid \<Rightarrow> scheduleInput \<Rightarrow> schedule" where
  "new_schedule now newid i =
     \<lparr>sc_id = newid, sc_key = in_key (si_post i), sc_executeAt = si_executeAt i, sc_request = si_post i,
      sc_status = Scheduled, sc_txn = None, sc_failure = None, sc_createdAt = now, sc_resolvedAt = None\<rparr>"

definition schedule_txn :: "db \<Rightarrow> gotime \<Rightarrow> uuid \<Rightarrow> scheduleInput \<Rightarrow> (schedule \<times> bool \<times> db) res" where
  "schedule_txn d now newid i =
     bindR (validateSchedule i) (\<lambda>_.
     let i = i\<lparr>si_executeAt := truncate_us (si_executeAt i),
               si_post := (si_post i)\<lparr>in_metadata := normalizeMetadata (in_metadata (si_post i))\<rparr>\<rparr>
     in bindR (checkAccountsExist d (in_postings (si_post i))) (\<lambda>_.
        case row_by sc_key (db_schedules d) (in_key (si_post i)) of
          Some s \<Rightarrow> if \<not> schedule_matches s i then Inl ErrIdempotencyConflict else Inr (s, True, d)
        | None \<Rightarrow>
            if row_by sc_id (db_schedules d) newid \<noteq> None then
              Inl (ErrConstraint ''ledger_scheduled_transactions_pkey'')
            else let s = new_schedule now newid i
                 in Inr (s, False, d\<lparr>db_schedules := db_schedules d @ [s]\<rparr>)))"

definition cancelSchedule :: "db \<Rightarrow> gotime \<Rightarrow> uuid \<Rightarrow> (schedule \<times> db) res" where
  "cancelSchedule d now i =
     bindR (selectSchedule d i) (\<lambda>cur.
     if sc_status cur = Canceled then Inr (cur, d)
     else if sc_status cur \<noteq> Scheduled then Inl ErrScheduleNotPending
     else let s = cur\<lparr>sc_status := Canceled, sc_resolvedAt := Some now\<rparr>
          in Inr (s, d\<lparr>db_schedules := update_rows (\<lambda>x. sc_id x = i) (\<lambda>_. s) (db_schedules d)\<rparr>))"

text \<open>\<open>skip\<close> are the rows that others have locked.\<close>

definition due_schedules :: "db \<Rightarrow> gotime \<Rightarrow> (uuid \<Rightarrow> bool) \<Rightarrow> nat \<Rightarrow> schedule list" where
  "due_schedules d now skip limit =
     take limit (sort_key sc_executeAt (sort_key sc_id
       (filter (\<lambda>s. sc_status s = Scheduled \<and> sc_executeAt s \<le> now \<and> \<not> skip (sc_id s)) (db_schedules d))))"

definition schedule_request :: "schedule \<Rightarrow> postingRequest" where
  "schedule_request s = plain_request ((sc_request s)\<lparr>in_key := sc_key s\<rparr>)"

fun schedule_outcome :: "gotime \<Rightarrow> postingResult \<Rightarrow> schedule \<Rightarrow> schedule" where
  "schedule_outcome now (Failure e) s =
     s\<lparr>sc_status := ScheduleFailed, sc_txn := None, sc_failure := Some e, sc_resolvedAt := Some now\<rparr>"
| "schedule_outcome now (Success t r) s =
     s\<lparr>sc_status := Executed, sc_txn := Some (t_id t), sc_failure := None, sc_resolvedAt := Some now\<rparr>"

fun update_schedules :: "gotime \<Rightarrow> (uuid \<times> postingResult) list \<Rightarrow> schedule list \<Rightarrow> schedule list" where
  "update_schedules now [] ss = ss"
| "update_schedules now ((i, r) # os) ss =
     update_schedules now os (update_rows (\<lambda>x. sc_id x = i) (schedule_outcome now r) ss)"

text \<open>A batch that is not atomic is never aborted.\<close>

definition executeDue ::
  "db \<Rightarrow> gotime \<Rightarrow> (nat \<Rightarrow> uuid) \<Rightarrow> (uuid \<Rightarrow> bool) \<Rightarrow> nat \<Rightarrow> (nat \<times> nat \<times> db) res" where
  "executeDue d now fresh skip limit =
     (let due = due_schedules d now skip limit
      in if due = [] then Inr (0, 0, d)
         else case applyRequests d now fresh (map schedule_request due) False of
                NotApplied e \<Rightarrow> Inl e
              | AbortedBatch _ \<Rightarrow> Inl ErrAborted
              | Applied rs d' \<Rightarrow>
                  Inr (length (filter (\<lambda>r. \<not> result_failed r) rs), length (filter result_failed rs),
                    d'\<lparr>db_schedules := update_schedules now (zip (map sc_id due) rs) (db_schedules d')\<rparr>))"

record scheduleList =
  sk_status :: string
  sk_before :: uuid
  sk_limit :: int

fun schedule_status_text :: "schedule_status \<Rightarrow> string" where
  "schedule_status_text Scheduled = ''scheduled''"
| "schedule_status_text Executed = ''executed''"
| "schedule_status_text ScheduleFailed = ''failed''"
| "schedule_status_text Canceled = ''canceled''"

definition listed_schedule :: "scheduleList \<Rightarrow> schedule \<Rightarrow> bool" where
  "listed_schedule i s \<longleftrightarrow> opt_matches (nullString (sk_status i)) (schedule_status_text (sc_status s))"

definition listSchedules :: "db \<Rightarrow> scheduleList \<Rightarrow> schedule list res" where
  "listSchedules d i =
     (if \<not> limit_ok (sk_limit i) then Inl ErrInvalid
      else if sk_status i \<notin> set ([] # map schedule_status_text [Scheduled, Executed, ScheduleFailed, Canceled])
      then Inl ErrInvalid
      else Inr (page sc_id (listed_schedule i) (sk_before i) (nat (sk_limit i)) (db_schedules d)))"

section \<open>Laws\<close>

text \<open>Every stored request is one that validation accepted.\<close>

definition schedules_inv :: "db \<Rightarrow> bool" where
  "schedules_inv d \<longleftrightarrow>
     distinct (map sc_id (db_schedules d)) \<and> distinct (map sc_key (db_schedules d)) \<and>
     (\<forall>s \<in> set (db_schedules d). request_ok (schedule_request s))"

text \<open>The schedules are outside the invariant of the database.\<close>

lemma lookups_schedules [simp]:
  "account_by (d\<lparr>db_schedules := e\<rparr>) = account_by d" "txn_by (d\<lparr>db_schedules := e\<rparr>) = txn_by d"
  "ledger_by (d\<lparr>db_schedules := e\<rparr>) = ledger_by d" "live (d\<lparr>db_schedules := e\<rparr>) = live d"
  "posted_sum (d\<lparr>db_schedules := e\<rparr>) = posted_sum d" "pending_sum (d\<lparr>db_schedules := e\<rparr>) = pending_sum d"
  "held_sum (d\<lparr>db_schedules := e\<rparr>) = held_sum d" "row_entries (d\<lparr>db_schedules := e\<rparr>) = row_entries d"
  "settled_net (d\<lparr>db_schedules := e\<rparr>) = settled_net d"
  by (intro ext, simp add: account_by_def txn_by_def ledger_by_def live_def posted_sum_def pending_sum_def
      held_sum_def row_entries_def settled_net_def)+

lemma db_inv_schedules [simp]: "db_inv (d\<lparr>db_schedules := e\<rparr>) = db_inv d"
  by (simp add: db_inv_def db_inv_but_def accounts_inv_def rows_wf_def books_def row_books_def journal_inv_def
      posting_ok_def pending_ok_def entry_home_def txn_row_ok_def balanced_def holds_inv_def hold_ok_def
      settled_inv_def)

lemma schedule_request_ok:
  assumes "validateSchedule i = ok" "amounts_ok (in_postings (si_post i))"
  shows "request_ok (schedule_request (new_schedule now newid
    (i\<lparr>si_executeAt := x, si_post := (si_post i)\<lparr>in_metadata := m\<rparr>\<rparr>)))"
proof -
  have "request_ok (plain_request (si_post i))"
    using assms by (intro validatePost_request_ok) (auto simp: validateSchedule_def split: if_splits)
  then show ?thesis
    by (auto simp: request_ok_def schedule_request_def plain_request_def new_schedule_def input_status_def
        split: if_splits)
qed

lemma schedule_txn_inv:
  assumes "schedule_txn d now newid i = Inr (s, replayed, d')" "db_inv d" "schedules_inv d"
    and "amounts_ok (in_postings (si_post i))"
  shows "db_inv d' \<and> schedules_inv d'"
proof (cases "row_by sc_key (db_schedules d) (in_key (si_post i))")
  case None
  obtain x m where d': "d' = d\<lparr>db_schedules := db_schedules d @ [new_schedule now newid
        (i\<lparr>si_executeAt := x, si_post := (si_post i)\<lparr>in_metadata := m\<rparr>\<rparr>)]\<rparr>"
    and v: "validateSchedule i = ok" and new: "row_by sc_id (db_schedules d) newid = None"
    using assms(1) None by (auto simp: schedule_txn_def Let_def split: if_splits)
  have "request_ok (schedule_request (new_schedule now newid
      (i\<lparr>si_executeAt := x, si_post := (si_post i)\<lparr>in_metadata := m\<rparr>\<rparr>)))"
    by (rule schedule_request_ok [OF v assms(4)])
  then show ?thesis
    using assms(2,3) new None
    by (simp add: d' schedules_inv_def row_by_None_iff) (auto simp: new_schedule_def)
next
  case (Some s')
  then have "d' = d" using assms(1) by (auto simp: schedule_txn_def Let_def split: if_splits)
  then show ?thesis using assms by simp
qed

lemma schedules_inv_update:
  assumes "schedules_inv d" "\<And>s. sc_id (f s) = sc_id s \<and> sc_key (f s) = sc_key s \<and> sc_request (f s) = sc_request s"
  shows "schedules_inv (d\<lparr>db_schedules := update_rows p f (db_schedules d)\<rparr>)"
  using assms
  by (auto simp: schedules_inv_def map_key_update_rows set_update_rows schedule_request_def)

lemma cancelSchedule_inv:
  assumes "cancelSchedule d now i = Inr (s, d')" "db_inv d" "schedules_inv d"
  shows "db_inv d' \<and> schedules_inv d'"
proof (cases "d' = d")
  case False
  obtain c where c: "row_by sc_id (db_schedules d) i = Some c"
    and d': "d' = d\<lparr>db_schedules := update_rows (\<lambda>x. sc_id x = i)
      (\<lambda>_. c\<lparr>sc_status := Canceled, sc_resolvedAt := Some now\<rparr>) (db_schedules d)\<rparr>"
    using assms(1) False by (auto simp: cancelSchedule_def selectSchedule_def Let_def split: option.splits if_splits)
  have dist: "distinct (map sc_id (db_schedules d))" using assms(3) by (simp add: schedules_inv_def)
  have "update_rows (\<lambda>x. sc_id x = i) (\<lambda>_. c\<lparr>sc_status := Canceled, sc_resolvedAt := Some now\<rparr>) (db_schedules d)
      = update_rows (\<lambda>x. sc_id x = i) (\<lambda>x. x\<lparr>sc_status := Canceled, sc_resolvedAt := Some now\<rparr>) (db_schedules d)"
    using row_by_in_set [OF dist] c by (auto simp: update_rows_def)
  then show ?thesis using assms(2,3) d' schedules_inv_update by simp
qed (use assms in simp)

lemma update_schedules_keeps:
  "schedules_inv d \<Longrightarrow> schedules_inv (d\<lparr>db_schedules := update_schedules now os (db_schedules d)\<rparr>)"
proof (induction os arbitrary: d)
  case (Cons x os)
  obtain i r where x: "x = (i, r)" by fastforce
  have "sc_id (schedule_outcome now r s) = sc_id s \<and> sc_key (schedule_outcome now r s) = sc_key s \<and>
      sc_request (schedule_outcome now r s) = sc_request s" for s
    by (cases r) simp_all
  from schedules_inv_update [OF Cons.prems this]
  have "schedules_inv (d\<lparr>db_schedules := update_rows (\<lambda>x. sc_id x = i) (schedule_outcome now r) (db_schedules d)\<rparr>)" .
  from Cons.IH [OF this] show ?case by (simp add: x)
qed simp

lemma due_schedules_sub: "set (due_schedules d now skip limit) \<subseteq> set (db_schedules d)"
  by (auto simp: due_schedules_def dest!: in_set_takeD)

lemma distinct_due: "schedules_inv d \<Longrightarrow> distinct (map sc_id (due_schedules d now skip limit))"
  by (auto simp: due_schedules_def schedules_inv_def take_map [symmetric] intro!: distinct_take
      distinct_map_filter_key distinct_sort_key)

lemma update_schedules_row:
  assumes "distinct (map fst os)"
  shows "row_by sc_id (update_schedules now os ss) i =
    map_option (\<lambda>s. case map_of os i of None \<Rightarrow> s | Some r \<Rightarrow> schedule_outcome now r s) (row_by sc_id ss i)"
  using assms
proof (induction os arbitrary: ss)
  case Nil
  then show ?case by (simp add: option.map_ident)
next
  case (Cons x os)
  obtain j r where x: "x = (j, r)" by fastforce
  have key: "sc_id (schedule_outcome now r s) = sc_id s" for s by (cases r) simp_all
  have step: "row_by sc_id (update_rows (\<lambda>s. sc_id s = j) (schedule_outcome now r) ss) i =
      map_option (\<lambda>s. if sc_id s = j then schedule_outcome now r s else s) (row_by sc_id ss i)"
    by (rule row_by_update_rows) (rule key)
  have none: "map_of os j = None" using Cons.prems x by (simp add: map_of_eq_None_iff)
  show ?case
    using Cons.IH [of "update_rows (\<lambda>s. sc_id s = j) (schedule_outcome now r) ss"] Cons.prems none
    by (cases "row_by sc_id ss i") (auto simp: x step dest: row_by_SomeD)
qed

lemma executeDue_Applied:
  assumes ex: "executeDue d now fresh skip limit = Inr (n, m, d')" and inv: "db_inv d" "schedules_inv d"
    and due: "due_schedules d now skip limit \<noteq> []"
  obtains rs d1 where
    "applyRequests d now fresh (map schedule_request (due_schedules d now skip limit)) False = Applied rs d1"
    "d' = d1\<lparr>db_schedules := update_schedules now (zip (map sc_id (due_schedules d now skip limit)) rs) (db_schedules d)\<rparr>"
    "n = length (filter (\<lambda>r. \<not> result_failed r) rs)" "m = length (filter result_failed rs)"
    "length rs = length (due_schedules d now skip limit)" "db_inv d1" "db_schedules d1 = db_schedules d"
    "\<And>k t r. k < length rs \<Longrightarrow> rs ! k = Success t r \<Longrightarrow> known d1 (sc_key (due_schedules d now skip limit ! k)) (t_id t)"
proof -
  let ?reqs = "map schedule_request (due_schedules d now skip limit)"
  obtain rs d1 where ap: "applyRequests d now fresh ?reqs False = Applied rs d1"
    and d': "d' = d1\<lparr>db_schedules := update_schedules now (zip (map sc_id (due_schedules d now skip limit)) rs) (db_schedules d1)\<rparr>"
      "n = length (filter (\<lambda>r. \<not> result_failed r) rs)" "m = length (filter result_failed rs)"
    using ex due by (auto simp: executeDue_def Let_def split: applied.splits)
  have ok: "\<forall>req \<in> set ?reqs. request_ok req"
    using inv(2) due_schedules_sub by (fastforce simp: schedules_inv_def)
  have "\<forall>req \<in> set ?reqs. rq_releases req = []" by (simp add: schedule_request_def plain_request_def)
  then have "db_inv d1"
    using applyRequests_inv [OF ap inv(1) ok] releases_by_plain by (simp add: db_inv_def)
  moreover have "length rs = length ?reqs"
    using ap locked_invs [OF db_invD(1) [OF inv(1)]] ok by (cases rule: applyRequests_Applied) simp_all
  moreover have "db_schedules d1 = db_schedules d"
    using fr.applyRequests_stays [OF ap] by (simp add: frame_def tables_def)
  moreover have "known d1 (sc_key (due_schedules d now skip limit ! k)) (t_id t)"
    if "k < length rs" "rs ! k = Success t r" for k t r
    using applied_known(1) [OF ap inv(1) ok, of k t r] that \<open>length rs = length ?reqs\<close>
    by (simp add: schedule_request_def plain_request_def)
  ultimately show ?thesis using that [OF ap] d' by simp
qed

lemma executeDue_inv:
  assumes ex: "executeDue d now fresh skip limit = Inr (n, m, d')" and inv: "db_inv d" "schedules_inv d"
  shows "db_inv d' \<and> schedules_inv d'"
proof (cases "due_schedules d now skip limit = []")
  case True
  then show ?thesis using ex inv by (simp add: executeDue_def)
next
  case False
  show ?thesis
  proof (rule executeDue_Applied [OF ex inv False])
    fix rs d1
    assume d': "d' = d1\<lparr>db_schedules := update_schedules now (zip (map sc_id (due_schedules d now skip limit)) rs) (db_schedules d)\<rparr>"
      and d1: "db_inv d1" "db_schedules d1 = db_schedules d"
    have "schedules_inv d1" using inv(2) d1(2) by (simp add: schedules_inv_def)
    from update_schedules_keeps [OF this] show ?thesis using d1 d' by simp
  qed
qed

lemma executeDue_resolves:
  assumes ex: "executeDue d now fresh skip limit = Inr (n, m, d')" and inv: "db_inv d" "schedules_inv d"
  obtains rs where "length rs = length (due_schedules d now skip limit)"
    "n = length (filter (\<lambda>r. \<not> result_failed r) rs)" "m = length (filter result_failed rs)"
    "due_schedules d now skip limit = [] \<or>
      (\<exists>d1. applyRequests d now fresh (map schedule_request (due_schedules d now skip limit)) False = Applied rs d1)"
    "\<And>k. k < length rs \<Longrightarrow> row_by sc_id (db_schedules d') (sc_id (due_schedules d now skip limit ! k)) =
      Some (schedule_outcome now (rs ! k) (due_schedules d now skip limit ! k))"
    "\<And>k t r. k < length rs \<Longrightarrow> rs ! k = Success t r \<Longrightarrow> known d' (sc_key (due_schedules d now skip limit ! k)) (t_id t)"
    "\<And>i. i \<notin> sc_id ` set (due_schedules d now skip limit) \<Longrightarrow>
      row_by sc_id (db_schedules d') i = row_by sc_id (db_schedules d) i"
proof (cases "due_schedules d now skip limit = []")
  case True
  then show ?thesis using ex by (intro that [of "[]"]) (simp_all add: executeDue_def)
next
  case False
  let ?due = "due_schedules d now skip limit"
  show ?thesis
  proof (rule executeDue_Applied [OF ex inv False])
    fix rs d1
    assume ap: "applyRequests d now fresh (map schedule_request ?due) False = Applied rs d1"
      and d': "d' = d1\<lparr>db_schedules := update_schedules now (zip (map sc_id ?due) rs) (db_schedules d)\<rparr>"
      and nm: "n = length (filter (\<lambda>r. \<not> result_failed r) rs)" "m = length (filter result_failed rs)"
      and len: "length rs = length ?due"
      and kn: "\<And>k t r. k < length rs \<Longrightarrow> rs ! k = Success t r \<Longrightarrow> known d1 (sc_key (?due ! k)) (t_id t)"
    let ?os = "zip (map sc_id ?due) rs"
    have dist: "distinct (map fst ?os)" using distinct_due [OF inv(2)] len by simp
    note row = update_schedules_row [OF dist, of now "db_schedules d"]
    have "row_by sc_id (db_schedules d') (sc_id (?due ! k)) = Some (schedule_outcome now (rs ! k) (?due ! k))"
      if k: "k < length rs" for k
    proof -
      have s: "?due ! k \<in> set (db_schedules d)" using due_schedules_sub [of d now skip limit] k len by auto
      have "distinct (map sc_id (db_schedules d))" using inv(2) by (simp add: schedules_inv_def)
      from row_by_in_set [OF this s] have "row_by sc_id (db_schedules d) (sc_id (?due ! k)) = Some (?due ! k)" .
      moreover have "(sc_id (?due ! k), rs ! k) \<in> set ?os" using k len by (auto simp: in_set_zip intro!: exI [of _ k])
      then have "map_of ?os (sc_id (?due ! k)) = Some (rs ! k)" by (rule map_of_is_SomeI [OF dist])
      ultimately show ?thesis using row [of "sc_id (?due ! k)"] by (simp add: d')
    qed
    moreover have "row_by sc_id (db_schedules d') i = row_by sc_id (db_schedules d) i"
      if i: "i \<notin> sc_id ` set ?due" for i
    proof -
      have "map_of ?os i = None" using i by (auto simp: map_of_eq_None_iff dest: set_zip_leftD)
      then show ?thesis using row [of i] by (simp add: d' option.map_ident)
    qed
    moreover have "known d' (sc_key (?due ! k)) (t_id t)" if "k < length rs" "rs ! k = Success t r" for k t r
      using kn [OF that] by (simp add: d' known_def)
    ultimately show ?thesis using ap len nm by (intro that [of rs]) auto
  qed
qed

end
