(* ===== verification/Service.thy ===== *)
theory Service
  imports Batcher History_Laws Schedules
begin

text \<open>
  The service as a state machine: a step of the database is one operation that succeeded, with the
  time, the new ids and the input it was given; an operation that fails leaves the database as it was.
  An amount of the input is a \<^verbatim>\<open>money.Amount\<close>, whose decoder rejects what is out of range. A settlement
  posts under the text of its own new id, which no client has used as an idempotency key before.
  The retention of the events (\<^verbatim>\<open>Prune\<close>) deletes some of them; which ones is the subject of \<open>Webhooks\<close>.
\<close>

definition empty_db :: db where
  "empty_db = \<lparr>db_ledgers = [], db_currencies = [], db_accounts = [], db_txns = [], db_postings = [],
     db_pending = [], db_holds = [], db_monitors = [], db_settlements = [], db_settled = [], db_events = [],
     db_sequence = 1, db_schedules = [], db_categories = [], db_members = [], db_edges = [], db_statements = []\<rparr>"

inductive service_step :: "db \<Rightarrow> db \<Rightarrow> bool" where
  currency: "createCurrency d now ci = Inr (c, d') \<Longrightarrow> service_step d d'"
| ledger: "createLedger d now newid li = Inr (l, d') \<Longrightarrow> service_step d d'"
| change_ledger: "updateLedger d i u = Inr (l, d') \<Longrightarrow> service_step d d'"
| close_period: "closePeriod d now i closed = Inr (l, d') \<Longrightarrow> service_step d d'"
| account: "createAccount d now newid ai = Inr (a, d') \<Longrightarrow> in_range (ai_overdraftLimit ai) \<Longrightarrow> service_step d d'"
| account_status: "setAccountStatus d now i target = Inr (a, d') \<Longrightarrow> service_step d d'"
| change_account: "updateAccount d i u = Inr (a, d') \<Longrightarrow> service_step d d'"
| batch: "postBatch d now fresh ins atomic = Inr (rs, d') \<Longrightarrow>
    list_all (\<lambda>i. amounts_ok (in_postings i)) ins \<Longrightarrow> service_step d d'"
| group: "runRequests d now fresh (map plain_request ins) False = Inr (grs, d') \<Longrightarrow>
    list_all (\<lambda>i. validatePost i = ok \<and> amounts_ok (in_postings i)) ins \<Longrightarrow> service_step d d'"
| reversal: "reverse d now fresh i ri = Inr (t, replayed, d') \<Longrightarrow> service_step d d'"
| change_pending: "updateTransaction d now i tu = Inr (t, d') \<Longrightarrow>
    (\<forall>ps. tu_postings tu = Some ps \<longrightarrow> amounts_ok ps) \<Longrightarrow> service_step d d'"
| post_pending: "postPending d now i ps = Inr (t, d') \<Longrightarrow> amounts_ok ps \<Longrightarrow> service_step d d'"
| archive: "archiveTransaction d now i = Inr (t, d') \<Longrightarrow> service_step d d'"
| hold: "createHold d now newid hinp = Inr (h, replayed, d') \<Longrightarrow> service_step d d'"
| capture: "captureHold d now clock fresh i cap = Inr (h, replayed, d') \<Longrightarrow> service_step d d'"
| void: "voidHold d now i = Inr (h, replayed, d') \<Longrightarrow> service_step d d'"
| expire: "expireHolds d now skip limit = Inr (n, d') \<Longrightarrow> service_step d d'"
| settlement: "createSettlement d now newid fresh se = Inr (st, replayed, d') \<Longrightarrow>
    key_fresh d (settlement_text newid) \<Longrightarrow> service_step d d'"
| schedule: "schedule_txn d now newid si = Inr (s, replayed, d') \<Longrightarrow>
    amounts_ok (in_postings (si_post si)) \<Longrightarrow> service_step d d'"
| cancel: "cancelSchedule d now i = Inr (s, d') \<Longrightarrow> service_step d d'"
| execute: "executeDue d now fresh skip limit = Inr (n, m, d') \<Longrightarrow> service_step d d'"
| monitor: "createMonitor d now newid mi = Inr (mo, d') \<Longrightarrow> service_step d d'"
| change_monitor: "updateMonitor d i u = Inr (mo, d') \<Longrightarrow> service_step d d'"
| delete_monitor: "deleteMonitor d i = Inr d' \<Longrightarrow> service_step d d'"
| category: "createCategory d now newid gi = Inr (cg, d') \<Longrightarrow> service_step d d'"
| change_category: "updateCategory d i u = Inr (cg, b, d') \<Longrightarrow> service_step d d'"
| delete_category: "deleteCategory d i = Inr d' \<Longrightarrow> service_step d d'"
| membership: "setMember d cgi i isMember = Inr (gr, d') \<Longrightarrow> service_step d d'"
| child: "setChild d cgi i nested = Inr (gr, d') \<Longrightarrow> service_step d d'"
| statement: "createStatement d xid xmin now newid ti = Inr (sm, d') \<Longrightarrow> service_step d d'"
| retention: "subseq evs (db_events d) \<Longrightarrow> service_step d (d\<lparr>db_events := evs\<rparr>)"

definition reachable :: "db \<Rightarrow> bool" where
  "reachable d \<longleftrightarrow> service_step\<^sup>*\<^sup>* empty_db d"

definition service_inv :: "db \<Rightarrow> bool" where
  "service_inv d \<longleftrightarrow> db_inv d \<and> schedules_inv d \<and> graph_inv d"

section \<open>The operations on transactions\<close>

lemma updateTransaction_inv:
  assumes up: "updateTransaction d now i u = Inr (t, d')" and inv: "db_inv d"
    and am: "\<forall>ps. tu_postings u = Some ps \<longrightarrow> amounts_ok ps"
  shows "db_inv d'"
proof -
  have v: "validateUpdateTransaction u = ok" and ch: "changePending d now i (update_edit u) None = Inr (t, d')"
    using up by (auto simp: updateTransaction_def)
  have "entries_ok ps \<and> ps \<noteq> []" if "tu_postings u = Some ps" for ps
    using v am that by (intro validateEntries_entries_ok) (auto simp: validateUpdateTransaction_def split: if_splits)
  then have "update_ok u" by (simp add: update_ok_def)
  then show ?thesis using upd.change_keeps_inv [OF _ inv ch] by simp
qed

lemma postPending_inv:
  assumes pp: "postPending d now i ps = Inr (t, d')" and inv: "db_inv d" and am: "amounts_ok ps"
  shows "db_inv d'"
proof -
  have "validatePartialEntries ps = ok" using pp by (auto simp: postPending_def)
  then have "entries_ok ps"
    using am validateEntries_entries_ok by (auto simp: validatePartialEntries_def entries_ok_def split: if_splits)
  then show ?thesis using part.change_keeps_inv [OF _ inv] pp by (auto simp: postPending_def)
qed

lemma archiveTransaction_inv: "archiveTransaction d now i = Inr (t, d') \<Longrightarrow> db_inv d \<Longrightarrow> db_inv d'"
  unfolding archiveTransaction_def by (rule arch.change_keeps_inv [OF TrueI])

section \<open>What the categories and schedules rely on\<close>

text \<open>Accounts are never removed, and never move to another ledger or currency.\<close>

definition homes_kept :: "db \<Rightarrow> db \<Rightarrow> bool" where
  "homes_kept d d' \<longleftrightarrow>
     (\<forall>i r. account_by d i = Some r \<longrightarrow>
        (\<exists>r'. account_by d' i = Some r' \<and> ac_ledger r' = ac_ledger r \<and> ac_currency r' = ac_currency r))"

definition outside_kept :: "db \<Rightarrow> db \<Rightarrow> bool" where
  "outside_kept d d' \<longleftrightarrow> db_schedules d' = db_schedules d \<and> db_categories d' = db_categories d \<and>
     db_members d' = db_members d \<and> db_edges d' = db_edges d \<and> homes_kept d d'"

lemma outside_kept_inv: "outside_kept d d' \<Longrightarrow> schedules_inv d \<Longrightarrow> graph_inv d \<Longrightarrow> schedules_inv d' \<and> graph_inv d'"
  unfolding outside_kept_def homes_kept_def schedules_inv_def graph_inv_def by (simp, fastforce)

lemma homes_kept_same: "db_accounts d' = db_accounts d \<Longrightarrow> homes_kept d d'"
  by (simp add: homes_kept_def account_by_def)

lemma row_by_keys:
  assumes "map k xs = map k ys" "\<And>x y. k x = k y \<Longrightarrow> key x = key y" "row_by key xs i = Some r"
  shows "\<exists>r'. row_by key ys i = Some r' \<and> k r' = k r"
  using assms(1,3)
proof (induction xs arbitrary: ys)
  case (Cons x xs)
  then obtain y ys' where "ys = y # ys'" "k y = k x" "map k xs = map k ys'" by auto
  then show ?case using Cons assms(2) [of y x] by (auto split: if_splits)
qed simp

lemma frame_outside: "frame d d' \<Longrightarrow> outside_kept d d'"
proof -
  assume f: "frame d d'"
  have "homes_kept d d'"
    unfolding homes_kept_def
  proof (intro allI impI)
    fix i r assume "account_by d i = Some r"
    then have "\<exists>r'. account_by d' i = Some r' \<and> account_key r' = account_key r"
      using row_by_keys [of account_key "db_accounts d" "db_accounts d'" ac_id i r] f
      by (simp add: account_by_def frame_def) (simp add: account_key_def)
    then show "\<exists>r'. account_by d' i = Some r' \<and> ac_ledger r' = ac_ledger r \<and> ac_currency r' = ac_currency r"
      by (auto simp: account_key_def)
  qed
  then show ?thesis using f by (simp add: outside_kept_def frame_def tables_def)
qed

lemma account_by_append:
  "account_by d i = Some r \<Longrightarrow> account_by (d\<lparr>db_accounts := db_accounts d @ [x]\<rparr>) i = Some r"
  by (simp add: account_by_def row_by_append)

lemma createAccount_outside:
  assumes "createAccount d now newid ai = Inr (a, d')"
  shows "outside_kept d d'"
proof -
  obtain c d1 where ins: "insertAccount d now newid ai = Inr (c, d1)" and d': "d' = d1 \<or> (\<exists>evs. d' = emit evs d1)"
    using assms by (auto simp: createAccount_def split: option.splits if_splits)
  have "d1 = d \<or> (\<exists>x. d1 = d\<lparr>db_accounts := db_accounts d @ [x]\<rparr>)"
    using ins by (auto simp: insertAccount_def Let_def split: if_splits)
  then have "outside_kept d d1"
    using account_by_append by (fastforce simp: outside_kept_def homes_kept_def)
  then show ?thesis using d' by (auto simp: outside_kept_def homes_kept_def emit_def)
qed

lemma updateAccountRow_frame:
  assumes up: "updateAccountRow d i f = Inr (a, d')" and keep: "\<And>r. account_key (f r) = account_key r"
    and dist: "distinct (map ac_id (db_accounts d))"
  shows "frame d d'"
proof -
  obtain r where r: "account_by d i = Some r"
    and d': "d' = d\<lparr>db_accounts := update_rows (\<lambda>x. ac_id x = i) (\<lambda>_. f r) (db_accounts d)\<rparr>"
    using up by (auto simp: updateAccountRow_def split: option.splits)
  have "x = r" if "x \<in> set (db_accounts d)" "ac_id x = i" for x
    using row_by_in_set [OF dist that(1)] that(2) r by (simp add: account_by_def)
  then have "map account_key (update_rows (\<lambda>x. ac_id x = i) (\<lambda>_. f r) (db_accounts d)) = map account_key (db_accounts d)"
    using keep by (auto simp: update_rows_def)
  then show ?thesis by (simp add: frame_def tables_def d')
qed

lemma emit_frame_trans: "frame d d' \<Longrightarrow> frame d (emit evs d')"
  using fr.emitted frame_trans by blast

lemma setAccountStatus_frame:
  assumes "setAccountStatus d now i target = Inr (a, d')" "db_inv d"
  shows "frame d d'"
proof (cases "d' = d")
  case False
  then obtain a1 d1 evs where up: "updateAccountStatus d now i target = Inr (a1, d1)" "d' = emit evs d1"
    using assms(1) by (auto simp: setAccountStatus_def split: if_splits)
  have "distinct (map ac_id (db_accounts d))" using db_invD(2) [OF assms(2)] by (simp add: rows_wf_def)
  then have "frame d d1"
    using up(1) unfolding updateAccountStatus_def by (rule updateAccountRow_frame [rotated 2]) (simp add: account_key_def)
  then show ?thesis using up(2) emit_frame_trans by simp
qed simp

lemma updateAccount_frame:
  assumes "updateAccount d i u = Inr (a, d')" "db_inv d"
  shows "frame d d'"
proof (cases "d' = d")
  case False
  then obtain a1 d1 nxt evs where up: "updateAccountDetails d nxt = Inr (a1, d1)" "d' = emit evs d1"
    using assms(1) by (auto simp: updateAccount_def Let_def split: if_splits)
  have "distinct (map ac_id (db_accounts d))" using db_invD(2) [OF assms(2)] by (simp add: rows_wf_def)
  then have "frame d d1"
    using up(1) unfolding updateAccountDetails_def by (rule updateAccountRow_frame [rotated 2]) (simp add: account_key_def)
  then show ?thesis using up(2) emit_frame_trans by simp
qed simp

section \<open>The invariant of the service\<close>

text \<open>The tables that the invariant of the database is about.\<close>

lemma db_inv_cong:
  assumes "db_ledgers d' = db_ledgers d" "db_accounts d' = db_accounts d" "db_txns d' = db_txns d"
    "db_postings d' = db_postings d" "db_pending d' = db_pending d" "db_holds d' = db_holds d"
    "db_settlements d' = db_settlements d" "db_settled d' = db_settled d" "db_sequence d' = db_sequence d"
  shows "db_inv d' = db_inv d"
proof -
  have look: "account_by d' = account_by d" "txn_by d' = txn_by d" "ledger_by d' = ledger_by d"
    using assms by (simp_all add: account_by_def txn_by_def ledger_by_def fun_eq_iff)
  then have "live d' = live d" "row_entries d' = row_entries d"
    using assms by (simp_all add: live_def row_entries_def fun_eq_iff)
  moreover have "posted_sum d' = posted_sum d" "held_sum d' = held_sum d" "settled_net d' = settled_net d"
    using assms by (simp_all add: posted_sum_def held_sum_def settled_net_def fun_eq_iff)
  moreover have "pending_sum d' = pending_sum d"
    using assms \<open>live d' = live d\<close> by (simp add: pending_sum_def fun_eq_iff)
  ultimately show ?thesis
    using assms look
    by (simp add: db_inv_def db_inv_but_def accounts_inv_def rows_wf_def books_def row_books_def journal_inv_def
        posting_ok_def pending_ok_def entry_home_def txn_row_ok_def balanced_def holds_inv_def hold_ok_def
        settled_inv_def)
qed

lemma service_inv_outside: "db_inv d' \<Longrightarrow> outside_kept d d' \<Longrightarrow> service_inv d \<Longrightarrow> service_inv d'"
  using outside_kept_inv by (auto simp: service_inv_def)

lemma service_inv_frame: "frame d d' \<Longrightarrow> db_inv d' \<Longrightarrow> service_inv d \<Longrightarrow> service_inv d'"
  by (rule service_inv_outside [OF _ frame_outside])

lemma createCurrency_outside: "createCurrency d now ci = Inr (c, d') \<Longrightarrow> outside_kept d d'"
  by (auto simp: createCurrency_def insertCurrency_def Let_def outside_kept_def
      intro: homes_kept_same split: option.splits if_splits)

lemma ledger_outside:
  "createLedger d now newid li = Inr (l, d') \<Longrightarrow> outside_kept d d'"
  "updateLedger d i u = Inr (l, d') \<Longrightarrow> outside_kept d d'"
  "closePeriod d now i closed = Inr (l, d') \<Longrightarrow> outside_kept d d'"
  by (auto simp: createLedger_def insertLedger_def updateLedger_def updateLedgerRow_def closePeriod_def
      replaceLedger_def Let_def outside_kept_def intro: homes_kept_same split: if_splits option.splits)

lemma monitors_outside: "outside_kept d (d\<lparr>db_monitors := ms\<rparr>)"
  by (simp add: outside_kept_def homes_kept_same)

lemma createMonitor_outside: "createMonitor d now newid mi = Inr (m, d') \<Longrightarrow> outside_kept d d'"
  by (clarsimp simp: createMonitor_def Let_def monitors_outside)

lemma events_outside: "outside_kept d (d\<lparr>db_events := evs\<rparr>)"
  by (simp add: outside_kept_def homes_kept_same)

lemma events_db_inv: "db_inv (d\<lparr>db_events := evs\<rparr>) = db_inv d"
  by (rule db_inv_cong) simp_all

lemma outside_kept_refl [simp]: "outside_kept d d"
  by (simp add: outside_kept_def homes_kept_same)

lemma updateMonitor_outside: "updateMonitor d i u = Inr (r, d') \<Longrightarrow> outside_kept d d'"
  by (auto simp: updateMonitor_def Let_def monitors_outside split: option.splits)

lemma deleteMonitor_outside: "deleteMonitor d i = Inr d' \<Longrightarrow> outside_kept d d'"
  by (clarsimp simp: deleteMonitor_def monitors_outside split: if_splits)

definition graph_only :: "db \<Rightarrow> db \<Rightarrow> bool" where
  "graph_only d d' \<longleftrightarrow> db_inv d' = db_inv d \<and> db_schedules d' = db_schedules d \<and> appends_journal d d'"

lemma graph_only_update [simp]:
  "graph_only d d" "graph_only d (d\<lparr>db_categories := cs\<rparr>)" "graph_only d (d\<lparr>db_members := ms\<rparr>)"
  "graph_only d (d\<lparr>db_edges := es\<rparr>)" "graph_only d (d\<lparr>db_categories := cs, db_members := ms, db_edges := es\<rparr>)"
  unfolding graph_only_def by (intro conjI db_inv_cong; simp add: appends_journal_same)+

lemma createCategory_graph_only: "createCategory d now newid gi = Inr (c, d') \<Longrightarrow> graph_only d d'"
  by (clarsimp simp: createCategory_def Let_def split: if_splits)

lemma updateCategory_graph_only: "updateCategory d i u = Inr (c, b, d') \<Longrightarrow> graph_only d d'"
proof (cases "d' = d")
  case False
  assume up: "updateCategory d i u = Inr (c, b, d')"
  obtain cur where "row_by cg_id (db_categories d) i = Some cur"
    using up by (auto simp: updateCategory_def queryCategory_def split: option.splits)
  from updateCategory_row [OF up False this] show ?thesis by (metis graph_only_update(2))
qed simp

lemma deleteCategory_graph_only: "deleteCategory d i = Inr d' \<Longrightarrow> graph_only d d'"
  by (clarsimp simp: deleteCategory_def changeGraph_def)

lemma set_member_graph_only: "set_member_change i a isMember d c = Inr d' \<Longrightarrow> graph_only d d'"
  by (clarsimp simp: set_member_change_def split: if_splits)

lemma set_child_graph_only: "set_child_change p i nested d c = Inr d' \<Longrightarrow> graph_only d d'"
  by (clarsimp simp: set_child_change_def split: if_splits)

lemma setMember_graph_only: "setMember d i a isMember = Inr (r, d') \<Longrightarrow> graph_only d d'"
  by (clarsimp simp: setMember_def changeGraph_def set_member_graph_only)

lemma setChild_graph_only: "setChild d i a nested = Inr (r, d') \<Longrightarrow> graph_only d d'"
  by (clarsimp simp: setChild_def changeGraph_def set_child_graph_only)

lemma service_inv_graph_only: "graph_only d d' \<Longrightarrow> graph_inv d' \<Longrightarrow> service_inv d \<Longrightarrow> service_inv d'"
  by (simp add: graph_only_def service_inv_def schedules_inv_def)

lemma graph_inv_schedules [simp]: "graph_inv (d\<lparr>db_schedules := ss\<rparr>) = graph_inv d"
  by (simp add: graph_inv_def)

lemma schedule_graph:
  "schedule_txn d now newid si = Inr (s, replayed, d') \<Longrightarrow> graph_inv d \<Longrightarrow> graph_inv d'"
  "cancelSchedule d now i = Inr (s, d') \<Longrightarrow> graph_inv d \<Longrightarrow> graph_inv d'"
  by (auto simp: schedule_txn_def cancelSchedule_def Let_def split: option.splits if_splits)

lemma executeDue_graph:
  assumes "executeDue d now fresh skip limit = Inr (n, m, d')" "graph_inv d"
  shows "graph_inv d'"
proof (cases "due_schedules d now skip limit = []")
  case False
  then obtain rs d1 ss where ap: "applyRequests d now fresh (map schedule_request (due_schedules d now skip limit)) False = Applied rs d1"
    and d': "d' = d1\<lparr>db_schedules := ss\<rparr>"
    using assms(1) by (auto simp: executeDue_def Let_def split: applied.splits)
  have k: "outside_kept d d1" by (rule frame_outside [OF fr.applyRequests_stays [OF ap]])
  then have "graph_inv d1"
    using assms(2) unfolding outside_kept_def homes_kept_def graph_inv_def by (simp, fastforce)
  then show ?thesis by (simp add: d')
qed (use assms in \<open>simp add: executeDue_def\<close>)

lemma createStatement_outside:
  assumes "createStatement d xid xmin now newid ti = Inr (st, d')"
  shows "outside_kept d d'" "db_inv d' = db_inv d"
  unfolding createStatement_row(1) [OF assms]
  by (simp add: outside_kept_def homes_kept_same) (rule db_inv_cong; simp)

lemma transaction_steps:
  assumes inv: "service_inv d"
  shows "postBatch d now fresh ins atomic = Inr (rs, d') \<Longrightarrow> list_all (\<lambda>i. amounts_ok (in_postings i)) ins \<Longrightarrow> service_inv d'"
    and "runRequests d now fresh (map plain_request ins) False = Inr (grs, d') \<Longrightarrow>
      list_all (\<lambda>i. validatePost i = ok \<and> amounts_ok (in_postings i)) ins \<Longrightarrow> service_inv d'"
    and "reverse d now fresh i ri = Inr (t, replayed, d') \<Longrightarrow> service_inv d'"
    and "updateTransaction d now i tu = Inr (t, d') \<Longrightarrow> (\<forall>ps. tu_postings tu = Some ps \<longrightarrow> amounts_ok ps) \<Longrightarrow> service_inv d'"
    and "postPending d now i ps = Inr (t, d') \<Longrightarrow> amounts_ok ps \<Longrightarrow> service_inv d'"
    and "archiveTransaction d now i = Inr (t, d') \<Longrightarrow> service_inv d'"
proof -
  have d: "db_inv d" using inv by (simp add: service_inv_def)
  show "service_inv d'" if "runRequests d now fresh (map plain_request ins) False = Inr (grs, d')"
    "list_all (\<lambda>i. validatePost i = ok \<and> amounts_ok (in_postings i)) ins"
  proof (rule service_inv_frame [OF fr.runRequests_stays [OF that(1)] runRequests_inv [OF that(1) d] inv])
    show "\<forall>req \<in> set (map plain_request ins). request_ok req"
      using that(2) validatePost_request_ok by (auto simp: list_all_iff)
  qed (simp add: plain_request_def)
qed (use inv in \<open>auto simp: service_inv_def [of d] intro: service_inv_frame [OF _ _ inv] fr.postBatch_stays postBatch_inv
    fr.reverse_stays reverse_inv fr.updateTransaction_stays updateTransaction_inv fr.postPending_stays postPending_inv
    fr.archiveTransaction_stays archiveTransaction_inv\<close>)

lemma hold_steps:
  assumes inv: "service_inv d"
  shows "createHold d now newid hinp = Inr (h, replayed, d') \<Longrightarrow> service_inv d'"
    and "captureHold d now clock fresh i cap = Inr (h, replayed, d') \<Longrightarrow> service_inv d'"
    and "voidHold d now i = Inr (h, replayed, d') \<Longrightarrow> service_inv d'"
    and "expireHolds d now skip limit = Inr (n, d') \<Longrightarrow> service_inv d'"
    and "createSettlement d now newid fresh se = Inr (st, replayed, d') \<Longrightarrow> key_fresh d (settlement_text newid) \<Longrightarrow>
      service_inv d'"
  using inv
  by (auto simp: service_inv_def [of d] intro: service_inv_frame [OF _ _ inv] fr.createHold_stays createHold_inv
    fr.captureHold_stays captureHold_inv fr.voidHold_stays voidHold_inv fr.expireHolds_stays expireHolds_inv
    fr.createSettlement_stays createSettlement_inv)

lemma service_step_inv:
  assumes "service_step d d'" "service_inv d"
  shows "service_inv d'"
proof -
  have i: "db_inv d" "schedules_inv d" "graph_inv d" using assms(2) by (simp_all add: service_inv_def)
  note outside = service_inv_outside [OF _ _ assms(2)] and frame = service_inv_frame [OF _ _ assms(2)]
  show ?thesis
    using assms(1)
  proof cases
    case schedule
    then show ?thesis using schedule_txn_inv i schedule_graph(1) by (auto simp: service_inv_def)
  next
    case cancel
    then show ?thesis using cancelSchedule_inv i schedule_graph(2) by (auto simp: service_inv_def)
  next
    case execute
    then show ?thesis using executeDue_inv i executeDue_graph by (auto simp: service_inv_def)
  next
    case category
    then show ?thesis
      using createCategory_inv i service_inv_graph_only [OF createCategory_graph_only _ assms(2)] by blast
  next
    case change_category
    then show ?thesis
      using updateCategory_inv i service_inv_graph_only [OF updateCategory_graph_only _ assms(2)] by blast
  next
    case delete_category
    then show ?thesis
      using deleteCategory_inv i service_inv_graph_only [OF deleteCategory_graph_only _ assms(2)] by blast
  next
    case membership
    then show ?thesis
      using setMember_inv i service_inv_graph_only [OF setMember_graph_only _ assms(2)] by blast
  next
    case child
    then show ?thesis
      using setChild_inv i service_inv_graph_only [OF setChild_graph_only _ assms(2)] by blast
  next
    case statement
    then show ?thesis using createStatement_outside i outside by blast
  next
    case retention
    then show ?thesis using outside [OF _ events_outside] i events_db_inv by simp
  qed (use i in \<open>blast intro: outside frame createCurrency_outside createCurrency_inv ledger_outside createLedger_inv
      updateLedger_inv closePeriod_inv createAccount_outside createAccount_inv setAccountStatus_frame setAccountStatus_inv
      updateAccount_frame updateAccount_inv createMonitor_outside updateMonitor_outside deleteMonitor_outside
      createMonitor_inv updateMonitor_inv deleteMonitor_inv
      transaction_steps [OF assms(2)] hold_steps [OF assms(2)]\<close>)+
qed

lemma chains_ok_Nil: "chains_ok []"
proof -
  have "length xs \<le> 1" if "chain [] xs" for xs
    using that by (cases xs rule: remdups_adj.cases) auto
  then show ?thesis by (fastforce simp: chains_ok_def maxCategoryDepth_def)
qed

lemma empty_db_inv: "service_inv empty_db"
  by (simp add: service_inv_def empty_db_def db_inv_def db_inv_but_def accounts_inv_def rows_wf_def books_def
      journal_inv_def balanced_def running_def numbered_def holds_inv_def settled_inv_def schedules_inv_def
      graph_inv_def chains_ok_Nil)

lemma reachable_inv: "reachable d \<Longrightarrow> service_inv d"
  unfolding reachable_def
  by (induction rule: rtranclp_induct) (auto simp: empty_db_inv intro: service_step_inv)

end
