(* ===== verification/Sample_Service.thy ===== *)
theory Sample_Service
  imports Service
begin

text \<open>
  A small service on which the properties are applied: a currency, a ledger, a cash account and a
  customer's account, then a deposit of 100. The states are reached by operations of the service.
\<close>

definition sample_post :: "string \<Rightarrow> txn_status \<Rightarrow> posting list \<Rightarrow> postInput" where
  "sample_post k st ps = \<lparr>in_key = k, in_description = [], in_metadata = no_jvalue, in_postings = ps,
     in_status = st, in_effectiveAt = None, in_externalID = [], in_archiveOnLockFailure = False\<rparr>"

definition sample_acc :: "string \<Rightarrow> side \<Rightarrow> bool \<Rightarrow> accountInput" where
  "sample_acc c s neg = \<lparr>ai_ledger = 1, ai_code = c, ai_name = [], ai_description = [], ai_metadata = no_jvalue,
     ai_currency = ''EUR'', ai_normalSide = s, ai_allowNegative = neg, ai_overdraftLimit = 0\<rparr>"

definition sample_cash :: account_row where
  "sample_cash = new_account 1000 11 (sample_acc ''c'' Debit True)"

definition sample_customer :: account_row where
  "sample_customer = new_account 1000 12 (sample_acc ''a'' Credit False)"

definition sample_ledgers :: db where
  "sample_ledgers = empty_db\<lparr>db_currencies := [\<lparr>cur_code = ''EUR'', cur_exponent = 2, cur_createdAt = 1000\<rparr>],
     db_ledgers := [\<lparr>l_id = 1, l_name = ''L'', l_description = [], l_metadata = normalizeMetadata no_jvalue,
       l_closedBefore = None, l_version = 0, l_createdAt = 1000\<rparr>]\<rparr>"

definition sample_accounts :: db where
  "sample_accounts = sample_ledgers\<lparr>db_accounts := [sample_cash, sample_customer],
     db_events := [AccountEvent ''account.created'' sample_cash, AccountEvent ''account.created'' sample_customer]\<rparr>"

lemma sample_ledgers_reachable: "reachable sample_ledgers"
proof -
  let ?d = "empty_db\<lparr>db_currencies := [\<lparr>cur_code = ''EUR'', cur_exponent = 2, cur_createdAt = 1000\<rparr>]\<rparr>"
  have "validateCurrency \<lparr>ci_code = ''EUR'', ci_exponent = 2\<rparr> = ok" by code_simp
  then have "createCurrency empty_db 1000 \<lparr>ci_code = ''EUR'', ci_exponent = 2\<rparr> =
      Inr (\<lparr>cur_code = ''EUR'', cur_exponent = 2, cur_createdAt = 1000\<rparr>, ?d)"
    by (simp add: createCurrency_def insertCurrency_def empty_db_def Let_def)
  then have a: "service_step empty_db ?d" by (rule service_step.currency)
  have "validateDetails ''L'' [] no_jvalue True = ok" by code_simp
  then have "createLedger ?d 1000 1 \<lparr>li_name = ''L'', li_description = [], li_metadata = no_jvalue\<rparr> =
      Inr (\<lparr>l_id = 1, l_name = ''L'', l_description = [], l_metadata = normalizeMetadata no_jvalue,
       l_closedBefore = None, l_version = 0, l_createdAt = 1000\<rparr>, sample_ledgers)"
    by (simp add: createLedger_def insertLedger_def ledger_by_def sample_ledgers_def empty_db_def Let_def)
  then have "service_step ?d sample_ledgers" by (rule service_step.ledger)
  then show ?thesis using a unfolding reachable_def by (meson rtranclp.simps)
qed

lemma sample_account_step:
  assumes acc: "db_accounts d = as" "db_events d = evs" and r: "r = new_account 1000 i (sample_acc c s neg)"
    and d: "d\<lparr>db_accounts := [], db_events := []\<rparr> = sample_ledgers\<lparr>db_accounts := [], db_events := []\<rparr>"
    and new: "\<forall>a \<in> set as. ac_id a \<noteq> i \<and> ac_code a \<noteq> c"
    and v: "validateAccount (sample_acc c s neg) = ok"
  shows "service_step d (d\<lparr>db_accounts := as @ [r], db_events := evs @ [AccountEvent ''account.created'' r]\<rparr>)"
proof -
  have t: "db_currencies d = db_currencies sample_ledgers" "db_ledgers d = db_ledgers sample_ledgers"
    using arg_cong [OF d, of db_currencies] arg_cong [OF d, of db_ledgers] by simp_all
  have "\<not> isl (account_balances (row_state None r))"
    by (simp add: r row_state_def new_account_def sample_acc_def account_balances_def account_balance_def
        amt_add_def amt_sub_def addable_def in_range_def)
  then obtain po pe av where b: "account_balances (row_state None r) = Inr (po, pe, av)"
    by (cases "account_balances (row_state None r)") auto
  have cur: "row_by cur_code (db_currencies d) ''EUR'' = Some \<lparr>cur_code = ''EUR'', cur_exponent = 2, cur_createdAt = 1000\<rparr>"
    by (simp add: t sample_ledgers_def)
  have f: "account_by_code d 1 c = None" "account_by d i = None"
    using new acc(1) by (auto simp: account_by_code_def find_None_iff account_by_def row_by_None_iff)
  have led: "ledger_by d 1 \<noteq> None" by (simp add: ledger_by_def t sample_ledgers_def)
  let ?a = "\<lparr>acc_row = r, acc_exponent = 2, acc_posted = po, acc_pending = pe, acc_available = av\<rparr>"
  have rc: "ac_currency r = ''EUR''" "ai_ledger (sample_acc c s neg) = 1" "ai_code (sample_acc c s neg) = c"
    "ai_currency (sample_acc c s neg) = ''EUR''" "ai_overdraftLimit (sample_acc c s neg) = 0"
    by (simp_all add: r new_account_def sample_acc_def)
  have "insertAccount d 1000 i (sample_acc c s neg) = Inr (Some ?a, d\<lparr>db_accounts := as @ [r]\<rparr>)"
    using f led cur b acc(1) by (simp add: insertAccount_def rc r [symmetric] Let_def scanAccount_def)
  then have "createAccount d 1000 i (sample_acc c s neg) =
      Inr (?a, d\<lparr>db_accounts := as @ [r], db_events := evs @ [AccountEvent ''account.created'' r]\<rparr>)"
    using v acc(2) by (simp add: createAccount_def emit_def)
  then show ?thesis by (rule service_step.account) (simp add: rc in_range_def)
qed

lemma sample_accounts_reachable: "reachable sample_accounts"
proof -
  let ?d = "sample_ledgers\<lparr>db_accounts := [sample_cash], db_events := [AccountEvent ''account.created'' sample_cash]\<rparr>"
  have v: "validateAccount (sample_acc ''c'' Debit True) = ok" "validateAccount (sample_acc ''a'' Credit False) = ok"
    by code_simp+
  have "service_step sample_ledgers ?d"
    using sample_account_step [OF refl refl sample_cash_def refl _ v(1)]
    by (simp add: sample_ledgers_def empty_db_def)
  moreover have "service_step ?d sample_accounts"
    using sample_account_step [where d = "?d", OF refl refl sample_customer_def _ _ v(2)]
    by (simp add: sample_accounts_def sample_cash_def new_account_def sample_acc_def)
  ultimately show ?thesis using sample_ledgers_reachable unfolding reachable_def by (meson rtranclp.rtrancl_into_rtrancl)
qed

definition sample_deposit :: postInput where
  "sample_deposit = sample_post ''d'' Posted [plain_posting 11 Debit 100 [], plain_posting 12 Credit 100 []]"

definition sample_deposit_run :: "(postingResult list \<times> db) res" where
  "sample_deposit_run = runRequests sample_accounts 2000 (\<lambda>n. 100 + n) [plain_request sample_deposit] False"

definition sample_db :: db where
  "sample_db = snd (projr sample_deposit_run)"

lemma sample_deposit_runs: "\<not> isl sample_deposit_run"
  by code_simp

lemma sample_deposit_valid: "validatePost sample_deposit = ok"
  by code_simp

lemma sample_deposit_Inr:
  "runRequests sample_accounts 2000 (\<lambda>n. 100 + n) [plain_request sample_deposit] False =
    Inr (fst (projr sample_deposit_run), sample_db)"
  using sample_deposit_runs unfolding sample_deposit_run_def sample_db_def by (cases rule: sum.exhaust) auto

lemma sample_deposit_step: "service_step sample_accounts sample_db"
  by (rule service_step.group [where ins = "[sample_deposit]"])
    (use sample_deposit_Inr sample_deposit_valid in
      \<open>simp_all add: sample_deposit_def sample_post_def amounts_ok_def plain_posting_def in_range_def\<close>)

lemma sample_db_reachable: "reachable sample_db"
  using sample_deposit_step sample_accounts_reachable unfolding reachable_def by (meson rtranclp.rtrancl_into_rtrancl)

text \<open>Two nested categories, the inner one with the customer's account.\<close>

definition sample_category :: "string \<Rightarrow> categoryInput" where
  "sample_category name = \<lparr>gi_ledger = 1, gi_currency = ''EUR'', gi_normalSide = Credit, gi_name = name,
     gi_description = [], gi_metadata = no_jvalue\<rparr>"

definition sample_categories :: "db res" where
  "sample_categories =
     bindR (createCategory sample_db 3000 21 (sample_category ''A'')) (\<lambda>(_, d).
     bindR (createCategory d 3000 22 (sample_category ''B'')) (\<lambda>(_, d).
     bindR (setChild d 21 22 True) (\<lambda>(_, d).
     bindR (setMember d 22 12 True) (\<lambda>(_, d). Inr d))))"

lemma sample_categories_reachable: "sample_categories = Inr d \<Longrightarrow> reachable d"
  using sample_db_reachable unfolding reachable_def sample_categories_def
  by (auto dest!: service_step.category service_step.membership service_step.child
      intro: rtranclp.rtrancl_into_rtrancl)

lemma sample_categories_graph:
  "(case sample_categories of Inl e \<Rightarrow> ([], []) | Inr d \<Rightarrow> (db_edges d, db_members d)) = ([(21, 22)], [(22, 12)])"
  by code_simp

end
