(* ===== verification/Journal_Growth.thy ===== *)
theory Journal_Growth
  imports Sample_Service
begin

text \<open>
  Every step of the service keeps the journal, and every one but the retention of events appends to the
  events: \<open>service_step_appends\<close> collects what the locale
  \<open>statements\<close> says of the operations on transactions, holds and settlements, and the operations on
  currencies, ledgers, accounts, schedules, monitors, categories and statements, which do not write it.
\<close>

lemma currency_journal: "createCurrency d now ci = Inr (c, d') \<Longrightarrow> appends_journal d d'"
  by (auto simp: createCurrency_def insertCurrency_def Let_def split: option.splits if_splits
      intro: appends_journal_same)

lemma ledger_journal:
  "createLedger d now newid li = Inr (l, d') \<Longrightarrow> appends_journal d d'"
  "updateLedger d i u = Inr (l, d') \<Longrightarrow> appends_journal d d'"
  "closePeriod d now i closed = Inr (l, d') \<Longrightarrow> appends_journal d d'"
  by (auto simp: createLedger_def insertLedger_def updateLedger_def updateLedgerRow_def closePeriod_def
      replaceLedger_def Let_def split: if_splits option.splits intro: appends_journal_same)

lemma emitted_journal: "appends_journal d d1 \<Longrightarrow> appends_journal d (emit evs d1)"
  using appends_journal_trans journal.emitted by blast

lemma createAccount_journal:
  assumes "createAccount d now newid ai = Inr (a, d')"
  shows "appends_journal d d'"
proof -
  obtain c d1 where ins: "insertAccount d now newid ai = Inr (c, d1)" and d': "d' = d1 \<or> (\<exists>evs. d' = emit evs d1)"
    using assms by (auto simp: createAccount_def split: option.splits if_splits)
  have "appends_journal d d1"
    using ins by (auto simp: insertAccount_def Let_def split: if_splits intro: appends_journal_same)
  then show ?thesis using d' emitted_journal by blast
qed

lemma updateAccountRow_journal: "updateAccountRow d i f = Inr (a, d') \<Longrightarrow> appends_journal d d'"
  by (auto simp: updateAccountRow_def split: option.splits intro: appends_journal_same)

lemma setAccountStatus_journal: "setAccountStatus d now i target = Inr (a, d') \<Longrightarrow> appends_journal d d'"
  by (auto simp: setAccountStatus_def updateAccountStatus_def split: if_splits
      intro: emitted_journal updateAccountRow_journal)

lemma updateAccount_journal: "updateAccount d i u = Inr (a, d') \<Longrightarrow> appends_journal d d'"
  by (auto simp: updateAccount_def updateAccountDetails_def Let_def split: if_splits
      intro: emitted_journal updateAccountRow_journal)

lemma schedules_journal: "appends_journal d (d\<lparr>db_schedules := ss\<rparr>)"
  by (rule appends_journal_same) simp_all

lemma schedule_journal:
  "schedule_txn d now newid si = Inr (s, replayed, d') \<Longrightarrow> appends_journal d d'"
  "cancelSchedule d now i = Inr (s, d') \<Longrightarrow> appends_journal d d'"
  by (auto simp: schedule_txn_def cancelSchedule_def Let_def schedules_journal split: option.splits if_splits)

lemma executeDue_journal:
  assumes "executeDue d now fresh skip limit = Inr (n, m, d')"
  shows "appends_journal d d'"
proof (cases "due_schedules d now skip limit = []")
  case False
  then obtain rs d1 ss where ap: "applyRequests d now fresh (map schedule_request (due_schedules d now skip limit)) False = Applied rs d1"
    and d': "d' = d1\<lparr>db_schedules := ss\<rparr>"
    using assms by (auto simp: executeDue_def Let_def split: applied.splits)
  show ?thesis
    unfolding d' by (rule appends_journal_trans [OF journal.applyRequests_stays [OF ap] schedules_journal])
qed (use assms in \<open>simp add: executeDue_def\<close>)

lemma monitors_journal [simp]: "appends_journal d (d\<lparr>db_monitors := ms\<rparr>)"
  by (rule appends_journal_same) simp_all

lemma createMonitor_journal: "createMonitor d now newid mi = Inr (m, d') \<Longrightarrow> appends_journal d d'"
  by (clarsimp simp: createMonitor_def Let_def)

lemma updateMonitor_journal: "updateMonitor d i u = Inr (r, d') \<Longrightarrow> appends_journal d d'"
  by (auto simp: updateMonitor_def Let_def split: option.splits)

lemma deleteMonitor_journal: "deleteMonitor d i = Inr d' \<Longrightarrow> appends_journal d d'"
  by (clarsimp simp: deleteMonitor_def split: if_splits)

lemma graph_only_journal: "graph_only d d' \<Longrightarrow> appends_journal d d'"
  by (simp add: graph_only_def)

lemma category_journal:
  "createCategory d now newid gi = Inr (c, d') \<Longrightarrow> appends_journal d d'"
  "updateCategory d i u = Inr (c, b, d') \<Longrightarrow> appends_journal d d'"
  "deleteCategory d i = Inr d' \<Longrightarrow> appends_journal d d'"
  "setMember d i a isMember = Inr (gr, d') \<Longrightarrow> appends_journal d d'"
  "setChild d i a nested = Inr (gr, d') \<Longrightarrow> appends_journal d d'"
  by (rule graph_only_journal, erule createCategory_graph_only updateCategory_graph_only
    deleteCategory_graph_only setMember_graph_only setChild_graph_only)+

lemma createStatement_journal:
  assumes "createStatement d xid xmin now newid ti = Inr (st, d')"
  shows "appends_journal d d'"
  unfolding createStatement_row(1) [OF assms] by (rule appends_journal_same) simp_all

lemmas registry_journal = currency_journal ledger_journal createAccount_journal setAccountStatus_journal
  updateAccount_journal schedule_journal executeDue_journal createMonitor_journal updateMonitor_journal
  deleteMonitor_journal category_journal createStatement_journal

lemmas posting_journal = journal.postBatch_stays journal.runRequests_stays journal.reverse_stays
  journal.updateTransaction_stays journal.postPending_stays journal.archiveTransaction_stays
  journal.createHold_stays journal.captureHold_stays journal.voidHold_stays journal.expireHolds_stays
  journal.createSettlement_stays

lemma service_step_appends:
  "service_step d d' \<Longrightarrow> appends_journal d d' \<or> (\<exists>evs. subseq evs (db_events d) \<and> d' = d\<lparr>db_events := evs\<rparr>)"
proof (induction rule: service_step.induct)
  case (retention evs d)
  then show ?case by blast
qed (rule disjI1, erule registry_journal posting_journal)+

lemma events_keep: "keeps_journal d (d\<lparr>db_events := evs\<rparr>)"
  by (simp add: keeps_journal_def same_txn_def txn_by_def row_entries_def)

lemma service_step_journal: "service_step d d' \<Longrightarrow> keeps_journal d d'"
  using service_step_appends appends_keeps events_keep by blast

lemma service_steps_journal: "service_step\<^sup>*\<^sup>* d d' \<Longrightarrow> keeps_journal d d'"
  by (induction rule: rtranclp_induct) (auto intro: keeps_journal_trans service_step_journal)

end
