(* ===== verification/Service_Properties.thy ===== *)
theory Service_Properties
  imports Journal_Growth
begin

text \<open>
  The properties of the whole service: what holds in every database that the service reaches from an
  empty one by any sequence of its operations, and what no operation ever undoes.
\<close>

text \<open>
  C1. In every state that the service reaches, the integrity report of \<^verbatim>\<open>verify.go\<close> is empty: debits equal
  credits in every currency, every transaction has entries and only posted ones are in the journal, the
  posted, pending and held totals of every account agree with its entries and holds, every settlement
  nets to zero, and the running balance of the last posting of an account is its net balance.
\<close>

theorem reachable_verifies:
  assumes "reachable d"
  shows "integrity_issues d = []"
  using reachable_inv [OF assms] by (simp add: service_inv_def db_inv_no_issues)

lemma reachable_verifies_witness: "integrity_issues sample_db = []"
  by (rule reachable_verifies [OF sample_db_reachable])

text \<open>
  C4. In every state that the service reaches, the totals of an account are the sums of its postings,
  of its open pending entries and of its holds, they are amounts that are not negative, an account that
  may not go negative has an available balance within its overdraft limit, and a closed account is empty.
\<close>

theorem reachable_accounts:
  assumes "reachable d" "account_by d i = Some r"
  shows "ac_postedDebits r = posted_sum d i Debit \<and> ac_postedCredits r = posted_sum d i Credit \<and>
    ac_pendingDebits r = pending_sum d i Debit \<and> ac_pendingCredits r = pending_sum d i Credit \<and>
    ac_held r = held_sum d i \<and>
    (\<forall>n \<in> {ac_postedDebits r, ac_postedCredits r, ac_pendingDebits r, ac_pendingCredits r, ac_held r}.
       0 \<le> n \<and> in_range n) \<and>
    (ac_allowNegative r \<or> - ac_overdraftLimit r \<le>
       (if ac_normalSide r = Credit then ac_postedCredits r - ac_postedDebits r - ac_pendingDebits r
        else ac_postedDebits r - ac_postedCredits r - ac_pendingCredits r) - ac_held r) \<and>
    (ac_status r = Closed \<longrightarrow> ac_postedDebits r = ac_postedCredits r \<and> ac_pendingDebits r = 0 \<and>
       ac_pendingCredits r = 0 \<and> ac_held r = 0)"
proof -
  have inv: "db_inv d" using reachable_inv [OF assms(1)] by (simp add: service_inv_def)
  have r: "r \<in> set (db_accounts d)" "ac_id r = i" using account_by_SomeD [OF assms(2)] by simp_all
  have "row_books [] d r" "row_inv r"
    using db_invD(1,5) [OF inv] r(1) by (auto simp: books_def accounts_inv_def)
  then show ?thesis
    using r(2) by (auto simp: row_books_def row_inv_def account_inv_def account_ok_def amount_ok_def funds_ok_def
        avail_def row_state_def)
qed

lemma sample_customer_row: "map_option (\<lambda>r. (ac_postedCredits r, ac_held r)) (account_by sample_db 12) = Some (100, 0)"
  by code_simp

lemma reachable_accounts_witness:
  "\<exists>r. account_by sample_db 12 = Some r \<and> ac_postedCredits r = 100 \<and> posted_sum sample_db 12 Credit = 100"
proof -
  obtain r where r: "account_by sample_db 12 = Some r" "ac_postedCredits r = 100"
    using sample_customer_row by auto
  then show ?thesis using reachable_accounts [OF sample_db_reachable r(1)] by auto
qed

text \<open>
  C19. Double entry for the whole journal: in every state that the service reaches, the postings of each
  transaction sum to zero in each currency, each posting belongs to a posted transaction and is in the
  currency of an account of that transaction's ledger, and it carries the net balance of its account
  over all the postings up to it.
\<close>

theorem reachable_double_entry:
  assumes "reachable d"
  shows "sum_over (\<lambda>p. pr_txn p = t \<and> pr_currency p = c) signed_row (db_postings d) = 0 \<and>
    (\<forall>k < length (db_postings d). let p = db_postings d ! k in
       pr_after p = row_net (pr_account p) (take (Suc k) (db_postings d)) \<and> 0 < pr_amount p \<and>
       (\<exists>x a. txn_by d (pr_txn p) = Some x \<and> tr_status x = Posted \<and> account_by d (pr_account p) = Some a \<and>
          ac_ledger a = tr_ledger x \<and> ac_currency a = pr_currency p))"
proof -
  have inv: "db_inv d" using reachable_inv [OF assms] by (simp add: service_inv_def)
  have "balanced d" "running (db_postings d)" and j: "journal_inv d"
    using inv unfolding db_inv_def db_inv_but_def by blast+
  moreover have "posting_ok d (db_postings d ! k)" if "k < length (db_postings d)" for k
    using j that by (auto simp: journal_inv_def)
  ultimately show ?thesis
    by (fastforce simp: balanced_def running_def posting_ok_def entry_home_def Let_def)
qed

lemma sample_postings: "map (\<lambda>p. (pr_account p, pr_side p, pr_amount p)) (db_postings sample_db) = [(11, Debit, 100), (12, Credit, 100)]"
  by code_simp

lemma reachable_double_entry_witness:
  "length (db_postings sample_db) = 2 \<and>
    pr_after (db_postings sample_db ! 1) = row_net (pr_account (db_postings sample_db ! 1)) (db_postings sample_db)"
proof -
  have len: "length (db_postings sample_db) = 2"
    using arg_cong [OF sample_postings, of length] by simp
  then show ?thesis using reachable_double_entry [OF sample_db_reachable] by (simp add: Let_def)
qed

text \<open>
  C5. The journal only grows: across any sequence of operations, the postings and the pending entries before
  it are still there, in the same order, and a transaction that was posted or archived is unchanged in
  every field and in its entries. A pending transaction is still there, with its key and the request that
  made it. The feed of events is no permanent journal: every single operation appends to it, except for
  its retention, which changes nothing else and only removes events.
\<close>

theorem journal_append_only:
  assumes "service_step\<^sup>*\<^sup>* d d'"
  shows "take (length (db_postings d)) (db_postings d') = db_postings d \<and>
    take (length (db_pending d)) (db_pending d') = db_pending d \<and>
    (\<forall>i r. txn_by d i = Some r \<longrightarrow>
       (\<exists>r'. txn_by d' i = Some r' \<and> tr_key r' = tr_key r \<and> tr_request r' = tr_request r \<and>
          (tr_status r \<noteq> Pending \<longrightarrow> r' = r \<and> row_entries d' r = row_entries d r))) \<and>
    (\<forall>d''. service_step d' d'' \<longrightarrow>
       take (length (db_events d')) (db_events d'') = db_events d' \<or>
       subseq (db_events d'') (db_events d') \<and> d'' = d'\<lparr>db_events := db_events d''\<rparr>)"
proof -
  have "take (length (db_events d')) (db_events d'') = db_events d' \<or>
      subseq (db_events d'') (db_events d') \<and> d'' = d'\<lparr>db_events := db_events d''\<rparr>"
    if "service_step d' d''" for d''
    using service_step_appends [OF that] by (auto simp: appends_journal_def prefix_def)
  then show ?thesis using service_steps_journal [OF assms] by (auto simp: keeps_journal_def same_txn_def prefix_def)
qed

lemma journal_append_only_witness:
  "take (length (db_postings sample_accounts)) (db_postings sample_db) = db_postings sample_accounts \<and>
   (take (length (db_events sample_accounts)) (db_events sample_db) = db_events sample_accounts \<or>
    sample_db = sample_accounts\<lparr>db_events := db_events sample_db\<rparr>)"
  using journal_append_only [OF r_into_rtranclp [of service_step, OF sample_deposit_step]]
    journal_append_only [OF rtranclp.rtrancl_refl] sample_deposit_step by blast

text \<open>
  C33. In every state that the service reaches, the graph of categories has no cycle, no chain of nested
  categories is longer than seven, nested categories agree in ledger and currency, and so do the accounts
  of a category with it.
\<close>

theorem reachable_categories:
  assumes "reachable d"
  shows "acyclic (set (db_edges d)) \<and>
    (\<forall>xs. chain (db_edges d) xs \<longrightarrow> length xs \<le> 7) \<and>
    (\<forall>p c. (p, c) \<in> set (db_edges d) \<longrightarrow>
       (\<exists>x y. queryCategory d p = Inr x \<and> queryCategory d c = Inr y \<and>
          cg_ledger x = cg_ledger y \<and> cg_currency x = cg_currency y)) \<and>
    (\<forall>c a. (c, a) \<in> set (db_members d) \<longrightarrow>
       (\<exists>x r. queryCategory d c = Inr x \<and> account_by d a = Some r \<and>
          ac_ledger r = cg_ledger x \<and> ac_currency r = cg_currency x))"
proof -
  have g: "graph_inv d" using reachable_inv [OF assms] by (simp add: service_inv_def)
  then have "chains_ok (db_edges d)" by (simp add: graph_inv_def)
  from chains_ok_acyclic [OF this] this show ?thesis
    using g by (fastforce simp: graph_inv_def chains_ok_def maxCategoryDepth_def queryCategory_def)
qed

lemma reachable_categories_witness:
  "\<exists>d. sample_categories = Inr d \<and> (21, 22) \<in> set (db_edges d) \<and> acyclic (set (db_edges d))"
proof -
  obtain d where d: "sample_categories = Inr d" "db_edges d = [(21, 22)]"
    using sample_categories_graph by (auto split: sum.splits)
  then have "(21, 22) \<in> set (db_edges d)" by simp
  then show ?thesis using reachable_categories [OF sample_categories_reachable [OF d(1)]] d(1) by blast
qed

end
