(* ===== verification/Replay.thy ===== *)
theory Replay
  imports Journal_Growth
begin

text \<open>
  Idempotency of posting: a request that was accepted, alone or with others, can be sent again at any
  later time, alone or with others, and is answered with the transaction it made the first time. What a
  result says of the database is in \<open>Answers\<close>; here it is carried over the operations in between.
\<close>

section \<open>A known key\<close>

lemma known_key:
  assumes "map_of (selectByKey d [in_key i]) (in_key i) = Some x"
  shows "runRequests d now fresh [plain_request i] atomic =
    Inr (if txn_matches x (truncated i) then [Success x True] else [Failure ErrIdempotencyConflict], d)"
proof -
  have "resolveRequest (selectByKey d [in_key i]) now (fresh 0) e 0 (plain_request i) =
      (e, if txn_matches x (truncated i) then Success x True else Failure ErrIdempotencyConflict)" for e
    using assms by (simp add: resolveRequest_def plain_request_def Let_def)
  then show ?thesis
    by (simp add: runRequests_def applyRequests_def abort_results_def plain_request_def startEngine_def Let_def)
qed

lemma known_in_batch:
  assumes run: "runRequests d now fresh (map plain_request ins) False = Inr (rs, d')"
    and k: "k < length ins" and hit: "map_of (selectByKey d (map in_key ins)) (in_key (ins ! k)) = Some x"
    and m: "txn_matches x (truncated (ins ! k))"
  shows "rs ! k = Success x True"
proof -
  have keys: "map (\<lambda>r. in_key (rq_in r)) (map plain_request ins) = map in_key ins"
    by (simp add: plain_request_def)
  obtain e fin where ra: "resolve_all (selectByKey d (map in_key ins)) now fresh False
      (startEngine d (map plain_request ins)) 0 (map plain_request ins) = (e, fin)" by fastforce
  have fin: "fin" using ra by (rule resolve_all_not_atomic)
  have "rs = e_results e"
    using run ra fin unfolding runRequests_def applyRequests_def Let_def keys
    by (auto split: if_splits sum.splits)
  moreover have "rq_in (map plain_request ins ! k) = ins ! k" using k by (simp add: plain_request_def)
  ultimately show ?thesis
    using resolve_all_known [of "selectByKey d (map in_key ins)" now fresh False "startEngine d (map plain_request ins)" 0
        "map plain_request ins" e k x] ra k hit m fin
    by (simp add: startEngine_def)
qed

section \<open>Sending a request again\<close>

lemma steps_inv: "service_step\<^sup>*\<^sup>* d d' \<Longrightarrow> service_inv d \<Longrightarrow> service_inv d'"
  by (induction rule: rtranclp_induct) (auto intro: service_step_inv)

lemma run_Applied: "runRequests d now fresh reqs atomic = Inr (rs, d') \<Longrightarrow> k < length reqs \<Longrightarrow>
  rs ! k = Success t r \<Longrightarrow> applyRequests d now fresh reqs atomic = Applied rs d'"
proof -
  have no: "abort_results n rs ! j \<noteq> Success t r" if "j < length rs + (n - length rs)" for n rs j
  proof -
    have "abort_result x \<noteq> Success t r" for x by (cases x) simp_all
    then show ?thesis using that by (auto simp: abort_results_def nth_append)
  qed
  assume run: "runRequests d now fresh reqs atomic = Inr (rs, d')" and k: "k < length reqs" "rs ! k = Success t r"
  show ?thesis
  proof (cases "applyRequests d now fresh reqs atomic")
    case (AbortedBatch rs1)
    then have "rs = abort_results (length reqs) rs1" using run by (simp add: runRequests_def)
    then show ?thesis using no [of k rs1 "length reqs"] k by simp
  qed (use run in \<open>simp_all add: runRequests_def\<close>)
qed

lemma accepted_is_known:
  assumes inv: "db_inv d" and ins: "\<forall>i \<in> set ins. validatePost i = ok \<and> amounts_ok (in_postings i)"
    and run: "runRequests d now fresh (map plain_request ins) atomic = Inr (rs, d1)"
    and n: "n < length ins" "rs ! n = Success t False" and k: "keeps_journal d1 d2"
  shows "\<exists>r. txn_by d2 (t_id t) = Some r \<and> tr_key r = in_key (ins ! n) \<and>
    txn_matches (row_txn d2 r) (truncated (ins ! n)) \<and>
    (t_status t \<noteq> Pending \<longrightarrow> r = insert_row now t \<and> row_entries d2 r = row_entries d1 r)"
proof -
  let ?reqs = "map plain_request ins"
  have at: "?reqs ! n = plain_request (ins ! n)" "rq_in (plain_request i) = i" for i
    using n(1) by (simp_all add: plain_request_def)
  have ap: "applyRequests d now fresh ?reqs atomic = Applied rs d1" using run_Applied [OF run _ n(2)] n(1) by simp
  have ok: "\<forall>req \<in> set ?reqs. request_ok req" using ins validatePost_request_ok by auto
  have len: "length rs = length ins" using applied_batch(1) [OF ap inv ok] by simp
  have t: "t \<in> set (concat (map accepted_txn rs))" using nth_mem [of n rs] n len by force
  have st: "stored_as d1 now t" by (rule applied_stored(1) [OF ap inv ok t])
  have "known d1 (in_key (ins ! n)) (t_id t)" using applied_known(1) [OF ap inv ok _ n(2)] n(1) at by simp
  then have key: "t_key t = in_key (ins ! n)" using st by (auto simp: known_def stored_as_def insert_row_def)
  have "text_ok (ins ! n)" using ins n(1) valid_text_ok by simp
  then have "txn_matches t (truncated (ins ! n))" using applied_known(2) [OF ap inv ok _ n(2)] n(1) at by simp
  then show ?thesis using stored_matches [OF st k] key by fastforce
qed

lemma run_service_inv:
  assumes inv: "service_inv d" and ins: "\<forall>i \<in> set ins. validatePost i = ok \<and> amounts_ok (in_postings i)"
    and run: "runRequests d now fresh (map plain_request ins) atomic = Inr (rs, d1)"
  shows "service_inv d1"
proof (rule service_inv_frame [OF fr.runRequests_stays [OF run] runRequests_inv [OF run] inv])
  show "db_inv d" using inv by (simp add: service_inv_def)
  show "\<forall>req \<in> set (map plain_request ins). request_ok req" using ins validatePost_request_ok by auto
qed (simp add: plain_request_def)


lemma accepted_txn_ne: "accepted_txn r \<noteq> [] \<Longrightarrow> \<exists>t. r = Success t False"
  by (cases r rule: accepted_txn.cases) auto

lemma sample_deposit_accepted:
  "\<exists>t. runRequests sample_accounts 2000 (\<lambda>n. 100 + n) [plain_request sample_deposit] False = Inr ([Success t False], sample_db)"
proof -
  have "length (fst (projr sample_deposit_run)) = 1 \<and> concat (map accepted_txn (fst (projr sample_deposit_run))) \<noteq> []"
    by code_simp
  then obtain x where "fst (projr sample_deposit_run) = [x]" "accepted_txn x \<noteq> []"
    by (auto simp: length_Suc_conv)
  then obtain t where "fst (projr sample_deposit_run) = [Success t False]" using accepted_txn_ne by blast
  then show ?thesis using sample_deposit_Inr by simp
qed

lemma sample_amounts: "amounts_ok (in_postings sample_deposit)"
  by (simp add: sample_deposit_def sample_post_def amounts_ok_def plain_posting_def in_range_def)


text \<open>
  A key is never used for two different requests: a request under the key of a stored transaction
  that it does not match is answered with \<^verbatim>\<open>ErrIdempotencyConflict\<close>, alone or in a batch that is not atomic, and
  nothing is written.
\<close>

theorem replay_conflict:
  assumes "reachable d" "txn_by d j = Some r" "tr_key r = in_key i" "\<not> txn_matches (row_txn d r) (truncated i)"
  shows "runRequests d now fresh [plain_request i] atomic = Inr ([Failure ErrIdempotencyConflict], d)"
proof -
  have inv: "db_inv d" using reachable_inv [OF assms(1)] by (simp add: service_inv_def)
  have "map_of (selectByKey d [in_key i]) (in_key i) = Some (row_txn d r)"
    using selectByKey_hit [OF db_invD(3) [OF inv] assms(2), of "[in_key i]"] assms(3) by simp
  from known_key [OF this] assms(4) show ?thesis by simp
qed

definition sample_other :: postInput where
  "sample_other = sample_post ''d'' Posted [plain_posting 11 Debit 99 [], plain_posting 12 Credit 99 []]"

lemma replay_conflict_witness:
  "runRequests sample_db 9000 (\<lambda>n. 500 + n) [plain_request sample_other] False = Inr ([Failure ErrIdempotencyConflict], sample_db)"
proof -
  have "(case txn_by sample_db 100 of None \<Rightarrow> False
      | Some r \<Rightarrow> tr_key r = in_key sample_other \<and> \<not> txn_matches (row_txn sample_db r) (truncated sample_other))"
    by code_simp
  then obtain r where "txn_by sample_db 100 = Some r" "tr_key r = in_key sample_other"
    "\<not> txn_matches (row_txn sample_db r) (truncated sample_other)"
    by (auto split: option.splits)
  then show ?thesis by (rule replay_conflict [OF sample_db_reachable])
qed

end
