(* ===== verification/Posting_Properties.thy ===== *)
theory Posting_Properties
  imports Replay
begin

text \<open>
  The properties of batches, reversals, partial postings, retries and the translation of errors.
\<close>

section \<open>Atomic batches\<close>

lemma resolve_all_atomic:
  "resolve_all ex now fresh True e n reqs = (e', fin) \<Longrightarrow> (\<forall>r \<in> set (e_results e). \<not> result_failed r) \<Longrightarrow>
    (fin \<longrightarrow> (\<forall>r \<in> set (e_results e'). \<not> result_failed r) \<and> length (e_results e') = length (e_results e) + length reqs) \<and>
    length (e_results e') \<le> length (e_results e) + length reqs"
proof (induction reqs arbitrary: e n)
  case (Cons req reqs)
  obtain e1 r where rr: "resolveRequest ex now (fresh n) e n req = (e1, r)" by fastforce
  from rr have e1: "e_results e1 = e_results e" by (cases rule: resolveRequest_cases) simp_all
  let ?e = "e1\<lparr>e_results := e_results e1 @ [r]\<rparr>"
  show ?case
  proof (cases "result_failed r")
    case True
    then show ?thesis using Cons.prems rr e1 by auto
  next
    case False
    then have "resolve_all ex now fresh True ?e (Suc n) reqs = (e', fin)" using Cons.prems(1) rr by simp
    from Cons.IH [OF this] show ?thesis using False Cons.prems(2) e1 by auto
  qed
qed simp

lemma abort_result_failed [simp]: "result_failed (abort_result r)"
  by (cases r) simp_all

lemma abort_results_failed: "r \<in> set (abort_results n rs) \<Longrightarrow> result_failed r"
  by (auto simp: abort_results_def)

lemma atomic_results:
  assumes "runRequests d now fresh reqs True = Inr (rs, d')"
  shows "length rs = length reqs \<and>
    ((\<forall>r \<in> set rs. \<not> result_failed r) \<or> (\<forall>r \<in> set rs. result_failed r) \<and> d' = d)"
proof -
  let ?ex = "selectByKey d (map (\<lambda>r. in_key (rq_in r)) reqs)"
  obtain e fin where ra: "resolve_all ?ex now fresh True (startEngine d reqs) 0 reqs = (e, fin)" by fastforce
  have start: "e_results (startEngine d reqs) = []" by (simp add: startEngine_def)
  note all = resolve_all_atomic [OF ra, unfolded start]
  show ?thesis
  proof (cases "applyRequests d now fresh reqs True")
    case (Applied rs1 d1)
    then have "rs = e_results e \<and> fin" using assms ra
      by (auto simp: runRequests_def applyRequests_def Let_def split: if_splits sum.splits)
    then show ?thesis using all by simp
  next
    case (AbortedBatch rs1)
    then have x: "rs = abort_results (length reqs) (e_results e) \<and> d' = d" using assms ra
      by (auto simp: runRequests_def applyRequests_def Let_def split: if_splits sum.splits)
    have "length (e_results e) \<le> length reqs" using all by simp
    then have "length rs = length reqs" using x by (simp add: abort_results_def)
    then show ?thesis using x abort_results_failed by blast
  qed (use assms in \<open>simp add: runRequests_def\<close>)
qed

text \<open>
  C14. An atomic batch is all or nothing: there is one result for each request, and either no request
  failed, or every one of them is reported as failed and the database is as it was.
\<close>

theorem atomic_batch:
  assumes "runRequests d now fresh reqs True = Inr (rs, d')"
  shows "length rs = length reqs \<and>
    ((\<forall>r \<in> set rs. \<not> result_failed r) \<or> (\<forall>r \<in> set rs. result_failed r) \<and> d' = d)"
  using atomic_results [OF assms] .

definition sample_unfunded :: postInput where
  "sample_unfunded = sample_post ''w'' Posted [plain_posting 12 Debit 500 [], plain_posting 11 Credit 500 []]"

definition sample_mixed :: "postingRequest list" where
  "sample_mixed = [plain_request (sample_deposit\<lparr>in_key := ''e''\<rparr>), plain_request sample_unfunded]"

lemma sample_mixed_results:
  "(case runRequests sample_db 3000 (\<lambda>n. 200 + n) sample_mixed True of
      Inl e \<Rightarrow> False | Inr (rs, d) \<Rightarrow> list_ex result_failed rs)"
  by code_simp

lemma atomic_batch_witness:
  "\<exists>rs. runRequests sample_db 3000 (\<lambda>n. 200 + n) sample_mixed True = Inr (rs, sample_db) \<and> length rs = 2"
proof -
  obtain rs d where r: "runRequests sample_db 3000 (\<lambda>n. 200 + n) sample_mixed True = Inr (rs, d)"
    "list_ex result_failed rs"
    using sample_mixed_results by (auto split: sum.splits)
  then show ?thesis using atomic_batch [OF r(1)] by (auto simp: list_ex_iff sample_mixed_def)
qed

section \<open>Reversal\<close>

lemma opposite_moved: "moved a s (map reversed_entry ps) = moved a (opposite s) ps"
  if "\<forall>p \<in> set ps. side_valid (p_side p)" "side_valid s"
  using that
proof (induction ps)
  case (Cons p ps)
  then show ?case by (auto simp: reversed_entry_def)
qed simp

lemma reverse_applies:
  assumes rv: "reverse d now fresh i inp = Inr (t, False, d')" and inv: "db_inv d"
  obtains x where "txn_by d i = Some x" "tr_status x = Posted" "selectReversal d i = Inl ErrNotFound"
    "apply_one d now fresh (reversalRequest (row_txn d x) inp) = Inr (Success t False, d')"
proof -
  obtain orig where lk: "lockTransaction d i = Inr orig" and st: "t_status orig = Posted"
    and v: "validateReverse inp = ok"
    using rv by (auto simp: reverse_def split: if_splits)
  obtain x where x: "txn_by d i = Some x" "orig = row_txn d x"
    using lockTransaction_Inr [OF db_invD(3) [OF inv] lk] by blast
  obtain e where sel: "selectReversal d i = Inl e"
    using rv lk st v by (cases "selectReversal d i") (auto simp: reverse_def Let_def split: if_splits)
  have e: "e = ErrNotFound"
    using rv lk st v sel by (auto simp: reverse_def Let_def split: if_splits)
  obtain r d1 where ap: "apply_one d now fresh (reversalRequest orig inp) = Inr (r, d1)"
    using rv lk st v sel e by (auto simp: reverse_def Let_def)
  have "r = Success t False \<and> d1 = d'"
    using rv lk st v sel e ap by (cases r) (auto simp: reverse_def Let_def split: if_splits)
  then show ?thesis using that [OF x(1)] st sel e ap x(2) by simp
qed

lemma reverse_posts:
  assumes rv: "reverse d now fresh i inp = Inr (t, False, d')" and inv: "db_inv d"
  obtains x where "txn_by d i = Some x" "tr_status x = Posted" "selectReversal d i = Inl ErrNotFound"
    "entries_ok (row_entries d x)" "t_reverses t = Some i" "t_status t = Posted"
    "map (\<lambda>p. (p_account p, p_side p, p_amount p)) (t_postings t)
      = map (\<lambda>p. (p_account p, p_side p, p_amount p)) (map reversed_entry (row_entries d x))"
    "db_txns d' = db_txns d @ [insert_row now t]" "appended d (entry_columns t) 1 [] d'"
proof (rule reverse_applies [OF assms])
  fix x
  let ?req = "reversalRequest (row_txn d x) inp"
  assume x: "txn_by d i = Some x" "tr_status x = Posted" and none: "selectReversal d i = Inl ErrNotFound"
    and ap: "apply_one d now fresh ?req = Inr (Success t False, d')"
  note j = db_invD(3) [OF inv]
  have xs: "x \<in> set (db_txns d)" "tr_id x = i" using txn_by_SomeD [OF x(1)] by simp_all
  have e: "entries_ok (row_entries d x)" "row_entries d x \<noteq> []"
    using row_entries_ok [OF j] j xs(1) by (auto simp: journal_inv_def txn_row_ok_def)
  have fields: "rq_reverses ?req = Some i" "input_status (rq_in ?req) = Posted" "\<not> in_archiveOnLockFailure (rq_in ?req)"
    "in_postings (rq_in ?req) = map reversed_entry (row_entries d x)"
    using xs(2) by (simp_all add: reversalRequest_def input_status_def)
  note posts = apply_one_posts [OF ap inv reversalRequest_ok fields(3,2), unfolded row_txn_fields, OF e]
  show ?thesis
    using that [OF x none e(1)] posts(2,4-7) fields(1,4) by simp
qed

text \<open>
  C13. A reversal posts a new transaction that is linked to the reversed one and moves every account by the
  same amounts on the opposite sides, so that the two transactions cancel; nothing else is posted, and the
  reversed transaction was posted and had no reversal before.
\<close>

theorem reverse_undoes:
  assumes "reachable d" "reverse d now fresh i inp = Inr (t, False, d')"
  shows "\<exists>x. txn_by d i = Some x \<and> tr_status x = Posted \<and> (\<forall>y \<in> set (db_txns d). tr_reverses y \<noteq> Some i) \<and>
    t_reverses t = Some i \<and> t_status t = Posted \<and> db_txns d' = db_txns d @ [insert_row now t] \<and>
    (\<forall>a. posted_sum d' a Debit = posted_sum d a Debit + moved a Credit (row_entries d x) \<and>
         posted_sum d' a Credit = posted_sum d a Credit + moved a Debit (row_entries d x))"
proof -
  have inv: "db_inv d" using reachable_inv [OF assms(1)] by (simp add: service_inv_def)
  note j = db_invD(3) [OF inv]
  from assms(2) inv show ?thesis
  proof (rule reverse_posts)
    fix x
    assume x: "txn_by d i = Some x" "tr_status x = Posted" and none: "selectReversal d i = Inl ErrNotFound"
      and e: "entries_ok (row_entries d x)" and t: "t_reverses t = Some i" "t_status t = Posted"
      and es: "map (\<lambda>p. (p_account p, p_side p, p_amount p)) (t_postings t)
        = map (\<lambda>p. (p_account p, p_side p, p_amount p)) (map reversed_entry (row_entries d x))"
      and tx: "db_txns d' = db_txns d @ [insert_row now t]" and app: "appended d (entry_columns t) 1 [] d'"
    have same: "moved a s (t_postings t) = moved a s (map reversed_entry (row_entries d x))" for a s
      by (rule moved_cong [OF es])
    have sides: "\<forall>p \<in> set (row_entries d x). side_valid (p_side p)"
      using e by (auto simp: entries_ok_def list_all_iff entry_ok_def)
    have sums: "posted_sum d' a s = posted_sum d a s + moved a s (t_postings t)" for a s
      using appended_posted_sum [OF app, of a s] by (simp add: entry_columns_def comp_def)
    have "tr_reverses y \<noteq> Some i" if y: "y \<in> set (db_txns d)" for y
    proof
      assume "tr_reverses y = Some i"
      moreover have "row_entries d y \<noteq> []" using j y by (auto simp: journal_inv_def txn_row_ok_def)
      ultimately have "row_txn d y \<in> set (selectTransactions d (\<lambda>r. tr_reverses r = Some i))"
        using y by (auto simp: selectTransactions_def)
      then show False
        using none by (auto simp: selectReversal_def selectOneTransaction_def split: list.splits)
    qed
    then show ?thesis using x t tx sums same opposite_moved [OF sides] by simp
  qed
qed

definition sample_reversal :: "(transaction \<times> bool \<times> db) res" where
  "sample_reversal = reverse sample_db 5000 (\<lambda>n. 700 + n) 100
     \<lparr>ri_key = ''r'', ri_description = [], ri_metadata = no_jvalue\<rparr>"

lemma sample_reversal_runs: "(case sample_reversal of Inl e \<Rightarrow> True | Inr (t, replayed, d) \<Rightarrow> replayed) = False"
  by code_simp

lemma sample_reversal_Inr: obtains t d where "sample_reversal = Inr (t, False, d)"
  using sample_reversal_runs by (auto split: sum.splits prod.splits)

lemma reverse_undoes_witness:
  "\<exists>t d x. sample_reversal = Inr (t, False, d) \<and> txn_by sample_db 100 = Some x \<and>
     posted_sum d 12 Debit = posted_sum sample_db 12 Debit + moved 12 Credit (row_entries sample_db x)"
proof -
  obtain t d where "sample_reversal = Inr (t, False, d)" by (rule sample_reversal_Inr)
  then show ?thesis
    using reverse_undoes [OF sample_db_reachable, of 5000 "\<lambda>n. 700 + n" 100] unfolding sample_reversal_def by blast
qed

text \<open>
  C27. A transaction is reversed at most once: whatever happens after a reversal, another reversal of the
  same transaction either answers with the stored one, as a replay that changes nothing, or fails.
\<close>

theorem reverse_once:
  assumes "reachable d" "reverse d now fresh i inp = Inr (t, False, d1)" "service_step\<^sup>*\<^sup>* d1 d2"
    and "reverse d2 now2 fresh2 i inp2 = Inr (t2, replayed, d3)"
  shows "replayed \<and> d3 = d2"
proof -
  have inv: "service_inv d" by (rule reachable_inv [OF assms(1)])
  have inv1: "service_inv d1" by (rule service_step_inv [OF service_step.reversal [OF assms(2)] inv])
  then have db: "db_inv d" "db_inv d2" using inv steps_inv [OF assms(3)] by (simp_all add: service_inv_def)
  have j1: "journal_inv d1" using inv1 db_invD(3) by (simp add: service_inv_def)
  obtain tx: "db_txns d1 = db_txns d @ [insert_row now t]"
    and rev: "t_reverses t = Some i" "t_status t = Posted" using reverse_posts [OF assms(2) db(1)] by metis
  have "txn_by d1 (t_id t) = Some (insert_row now t)"
    using journal_ids [OF j1, of "insert_row now t"] by (simp add: tx insert_row_def)
  then have "txn_by d2 (t_id t) = Some (insert_row now t)"
    using keeps_journal_row [OF service_steps_journal [OF assms(3)]] rev(2) by (simp add: insert_row_def)
  then have r: "insert_row now t \<in> set (db_txns d2)" by (auto dest: txn_by_SomeD)
  then have "row_entries d2 (insert_row now t) \<noteq> []"
    using db_invD(3) [OF db(2)] by (auto simp: journal_inv_def txn_row_ok_def)
  then have "row_txn d2 (insert_row now t) \<in> set (selectTransactions d2 (\<lambda>r. tr_reverses r = Some i))"
    using r rev(1) by (auto simp: selectTransactions_def insert_row_def)
  then obtain prior where "selectReversal d2 i = Inr prior"
    by (cases "selectTransactions d2 (\<lambda>r. tr_reverses r = Some i)")
      (auto simp: selectReversal_def selectOneTransaction_def)
  then show ?thesis using assms(4) by (auto simp: reverse_def Let_def split: if_splits)
qed

lemma sample_reversal_again:
  "(case sample_reversal of Inl e \<Rightarrow> False | Inr (t, replayed, d) \<Rightarrow>
      (case reverse d 6000 (\<lambda>n. 800 + n) 100 \<lparr>ri_key = ''r'', ri_description = [], ri_metadata = no_jvalue\<rparr> of
         Inl e \<Rightarrow> False | Inr x \<Rightarrow> True))"
  by code_simp

lemma reverse_once_witness:
  "\<exists>t d t2. sample_reversal = Inr (t, False, d) \<and>
     reverse d 6000 (\<lambda>n. 800 + n) 100 \<lparr>ri_key = ''r'', ri_description = [], ri_metadata = no_jvalue\<rparr> = Inr (t2, True, d)"
proof -
  obtain t d where s: "sample_reversal = Inr (t, False, d)" by (rule sample_reversal_Inr)
  then obtain t2 replayed d3 where r:
    "reverse d 6000 (\<lambda>n. 800 + n) 100 \<lparr>ri_key = ''r'', ri_description = [], ri_metadata = no_jvalue\<rparr> = Inr (t2, replayed, d3)"
    using sample_reversal_again unfolding s by (auto split: sum.splits)
  then show ?thesis
    using reverse_once [OF sample_db_reachable s [unfolded sample_reversal_def] rtranclp.rtrancl_refl r] s by auto
qed

section \<open>Posting a part of a pending transaction\<close>

text \<open>
  Posting a part of a pending transaction is allowed exactly when, for every account and side, no more
  is posted than was pending there.
\<close>

theorem partial_posting_limits:
  assumes "entries_ok pending" "entries_ok posted" "\<And>a s. in_range (moved a s pending)"
  shows "checkPartial pending posted = ok \<longleftrightarrow> (\<forall>a s. moved a s posted \<le> moved a s pending)"
  by (rule checkPartial_iff [OF assms])

lemma partial_posting_limits_witness:
  "checkPartial [plain_posting 11 Debit 100 [], plain_posting 12 Credit 100 []]
     [plain_posting 11 Debit 60 [], plain_posting 12 Credit 60 []] = ok"
proof -
  let ?pend = "[plain_posting 11 Debit 100 [], plain_posting 12 Credit 100 []]"
  let ?post = "[plain_posting 11 Debit 60 [], plain_posting 12 Credit 60 []]"
  have ok: "entries_ok ?pend" "entries_ok ?post"
    by (simp_all add: entries_ok_def entry_ok_def plain_posting_def in_range_def)
  have "in_range (moved a s ?pend)" for a s by (simp add: in_range_def)
  from partial_posting_limits [OF ok this] show ?thesis by simp
qed

section \<open>Retries\<close>

lemma attempts_Inr:
  "attempts safe slept n fn k e = Inr x \<longleftrightarrow>
    (\<exists>j < n. fn (k + j) = Inr x \<and> (\<forall>l < j. slept (k + l) = None \<and> (\<exists>e. fn (k + l) = Inl e \<and> retryable safe e)))"
proof (induction n arbitrary: k e)
  case (Suc n)
  have split: "(\<exists>j < Suc n. P j) \<longleftrightarrow> P 0 \<or> (\<exists>j < n. P (Suc j))" for P by (auto simp: less_Suc_eq_0_disj)
  have all: "(\<forall>l < Suc j. Q l) \<longleftrightarrow> Q 0 \<and> (\<forall>l < j. Q (Suc l))" for Q and j :: nat by (auto simp: less_Suc_eq_0_disj)
  show ?case
    unfolding split all using Suc.IH [of "Suc k"]
    by (cases "fn k"; cases "slept k") auto
qed simp

lemma attempts_last:
  "\<forall>j < n. slept (k + j) = None \<and> (\<exists>e. fn (k + j) = Inl e \<and> retryable safe e) \<Longrightarrow> 0 < n \<Longrightarrow>
    attempts safe slept n fn k e = fn (k + n - 1)"
proof (induction n arbitrary: k e)
  case (Suc n)
  obtain e1 where e1: "fn k = Inl e1" "retryable safe e1" "slept k = None" using Suc.prems(1) by force
  show ?case
  proof (cases n)
    case 0
    then show ?thesis using e1 by simp
  next
    case (Suc m)
    have "\<forall>j < n. slept (Suc k + j) = None \<and> (\<exists>e. fn (Suc k + j) = Inl e \<and> retryable safe e)"
      using Suc.prems(1) by (metis add_Suc_shift Suc_less_eq)
    from Suc.IH [OF this] show ?thesis using e1 Suc by simp
  qed
qed simp

text \<open>
  A database transaction is tried at most six times. It succeeds exactly when one of the first six
  attempts does, all attempts before it failed with an error that can be retried, and no pause between
  them was interrupted; when six attempts fail this way, the error of the last one is returned.
\<close>

theorem runTx_attempts:
  "(runTx safe slept fn = Inr x \<longleftrightarrow>
     (\<exists>j < 6. fn j = Inr x \<and> (\<forall>l < j. slept l = None \<and> (\<exists>e. fn l = Inl e \<and> retryable safe e)))) \<and>
   ((\<forall>j < 6. slept j = None \<and> (\<exists>e. fn j = Inl e \<and> retryable safe e)) \<longrightarrow> runTx safe slept fn = fn 5)"
  using attempts_Inr [of safe slept 6 fn 0 ErrRetry x] attempts_last [of 6 slept 0 fn safe ErrRetry]
  by (simp add: runTx_def)

lemma runTx_attempts_witness:
  "runTx (\<lambda>e. False) (\<lambda>k. None) (\<lambda>k. if k < 3 then Inl ErrRetry else Inr k) = Inr (3::nat)"
  by (subst runTx_attempts [THEN conjunct1]) (auto simp: retryable_def intro!: exI [of _ 3])

section \<open>Errors\<close>

text \<open>
  The translation of errors ends in the errors of the domain, and translating again changes nothing.
  Every violation of a constraint that a client can cause has its error.
\<close>

theorem asDomainError_stable:
  assumes "asDomainError e = Some e'"
  shows "e' \<in> set domainErrors \<and> asDomainError e' = Some e' \<and> failedResult e = failedResult e'"
proof -
  have "e' \<in> set domainErrors"
    using assms by (auto simp: asDomainError_def domain_constraints_def domainErrors_def split: err.splits if_splits)
  moreover have "list_all (\<lambda>x. asDomainError x = Some x) domainErrors" by code_simp
  ultimately show ?thesis using assms by (auto simp: list_all_iff failedResult_def)
qed

lemma asDomainError_stable_witness:
  "asDomainError (ErrConstraint ''ledger_accounts_funds_check'') = Some ErrInsufficientFunds \<and>
   ErrInsufficientFunds \<in> set domainErrors"
  using asDomainError_stable [of "ErrConstraint ''ledger_accounts_funds_check''" ErrInsufficientFunds]
  by (simp add: asDomainError_def domain_constraints_def)

end
