(* ===== verification/Queue_Properties.thy ===== *)
theory Queue_Properties
  imports Posting_Properties
begin

text \<open>
  The properties of the batcher: no request is lost or answered twice in any interleaving of callers and
  workers, the workers finish when they are told to stop, and the queue with its workers implements posting.
\<close>

section \<open>A small run\<close>

text \<open>One caller posts the sample deposit on channel 7, one worker collects it and commits.\<close>

definition sample_request :: request where
  "sample_request = \<lparr>ch_id = 7, ch_req = plain_request sample_deposit\<rparr>"

definition sample_run :: runner where
  "sample_run = batch_run (\<lambda>k. None) (\<lambda>k. 2000) (\<lambda>k n. 100 + n)"

definition sample_queued :: pool where
  "sample_queued = (pool_start 1 sample_accounts)\<lparr>pl_queue := [sample_request], pl_accepted := [7]\<rparr>"

definition sample_collected :: pool where
  "sample_collected = sample_queued\<lparr>pl_queue := [], pl_workers := [Collecting [sample_request]]\<rparr>"

abbreviation sample_steps :: "pool \<Rightarrow> pool \<Rightarrow> bool" where
  "sample_steps \<equiv> (pool_step sample_run (\<lambda>k i. None) 10 100)\<^sup>*\<^sup>*"

lemma sample_queued_steps: "sample_steps (pool_start 1 sample_accounts) sample_queued"
proof -
  have "pool_step sample_run (\<lambda>k i. None) 10 100 (pool_start 1 sample_accounts) sample_queued"
    using pool_step.submit [OF sample_deposit_valid sample_amounts, of "pool_start 1 sample_accounts" 100 7]
    by (simp add: pool_start_def sample_queued_def sample_request_def)
  then show ?thesis by (rule r_into_rtranclp [of "pool_step sample_run (\<lambda>k i. None) 10 100"])
qed

lemma sample_collected_steps: "sample_steps (pool_start 1 sample_accounts) sample_collected"
proof -
  have "work sample_run (\<lambda>k i. None) 10 sample_queued sample_collected"
    using work.first [of 0 sample_queued sample_request "[]" sample_run "\<lambda>k i. None" 10]
    by (simp add: sample_queued_def sample_collected_def pool_start_def)
  then show ?thesis
    using sample_queued_steps pool_step.work by (meson rtranclp.rtrancl_into_rtrancl)
qed

lemma sample_commit:
  "\<exists>t. commit_batch sample_run (\<lambda>k i. None) 0 sample_accounts [sample_request] = ([(7, Success t False)], sample_db)"
proof -
  obtain t where "runRequests sample_accounts 2000 (\<lambda>n. 100 + n) [plain_request sample_deposit] False =
      Inr ([Success t False], sample_db)" using sample_deposit_accepted by blast
  then have "commit_batch sample_run (\<lambda>k i. None) 0 sample_accounts [sample_request] = ([(7, Success t False)], sample_db)"
    by (simp add: commit_batch_def live_requests_def ended_answers_def sample_run_def batch_run_def sample_request_def Let_def)
  then show ?thesis ..
qed

section \<open>Safety\<close>

text \<open>
  C6. In every interleaving of callers and workers, a request that was accepted is answered at most once,
  and only accepted requests are answered; as long as it has no answer it is in the queue or in the batch
  of one worker. The queue and the batches keep their bounds, and the ledger stays sound.
\<close>

theorem batcher_safety:
  assumes "reachable d"
    and "(pool_step (batch_run outage now fresh) ended maxBatch queueSize)\<^sup>*\<^sup>* (pool_start n d) p"
  shows "distinct (map fst (pl_answers p)) \<and>
    set (map fst (pl_answers p)) \<union> set (map ch_id (pool_requests p)) = set (pl_accepted p) \<and>
    set (map fst (pl_answers p)) \<inter> set (map ch_id (pool_requests p)) = {} \<and>
    length (pl_queue p) \<le> queueSize \<and>
    (\<forall>x \<in> set (pl_workers p). length (requests_of x) \<le> max 1 maxBatch) \<and>
    integrity_issues (pl_db p) = []"
proof -
  have "db_inv d" using reachable_inv [OF assms(1)] by (simp add: service_inv_def)
  then have inv: "pool_inv maxBatch queueSize p" using pool_reachable_inv [OF assms(2)] by blast
  then have m: "mset (map fst (pl_answers p) @ map ch_id (pool_requests p)) = mset (pl_accepted p)"
    and d: "distinct (pl_accepted p)" by (simp_all add: pool_inv_def)
  have "distinct (map fst (pl_answers p) @ map ch_id (pool_requests p))" using d mset_eq_imp_distinct_iff [OF m] by blast
  moreover have "set (map fst (pl_answers p) @ map ch_id (pool_requests p)) = set (pl_accepted p)"
    by (rule mset_eq_setD [OF m])
  ultimately show ?thesis using inv db_inv_no_issues by (auto simp: pool_inv_def)
qed

lemma batcher_safety_witness:
  "sample_steps (pool_start 1 sample_accounts) sample_collected \<and>
   {} \<union> set (map ch_id (pool_requests sample_collected)) = set (pl_accepted sample_collected)"
  using batcher_safety [OF sample_accounts_reachable sample_collected_steps [unfolded sample_run_def]] sample_collected_steps
  by (simp add: sample_collected_def sample_queued_def pool_start_def)

section \<open>Shutting down\<close>

lemma pool_step_workers:
  assumes "pool_step run ended maxBatch queueSize p p'"
    "length (pl_workers p) = n \<and> (Exited \<in> set (pl_workers p) \<longrightarrow> pl_stopping p)"
  shows "length (pl_workers p') = n \<and> (Exited \<in> set (pl_workers p') \<longrightarrow> pl_stopping p')"
  using assms(1)
proof (cases rule: pool_stepE)
  case work
  then show ?thesis
  proof (cases rule: workE)
    case (group w batch a x d')
    have "x \<noteq> Exited" using group(4) by (auto simp: commit_group_def Let_def split: if_splits sum.splits)
    then show ?thesis using assms(2) group set_update_subset_insert [of "pl_workers p" w x] by auto
  qed (use assms(2) in \<open>auto dest!: set_update_subset_insert [THEN subsetD]\<close>)
qed (use assms(2) in auto)

lemma pool_workers:
  assumes "(pool_step run ended maxBatch queueSize)\<^sup>*\<^sup>* (pool_start n d) p"
  shows "length (pl_workers p) = n \<and> (Exited \<in> set (pl_workers p) \<longrightarrow> pl_stopping p)"
  using assms
  by (induction rule: rtranclp_induct) (simp_all add: pool_start_def pool_step_workers)

lemma work_steps_bounded: "(work run ended maxBatch ^^ k) p p' \<Longrightarrow> k + pool_measure p' \<le> pool_measure p"
proof (induction k arbitrary: p')
  case (Suc k)
  then obtain q where "(work run ended maxBatch ^^ k) p q" "work run ended maxBatch q p'" by auto
  then show ?case using Suc.IH work_decreases by fastforce
qed simp

text \<open>
  C15. The workers finish: after they are told to stop and no more requests come in, they take only so many
  steps, in whatever order, and when none of them can take another one, all of them have returned, the
  queue is empty, and every request that was ever accepted has exactly one answer.
\<close>

theorem batcher_shutdown:
  assumes "reachable d" "0 < n"
    and "(pool_step (batch_run outage now fresh) ended maxBatch queueSize)\<^sup>*\<^sup>* (pool_start n d) p"
    and "\<not> pl_stopping p" "q = p\<lparr>pl_stopping := True\<rparr>"
  shows "(\<forall>k q'. (work (batch_run outage now fresh) ended maxBatch ^^ k) q q' \<longrightarrow> k \<le> pool_measure q) \<and>
    (\<forall>q'. (work (batch_run outage now fresh) ended maxBatch)\<^sup>*\<^sup>* q q' \<and>
        \<not> (\<exists>q''. work (batch_run outage now fresh) ended maxBatch q' q'') \<longrightarrow>
       set (pl_workers q') = {Exited} \<and> pl_queue q' = [] \<and> distinct (map fst (pl_answers q')) \<and>
       set (map fst (pl_answers q')) = set (pl_accepted p))"
proof -
  let ?work = "work (batch_run outage now fresh) ended maxBatch"
  have "db_inv d" using reachable_inv [OF assms(1)] by (simp add: service_inv_def)
  then have inv: "pool_inv maxBatch queueSize p" using pool_reachable_inv [OF assms(3)] by blast
  have invq: "pool_inv maxBatch queueSize q" using inv assms(5) by (simp add: pool_inv_def pool_requests_def)
  have ws: "pl_workers q \<noteq> []" "drained q" "pl_stopping q"
    using pool_workers [OF assms(3)] assms(2,4,5) by (auto simp: drained_def)
  have dist: "distinct (pl_accepted p)" using inv by (simp add: pool_inv_def)
  have acc: "pl_accepted q = pl_accepted p" by (simp add: assms(5))
  have "k \<le> pool_measure q" if "(?work ^^ k) q q'" for k q' using work_steps_bounded [OF that] by simp
  moreover have "set (pl_workers q') = {Exited} \<and> pl_queue q' = [] \<and> distinct (map fst (pl_answers q')) \<and>
      set (map fst (pl_answers q')) = set (pl_accepted p)"
    if "?work\<^sup>*\<^sup>* q q'" "\<not> (\<exists>q''. ?work q' q'')" for q'
  proof -
    have sd: "set (pl_workers q') = {Exited} \<and> pl_queue q' = [] \<and>
        mset (map fst (pl_answers q')) = mset (pl_accepted p)"
      using shut_down [OF that(1) ws(3) that(2) invq ws(2,1)] acc by simp
    then show ?thesis using dist mset_eq_imp_distinct_iff mset_eq_setD by blast
  qed
  ultimately show ?thesis by blast
qed

lemma batcher_shutdown_witness:
  "pl_queue sample_queued \<noteq> [] \<and>
   {k. \<exists>q'. (work sample_run (\<lambda>k i. None) 10 ^^ k) (sample_queued\<lparr>pl_stopping := True\<rparr>) q'} \<subseteq>
     {..pool_measure (sample_queued\<lparr>pl_stopping := True\<rparr>)}"
proof -
  have "\<not> pl_stopping sample_queued" "pl_queue sample_queued \<noteq> []"
    by (simp_all add: sample_queued_def pool_start_def)
  then show ?thesis
    using batcher_shutdown [OF sample_accounts_reachable zero_less_one sample_queued_steps [unfolded sample_run_def] _ refl]
    unfolding sample_run_def by fastforce
qed

section \<open>The steps implement commit\<close>

lemma retry_steps:
  assumes "commit_each run ended (pl_count p) (pl_db p) rs = (a, d')" "w < length (pl_workers p)"
    "pl_workers p ! w = Retrying rs"
  shows "(work run ended maxBatch)\<^sup>*\<^sup>* p (p\<lparr>pl_workers := (pl_workers p)[w := Idle],
    pl_answers := pl_answers p @ a, pl_db := d', pl_count := pl_count p + length rs\<rparr>)"
  using assms
proof (induction rs arbitrary: p a)
  case Nil
  then have "work run ended maxBatch p (p\<lparr>pl_workers := (pl_workers p)[w := Idle]\<rparr>)" by (intro work.retried) simp_all
  moreover have "p\<lparr>pl_workers := (pl_workers p)[w := Idle], pl_answers := pl_answers p @ a, pl_db := d',
      pl_count := pl_count p + length ([] :: request list)\<rparr> = p\<lparr>pl_workers := (pl_workers p)[w := Idle]\<rparr>"
    using Nil by (cases p) simp
  ultimately show ?case by simp
next
  case (Cons r rs)
  obtain a1 d1 a2 where c: "commit_one run ended (pl_count p) (pl_db p) r = (a1, d1)"
    "commit_each run ended (Suc (pl_count p)) d1 rs = (a2, d')" "a = a1 @ a2"
    using Cons.prems(1) by (auto split: prod.splits)
  let ?p = "p\<lparr>pl_workers := (pl_workers p)[w := Retrying rs], pl_answers := pl_answers p @ a1, pl_db := d1,
    pl_count := Suc (pl_count p)\<rparr>"
  have "work run ended maxBatch p ?p" by (rule work.single [OF Cons.prems(2,3) c(1)])
  also have "(work run ended maxBatch)\<^sup>*\<^sup>* ?p (?p\<lparr>pl_workers := (pl_workers ?p)[w := Idle],
      pl_answers := pl_answers ?p @ a2, pl_db := d', pl_count := pl_count ?p + length rs\<rparr>)"
    by (rule Cons.IH) (use c(2) Cons.prems(2) in simp_all)
  finally show ?case using c(3) by simp
qed

text \<open>
  The steps of a worker implement \<^verbatim>\<open>commit\<close>: when no other worker comes in between, a worker with a
  batch reaches the end of the batch with exactly the answers and the database of one call of \<^verbatim>\<open>commit\<close>,
  the retries of a failed group included, and is ready for the next request.
\<close>

lemma worker_commits:
  assumes "commit_batch run ended (pl_count p) (pl_db p) batch = (a, d')" "w < length (pl_workers p)"
    "pl_workers p ! w = Collecting batch"
  shows "\<exists>k. (work run ended maxBatch)\<^sup>*\<^sup>* p (p\<lparr>pl_workers := (pl_workers p)[w := Idle],
    pl_answers := pl_answers p @ a, pl_db := d', pl_count := k\<rparr>)"
proof -
  let ?live = "live_requests (ended (pl_count p)) batch" and ?over = "ended_answers (ended (pl_count p)) batch"
  obtain a1 x d1 where cg: "commit_group run ended (pl_count p) (pl_db p) batch = (a1, x, d1)" by (rule prod_cases3)
  let ?p = "p\<lparr>pl_workers := (pl_workers p)[w := x], pl_answers := pl_answers p @ a1, pl_db := d1,
    pl_count := Suc (pl_count p)\<rparr>"
  have g: "work run ended maxBatch p ?p" by (rule work.group [OF assms(2,3) cg])
  from commit_group_batch [OF cg] show ?thesis
  proof
    assume "x = Idle \<and> commit_batch run ended (pl_count p) (pl_db p) batch = (a1, d1)"
    then show ?thesis using g assms(1) by (intro exI [of _ "Suc (pl_count p)"]) auto
  next
    assume x: "x = Retrying ?live \<and> d1 = pl_db p \<and> a1 = ?over \<and> 1 < length ?live"
    then obtain e where "run (pl_count p) (pl_db p) (map ch_req ?live) = Inl e"
      using cg by (auto simp: commit_group_def Let_def split: if_splits sum.splits)
    then obtain a2 where a2: "commit_each run ended (Suc (pl_count p)) (pl_db p) ?live = (a2, d')" "a = ?over @ a2"
      using assms(1) x by (auto simp: commit_batch_def Let_def split: prod.splits if_splits)
    have "(work run ended maxBatch)\<^sup>*\<^sup>* ?p (?p\<lparr>pl_workers := (pl_workers ?p)[w := Idle],
        pl_answers := pl_answers ?p @ a2, pl_db := d', pl_count := pl_count ?p + length ?live\<rparr>)"
      by (rule retry_steps) (use a2(1) x assms(2) in simp_all)
    then have "(work run ended maxBatch)\<^sup>*\<^sup>* p (?p\<lparr>pl_workers := (pl_workers ?p)[w := Idle],
        pl_answers := pl_answers ?p @ a2, pl_db := d', pl_count := pl_count ?p + length ?live\<rparr>)"
      by (rule converse_rtranclp_into_rtranclp [of "work run ended maxBatch", OF g])
    then show ?thesis using x a2(2) by auto
  qed
qed

section \<open>The pool implements the service\<close>

text \<open>The requests that were put into the queue, in their order, with the channels they came with.\<close>

inductive pool_history ::
  "runner \<Rightarrow> (nat \<Rightarrow> nat \<Rightarrow> err option) \<Rightarrow> nat \<Rightarrow> nat \<Rightarrow> pool \<Rightarrow> pool \<Rightarrow> request list \<Rightarrow> bool"
  for run ended maxBatch queueSize p0 where
  start: "pool_history run ended maxBatch queueSize p0 p0 []"
| submitted: "pool_history run ended maxBatch queueSize p0 p h \<Longrightarrow> pool_step run ended maxBatch queueSize p p' \<Longrightarrow>
    pl_accepted p' \<noteq> pl_accepted p \<Longrightarrow> pool_history run ended maxBatch queueSize p0 p' (h @ [last (pl_queue p')])"
| worked: "pool_history run ended maxBatch queueSize p0 p h \<Longrightarrow> pool_step run ended maxBatch queueSize p p' \<Longrightarrow>
    pl_accepted p' = pl_accepted p \<Longrightarrow> pool_history run ended maxBatch queueSize p0 p' h"

lemma every_run_has_history:
  "(pool_step run ended maxBatch queueSize)\<^sup>*\<^sup>* p0 p \<Longrightarrow> \<exists>h. pool_history run ended maxBatch queueSize p0 p h"
  by (induction rule: rtranclp_induct) (blast intro: pool_history.intros)+

text \<open>What an answer may be: the end of the caller's context, the error of a database transaction of this
  request alone, or its own result in a database transaction.\<close>

definition answer_from ::
  "runner \<Rightarrow> (nat \<Rightarrow> nat \<Rightarrow> err option) \<Rightarrow> db \<Rightarrow> request \<Rightarrow> postingResult \<Rightarrow> bool" where
  "answer_from run ended d0 q x \<longleftrightarrow>
     (\<exists>k e. x = Failure e \<and> ended k (ch_id q) = Some e) \<or>
     (\<exists>k d e. x = Failure e \<and> service_step\<^sup>*\<^sup>* d0 d \<and> run k d [ch_req q] = Inl e) \<or>
     (\<exists>k d reqs rs d' j. service_step\<^sup>*\<^sup>* d0 d \<and> run k d reqs = Inr (rs, d') \<and>
        j < length reqs \<and> reqs ! j = ch_req q \<and> rs ! j = x)"

text \<open>What an answer that is a transaction says of the database.\<close>

definition answer_true :: "db \<Rightarrow> request \<Rightarrow> postingResult \<Rightarrow> bool" where
  "answer_true d q x \<longleftrightarrow>
     (\<forall>t r. x = Success t r \<longrightarrow>
        known d (in_key (rq_in (ch_req q))) (t_id t) \<and> txn_matches t (truncated (rq_in (ch_req q))))"

definition valid_request :: "request \<Rightarrow> bool" where
  "valid_request q \<longleftrightarrow> (\<exists>i. ch_req q = plain_request i \<and> validatePost i = ok \<and> amounts_ok (in_postings i))"

definition new_ids :: "(nat \<times> postingResult) list \<Rightarrow> uuid list" where
  "new_ids a = map t_id (concat (map (\<lambda>x. accepted_txn (snd x)) a))"

lemma new_ids_append [simp]: "new_ids (a @ b) = new_ids a @ new_ids b"
  by (simp add: new_ids_def)

lemma new_ids_failures: "\<forall>x \<in> set a. result_failed (snd x) \<Longrightarrow> new_ids a = []"
proof -
  have "result_failed r \<Longrightarrow> accepted_txn r = []" for r by (cases r) simp_all
  then show "\<forall>x \<in> set a. result_failed (snd x) \<Longrightarrow> new_ids a = []" by (simp add: new_ids_def)
qed

lemma new_ids_zip: "length rs = length cs \<Longrightarrow> new_ids (zip cs rs) = map t_id (concat (map accepted_txn rs))"
proof -
  assume "length rs = length cs"
  then have "map (\<lambda>x. accepted_txn (snd x)) (zip cs rs) = map accepted_txn rs"
    using map_snd_zip [of cs rs] by (metis (no_types, lifting) comp_def list.map_comp map_eq_conv)
  then show ?thesis by (simp add: new_ids_def)
qed

text \<open>One database transaction of the pool is a step of the service, which adds the transactions that its
  results say are new.\<close>

lemma run_effect:
  assumes run: "batch_run outage now fresh k d (map ch_req qs) = Inr (rs, d')" and inv: "db_inv d"
    and v: "\<forall>q \<in> set qs. valid_request q"
  shows "service_step d d' \<and> length rs = length qs \<and>
    map tr_id (db_txns d') = map tr_id (db_txns d) @ map t_id (concat (map accepted_txn rs)) \<and>
    (\<forall>j < length qs. answer_true d' (qs ! j) (rs ! j))"
proof -
  let ?ins = "map (\<lambda>q. rq_in (ch_req q)) qs"
  have v': "ch_req q = plain_request (rq_in (ch_req q)) \<and> validatePost (rq_in (ch_req q)) = ok \<and>
      amounts_ok (in_postings (rq_in (ch_req q)))" if "q \<in> set qs" for q
    using v that by (auto simp: valid_request_def plain_request_def)
  then have reqs: "map ch_req qs = map plain_request ?ins" by simp
  have run': "runRequests d (now k) (fresh k) (map plain_request ?ins) False = Inr (rs, d')"
    using run unfolding reqs by (simp add: batch_run_def split: option.splits)
  have ap: "applyRequests d (now k) (fresh k) (map plain_request ?ins) False = Applied rs d'"
    using run' resolve_all_not_atomic
    by (auto simp: runRequests_def applyRequests_def Let_def split: applied.splits if_splits prod.splits sum.splits)
  have "request_ok (ch_req q)" if "q \<in> set qs" for q using v' [OF that] validatePost_request_ok by metis
  then have ok: "\<forall>req \<in> set (map plain_request ?ins). request_ok req" unfolding reqs [symmetric] by auto
  note b = applied_batch [OF ap inv ok]
  have "service_step d d'" by (rule service_step.group [OF run']) (use v' in \<open>simp add: list_all_iff\<close>)
  moreover have "map tr_id (map (insert_row (now k)) ts) = map t_id ts" for ts by (simp add: insert_row_def)
  moreover have "answer_true d' (qs ! j) (rs ! j)" if j: "j < length qs" for j
    using applied_known [OF ap inv ok, of j] v' [OF nth_mem [OF j]] j valid_text_ok
    by (auto simp: answer_true_def plain_request_def)
  ultimately show ?thesis using b(1,2) by simp
qed

definition history_ok :: "runner \<Rightarrow> (nat \<Rightarrow> nat \<Rightarrow> err option) \<Rightarrow> db \<Rightarrow> pool \<Rightarrow> request list \<Rightarrow> bool" where
  "history_ok run ended d0 p h \<longleftrightarrow>
     map ch_id h = pl_accepted p \<and> set (pool_requests p) \<subseteq> set h \<and> (\<forall>q \<in> set h. valid_request q) \<and>
     service_step\<^sup>*\<^sup>* d0 (pl_db p) \<and>
     map tr_id (db_txns (pl_db p)) = map tr_id (db_txns d0) @ new_ids (pl_answers p) \<and>
     (\<forall>c x. (c, x) \<in> set (pl_answers p) \<longrightarrow>
        (\<exists>q \<in> set h. ch_id q = c \<and> answer_from run ended d0 q x \<and> answer_true (pl_db p) q x))"

lemma answer_true_keeps: "answer_true d q x \<Longrightarrow> keeps_journal d d' \<Longrightarrow> answer_true d' q x"
  using known_keeps by (auto simp: answer_true_def)

text \<open>A step that takes requests to the answers and may run one database transaction.\<close>

lemma history_ok_step:
  assumes ok: "history_ok run ended d0 p h"
    and q: "pl_accepted p' = pl_accepted p" "set (pool_requests p') \<subseteq> set (pool_requests p)"
    and a: "pl_answers p' = pl_answers p @ a"
    and d: "service_step\<^sup>*\<^sup>* (pl_db p) (pl_db p')"
      "map tr_id (db_txns (pl_db p')) = map tr_id (db_txns (pl_db p)) @ new_ids a"
    and new: "\<And>c x. (c, x) \<in> set a \<Longrightarrow> \<exists>q \<in> set (pool_requests p). ch_id q = c \<and> answer_from run ended d0 q x \<and>
      answer_true (pl_db p') q x"
  shows "history_ok run ended d0 p' h"
proof -
  have k: "keeps_journal (pl_db p) (pl_db p')" by (rule service_steps_journal [OF d(1)])
  have "\<exists>q \<in> set h. ch_id q = c \<and> answer_from run ended d0 q x \<and> answer_true (pl_db p') q x"
    if x: "(c, x) \<in> set (pl_answers p')" for c x
  proof (cases "(c, x) \<in> set a")
    case True
    then show ?thesis using new ok unfolding history_ok_def by blast
  next
    case False
    then have "(c, x) \<in> set (pl_answers p)" using x a by simp
    then show ?thesis using ok answer_true_keeps [OF _ k] unfolding history_ok_def by blast
  qed
  moreover have "service_step\<^sup>*\<^sup>* d0 (pl_db p')" using ok d(1) unfolding history_ok_def by auto
  moreover have "map ch_id h = pl_accepted p' \<and> set (pool_requests p') \<subseteq> set h \<and> (\<forall>q \<in> set h. valid_request q)"
    using ok q unfolding history_ok_def by auto
  moreover have "map tr_id (db_txns (pl_db p')) = map tr_id (db_txns d0) @ new_ids (pl_answers p')"
    using ok d(2) a unfolding history_ok_def by simp
  ultimately show ?thesis unfolding history_ok_def by blast
qed

lemma requests_update:
  assumes "w < length ws"
  shows "set (concat (map requests_of (ws[w := x]))) \<subseteq> set (concat (map requests_of ws)) \<union> set (requests_of x)"
    and "set (requests_of (ws ! w)) \<subseteq> set (concat (map requests_of ws))"
  using set_update_subset_insert [of ws w x] nth_mem [OF assms] by auto

lemma ended_from:
  assumes "(c, x) \<in> set (ended_answers (ended k) batch)"
  shows "\<exists>q \<in> set batch. ch_id q = c \<and> answer_from run ended d0 q x \<and> answer_true d q x"
    and "result_failed x"
proof -
  obtain q e where q: "q \<in> set batch" "ch_id q = c" "ended k (ch_id q) = Some e" "x = Failure e"
    using assms by (auto simp: ended_answers_def split: option.splits) metis
  then show "\<exists>q \<in> set batch. ch_id q = c \<and> answer_from run ended d0 q x \<and> answer_true d q x"
    by (intro bexI [of _ q]) (auto simp: answer_from_def answer_true_def)
  show "result_failed x" by (simp add: q(4))
qed

lemma zip_from:
  assumes x: "(c, x) \<in> set (zip (map ch_id qs) rs)" and run: "run k d (map ch_req qs) = Inr (rs, d')"
    and d: "service_step\<^sup>*\<^sup>* d0 d" and len: "length rs = length qs" and t: "\<forall>j < length qs. answer_true d' (qs ! j) (rs ! j)"
  shows "\<exists>q \<in> set qs. ch_id q = c \<and> answer_from run ended d0 q x \<and> answer_true d' q x"
proof -
  obtain j where j: "j < length qs" "c = ch_id (qs ! j)" "x = rs ! j" using x len by (auto simp: in_set_zip)
  have "answer_from run ended d0 (qs ! j) x"
    unfolding answer_from_def using run d j by (metis length_map nth_map)
  then show ?thesis using j t nth_mem by blast
qed

lemma work_history:
  assumes w: "work (batch_run outage now fresh) ended maxBatch p p'"
    and ok: "history_ok (batch_run outage now fresh) ended d0 p h" and inv: "db_inv (pl_db p)"
  shows "history_ok (batch_run outage now fresh) ended d0 p' h"
proof -
  let ?run = "batch_run outage now fresh"
  note step = history_ok_step [OF ok]
  have d0: "service_step\<^sup>*\<^sup>* d0 (pl_db p)" using ok by (simp add: history_ok_def)
  have valid: "\<forall>q \<in> set (pool_requests p). valid_request q" using ok unfolding history_ok_def by blast
  show ?thesis
    using w
  proof (cases rule: workE)
    case (first w r queue)
    then show ?thesis
      using requests_update(1) [OF first(2), of "Collecting [r]"] requests_update(2) [OF first(2)] by (intro step [of _ "[]"]) (auto simp: pool_requests_def new_ids_def)
  next
    case (more w batch r queue)
    then show ?thesis
      using requests_update(1) [OF more(2), of "Collecting (batch @ [r])"] requests_update(2) [OF more(2)]
      by (intro step [of _ "[]"]) (auto simp: pool_requests_def new_ids_def)
  next
    case (retried w)
    then show ?thesis
      using requests_update(1) [OF retried(2), of Idle] requests_update(2) [OF retried(2)] by (intro step [of _ "[]"]) (auto simp: pool_requests_def new_ids_def)
  next
    case (exit w)
    then show ?thesis
      using requests_update(1) [OF exit(2), of Exited] requests_update(2) [OF exit(2)] by (intro step [of _ "[]"]) (auto simp: pool_requests_def new_ids_def)
  next
    case (group w batch a x d')
    let ?over = "ended_answers (ended (pl_count p)) batch" and ?live = "live_requests (ended (pl_count p)) batch"
    have batch: "set batch \<subseteq> set (pool_requests p)"
      using requests_update(2) [OF group(2)] group(3) by (auto simp: pool_requests_def)
    have live: "set ?live \<subseteq> set batch" by (auto simp: live_requests_def)
    have vl: "\<forall>q \<in> set ?live. valid_request q" using valid batch live by blast
    have over: "new_ids ?over = []" using ended_from(2) by (intro new_ids_failures) fastforce
    have "set (pool_requests p') \<subseteq> set (pool_requests p) \<union> set (requests_of x)"
      using requests_update(1) [OF group(2), of x] group(1) by (auto simp: pool_requests_def)
    moreover have "set (requests_of x) \<subseteq> set batch"
      using group(4) live by (auto simp: commit_group_def Let_def split: if_splits sum.splits)
    ultimately have sub: "set (pool_requests p') \<subseteq> set (pool_requests p)" using batch by blast
    have ans: "\<exists>q \<in> set (pool_requests p). ch_id q = c \<and> answer_from ?run ended d0 q y \<and> answer_true d q y"
      if "(c, y) \<in> set ?over" for c y d
      using ended_from(1) [of c y ended "pl_count p" batch ?run d0 d] that batch by blast
    show ?thesis
    proof (cases "?run (pl_count p) (pl_db p) (map ch_req ?live)")
      case (Inl e)
      have "a = ?over \<or> (\<exists>q. ?live = [q] \<and> a = ?over @ [(ch_id q, Failure e)])" "d' = pl_db p"
        using group(4) Inl by (auto simp: commit_group_def Let_def length_Suc_conv not_less le_Suc_eq split: if_splits)
      then show ?thesis
      proof (elim disjE exE conjE)
        assume "a = ?over" "d' = pl_db p"
        then show ?thesis using sub ans over group(1) by (intro step [of _ ?over]) auto
      next
        fix q assume q: "?live = [q]" "a = ?over @ [(ch_id q, Failure e)]" "d' = pl_db p"
        have "answer_from ?run ended d0 q (Failure e) \<and> answer_true d q (Failure e)" for d
          using Inl d0 q(1) by (auto simp: answer_from_def answer_true_def)
        moreover have "q \<in> set (pool_requests p)" using q(1) live batch by auto
        ultimately show ?thesis
          using sub ans over group(1) q by (intro step [of _ a]) (auto simp: new_ids_def)
      qed
    next
      case (Inr y)
      obtain rs d1 where y: "?run (pl_count p) (pl_db p) (map ch_req ?live) = Inr (rs, d1)" using Inr by (cases y) simp
      note eff = run_effect [OF y inv vl]
      have a: "a = ?over @ (if ?live = [] then [] else zip (map ch_id ?live) rs)"
        "d' = (if ?live = [] then pl_db p else d1)"
        using group(4) y by (auto simp: commit_group_def Let_def)
      show ?thesis
      proof (cases "?live = []")
        case True
        then show ?thesis using sub ans over group(1) a by (intro step [of _ ?over]) auto
      next
        case False
        have "\<exists>q \<in> set (pool_requests p). ch_id q = c \<and> answer_from ?run ended d0 q x \<and> answer_true d1 q x"
          if "(c, x) \<in> set (zip (map ch_id ?live) rs)" for c x
          using zip_from [of c x ?live rs ?run "pl_count p" "pl_db p" d1 d0 ended] that y d0 eff live batch by blast
        moreover have "new_ids (zip (map ch_id ?live) rs) = map t_id (concat (map accepted_txn rs))"
          using eff by (intro new_ids_zip) simp
        ultimately show ?thesis
          using sub ans over group(1) a False eff by (intro step [of _ a]) auto
      qed
    qed
  next
    case (single w r rs a d')
    have r: "r \<in> set (pool_requests p)" and sub: "set (pool_requests p') \<subseteq> set (pool_requests p)"
      using requests_update(1) [OF single(2), of "Retrying rs"] requests_update(2) [OF single(2)] single(1,3) by (auto simp: pool_requests_def)
    show ?thesis
    proof (cases "ended (pl_count p) (ch_id r)")
      case (Some e)
      then have a: "a = [(ch_id r, Failure e)]" "d' = pl_db p" using single(4) by (simp_all add: commit_one_def)
      have "answer_from ?run ended d0 r (Failure e) \<and> answer_true d r (Failure e)" for d
        using Some by (auto simp: answer_from_def answer_true_def)
      then show ?thesis using a r sub single(1) by (intro step [of _ a]) (auto simp: new_ids_def)
    next
      case None
      show ?thesis
      proof (cases "?run (pl_count p) (pl_db p) [ch_req r]")
        case (Inl e)
        then have a: "a = [(ch_id r, Failure e)]" "d' = pl_db p" using single(4) None by (simp_all add: commit_one_def)
        have "answer_from ?run ended d0 r (Failure e) \<and> answer_true d r (Failure e)" for d
          using Inl d0 by (auto simp: answer_from_def answer_true_def)
        then show ?thesis using a r sub single(1) by (intro step [of _ a]) (auto simp: new_ids_def)
      next
        case (Inr y)
        obtain gs d1 where y: "?run (pl_count p) (pl_db p) (map ch_req [r]) = Inr (gs, d1)" using Inr by (cases y) simp
        have "\<forall>q \<in> set [r]. valid_request q" using valid r by simp
        note eff = run_effect [OF y inv this]
        have a: "a = zip (map ch_id [r]) gs" "d' = d1" using single(4) None y by (simp_all add: commit_one_def)
        have "\<exists>q \<in> set (pool_requests p). ch_id q = c \<and> answer_from ?run ended d0 q x \<and> answer_true d1 q x"
          if "(c, x) \<in> set a" for c x
          using zip_from [of c x "[r]" gs ?run "pl_count p" "pl_db p" d1 d0 ended] that a(1) y d0 eff r by auto
        moreover have "new_ids a = map t_id (concat (map accepted_txn gs))"
          unfolding a(1) using eff by (intro new_ids_zip) simp
        ultimately show ?thesis using sub single(1) a(2) eff by (intro step [of _ a]) auto
      qed
    qed
  qed
qed

lemma history_run:
  "pool_history run ended maxBatch queueSize p0 p h \<Longrightarrow> (pool_step run ended maxBatch queueSize)\<^sup>*\<^sup>* p0 p"
  by (induction rule: pool_history.induct) auto

lemma pool_history_ok:
  assumes "pool_history (batch_run outage now fresh) ended maxBatch queueSize (pool_start n d) p h" "db_inv d"
  shows "history_ok (batch_run outage now fresh) ended d p h"
  using assms(1)
proof (induction rule: pool_history.induct)
  case start
  show ?case by (simp add: history_ok_def pool_start_def pool_requests_def concat_replicate_trivial new_ids_def)
next
  case (submitted p h p')
  from submitted(2) show ?case
  proof (cases rule: pool_stepE)
    case (submit i c)
    then show ?thesis using submitted.IH
      by (auto simp: history_ok_def pool_requests_def valid_request_def)
  next
    case work
    then show ?thesis using submitted(3) work_keeps_rest(2) by blast
  next
    case stop
    then show ?thesis using submitted(3) by simp
  qed
next
  case (worked p h p')
  have inv: "db_inv (pl_db p)"
    using pool_reachable_inv [OF history_run [OF worked(1)] assms(2)] by (simp add: pool_inv_def)
  from worked(2) show ?case
  proof (cases rule: pool_stepE)
    case submit
    then show ?thesis using worked(3) by simp
  next
    case work
    then show ?thesis using work_history worked.IH inv by blast
  next
    case stop
    then show ?thesis using worked.IH by (simp add: history_ok_def pool_requests_def)
  qed
qed

text \<open>
  C20. The queue, its callers and its workers implement posting, whatever they do in which order: the database
  is one that steps of the service lead to, and the transactions it has gained are exactly those that the answers
  call new, each once and in the order of the answers. Every answer is to the request that came with its
  channel: it is what a database transaction gave for this request, or the error of a database transaction of
  this request alone (so that another request of a group cannot fail it), or the end of the caller's context; and
  a transaction that it names is stored under the key of the request and matches it.
\<close>

theorem batcher_refines:
  assumes "reachable d"
    and "pool_history (batch_run outage now fresh) ended maxBatch queueSize (pool_start n d) p h"
  shows "service_step\<^sup>*\<^sup>* d (pl_db p) \<and>
    map tr_id (db_txns (pl_db p)) =
      map tr_id (db_txns d) @ map t_id (concat (map (\<lambda>x. accepted_txn (snd x)) (pl_answers p))) \<and>
    map ch_id h = pl_accepted p \<and> distinct (map ch_id h) \<and>
    (\<forall>c x. (c, x) \<in> set (pl_answers p) \<longrightarrow>
       (\<exists>q \<in> set h. ch_id q = c \<and> answer_from (batch_run outage now fresh) ended d q x \<and>
          (\<forall>t r. x = Success t r \<longrightarrow>
             (\<exists>y. txn_by (pl_db p) (t_id t) = Some y \<and> tr_key y = in_key (rq_in (ch_req q))) \<and>
             txn_matches t (truncated (rq_in (ch_req q))))))"
proof -
  have d: "db_inv d" using reachable_inv [OF assms(1)] by (simp add: service_inv_def)
  have "history_ok (batch_run outage now fresh) ended d p h" by (rule pool_history_ok [OF assms(2) d])
  moreover have "distinct (pl_accepted p)"
    using pool_reachable_inv [OF history_run [OF assms(2)] d] by (simp add: pool_inv_def)
  ultimately show ?thesis unfolding history_ok_def answer_true_def known_def new_ids_def by simp
qed

lemma sample_history:
  "pool_history sample_run (\<lambda>k i. None) 10 100 (pool_start 1 sample_accounts)
     (sample_collected\<lparr>pl_workers := [Idle], pl_answers := [(7, x)], pl_db := sample_db, pl_count := 1\<rparr>) [sample_request]"
  if c: "commit_batch sample_run (\<lambda>k i. None) 0 sample_accounts [sample_request] = ([(7, x)], sample_db)" for x
proof -
  let ?h = "pool_history sample_run (\<lambda>k i. None) 10 100 (pool_start 1 sample_accounts)"
  have "pool_step sample_run (\<lambda>k i. None) 10 100 (pool_start 1 sample_accounts) sample_queued"
    using pool_step.submit [OF sample_deposit_valid sample_amounts, of "pool_start 1 sample_accounts" 100 7]
    by (simp add: sample_queued_def sample_request_def pool_start_def)
  from pool_history.submitted [OF pool_history.start this] have q: "?h sample_queued [sample_request]"
    by (simp add: sample_queued_def pool_start_def)
  have "work sample_run (\<lambda>k i. None) 10 sample_queued sample_collected"
    using work.first [of 0 sample_queued sample_request "[]" sample_run "\<lambda>k i. None" 10]
    by (simp add: sample_queued_def sample_collected_def pool_start_def)
  from pool_history.worked [OF q pool_step.work [OF this]] have w: "?h sample_collected [sample_request]"
    by (simp add: sample_collected_def)
  have p: "pl_count sample_collected = 0" "pl_db sample_collected = sample_accounts" "pl_answers sample_collected = []"
    "pl_workers sample_collected = [Collecting [sample_request]]"
    by (simp_all add: sample_collected_def sample_queued_def pool_start_def)
  obtain a y d' where g: "commit_group sample_run (\<lambda>k i. None) 0 sample_accounts [sample_request] = (a, y, d')"
    by (rule prod_cases3)
  have e: "y = Idle" "a = [(7, x)]" "d' = sample_db"
    using commit_group_batch [OF g] c by (auto simp: live_requests_def)
  have "work sample_run (\<lambda>k i. None) 10 sample_collected
      (sample_collected\<lparr>pl_workers := [Idle], pl_answers := [(7, x)], pl_db := sample_db, pl_count := 1\<rparr>)"
    using work.group [of 0 sample_collected "[sample_request]" sample_run "\<lambda>k i. None" a y d' 10] g p e by simp
  from pool_history.worked [OF w pool_step.work [OF this]] show ?thesis by simp
qed

lemma batcher_refines_witness:
  "\<exists>t. (7, Success t False) \<in> set [(7, Success t False)] \<and>
     map tr_id (db_txns sample_db) = map tr_id (db_txns sample_accounts) @ [t_id t] \<and>
     (\<exists>y. txn_by sample_db (t_id t) = Some y \<and> tr_key y = in_key sample_deposit)"
proof -
  obtain t where c: "commit_batch sample_run (\<lambda>k i. None) 0 sample_accounts [sample_request] = ([(7, Success t False)], sample_db)"
    using sample_commit ..
  have "rq_in (ch_req sample_request) = sample_deposit" by (simp add: sample_request_def plain_request_def)
  then show ?thesis
    using batcher_refines [OF sample_accounts_reachable sample_history [OF c, unfolded sample_run_def]] by fastforce
qed

section \<open>Draining\<close>

text \<open>
  A worker that drains the queue ends, whatever the batches do, answers every request of the queue
  exactly once, and leaves a sound ledger.
\<close>

theorem drain_answers_all:
  assumes "reachable d" "drain (batch_run outage now fresh) ended maxBatch k d queue = (a, d')"
    and "\<forall>r \<in> set queue. \<exists>i. ch_req r = plain_request i \<and> validatePost i = ok \<and> amounts_ok (in_postings i)"
  shows "mset (map fst a) = mset (map ch_id queue) \<and> integrity_issues d' = []"
proof -
  have "plain_ok (plain_request i)" if "validatePost i = ok" "amounts_ok (in_postings i)" for i
    using validatePost_request_ok [OF that] by (simp add: plain_ok_def plain_request_def)
  then have "\<forall>r \<in> set queue. plain_ok (ch_req r)" using assms(3) by fastforce
  moreover have "db_inv d" using reachable_inv [OF assms(1)] by (simp add: service_inv_def)
  ultimately show ?thesis using group.drain_answers [OF assms(2)] db_inv_no_issues by blast
qed

lemma drain_answers_all_witness:
  "\<exists>a d. drain sample_run (\<lambda>k i. None) 10 0 sample_db [sample_request, sample_request\<lparr>ch_id := 8\<rparr>] = (a, d) \<and>
     mset (map fst a) = {#7, 8#}"
proof -
  let ?queue = "[sample_request, sample_request\<lparr>ch_id := 8\<rparr>]"
  obtain a d where d: "drain sample_run (\<lambda>k i. None) 10 0 sample_db ?queue = (a, d)" by fastforce
  have "ch_req r = plain_request sample_deposit" if "r \<in> set ?queue" for r
    using that by (auto simp: sample_request_def)
  then have "\<forall>r \<in> set ?queue. \<exists>i. ch_req r = plain_request i \<and> validatePost i = ok \<and> amounts_ok (in_postings i)"
    using sample_deposit_valid sample_amounts by blast
  from drain_answers_all [OF sample_db_reachable d [unfolded sample_run_def] this] d show ?thesis
    by (simp add: sample_request_def)
qed

end
