(* ===== verification/History_Properties.thy ===== *)
theory History_Properties
  imports Journal_Growth
begin

text \<open>
  The properties of what the service reports: balances over a range of times, statements, the balances of
  categories, pages of lists; and of schedules and account states.
\<close>

lemma reachable_db: "reachable d \<Longrightarrow> db_inv d"
  using reachable_inv by (auto simp: service_inv_def)

lemma reachable_schedules: "reachable d \<Longrightarrow> schedules_inv d"
  using reachable_inv by (auto simp: service_inv_def)

section \<open>Balances\<close>

text \<open>
  C31. The balances that are computed from the entries of all time are the posted and pending balances that
  the service keeps with the account, for every account, and computing them never fails.
\<close>

theorem balances_from_entries:
  assumes "reachable d" "queryAccount d i = Inr a"
  shows "\<exists>b. balancesAt d xid i all_time = Inr b \<and> b_posted b = acc_posted a \<and> b_pending b = acc_pending a"
  by (rule balancesAt_all_time [OF reachable_db [OF assms(1)] assms(2)])

lemma sample_query: "\<not> isl (queryAccount sample_db 12)"
  by code_simp

lemma balances_from_entries_witness:
  "\<exists>a b. queryAccount sample_db 12 = Inr a \<and> balancesAt sample_db (\<lambda>t. 0) 12 all_time = Inr b \<and>
     b_posted b = acc_posted a"
proof -
  obtain a where "queryAccount sample_db 12 = Inr a"
    using sample_query by (cases "queryAccount sample_db 12") auto
  then show ?thesis using balances_from_entries [OF sample_db_reachable] by blast
qed

text \<open>
  C32. The balances of a category, over any range of effective times or without one, are sums over the accounts
  that are in it or in a category nested in it, each account counted once however many ways lead to it: posted
  is the sum of their posted entries in the range, pending adds the current entries of the transactions that are
  pending, and available counts, on the side that lowers an account, its pending entries and (without a range)
  its pending holds too. The net amount follows the normal side of the category.
\<close>

definition accounts_inside :: "db \<Rightarrow> category \<Rightarrow> account_row list" where
  "accounts_inside d c =
     filter (\<lambda>a. \<exists>x. (cg_id c, x) \<in> (set (db_edges d))\<^sup>* \<and> (x, ac_id a) \<in> set (db_members d)) (db_accounts d)"

theorem category_balances:
  assumes "reachable d" "rollUp d c r = Inr b"
  shows "debits (b_posted b) = (\<Sum>a\<leftarrow>accounts_inside d c. posted_over d r Debit a) \<and>
    credits (b_posted b) = (\<Sum>a\<leftarrow>accounts_inside d c. posted_over d r Credit a) \<and>
    debits (b_pending b) = (\<Sum>a\<leftarrow>accounts_inside d c. posted_over d r Debit a + pending_over d r Debit a) \<and>
    credits (b_pending b) = (\<Sum>a\<leftarrow>accounts_inside d c. posted_over d r Credit a + pending_over d r Credit a) \<and>
    debits (b_available b) = (\<Sum>a\<leftarrow>accounts_inside d c. available_over d r Debit a) \<and>
    credits (b_available b) = (\<Sum>a\<leftarrow>accounts_inside d c. available_over d r Credit a) \<and>
    (\<forall>v. v = b_posted b \<or> v = b_pending b \<or> v = b_available b \<longrightarrow>
      net v = (if cg_normalSide c = Credit then credits v - debits v else debits v - credits v))"
proof -
  have m: "ac_id a \<in> set (categoryMembers d (cg_id c)) \<longleftrightarrow>
      (\<exists>x. (cg_id c, x) \<in> (set (db_edges d))\<^sup>* \<and> (x, ac_id a) \<in> set (db_members d))" for a
    by (auto simp: categoryMembers_iff)
  have "sum_over q f as = sum_list (map f (filter q as))" for q and f :: "account_row \<Rightarrow> int" and as
    by (induction as) auto
  then have "members_sum d (categoryMembers d (cg_id c)) f = sum_list (map f (accounts_inside d c))" for f
    by (simp add: members_sum_def m accounts_inside_def)
  then show ?thesis
    using rollUp_sums [OF assms(2) reachable_db [OF assms(1)]] by (auto simp: balance_sum_def)
qed

definition sample_range :: effectiveRange where
  "sample_range = \<lparr>from_time = Some 1000, until_time = Some 4000\<rparr>"

definition sample_rolled :: "(db \<times> category \<times> balances) res" where
  "sample_rolled = bindR sample_categories (\<lambda>d. bindR (queryCategory d 21) (\<lambda>c.
     bindR (rollUp d c sample_range) (\<lambda>b. Inr (d, c, b))))"

lemma sample_rolled_credits:
  "(case sample_rolled of Inl e \<Rightarrow> None | Inr (d, c, b) \<Rightarrow> Some (credits (b_posted b), credits (b_pending b))) =
    Some (100, 100)"
  by code_simp

lemma category_balances_witness:
  "\<exists>d c. sample_categories = Inr d \<and> queryCategory d 21 = Inr c \<and>
     (\<Sum>a\<leftarrow>accounts_inside d c. posted_over d sample_range Credit a) = 100"
proof -
  obtain d c b where r: "sample_categories = Inr d" "queryCategory d 21 = Inr c" "rollUp d c sample_range = Inr b"
    "credits (b_posted b) = 100"
    using sample_rolled_credits by (auto simp: sample_rolled_def split: sum.splits)
  show ?thesis
    using category_balances [OF sample_categories_reachable [OF r(1)] r(3)] r by auto
qed

section \<open>Statements\<close>

text \<open>
  C30. A statement stays true: its starting and ending totals are the totals of the entries before its period
  and before the end of it, and whatever is posted after it was made, computing them again from the entries
  that were posted below its bound gives the same totals and the same number of entries. PostgreSQL gives a
  database transaction that commits later a number that is not below the bound.
\<close>

theorem statement_reproducible:
  assumes "reachable d" "createStatement d xid xmin now newid i = Inr (st, d1)" "0 < xmin"
    and "service_step\<^sup>*\<^sup>* d1 d2"
    and "\<And>p t. p \<in> set (drop (length (db_postings d1)) (db_postings d2)) \<Longrightarrow> txn_by d2 (pr_txn p) = Some t \<Longrightarrow>
      xmin \<le> xid (tr_id t)"
  shows "statement_ok d1 xid (sm_row st) \<and> statement_ok d2 xid (sm_row st) \<and>
    sm_account (sm_row st) = ti_account i \<and> sm_from (sm_row st) < sm_until (sm_row st)"
proof -
  note row = createStatement_row [OF assms(2)]
  have inv1: "service_inv d1"
    by (rule service_step_inv [OF service_step.statement [OF assms(2)] reachable_inv [OF assms(1)]])
  have same: "db_postings d1 = db_postings d" "txn_by d1 = txn_by d"
    unfolding row(1) by (simp_all add: txn_by_def fun_eq_iff)
  have ok1: "statement_ok d1 xid (sm_row st)"
    using row(10) by (simp add: statement_ok_def total_before_def posted_within_def same)
  have k: "keeps_journal d1 d2" by (rule service_steps_journal [OF assms(4)])
  have j: "journal_inv d1" using inv1 db_invD(3) by (auto simp: service_inv_def)
  have post: "db_postings d2 = db_postings d1 @ drop (length (db_postings d1)) (db_postings d2)"
    using k by (auto simp: keeps_journal_def prefix_def)
  have old: "txn_by d2 (pr_txn p) = txn_by d1 (pr_txn p)" if "p \<in> set (db_postings d1)" for p
  proof -
    have "posting_ok d1 p" using j that by (simp add: journal_inv_def)
    then obtain r where "txn_by d1 (pr_txn p) = Some r" "tr_status r = Posted"
      unfolding posting_ok_def by blast
    then show ?thesis using keeps_journal_row [OF k] by simp
  qed
  have "posted_later xid xmin d1 d2"
    unfolding posted_later_def using post assms(5) old by metis
  then have "statement_ok d2 xid (sm_row st)"
    using statement_ok_later [of xid "sm_row st" d1 d2] row(6) assms(3) ok1 by simp
  then show ?thesis using ok1 row(3,8) by simp
qed

definition sample_statement :: "(statement \<times> db) res" where
  "sample_statement = createStatement sample_db (\<lambda>t. 5) 7 6000 31
     \<lparr>ti_account = 12, ti_description = [], ti_from = 1000, ti_until = 4000\<rparr>"

lemma sample_statement_credits:
  "(case sample_statement of Inl e \<Rightarrow> None | Inr (st, d) \<Rightarrow> Some (sm_endCredits (sm_row st))) = Some 100"
  by code_simp

lemma statement_reproducible_witness:
  "\<exists>st d. sample_statement = Inr (st, d) \<and> sm_endCredits (sm_row st) = 100 \<and> statement_ok d (\<lambda>t. 5) (sm_row st)"
proof -
  obtain st d where s: "sample_statement = Inr (st, d)" "sm_endCredits (sm_row st) = 100"
    using sample_statement_credits by (auto split: sum.splits)
  then show ?thesis
    using statement_reproducible [OF sample_db_reachable s(1) [unfolded sample_statement_def] _ rtranclp.rtrancl_refl]
    by auto
qed

section \<open>Lists\<close>

interpretation accounts: listing db_accounts ac_id db_inv
  by unfold_locales (use db_invD(2) in \<open>auto simp: rows_wf_def\<close>)

interpretation holds: listing db_holds h_id db_inv
  by unfold_locales (use db_invD(4) in \<open>auto simp: holds_inv_def\<close>)

interpretation schedules: listing db_schedules sc_id schedules_inv
  by unfold_locales (simp add: schedules_inv_def)

interpretation categories: listing db_categories cg_id graph_inv
  by unfold_locales (simp add: graph_inv_def)

fun follow :: "db \<Rightarrow> scheduleList \<Rightarrow> nat \<Rightarrow> schedule list res" where
  "follow d i 0 = Inr []"
| "follow d i (Suc n) =
     bindR (listSchedules d i) (\<lambda>pg.
       if pg = [] then Inr [] else bindR (follow d (i\<lparr>sk_before := sc_id (last pg)\<rparr>) n) (\<lambda>rest. Inr (pg @ rest)))"

definition schedule_filters :: "string set" where
  "schedule_filters = set ([] # map schedule_status_text [Scheduled, Executed, ScheduleFailed, Canceled])"

lemma follow_pages:
  "limit_ok (sk_limit i) \<Longrightarrow> sk_status i \<in> schedule_filters \<Longrightarrow> follow d i n =
    Inr (read_pages sc_id (listed_schedule i) (nat (sk_limit i)) (db_schedules d) n (sk_before i))"
proof (induction n arbitrary: i)
  case 0
  show ?case by simp
next
  case (Suc n)
  have "listed_schedule (i\<lparr>sk_before := b\<rparr>) = listed_schedule i" for b by (rule ext) (simp add: listed_schedule_def)
  then show ?case using Suc by (simp add: listSchedules_def schedule_filters_def Let_def)
qed

text \<open>
  A client that follows the cursor of \<^verbatim>\<open>listSchedules\<close> from page to page reads every schedule with the
  status it asks for exactly once, for every page size the service allows, and the pages end.
\<close>

theorem schedules_read_once:
  assumes "reachable d" "\<forall>s \<in> set (db_schedules d). sc_id s \<noteq> 0" "limit_ok (sk_limit i)" "sk_before i = 0"
    and "length (db_schedules d) < n" "sk_status i \<in> schedule_filters"
  shows "\<exists>ss. follow d i n = Inr ss \<and> distinct (map sc_id ss) \<and>
    set ss = {s \<in> set (db_schedules d). listed_schedule i s}"
proof -
  have "0 < nat (sk_limit i)" using assms(3) by (simp add: limit_ok_def)
  from schedules.reads_once [OF reachable_schedules [OF assms(1)] assms(2) this assms(5)] show ?thesis
    using follow_pages [OF assms(3,6), of d n] assms(4) by auto
qed

definition sample_schedule_input :: scheduleInput where
  "sample_schedule_input = \<lparr>si_post = sample_post ''s'' Posted [plain_posting 11 Debit 5 [], plain_posting 12 Credit 5 []],
     si_executeAt = 4000\<rparr>"

definition sample_schedule :: "(schedule \<times> bool \<times> db) res" where
  "sample_schedule = schedule_txn sample_db 3000 41 sample_schedule_input"

definition sample_scheduled :: db where
  "sample_scheduled = snd (snd (projr sample_schedule))"

lemma sample_schedule_runs: "\<not> isl sample_schedule"
  by code_simp

lemma sample_scheduled_reachable: "reachable sample_scheduled"
proof -
  obtain s b where s: "schedule_txn sample_db 3000 41 sample_schedule_input = Inr (s, b, sample_scheduled)"
    using sample_schedule_runs unfolding sample_scheduled_def sample_schedule_def
    by (cases "schedule_txn sample_db 3000 41 sample_schedule_input") auto
  have "amounts_ok (in_postings (si_post sample_schedule_input))"
    by (simp add: sample_schedule_input_def sample_post_def amounts_ok_def plain_posting_def in_range_def)
  then have "service_step sample_db sample_scheduled" by (rule service_step.schedule [OF s])
  then show ?thesis using sample_db_reachable unfolding reachable_def by (meson rtranclp.rtrancl_into_rtrancl)
qed

lemma sample_scheduled_rows:
  "map sc_id (db_schedules sample_scheduled) = [41] \<and> map sc_status (db_schedules sample_scheduled) = [Scheduled] \<and>
   map sc_id (due_schedules sample_scheduled 5000 (\<lambda>i. False) 10) = [41]"
  by code_simp

lemma schedules_read_once_witness:
  "\<exists>ss. follow sample_scheduled \<lparr>sk_status = ''scheduled'', sk_before = 0, sk_limit = 1\<rparr> 2 = Inr ss \<and>
     sc_id ` set ss = {41}"
proof -
  let ?i = "\<lparr>sk_status = ''scheduled'', sk_before = 0, sk_limit = 1\<rparr>"
  obtain s where s: "db_schedules sample_scheduled = [s]" "sc_id s = 41" "sc_status s = Scheduled"
    using sample_scheduled_rows by (auto simp: length_Suc_conv Cons_eq_map_conv map_eq_Cons_conv)
  have "limit_ok (sk_limit ?i)" by (simp add: limit_ok_def maxListLimit_def)
  from schedules_read_once [OF sample_scheduled_reachable _ this, of 2] show ?thesis
    using s by (auto simp: listed_schedule_def opt_matches_def nullString_def schedule_filters_def image_iff)
qed

section \<open>Schedules\<close>

text \<open>
  C34. Running what is due settles it: the schedules that were taken are the due ones that no other worker has
  locked, each is applied as a request under its own key, and the result at its place is what it becomes:
  executed, with the transaction of that result, which is stored under the key of the schedule, or failed, with
  the reason. The two counts are the numbers of the executed and of the failed ones, and every other schedule
  stays as it was.
\<close>

definition settled_as :: "db \<Rightarrow> gotime \<Rightarrow> schedule \<Rightarrow> postingResult \<Rightarrow> bool" where
  "settled_as d now s r \<longleftrightarrow>
     (\<exists>s'. selectSchedule d (sc_id s) = Inr s' \<and> sc_key s' = sc_key s \<and> sc_request s' = sc_request s \<and>
        sc_resolvedAt s' = Some now \<and>
        (case r of
           Success t _ \<Rightarrow> sc_status s' = Executed \<and> sc_txn s' = Some (t_id t) \<and> sc_failure s' = None \<and>
             (\<exists>x. txn_by d (t_id t) = Some x \<and> tr_key x = sc_key s)
         | Failure e \<Rightarrow> sc_status s' = ScheduleFailed \<and> sc_txn s' = None \<and> sc_failure s' = Some e))"

theorem due_schedules_settle:
  assumes "reachable d" "executeDue d now fresh skip limit = Inr (n, m, d')"
    and "due = due_schedules d now skip limit"
  shows "\<exists>rs. length rs = length due \<and>
    (due = [] \<or> (\<exists>d1. applyRequests d now fresh (map schedule_request due) False = Applied rs d1)) \<and>
    n = length (filter (\<lambda>r. \<not> result_failed r) rs) \<and> m = length (filter result_failed rs) \<and>
    (\<forall>k < length due. settled_as d' now (due ! k) (rs ! k)) \<and>
    (\<forall>i. i \<notin> sc_id ` set due \<longrightarrow> selectSchedule d' i = selectSchedule d i) \<and>
    (\<forall>s \<in> set due. s \<in> set (db_schedules d) \<and> sc_status s = Scheduled \<and> sc_executeAt s \<le> now \<and> \<not> skip (sc_id s))"
proof (rule executeDue_resolves [OF assms(2) reachable_db [OF assms(1)] reachable_schedules [OF assms(1)],
    folded assms(3)])
  fix rs
  assume rs: "length rs = length due" "n = length (filter (\<lambda>r. \<not> result_failed r) rs)"
      "m = length (filter result_failed rs)"
      "due = [] \<or> (\<exists>d1. applyRequests d now fresh (map schedule_request due) False = Applied rs d1)"
    and row: "\<And>k. k < length rs \<Longrightarrow> row_by sc_id (db_schedules d') (sc_id (due ! k)) =
      Some (schedule_outcome now (rs ! k) (due ! k))"
    and txn: "\<And>k t r. k < length rs \<Longrightarrow> rs ! k = Success t r \<Longrightarrow> known d' (sc_key (due ! k)) (t_id t)"
    and other: "\<And>i. i \<notin> sc_id ` set due \<Longrightarrow> row_by sc_id (db_schedules d') i = row_by sc_id (db_schedules d) i"
  have "settled_as d' now (due ! k) (rs ! k)" if "k < length due" for k
    using row [of k] txn [of k] that rs(1)
    by (cases "rs ! k") (auto simp: settled_as_def selectSchedule_def known_def)
  moreover have "\<forall>s \<in> set due. s \<in> set (db_schedules d) \<and> sc_status s = Scheduled \<and> sc_executeAt s \<le> now \<and>
      \<not> skip (sc_id s)"
    unfolding assms(3) due_schedules_def by (auto dest!: in_set_takeD)
  ultimately show ?thesis using rs other by (auto simp: selectSchedule_def)
qed

lemma sample_due:
  "(case executeDue sample_scheduled 5000 (\<lambda>n. 900 + n) (\<lambda>i. False) 10 of
      Inl e \<Rightarrow> None | Inr (n, m, d) \<Rightarrow> Some (n, m)) = Some (1, 0)"
  by code_simp

lemma due_schedules_settle_witness:
  "\<exists>n m d s t. executeDue sample_scheduled 5000 (\<lambda>n. 900 + n) (\<lambda>i. False) 10 = Inr (n, m, d) \<and> n = 1 \<and> m = 0 \<and>
     selectSchedule d 41 = Inr s \<and> sc_status s = Executed \<and> sc_txn s = Some t \<and> txn_by d t \<noteq> None"
proof -
  obtain d where e: "executeDue sample_scheduled 5000 (\<lambda>n. 900 + n) (\<lambda>i. False) 10 = Inr (1, 0, d)"
    using sample_due by (auto split: sum.splits prod.splits)
  obtain s where due: "due_schedules sample_scheduled 5000 (\<lambda>i. False) 10 = [s]" "sc_id s = 41"
    using sample_scheduled_rows by (auto simp: map_eq_Cons_conv)
  obtain rs where "length rs = 1" "1 = length (filter (\<lambda>r. \<not> result_failed r) rs)"
    and "settled_as d 5000 s (rs ! 0)"
    using due_schedules_settle [OF sample_scheduled_reachable e refl] due by auto
  moreover from this(1,2) obtain t b where "rs ! 0 = Success t b"
    by (cases "rs ! 0") (auto simp: length_Suc_conv)
  ultimately show ?thesis using e due(2) by (auto simp: settled_as_def)
qed

end
