(* ===== verification/Seal_Encoding.thy ===== *)
theory Seal_Encoding
  imports Store
begin

text \<open>
  The bytes that \<^verbatim>\<open>seal.go\<close> hashes: \<^verbatim>\<open>entryHash\<close> and \<^verbatim>\<open>entryHashV3\<close> write a posted transaction field by
  field, numbers in big-endian order and texts behind their length. A \<^verbatim>\<open>[]byte\<close> is a list of characters. The
  laws: a reader that knows the layout can tell the fields apart, so two transactions with the same bytes have
  the same fields.
\<close>

type_synonym bytes = string

section \<open>Big-endian numbers\<close>

fun big_endian :: "nat \<Rightarrow> nat \<Rightarrow> bytes" where
  "big_endian 0 x = []"
| "big_endian (Suc n) x = big_endian n (x div 256) @ [char_of (x mod 256)]"

text \<open>\<^verbatim>\<open>binary.Write\<close> of an \<^verbatim>\<open>int64\<close> and of a \<^verbatim>\<open>uint32\<close>, and the sixteen bytes of a \<^verbatim>\<open>uuid.UUID\<close>.\<close>

definition put_int64 :: "int \<Rightarrow> bytes" where
  "put_int64 n = big_endian 8 (nat (n mod 2 ^ 64))"

definition put_uint32 :: "nat \<Rightarrow> bytes" where
  "put_uint32 n = big_endian 4 (n mod 2 ^ 32)"

definition put_uuid :: "uuid \<Rightarrow> bytes" where
  "put_uuid i = big_endian 16 i"

text \<open>\<^verbatim>\<open>Amount.AppendBinary\<close>, on the record and on the number it stands for.\<close>

definition amount_AppendBinary :: "amount \<Rightarrow> bytes \<Rightarrow> bytes" where
  "amount_AppendBinary a b = b @ big_endian 8 (unat (hi a)) @ big_endian 8 (unat (lo a))"

definition put_amount :: "int \<Rightarrow> bytes" where
  "put_amount n = big_endian 16 (nat (n mod 2 ^ 128))"

definition fits_int64 :: "int \<Rightarrow> bool" where
  "fits_int64 n \<longleftrightarrow> - (2 ^ 63) \<le> n \<and> n < 2 ^ 63"

definition writeBytes :: "bytes \<Rightarrow> bytes" where
  "writeBytes b = put_uint32 (length b) @ b"

section \<open>Transactions\<close>

fun side_text :: "side \<Rightarrow> bytes" where
  "side_text Debit = ''debit''"
| "side_text Credit = ''credit''"
| "side_text (OtherSide s) = s"

text \<open>\<open>time.UnixMicro\<close>: microseconds since 1970.\<close>

definition unixMicro :: "gotime \<Rightarrow> int" where
  "unixMicro t = (t - 62135596800 * 10 ^ 9) div 1000"

definition put_reverses :: "uuid option \<Rightarrow> bytes" where
  "put_reverses r = (case r of None \<Rightarrow> [char_of (0::nat)] | Some i \<Rightarrow> char_of (1::nat) # put_uuid i)"

definition put_posting :: "(int \<Rightarrow> bytes) \<Rightarrow> posting \<Rightarrow> bytes" where
  "put_posting number p =
     put_uuid (p_account p) @ writeBytes (p_currency p) @ writeBytes (side_text (p_side p)) @
     number (p_amount p) @ number (p_balanceAfter p)"

text \<open>The metadata are written as PostgreSQL renders them, which is the argument \<open>render\<close>.\<close>

definition entry_bytes :: "(jvalue \<Rightarrow> bytes) \<Rightarrow> transaction \<Rightarrow> bytes" where
  "entry_bytes render t =
     (let v1 = list_all (\<lambda>p. fits_int64 (p_amount p) \<and> fits_int64 (p_balanceAfter p)) (t_postings t)
      in char_of (if v1 then 1 else 2 :: nat) # put_uuid (t_id t) @ writeBytes (t_key t) @
         writeBytes (t_description t) @ writeBytes (render (t_metadata t)) @ put_reverses (t_reverses t) @
         put_int64 (unixMicro (t_createdAt t)) @ put_uint32 (length (t_postings t)) @
         concat (map (put_posting (if v1 then put_int64 else put_amount)) (t_postings t)))"

definition entry_bytes_v3 :: "(jvalue \<Rightarrow> bytes) \<Rightarrow> transaction \<Rightarrow> bytes" where
  "entry_bytes_v3 render t =
     char_of (3::nat) # put_uuid (t_id t) @ put_uuid (t_ledger t) @ writeBytes (t_key t) @
     writeBytes (t_externalID t) @ writeBytes (t_description t) @ writeBytes (render (t_metadata t)) @
     put_reverses (t_reverses t) @ put_int64 (unixMicro (t_createdAt t)) @
     put_int64 (unixMicro (t_effectiveAt t)) @
     put_int64 (case t_postedAt t of None \<Rightarrow> 0 | Some p \<Rightarrow> unixMicro p) @
     put_uint32 (length (t_postings t)) @ concat (map (put_posting put_amount) (t_postings t))"

definition sealed_bytes :: "(jvalue \<Rightarrow> bytes) \<Rightarrow> transaction \<Rightarrow> int option \<Rightarrow> bytes" where
  "sealed_bytes render t encoding =
     (case encoding of None \<Rightarrow> entry_bytes render t | Some _ \<Rightarrow> entry_bytes_v3 render t)"

section \<open>Reading the bytes back\<close>

lemma length_big_endian [simp]: "length (big_endian n x) = n"
  by (induction n x rule: big_endian.induct) simp_all

lemma big_endian_inject: "x < 256 ^ n \<Longrightarrow> y < 256 ^ n \<Longrightarrow> big_endian n x = big_endian n y \<longleftrightarrow> x = y"
proof (induction n arbitrary: x y)
  case (Suc n)
  have "x div 256 < 256 ^ n" "y div 256 < 256 ^ n" using Suc.prems by (simp_all add: less_mult_imp_div_less)
  then have "big_endian n (x div 256) = big_endian n (y div 256) \<longleftrightarrow> x div 256 = y div 256" by (rule Suc.IH)
  moreover have "char_of (x mod 256) = (char_of (y mod 256) :: char) \<longleftrightarrow> x mod 256 = y mod 256"
    by (simp add: char_of_eq_iff take_bit_eq_mod)
  ultimately show ?case by (metis append1_eq_conv big_endian.simps(2) div_mult_mod_eq)
qed simp

lemma big_endian_append_inject [simp]:
  "big_endian n x @ r = big_endian n y @ s \<longleftrightarrow> big_endian n x = big_endian n y \<and> r = s"
  by (simp add: append_eq_append_conv)

lemma big_endian_split: "big_endian (m + n) x = big_endian m (x div 256 ^ n) @ big_endian n x"
  by (induction n arbitrary: x) (simp_all add: div_mult2_eq)

lemma big_endian_mod: "big_endian n (x mod 256 ^ n) = big_endian n x"
proof (induction n arbitrary: x)
  case (Suc n)
  have "x mod 256 ^ Suc n = 256 * (x div 256 mod 256 ^ n) + x mod 256" by (simp add: mod_mult2_eq)
  then have "x mod 256 ^ Suc n div 256 = x div 256 mod 256 ^ n" "x mod 256 ^ Suc n mod 256 = x mod 256" by simp_all
  then show ?case using Suc.IH [of "x div 256"] by simp
qed simp

lemma mod_small_inject: "\<bar>x - y\<bar> < m \<Longrightarrow> nat (x mod m) = nat (y mod m) \<longleftrightarrow> x = y" for x y :: int
proof
  assume m: "\<bar>x - y\<bar> < m" and "nat (x mod m) = nat (y mod m)"
  then have "x mod m = y mod m" by (smt (verit) eq_nat_nat_iff pos_mod_sign)
  then have "m dvd x - y" by (rule mod_eq_dvd_iff [THEN iffD1])
  then show "x = y" using dvd_imp_le_int [of "x - y" m] m by fastforce
qed simp

lemma amount_AppendBinary_eq: "amount_AppendBinary a b = b @ put_amount (aval a)"
proof -
  have n: "nat (aval a mod 2 ^ 128) = unat (hi a) * 256 ^ 8 + unat (lo a)"
  proof -
    have "sint (hi a) mod 2 ^ 64 = uint (hi a)" by (simp add: uint_sint take_bit_eq_mod)
    then have k: "sint (hi a) = uint (hi a) + sint (hi a) div 2 ^ 64 * 2 ^ 64"
      by (metis div_mult_mod_eq add.commute)
    have "aval a = (uint (hi a) * 2 ^ 64 + uint (lo a)) + sint (hi a) div 2 ^ 64 * 2 ^ 128"
      unfolding aval_def by (subst k) (simp add: algebra_simps)
    moreover have "0 \<le> uint (hi a) * 2 ^ 64 + uint (lo a)" "uint (hi a) * 2 ^ 64 + uint (lo a) < 2 ^ 128"
      using uint_bounded [of "hi a"] uint_bounded [of "lo a"] by simp_all
    ultimately have "aval a mod 2 ^ 128 = uint (hi a) * 2 ^ 64 + uint (lo a)"
      by (metis mod_mult_self1 mod_pos_pos_trivial)
    then show ?thesis by (simp add: nat_add_distrib nat_mult_distrib)
  qed
  let ?n = "unat (hi a) * 256 ^ 8 + unat (lo a)"
  have l: "unat (lo a) < 256 ^ 8" using unsigned_less [of "lo a"] by simp
  then have "?n div 256 ^ 8 = unat (hi a)" by simp
  moreover have "big_endian 8 ?n = big_endian 8 (unat (lo a))"
    using big_endian_mod [of 8 ?n] big_endian_mod [of 8 "unat (lo a)"] by simp
  ultimately have "big_endian (8 + 8) ?n = big_endian 8 (unat (hi a)) @ big_endian 8 (unat (lo a))"
    by (simp only: big_endian_split)
  then show ?thesis unfolding amount_AppendBinary_def put_amount_def n by simp
qed

lemma amount_Int64_fits: "snd (amount_Int64 a) \<longleftrightarrow> fits_int64 (aval a)"
proof
  assume "snd (amount_Int64 a)"
  then have "aval a = sint (fst (amount_Int64 a))"
    using amount_Int64_val [of a "fst (amount_Int64 a)"] by (cases "amount_Int64 a") simp
  then show "fits_int64 (aval a)"
    using sint_greater_eq [of "fst (amount_Int64 a)"] sint_less [of "fst (amount_Int64 a)"]
    by (simp add: fits_int64_def)
next
  assume f: "fits_int64 (aval a)"
  then have "sint (word_of_int (aval a) :: 64 word) = aval a"
    using mod_pos_pos_trivial [of "aval a + 2 ^ 63" "2 ^ 64"] by (simp add: int_word_sint fits_int64_def)
  then have "aval a = aval (newAmount (word_of_int (aval a)))" by (simp add: newAmount_val)
  then have "a = newAmount (word_of_int (aval a))" by (rule aval_inject [THEN iffD1])
  then obtain n where "a = newAmount n" by blast
  then show "snd (amount_Int64 a)" by (simp add: amount_Int64_def newAmount_def)
qed

section \<open>Fields\<close>

lemma put_int64_append [simp]: "put_int64 x @ r = put_int64 y @ s \<longleftrightarrow> put_int64 x = put_int64 y \<and> r = s"
  by (simp add: put_int64_def)

lemma put_uint32_append [simp]: "put_uint32 x @ r = put_uint32 y @ s \<longleftrightarrow> put_uint32 x = put_uint32 y \<and> r = s"
  by (simp add: put_uint32_def)

lemma put_uuid_append [simp]: "put_uuid x @ r = put_uuid y @ s \<longleftrightarrow> put_uuid x = put_uuid y \<and> r = s"
  by (simp add: put_uuid_def)

lemma put_amount_append [simp]: "put_amount x @ r = put_amount y @ s \<longleftrightarrow> put_amount x = put_amount y \<and> r = s"
  by (simp add: put_amount_def)

lemma big_endian_int_inject:
  "\<bar>x - y\<bar> < 256 ^ n \<Longrightarrow> big_endian n (nat (x mod 256 ^ n)) = big_endian n (nat (y mod 256 ^ n)) \<longleftrightarrow> x = y"
  for x y :: int
proof -
  assume d: "\<bar>x - y\<bar> < 256 ^ n"
  have "nat (z mod 256 ^ n) < 256 ^ n" for z :: int
    by (simp add: nat_less_iff)
  then show ?thesis by (simp add: big_endian_inject mod_small_inject [OF d])
qed

lemma put_int64_inject: "fits_int64 x \<Longrightarrow> fits_int64 y \<Longrightarrow> put_int64 x = put_int64 y \<longleftrightarrow> x = y"
proof -
  assume "fits_int64 x" "fits_int64 y"
  then have "\<bar>x - y\<bar> < 256 ^ 8" unfolding fits_int64_def by simp linarith
  then show ?thesis using big_endian_int_inject [of x y 8] by (simp add: put_int64_def)
qed

lemma put_amount_inject: "in_range x \<Longrightarrow> in_range y \<Longrightarrow> put_amount x = put_amount y \<longleftrightarrow> x = y"
proof -
  assume "in_range x" "in_range y"
  then have "\<bar>x - y\<bar> < 256 ^ 16" unfolding in_range_def by simp
  then show ?thesis using big_endian_int_inject [of x y 16] by (simp add: put_amount_def)
qed

lemma put_uint32_inject: "x < 2 ^ 32 \<Longrightarrow> y < 2 ^ 32 \<Longrightarrow> put_uint32 x = put_uint32 y \<longleftrightarrow> x = y"
  by (simp add: put_uint32_def big_endian_inject)

lemma put_uuid_inject: "x < 2 ^ 128 \<Longrightarrow> y < 2 ^ 128 \<Longrightarrow> put_uuid x = put_uuid y \<longleftrightarrow> x = y"
  by (simp add: put_uuid_def big_endian_inject)

lemma writeBytes_append:
  "length a < 2 ^ 32 \<Longrightarrow> length b < 2 ^ 32 \<Longrightarrow> writeBytes a @ r = writeBytes b @ s \<longleftrightarrow> a = b \<and> r = s"
  by (auto simp: writeBytes_def put_uint32_inject)

lemma put_reverses_append:
  "(\<forall>i. a = Some i \<longrightarrow> i < 2 ^ 128) \<Longrightarrow> (\<forall>i. b = Some i \<longrightarrow> i < 2 ^ 128) \<Longrightarrow>
    put_reverses a @ r = put_reverses b @ s \<longleftrightarrow> a = b \<and> r = s"
  by (cases a; cases b) (auto simp: put_reverses_def put_uuid_inject char_of_eq_iff)

section \<open>Transactions with the same bytes\<close>

definition posting_fields :: "posting \<Rightarrow> uuid \<times> string \<times> side \<times> int \<times> int" where
  "posting_fields p = (p_account p, p_currency p, p_side p, p_amount p, p_balanceAfter p)"

definition posting_fits :: "posting \<Rightarrow> bool" where
  "posting_fits p \<longleftrightarrow> p_account p < 2 ^ 128 \<and> length (p_currency p) < 2 ^ 32 \<and> side_valid (p_side p) \<and>
     in_range (p_amount p) \<and> in_range (p_balanceAfter p)"

text \<open>A transaction within the bounds of its columns and of the integers of the encoding.\<close>

definition content_fits :: "(jvalue \<Rightarrow> bytes) \<Rightarrow> transaction \<Rightarrow> bool" where
  "content_fits render t \<longleftrightarrow>
     t_id t < 2 ^ 128 \<and> t_ledger t < 2 ^ 128 \<and> length (t_key t) < 2 ^ 32 \<and> length (t_externalID t) < 2 ^ 32 \<and>
     length (t_description t) < 2 ^ 32 \<and> length (render (t_metadata t)) < 2 ^ 32 \<and>
     (\<forall>i. t_reverses t = Some i \<longrightarrow> i < 2 ^ 128) \<and> fits_int64 (unixMicro (t_createdAt t)) \<and>
     fits_int64 (unixMicro (t_effectiveAt t)) \<and>
     fits_int64 (case t_postedAt t of None \<Rightarrow> 0 | Some p \<Rightarrow> unixMicro p) \<and>
     length (t_postings t) < 2 ^ 32 \<and> list_all posting_fits (t_postings t)"

definition same_content :: "(jvalue \<Rightarrow> bytes) \<Rightarrow> transaction \<Rightarrow> transaction \<Rightarrow> bool" where
  "same_content render t t' \<longleftrightarrow>
     t_id t = t_id t' \<and> t_ledger t = t_ledger t' \<and> t_key t = t_key t' \<and> t_externalID t = t_externalID t' \<and>
     t_description t = t_description t' \<and> render (t_metadata t) = render (t_metadata t') \<and>
     t_reverses t = t_reverses t' \<and> unixMicro (t_createdAt t) = unixMicro (t_createdAt t') \<and>
     unixMicro (t_effectiveAt t) = unixMicro (t_effectiveAt t') \<and>
     (case t_postedAt t of None \<Rightarrow> 0 | Some p \<Rightarrow> unixMicro p) =
       (case t_postedAt t' of None \<Rightarrow> 0 | Some p \<Rightarrow> unixMicro p) \<and>
     map posting_fields (t_postings t) = map posting_fields (t_postings t')"

lemma side_text_append:
  "side_valid a \<Longrightarrow> side_valid b \<Longrightarrow> writeBytes (side_text a) @ r = writeBytes (side_text b) @ s \<longleftrightarrow> a = b \<and> r = s"
  by (subst writeBytes_append) auto

lemma put_posting_append:
  assumes "posting_fits p" "posting_fits q"
  shows "put_posting put_amount p @ r = put_posting put_amount q @ s \<longleftrightarrow> posting_fields p = posting_fields q \<and> r = s"
  using assms
  by (simp add: put_posting_def posting_fits_def posting_fields_def put_uuid_inject writeBytes_append side_text_append
      put_amount_inject del: side_valid.simps)

lemma put_postings_inject:
  assumes "length ps = length qs" "list_all posting_fits ps" "list_all posting_fits qs"
  shows "concat (map (put_posting put_amount) ps) = concat (map (put_posting put_amount) qs) \<longleftrightarrow>
    map posting_fields ps = map posting_fields qs"
  using assms by (induction ps qs rule: list_induct2) (simp_all add: put_posting_append)

lemma entry_bytes_v3_same:
  assumes "content_fits render t" "content_fits render t'"
  shows "entry_bytes_v3 render t = entry_bytes_v3 render t' \<longleftrightarrow> same_content render t t'"
proof -
  have num: "put_uint32 (length (t_postings t)) = put_uint32 (length (t_postings t')) \<longleftrightarrow>
      length (t_postings t) = length (t_postings t')"
    using assms by (intro put_uint32_inject) (simp_all add: content_fits_def)
  have ps: "length (t_postings t) = length (t_postings t') \<and>
      concat (map (put_posting put_amount) (t_postings t)) = concat (map (put_posting put_amount) (t_postings t')) \<longleftrightarrow>
      map posting_fields (t_postings t) = map posting_fields (t_postings t')"
    using assms put_postings_inject [of "t_postings t" "t_postings t'"]
    by (auto simp: content_fits_def dest: map_eq_imp_length_eq)
  show ?thesis
    using assms unfolding entry_bytes_v3_def same_content_def content_fits_def
    by (simp add: put_uuid_inject writeBytes_append put_reverses_append put_int64_inject num ps)
qed

text \<open>
  The encoding that is hashed leaves nothing out and mixes nothing up: two transactions have the same
  bytes exactly when they agree on every field that is sealed.
\<close>

theorem entry_bytes_v3_content:
  assumes "content_fits render t" "content_fits render t'"
  shows "entry_bytes_v3 render t = entry_bytes_v3 render t' \<longleftrightarrow> same_content render t t'"
  by (rule entry_bytes_v3_same [OF assms])

definition sample_sealed :: transaction where
  "sample_sealed = \<lparr>t_id = 100, t_ledger = 1, t_key = ''d'', t_externalID = [], t_status = Posted, t_version = 1,
     t_description = [], t_metadata = empty_object, t_reverses = None,
     t_postings = [plain_posting 11 Debit 100 ''EUR'', plain_posting 12 Credit 100 ''EUR''],
     t_effectiveAt = 62135596800 * 10 ^ 9, t_createdAt = 62135596800 * 10 ^ 9,
     t_postedAt = Some (62135596800 * 10 ^ 9), t_archivedAt = None, t_request = None, t_entriesVersion = 1\<rparr>"

lemma entry_bytes_v3_content_witness:
  "entry_bytes_v3 (\<lambda>m. ''{}'') sample_sealed \<noteq> entry_bytes_v3 (\<lambda>m. ''{}'') (sample_sealed\<lparr>t_externalID := ''x''\<rparr>)"
proof -
  have "content_fits (\<lambda>m. ''{}'') sample_sealed" "content_fits (\<lambda>m. ''{}'') (sample_sealed\<lparr>t_externalID := ''x''\<rparr>)"
    by (simp_all add: content_fits_def sample_sealed_def posting_fits_def plain_posting_def in_range_def
        fits_int64_def unixMicro_def)
  from entry_bytes_v3_content [OF this] show ?thesis by (simp add: same_content_def sample_sealed_def)
qed

end
