(* ===== verification/Seal.thy ===== *)
theory Seal
  imports Seal_Encoding History Verify "HOL-Library.Product_Lexorder"
begin

text \<open>
  \<^verbatim>\<open>seal.go\<close>: every posted transaction is sealed once, in the order of commit, by a row that holds the hash of
  its bytes and a keyed hash over the row before it. \<open>sha\<close> is \<^verbatim>\<open>sha256.Sum256\<close>, \<open>mac\<close> is the HMAC under the key
  of the sealer. A PostgreSQL database transaction posts under the number \<open>xid\<close>; \<open>xmin\<close> is the smallest
  number that is still running, so that what is posted below it is known.
\<close>

record seal_row =
  se_seq :: int
  se_txn :: uuid
  se_entry :: bytes
  se_chain :: bytes
  se_encoding :: "int option"

record chainHead =
  ch_seq :: int
  ch_hash :: bytes

text \<open>The table of seals, and the highest sequence number that this process has seen.\<close>

record sealer =
  sl_rows :: "seal_row list"
  sl_highest :: int

definition genesis :: bytes where
  "genesis = replicate 32 (char_of (0::nat))"

definition verifyPageSize :: nat where
  "verifyPageSize = 1000"

definition seal_link :: "(bytes \<Rightarrow> bytes) \<Rightarrow> bytes \<Rightarrow> int \<Rightarrow> bytes \<Rightarrow> bytes" where
  "seal_link mac prev seq entry = mac (prev @ put_int64 seq @ entry)"

definition sealedHash ::
  "(bytes \<Rightarrow> bytes) \<Rightarrow> (jvalue \<Rightarrow> bytes) \<Rightarrow> transaction \<Rightarrow> int option \<Rightarrow> bytes" where
  "sealedHash sha render t encoding = sha (sealed_bytes render t encoding)"

section \<open>The order of commit\<close>

definition commit_key :: "(uuid \<Rightarrow> nat) \<Rightarrow> uuid \<Rightarrow> nat \<times> uuid" where
  "commit_key xid i = (xid i, i)"

text \<open>The last row of the chain that joins a transaction.\<close>

definition seal_head :: "db \<Rightarrow> (uuid \<Rightarrow> nat) \<Rightarrow> seal_row list \<Rightarrow> (nat \<times> uuid) option" where
  "seal_head d xid rows =
     (case rev (sort_key se_seq (filter (\<lambda>s. txn_by d (se_txn s) \<noteq> None) rows)) of
        [] \<Rightarrow> None | s # _ \<Rightarrow> Some (commit_key xid (se_txn s)))"

definition unsealed_txns :: "db \<Rightarrow> (uuid \<Rightarrow> nat) \<Rightarrow> nat \<Rightarrow> seal_row list \<Rightarrow> nat \<Rightarrow> uuid list" where
  "unsealed_txns d xid xmin rows limit =
     take limit (map tr_id (sort_key (\<lambda>t. commit_key xid (tr_id t))
       (filter (\<lambda>t. tr_status t = Posted \<and> xid (tr_id t) < xmin \<and>
            (case seal_head d xid rows of None \<Rightarrow> True | Some h \<Rightarrow> h < commit_key xid (tr_id t)))
          (db_txns d))))"

definition selectTransactionsInCommitOrder :: "db \<Rightarrow> (uuid \<Rightarrow> nat) \<Rightarrow> uuid list \<Rightarrow> transaction list" where
  "selectTransactionsInCommitOrder d xid ids =
     sort_key (\<lambda>t. commit_key xid (t_id t)) (selectTransactions d (\<lambda>r. tr_id r \<in> set ids))"

section \<open>Sealing\<close>

definition loadVerifiedHead :: "(bytes \<Rightarrow> bytes) \<Rightarrow> seal_row list \<Rightarrow> chainHead res" where
  "loadVerifiedHead mac rows =
     (case rev (sort_key se_seq rows) of
        [] \<Rightarrow> Inr \<lparr>ch_seq = 0, ch_hash = genesis\<rparr>
      | s # _ \<Rightarrow>
          let prev = (case row_by se_seq rows (se_seq s - 1) of None \<Rightarrow> genesis | Some p \<Rightarrow> se_chain p)
          in if seal_link mac prev (se_seq s) (se_entry s) \<noteq> se_chain s then Inl (ErrInternal ''seal key'')
             else Inr \<lparr>ch_seq = se_seq s, ch_hash = se_chain s\<rparr>)"

text \<open>The loop over the transactions: the rows, and the new head.\<close>

fun link_all ::
  "(bytes \<Rightarrow> bytes) \<Rightarrow> (bytes \<Rightarrow> bytes) \<Rightarrow> (jvalue \<Rightarrow> bytes) \<Rightarrow> chainHead \<Rightarrow> transaction list \<Rightarrow>
   seal_row list \<times> chainHead" where
  "link_all sha mac render head [] = ([], head)"
| "link_all sha mac render head (t # ts) =
     (let seq = ch_seq head + 1; entry = sha (entry_bytes_v3 render t);
          chain = seal_link mac (ch_hash head) seq entry;
          (rows, head') = link_all sha mac render \<lparr>ch_seq = seq, ch_hash = chain\<rparr> ts
      in (\<lparr>se_seq = seq, se_txn = t_id t, se_entry = entry, se_chain = chain, se_encoding = Some 3\<rparr> # rows, head'))"

text \<open>The constraints of the table: a sequence number is positive and used once, and so is a transaction.\<close>

definition insert_seals :: "seal_row list \<Rightarrow> seal_row list \<Rightarrow> seal_row list res" where
  "insert_seals rows new =
     (if \<exists>s \<in> set new. se_seq s \<le> 0 then Inl (ErrConstraint ''ledger_seals_seq_check'')
      else if \<not> distinct (map se_seq (rows @ new)) then Inl (ErrConstraint ''ledger_seals_pkey'')
      else if \<not> distinct (map se_txn (rows @ new)) then Inl (ErrConstraint ''ledger_seals_transaction_id_key'')
      else Inr (rows @ new))"

text \<open>\<open>locked\<close> tells whether the advisory lock was free. The highest number is kept when there was no error.\<close>

definition seal ::
  "(bytes \<Rightarrow> bytes) \<Rightarrow> (bytes \<Rightarrow> bytes) \<Rightarrow> (jvalue \<Rightarrow> bytes) \<Rightarrow> db \<Rightarrow> (uuid \<Rightarrow> nat) \<Rightarrow> nat \<Rightarrow> bool \<Rightarrow> nat \<Rightarrow>
   sealer \<Rightarrow> (nat \<times> chainHead \<times> sealer) res" where
  "seal sha mac render d xid xmin locked limit sl =
     (let seen = (\<lambda>head. max (sl_highest sl) (ch_seq head)) in
      if \<not> locked then Inr (0, \<lparr>ch_seq = 0, ch_hash = []\<rparr>, sl\<lparr>sl_highest := max (sl_highest sl) 0\<rparr>)
      else bindR (loadVerifiedHead mac (sl_rows sl)) (\<lambda>head.
        if ch_seq head < sl_highest sl then Inl (ErrInternal ''chain rewound'')
        else let ids = unsealed_txns d xid xmin (sl_rows sl) limit
             in if ids = [] then Inr (0, head, sl\<lparr>sl_highest := seen head\<rparr>)
                else let txns = selectTransactionsInCommitOrder d xid ids;
                         (new, head') = link_all sha mac render head txns
                     in bindR (insert_seals (sl_rows sl) new) (\<lambda>rows.
                        Inr (length txns, head', \<lparr>sl_rows = rows, sl_highest = seen head'\<rparr>))))"

text \<open>\<^verbatim>\<open>Module.CheckSealKey\<close>, when the process starts.\<close>

definition checkSealKey :: "(bytes \<Rightarrow> bytes) \<Rightarrow> sealer \<Rightarrow> sealer res" where
  "checkSealKey mac sl =
     bindR (loadVerifiedHead mac (sl_rows sl)) (\<lambda>head.
       Inr (sl\<lparr>sl_highest := max (sl_highest sl) (ch_seq head)\<rparr>))"

section \<open>Verifying the chain\<close>

datatype seal_issue =
    SeqGap int int
  | MissingTxn int uuid
  | ContentAltered int uuid
  | ChainBroken int
  | UnsealedBefore uuid
  | UnsealedSince uuid "gotime option"

definition row_issues ::
  "(bytes \<Rightarrow> bytes) \<Rightarrow> (bytes \<Rightarrow> bytes) \<Rightarrow> (jvalue \<Rightarrow> bytes) \<Rightarrow> (uuid \<Rightarrow> transaction option) \<Rightarrow> bytes \<Rightarrow> int \<Rightarrow>
   seal_row \<Rightarrow> seal_issue list" where
  "row_issues sha mac render byID prev expected p =
     (if se_seq p \<noteq> expected then [SeqGap expected (se_seq p)] else []) @
     (case byID (se_txn p) of
        None \<Rightarrow> [MissingTxn (se_seq p) (se_txn p)]
      | Some t \<Rightarrow>
          if sealedHash sha render t (se_encoding p) \<noteq> se_entry p then [ContentAltered (se_seq p) (se_txn p)]
          else []) @
     (if seal_link mac prev (se_seq p) (se_entry p) \<noteq> se_chain p then [ChainBroken (se_seq p)] else [])"

fun check_rows ::
  "(bytes \<Rightarrow> bytes) \<Rightarrow> (bytes \<Rightarrow> bytes) \<Rightarrow> (jvalue \<Rightarrow> bytes) \<Rightarrow> (uuid \<Rightarrow> transaction option) \<Rightarrow> bytes \<Rightarrow> int \<Rightarrow>
   seal_row list \<Rightarrow> seal_issue list \<times> bytes \<times> int" where
  "check_rows sha mac render byID prev expected [] = ([], prev, expected)"
| "check_rows sha mac render byID prev expected (p # ps) =
     (let (rest, final) = check_rows sha mac render byID (se_chain p) (se_seq p + 1) ps
      in (row_issues sha mac render byID prev expected p @ rest, final))"

text \<open>The map \<^verbatim>\<open>byID\<close>: a later transaction with the same id would replace an earlier one.\<close>

definition by_id :: "transaction list \<Rightarrow> uuid \<Rightarrow> transaction option" where
  "by_id ts = map_of (rev (map (\<lambda>t. (t_id t, t)) ts))"

definition seal_page :: "seal_row list \<Rightarrow> int \<Rightarrow> nat \<Rightarrow> seal_row list" where
  "seal_page rows expected limit = take limit (sort_key se_seq (filter (\<lambda>s. expected \<le> se_seq s) rows))"

lemma check_rows_final:
  "check_rows sha mac render byID prev expected ps = (iss, prev', expected') \<Longrightarrow>
    (ps = [] \<longrightarrow> prev' = prev \<and> expected' = expected) \<and>
    (ps \<noteq> [] \<longrightarrow> prev' = se_chain (last ps) \<and> expected' = se_seq (last ps) + 1)"
  by (induction ps arbitrary: prev expected iss) (auto split: prod.splits)

lemma seal_page_member: "s \<in> set (seal_page rows expected limit) \<Longrightarrow> s \<in> set rows \<and> expected \<le> se_seq s"
  by (auto simp: seal_page_def dest!: in_set_takeD)

text \<open>The loop of \<^verbatim>\<open>verifyChain\<close> over the pages.\<close>

function check_pages ::
  "(bytes \<Rightarrow> bytes) \<Rightarrow> (bytes \<Rightarrow> bytes) \<Rightarrow> (jvalue \<Rightarrow> bytes) \<Rightarrow> db \<Rightarrow> (uuid \<Rightarrow> nat) \<Rightarrow> seal_row list \<Rightarrow> nat \<Rightarrow>
   bytes \<Rightarrow> int \<Rightarrow> seal_issue list \<times> bytes \<times> int" where
  "check_pages sha mac render d xid rows limit prev expected =
     (let page = seal_page rows expected limit
      in if page = [] then ([], prev, expected)
         else let txns = selectTransactionsInCommitOrder d xid (map se_txn page);
                  (issues, prev', expected') = check_rows sha mac render (by_id txns) prev expected page;
                  (rest, final) = check_pages sha mac render d xid rows limit prev' expected'
              in (issues @ rest, final))"
  by auto

termination
proof (relation "measure (\<lambda>(sha, mac, render, d, xid, rows, limit, prev, expected).
    length (filter (\<lambda>s. expected \<le> se_seq s) rows))", goal_cases)
  case (2 sha mac render d xid rows limit prev expected page txns x issues y prev' expected')
  let ?s = "last page"
  have s: "?s \<in> set rows" "expected \<le> se_seq ?s"
    using seal_page_member [of ?s rows expected limit] 2(1,2) by auto
  have e: "expected' = se_seq ?s + 1" using check_rows_final [of sha mac render "by_id txns" prev expected page issues prev' expected'] 2 by simp
  have "length (filter (\<lambda>s. expected' \<le> se_seq s) rows) < length (filter (\<lambda>s. expected \<le> se_seq s) rows)"
    using s e
  proof (induction rows)
    case (Cons r rows)
    have "length (filter (\<lambda>s. expected' \<le> se_seq s) rows) \<le> length (filter (\<lambda>s. expected \<le> se_seq s) rows)"
      using Cons.prems(2,3) by (induction rows) auto
    then show ?case using Cons by auto
  qed simp
  then show ?case by simp
qed simp

declare check_pages.simps [simp del]

definition maxSealLag :: gotime where
  "maxSealLag = 60 * 10 ^ 9"

text \<open>The two queries at the end. Every transaction that is posted has a time of posting.\<close>

definition unsealed_issues :: "db \<Rightarrow> (uuid \<Rightarrow> nat) \<Rightarrow> gotime \<Rightarrow> seal_row list \<Rightarrow> seal_issue list" where
  "unsealed_issues d xid now rows =
     (let head = seal_head d xid rows;
          open_txns = filter (\<lambda>t. tr_status t = Posted \<and> tr_id t \<notin> set (map se_txn rows)) (db_txns d);
          before = (\<lambda>t. case head of None \<Rightarrow> False | Some h \<Rightarrow> commit_key xid (tr_id t) \<le> h)
      in map (\<lambda>t. UnsealedBefore (tr_id t)) (filter before open_txns) @
         map (\<lambda>t. UnsealedSince (tr_id t) (tr_postedAt t))
           (filter (\<lambda>t. (case tr_postedAt t of None \<Rightarrow> False | Some p \<Rightarrow> p < now - maxSealLag) \<and> \<not> before t) open_txns))"

definition verifyChain ::
  "(bytes \<Rightarrow> bytes) \<Rightarrow> (bytes \<Rightarrow> bytes) \<Rightarrow> (jvalue \<Rightarrow> bytes) \<Rightarrow> db \<Rightarrow> (uuid \<Rightarrow> nat) \<Rightarrow> gotime \<Rightarrow> seal_row list \<Rightarrow>
   seal_issue list \<times> chainHead" where
  "verifyChain sha mac render d xid now rows =
     (let (issues, prev, expected) = check_pages sha mac render d xid rows verifyPageSize genesis 1
      in (issues @ unsealed_issues d xid now rows, \<lparr>ch_seq = expected - 1, ch_hash = prev\<rparr>))"

text \<open>\<^verbatim>\<open>verify.go\<close>: the report on the totals and on the chain, read in one database transaction.\<close>

record verifyReport =
  vr_ok :: bool
  vr_head :: chainHead
  vr_issues :: "issue list"
  vr_seals :: "seal_issue list"

definition verify ::
  "(bytes \<Rightarrow> bytes) \<Rightarrow> (bytes \<Rightarrow> bytes) \<Rightarrow> (jvalue \<Rightarrow> bytes) \<Rightarrow> db \<Rightarrow> (uuid \<Rightarrow> nat) \<Rightarrow> gotime \<Rightarrow> seal_row list \<Rightarrow>
   verifyReport" where
  "verify sha mac render d xid now rows =
     (let issues = integrity_issues d; (seals, head) = verifyChain sha mac render d xid now rows
      in \<lparr>vr_ok = (issues = [] \<and> seals = []), vr_head = head, vr_issues = issues, vr_seals = seals\<rparr>)"

end
