(* ===== verification/Seal_Laws.thy ===== *)
theory Seal_Laws
  imports Seal Journal_Growth
begin

text \<open>
  The laws of the seals: verifying page by page is verifying row by row; the invariant of the chain, which
  sealing and every operation of the service keep; and what the chain says when it verifies.
\<close>

section \<open>Transactions that are read\<close>

definition stored :: "db \<Rightarrow> uuid \<Rightarrow> transaction option" where
  "stored d i = (case txn_by d i of None \<Rightarrow> None | Some r \<Rightarrow> if row_entries d r = [] then None else Some (row_txn d r))"

lemma row_txn_id [simp]: "t_id (row_txn d r) = tr_id r"
  by (simp add: row_txn_def)

lemma read_ids:
  "t \<in> set (selectTransactionsInCommitOrder d xid ids) \<longleftrightarrow>
    (\<exists>r \<in> set (db_txns d). tr_id r \<in> set ids \<and> row_entries d r \<noteq> [] \<and> t = row_txn d r)"
  by (auto simp: selectTransactionsInCommitOrder_def selectTransactions_def)

lemma distinct_map_filter_rows: "distinct (map f xs) \<Longrightarrow> distinct (map f (filter P xs))"
  by (induction xs) auto

lemma distinct_map_sort: "distinct (map f (sort_key g xs)) = distinct (map f xs)"
  by (metis distinct_map distinct_sort set_sort)

lemma read_distinct:
  "distinct (map tr_id (db_txns d)) \<Longrightarrow> distinct (map t_id (selectTransactionsInCommitOrder d xid ids))"
  by (simp add: selectTransactionsInCommitOrder_def selectTransactions_def distinct_map_sort comp_def
      distinct_map_filter_rows)

lemma by_id_stored:
  assumes "distinct (map tr_id (db_txns d))" "i \<in> set ids"
  shows "by_id (selectTransactionsInCommitOrder d xid ids) i = stored d i"
proof -
  let ?ts = "selectTransactionsInCommitOrder d xid ids"
  have dist: "distinct (map fst (rev (map (\<lambda>t. (t_id t, t)) ?ts)))"
    using read_distinct [OF assms(1)] by (simp add: comp_def rev_map [symmetric])
  show ?thesis
  proof (cases "stored d i")
    case None
    have "i \<notin> t_id ` set ?ts"
      using None row_by_in_set [OF assms(1)]
      by (fastforce simp: read_ids stored_def txn_by_def split: option.splits if_splits)
    then show ?thesis using None by (force simp: by_id_def map_of_eq_None_iff)
  next
    case (Some t)
    then obtain r where r: "txn_by d i = Some r" "row_entries d r \<noteq> []" "t = row_txn d r"
      by (auto simp: stored_def split: option.splits if_splits)
    then have "t \<in> set ?ts" "t_id t = i" using txn_by_SomeD [OF r(1)] assms(2) by (auto simp: read_ids)
    then show ?thesis using Some dist by (auto simp: by_id_def intro!: map_of_is_SomeI)
  qed
qed

section \<open>Page by page\<close>

lemma check_rows_append:
  "check_rows sha mac render byID prev expected (ps @ qs) =
    (let (iss, p, e) = check_rows sha mac render byID prev expected ps;
         (rest, final) = check_rows sha mac render byID p e qs
     in (iss @ rest, final))"
  by (induction ps arbitrary: prev expected) (simp_all add: split_beta Let_def)

lemma check_rows_cong:
  "(\<And>p. p \<in> set ps \<Longrightarrow> byID (se_txn p) = byID' (se_txn p)) \<Longrightarrow>
    check_rows sha mac render byID prev expected ps = check_rows sha mac render byID' prev expected ps"
  by (induction ps arbitrary: prev expected) (simp_all add: row_issues_def)

lemma filter_after_page:
  fixes f :: "'a \<Rightarrow> int"
  assumes "sorted_wrt (<) (map f xs)" "take n xs \<noteq> []"
  shows "filter (\<lambda>s. f (last (take n xs)) + 1 \<le> f s) xs = drop n xs"
proof -
  let ?a = "take n xs" and ?b = "drop n xs"
  have s: "sorted_wrt (<) (map f ?a @ map f ?b)" using assms(1) by (metis append_take_drop_id map_append)
  have a: "f x \<le> f (last ?a)" if "x \<in> set ?a" for x
  proof -
    have "?a = butlast ?a @ [last ?a]" using assms(2) by simp
    then have "sorted_wrt (<) (map f (butlast ?a) @ [f (last ?a)])" using s
      by (metis map_append list.simps(8,9) sorted_wrt_append)
    then have "\<forall>y \<in> set (butlast ?a). f y < f (last ?a)" by (simp add: sorted_wrt_append)
    then show ?thesis using that assms(2) by (metis append_butlast_last_id in_set_conv_decomp
      less_imp_le order_refl rotate1.simps(2) set_ConsD set_rotate1)
  qed
  have b: "f (last ?a) < f x" if "x \<in> set ?b" for x
    using s that last_in_set [OF assms(2)] by (auto simp: sorted_wrt_append)
  have "filter (\<lambda>s. f (last ?a) + 1 \<le> f s) ?a = []" using a by (fastforce simp: filter_empty_conv)
  moreover have "filter (\<lambda>s. f (last ?a) + 1 \<le> f s) ?b = ?b" using b by (fastforce simp: filter_id_conv)
  ultimately show ?thesis by (metis append_take_drop_id filter_append append_Nil)
qed

lemma paged_rows:
  assumes "distinct (map tr_id (db_txns d))" "distinct (map se_seq rows)" "0 < limit"
  shows "check_pages sha mac render d xid rows limit prev expected =
    check_rows sha mac render (stored d) prev expected (sort_key se_seq (filter (\<lambda>s. expected \<le> se_seq s) rows))"
proof (induction "length (filter (\<lambda>s. expected \<le> se_seq s) rows)" arbitrary: prev expected rule: less_induct)
  case less
  let ?L = "sort_key se_seq (filter (\<lambda>s. expected \<le> se_seq s) rows)"
  have strict: "sorted_wrt (<) (map se_seq ?L)"
    using assms(2) by (simp add: strict_sorted_iff distinct_map_sort distinct_map_filter_rows)
  have page: "seal_page rows expected limit = take limit ?L" by (simp add: seal_page_def)
  show ?case
  proof (cases "take limit ?L = []")
    case True
    then have "?L = []" using assms(3) by (metis gr_implies_not0 take_eq_Nil)
    then show ?thesis using True by (simp add: check_pages.simps [of _ _ _ _ _ _ _ _ expected] page Let_def)
  next
    case False
    let ?a = "take limit ?L"
    let ?txns = "selectTransactionsInCommitOrder d xid (map se_txn ?a)"
    obtain iss p e where c: "check_rows sha mac render (by_id ?txns) prev expected ?a = (iss, p, e)" by (rule prod_cases3)
    have c': "check_rows sha mac render (stored d) prev expected ?a = (iss, p, e)"
      unfolding c [symmetric] by (rule check_rows_cong) (simp add: by_id_stored [OF assms(1)])
    have e: "e = se_seq (last ?a) + 1" using check_rows_final [OF c] False by simp
    have le: "expected < e" using seal_page_member [of "last ?a" rows expected limit] False e by (simp add: page)
    have "filter (\<lambda>s. e \<le> se_seq s) (filter (\<lambda>s. expected \<le> se_seq s) rows) = filter (\<lambda>s. e \<le> se_seq s) rows"
      unfolding filter_filter by (rule filter_cong) (use le in auto)
    then have rest: "sort_key se_seq (filter (\<lambda>s. e \<le> se_seq s) rows) = drop limit ?L"
      using filter_after_page [OF strict, of limit] False e by (metis filter_sort)
    have "length (drop limit ?L) < length ?L" using False assms(3) by (cases ?L) auto
    then have "length (filter (\<lambda>s. e \<le> se_seq s) rows) < length (filter (\<lambda>s. expected \<le> se_seq s) rows)"
      by (metis rest length_sort)
    from less [OF this, of p] have "check_pages sha mac render d xid rows limit p e =
        check_rows sha mac render (stored d) p e (drop limit ?L)" by (simp add: rest)
    then have "check_pages sha mac render d xid rows limit prev expected =
        (let (rest, final) = check_rows sha mac render (stored d) p e (drop limit ?L) in (iss @ rest, final))"
      by (subst check_pages.simps) (use False in \<open>simp add: page Let_def c del: take_eq_Nil take_eq_Nil2\<close>)
    then show ?thesis
      using check_rows_append [of sha mac render "stored d" prev expected ?a "drop limit ?L"] c' by simp
  qed
qed

section \<open>Rows that are linked\<close>

fun linked :: "(bytes \<Rightarrow> bytes) \<Rightarrow> bytes \<Rightarrow> int \<Rightarrow> seal_row list \<Rightarrow> bool" where
  "linked mac prev n [] \<longleftrightarrow> True"
| "linked mac prev n (s # ss) \<longleftrightarrow>
     se_seq s = n \<and> se_chain s = seal_link mac prev n (se_entry s) \<and> linked mac (se_chain s) (n + 1) ss"

definition entry_true ::
  "(bytes \<Rightarrow> bytes) \<Rightarrow> (jvalue \<Rightarrow> bytes) \<Rightarrow> (uuid \<Rightarrow> transaction option) \<Rightarrow> seal_row \<Rightarrow> bool" where
  "entry_true sha render byID s \<longleftrightarrow>
     (\<exists>t. byID (se_txn s) = Some t \<and> se_entry s = sealedHash sha render t (se_encoding s))"

fun chain_end :: "bytes \<Rightarrow> seal_row list \<Rightarrow> bytes" where
  "chain_end prev [] = prev"
| "chain_end prev (s # ss) = chain_end (se_chain s) ss"

lemma check_rows_linked:
  "check_rows sha mac render byID prev n rows = ([], prev', n') \<longleftrightarrow>
    linked mac prev n rows \<and> list_all (entry_true sha render byID) rows \<and>
    prev' = chain_end prev rows \<and> n' = n + int (length rows)"
proof (induction rows arbitrary: prev n)
  case (Cons s rows)
  have "row_issues sha mac render byID prev n s = [] \<longleftrightarrow>
      se_seq s = n \<and> se_chain s = seal_link mac prev n (se_entry s) \<and> entry_true sha render byID s"
    by (auto simp: row_issues_def entry_true_def split: option.splits)
  then show ?case using Cons.IH [of "se_chain s" "se_seq s + 1"] by (auto split: prod.splits)
qed auto

lemma linked_append:
  "linked mac prev n (xs @ ys) \<longleftrightarrow> linked mac prev n xs \<and> linked mac (chain_end prev xs) (n + int (length xs)) ys"
  by (induction xs arbitrary: prev n) (auto simp: algebra_simps)

lemma chain_end_append [simp]: "chain_end prev (xs @ ys) = chain_end (chain_end prev xs) ys"
  by (induction xs arbitrary: prev) auto

lemma linked_seq: "linked mac prev n rows \<Longrightarrow> k < length rows \<Longrightarrow> se_seq (rows ! k) = n + int k"
  by (induction rows arbitrary: prev n k) (auto simp: nth_Cons split: nat.splits)

lemma linked_sorted: "linked mac prev n rows \<Longrightarrow> sorted_wrt (<) (map se_seq rows)"
  by (simp add: sorted_wrt_iff_nth_less linked_seq)

lemma linked_distinct: "linked mac prev n rows \<Longrightarrow> distinct (map se_seq rows)"
  using linked_sorted strict_sorted_iff by blast

lemma linked_sort [simp]: "linked mac prev n rows \<Longrightarrow> sort_key se_seq rows = rows"
  using linked_sorted [of mac prev n rows] by (auto simp: strict_sorted_iff intro: sort_key_id_if_sorted)

lemma linked_low: "linked mac prev n rows \<Longrightarrow> s \<in> set rows \<Longrightarrow> n \<le> se_seq s"
  by (auto simp: in_set_conv_nth linked_seq)

lemma loadVerifiedHead_linked:
  assumes "linked mac genesis 1 rows"
  shows "loadVerifiedHead mac rows = Inr \<lparr>ch_seq = int (length rows), ch_hash = chain_end genesis rows\<rparr>"
proof (cases rows rule: rev_cases)
  case (snoc xs s)
  have l: "linked mac genesis 1 xs" "se_seq s = 1 + int (length xs)"
    "se_chain s = seal_link mac (chain_end genesis xs) (1 + int (length xs)) (se_entry s)"
    using assms by (auto simp: snoc linked_append)
  have prev: "(case row_by se_seq rows (int (length xs)) of None \<Rightarrow> genesis | Some p \<Rightarrow> se_chain p) = chain_end genesis xs"
  proof (cases xs rule: rev_cases)
    case Nil
    then show ?thesis using l by (simp add: snoc)
  next
    case (snoc ys p)
    have "p \<in> set rows" "se_seq p = int (length xs)"
      using l(1) by (auto simp: \<open>rows = xs @ [s]\<close> snoc linked_append)
    then have "row_by se_seq rows (int (length xs)) = Some p"
      using row_by_in_set [OF linked_distinct [OF assms]] by metis
    then show ?thesis by (simp add: snoc)
  qed
  have "rev (sort_key se_seq rows) = s # rev xs" using linked_sort [OF assms] by (simp add: snoc)
  then show ?thesis
    using prev l by (simp add: loadVerifiedHead_def Let_def snoc)
qed (simp add: loadVerifiedHead_def)

lemma link_all_linked:
  "link_all sha mac render head ts = (new, head') \<Longrightarrow>
    linked mac (ch_hash head) (ch_seq head + 1) new \<and> map se_txn new = map t_id ts \<and>
    (\<forall>s \<in> set new. se_encoding s = Some 3) \<and> (\<forall>s \<in> set new. \<exists>t \<in> set ts. se_txn s = t_id t \<and> se_entry s = sealedHash sha render t (se_encoding s)) \<and>
    head' = \<lparr>ch_seq = ch_seq head + int (length ts), ch_hash = chain_end (ch_hash head) new\<rparr>"
proof (induction ts arbitrary: head new)
  case (Cons t ts)
  let ?entry = "sha (entry_bytes_v3 render t)"
  let ?chain = "seal_link mac (ch_hash head) (ch_seq head + 1) ?entry"
  obtain rest where r: "link_all sha mac render \<lparr>ch_seq = ch_seq head + 1, ch_hash = ?chain\<rparr> ts = (rest, head')"
    "new = \<lparr>se_seq = ch_seq head + 1, se_txn = t_id t, se_entry = ?entry, se_chain = ?chain, se_encoding = Some 3\<rparr> # rest"
    using Cons.prems by (auto simp: Let_def split: prod.splits)
  from Cons.IH [OF r(1)] r(2) show ?case by (auto simp: algebra_simps sealedHash_def sealed_bytes_def)
qed simp

section \<open>The invariant of the chain\<close>

definition seal_inv ::
  "(bytes \<Rightarrow> bytes) \<Rightarrow> (bytes \<Rightarrow> bytes) \<Rightarrow> (jvalue \<Rightarrow> bytes) \<Rightarrow> (uuid \<Rightarrow> nat) \<Rightarrow> db \<Rightarrow> nat \<Rightarrow> sealer \<Rightarrow> bool" where
  "seal_inv sha mac render xid d bound sl \<longleftrightarrow>
     linked mac genesis 1 (sl_rows sl) \<and>
     (\<forall>s \<in> set (sl_rows sl). entry_true sha render (stored d) s \<and> xid (se_txn s) < bound \<and>
        (\<exists>r. txn_by d (se_txn s) = Some r \<and> tr_status r = Posted)) \<and>
     sorted_wrt (<) (map (commit_key xid) (map se_txn (sl_rows sl))) \<and>
     (\<forall>t \<in> set (db_txns d). tr_status t = Posted \<longrightarrow> sl_rows sl \<noteq> [] \<longrightarrow>
        commit_key xid (tr_id t) \<le> commit_key xid (se_txn (last (sl_rows sl))) \<longrightarrow>
        tr_id t \<in> set (map se_txn (sl_rows sl))) \<and>
     sl_highest sl \<le> int (length (sl_rows sl))"

lemma seal_inv_linked: "seal_inv sha mac render xid d bound sl \<Longrightarrow> linked mac genesis 1 (sl_rows sl)"
  by (simp add: seal_inv_def)

lemma inj_commit_key: "inj (commit_key xid)"
  by (auto simp: inj_def commit_key_def)

lemma seal_head_inv:
  assumes "seal_inv sha mac render xid d bound sl"
  shows "seal_head d xid (sl_rows sl) =
    (if sl_rows sl = [] then None else Some (commit_key xid (se_txn (last (sl_rows sl)))))"
proof -
  have "filter (\<lambda>s. txn_by d (se_txn s) \<noteq> None) (sl_rows sl) = sl_rows sl"
    using assms by (auto simp: seal_inv_def filter_id_conv)
  then show ?thesis
    using linked_sort [OF seal_inv_linked [OF assms]] by (cases "sl_rows sl" rule: rev_cases) (simp_all add: seal_head_def)
qed

text \<open>The transactions that a call of \<^const>\<open>seal\<close> would seal, without the limit.\<close>

definition sealable :: "db \<Rightarrow> (uuid \<Rightarrow> nat) \<Rightarrow> nat \<Rightarrow> seal_row list \<Rightarrow> uuid \<Rightarrow> bool" where
  "sealable d xid xmin rows i \<longleftrightarrow>
     (\<exists>t \<in> set (db_txns d). tr_id t = i \<and> tr_status t = Posted \<and> xid i < xmin \<and>
        (case seal_head d xid rows of None \<Rightarrow> True | Some h \<Rightarrow> h < commit_key xid i))"

lemma unsealed_sorted:
  assumes "journal_inv d"
  shows "sorted_wrt (<) (map (commit_key xid) (unsealed_txns d xid xmin rows limit))"
    and "i \<in> set (unsealed_txns d xid xmin rows limit) \<Longrightarrow> sealable d xid xmin rows i"
    and "i \<in> set (unsealed_txns d xid xmin rows limit) \<Longrightarrow> sealable d xid xmin rows j \<Longrightarrow>
      commit_key xid j \<le> commit_key xid i \<Longrightarrow> j \<in> set (unsealed_txns d xid xmin rows limit)"
    and "length (unsealed_txns d xid xmin rows limit) = min limit (card {i. sealable d xid xmin rows i})"
proof -
  let ?q = "\<lambda>t. tr_status t = Posted \<and> xid (tr_id t) < xmin \<and>
    (case seal_head d xid rows of None \<Rightarrow> True | Some h \<Rightarrow> h < commit_key xid (tr_id t))"
  let ?U = "map tr_id (sort_key (\<lambda>t. commit_key xid (tr_id t)) (filter ?q (db_txns d)))"
  have u: "unsealed_txns d xid xmin rows limit = take limit ?U" by (simp add: unsealed_txns_def take_map)
  have d: "distinct ?U" using assms by (simp add: distinct_map_sort distinct_map_filter_rows journal_inv_def)
  have s: "sorted (map (commit_key xid) ?U)" by (simp add: comp_def)
  have "sorted_wrt (<) (map (commit_key xid) ?U)"
    using d s distinct_map [of "commit_key xid" ?U] inj_on_subset [OF inj_commit_key]
    by (simp only: strict_sorted_iff) blast
  then have strict: "sorted_wrt (<) (map (commit_key xid) (take limit ?U @ drop limit ?U))" by simp
  then show "sorted_wrt (<) (map (commit_key xid) (unsealed_txns d xid xmin rows limit))"
    unfolding u map_append by (simp only: sorted_wrt_append)
  have set_U: "set ?U = {i. sealable d xid xmin rows i}" by (auto simp: sealable_def)
  show "sealable d xid xmin rows i" if "i \<in> set (unsealed_txns d xid xmin rows limit)"
  proof -
    have "i \<in> set ?U" using that unfolding u by (rule in_set_takeD)
    then show ?thesis by (simp only: set_U mem_Collect_eq)
  qed
  show "j \<in> set (unsealed_txns d xid xmin rows limit)"
    if "i \<in> set (unsealed_txns d xid xmin rows limit)" "sealable d xid xmin rows j" "commit_key xid j \<le> commit_key xid i"
  proof (rule ccontr)
    assume "j \<notin> set (unsealed_txns d xid xmin rows limit)"
    moreover have "j \<in> set (take limit ?U @ drop limit ?U)" using that(2) set_U by simp
    ultimately have "j \<in> set (drop limit ?U)" unfolding u by (simp only: set_append) blast
    then have "commit_key xid i < commit_key xid j"
      using strict that(1) unfolding u map_append sorted_wrt_append by force
    then show False using that(3) by simp
  qed
  have "length ?U = card {i. sealable d xid xmin rows i}" using distinct_card [OF d] set_U by simp
  then show "length (unsealed_txns d xid xmin rows limit) = min limit (card {i. sealable d xid xmin rows i})"
    unfolding u by simp
qed

lemma read_unsealed:
  assumes "journal_inv d"
  shows "map t_id (selectTransactionsInCommitOrder d xid (unsealed_txns d xid xmin rows limit)) =
    unsealed_txns d xid xmin rows limit"
proof -
  let ?ids = "unsealed_txns d xid xmin rows limit"
  let ?ts = "selectTransactionsInCommitOrder d xid ?ids"
  have ids: "set (map t_id ?ts) = set ?ids"
  proof -
    have row: "\<exists>r \<in> set (db_txns d). tr_id r = i \<and> row_entries d r \<noteq> []" if "i \<in> set ?ids" for i
      using unsealed_sorted(2) [OF assms that] assms by (auto simp: sealable_def journal_inv_def txn_row_ok_def)
    have "i \<in> set (map t_id ?ts)" if i: "i \<in> set ?ids" for i
    proof -
      obtain r where r: "r \<in> set (db_txns d)" "tr_id r = i" "row_entries d r \<noteq> []"
        using row [OF i] by blast
      then have "row_txn d r \<in> set ?ts" using i unfolding read_ids by blast
      then have "t_id (row_txn d r) \<in> t_id ` set ?ts" by (rule imageI)
      then show ?thesis using r(2) by simp
    qed
    moreover have "i \<in> set ?ids" if "i \<in> set (map t_id ?ts)" for i
      using that by (auto simp: read_ids)
    ultimately show ?thesis by blast
  qed
  have "sorted (map (commit_key xid) (map t_id ?ts))" by (simp add: selectTransactionsInCommitOrder_def comp_def)
  moreover have "distinct (map (commit_key xid) (map t_id ?ts))"
  proof -
    have "distinct (map t_id ?ts)" using assms by (intro read_distinct) (simp add: journal_inv_def)
    then show ?thesis using inj_on_subset [OF inj_commit_key] by (subst distinct_map) blast
  qed
  moreover have "sorted (map (commit_key xid) ?ids)" "distinct (map (commit_key xid) ?ids)"
    using unsealed_sorted(1) [OF assms] by (simp_all add: strict_sorted_iff)
  ultimately have "map (commit_key xid) (map t_id ?ts) = map (commit_key xid) ?ids"
    using ids by (intro sorted_distinct_set_unique) (simp_all only: set_map)
  then show ?thesis using inj_commit_key by (metis inj_map_eq_map)
qed

lemma linked_txns_distinct:
  assumes "sorted_wrt (<) (map (commit_key xid) (map se_txn rows))"
  shows "distinct (map se_txn rows)"
proof -
  have "distinct (map (commit_key xid) (map se_txn rows))" using assms by (simp only: strict_sorted_iff)
  then show ?thesis by (simp only: distinct_map)
qed

text \<open>On such a chain a call of \<^const>\<open>seal\<close> never fails, and appends exactly the next transactions.\<close>

lemma seal_appends:
  assumes inv: "seal_inv sha mac render xid d bound sl" and j: "journal_inv d" and b: "bound \<le> xmin"
  obtains new head' where
    "seal sha mac render d xid xmin locked limit sl = Inr (length new, head', \<lparr>sl_rows = sl_rows sl @ new,
       sl_highest = max (sl_highest sl) (ch_seq head')\<rparr>)"
    "linked mac (chain_end genesis (sl_rows sl)) (int (length (sl_rows sl)) + 1) new"
    "map se_txn new = (if locked then unsealed_txns d xid xmin (sl_rows sl) limit else [])"
    "list_all (entry_true sha render (stored d)) new" "\<forall>s \<in> set new. se_encoding s = Some 3"
    "sorted_wrt (<) (map (commit_key xid) (map se_txn (sl_rows sl @ new)))"
    "ch_seq head' = (if locked then int (length (sl_rows sl @ new)) else 0)"
proof (cases locked)
  case False
  then show ?thesis
    using that [of "[]" "\<lparr>ch_seq = 0, ch_hash = []\<rparr>"] inv by (simp add: seal_def seal_inv_def Let_def)
next
  case True
  let ?rows = "sl_rows sl" and ?ids = "unsealed_txns d xid xmin (sl_rows sl) limit"
  let ?ts = "selectTransactionsInCommitOrder d xid ?ids"
  let ?head = "\<lparr>ch_seq = int (length ?rows), ch_hash = chain_end genesis ?rows\<rparr>"
  note head = loadVerifiedHead_linked [OF seal_inv_linked [OF inv]]
  obtain new head' where ln: "link_all sha mac render ?head ?ts = (new, head')" by fastforce
  note new = link_all_linked [OF ln, simplified chainHead.select_convs]
  have ids: "map se_txn new = ?ids" using new read_unsealed [OF j] by simp
  have lk: "linked mac genesis 1 (?rows @ new)"
    using new seal_inv_linked [OF inv] by (simp add: linked_append add.commute)
  have key: "sorted_wrt (<) (map (commit_key xid) (map se_txn (?rows @ new)))"
  proof -
    have "commit_key xid i < commit_key xid k" if i: "i \<in> set (map se_txn ?rows)" and k: "k \<in> set ?ids" for i k
    proof -
      have ne: "?rows \<noteq> []" using i by auto
      have "commit_key xid (se_txn (last ?rows)) < commit_key xid k"
        using unsealed_sorted(2) [OF j k] ne by (auto simp: sealable_def seal_head_inv [OF inv])
      moreover have "commit_key xid i \<le> commit_key xid (se_txn (last ?rows))"
      proof -
        have "map (commit_key xid) (map se_txn ?rows) =
            map (commit_key xid) (map se_txn (butlast ?rows)) @ [commit_key xid (se_txn (last ?rows))]"
          using ne by (metis append_butlast_last_id list.simps(8,9) map_append)
        moreover have "sorted_wrt (<) (map (commit_key xid) (map se_txn ?rows))" using inv by (simp only: seal_inv_def)
        moreover have "i \<in> set (map se_txn (butlast ?rows @ [last ?rows]))" using i ne by simp
        ultimately show ?thesis by (auto simp: sorted_wrt_append)
      qed
      ultimately show ?thesis by simp
    qed
    moreover have "sorted_wrt (<) (map (commit_key xid) (map se_txn ?rows))" using inv by (simp only: seal_inv_def)
    moreover have "sorted_wrt (<) (map (commit_key xid) (map se_txn new))"
      unfolding ids by (rule unsealed_sorted(1) [OF j])
    ultimately show ?thesis using ids by (auto simp: sorted_wrt_append)
  qed
  have "\<forall>s \<in> set new. 0 < se_seq s" using linked_low [of mac _ _ new] new by fastforce
  then have ins: "insert_seals ?rows new = Inr (?rows @ new)"
    using linked_distinct [OF lk] linked_txns_distinct [OF key] unfolding insert_seals_def by force
  have "entry_true sha render (stored d) s" if s: "s \<in> set new" for s
  proof -
    obtain t where t: "t \<in> set ?ts" "se_txn s = t_id t" "se_entry s = sealedHash sha render t (se_encoding s)"
      using new s by blast
    then obtain r where "r \<in> set (db_txns d)" "row_entries d r \<noteq> []" "t = row_txn d r" unfolding read_ids by blast
    then have "stored d (se_txn s) = Some t" using t(2) journal_ids [OF j] by (simp add: stored_def)
    then show ?thesis using t(3) by (simp add: entry_true_def)
  qed
  then have true: "list_all (entry_true sha render (stored d)) new" by (simp add: list_all_iff)
  have hd': "ch_seq head' = int (length (?rows @ new))"
    using new map_eq_imp_length_eq [of se_txn new t_id ?ts] by simp
  have "seal sha mac render d xid xmin locked limit sl = Inr (length new, head', \<lparr>sl_rows = ?rows @ new,
      sl_highest = max (sl_highest sl) (ch_seq head')\<rparr>)"
  proof (cases "?ids = []")
    case True
    then have "new = []" using ids by simp
    then have "head' = ?head" using new map_eq_imp_length_eq [of se_txn new t_id ?ts] by simp
    then show ?thesis
      using True \<open>new = []\<close> \<open>locked\<close> head inv by (simp add: seal_def seal_inv_def Let_def)
  next
    case False
    have "length ?ts = length new" using new by (metis length_map)
    then show ?thesis using False \<open>locked\<close> head inv ln ins by (simp add: seal_def seal_inv_def Let_def)
  qed
  then show ?thesis using that [of new head'] new ids true key hd' True by (simp add: add.commute)
qed

lemma seal_keeps_inv:
  assumes inv: "seal_inv sha mac render xid d bound sl" and j: "journal_inv d" and b: "bound \<le> xmin"
    and s: "seal sha mac render d xid xmin locked limit sl = Inr (n, head, sl')"
  shows "seal_inv sha mac render xid d xmin sl'"
proof (rule seal_appends [OF inv j b, of locked limit])
  fix new head'
  let ?rows = "sl_rows sl" and ?ids = "unsealed_txns d xid xmin (sl_rows sl) limit"
  assume sl: "seal sha mac render d xid xmin locked limit sl = Inr (length new, head', \<lparr>sl_rows = ?rows @ new,
      sl_highest = max (sl_highest sl) (ch_seq head')\<rparr>)"
    and lk: "linked mac (chain_end genesis ?rows) (int (length ?rows) + 1) new"
    and ids: "map se_txn new = (if locked then ?ids else [])"
    and true: "list_all (entry_true sha render (stored d)) new"
    and key: "sorted_wrt (<) (map (commit_key xid) (map se_txn (?rows @ new)))"
    and seq: "ch_seq head' = (if locked then int (length (?rows @ new)) else 0)"
  have sl': "sl_rows sl' = ?rows @ new" "sl_highest sl' = max (sl_highest sl) (ch_seq head')" using sl s by simp_all
  have new: "sealable d xid xmin ?rows (se_txn x)" if "x \<in> set new" for x
  proof -
    have "se_txn x \<in> set (map se_txn new)" using that by simp
    then show ?thesis using ids unsealed_sorted(2) [OF j] by (auto split: if_splits)
  qed
  have "linked mac genesis 1 (sl_rows sl')"
    using seal_inv_linked [OF inv] lk by (simp add: sl' linked_append add.commute)
  moreover have "entry_true sha render (stored d) x \<and> xid (se_txn x) < xmin \<and>
      (\<exists>r. txn_by d (se_txn x) = Some r \<and> tr_status r = Posted)" if "x \<in> set (sl_rows sl')" for x
  proof (cases "x \<in> set new")
    case True
    obtain t where "t \<in> set (db_txns d)" "tr_id t = se_txn x" "tr_status t = Posted" "xid (se_txn x) < xmin"
      using new [OF True] unfolding sealable_def by blast
    then show ?thesis using true True journal_ids [OF j, of t] by (simp add: list_all_iff)
  next
    case False
    then show ?thesis using that inv b by (auto simp: sl' seal_inv_def)
  qed
  moreover have "tr_id t \<in> set (map se_txn (sl_rows sl'))"
    if t: "t \<in> set (db_txns d)" "tr_status t = Posted" and ne: "sl_rows sl' \<noteq> []"
      and le: "commit_key xid (tr_id t) \<le> commit_key xid (se_txn (last (sl_rows sl')))" for t
  proof (cases "seal_head d xid ?rows \<noteq> None \<and> commit_key xid (tr_id t) \<le> the (seal_head d xid ?rows)")
    case True
    then have "?rows \<noteq> []" "commit_key xid (tr_id t) \<le> commit_key xid (se_txn (last ?rows))"
      by (auto simp: seal_head_inv [OF inv] split: if_splits)
    then show ?thesis using inv t by (auto simp: seal_inv_def sl')
  next
    case False
    then have hd: "case seal_head d xid ?rows of None \<Rightarrow> True | Some h \<Rightarrow> h < commit_key xid (tr_id t)"
      by (auto split: option.splits)
    show ?thesis
    proof (cases "new = []")
      case True
      then show ?thesis using hd le ne by (auto simp: sl' seal_head_inv [OF inv])
    next
      case False
      then have l: "se_txn (last new) \<in> set ?ids" "locked"
        using ids by (metis last_in_set last_map list.map_disc_iff, metis list.map_disc_iff)
      have "sealable d xid xmin ?rows (se_txn (last new))" using new False by simp
      moreover have "xid (tr_id t) \<le> xid (se_txn (last new))"
        using le False by (auto simp: sl' commit_key_def less_eq_prod_def)
      ultimately have "sealable d xid xmin ?rows (tr_id t)" using t hd by (auto simp: sealable_def)
      then have "tr_id t \<in> set ?ids"
        using unsealed_sorted(3) [OF j l(1)] le False by (simp add: sl')
      then show ?thesis using ids l(2) by (simp add: sl')
    qed
  qed
  moreover have "sl_highest sl' \<le> int (length (sl_rows sl'))"
    using inv seq by (auto simp: sl' seal_inv_def)
  ultimately show ?thesis using key unfolding seal_inv_def sl'(1) by blast
qed

section \<open>The service goes on\<close>

definition posted_in :: "db \<Rightarrow> uuid \<Rightarrow> bool" where
  "posted_in d i \<longleftrightarrow> (\<exists>r. txn_by d i = Some r \<and> tr_status r = Posted)"

lemma keeps_stored:
  assumes "keeps_journal d d'" "txn_by d i = Some r" "tr_status r = Posted"
  shows "txn_by d' i = Some r" "stored d' i = stored d i"
proof -
  have "same_txn d d' i r" using assms(1,2) by (simp add: keeps_journal_def)
  then have r: "txn_by d' i = Some r" "row_entries d' r = row_entries d r" using assms(3) by (auto simp: same_txn_def)
  show "txn_by d' i = Some r" by (rule r(1))
  show "stored d' i = stored d i" using r assms(2) by (simp add: stored_def row_txn_def)
qed

lemma seal_inv_service:
  assumes inv: "seal_inv sha mac render xid d bound sl" and k: "keeps_journal d d'" and j: "journal_inv d'"
    and new: "\<And>i. posted_in d' i \<Longrightarrow> \<not> posted_in d i \<Longrightarrow> bound \<le> xid i"
  shows "seal_inv sha mac render xid d' bound sl"
proof -
  let ?rows = "sl_rows sl"
  have old: "entry_true sha render (stored d') s \<and> xid (se_txn s) < bound \<and>
      (\<exists>r. txn_by d' (se_txn s) = Some r \<and> tr_status r = Posted)" if "s \<in> set ?rows" for s
  proof -
    have e: "entry_true sha render (stored d) s" "xid (se_txn s) < bound"
      and p: "\<exists>r. txn_by d (se_txn s) = Some r \<and> tr_status r = Posted" using inv that unfolding seal_inv_def by blast+
    then obtain r where r: "txn_by d (se_txn s) = Some r" "tr_status r = Posted" by blast
    then show ?thesis using e keeps_stored [OF k r] unfolding entry_true_def by metis
  qed
  have "tr_id t \<in> set (map se_txn ?rows)"
    if t: "t \<in> set (db_txns d')" "tr_status t = Posted" and ne: "?rows \<noteq> []"
      and le: "commit_key xid (tr_id t) \<le> commit_key xid (se_txn (last ?rows))" for t
  proof -
    have "xid (tr_id t) \<le> xid (se_txn (last ?rows))" using le by (auto simp: commit_key_def less_eq_prod_def)
    also have "\<dots> < bound" using old ne by simp
    finally have "posted_in d (tr_id t)" using new [of "tr_id t"] t journal_ids [OF j] by (force simp: posted_in_def)
    then obtain r where "txn_by d (tr_id t) = Some r" "tr_status r = Posted" by (auto simp: posted_in_def)
    then have "\<exists>r \<in> set (db_txns d). tr_id r = tr_id t \<and> tr_status r = Posted" using txn_by_SomeD by blast
    then show ?thesis using inv ne le unfolding seal_inv_def by metis
  qed
  then show ?thesis using inv old unfolding seal_inv_def by blast
qed

text \<open>What can be sealed is what is not sealed yet.\<close>

lemma sealable_iff:
  assumes inv: "seal_inv sha mac render xid d bound sl" and j: "journal_inv d"
  shows "sealable d xid xmin (sl_rows sl) i \<longleftrightarrow> posted_in d i \<and> xid i < xmin \<and> i \<notin> se_txn ` set (sl_rows sl)"
proof -
  let ?rows = "sl_rows sl"
  have posted: "(\<exists>t \<in> set (db_txns d). tr_id t = i \<and> tr_status t = Posted) \<longleftrightarrow> posted_in d i"
    using journal_ids [OF j] txn_by_SomeD by (fastforce simp: posted_in_def)
  have "posted_in d i \<Longrightarrow> ?rows \<noteq> [] \<Longrightarrow>
      commit_key xid (se_txn (last ?rows)) < commit_key xid i \<longleftrightarrow> i \<notin> se_txn ` set ?rows"
  proof
    assume ne: "?rows \<noteq> []" and l: "commit_key xid (se_txn (last ?rows)) < commit_key xid i"
    have "sorted_wrt (<) (map (commit_key xid) (map se_txn (butlast ?rows @ [last ?rows])))"
      using inv ne by (simp add: seal_inv_def)
    then have "commit_key xid (se_txn s) \<le> commit_key xid (se_txn (last ?rows))" if "s \<in> set (butlast ?rows @ [last ?rows])" for s
      using that by (auto simp: sorted_wrt_append)
    then show "i \<notin> se_txn ` set ?rows" using l ne by fastforce
  next
    assume p: "posted_in d i" and ne: "?rows \<noteq> []" and n: "i \<notin> se_txn ` set ?rows"
    obtain t where t: "t \<in> set (db_txns d)" "tr_id t = i" "tr_status t = Posted" using p posted by blast
    have "\<not> commit_key xid i \<le> commit_key xid (se_txn (last ?rows))"
      using inv t ne n unfolding seal_inv_def by force
    then show "commit_key xid (se_txn (last ?rows)) < commit_key xid i" by simp
  qed
  then show ?thesis
    using posted unfolding sealable_def seal_head_inv [OF inv] by (cases "?rows = []") auto
qed

section \<open>What the chain says\<close>

lemma verifyChain_rows:
  assumes "distinct (map tr_id (db_txns d))" "distinct (map se_seq rows)"
  shows "verifyChain sha mac render d xid now rows = ([], head) \<longleftrightarrow>
    unsealed_issues d xid now rows = [] \<and>
    check_rows sha mac render (stored d) genesis 1 (sort_key se_seq (filter (\<lambda>s. 1 \<le> se_seq s) rows)) =
      ([], ch_hash head, ch_seq head + 1)"
  unfolding verifyChain_def by (subst paged_rows [OF assms]) (auto simp: verifyPageSize_def split: prod.splits)

text \<open>What is reported about a chain that satisfies the invariant: late transactions, and nothing else.\<close>

definition late :: "db \<Rightarrow> gotime \<Rightarrow> seal_row list \<Rightarrow> uuid \<Rightarrow> bool" where
  "late d now rows i \<longleftrightarrow> posted_in d i \<and> i \<notin> se_txn ` set rows \<and>
     (\<exists>r p. txn_by d i = Some r \<and> tr_postedAt r = Some p \<and> p < now - maxSealLag)"

lemma verifyChain_inv:
  assumes inv: "seal_inv sha mac render xid d bound sl" and j: "journal_inv d"
  shows "\<exists>is. verifyChain sha mac render d xid now (sl_rows sl) =
    (map (\<lambda>i. UnsealedSince i (tr_postedAt (the (txn_by d i)))) is,
     \<lparr>ch_seq = int (length (sl_rows sl)), ch_hash = chain_end genesis (sl_rows sl)\<rparr>) \<and>
    (\<forall>i. i \<in> set is \<longleftrightarrow> late d now (sl_rows sl) i)"
proof -
  let ?rows = "sl_rows sl"
  note lk = seal_inv_linked [OF inv]
  have d: "distinct (map tr_id (db_txns d))" using j by (simp add: journal_inv_def)
  have "filter (\<lambda>s. 1 \<le> se_seq s) ?rows = ?rows" using linked_low [OF lk] by (simp add: filter_id_conv)
  then have "check_pages sha mac render d xid ?rows verifyPageSize genesis 1 =
      check_rows sha mac render (stored d) genesis 1 ?rows"
    using paged_rows [OF d linked_distinct [OF lk], of verifyPageSize] linked_sort [OF lk] by (simp add: verifyPageSize_def)
  also have "\<dots> = ([], chain_end genesis ?rows, 1 + int (length ?rows))"
    using inv lk by (simp add: check_rows_linked seal_inv_def list_all_iff)
  finally have rows: "check_pages sha mac render d xid ?rows verifyPageSize genesis 1 =
      ([], chain_end genesis ?rows, 1 + int (length ?rows))" .
  let ?open = "filter (\<lambda>t. tr_status t = Posted \<and> tr_id t \<notin> set (map se_txn ?rows)) (db_txns d)"
  let ?late = "filter (\<lambda>t. case tr_postedAt t of None \<Rightarrow> False | Some p \<Rightarrow> p < now - maxSealLag) ?open"
  have before: "\<not> (case seal_head d xid ?rows of None \<Rightarrow> False | Some h \<Rightarrow> commit_key xid (tr_id t) \<le> h)"
    if "t \<in> set ?open" for t
    using inv that by (auto simp: seal_head_inv [OF inv] seal_inv_def)
  then have "filter (\<lambda>t. case seal_head d xid ?rows of None \<Rightarrow> False | Some h \<Rightarrow> commit_key xid (tr_id t) \<le> h) ?open = []"
    unfolding filter_empty_conv by blast
  moreover have "filter (\<lambda>t. (case tr_postedAt t of None \<Rightarrow> False | Some p \<Rightarrow> p < now - maxSealLag) \<and>
      \<not> (case seal_head d xid ?rows of None \<Rightarrow> False | Some h \<Rightarrow> commit_key xid (tr_id t) \<le> h)) ?open = ?late"
    by (rule filter_cong [OF refl]) (use before in blast)
  moreover have "map (\<lambda>t. UnsealedSince (tr_id t) (tr_postedAt t)) ?late =
      map (\<lambda>i. UnsealedSince i (tr_postedAt (the (txn_by d i)))) (map tr_id ?late)"
    using journal_ids [OF j] by simp
  ultimately have iss: "unsealed_issues d xid now ?rows =
      map (\<lambda>i. UnsealedSince i (tr_postedAt (the (txn_by d i)))) (map tr_id ?late)"
    by (simp add: unsealed_issues_def Let_def)
  have "i \<in> set (map tr_id ?late) \<longleftrightarrow> late d now ?rows i" for i
    using journal_ids [OF j] txn_by_SomeD [of d i]
    by (auto simp: late_def posted_in_def image_iff split: option.splits) metis+
  moreover have "verifyChain sha mac render d xid now ?rows =
      (map (\<lambda>i. UnsealedSince i (tr_postedAt (the (txn_by d i)))) (map tr_id ?late),
       \<lparr>ch_seq = int (length ?rows), ch_hash = chain_end genesis ?rows\<rparr>)"
    unfolding verifyChain_def rows iss by simp
  ultimately show ?thesis by blast
qed

section \<open>Two chains with the same head\<close>

text \<open>The messages that the chain authenticates.\<close>

fun seal_messages :: "bytes \<Rightarrow> int \<Rightarrow> seal_row list \<Rightarrow> bytes list" where
  "seal_messages prev n [] = []"
| "seal_messages prev n (s # ss) = (prev @ put_int64 n @ se_entry s) # seal_messages (se_chain s) (n + 1) ss"

lemma seal_messages_append:
  "seal_messages prev n (xs @ ys) =
    seal_messages prev n xs @ seal_messages (chain_end prev xs) (n + int (length xs)) ys"
  by (induction xs arbitrary: prev n) (auto simp: algebra_simps)

lemma chain_end_length:
  "linked mac prev n rows \<Longrightarrow> (\<And>x. length (mac x) = 32) \<Longrightarrow> length prev = 32 \<Longrightarrow> length (chain_end prev rows) = 32"
proof (induction rows arbitrary: prev n)
  case (Cons s rows)
  have "linked mac (se_chain s) (n + 1) rows" "se_chain s = seal_link mac prev n (se_entry s)"
    using Cons.prems(1) linked.simps(2) by blast+
  moreover then have "length (se_chain s) = 32" using Cons.prems(2) by (simp add: seal_link_def)
  ultimately show ?case using Cons.IH Cons.prems(2) by simp
qed simp

lemma same_chain:
  assumes "linked mac prev n xs" "linked mac prev n ys" "length xs = length ys" "chain_end prev xs = chain_end prev ys"
    and "inj_on mac (set (seal_messages prev n xs) \<union> set (seal_messages prev n ys))"
    and len: "\<And>x. length (mac x) = 32" "length prev = 32"
  shows "map se_entry xs = map se_entry ys"
  using assms(1-5)
proof (induction xs arbitrary: ys rule: rev_induct)
  case (snoc s xs)
  then obtain t zs where ys: "ys = zs @ [t]" by (cases ys rule: rev_cases) auto
  have l: "linked mac prev n xs" "linked mac prev n zs" "length xs = length zs"
    using snoc.prems(1-3) by (simp_all add: ys linked_append)
  let ?m = "chain_end prev xs @ put_int64 (n + int (length xs)) @ se_entry s"
  let ?m' = "chain_end prev zs @ put_int64 (n + int (length zs)) @ se_entry t"
  have "mac ?m = mac ?m'"
    using snoc.prems(1,2,4) by (simp add: ys linked_append seal_link_def)
  moreover have "?m \<in> set (seal_messages prev n (xs @ [s]))" "?m' \<in> set (seal_messages prev n ys)"
    by (simp_all add: ys seal_messages_append)
  ultimately have m: "?m = ?m'" using snoc.prems(5) by (meson UnI1 UnI2 inj_onD)
  then have e: "chain_end prev xs = chain_end prev zs" "se_entry s = se_entry t"
    using chain_end_length [OF l(1) len] chain_end_length [OF l(2) len] l(3)
    by (simp_all add: append_eq_append_conv)
  have "inj_on mac (set (seal_messages prev n xs) \<union> set (seal_messages prev n zs))"
    using snoc.prems(5) by (rule inj_on_subset) (auto simp: ys seal_messages_append)
  from snoc.IH [OF l e(1) this] show ?case using e(2) by (simp add: ys)
qed simp

end
