(* ===== verification/Seal_Properties.thy ===== *)
theory Seal_Properties
  imports Seal_Laws
begin

text \<open>
  The properties of the seals: in every run of the service and the sealer the whole report is clean but for
  transactions that have waited too long; sealing makes progress in the order of commit; and two reports
  with the same chain head are about the same transactions.
\<close>

section \<open>Runs\<close>

text \<open>
  The service and the sealer together. A transaction that is posted after a call of \<^const>\<open>seal\<close> commits under
  a number that was not below the bound of that call; a restart of the process reads the head again.
\<close>

inductive sealed_run ::
  "(bytes \<Rightarrow> bytes) \<Rightarrow> (bytes \<Rightarrow> bytes) \<Rightarrow> (jvalue \<Rightarrow> bytes) \<Rightarrow> (uuid \<Rightarrow> nat) \<Rightarrow> db \<Rightarrow> nat \<Rightarrow> sealer \<Rightarrow> bool"
  for sha mac render xid where
  start: "sealed_run sha mac render xid empty_db 0 \<lparr>sl_rows = [], sl_highest = 0\<rparr>"
| serve: "sealed_run sha mac render xid d b sl \<Longrightarrow> service_step d d' \<Longrightarrow>
    (\<forall>i. posted_in d' i \<longrightarrow> \<not> posted_in d i \<longrightarrow> b \<le> xid i) \<Longrightarrow> sealed_run sha mac render xid d' b sl"
| sealed: "sealed_run sha mac render xid d b sl \<Longrightarrow> b \<le> xmin \<Longrightarrow>
    seal sha mac render d xid xmin locked limit sl = Inr (n, head, sl') \<Longrightarrow> sealed_run sha mac render xid d xmin sl'"
| restart: "sealed_run sha mac render xid d b sl \<Longrightarrow> checkSealKey mac (sl\<lparr>sl_highest := 0\<rparr>) = Inr sl' \<Longrightarrow>
    sealed_run sha mac render xid d b sl'"

lemma sealed_run_inv:
  "sealed_run sha mac render xid d b sl \<Longrightarrow> reachable d \<and> seal_inv sha mac render xid d b sl"
proof (induction rule: sealed_run.induct)
  case start
  then show ?case by (simp add: reachable_def seal_inv_def empty_db_def)
next
  case (serve d b sl d')
  then have r: "reachable d'" unfolding reachable_def by (meson rtranclp.rtrancl_into_rtrancl)
  have inv: "service_inv d" using reachable_inv serve.IH by blast
  have k: "keeps_journal d d'" by (rule service_step_journal [OF serve.hyps(2)])
  have "journal_inv d'" using reachable_inv [OF r] db_invD(3) by (simp add: service_inv_def)
  from seal_inv_service [OF _ k this] show ?case using serve r by blast
next
  case (sealed d b sl xmin locked limit n head sl')
  then have "journal_inv d" using reachable_inv [of d] db_invD(3) by (simp add: service_inv_def)
  with sealed show ?case using seal_keeps_inv by blast
next
  case (restart d b sl sl')
  then have lk: "linked mac genesis 1 (sl_rows sl)" by (simp add: seal_inv_def)
  have "sl' = sl\<lparr>sl_highest := int (length (sl_rows sl))\<rparr>"
    using restart.hyps(2) loadVerifiedHead_linked [OF lk] by (auto simp: checkSealKey_def)
  then show ?case using restart.IH by (simp add: seal_inv_def)
qed

text \<open>
  C18. In every run of the service and the sealer the report of \<^verbatim>\<open>verify\<close> is clean: every total agrees with the
  journal, every row of the chain is linked to the one before and carries the hash of its transaction, no
  transaction before the head is missing, and the only thing that can be reported is a transaction that has
  been posted for more than a minute and is not sealed yet.
\<close>

theorem verify_reports:
  assumes "sealed_run sha mac render xid d b sl"
  shows "vr_issues (verify sha mac render d xid now (sl_rows sl)) = [] \<and>
    ch_seq (vr_head (verify sha mac render d xid now (sl_rows sl))) = int (length (sl_rows sl)) \<and>
    (\<forall>x. x \<in> set (vr_seals (verify sha mac render d xid now (sl_rows sl))) \<longleftrightarrow>
       (\<exists>i r p. x = UnsealedSince i (Some p) \<and> txn_by d i = Some r \<and> tr_status r = Posted \<and>
          tr_postedAt r = Some p \<and> p < now - maxSealLag \<and> i \<notin> se_txn ` set (sl_rows sl)))"
proof -
  have inv: "seal_inv sha mac render xid d b sl" and "reachable d" using sealed_run_inv [OF assms] by simp_all
  then have db: "db_inv d" using reachable_inv by (simp add: service_inv_def)
  obtain js where v: "verifyChain sha mac render d xid now (sl_rows sl) =
      (map (\<lambda>i. UnsealedSince i (tr_postedAt (the (txn_by d i)))) js,
       \<lparr>ch_seq = int (length (sl_rows sl)), ch_hash = chain_end genesis (sl_rows sl)\<rparr>)"
    and js: "\<And>i. i \<in> set js \<longleftrightarrow> late d now (sl_rows sl) i"
    using verifyChain_inv [OF inv db_invD(3) [OF db], of now] by blast
  have "x \<in> set (map (\<lambda>i. UnsealedSince i (tr_postedAt (the (txn_by d i)))) js) \<longleftrightarrow>
      (\<exists>i r p. x = UnsealedSince i (Some p) \<and> txn_by d i = Some r \<and> tr_status r = Posted \<and>
          tr_postedAt r = Some p \<and> p < now - maxSealLag \<and> i \<notin> se_txn ` set (sl_rows sl))" for x
    by (auto simp: js late_def posted_in_def image_iff)
  then show ?thesis using v db_inv_no_issues [OF db] by (simp add: verify_def Let_def)
qed

text \<open>
  C28. Sealing makes progress and never skips: a call that has the lock seals the posted transactions that are
  below its bound and not sealed yet, in the order of their commit, up to its limit, appends one row for each,
  and never fails.
\<close>

theorem seal_progress:
  assumes "sealed_run sha mac render xid d b sl" "b \<le> xmin"
  shows "\<exists>new head sl'. seal sha mac render d xid xmin True limit sl = Inr (length new, head, sl') \<and>
    sl_rows sl' = sl_rows sl @ new \<and> ch_seq head = int (length (sl_rows sl')) \<and>
    length new = min limit (card {i. posted_in d i \<and> xid i < xmin \<and> i \<notin> se_txn ` set (sl_rows sl)}) \<and>
    (\<forall>s \<in> set new. posted_in d (se_txn s) \<and> xid (se_txn s) < xmin \<and> se_txn s \<notin> se_txn ` set (sl_rows sl)) \<and>
    sorted (map (xid \<circ> se_txn) (sl_rows sl'))"
proof -
  have inv: "seal_inv sha mac render xid d b sl" and "reachable d" using sealed_run_inv [OF assms(1)] by simp_all
  then have j: "journal_inv d" using reachable_inv db_invD(3) by (simp add: service_inv_def)
  have iff: "sealable d xid xmin (sl_rows sl) i \<longleftrightarrow>
      posted_in d i \<and> xid i < xmin \<and> i \<notin> se_txn ` set (sl_rows sl)" for i
    by (rule sealable_iff [OF inv j])
  show ?thesis
  proof (rule seal_appends [OF inv j assms(2), of True limit])
    fix new head'
    assume sl: "seal sha mac render d xid xmin True limit sl = Inr (length new, head', \<lparr>sl_rows = sl_rows sl @ new,
        sl_highest = max (sl_highest sl) (ch_seq head')\<rparr>)"
      and ids: "map se_txn new = (if True then unsealed_txns d xid xmin (sl_rows sl) limit else [])"
      and key: "sorted_wrt (<) (map (commit_key xid) (map se_txn (sl_rows sl @ new)))"
      and seq: "ch_seq head' = (if True then int (length (sl_rows sl @ new)) else 0)"
    have "length new = min limit (card {i. sealable d xid xmin (sl_rows sl) i})"
      using ids unsealed_sorted(4) [OF j] by (metis length_map)
    moreover have "sealable d xid xmin (sl_rows sl) (se_txn s)" if "s \<in> set new" for s
      using that ids unsealed_sorted(2) [OF j, of "se_txn s" xid xmin "sl_rows sl" limit] by (metis imageI set_map)
    moreover have "sorted (map (xid \<circ> se_txn) (sl_rows sl @ new))"
    proof -
      have "sorted_wrt (\<le>) (map xid (map se_txn (sl_rows sl @ new)))"
        using key unfolding sorted_wrt_map
        by (rule sorted_wrt_mono_rel [rotated]) (auto simp: commit_key_def less_prod_def)
      then show ?thesis by (simp add: comp_def)
    qed
    ultimately show ?thesis using sl seq by (simp add: iff)
  qed
qed

lemma reachable_unsealed: "reachable d \<Longrightarrow> sealed_run sha mac render xid d 0 \<lparr>sl_rows = [], sl_highest = 0\<rparr>"
  unfolding reachable_def by (induction rule: rtranclp_induct) (auto intro: sealed_run.intros)

text \<open>A chain over the small service, with a stand-in for the hash that tells two texts apart.\<close>

definition sample_text :: bytes where
  "sample_text = (case stored sample_db 100 of None \<Rightarrow> [] | Some t \<Rightarrow> entry_bytes_v3 (\<lambda>m. ''{}'') t)"

definition sample_sha :: "bytes \<Rightarrow> bytes" where
  "sample_sha x = replicate 32 (if x = sample_text then CHR ''a'' else CHR ''b'')"

definition sample_mac :: "bytes \<Rightarrow> bytes" where
  "sample_mac x = replicate 32 (CHR ''c'')"

definition sample_seal :: "(nat \<times> chainHead \<times> sealer) res" where
  "sample_seal = seal sample_sha sample_mac (\<lambda>m. ''{}'') sample_db (\<lambda>i. 5) 9 True 10 \<lparr>sl_rows = [], sl_highest = 0\<rparr>"

definition sample_rows :: "seal_row list" where
  "sample_rows = sl_rows (snd (snd (projr sample_seal)))"

lemma sample_unsealed: "unsealed_txns sample_db (\<lambda>i. 5) 9 [] 10 = [100]"
  by code_simp

lemma sample_run: "sealed_run sample_sha sample_mac (\<lambda>m. ''{}'') (\<lambda>i. 5) sample_db 0 \<lparr>sl_rows = [], sl_highest = 0\<rparr>"
  by (rule reachable_unsealed [OF sample_db_reachable])

lemma sample_sealed_row:
  obtains s head sl where "sample_rows = [s]" "se_txn s = 100" "se_encoding s = Some 3" "0 < se_seq s"
    "sample_seal = Inr (1, head, sl)" "sl_rows sl = sample_rows"
    "sealed_run sample_sha sample_mac (\<lambda>m. ''{}'') (\<lambda>i. 5) sample_db 9 sl"
proof -
  let ?sl = "\<lparr>sl_rows = [], sl_highest = 0\<rparr>"
  have inv: "seal_inv sample_sha sample_mac (\<lambda>m. ''{}'') (\<lambda>i. 5) sample_db 0 ?sl"
    using sealed_run_inv [OF sample_run] by simp
  have j: "journal_inv sample_db" using reachable_inv [OF sample_db_reachable] db_invD(3) by (simp add: service_inv_def)
  show ?thesis
  proof (rule seal_appends [OF inv j, of 9 True 10])
    fix new and head' :: chainHead
    let ?sl' = "\<lparr>sl_rows = sl_rows ?sl @ new, sl_highest = max (sl_highest ?sl) (ch_seq head')\<rparr>"
    assume sl: "seal sample_sha sample_mac (\<lambda>m. ''{}'') sample_db (\<lambda>i. 5) 9 True 10 ?sl = Inr (length new, head', ?sl')"
      and "map se_txn new = (if True then unsealed_txns sample_db (\<lambda>i. 5) 9 (sl_rows ?sl) 10 else [])"
      and enc: "\<forall>s \<in> set new. se_encoding s = Some 3"
      and lk: "linked sample_mac (chain_end genesis (sl_rows ?sl)) (int (length (sl_rows ?sl)) + 1) new"
    then obtain s where s: "new = [s]" "se_txn s = 100" using sample_unsealed by (auto simp: map_eq_Cons_conv)
    have "sealed_run sample_sha sample_mac (\<lambda>m. ''{}'') (\<lambda>i. 5) sample_db 9 ?sl'"
      by (rule sealed_run.sealed [OF sample_run _ sl]) simp
    then show ?thesis
      using that [of s head' ?sl'] sl s enc lk by (simp add: sample_rows_def sample_seal_def)
  qed simp
qed

lemma verify_reports_witness:
  "vr_issues (verify sample_sha sample_mac (\<lambda>m. ''{}'') sample_db (\<lambda>i. 5) 3000 []) = []"
  using verify_reports [OF reachable_unsealed [OF sample_db_reachable], of sample_sha sample_mac "\<lambda>m. ''{}''" "\<lambda>i. 5" 3000]
  by simp

lemma seal_progress_witness:
  "\<exists>new head sl. sample_seal = Inr (length new, head, sl) \<and> sl_rows sl = new \<and> ch_seq head = int (length new)"
  using seal_progress [OF reachable_unsealed [OF sample_db_reachable], of 9 sample_sha sample_mac "\<lambda>m. ''{}''" "\<lambda>i. 5" 10]
  unfolding sample_seal_def by auto

section \<open>Two reports with the same head\<close>

definition sealed_texts :: "(jvalue \<Rightarrow> bytes) \<Rightarrow> db \<Rightarrow> seal_row list \<Rightarrow> bytes set" where
  "sealed_texts render d rows =
     {sealed_bytes render t (se_encoding s) | s t. s \<in> set rows \<and> stored d (se_txn s) = Some t}"

lemma stored_id: "stored d i = Some t \<Longrightarrow> t_id t = i"
  using txn_by_SomeD by (fastforce simp: stored_def split: option.splits if_splits)

lemma sealed_bytes_same:
  assumes "sealed_bytes render t enc = sealed_bytes render t' enc'" "content_fits render t" "content_fits render t'"
  shows "t_id t = t_id t' \<and> (enc \<noteq> None \<longrightarrow> same_content render t t')"
proof -
  have fits: "t_id t < 2 ^ 128" "t_id t' < 2 ^ 128" using assms(2,3) by (simp_all add: content_fits_def)
  show ?thesis
    using assms(1) put_uuid_inject [OF fits] entry_bytes_v3_same [OF assms(2,3)]
    by (cases enc; cases enc')
      (auto simp: sealed_bytes_def entry_bytes_def entry_bytes_v3_def Let_def char_of_eq_iff same_content_def split: if_splits)
qed

lemma verified_rows:
  assumes "verifyChain sha mac render d xid now rows = ([], head)"
    and pk: "distinct (map tr_id (db_txns d))" "distinct (map se_seq rows)" "\<forall>s \<in> set rows. 0 < se_seq s"
  defines "xs \<equiv> sort_key se_seq rows"
  shows "linked mac genesis 1 xs" "list_all (entry_true sha render (stored d)) xs"
    "ch_seq head = int (length xs)" "ch_hash head = chain_end genesis xs"
proof -
  have "filter (\<lambda>s. 1 \<le> se_seq s) rows = rows" using pk(3) by (auto simp: filter_id_conv)
  then have "check_rows sha mac render (stored d) genesis 1 xs = ([], ch_hash head, ch_seq head + 1)"
    using assms(1) unfolding verifyChain_rows [OF pk(1,2)] xs_def by simp
  then show "linked mac genesis 1 xs" "list_all (entry_true sha render (stored d)) xs"
    "ch_seq head = int (length xs)" "ch_hash head = chain_end genesis xs"
    by (simp_all add: check_rows_linked)
qed

text \<open>
  C17. The chain is evidence: when the reports on two states of the database are clean and show the same head,
  then the same transactions are sealed in the same order, and every field of them that is sealed is the same,
  unless two different texts were found with the same hash. The keys of the tables are as PostgreSQL keeps
  them.
\<close>

theorem tamper_evident:
  assumes "verifyChain sha mac render d xid now rows = ([], head)"
    and "verifyChain sha mac render d' xid' now' rows' = ([], head)"
    and "distinct (map tr_id (db_txns d))" "distinct (map se_seq rows)" "\<forall>s \<in> set rows. 0 < se_seq s"
    and "distinct (map tr_id (db_txns d'))" "distinct (map se_seq rows')" "\<forall>s \<in> set rows'. 0 < se_seq s"
    and "\<And>x. length (mac x) = 32"
    and "inj_on mac (set (seal_messages genesis 1 (sort_key se_seq rows)) \<union>
      set (seal_messages genesis 1 (sort_key se_seq rows')))"
    and "inj_on sha (sealed_texts render d rows \<union> sealed_texts render d' rows')"
    and "\<forall>s t. s \<in> set rows \<longrightarrow> stored d (se_txn s) = Some t \<longrightarrow> content_fits render t"
    and "\<forall>s t. s \<in> set rows' \<longrightarrow> stored d' (se_txn s) = Some t \<longrightarrow> content_fits render t"
  shows "map se_txn (sort_key se_seq rows) = map se_txn (sort_key se_seq rows') \<and>
    (\<forall>s \<in> set rows. se_encoding s \<noteq> None \<longrightarrow>
       (\<exists>t t'. stored d (se_txn s) = Some t \<and> stored d' (se_txn s) = Some t' \<and> same_content render t t'))"
proof -
  let ?xs = "sort_key se_seq rows" and ?ys = "sort_key se_seq rows'"
  note x = verified_rows [OF assms(1,3-5)] and y = verified_rows [OF assms(2,6-8)]
  have len: "length ?xs = length ?ys" and endpoint: "chain_end genesis ?xs = chain_end genesis ?ys" using x(3,4) y(3,4) by simp_all
  have "length genesis = 32" by (simp add: genesis_def)
  then have entries: "map se_entry ?xs = map se_entry ?ys" by (rule same_chain [OF x(1) y(1) len endpoint assms(10,9)])
  have each: "se_txn (?xs ! k) = se_txn (?ys ! k) \<and> (se_encoding (?xs ! k) \<noteq> None \<longrightarrow>
      (\<exists>t t'. stored d (se_txn (?xs ! k)) = Some t \<and> stored d' (se_txn (?xs ! k)) = Some t' \<and> same_content render t t'))"
    if k: "k < length ?xs" for k
  proof -
    let ?s = "?xs ! k" and ?s' = "?ys ! k"
    have mem: "?s \<in> set rows" "?s' \<in> set rows'" using k len nth_mem [of k ?xs] nth_mem [of k ?ys] by simp_all
    obtain t where t: "stored d (se_txn ?s) = Some t" "se_entry ?s = sha (sealed_bytes render t (se_encoding ?s))"
      using x(2) k by (auto simp: list_all_length entry_true_def sealedHash_def)
    obtain t' where t': "stored d' (se_txn ?s') = Some t'" "se_entry ?s' = sha (sealed_bytes render t' (se_encoding ?s'))"
      using y(2) k len by (auto simp: list_all_length entry_true_def sealedHash_def)
    have "sha (sealed_bytes render t (se_encoding ?s)) = sha (sealed_bytes render t' (se_encoding ?s'))"
      using entries k len t(2) t'(2) by (metis nth_map)
    moreover have "sealed_bytes render t (se_encoding ?s) \<in> sealed_texts render d rows"
      "sealed_bytes render t' (se_encoding ?s') \<in> sealed_texts render d' rows'"
      using mem t(1) t'(1) unfolding sealed_texts_def by blast+
    ultimately have "sealed_bytes render t (se_encoding ?s) = sealed_bytes render t' (se_encoding ?s')"
      using assms(11) by (meson UnI1 UnI2 inj_onD)
    from sealed_bytes_same [OF this] have "t_id t = t_id t' \<and> (se_encoding ?s \<noteq> None \<longrightarrow> same_content render t t')"
      using assms(12,13) mem t(1) t'(1) by blast
    then show ?thesis using t(1) t'(1) stored_id [OF t(1)] stored_id [OF t'(1)] by auto
  qed
  have "map se_txn ?xs = map se_txn ?ys" using len each by (intro nth_equalityI) simp_all
  moreover have "\<exists>k < length ?xs. ?xs ! k = s" if "s \<in> set rows" for s
    using that by (metis in_set_conv_nth set_sort)
  ultimately show ?thesis using each by metis
qed

definition sample_tampered :: db where
  "sample_tampered = sample_db\<lparr>db_txns := map (\<lambda>r. r\<lparr>tr_description := ''x''\<rparr>) (db_txns sample_db)\<rparr>"

text \<open>What is stored under the id of the deposit, before and after.\<close>

lemma sample_stored:
  "map_option (\<lambda>t. (t_ledger t, t_key t, t_externalID t, t_description t, t_reverses t, t_createdAt t,
     t_effectiveAt t, t_postedAt t, map posting_fields (t_postings t))) (stored sample_db 100) =
   Some (1, ''d'', [], [], None, 2000, 2000, Some 2000,
     [(11, ''EUR'', Debit, 100, 100), (12, ''EUR'', Credit, 100, - 100)])"
  "stored sample_tampered 100 = map_option (\<lambda>t. t\<lparr>t_description := ''x''\<rparr>) (stored sample_db 100)"
  "map tr_id (db_txns sample_db) = [100]"
  by code_simp+

lemma sample_fits:
  assumes "stored sample_db 100 = Some t"
  shows "content_fits (\<lambda>m. ''{}'') t \<and> content_fits (\<lambda>m. ''{}'') (t\<lparr>t_description := ''x''\<rparr>)"
proof -
  have "list_all posting_fits (t_postings t) = list_all (\<lambda>(a, c, sd, n, m). a < 2 ^ 128 \<and> length c < 2 ^ 32 \<and>
      side_valid sd \<and> in_range n \<and> in_range m) (map posting_fields (t_postings t))"
    by (simp add: list_all_iff posting_fits_def posting_fields_def)
  moreover have "length (map posting_fields (t_postings t)) = 2" using sample_stored(1) assms by simp
  then have "length (t_postings t) = 2" by simp
  ultimately show ?thesis
    using sample_stored(1) assms stored_id [OF assms]
    by (simp add: content_fits_def fits_int64_def unixMicro_def in_range_def)
qed

lemma sample_chain_clean:
  obtains head where
    "verifyChain sample_sha sample_mac (\<lambda>m. ''{}'') sample_db (\<lambda>i. 5) 3000 sample_rows = ([], head)"
proof (rule sample_sealed_row)
  fix s head0 sl assume rows: "sample_rows = [s]" "se_txn s = 100" "sl_rows sl = sample_rows"
    and run: "sealed_run sample_sha sample_mac (\<lambda>m. ''{}'') (\<lambda>i. 5) sample_db 9 sl"
  have "journal_inv sample_db" using reachable_inv [OF sample_db_reachable] db_invD(3) by (simp add: service_inv_def)
  moreover have "seal_inv sample_sha sample_mac (\<lambda>m. ''{}'') (\<lambda>i. 5) sample_db 9 sl" using sealed_run_inv [OF run] ..
  ultimately obtain js head where
    v: "verifyChain sample_sha sample_mac (\<lambda>m. ''{}'') sample_db (\<lambda>i. 5) 3000 sample_rows =
      (map (\<lambda>i. UnsealedSince i (tr_postedAt (the (txn_by sample_db i)))) js, head)"
    and js: "\<forall>i. i \<in> set js \<longleftrightarrow> late sample_db 3000 sample_rows i"
    using verifyChain_inv [of sample_sha sample_mac "\<lambda>m. ''{}''" "\<lambda>i. 5" sample_db 9 sl 3000] unfolding rows(3) by blast
  have "\<not> late sample_db 3000 sample_rows i" for i
  proof
    assume l: "late sample_db 3000 sample_rows i"
    then have "i \<in> set (map tr_id (db_txns sample_db))" by (auto simp: late_def dest!: txn_by_SomeD)
    then show False using l rows(2) unfolding late_def rows(1) by (simp add: sample_stored(3))
  qed
  then have "js = []" using js by (cases js) auto
  then show ?thesis using that v by simp
qed

lemma tamper_evident_witness:
  "verifyChain sample_sha sample_mac (\<lambda>m. ''{}'') sample_tampered (\<lambda>i. 5) 3000 sample_rows \<noteq>
   verifyChain sample_sha sample_mac (\<lambda>m. ''{}'') sample_db (\<lambda>i. 5) 3000 sample_rows"
proof (rule sample_chain_clean)
  fix head
  assume clean: "verifyChain sample_sha sample_mac (\<lambda>m. ''{}'') sample_db (\<lambda>i. 5) 3000 sample_rows = ([], head)"
  obtain s where row: "sample_rows = [s]" "se_txn s = 100" "se_encoding s = Some 3" "0 < se_seq s" by (rule sample_sealed_row)
  obtain t where t: "stored sample_db 100 = Some t" using sample_stored(1) by auto
  have t': "stored sample_tampered 100 = Some (t\<lparr>t_description := ''x''\<rparr>)" using sample_stored(2) t by simp
  show ?thesis
  proof
    assume "verifyChain sample_sha sample_mac (\<lambda>m. ''{}'') sample_tampered (\<lambda>i. 5) 3000 sample_rows =
      verifyChain sample_sha sample_mac (\<lambda>m. ''{}'') sample_db (\<lambda>i. 5) 3000 sample_rows"
    then have altered: "verifyChain sample_sha sample_mac (\<lambda>m. ''{}'') sample_tampered (\<lambda>i. 5) 3000 sample_rows = ([], head)"
      using clean by simp
    have keys: "distinct (map tr_id (db_txns sample_db))" "distinct (map tr_id (db_txns sample_tampered))"
      "distinct (map se_seq sample_rows)" "\<forall>s \<in> set sample_rows. 0 < se_seq s"
      unfolding row(1) using sample_stored(3) row(4) by (simp_all add: sample_tampered_def comp_def)
    have mac: "length (sample_mac x) = 32"
      "inj_on sample_mac (set (seal_messages genesis 1 (sort_key se_seq sample_rows)) \<union>
         set (seal_messages genesis 1 (sort_key se_seq sample_rows)))" for x
      unfolding row(1) by (simp_all add: sample_mac_def)
    have "sealed_texts (\<lambda>m. ''{}'') sample_db sample_rows = {sample_text}"
      unfolding row(1) using row(2,3) t by (auto simp: sealed_texts_def sealed_bytes_def sample_text_def)
    moreover have "\<exists>x. sealed_texts (\<lambda>m. ''{}'') sample_tampered sample_rows = {x}"
      unfolding row(1) using row(2,3) t' by (auto simp: sealed_texts_def sealed_bytes_def)
    ultimately have sha: "inj_on sample_sha (sealed_texts (\<lambda>m. ''{}'') sample_db sample_rows \<union>
        sealed_texts (\<lambda>m. ''{}'') sample_tampered sample_rows)"
      by (auto simp: inj_on_def sample_sha_def split: if_splits)
    have fits: "\<forall>s t. s \<in> set sample_rows \<longrightarrow> stored sample_db (se_txn s) = Some t \<longrightarrow> content_fits (\<lambda>m. ''{}'') t"
      "\<forall>s t. s \<in> set sample_rows \<longrightarrow> stored sample_tampered (se_txn s) = Some t \<longrightarrow> content_fits (\<lambda>m. ''{}'') t"
      unfolding row(1) using sample_fits [OF t] row(2) t t' by simp_all
    note same = tamper_evident [OF clean altered keys(1,3,4,2,3,4) mac sha fits, unfolded row(1)]
    have "same_content (\<lambda>m. ''{}'') t (t\<lparr>t_description := ''x''\<rparr>)" using same row(2,3) t t' by simp
    moreover have "t_description t = []" using sample_stored(1) t by simp
    ultimately show False by (simp add: same_content_def)
  qed
qed

end
