(* ===== verification/Bulk.thy ===== *)
theory Bulk
  imports Journal_Growth
begin

text \<open>
  \<^verbatim>\<open>bulk.go\<close>: a bulk request is stored with its items and worked off by a background worker, a chunk at a
  time. A worker claims a request with a lease; posting a chunk and recording its results are two database
  transactions, and the worker can stop between them, so that another one posts the chunk again. \<open>sha\<close> is
  \<^verbatim>\<open>sha256\<close>; \<open>encode\<close> is \<^verbatim>\<open>json.Marshal\<close> and \<open>decode\<close> is \<^verbatim>\<open>json.Unmarshal\<close> of what PostgreSQL keeps of it.
\<close>

section \<open>Rows\<close>

datatype bulk_status = BulkPending | BulkProcessing | BulkCompleted

record bulk =
  bk_id :: uuid
  bk_key :: string
  bk_hash :: string
  bk_status :: bulk_status
  bk_total :: nat
  bk_processed :: nat
  bk_succeeded :: nat
  bk_failed :: nat
  bk_lease :: "gotime option"
  bk_createdAt :: gotime
  bk_startedAt :: "gotime option"
  bk_completedAt :: "gotime option"

text \<open>The columns \<^verbatim>\<open>error_code\<close> and \<^verbatim>\<open>error_detail\<close> are set together; the detail is the text of an error,
  which stands for it, or empty.\<close>

record bulk_item =
  bi_bulk :: uuid
  bi_index :: nat
  bi_request :: string
  bi_txn :: "uuid option"
  bi_error :: "(string \<times> err option) option"

record bulks =
  bs_db :: db
  bs_requests :: "bulk list"
  bs_items :: "bulk_item list"
  bs_events :: "bulk list"

definition maxBulkItems :: nat where
  "maxBulkItems = 10000"

definition bulkLease :: gotime where
  "bulkLease = 60 * 10 ^ 9"

section \<open>Errors as problems\<close>

text \<open>\<^verbatim>\<open>http_errors.go\<close>: the HTTP status and the code of an error; only an internal error hides its text. The two errors
  of a \<^verbatim>\<open>context\<close> are internal errors here, under their text.\<close>

definition problem_codes :: "(err \<times> nat \<times> string) list" where
  "problem_codes =
     [(ErrNotFound, 404, ''not_found''), (ErrAccountExists, 409, ''account_exists''),
      (ErrCurrencyExists, 409, ''currency_exists''), (ErrAccountNotEmpty, 409, ''account_not_empty''),
      (ErrNotPending, 409, ''transaction_not_pending''), (ErrNotPosted, 409, ''transaction_not_posted''),
      (ErrExternalIDExists, 409, ''external_id_exists''), (ErrLockVersion, 409, ''lock_version_conflict''),
      (ErrPeriodClosed, 409, ''period_closed''), (ErrAlreadyReversed, 409, ''already_reversed''),
      (ErrHoldNotPending, 409, ''hold_not_pending''), (ErrScheduleNotPending, 409, ''schedule_not_pending''),
      (ErrIdempotencyConflict, 422, ''idempotency_key_reused''), (ErrUnknownCurrency, 422, ''unknown_currency''),
      (ErrUnknownLedger, 422, ''unknown_ledger''), (ErrCrossLedger, 422, ''cross_ledger_transaction''),
      (ErrAccountNotOpen, 422, ''account_not_open''), (ErrInsufficientFunds, 422, ''insufficient_funds''),
      (ErrCategoryCycle, 422, ''category_cycle''), (ErrCategoryDepth, 422, ''category_too_deep''),
      (ErrCategoryMismatch, 422, ''category_mismatch''), (ErrBalanceLock, 422, ''balance_lock_failed''),
      (ErrUnbalanced, 422, ''unbalanced_transaction''), (ErrBatchAborted, 422, ''batch_aborted''),
      (ErrOverflow, 422, ''amount_overflow''), (ErrInvalid, 422, ''validation_error''),
      (ErrStopped, 503, ''service_unavailable''),
      (ErrInternal ''context deadline exceeded'', 504, ''timeout''), (ErrInternal ''context canceled'', 504, ''timeout'')]"

definition problemFor :: "err \<Rightarrow> nat \<times> string \<times> err option" where
  "problemFor e =
     (case map_of problem_codes e of
        None \<Rightarrow> (500, ''internal_error'', None)
      | Some (status, name) \<Rightarrow> (status, name, Some e))"

section \<open>Creating a request\<close>

definition item_key :: "string \<Rightarrow> nat \<Rightarrow> string" where
  "item_key key i = key @ ''/'' @ showNat i"

definition keyed_items :: "string \<Rightarrow> postInput list \<Rightarrow> postInput list" where
  "keyed_items key ts = map (\<lambda>(i, t). t\<lparr>in_key := item_key key i\<rparr>) (enumerate 0 ts)"

definition validateBulk :: "string \<Rightarrow> postInput list \<Rightarrow> unit res" where
  "validateBulk key ts =
     (if ts = [] \<or> length ts > maxBulkItems then Inl ErrInvalid
      else bindR (validateKeyAndText key [] no_jvalue) (\<lambda>_. first_invalid ts))"

definition request_hash :: "(string \<Rightarrow> string) \<Rightarrow> string list \<Rightarrow> string" where
  "request_hash sha raws = sha (concat (map (\<lambda>r. r @ [CHR 0x0A]) raws))"

definition new_items :: "uuid \<Rightarrow> string list \<Rightarrow> bulk_item list" where
  "new_items i raws =
     map (\<lambda>(n, r). \<lparr>bi_bulk = i, bi_index = n, bi_request = r, bi_txn = None, bi_error = None\<rparr>) (enumerate 0 raws)"

definition createBulk ::
  "(string \<Rightarrow> string) \<Rightarrow> (postInput \<Rightarrow> string) \<Rightarrow> bulks \<Rightarrow> gotime \<Rightarrow> uuid \<Rightarrow> string \<Rightarrow> postInput list \<Rightarrow>
   (bulk \<times> bool \<times> bulks) res" where
  "createBulk sha encode st now newid key ts =
     (let ts = keyed_items key ts in
      bindR (validateBulk key ts) (\<lambda>_.
      let raws = map encode ts; hash = request_hash sha raws in
      case row_by bk_key (bs_requests st) key of
        Some b \<Rightarrow> if bk_hash b \<noteq> hash then Inl ErrIdempotencyConflict else Inr (b, True, st)
      | None \<Rightarrow>
          if row_by bk_id (bs_requests st) newid \<noteq> None then Inl (ErrConstraint ''ledger_bulk_requests_pkey'')
          else let b = \<lparr>bk_id = newid, bk_key = key, bk_hash = hash, bk_status = BulkPending,
                        bk_total = length raws, bk_processed = 0, bk_succeeded = 0, bk_failed = 0, bk_lease = None,
                        bk_createdAt = now, bk_startedAt = None, bk_completedAt = None\<rparr>
               in Inr (b, False, st\<lparr>bs_requests := bs_requests st @ [b],
                                   bs_items := bs_items st @ new_items newid raws\<rparr>)))"

definition queryBulk :: "bulks \<Rightarrow> uuid \<Rightarrow> bulk res" where
  "queryBulk st i = (case row_by bk_id (bs_requests st) i of None \<Rightarrow> Inl ErrNotFound | Some b \<Rightarrow> Inr b)"

text \<open>The rows of a request in the order of the index.\<close>

definition items_from :: "bulks \<Rightarrow> uuid \<Rightarrow> int \<Rightarrow> bulk_item list" where
  "items_from st i low =
     sort_key bi_index (filter (\<lambda>x. bi_bulk x = i \<and> low \<le> int (bi_index x)) (bs_items st))"

definition bulkResults :: "bulks \<Rightarrow> uuid \<Rightarrow> int \<Rightarrow> int \<Rightarrow> (nat \<times> uuid option \<times> (string \<times> err option) option) list res" where
  "bulkResults st i after limit =
     bindR (queryBulk st i) (\<lambda>_.
     if limit < 1 \<or> limit > int maxListLimit then Inl ErrInvalid
     else Inr (map (\<lambda>x. (bi_index x, bi_txn x, bi_error x)) (take (nat limit) (items_from st i (after + 1)))))"

section \<open>Working it off\<close>

definition update_bulk :: "uuid \<Rightarrow> (bulk \<Rightarrow> bulk) \<Rightarrow> bulks \<Rightarrow> bulks" where
  "update_bulk i f st = st\<lparr>bs_requests := update_rows (\<lambda>b. bk_id b = i) f (bs_requests st)\<rparr>"

text \<open>The oldest request that waits, or whose lease has run out; \<open>skip\<close> are the rows that another database
  transaction has locked.\<close>

definition claimable :: "gotime \<Rightarrow> (uuid \<Rightarrow> bool) \<Rightarrow> bulk \<Rightarrow> bool" where
  "claimable now skip b \<longleftrightarrow>
     (bk_status b = BulkPending \<or>
      bk_status b = BulkProcessing \<and> (case bk_lease b of None \<Rightarrow> False | Some l \<Rightarrow> l < now)) \<and> \<not> skip (bk_id b)"

definition claimBulk :: "bulks \<Rightarrow> gotime \<Rightarrow> (uuid \<Rightarrow> bool) \<Rightarrow> ((uuid \<times> nat \<times> nat) \<times> bulks) option" where
  "claimBulk st now skip =
     (case sort_key bk_createdAt (filter (claimable now skip) (bs_requests st)) of
        [] \<Rightarrow> None
      | b # _ \<Rightarrow>
          Some ((bk_id b, bk_processed b, bk_total b),
            update_bulk (bk_id b) (\<lambda>b. b\<lparr>bk_status := BulkProcessing, bk_lease := Some (now + bulkLease),
              bk_startedAt := Some (or_zero now (bk_startedAt b))\<rparr>) st))"

fun decode_all :: "(string \<Rightarrow> postInput option) \<Rightarrow> bulk_item list \<Rightarrow> postInput list res" where
  "decode_all decode [] = Inr []"
| "decode_all decode (x # xs) =
     (case decode (bi_request x) of
        None \<Rightarrow> Inl (ErrInternal ''decode'')
      | Some i \<Rightarrow> bindR (decode_all decode xs) (\<lambda>is. Inr (i # is)))"

definition readChunk :: "(string \<Rightarrow> postInput option) \<Rightarrow> bulks \<Rightarrow> uuid \<Rightarrow> nat \<Rightarrow> nat \<Rightarrow> (nat list \<times> postInput list) res" where
  "readChunk decode st i processed chunk =
     (let xs = take chunk (items_from st i (int processed))
      in bindR (decode_all decode xs) (\<lambda>ins. Inr (map bi_index xs, ins)))"

fun item_outcome :: "batchResult \<Rightarrow> bulk_item \<Rightarrow> bulk_item" where
  "item_outcome (BatchError e) x =
     x\<lparr>bi_txn := None, bi_error := Some (fst (snd (problemFor e)), snd (snd (problemFor e)))\<rparr>"
| "item_outcome (BatchTxn t r) x = x\<lparr>bi_txn := Some (t_id t), bi_error := None\<rparr>"

fun batch_failed :: "batchResult \<Rightarrow> bool" where
  "batch_failed (BatchError e) = True"
| "batch_failed (BatchTxn t r) = False"

text \<open>\<^verbatim>\<open>UPDATE ledger_bulk_items ... FROM unnest(...)\<close>: each index meets one result.\<close>

definition update_items :: "uuid \<Rightarrow> (nat \<times> batchResult) list \<Rightarrow> bulk_item list \<Rightarrow> bulk_item list" where
  "update_items i rs xs =
     map (\<lambda>x. if bi_bulk x = i then (case map_of rs (bi_index x) of None \<Rightarrow> x | Some r \<Rightarrow> item_outcome r x) else x) xs"

text \<open>The second database transaction of a chunk: \<open>None\<close> is \<^verbatim>\<open>next = -1\<close>, when another worker has recorded
  results since this one read its chunk.\<close>

definition recordChunk ::
  "bulks \<Rightarrow> gotime \<Rightarrow> uuid \<Rightarrow> nat \<Rightarrow> nat list \<Rightarrow> batchResult list \<Rightarrow> (nat option \<times> bulks) res" where
  "recordChunk st now i processed idxs rs =
     (let following = processed + length rs in
      case find (\<lambda>b. bk_id b = i \<and> bk_processed b = processed) (bs_requests st) of
        None \<Rightarrow> Inr (None, st)
      | Some b \<Rightarrow>
          if following > bk_total b then Inl (ErrConstraint ''ledger_bulk_requests_processed_check'')
          else let b' = b\<lparr>bk_processed := following,
                          bk_succeeded := bk_succeeded b + length (filter (\<lambda>r. \<not> batch_failed r) rs),
                          bk_failed := bk_failed b + length (filter batch_failed rs),
                          bk_lease := Some (now + bulkLease),
                          bk_status := (if following = bk_total b then BulkCompleted else bk_status b),
                          bk_completedAt := (if following = bk_total b then Some now else None)\<rparr>;
                   st' = (update_bulk i (\<lambda>_. b') st)\<lparr>bs_items := update_items i (zip idxs rs) (bs_items st)\<rparr>
               in Inr (Some following,
                    if bk_status b' \<noteq> BulkCompleted then st' else st'\<lparr>bs_events := bs_events st' @ [b']\<rparr>))"

definition processChunk ::
  "(string \<Rightarrow> postInput option) \<Rightarrow> bulks \<Rightarrow> gotime \<Rightarrow> (nat \<Rightarrow> uuid) \<Rightarrow> uuid \<Rightarrow> nat \<Rightarrow> nat \<Rightarrow> nat option res \<times> bulks" where
  "processChunk decode st now fresh i processed chunk =
     (case readChunk decode st i processed chunk of
        Inl e \<Rightarrow> (Inl e, st)
      | Inr (idxs, ins) \<Rightarrow>
          (case postBatch (bs_db st) now fresh ins False of
             Inl e \<Rightarrow> (Inl e, st)
           | Inr (rs, d) \<Rightarrow>
               let st = st\<lparr>bs_db := d\<rparr>
               in case recordChunk st now i processed idxs rs of
                    Inl e \<Rightarrow> (Inl e, st)
                  | Inr (following, st) \<Rightarrow> (Inr following, st)))"

text \<open>The loop of \<^verbatim>\<open>processBulk\<close> after the claim; \<open>env n\<close> are the time and the new ids of the \<open>n\<close>-th chunk.\<close>

partial_function (option) chunks ::
  "(string \<Rightarrow> postInput option) \<Rightarrow> (nat \<Rightarrow> gotime \<times> (nat \<Rightarrow> uuid)) \<Rightarrow> nat \<Rightarrow> bulks \<Rightarrow> uuid \<Rightarrow> nat \<Rightarrow> nat \<Rightarrow> nat \<Rightarrow>
   (unit res \<times> bulks) option" where
  "chunks decode env n st i processed items chunk =
     (if \<not> processed < items then Some (ok, st)
      else case processChunk decode st (fst (env n)) (snd (env n)) i processed chunk of
             (Inl e, st') \<Rightarrow> Some (Inl e, st')
           | (Inr None, st') \<Rightarrow> Some (ok, st')
           | (Inr (Some following), st') \<Rightarrow> chunks decode env (Suc n) st' i following items chunk)"

text \<open>The result tells whether there was a request to work on.\<close>

definition processBulk ::
  "(string \<Rightarrow> postInput option) \<Rightarrow> (nat \<Rightarrow> gotime \<times> (nat \<Rightarrow> uuid)) \<Rightarrow> bulks \<Rightarrow> gotime \<Rightarrow> (uuid \<Rightarrow> bool) \<Rightarrow> nat \<Rightarrow>
   (bool \<times> unit res \<times> bulks) option" where
  "processBulk decode env st now skip chunk =
     (case claimBulk st now skip of
        None \<Rightarrow> Some (False, ok, st)
      | Some ((i, processed, items), st') \<Rightarrow>
          map_option (\<lambda>(r, st''). (True, r, st'')) (chunks decode env 0 st' i processed items chunk))"

section \<open>Many workers\<close>

text \<open>What a worker holds between its database transactions.\<close>

datatype bulk_worker =
    BulkIdle
  | BulkClaimed uuid nat nat
  | BulkPosted uuid nat nat "nat list" "batchResult list"

text \<open>The database transactions of the service and of the workers in any order. A worker can stop at any
  point, which loses what it held and nothing else; its lease decides when another one goes on.\<close>

inductive bulk_step ::
  "(string \<Rightarrow> string) \<Rightarrow> (postInput \<Rightarrow> string) \<Rightarrow> (string \<Rightarrow> postInput option) \<Rightarrow>
   bulks \<times> bulk_worker list \<Rightarrow> bulks \<times> bulk_worker list \<Rightarrow> bool"
  for sha encode decode where
  serve: "service_step (bs_db st) d' \<Longrightarrow> bulk_step sha encode decode (st, ws) (st\<lparr>bs_db := d'\<rparr>, ws)"
| create: "createBulk sha encode st now newid key ts = Inr (b, replayed, st') \<Longrightarrow>
    list_all (\<lambda>t. amounts_ok (in_postings t)) ts \<Longrightarrow> bulk_step sha encode decode (st, ws) (st', ws)"
| claim: "claimBulk st now skip = Some ((i, p, t), st') \<Longrightarrow> w < length ws \<Longrightarrow> ws ! w = BulkIdle \<Longrightarrow>
    bulk_step sha encode decode (st, ws) (st', ws[w := BulkClaimed i p t])"
| post: "w < length ws \<Longrightarrow> ws ! w = BulkClaimed i p t \<Longrightarrow> p < t \<Longrightarrow> readChunk decode st i p chunk = Inr (idxs, ins) \<Longrightarrow>
    postBatch (bs_db st) now fresh ins False = Inr (rs, d') \<Longrightarrow>
    bulk_step sha encode decode (st, ws) (st\<lparr>bs_db := d'\<rparr>, ws[w := BulkPosted i p t idxs rs])"
| written: "w < length ws \<Longrightarrow> ws ! w = BulkPosted i p t idxs rs \<Longrightarrow>
    recordChunk st now i p idxs rs = Inr (following, st') \<Longrightarrow>
    bulk_step sha encode decode (st, ws)
      (st', ws[w := (case following of None \<Rightarrow> BulkIdle | Some n \<Rightarrow> BulkClaimed i n t)])"
| stop: "w < length ws \<Longrightarrow> bulk_step sha encode decode (st, ws) (st, ws[w := BulkIdle])"

definition bulk_start :: "nat \<Rightarrow> db \<Rightarrow> bulks \<times> bulk_worker list" where
  "bulk_start n d = (\<lparr>bs_db = d, bs_requests = [], bs_items = [], bs_events = []\<rparr>, replicate n BulkIdle)"

end
