(* ===== verification/Bulk_Laws.thy ===== *)
theory Bulk_Laws
  imports Bulk
begin

text \<open>
  The laws of bulk requests: what a batch says of the transactions it names is true of the database, and
  stays true; the invariant of the stored requests, which every step of the service and of the workers keeps;
  and the loop of one worker, which ends.
\<close>

section \<open>The transactions that a batch names\<close>

lemma run_known:
  assumes run: "runRequests d now fresh reqs False = Inr (rs, d')" and inv: "db_inv d"
    and reqs: "\<forall>req \<in> set reqs. request_ok req" and s: "k < length reqs" "rs ! k = Success t r"
  shows "known d' (in_key (rq_in (reqs ! k))) (t_id t)"
proof -
  have "applyRequests d now fresh reqs False = Applied rs d'"
    using run resolve_all_not_atomic
    by (auto simp: runRequests_def applyRequests_def Let_def split: applied.splits if_splits prod.splits sum.splits)
  from applied_known(1) [OF this inv reqs s] show ?thesis .
qed

lemma place_results_length [simp]: "length (place_results ins rs) = length ins"
  by (induction ins rs rule: place_results.induct) (simp_all split: sum.splits list.splits)

lemma place_results_txn:
  "place_results ins rs ! k = BatchTxn t r \<Longrightarrow> k < length ins \<Longrightarrow>
    \<exists>j < length rs. j < length (valid_requests ins) \<and> rs ! j = Success t r \<and> valid_requests ins ! j = plain_request (ins ! k)"
proof (induction ins rs arbitrary: k rule: place_results.induct)
  case (2 i ins rs)
  show ?case
  proof (cases "validatePost i")
    case (Inl e)
    then have "place_results ins rs ! (k - 1) = BatchTxn t r" "k \<noteq> 0"
      using 2(4) by (cases k; simp add: failedResult_def)+
    then show ?thesis using 2(1) [OF Inl, of "k - 1"] 2(5) Inl by (auto simp: valid_requests_def)
  next
    case (Inr u)
    show ?thesis
    proof (cases rs)
      case Nil
      then obtain m where "k = Suc m" "place_results ins [] ! m = BatchTxn t r" using 2(4) Inr by (cases k) auto
      then show ?thesis using 2(2) [OF Inr Nil, of m] 2(5) by simp
    next
      case (Cons x xs)
      show ?thesis
      proof (cases k)
        case 0
        then have "x = Success t r" using 2(4) Inr Cons by (cases x) (auto simp: failedResult_def)
        then show ?thesis using 0 Cons Inr by (auto simp: valid_requests_def)
      next
        case (Suc m)
        then have "place_results ins xs ! m = BatchTxn t r" using 2(4) Inr Cons by simp
        then obtain j where "j < length xs" "j < length (valid_requests ins)" "xs ! j = Success t r"
          "valid_requests ins ! j = plain_request (ins ! m)"
          using 2(3) [OF Inr Cons, of m] 2(5) Suc by auto
        then show ?thesis using Cons Inr Suc by (intro exI [of _ "Suc j"]) (simp add: valid_requests_def)
      qed
    qed
  qed
qed simp

lemma batch_known:
  assumes post: "postBatch d now fresh ins False = Inr (rs, d')" and inv: "db_inv d"
    and am: "list_all (\<lambda>i. amounts_ok (in_postings i)) ins"
  shows "length rs = length ins" and "k < length ins \<Longrightarrow> rs ! k = BatchTxn t r \<Longrightarrow> known d' (in_key (ins ! k)) (t_id t)"
proof -
  have rs: "rs = place_results ins [] \<and> valid_requests ins = [] \<or>
      (\<exists>prs. runRequests d now fresh (valid_requests ins) False = Inr (prs, d') \<and> rs = place_results ins prs)"
    using post by (auto simp: postBatch_def Let_def split: if_splits)
  then show "length rs = length ins" by auto
  assume k: "k < length ins" "rs ! k = BatchTxn t r"
  from rs show "known d' (in_key (ins ! k)) (t_id t)"
  proof
    assume "rs = place_results ins [] \<and> valid_requests ins = []"
    then show ?thesis using place_results_txn [of ins "[]" k t r] k by simp
  next
    assume "\<exists>prs. runRequests d now fresh (valid_requests ins) False = Inr (prs, d') \<and> rs = place_results ins prs"
    then obtain prs where prs: "runRequests d now fresh (valid_requests ins) False = Inr (prs, d')"
      "place_results ins prs ! k = BatchTxn t r" using k(2) by blast
    obtain j where j: "j < length (valid_requests ins)" "prs ! j = Success t r"
      "valid_requests ins ! j = plain_request (ins ! k)" using place_results_txn [OF prs(2) k(1)] by blast
    from run_known [OF prs(1) inv valid_requests_ok [OF am] j(1,2)] show ?thesis
      using j(3) by (simp add: plain_request_def)
  qed
qed

section \<open>The invariant of the stored requests\<close>

text \<open>What the worker relies on: decoding an item gives back a request with the same key, and amounts that
  were in range.\<close>

definition codec_ok :: "(postInput \<Rightarrow> string) \<Rightarrow> (string \<Rightarrow> postInput option) \<Rightarrow> bool" where
  "codec_ok encode decode \<longleftrightarrow>
     (\<forall>t. amounts_ok (in_postings t) \<longrightarrow>
        (\<exists>t'. decode (encode t) = Some t' \<and> in_key t' = in_key t \<and> amounts_ok (in_postings t')))"

definition items_of :: "bulks \<Rightarrow> uuid \<Rightarrow> bulk_item list" where
  "items_of st i = filter (\<lambda>x. bi_bulk x = i) (bs_items st)"

text \<open>An item before the mark has one outcome, which is true of the database; one after it has none.\<close>

definition item_done :: "db \<Rightarrow> string \<Rightarrow> bulk_item \<Rightarrow> bool" where
  "item_done d key x \<longleftrightarrow>
     (case bi_txn x of None \<Rightarrow> bi_error x \<noteq> None | Some t \<Rightarrow> bi_error x = None \<and> known d key t)"

definition item_open :: "bulk_item \<Rightarrow> bool" where
  "item_open x \<longleftrightarrow> bi_txn x = None \<and> bi_error x = None"

definition items_ok :: "db \<Rightarrow> bulk \<Rightarrow> bulk_item list \<Rightarrow> bool" where
  "items_ok d b xs \<longleftrightarrow>
     (\<forall>k < length xs. if k < bk_processed b then item_done d (item_key (bk_key b) k) (xs ! k) else item_open (xs ! k)) \<and>
     bk_succeeded b = length (filter (\<lambda>x. bi_txn x \<noteq> None) xs)"

definition stored_inputs :: "(postInput \<Rightarrow> string) \<Rightarrow> bulk \<Rightarrow> bulk_item list \<Rightarrow> bool" where
  "stored_inputs encode b xs \<longleftrightarrow>
     (\<exists>ts. xs \<noteq> [] \<and> list_all (\<lambda>t. amounts_ok (in_postings t)) ts \<and>
        map in_key ts = map (item_key (bk_key b)) [0..<length xs] \<and>
        map bi_request xs = map encode ts \<and> map bi_index xs = [0..<length xs])"

definition bulk_ok :: "(postInput \<Rightarrow> string) \<Rightarrow> bulks \<Rightarrow> bulk \<Rightarrow> bool" where
  "bulk_ok encode st b \<longleftrightarrow>
     bk_total b = length (items_of st (bk_id b)) \<and> stored_inputs encode b (items_of st (bk_id b)) \<and>
     items_ok (bs_db st) b (items_of st (bk_id b)) \<and>
     bk_processed b \<le> bk_total b \<and> bk_succeeded b + bk_failed b = bk_processed b \<and>
     (bk_status b = BulkCompleted \<longleftrightarrow> bk_processed b = bk_total b) \<and>
     length (filter (\<lambda>e. bk_id e = bk_id b) (bs_events st)) = (if bk_status b = BulkCompleted then 1 else 0)"

definition bulk_inv :: "(postInput \<Rightarrow> string) \<Rightarrow> bulks \<Rightarrow> bool" where
  "bulk_inv encode st \<longleftrightarrow>
     service_inv (bs_db st) \<and> distinct (map bk_id (bs_requests st)) \<and> distinct (map bk_key (bs_requests st)) \<and>
     (\<forall>b \<in> set (bs_requests st). bulk_ok encode st b) \<and>
     bi_bulk ` set (bs_items st) \<union> bk_id ` set (bs_events st) \<subseteq> bk_id ` set (bs_requests st)"

definition worker_ok :: "bulks \<Rightarrow> bulk_worker \<Rightarrow> bool" where
  "worker_ok st w \<longleftrightarrow>
     (case w of
        BulkIdle \<Rightarrow> True
      | BulkClaimed i p t \<Rightarrow> \<exists>b \<in> set (bs_requests st). bk_id b = i \<and> bk_total b = t \<and> p \<le> bk_processed b
      | BulkPosted i p t idxs rs \<Rightarrow> \<exists>b \<in> set (bs_requests st). bk_id b = i \<and> bk_total b = t \<and> p \<le> bk_processed b \<and>
          rs \<noteq> [] \<and> idxs = [p..<p + length rs] \<and> p + length rs \<le> t \<and>
          (\<forall>k < length rs. \<forall>x r. rs ! k = BatchTxn x r \<longrightarrow> known (bs_db st) (item_key (bk_key b) (p + k)) (t_id x)))"

text \<open>Requests are never removed, keep their identity, and never go back; an outcome that is recorded stays.\<close>

definition goes_on :: "bulks \<Rightarrow> bulks \<Rightarrow> bool" where
  "goes_on st st' \<longleftrightarrow>
     keeps_journal (bs_db st) (bs_db st') \<and>
     (\<forall>b \<in> set (bs_requests st). \<exists>b' \<in> set (bs_requests st').
        bk_id b' = bk_id b \<and> bk_key b' = bk_key b \<and> bk_total b' = bk_total b \<and> bk_processed b \<le> bk_processed b') \<and>
     (\<forall>b \<in> set (bs_requests st).
        take (bk_processed b) (items_of st' (bk_id b)) = take (bk_processed b) (items_of st (bk_id b)))"

lemma goes_on_trans: "goes_on st st' \<Longrightarrow> goes_on st' st'' \<Longrightarrow> goes_on st st''"
proof -
  assume a: "goes_on st st'" and b: "goes_on st' st''"
  have "(\<exists>b'' \<in> set (bs_requests st''). bk_id b'' = bk_id x \<and> bk_key b'' = bk_key x \<and> bk_total b'' = bk_total x \<and>
        bk_processed x \<le> bk_processed b'') \<and>
      take (bk_processed x) (items_of st'' (bk_id x)) = take (bk_processed x) (items_of st (bk_id x))"
    if x: "x \<in> set (bs_requests st)" for x
  proof -
    obtain y where y: "y \<in> set (bs_requests st')" "bk_id y = bk_id x" "bk_key y = bk_key x" "bk_total y = bk_total x"
      "bk_processed x \<le> bk_processed y" using a x unfolding goes_on_def by blast
    obtain z where "z \<in> set (bs_requests st'')" "bk_id z = bk_id y" "bk_key z = bk_key y" "bk_total z = bk_total y"
      "bk_processed y \<le> bk_processed z" using b y(1) unfolding goes_on_def by blast
    moreover have "take (bk_processed y) (items_of st'' (bk_id x)) = take (bk_processed y) (items_of st' (bk_id x))"
      using b y(1,2) unfolding goes_on_def by metis
    then have "take (bk_processed x) (items_of st'' (bk_id x)) = take (bk_processed x) (items_of st' (bk_id x))"
      using y(5) by (metis min.absorb1 take_take)
    ultimately show ?thesis using a x y unfolding goes_on_def by (metis le_trans)
  qed
  then show ?thesis using a b keeps_journal_trans unfolding goes_on_def by blast
qed

lemma worker_ok_goes_on: "worker_ok st w \<Longrightarrow> goes_on st st' \<Longrightarrow> worker_ok st' w"
proof (cases w)
  case (BulkClaimed i p t)
  assume w: "worker_ok st w" and g: "goes_on st st'"
  then obtain b where b: "b \<in> set (bs_requests st)" "bk_id b = i" "bk_total b = t" "p \<le> bk_processed b"
    by (auto simp: worker_ok_def BulkClaimed)
  then obtain b' where "b' \<in> set (bs_requests st')" "bk_id b' = i" "bk_total b' = t" "p \<le> bk_processed b'"
    using g unfolding goes_on_def by (metis le_trans)
  then show ?thesis by (auto simp: worker_ok_def BulkClaimed)
next
  case (BulkPosted i p t idxs rs)
  assume w: "worker_ok st w" and g: "goes_on st st'"
  then obtain b where b: "b \<in> set (bs_requests st)" "bk_id b = i" "bk_total b = t" "p \<le> bk_processed b"
    "rs \<noteq> [] \<and> idxs = [p..<p + length rs]" "p + length rs \<le> t"
    "\<forall>k < length rs. \<forall>x r. rs ! k = BatchTxn x r \<longrightarrow> known (bs_db st) (item_key (bk_key b) (p + k)) (t_id x)"
    by (auto simp: worker_ok_def BulkPosted)
  obtain b' where b': "b' \<in> set (bs_requests st')" "bk_id b' = bk_id b" "bk_key b' = bk_key b" "bk_total b' = bk_total b"
    "bk_processed b \<le> bk_processed b'"
    using g b(1) unfolding goes_on_def by blast
  have "\<forall>k < length rs. \<forall>x r. rs ! k = BatchTxn x r \<longrightarrow> known (bs_db st') (item_key (bk_key b') (p + k)) (t_id x)"
    using b(7) g known_keeps unfolding b'(3) goes_on_def by blast
  then show ?thesis
    using b b' unfolding worker_ok_def BulkPosted by (auto intro!: bexI [of _ b'])
qed (simp add: worker_ok_def)

lemma item_done_keeps: "item_done d key x \<Longrightarrow> keeps_journal d d' \<Longrightarrow> item_done d' key x"
  by (auto simp: item_done_def known_keeps split: option.splits)

lemma items_ok_keeps: "items_ok d b xs \<Longrightarrow> keeps_journal d d' \<Longrightarrow> items_ok d' b xs"
  unfolding items_ok_def using item_done_keeps by metis

lemma items_of_db [simp]: "items_of (st\<lparr>bs_db := d\<rparr>) = items_of st" "items_of (update_bulk i f st) = items_of st"
  by (simp_all add: items_of_def update_bulk_def fun_eq_iff)

lemma bulk_inv_db:
  assumes "bulk_inv encode st" "service_inv d'" "keeps_journal (bs_db st) d'"
  shows "bulk_inv encode (st\<lparr>bs_db := d'\<rparr>) \<and> goes_on st (st\<lparr>bs_db := d'\<rparr>)"
  using assms items_ok_keeps [OF _ assms(3)] by (auto simp: bulk_inv_def bulk_ok_def goes_on_def)

text \<open>A change of one request that keeps its identity.\<close>

lemma bulk_inv_update:
  assumes inv: "bulk_inv encode st" and b: "b \<in> set (bs_requests st)"
    and keep: "bk_id b' = bk_id b" "bk_key b' = bk_key b" "bk_total b' = bk_total b" "bk_processed b \<le> bk_processed b'"
    and items: "\<And>j. j \<noteq> bk_id b \<Longrightarrow> items_of st' j = items_of st j" "bi_bulk ` set (bs_items st') = bi_bulk ` set (bs_items st)"
    and kept: "take (bk_processed b) (items_of st' (bk_id b)) = take (bk_processed b) (items_of st (bk_id b))"
    and db: "bs_db st' = bs_db st"
    and reqs: "bs_requests st' = update_rows (\<lambda>x. bk_id x = bk_id b) (\<lambda>_. b') (bs_requests st)"
    and events: "bs_events st' = bs_events st \<or> bs_events st' = bs_events st @ [b']"
    and ok': "bulk_ok encode st' b'"
  shows "bulk_inv encode st' \<and> goes_on st st'"
proof -
  have ids: "map bk_id (bs_requests st') = map bk_id (bs_requests st)"
    unfolding reqs by (rule map_key_update_rows) (simp add: keep(1))
  have row: "x = b" if "x \<in> set (bs_requests st)" "bk_id x = bk_id b" for x
    using inv b that by (auto simp: bulk_inv_def distinct_map dest: inj_onD)
  have keys: "map bk_key (bs_requests st') = map bk_key (bs_requests st)"
    unfolding reqs update_rows_def using row keep(2) by auto
  have set: "set (bs_requests st') = insert b' (set (bs_requests st) - {b})"
    unfolding reqs update_rows_def using row b by (auto simp: image_iff)
  have ids_set: "bk_id ` set (bs_requests st') = bk_id ` set (bs_requests st)"
    using arg_cong [OF ids, of set] by simp
  have "bulk_ok encode st' x" if x: "x \<in> set (bs_requests st) - {b}" for x
  proof -
    have "bk_id x \<noteq> bk_id b" using row x by blast
    then have "filter (\<lambda>e. bk_id e = bk_id x) (bs_events st') = filter (\<lambda>e. bk_id e = bk_id x) (bs_events st)"
      "items_of st' (bk_id x) = items_of st (bk_id x)"
      using events keep(1) items(1) by auto
    note same = this
    have "bulk_ok encode st x" using inv x by (simp add: bulk_inv_def)
    then show ?thesis unfolding bulk_ok_def same db .
  qed
  moreover have "bi_bulk ` set (bs_items st') \<union> bk_id ` set (bs_events st') \<subseteq> bk_id ` set (bs_requests st')"
  proof -
    have "bk_id ` set (bs_events st') \<subseteq> insert (bk_id b) (bk_id ` set (bs_events st))" using events keep(1) by auto
    also have "\<dots> \<subseteq> bk_id ` set (bs_requests st)" using inv b by (simp add: bulk_inv_def)
    finally show ?thesis using inv unfolding ids_set items(2) by (simp add: bulk_inv_def)
  qed
  moreover have "goes_on st st'"
    unfolding goes_on_def
  proof (intro conjI ballI)
    show "keeps_journal (bs_db st) (bs_db st')" by (simp add: db)
    show "\<exists>b' \<in> set (bs_requests st'). bk_id b' = bk_id x \<and> bk_key b' = bk_key x \<and> bk_total b' = bk_total x \<and>
        bk_processed x \<le> bk_processed b'" if "x \<in> set (bs_requests st)" for x
      using that keep by (cases "x = b") (auto simp: set)
    show "take (bk_processed x) (items_of st' (bk_id x)) = take (bk_processed x) (items_of st (bk_id x))"
      if "x \<in> set (bs_requests st)" for x
      using that kept items(1) row by metis
  qed
  moreover have "\<forall>x \<in> set (bs_requests st'). bulk_ok encode st' x" using calculation(1) ok' unfolding set by blast
  ultimately show ?thesis using inv unfolding bulk_inv_def ids keys db by blast
qed

lemma claimBulk_inv:
  assumes c: "claimBulk st now skip = Some ((i, p, t), st')" and inv: "bulk_inv encode st"
  shows "bulk_inv encode st' \<and> goes_on st st' \<and> worker_ok st' (BulkClaimed i p t)"
    and "\<exists>b \<in> set (bs_requests st). bk_id b = i \<and> bk_processed b = p \<and> bk_total b = t \<and> bk_status b \<noteq> BulkCompleted"
proof -
  obtain b rest where sorted: "sort_key bk_createdAt (filter (claimable now skip) (bs_requests st)) = b # rest"
    and e: "i = bk_id b" "p = bk_processed b" "t = bk_total b"
    and st': "st' = update_bulk (bk_id b) (\<lambda>b. b\<lparr>bk_status := BulkProcessing, bk_lease := Some (now + bulkLease),
      bk_startedAt := Some (or_zero now (bk_startedAt b))\<rparr>) st"
    using c by (auto simp: claimBulk_def split: list.splits)
  let ?b = "b\<lparr>bk_status := BulkProcessing, bk_lease := Some (now + bulkLease),
      bk_startedAt := Some (or_zero now (bk_startedAt b))\<rparr>"
  have "b \<in> set (sort_key bk_createdAt (filter (claimable now skip) (bs_requests st)))" unfolding sorted by simp
  then have b: "b \<in> set (bs_requests st)" "bk_status b \<noteq> BulkCompleted" by (auto simp: claimable_def)
  have row: "x = b" if "x \<in> set (bs_requests st)" "bk_id x = bk_id b" for x
    using inv b that by (auto simp: bulk_inv_def distinct_map dest: inj_onD)
  have reqs: "bs_requests st' = update_rows (\<lambda>x. bk_id x = bk_id b) (\<lambda>_. ?b) (bs_requests st)"
    using row unfolding st' update_bulk_def update_rows_def by auto
  have old: "bulk_ok encode st b" using inv b by (simp add: bulk_inv_def)
  have same: "items_of st' = items_of st" "bs_db st' = bs_db st" "bs_events st' = bs_events st" "bs_items st' = bs_items st"
    by (simp_all add: st' update_bulk_def items_of_def fun_eq_iff)
  have "bulk_ok encode st' ?b"
    using old b(2) by (simp add: bulk_ok_def same items_ok_def stored_inputs_def)
  then have all: "bulk_inv encode st' \<and> goes_on st st'"
    by (intro bulk_inv_update [OF inv b(1), of ?b st']) (simp_all add: same reqs)
  have "?b \<in> set (bs_requests st')" unfolding reqs update_rows_def using b(1) by force
  then have "worker_ok st' (BulkClaimed i p t)" by (auto simp: worker_ok_def e intro!: bexI [of _ ?b])
  then show "bulk_inv encode st' \<and> goes_on st st' \<and> worker_ok st' (BulkClaimed i p t)" using all by simp
  show "\<exists>b \<in> set (bs_requests st). bk_id b = i \<and> bk_processed b = p \<and> bk_total b = t \<and> bk_status b \<noteq> BulkCompleted"
    using b e by blast
qed

lemma claimBulk_row:
  assumes "claimBulk st now skip = Some ((i, p, t), st')"
  shows "\<exists>b \<in> set (bs_requests st'). bk_id b = i \<and> bk_processed b = p \<and> bk_total b = t"
proof -
  obtain b rest where sorted: "sort_key bk_createdAt (filter (claimable now skip) (bs_requests st)) = b # rest"
    using assms by (auto simp: claimBulk_def split: list.splits)
  have "b \<in> set (sort_key bk_createdAt (filter (claimable now skip) (bs_requests st)))" unfolding sorted by simp
  then have b: "b \<in> set (bs_requests st)" by simp
  have "bs_requests st' = update_rows (\<lambda>x. bk_id x = bk_id b) (\<lambda>b. b\<lparr>bk_status := BulkProcessing,
      bk_lease := Some (now + bulkLease), bk_startedAt := Some (or_zero now (bk_startedAt b))\<rparr>) (bs_requests st)"
    and e: "i = bk_id b" "p = bk_processed b" "t = bk_total b"
    using assms sorted by (auto simp: claimBulk_def update_bulk_def)
  then have "b\<lparr>bk_status := BulkProcessing, bk_lease := Some (now + bulkLease),
      bk_startedAt := Some (or_zero now (bk_startedAt b))\<rparr> \<in> set (bs_requests st')"
    using b by (auto simp: update_rows_def)
  then show ?thesis unfolding e by (rule bexI [rotated]) simp
qed

section \<open>Recording the results of a chunk\<close>

lemma item_outcome_keeps [simp]:
  "bi_bulk (item_outcome r x) = bi_bulk x" "bi_index (item_outcome r x) = bi_index x"
  "bi_request (item_outcome r x) = bi_request x"
  by (cases r; simp)+

lemma item_outcome_txn: "bi_txn (item_outcome r x) \<noteq> None \<longleftrightarrow> \<not> batch_failed r"
  by (cases r) simp_all

text \<open>The items of the request after the update, by position.\<close>

lemma updated_items:
  assumes "map bi_index xs = [0..<length xs]" "idxs = [p..<p + length rs]" "k < length xs" "\<forall>x \<in> set xs. bi_bulk x = i"
  shows "update_items i (zip idxs rs) xs ! k =
    (if p \<le> k \<and> k < p + length rs then item_outcome (rs ! (k - p)) (xs ! k) else xs ! k)"
proof -
  have idx: "bi_index (xs ! k) = k" using assms(1,3) by (metis add_0 nth_map nth_upt)
  have "map_of (zip idxs rs) k = (if p \<le> k \<and> k < p + length rs then Some (rs ! (k - p)) else None)"
  proof (cases "p \<le> k \<and> k < p + length rs")
    case True
    have "map_of (zip idxs rs) (idxs ! (k - p)) = Some (rs ! (k - p))"
      by (intro map_of_zip_nth) (use True assms(2) in auto)
    then show ?thesis using True by (simp add: assms(2))
  next
    case False
    then have "k \<notin> set idxs" by (auto simp: assms(2))
    then show ?thesis using False by (auto simp: map_of_eq_None_iff dest: set_zip_leftD)
  qed
  moreover have "bi_bulk (xs ! k) = i" using assms(3,4) by simp
  ultimately show ?thesis using assms(3) idx by (simp add: update_items_def)
qed

lemma update_items_of:
  "items_of (st\<lparr>bs_items := update_items i rs (bs_items st)\<rparr>) j =
    (if j = i then update_items i rs (items_of st i) else items_of st j)"
proof -
  have "filter (\<lambda>x. bi_bulk x = j) (update_items i rs xs) =
      (if j = i then update_items i rs (filter (\<lambda>x. bi_bulk x = i) xs) else filter (\<lambda>x. bi_bulk x = j) xs)" for xs
    by (induction xs) (auto simp: update_items_def split: option.splits)
  then show ?thesis by (simp add: items_of_def)
qed

lemma update_items_bulks: "bi_bulk ` set (update_items i rs xs) = bi_bulk ` set xs"
proof -
  have "map bi_bulk (update_items i rs xs) = map bi_bulk xs"
    by (auto simp: update_items_def split: option.splits)
  then show ?thesis by (metis set_map)
qed

lemma succeeded_count:
  assumes len: "length ys = length xs" "p + length rs \<le> length xs"
    and old: "\<And>k. p \<le> k \<Longrightarrow> k < length xs \<Longrightarrow> bi_txn (xs ! k) = None"
    and new: "\<And>k. k < length xs \<Longrightarrow> ys ! k =
      (if p \<le> k \<and> k < p + length rs then item_outcome (rs ! (k - p)) (xs ! k) else xs ! k)"
  shows "length (filter (\<lambda>x. bi_txn x \<noteq> None) ys) =
    length (filter (\<lambda>x. bi_txn x \<noteq> None) xs) + length (filter (\<lambda>r. \<not> batch_failed r) rs)"
proof -
  let ?A = "{k. k < length xs \<and> bi_txn (xs ! k) \<noteq> None}"
  let ?B = "{k. k < length rs \<and> \<not> batch_failed (rs ! k)}"
  have "{k. k < length ys \<and> bi_txn (ys ! k) \<noteq> None} = ?A \<union> (+) p ` ?B"
  proof (intro set_eqI iffI)
    fix k assume k: "k \<in> {k. k < length ys \<and> bi_txn (ys ! k) \<noteq> None}"
    then have l: "k < length xs" using len by simp
    show "k \<in> ?A \<union> (+) p ` ?B"
    proof (cases "p \<le> k \<and> k < p + length rs")
      case True
      then have "\<not> batch_failed (rs ! (k - p))" using k new [OF l] item_outcome_txn by fastforce
      then have "k - p \<in> ?B" using True by auto
      then show ?thesis using True by (intro UnI2 image_eqI [of _ _ "k - p"]) simp_all
    next
      case False
      then have "ys ! k = xs ! k" using new [OF l] by auto
      then show ?thesis using k l by simp
    qed
  next
    fix k assume k: "k \<in> ?A \<union> (+) p ` ?B"
    show "k \<in> {k. k < length ys \<and> bi_txn (ys ! k) \<noteq> None}"
    proof (cases "p \<le> k \<and> k < p + length rs")
      case True
      then have "k \<notin> ?A" using old [of k] by auto
      then have "\<not> batch_failed (rs ! (k - p))" using k by auto
      then show ?thesis using new [of k] True len item_outcome_txn [of "rs ! (k - p)" "xs ! k"] by simp
    next
      case False
      then have l: "k < length xs" "bi_txn (xs ! k) \<noteq> None" using k by auto
      have "ys ! k = xs ! k" using new [OF l(1)] False by auto
      then show ?thesis using l len by simp
    qed
  qed
  moreover have "?A \<inter> (+) p ` ?B = {}" using old len(2) by auto
  moreover have "card ((+) p ` ?B) = card ?B" by (intro card_image) simp
  ultimately show ?thesis by (simp add: length_filter_conv_card card_Un_disjoint)
qed

lemma recordChunk_inv:
  assumes rec: "recordChunk st now i p idxs rs = Inr (following, st')" and inv: "bulk_inv encode st"
    and w: "worker_ok st (BulkPosted i p t idxs rs)"
  shows "bulk_inv encode st' \<and> goes_on st st' \<and>
      worker_ok st' (case following of None \<Rightarrow> BulkIdle | Some n \<Rightarrow> BulkClaimed i n t)"
    and "following = Some n \<Longrightarrow> n = p + length rs \<and>
      (\<exists>b \<in> set (bs_requests st'). bk_id b = i \<and> bk_processed b = n \<and> bk_total b = t)"
proof -
  obtain b where b: "b \<in> set (bs_requests st)" "bk_id b = i" "bk_total b = t" "p \<le> bk_processed b"
    and rs: "rs \<noteq> []" and idxs: "idxs = [p..<p + length rs]" and fits: "p + length rs \<le> t"
    and true: "\<forall>k < length rs. \<forall>x r. rs ! k = BatchTxn x r \<longrightarrow> known (bs_db st) (item_key (bk_key b) (p + k)) (t_id x)"
    using w by (auto simp: worker_ok_def)
  have row: "x = b" if "x \<in> set (bs_requests st)" "bk_id x = i" for x
    using inv b that by (auto simp: bulk_inv_def distinct_map dest: inj_onD)
  have both: "(bulk_inv encode st' \<and> goes_on st st' \<and>
      worker_ok st' (case following of None \<Rightarrow> BulkIdle | Some n \<Rightarrow> BulkClaimed i n t)) \<and>
    (\<forall>n. following = Some n \<longrightarrow> n = p + length rs \<and>
      (\<exists>b \<in> set (bs_requests st'). bk_id b = i \<and> bk_processed b = n \<and> bk_total b = t))"
  proof (cases "bk_processed b = p")
    case False
    then have "find (\<lambda>b. bk_id b = i \<and> bk_processed b = p) (bs_requests st) = None"
      using row by (auto simp: find_None_iff)
    then show ?thesis using rec inv by (auto simp: recordChunk_def goes_on_def worker_ok_def)
  next
    case True
    have "find (\<lambda>b. bk_id b = i \<and> bk_processed b = p) (bs_requests st) = Some b"
    proof (cases "find (\<lambda>b. bk_id b = i \<and> bk_processed b = p) (bs_requests st)")
      case None
      then show ?thesis using b True by (auto simp: find_None_iff)
    next
      case (Some x)
      then have "x \<in> set (bs_requests st)" "bk_id x = i" by (auto simp: find_Some_iff)
      then show ?thesis using Some row by simp
    qed
    note found = this
    let ?n = "p + length rs"
    let ?b = "b\<lparr>bk_processed := ?n, bk_succeeded := bk_succeeded b + length (filter (\<lambda>r. \<not> batch_failed r) rs),
      bk_failed := bk_failed b + length (filter batch_failed rs), bk_lease := Some (now + bulkLease),
      bk_status := (if ?n = bk_total b then BulkCompleted else bk_status b),
      bk_completedAt := (if ?n = bk_total b then Some now else None)\<rparr>"
    have old: "bulk_ok encode st b" using inv b by (simp add: bulk_inv_def)
    have open_b: "bk_status b \<noteq> BulkCompleted" using old True fits rs b(3) by (auto simp: bulk_ok_def)
    have st': "following = Some ?n" "bs_db st' = bs_db st"
      "bs_requests st' = update_rows (\<lambda>x. bk_id x = i) (\<lambda>_. ?b) (bs_requests st)"
      "bs_items st' = update_items i (zip idxs rs) (bs_items st)"
      "bs_events st' = bs_events st @ (if bk_status ?b = BulkCompleted then [?b] else [])"
      using rec found fits b(3) open_b by (auto simp: recordChunk_def Let_def update_bulk_def split: if_splits)
    let ?xs = "items_of st i" and ?ys = "items_of st' i"
    have items: "items_of st' j = (if j = i then update_items i (zip idxs rs) ?xs else items_of st j)" for j
      using update_items_of [where st = st and i = i and rs = "zip idxs rs" and j = j] by (simp add: items_of_def st'(4))
    have idx: "map bi_index ?xs = [0..<length ?xs]" using old by (auto simp: bulk_ok_def stored_inputs_def b(2))
    have at: "?ys ! k = (if p \<le> k \<and> k < p + length rs then item_outcome (rs ! (k - p)) (?xs ! k) else ?xs ! k)"
      if "k < length ?xs" for k
      using updated_items [OF idx idxs that] items [of i] by (simp add: items_of_def)
    have len: "length ?ys = length ?xs" "length ?xs = t"
      using items [of i] old b by (simp_all add: update_items_def bulk_ok_def)
    have was: "if k < p then item_done (bs_db st) (item_key (bk_key b) k) (?xs ! k) else item_open (?xs ! k)"
      if "k < length ?xs" for k
      using old that True by (simp add: bulk_ok_def items_ok_def b(2))
    have "items_ok (bs_db st') ?b ?ys"
      unfolding items_ok_def
    proof (intro conjI allI impI)
      fix k assume "k < length ?ys"
      then have k: "k < length ?xs" using len by simp
      show "if k < bk_processed ?b then item_done (bs_db st') (item_key (bk_key ?b) k) (?ys ! k) else item_open (?ys ! k)"
      proof (cases "p \<le> k \<and> k < p + length rs")
        case True
        then have "item_done (bs_db st) (item_key (bk_key b) k) (item_outcome (rs ! (k - p)) (?xs ! k))"
          using true [rule_format, of "k - p"] by (cases "rs ! (k - p)") (auto simp: item_done_def)
        then show ?thesis using at [OF k] True st'(2) by simp
      next
        case False
        then show ?thesis using at [OF k] was [OF k] st'(2) by auto
      qed
    next
      have "length (filter (\<lambda>x. bi_txn x \<noteq> None) ?ys) =
          length (filter (\<lambda>x. bi_txn x \<noteq> None) ?xs) + length (filter (\<lambda>r. \<not> batch_failed r) rs)"
      proof (rule succeeded_count [where p = p])
        show "bi_txn (?xs ! k) = None" if "p \<le> k" "k < length ?xs" for k
          using was [OF that(2)] that(1) by (simp add: item_open_def)
      qed (use len fits at in auto)
      then show "bk_succeeded ?b = length (filter (\<lambda>x. bi_txn x \<noteq> None) ?ys)"
        using old by (simp add: bulk_ok_def items_ok_def b(2))
    qed
    moreover have "stored_inputs encode ?b ?ys"
    proof -
      have "map bi_request ?ys = map bi_request ?xs" "map bi_index ?ys = map bi_index ?xs"
        using items [of i] by (auto simp: update_items_def split: option.splits)
      then show ?thesis using old len by (auto simp: bulk_ok_def stored_inputs_def b(2))
    qed
    ultimately have ok: "bulk_ok encode st' ?b"
      using old open_b fits b(2,3) len True sum_length_filter_compl [of batch_failed rs] st'(5)
      by (simp add: bulk_ok_def)
    have kept: "take (bk_processed b) (items_of st' (bk_id b)) = take (bk_processed b) (items_of st (bk_id b))"
      unfolding True b(2) by (rule nth_take_lemma) (use at len fits in auto)
    have "bulk_inv encode st' \<and> goes_on st st'"
      by (rule bulk_inv_update [OF inv b(1) _ _ _ _ _ _ kept, of ?b])
        (use b(2) st' ok True in \<open>simp_all add: items update_items_bulks\<close>)
    moreover have "?b \<in> set (bs_requests st')" unfolding st'(3) update_rows_def using b(1,2) by force
    ultimately show ?thesis using st'(1) b(2,3) by (auto simp: worker_ok_def intro!: bexI [of _ ?b])
  qed
  show "bulk_inv encode st' \<and> goes_on st st' \<and>
      worker_ok st' (case following of None \<Rightarrow> BulkIdle | Some n \<Rightarrow> BulkClaimed i n t)" using both by blast
  show "following = Some n \<Longrightarrow> n = p + length rs \<and>
      (\<exists>b \<in> set (bs_requests st'). bk_id b = i \<and> bk_processed b = n \<and> bk_total b = t)" using both by blast
qed

section \<open>Reading a chunk\<close>

lemma filter_from:
  assumes "map f xs = [0..<length xs]"
  shows "filter (\<lambda>x. p \<le> f x) xs = drop p xs"
proof -
  have f: "f (xs ! k) = k" if "k < length xs" for k using assms that by (metis add_0 nth_map nth_upt)
  have "filter (\<lambda>x. p \<le> f x) (take p xs) = []" using f by (auto simp: filter_empty_conv in_set_conv_nth)
  moreover have "filter (\<lambda>x. p \<le> f x) (drop p xs) = drop p xs"
    using f by (auto simp: filter_id_conv in_set_conv_nth)
  ultimately show ?thesis by (metis append_Nil append_take_drop_id filter_append)
qed

lemma items_from_drop:
  assumes "bulk_ok encode st b"
  shows "items_from st (bk_id b) (int p) = drop p (items_of st (bk_id b))"
proof -
  let ?xs = "items_of st (bk_id b)"
  have idx: "map bi_index ?xs = [0..<length ?xs]" using assms by (auto simp: bulk_ok_def stored_inputs_def)
  have "filter (\<lambda>x. bi_bulk x = bk_id b \<and> int p \<le> int (bi_index x)) (bs_items st) = filter (\<lambda>x. p \<le> bi_index x) ?xs"
    unfolding items_of_def filter_filter by (rule filter_cong) auto
  moreover have "sorted (map bi_index (drop p ?xs))" using idx by (simp add: drop_map [symmetric])
  ultimately show ?thesis by (simp add: items_from_def filter_from [OF idx] sort_key_id_if_sorted)
qed

lemma decode_all_items:
  assumes "codec_ok encode decode" "map bi_request xs = map encode ts" "list_all (\<lambda>t. amounts_ok (in_postings t)) ts"
  shows "\<exists>ins. decode_all decode xs = Inr ins \<and> map in_key ins = map in_key ts \<and>
    list_all (\<lambda>t. amounts_ok (in_postings t)) ins"
  using assms(2,3)
proof (induction xs arbitrary: ts)
  case (Cons x xs)
  then obtain t us where ts: "ts = t # us" "bi_request x = encode t" by (cases ts) auto
  then obtain ins where ins: "decode_all decode xs = Inr ins" "map in_key ins = map in_key us"
    "list_all (\<lambda>t. amounts_ok (in_postings t)) ins" using Cons.IH [of us] Cons.prems by auto
  obtain t' where "decode (encode t) = Some t'" "in_key t' = in_key t" "amounts_ok (in_postings t')"
    using assms(1) Cons.prems(2) ts(1) by (auto simp: codec_ok_def)
  then show ?case using ts ins by simp
qed simp

lemma readChunk_items:
  assumes c: "codec_ok encode decode" and ok: "bulk_ok encode st b"
  obtains ins where "readChunk decode st (bk_id b) p chunk = Inr ([p..<p + length ins], ins)"
    "length ins = min chunk (bk_total b - p)" "list_all (\<lambda>t. amounts_ok (in_postings t)) ins"
    "\<And>k. k < length ins \<Longrightarrow> in_key (ins ! k) = item_key (bk_key b) (p + k)"
proof -
  let ?all = "items_of st (bk_id b)"
  let ?xs = "take chunk (drop p ?all)"
  obtain ts where ts: "list_all (\<lambda>t. amounts_ok (in_postings t)) ts"
    "map in_key ts = map (item_key (bk_key b)) [0..<length ?all]" "map bi_request ?all = map encode ts"
    "map bi_index ?all = [0..<length ?all]" and n: "bk_total b = length ?all"
    using ok by (auto simp: bulk_ok_def stored_inputs_def)
  have "map bi_request ?xs = map encode (take chunk (drop p ts))" using ts(3) by (metis take_map drop_map)
  moreover have "list_all (\<lambda>t. amounts_ok (in_postings t)) (take chunk (drop p ts))"
    using ts(1) by (auto simp: list_all_iff dest: in_set_takeD in_set_dropD)
  ultimately obtain ins where ins: "decode_all decode ?xs = Inr ins"
    "map in_key ins = map in_key (take chunk (drop p ts))" "list_all (\<lambda>t. amounts_ok (in_postings t)) ins"
    using decode_all_items [OF c] by blast
  have lts: "length ts = length ?all" using ts(2) by (metis length_map length_upt minus_nat.diff_0)
  have len: "length ins = min chunk (bk_total b - p)"
    using map_eq_imp_length_eq [OF ins(2)] lts n by simp
  have keys: "in_key (ins ! k) = item_key (bk_key b) (p + k)" if k: "k < length ins" for k
  proof -
    have pk: "p \<le> length ts" "p + k < length ts" "k < chunk" using k len lts n by auto
    have "in_key (ins ! k) = map in_key ins ! k" using k by simp
    also have "\<dots> = map in_key ts ! (p + k)" using pk unfolding ins(2) by simp
    also have "\<dots> = map (item_key (bk_key b)) [0..<length ?all] ! (p + k)" unfolding ts(2) ..
    also have "\<dots> = item_key (bk_key b) (p + k)" using pk lts by simp
    finally show ?thesis .
  qed
  have "map bi_index ?xs = [p..<p + length ins]"
  proof (rule nth_equalityI)
    show "length (map bi_index ?xs) = length [p..<p + length ins]" using len n by simp
    fix k assume "k < length (map bi_index ?xs)"
    then have k: "k < chunk" "p + k < length ?all" "k < length ins" using len n by auto
    have "map bi_index ?xs ! k = map bi_index ?all ! (p + k)" using k by simp
    also have "\<dots> = [p..<p + length ins] ! k" unfolding ts(4) using k by simp
    finally show "map bi_index ?xs ! k = [p..<p + length ins] ! k" .
  qed
  then have "readChunk decode st (bk_id b) p chunk = Inr ([p..<p + length ins], ins)"
    using ins(1) by (simp add: readChunk_def items_from_drop [OF ok] Let_def)
  then show ?thesis using that len ins(3) keys by blast
qed

lemma post_inv:
  assumes c: "codec_ok encode decode" and inv: "bulk_inv encode st" and w: "worker_ok st (BulkClaimed i p t)"
    and rd: "readChunk decode st i p chunk = Inr (idxs, ins)"
    and post: "postBatch (bs_db st) now fresh ins False = Inr (rs, d')"
  shows "bulk_inv encode (st\<lparr>bs_db := d'\<rparr>) \<and> goes_on st (st\<lparr>bs_db := d'\<rparr>) \<and>
    worker_ok (st\<lparr>bs_db := d'\<rparr>) (BulkPosted i p t idxs rs)"
proof -
  obtain b where b: "b \<in> set (bs_requests st)" "bk_id b = i" "bk_total b = t" "p \<le> bk_processed b"
    using w by (auto simp: worker_ok_def)
  have ok: "bulk_ok encode st b" using inv b(1) by (simp add: bulk_inv_def)
  obtain ins' where "readChunk decode st (bk_id b) p chunk = Inr ([p..<p + length ins'], ins')"
    "length ins' = min chunk (bk_total b - p)" "list_all (\<lambda>t. amounts_ok (in_postings t)) ins'"
    "\<And>k. k < length ins' \<Longrightarrow> in_key (ins' ! k) = item_key (bk_key b) (p + k)"
    by (rule readChunk_items [OF c ok]) blast
  then have ins: "idxs = [p..<p + length ins]" "length ins \<le> t - p" "list_all (\<lambda>t. amounts_ok (in_postings t)) ins"
    "\<And>k. k < length ins \<Longrightarrow> in_key (ins ! k) = item_key (bk_key b) (p + k)"
    using rd b(2,3) by auto
  have sv: "service_inv (bs_db st)" using inv by (simp add: bulk_inv_def)
  then have db: "db_inv (bs_db st)" by (simp add: service_inv_def)
  have "service_step (bs_db st) d'" by (rule service_step.batch [OF post ins(3)])
  then have step: "service_inv d'" "keeps_journal (bs_db st) d'" using service_step_inv sv service_step_journal by blast+
  note named = batch_known [OF post db ins(3)]
  have "ins \<noteq> []" using post by (auto simp: postBatch_def)
  then have "rs \<noteq> []" using named(1) by auto
  moreover have "p + length rs \<le> t" using ins(2) named(1) \<open>ins \<noteq> []\<close> by (cases "p \<le> t") auto
  moreover have "known d' (item_key (bk_key b) (p + k)) (t_id x)" if "k < length rs" "rs ! k = BatchTxn x r" for k x r
    using named(2) [of k x r] named(1) that ins(4) [of k] by simp
  ultimately have "worker_ok (st\<lparr>bs_db := d'\<rparr>) (BulkPosted i p t idxs rs)"
    using b ins(1) named(1) by (auto simp: worker_ok_def)
  then show ?thesis using bulk_inv_db [OF inv step] by simp
qed

section \<open>Accepting a request\<close>

lemma keyed_items_facts:
  "length (keyed_items key ts) = length ts"
  "map in_key (keyed_items key ts) = map (item_key key) [0..<length ts]"
  "list_all (\<lambda>t. amounts_ok (in_postings t)) (keyed_items key ts) = list_all (\<lambda>t. amounts_ok (in_postings t)) ts"
proof -
  show "length (keyed_items key ts) = length ts" by (simp add: keyed_items_def)
  show "map in_key (keyed_items key ts) = map (item_key key) [0..<length ts]"
    by (rule nth_equalityI) (simp_all add: keyed_items_def nth_enumerate_eq)
  show "list_all (\<lambda>t. amounts_ok (in_postings t)) (keyed_items key ts) = list_all (\<lambda>t. amounts_ok (in_postings t)) ts"
    by (simp add: list_all_length keyed_items_def nth_enumerate_eq)
qed

lemma new_items_facts:
  "length (new_items i raws) = length raws" "map bi_request (new_items i raws) = raws"
  "map bi_index (new_items i raws) = [0..<length raws]" "x \<in> set (new_items i raws) \<Longrightarrow> item_open x \<and> bi_bulk x = i"
proof -
  show "length (new_items i raws) = length raws" by (simp add: new_items_def)
  show "map bi_request (new_items i raws) = raws" "map bi_index (new_items i raws) = [0..<length raws]"
    by (rule nth_equalityI; simp add: new_items_def nth_enumerate_eq)+
  show "x \<in> set (new_items i raws) \<Longrightarrow> item_open x \<and> bi_bulk x = i"
    by (auto simp: new_items_def item_open_def)
qed

lemma createBulk_inv:
  assumes cr: "createBulk sha encode st now newid key ts = Inr (b, replayed, st')" and inv: "bulk_inv encode st"
    and am: "list_all (\<lambda>t. amounts_ok (in_postings t)) ts"
  shows "bulk_inv encode st' \<and> goes_on st st'"
proof (cases "row_by bk_key (bs_requests st) key")
  case (Some b0)
  then have "st' = st" using cr by (auto simp: createBulk_def Let_def split: if_splits)
  then show ?thesis using inv by (auto simp: goes_on_def)
next
  case None
  let ?ts = "keyed_items key ts"
  let ?raws = "map encode ?ts"
  have v: "ts \<noteq> []" and newid: "row_by bk_id (bs_requests st) newid = None"
    and st': "st' = st\<lparr>bs_requests := bs_requests st @ [b], bs_items := bs_items st @ new_items newid ?raws\<rparr>"
    and b: "bk_id b = newid" "bk_key b = key" "bk_status b = BulkPending" "bk_total b = length ts"
      "bk_processed b = 0" "bk_succeeded b = 0" "bk_failed b = 0"
    using cr None by (auto simp: createBulk_def validateBulk_def Let_def keyed_items_facts(1) split: if_splits)
      (auto simp: keyed_items_def)
  have fresh: "newid \<notin> bk_id ` set (bs_requests st)" "key \<notin> bk_key ` set (bs_requests st)"
    using newid None by (simp_all add: row_by_None_iff)
  have sub: "bi_bulk ` set (bs_items st) \<subseteq> bk_id ` set (bs_requests st)"
    "bk_id ` set (bs_events st) \<subseteq> bk_id ` set (bs_requests st)" using inv by (simp_all add: bulk_inv_def)
  note new = new_items_facts [where i = newid and raws = ?raws]
  have none: "items_of st newid = []" "filter (\<lambda>e. bk_id e = newid) (bs_events st) = []"
    using sub fresh(1) by (auto simp: items_of_def filter_empty_conv)
  have items: "items_of st' j = (if j = newid then new_items newid ?raws else items_of st j)" for j
  proof -
    have "filter (\<lambda>x. bi_bulk x = newid) (new_items newid ?raws) = new_items newid ?raws"
      using new(4) by (auto simp: filter_id_conv)
    moreover have "filter (\<lambda>x. bi_bulk x = j) (new_items newid ?raws) = []" if "j \<noteq> newid"
      using new(4) that by (auto simp: filter_empty_conv)
    ultimately show ?thesis using none(1) by (auto simp: items_of_def st')
  qed
  have old: "bulk_ok encode st' x" if x: "x \<in> set (bs_requests st)" for x
  proof -
    have "bk_id x \<noteq> newid" using fresh(1) x by auto
    moreover have "bulk_ok encode st x" using inv x by (simp add: bulk_inv_def)
    moreover have "bs_db st' = bs_db st" "bs_events st' = bs_events st" by (simp_all add: st')
    ultimately show ?thesis unfolding bulk_ok_def items by simp
  qed
  have "bulk_ok encode st' b"
  proof -
    have "items_ok (bs_db st') b (new_items newid ?raws)"
      using new(4) nth_mem by (fastforce simp: items_ok_def b item_open_def filter_empty_conv)
    moreover have "stored_inputs encode b (new_items newid ?raws)"
      unfolding stored_inputs_def
      using v am new(1-3) keyed_items_facts [of key ts]
      by (intro exI [of _ ?ts]) (auto simp: b(2))
    ultimately show ?thesis
      using v none(2) by (simp add: bulk_ok_def items b new(1) keyed_items_facts(1)) (simp add: st')
  qed
  moreover have "bi_bulk ` set (bs_items st') \<union> bk_id ` set (bs_events st') \<subseteq> bk_id ` set (bs_requests st')"
    using sub new(4) by (auto simp: st' b(1))
  ultimately have "bulk_inv encode st'"
    using inv old fresh unfolding bulk_inv_def by (simp add: st' b(1,2))
  moreover have "items_of st' (bk_id x) = items_of st (bk_id x)" if "x \<in> set (bs_requests st)" for x
    using items fresh(1) that by auto
  ultimately show ?thesis by (auto simp: goes_on_def st')
qed

section \<open>Every step\<close>

lemma bulk_step_inv:
  assumes "bulk_step sha encode decode (st, ws) (st', ws')" "codec_ok encode decode"
    and "bulk_inv encode st" "\<forall>w \<in> set ws. worker_ok st w"
  shows "bulk_inv encode st' \<and> goes_on st st' \<and> (\<forall>w \<in> set ws'. worker_ok st' w)"
proof -
  have others: "\<forall>x \<in> set ws'. worker_ok st' x"
    if "goes_on st st'" "ws' = ws \<or> (\<exists>w y. ws' = ws[w := y] \<and> worker_ok st' y)"
    using that assms(4) worker_ok_goes_on by (auto dest!: set_update_subset_insert [THEN subsetD])
  from assms(1) show ?thesis
  proof (cases rule: bulk_step.cases)
    case (serve d')
    have "service_inv (bs_db st)" using assms(3) by (simp add: bulk_inv_def)
    then show ?thesis
      using serve bulk_inv_db [OF assms(3)] service_step_inv service_step_journal others by blast
  next
    case (create now newid key ts b replayed)
    then show ?thesis using createBulk_inv [OF _ assms(3)] others by blast
  next
    case (claim now skip i p t w)
    from claimBulk_inv(1) [OF claim(2) assms(3)] others claim(1) show ?thesis by blast
  next
    case (post w i p t chunk idxs ins now fresh rs d')
    have "worker_ok st (BulkClaimed i p t)" using post(3,4) assms(4) by (metis nth_mem)
    from post_inv [OF assms(2,3) this post(6,7)] others post(1,2) show ?thesis by blast
  next
    case (written w i p t idxs rs now following)
    have "worker_ok st (BulkPosted i p t idxs rs)" using written(2,3) assms(4) by (metis nth_mem)
    from recordChunk_inv(1) [OF written(4) assms(3) this] others written(1) show ?thesis by blast
  next
    case (stop w)
    have "goes_on st st" by (auto simp: goes_on_def)
    moreover have "worker_ok st BulkIdle" by (simp add: worker_ok_def)
    ultimately show ?thesis using others stop assms(3) by blast
  qed
qed

lemma bulk_steps_inv:
  assumes "(bulk_step sha encode decode)\<^sup>*\<^sup>* (st, ws) (st', ws')" "codec_ok encode decode"
    and "bulk_inv encode st" "\<forall>w \<in> set ws. worker_ok st w"
  shows "bulk_inv encode st' \<and> goes_on st st' \<and> (\<forall>w \<in> set ws'. worker_ok st' w)"
proof -
  have "bulk_inv encode (fst s) \<and> goes_on st (fst s) \<and> (\<forall>w \<in> set (snd s). worker_ok (fst s) w)"
    if "(bulk_step sha encode decode)\<^sup>*\<^sup>* (st, ws) s" for s
    using that
  proof (induction rule: rtranclp_induct)
    case base
    have "goes_on st st" by (auto simp: goes_on_def)
    then show ?case using assms(3,4) by simp
  next
    case (step s s')
    then show ?case
      using bulk_step_inv [of sha encode decode "fst s" "snd s" "fst s'" "snd s'"] assms(2) goes_on_trans by auto
  qed
  from this [OF assms(1)] show ?thesis by simp
qed

lemma bulk_run_inv:
  assumes "(bulk_step sha encode decode)\<^sup>*\<^sup>* (bulk_start n d) (st, ws)" "codec_ok encode decode" "service_inv d"
  shows "bulk_inv encode st \<and> (\<forall>w \<in> set ws. worker_ok st w)"
proof -
  have "bulk_inv encode (fst (bulk_start n d)) \<and> (\<forall>w \<in> set (snd (bulk_start n d)). worker_ok (fst (bulk_start n d)) w)"
    using assms(3) by (auto simp: bulk_start_def bulk_inv_def worker_ok_def)
  then show ?thesis
    using bulk_steps_inv [of sha encode decode "fst (bulk_start n d)" "snd (bulk_start n d)" st ws] assms(1,2) by simp
qed

end
