(* ===== verification/Bulk_Properties.thy ===== *)
theory Bulk_Properties
  imports Bulk_Laws
begin

text \<open>
  The properties of bulk requests: every item is posted at most once however many workers take a request over
  from each other and wherever one of them stops, what a request reports adds up, and a worker that goes on
  finishes its request.
\<close>

section \<open>What a request reports\<close>

lemma bulk_reached:
  assumes "reachable d" "codec_ok encode decode" "(bulk_step sha encode decode)\<^sup>*\<^sup>* (bulk_start n d) (st, ws)"
  shows "bulk_inv encode st"
  using bulk_run_inv [OF assms(3,2) reachable_inv [OF assms(1)]] by simp

lemma known_rows:
  assumes j: "journal_inv d" and k: "known d key i"
  shows "map tr_id (filter (\<lambda>x. tr_key x = key) (db_txns d)) = [i]"
proof -
  obtain x where x: "x \<in> set (db_txns d)" "tr_id x = i" "tr_key x = key" using known_row [OF k] by blast
  have "distinct (map tr_key (db_txns d))" using j by (simp add: journal_inv_def)
  from distinct_filter_one [OF this x(1)] show ?thesis using x(2,3) by simp
qed

lemma at_most_one_row: "journal_inv d \<Longrightarrow> length (filter (\<lambda>x. tr_key x = key) (db_txns d)) \<le> 1"
proof -
  assume "journal_inv d"
  then have "distinct (map tr_key (filter (\<lambda>x. tr_key x = key) (db_txns d)))"
    by (simp add: journal_inv_def distinct_map_filter)
  moreover have "set (map tr_key (filter (\<lambda>x. tr_key x = key) (db_txns d))) \<subseteq> {key}" by auto
  ultimately show ?thesis by (metis card_mono card.empty card_insert_disjoint distinct_card empty_iff finite.emptyI finite_insert length_map One_nat_def)
qed

lemma items_from_all: "bulk_ok encode st b \<Longrightarrow> items_from st (bk_id b) 0 = items_of st (bk_id b)"
  using items_from_drop [of encode st b 0] by simp

text \<open>
  C11. However the workers interleave, take requests over from each other and stop between posting a chunk and
  recording it: the key of an item never names more than one transaction in the database, whatever is
  recorded for the item. An item before the mark of its request has one outcome, which never changes again:
  it names that transaction, or it has a reason for its failure. An item after the mark has none yet.
  (A failed item can have a transaction all the same: one that a client, or a worker whose lease has lapsed,
  posted under its key.)
\<close>

theorem bulk_exactly_once:
  assumes "reachable d" "codec_ok encode decode" "(bulk_step sha encode decode)\<^sup>*\<^sup>* (bulk_start n d) (st, ws)"
    and "b \<in> set (bs_requests st)" "k < bk_total b" "(bulk_step sha encode decode)\<^sup>*\<^sup>* (st, ws) (st', ws')"
  shows "let x = items_from st (bk_id b) 0 ! k;
      named = map tr_id (filter (\<lambda>t. tr_key t = item_key (bk_key b) k) (db_txns (bs_db st'))) in
    bi_index x = k \<and> length named \<le> 1 \<and>
    (if k < bk_processed b
     then items_from st' (bk_id b) 0 ! k = x \<and>
       (case bi_txn x of None \<Rightarrow> bi_error x \<noteq> None | Some i \<Rightarrow> bi_error x = None \<and> named = [i])
     else bi_txn x = None \<and> bi_error x = None)"
proof -
  have start: "bulk_inv encode st \<and> (\<forall>w \<in> set ws. worker_ok st w)"
    by (rule bulk_run_inv [OF assms(3,2) reachable_inv [OF assms(1)]])
  then have inv: "bulk_inv encode st" and ok: "bulk_ok encode st b" using assms(4) by (simp_all add: bulk_inv_def)
  have later: "bulk_inv encode st'" "goes_on st st'"
    using bulk_steps_inv [OF assms(6,2)] start by blast+
  obtain b' where b': "b' \<in> set (bs_requests st')" "bk_id b' = bk_id b"
    using later(2) assms(4) unfolding goes_on_def by blast
  have ok': "bulk_ok encode st' b'" using later(1) b'(1) by (simp add: bulk_inv_def)
  let ?x = "items_of st (bk_id b) ! k" and ?key = "item_key (bk_key b) k"
  have k: "k < length (items_of st (bk_id b))" using ok assms(5) by (simp add: bulk_ok_def)
  have "map bi_index (items_of st (bk_id b)) = [0..<length (items_of st (bk_id b))]"
    using ok by (auto simp: bulk_ok_def stored_inputs_def)
  then have idx: "bi_index ?x = k" using k by (metis add_0 nth_map nth_upt)
  have j: "journal_inv (bs_db st')" using later(1) db_invD(3) by (auto simp: bulk_inv_def service_inv_def)
  have kept: "items_of st' (bk_id b) ! k = ?x" if "k < bk_processed b"
    using later(2) assms(4) that unfolding goes_on_def by (metis nth_take)
  have "if k < bk_processed b then item_done (bs_db st') ?key ?x else item_open ?x"
    using ok k item_done_keeps later(2) unfolding bulk_ok_def items_ok_def goes_on_def by metis
  moreover have "length (map tr_id (filter (\<lambda>t. tr_key t = ?key) (db_txns (bs_db st')))) \<le> 1"
    using at_most_one_row [OF j] by simp
  ultimately show ?thesis
    using idx kept known_rows [OF j] items_from_all [OF ok'] b'(2) unfolding items_from_all [OF ok] Let_def
    by (auto simp: item_done_def item_open_def split: option.splits if_splits)
qed

text \<open>
  C29. The counters of a request add up in every such run: what is processed succeeded or failed, as many
  items name a transaction as succeeded, it never exceeds the total, and the request is completed exactly
  when all of it is processed, which one event has told.
\<close>

theorem bulk_counts:
  assumes "reachable d" "codec_ok encode decode" "(bulk_step sha encode decode)\<^sup>*\<^sup>* (bulk_start n d) (st, ws)"
    and "b \<in> set (bs_requests st)"
  shows "bk_total b = length (items_from st (bk_id b) 0) \<and> bk_processed b \<le> bk_total b \<and>
    bk_succeeded b + bk_failed b = bk_processed b \<and>
    bk_succeeded b = length (filter (\<lambda>x. bi_txn x \<noteq> None) (items_from st (bk_id b) 0)) \<and>
    (bk_status b = BulkCompleted) = (bk_processed b = bk_total b) \<and>
    length (filter (\<lambda>e. bk_id e = bk_id b) (bs_events st)) = (if bk_status b = BulkCompleted then 1 else 0)"
proof -
  have ok: "bulk_ok encode st b"
    using bulk_reached [OF assms(1-3)] assms(4) by (simp add: bulk_inv_def)
  then show ?thesis unfolding items_from_all [OF ok] unfolding bulk_ok_def items_ok_def by blast
qed

section \<open>A worker that goes on\<close>

lemma processChunk_advances:
  assumes c: "codec_ok encode decode" and inv: "bulk_inv encode st" and size: "0 < chunk" "chunk \<le> 1000" "p < t"
    and b: "b \<in> set (bs_requests st)" "bk_id b = i" "bk_processed b = p" "bk_total b = t"
    and run: "processChunk decode st now fresh i p chunk = (r, st')"
  shows "bulk_inv encode st' \<and> (\<forall>following. r = Inr following \<longrightarrow> (\<exists>n. following = Some n \<and> p < n \<and>
      (\<exists>b \<in> set (bs_requests st'). bk_id b = i \<and> bk_processed b = n \<and> bk_total b = t))) \<and>
    (\<forall>e. r = Inl e \<longrightarrow> (\<exists>ins. runRequests (bs_db st) now fresh (valid_requests ins) False = Inl e))"
proof -
  have ok: "bulk_ok encode st b" using inv b(1) by (simp add: bulk_inv_def)
  have w: "worker_ok st (BulkClaimed i p t)" using b by (auto simp: worker_ok_def)
  obtain ins where rd: "readChunk decode st i p chunk = Inr ([p..<p + length ins], ins)"
    and len: "length ins = min chunk (t - p)"
    using readChunk_items [OF c ok, of p chunk] b(2,4) by metis
  have fits: "ins \<noteq> []" "length ins \<le> 1000" using len size by auto
  show ?thesis
  proof (cases "postBatch (bs_db st) now fresh ins False")
    case (Inl e)
    then have "runRequests (bs_db st) now fresh (valid_requests ins) False = Inl e"
      using fits by (cases "runRequests (bs_db st) now fresh (valid_requests ins) False")
        (auto simp: postBatch_def Let_def split: if_splits)
    then show ?thesis using run rd inv Inl by (auto simp: processChunk_def)
  next
    case (Inr res)
    obtain rs d where post: "postBatch (bs_db st) now fresh ins False = Inr (rs, d)" using Inr by (cases res) simp
    let ?st = "st\<lparr>bs_db := d\<rparr>"
    note posted = post_inv [OF c inv w rd post]
    have wp: "worker_ok ?st (BulkPosted i p t [p..<p + length ins] rs)" and inv': "bulk_inv encode ?st" using posted by simp_all
    show ?thesis
    proof (cases "recordChunk ?st now i p [p..<p + length ins] rs")
      case (Inl e)
      have "x = b" if "x \<in> set (bs_requests st)" "bk_id x = i" for x
        using inv b(1,2) that by (auto simp: bulk_inv_def distinct_map dest: inj_onD)
      note only = this
      obtain x where x: "find (\<lambda>b. bk_id b = i \<and> bk_processed b = p) (bs_requests st) = Some x" "p + length rs > bk_total x"
        using Inl by (auto simp: recordChunk_def Let_def split: option.splits if_splits)
      then have "x = b" using only by (auto simp: find_Some_iff)
      moreover have "p + length rs \<le> t" using wp by (auto simp: worker_ok_def)
      ultimately show ?thesis using x(2) b(4) by simp
    next
      case (Inr res')
      obtain following st2 where rec: "recordChunk ?st now i p [p..<p + length ins] rs = Inr (following, st2)"
        using Inr by (cases res') simp
      have r: "r = Inr following" "st' = st2" using run rd post rec by (auto simp: processChunk_def)
      have "find (\<lambda>b. bk_id b = i \<and> bk_processed b = p) (bs_requests ?st) \<noteq> None"
        using b by (auto simp: find_None_iff)
      then obtain n where n: "following = Some n"
        using rec by (auto simp: recordChunk_def Let_def split: if_splits option.splits)
      have "rs \<noteq> []" using wp by (auto simp: worker_ok_def)
      then show ?thesis using recordChunk_inv [OF rec inv' wp] n r by auto
    qed
  qed
qed

lemma chunks_end:
  assumes c: "codec_ok encode decode" and size: "0 < chunk" "chunk \<le> 1000"
    and "bulk_inv encode st" "b \<in> set (bs_requests st)" "bk_id b = i" "bk_processed b = p" "bk_total b = t"
  shows "\<exists>r st'. chunks decode env n st i p t chunk = Some (r, st') \<and> bulk_inv encode st' \<and>
    (r = ok \<longrightarrow> (\<exists>b \<in> set (bs_requests st'). bk_id b = i \<and> bk_processed b = t \<and> bk_total b = t)) \<and>
    (\<forall>e. r = Inl e \<longrightarrow> (\<exists>d now fresh ins. runRequests d now fresh (valid_requests ins) False = Inl e))"
  using assms(4-)
proof (induction "t - p" arbitrary: n st b p rule: less_induct)
  case less
  have "p \<le> t" using less.prems by (auto simp: bulk_inv_def bulk_ok_def)
  show ?case
  proof (cases "p < t")
    case False
    then show ?thesis using less.prems \<open>p \<le> t\<close> by (subst chunks.simps) auto
  next
    case True
    obtain r st' where run: "processChunk decode st (fst (env n)) (snd (env n)) i p chunk = (r, st')" by fastforce
    note adv = processChunk_advances [OF c less.prems(1) size True less.prems(2-5) run]
    show ?thesis
    proof (cases r)
      case (Inl e)
      then obtain ins where "runRequests (bs_db st) (fst (env n)) (snd (env n)) (valid_requests ins) False = Inl e"
        using adv by blast
      then show ?thesis using adv run True Inl by (subst chunks.simps) auto
    next
      case (Inr following)
      then obtain m b' where m: "following = Some m" "p < m" "b' \<in> set (bs_requests st')" "bk_id b' = i"
        "bk_processed b' = m" "bk_total b' = t" using adv by blast
      have "t - m < t - p" using m(2) True by simp
      from less.hyps [OF this conjunct1 [OF adv] m(3-6), of "Suc n"] show ?thesis
        using run Inr m(1) True by (subst chunks.simps) simp
    qed
  qed
qed


section \<open>A run with a worker that stops\<close>

text \<open>Two items, the second of which asks for more than the account has. The first worker posts both and
  stops before it records them; the second one posts them again.\<close>

definition sample_decode :: "string \<Rightarrow> postInput option" where
  "sample_decode s = Some (if s = ''b/1''
     then sample_post s Posted [plain_posting 12 Debit 500 [], plain_posting 11 Credit 500 []]
     else sample_post s Posted [plain_posting 11 Debit 5 [], plain_posting 12 Credit 5 []])"

definition sample_items :: "postInput list" where
  "sample_items = map (\<lambda>s. the (sample_decode s)) [''x'', ''b/1'']"

definition sample_bulk_request :: bulk where
  "sample_bulk_request = \<lparr>bk_id = 77, bk_key = ''b'', bk_hash = ''b/0\<newline>b/1\<newline>'', bk_status = BulkPending, bk_total = 2, bk_processed = 0,
     bk_succeeded = 0, bk_failed = 0, bk_lease = None, bk_createdAt = 5000, bk_startedAt = None, bk_completedAt = None\<rparr>"

definition sample_accepted :: bulks where
  "sample_accepted = \<lparr>bs_db = sample_db, bs_requests = [sample_bulk_request],
     bs_items = new_items 77 [''b/0'', ''b/1''], bs_events = []\<rparr>"

lemma sample_keyed: "map in_key (keyed_items ''b'' sample_items) = [''b/0'', ''b/1'']"
  by code_simp

lemma sample_items_valid: "first_invalid (keyed_items ''b'' sample_items) = ok"
  by code_simp

lemma sample_key_valid: "validateKeyAndText ''b'' [] no_jvalue = ok"
  by code_simp

lemma sample_created:
  "createBulk (\<lambda>s. s) in_key (fst (bulk_start 2 sample_db)) 5000 77 ''b'' sample_items = Inr (sample_bulk_request, False, sample_accepted)"
proof -
  have "validateBulk ''b'' (keyed_items ''b'' sample_items) = ok"
    using sample_items_valid sample_key_valid keyed_items_facts(1) [of "''b''" sample_items]
    by (auto simp: validateBulk_def maxBulkItems_def sample_items_def)
  moreover have "request_hash (\<lambda>s. s) (map in_key (keyed_items ''b'' sample_items)) = ''b/0\<newline>b/1\<newline>''"
    "length (map in_key (keyed_items ''b'' sample_items)) = 2"
    unfolding sample_keyed by (simp_all add: request_hash_def)
  ultimately show ?thesis
    by (simp add: createBulk_def Let_def sample_keyed bulk_start_def sample_accepted_def sample_bulk_request_def del: map_map length_map)
qed

definition sample_inputs :: "postInput list" where
  "sample_inputs = map (\<lambda>s. the (sample_decode s)) [''b/0'', ''b/1'']"

definition sample_run1 :: "(postingResult list \<times> db) res" where
  "sample_run1 = runRequests sample_db 7000 (\<lambda>n. 200 + n) (map plain_request sample_inputs) False"

definition sample_run2 :: "(postingResult list \<times> db) res" where
  "sample_run2 = runRequests (snd (projr sample_run1)) (10 ^ 11) (\<lambda>n. 300 + n) (map plain_request sample_inputs) False"

lemma sample_run1_ok: "\<not> isl sample_run1"
  by code_simp

lemma sample_run2_results:
  "map_sum id (\<lambda>(rs, d). map (\<lambda>r. case r of Success t b \<Rightarrow> Inl (t_id t, b) | Failure e \<Rightarrow> Inr e) rs) sample_run2 =
    Inr [Inl (200, True), Inr ErrInsufficientFunds]"
  by code_simp

lemma sample_inputs_valid: "list_all (\<lambda>i. validatePost i = ok) sample_inputs"
  by code_simp

lemma sample_inputs_amounts: "list_all (\<lambda>i. amounts_ok (in_postings i)) sample_inputs"
  by (simp add: sample_inputs_def sample_decode_def sample_post_def amounts_ok_def plain_posting_def in_range_def)

lemma sample_codec: "codec_ok in_key sample_decode"
  by (simp add: codec_ok_def sample_decode_def sample_post_def amounts_ok_def plain_posting_def in_range_def)

lemma sample_batch:
  assumes "runRequests d now fresh (map plain_request sample_inputs) False = Inr (rs, d')"
  shows "postBatch d now fresh sample_inputs False = Inr (place_results sample_inputs rs, d')"
proof -
  have "valid_requests sample_inputs = map plain_request sample_inputs"
    using sample_inputs_valid by (auto simp: valid_requests_def list_all_iff intro: filter_True)
  then show ?thesis using assms by (simp add: postBatch_def sample_inputs_def)
qed

definition sample_taken :: "gotime \<Rightarrow> db \<Rightarrow> bulks" where
  "sample_taken now d = sample_accepted\<lparr>bs_db := d, bs_requests := [sample_bulk_request\<lparr>bk_status := BulkProcessing,
     bk_lease := Some (now + bulkLease), bk_startedAt := Some 6000\<rparr>]\<rparr>"

lemma sample_claims:
  "claimBulk sample_accepted 6000 (\<lambda>i. False) = Some ((77, 0, 2), sample_taken 6000 sample_db)"
  "claimBulk (sample_taken 6000 d) (10 ^ 11) (\<lambda>i. False) = Some ((77, 0, 2), sample_taken (10 ^ 11) d)"
  by (simp_all add: claimBulk_def claimable_def sample_accepted_def sample_taken_def sample_bulk_request_def update_bulk_def
      update_rows_def bulkLease_def)

lemma sample_reads: "readChunk sample_decode (sample_taken now d) 77 0 10 = Inr ([0, 1], sample_inputs)"
proof -
  have "items_from (sample_taken now d) 77 0 = new_items 77 [''b/0'', ''b/1'']"
    by (simp add: items_from_def sample_taken_def sample_accepted_def new_items_def)
  then show ?thesis by (simp add: readChunk_def new_items_def sample_inputs_def sample_decode_def)
qed

text \<open>The state in which the second worker leaves the request.\<close>

definition sample_recorded :: "db \<Rightarrow> uuid \<Rightarrow> bulks" where
  "sample_recorded d i =
     (let b = sample_bulk_request\<lparr>bk_status := BulkCompleted, bk_processed := 2, bk_succeeded := 1, bk_failed := 1,
                bk_lease := Some (10 ^ 11 + bulkLease), bk_startedAt := Some 6000, bk_completedAt := Some (10 ^ 11)\<rparr>
      in \<lparr>bs_db = d, bs_requests = [b],
          bs_items = [\<lparr>bi_bulk = 77, bi_index = 0, bi_request = ''b/0'', bi_txn = Some i, bi_error = None\<rparr>,
                      \<lparr>bi_bulk = 77, bi_index = 1, bi_request = ''b/1'', bi_txn = None,
                       bi_error = Some (''insufficient_funds'', Some ErrInsufficientFunds)\<rparr>],
          bs_events = [b]\<rparr>)"

lemma sample_records:
  "recordChunk (sample_taken (10 ^ 11) d) (10 ^ 11) 77 0 [0, 1] [BatchTxn t r, BatchError ErrInsufficientFunds] =
    Inr (Some 2, sample_recorded d (t_id t))"
  by (simp add: recordChunk_def Let_def sample_taken_def sample_accepted_def sample_bulk_request_def sample_recorded_def
      update_bulk_def update_rows_def update_items_def new_items_def problemFor_def problem_codes_def)

lemma sample_items_amounts: "list_all (\<lambda>i. amounts_ok (in_postings i)) sample_items"
  by (simp add: sample_items_def sample_decode_def sample_post_def amounts_ok_def plain_posting_def in_range_def)

lemma sample_accepts:
  "bulk_step (\<lambda>s. s) in_key sample_decode (bulk_start 2 sample_db) (sample_accepted, [BulkIdle, BulkIdle])"
  using bulk_step.create [OF sample_created sample_items_amounts, where ws = "[BulkIdle, BulkIdle]" and decode = sample_decode]
  by (simp add: bulk_start_def numeral_2_eq_2)

lemma sample_posts:
  assumes run: "runRequests d now fresh (map plain_request sample_inputs) False = Inr (rs, d')"
    and w: "w < length ws" "ws ! w = BulkClaimed 77 0 2"
  shows "bulk_step (\<lambda>s. s) in_key sample_decode (sample_taken l d, ws)
    (sample_taken l d', ws[w := BulkPosted 77 0 2 [0, 1] (place_results sample_inputs rs)])"
proof -
  have "bs_db (sample_taken l d) = d" "(sample_taken l d)\<lparr>bs_db := d'\<rparr> = sample_taken l d'"
    by (simp_all add: sample_taken_def)
  then show ?thesis
    using bulk_step.post [OF w _ sample_reads [of l d]] sample_batch [OF run] by force
qed

lemma sample_two_results:
  "map_sum id (\<lambda>(rs, d). map (\<lambda>r. case r of Success t b \<Rightarrow> Inl (t_id t, b) | Failure e \<Rightarrow> Inr e) rs) x =
    Inr [Inl (i, b), Inr e] \<Longrightarrow> \<exists>t. x = Inr ([Success t b, Failure e], snd (projr x)) \<and> t_id t = i"
  by (cases x) (auto split: postingResult.splits)

lemma sample_bulk_reached:
  "(bulk_step (\<lambda>s. s) in_key sample_decode)\<^sup>*\<^sup>* (bulk_start 2 sample_db)
     (sample_recorded (snd (projr sample_run2)) 200, [BulkIdle, BulkClaimed 77 2 2])"
proof -
  let ?step = "bulk_step (\<lambda>s. s) in_key sample_decode"
  let ?d1 = "snd (projr sample_run1)" and ?d2 = "snd (projr sample_run2)"
  let ?rs1 = "place_results sample_inputs (fst (projr sample_run1))"
  obtain rs1 where run1: "sample_run1 = Inr (rs1, ?d1)" 
    using sum.collapse(2) [OF sample_run1_ok] by (metis prod.collapse)
  obtain t where run2: "sample_run2 = Inr ([Success t True, Failure ErrInsufficientFunds], ?d2)" and t: "t_id t = 200"
    using sample_two_results [OF sample_run2_results] by auto
  have rs2: "place_results sample_inputs [Success t True, Failure ErrInsufficientFunds] =
      [BatchTxn t True, BatchError ErrInsufficientFunds]"
    using sample_inputs_valid by (simp add: sample_inputs_def failedResult_def asDomainError_def)
  have "?step (bulk_start 2 sample_db) (sample_accepted, [BulkIdle, BulkIdle])"
    by (rule sample_accepts)
  moreover have "?step (sample_accepted, [BulkIdle, BulkIdle]) (sample_taken 6000 sample_db, [BulkClaimed 77 0 2, BulkIdle])"
    using bulk_step.claim [OF sample_claims(1), of 0 "[BulkIdle, BulkIdle]"] by simp
  moreover have "?step (sample_taken 6000 sample_db, [BulkClaimed 77 0 2, BulkIdle])
      (sample_taken 6000 ?d1, [BulkPosted 77 0 2 [0, 1] (place_results sample_inputs rs1), BulkIdle])"
    using sample_posts [of sample_db 7000 "\<lambda>n. 200 + n" rs1 ?d1 0 "[BulkClaimed 77 0 2, BulkIdle]"] run1
    by (simp add: sample_run1_def)
  moreover have "?step (sample_taken 6000 ?d1, [BulkPosted 77 0 2 [0, 1] (place_results sample_inputs rs1), BulkIdle])
      (sample_taken 6000 ?d1, [BulkIdle, BulkIdle])"
    using bulk_step.stop [of 0 "[BulkPosted 77 0 2 [0, 1] (place_results sample_inputs rs1), BulkIdle]"] by simp
  moreover have "?step (sample_taken 6000 ?d1, [BulkIdle, BulkIdle]) (sample_taken (10 ^ 11) ?d1, [BulkIdle, BulkClaimed 77 0 2])"
    using bulk_step.claim [OF sample_claims(2), of 1 "[BulkIdle, BulkIdle]"] by simp
  moreover have "?step (sample_taken (10 ^ 11) ?d1, [BulkIdle, BulkClaimed 77 0 2]) (sample_taken (10 ^ 11) ?d2,
      [BulkIdle, BulkPosted 77 0 2 [0, 1] [BatchTxn t True, BatchError ErrInsufficientFunds]])"
    using sample_posts [OF trans [OF sample_run2_def [symmetric] run2], of 1 "[BulkIdle, BulkClaimed 77 0 2]"] rs2
    by simp
  moreover have "?step (sample_taken (10 ^ 11) ?d2,
      [BulkIdle, BulkPosted 77 0 2 [0, 1] [BatchTxn t True, BatchError ErrInsufficientFunds]])
      (sample_recorded ?d2 200, [BulkIdle, BulkClaimed 77 2 2])"
    using bulk_step.written [OF _ _ sample_records [of ?d2 t True],
        of 1 "[BulkIdle, BulkPosted 77 0 2 [0, 1] [BatchTxn t True, BatchError ErrInsufficientFunds]]" 2] t
    by simp
  ultimately show ?thesis by (meson converse_rtranclp_into_rtranclp rtranclp.rtrancl_refl)
qed

lemma bulk_exactly_once_witness:
  "(bulk_step (\<lambda>s. s) in_key sample_decode)\<^sup>*\<^sup>* (bulk_start 2 sample_db)
     (sample_recorded (snd (projr sample_run2)) 200, [BulkIdle, BulkClaimed 77 2 2]) \<and>
   map tr_id (filter (\<lambda>t. tr_key t = item_key ''b'' 0) (db_txns (snd (projr sample_run2)))) = [200]"
  using sample_bulk_reached
    bulk_exactly_once [OF sample_db_reachable sample_codec sample_bulk_reached _ _ rtranclp.rtrancl_refl,
      of "hd (bs_requests (sample_recorded (snd (projr sample_run2)) 200))" 0]
  by (simp add: sample_recorded_def sample_bulk_request_def items_from_def Let_def)

lemma bulk_counts_witness:
  "(bulk_step (\<lambda>s. s) in_key sample_decode)\<^sup>*\<^sup>* (bulk_start 2 sample_db)
     (sample_recorded (snd (projr sample_run2)) 200, [BulkIdle, BulkClaimed 77 2 2]) \<and>
   length (filter (\<lambda>e. bk_id e = 77) (bs_events (sample_recorded (snd (projr sample_run2)) 200))) = 1"
  using sample_bulk_reached
    bulk_counts [OF sample_db_reachable sample_codec sample_bulk_reached, of "hd (bs_requests (sample_recorded (snd (projr sample_run2)) 200))"]
  by (simp add: sample_recorded_def sample_bulk_request_def Let_def)

lemma sample_accepted_reached:
  "(bulk_step (\<lambda>s. s) in_key sample_decode)\<^sup>*\<^sup>* (bulk_start 2 sample_db) (sample_accepted, [BulkIdle, BulkIdle])"
  using sample_accepts by (rule r_into_rtranclp)

text \<open>One worker alone finishes the request.\<close>

lemma sample_run1_results:
  "map_sum id (\<lambda>(rs, d). map (\<lambda>r. case r of Success t b \<Rightarrow> Inl (t_id t, b) | Failure e \<Rightarrow> Inr e) rs) sample_run1 =
    Inr [Inl (200, False), Inr ErrInsufficientFunds]"
  by code_simp

lemma sample_worked:
  "\<exists>st'. processBulk sample_decode (\<lambda>n. (7000, \<lambda>k. 200 + k)) sample_accepted 6000 (\<lambda>i. False) 10 = Some (True, ok, st')"
proof -
  obtain t d where run: "sample_run1 = Inr ([Success t False, Failure ErrInsufficientFunds], d)"
    using sample_two_results [OF sample_run1_results] by blast
  have rs: "place_results sample_inputs [Success t False, Failure ErrInsufficientFunds] =
      [BatchTxn t False, BatchError ErrInsufficientFunds]"
    using sample_inputs_valid by (simp add: sample_inputs_def failedResult_def asDomainError_def)
  have db: "bs_db (sample_taken 6000 sample_db) = sample_db" "(sample_taken 6000 sample_db)\<lparr>bs_db := d\<rparr> = sample_taken 6000 d"
    by (simp_all add: sample_taken_def)
  have post: "postBatch sample_db 7000 (\<lambda>k. 200 + k) sample_inputs False =
      Inr ([BatchTxn t False, BatchError ErrInsufficientFunds], d)"
    using sample_batch [OF trans [OF sample_run1_def [symmetric] run]] rs by simp
  obtain st' where rec: "recordChunk (sample_taken 6000 d) 7000 77 0 [0, 1] [BatchTxn t False, BatchError ErrInsufficientFunds] =
      Inr (Some 2, st')"
    by (simp add: recordChunk_def Let_def sample_taken_def sample_accepted_def sample_bulk_request_def
      update_bulk_def update_rows_def)
  have "processChunk sample_decode (sample_taken 6000 sample_db) 7000 (\<lambda>k. 200 + k) 77 0 10 = (Inr (Some 2), st')"
    using post rec by (simp add: processChunk_def sample_reads db)
  then have "chunks sample_decode (\<lambda>n. (7000, \<lambda>k. 200 + k)) 0 (sample_taken 6000 sample_db) 77 0 2 10 = Some (ok, st')"
    by (subst chunks.simps) (simp add: chunks.simps [of _ _ _ _ _ 2])
  then show ?thesis by (simp add: processBulk_def sample_claims)
qed


end
