(* ===== verification/Webhooks.thy ===== *)
theory Webhooks
  imports Validate TypeID Seal_Encoding "HOL-Library.Product_Lexorder" "HOL-Library.Multiset"
begin

text \<open>
  \<^verbatim>\<open>internal/kernel/events\<close>: events are written in the database transaction of what they tell, dispatched to
  the webhook endpoints in the order of commit, delivered with retries, and pruned. \<open>mac\<close> is HMAC-SHA256 of a
  secret and a message, \<open>url_ok\<close> the checks that need \<^verbatim>\<open>net/url\<close> and \<^verbatim>\<open>net/netip\<close>; the answer of an
  endpoint is an argument of the delivery.
\<close>

section \<open>Rows and configuration\<close>

record hook_event =
  ev_id :: uuid
  ev_type :: string
  ev_data :: string
  ev_createdAt :: gotime
  ev_xid :: nat

record endpoint =
  ep_id :: uuid
  ep_url :: string
  ep_secret :: string
  ep_description :: string
  ep_types :: "string list"
  ep_enabled :: bool
  ep_version :: int
  ep_createdAt :: gotime

datatype delivery_status = DeliveryPending | DeliverySucceeded | DeliveryFailed

record delivery =
  dl_id :: uuid
  dl_endpoint :: uuid
  dl_event :: uuid
  dl_status :: delivery_status
  dl_attempts :: nat
  dl_next :: gotime
  dl_last :: "gotime option"
  dl_code :: "int option"
  dl_error :: "string option"
  dl_deliveredAt :: "gotime option"
  dl_createdAt :: gotime

text \<open>The tables \<^verbatim>\<open>events\<close>, \<^verbatim>\<open>event_dispatch_cursor\<close>, \<^verbatim>\<open>webhook_endpoints\<close> and \<^verbatim>\<open>webhook_deliveries\<close>.\<close>

record hooks =
  hk_events :: "hook_event list"
  hk_cursor :: "(nat \<times> uuid) option"
  hk_endpoints :: "endpoint list"
  hk_deliveries :: "delivery list"

record hooks_config =
  cf_poll :: int
  cf_workers :: int
  cf_batch :: int
  cf_timeout :: int
  cf_lease :: int
  cf_retries :: "int list option"
  cf_retention :: int
  cf_pruneInterval :: int
  cf_pruneBatch :: int

definition second :: int where
  "second = 10 ^ 9"

definition default_retries :: "int list" where
  "default_retries = map (\<lambda>m. m * 60 * second) [1, 5, 30, 60, 120, 300, 600, 600, 720, 720, 720]"

definition with_default :: "int \<Rightarrow> int \<Rightarrow> int" where
  "with_default x y = (if x \<le> 0 then y else x)"

definition withDefaults :: "hooks_config \<Rightarrow> hooks_config" where
  "withDefaults c =
     (let timeout = with_default (cf_timeout c) (10 * second); lease = with_default (cf_lease c) (60 * second) in
      c\<lparr>cf_poll := with_default (cf_poll c) second, cf_workers := with_default (cf_workers c) 8,
        cf_batch := with_default (cf_batch c) 100, cf_timeout := timeout,
        cf_lease := (if lease < timeout then 2 * timeout else lease),
        cf_retries := (case cf_retries c of None \<Rightarrow> Some default_retries | Some rs \<Rightarrow> Some rs),
        cf_retention := with_default (cf_retention c) (30 * 24 * 3600 * second),
        cf_pruneInterval := with_default (cf_pruneInterval c) (3600 * second),
        cf_pruneBatch := with_default (cf_pruneBatch c) 5000\<rparr>)"

definition retries :: "hooks_config \<Rightarrow> int list" where
  "retries c = or_zero [] (cf_retries c)"

section \<open>Endpoints\<close>

definition maxURLLen :: nat where
  "maxURLLen = 2048"

definition maxDescriptionLen :: nat where
  "maxDescriptionLen = 1024"

definition maxEventTypes :: nat where
  "maxEventTypes = 64"

text \<open>The parts of a text between its dots.\<close>

fun dotted :: "string \<Rightarrow> string list" where
  "dotted [] = [[]]"
| "dotted (c # s) =
     (if c = CHR ''.'' then [] # dotted s else (c # hd (dotted s)) # tl (dotted s))"

definition type_word :: "string \<Rightarrow> bool" where
  "type_word s \<longleftrightarrow> s \<noteq> [] \<and> list_all (\<lambda>c. code (CHR ''a'') \<le> code c \<and> code c \<le> code (CHR ''z'') \<or> c = CHR ''_'') s"

text \<open>\<^verbatim>\<open>^(\*|[a-z_]+(\.[a-z_]+)*(\.\*)?)$\<close>\<close>

definition event_type_ok :: "string \<Rightarrow> bool" where
  "event_type_ok t \<longleftrightarrow>
     t = ''*'' \<or> list_all type_word (dotted t) \<or>
     length (dotted t) > 1 \<and> last (dotted t) = ''*'' \<and> list_all type_word (butlast (dotted t))"

definition validateEndpoint :: "(string \<Rightarrow> bool) \<Rightarrow> string \<Rightarrow> string \<Rightarrow> string list \<Rightarrow> unit res" where
  "validateEndpoint url_ok url description types =
     (if length url > maxURLLen \<or> \<not> url_ok url \<or> length description > maxDescriptionLen \<or>
         length types > maxEventTypes \<or> \<not> list_all event_type_ok types
      then Inl ErrInvalid else ok)"

record endpointInput =
  ei_url :: string
  ei_description :: string
  ei_types :: "string list"
  ei_enabled :: "bool option"

record endpointUpdate =
  eu_url :: "string option"
  eu_description :: "string option"
  eu_types :: "string list option"
  eu_enabled :: "bool option"

text \<open>The secret is part of the answer to the creation and of no other.\<close>

definition scanEndpoint :: "endpoint \<Rightarrow> endpoint" where
  "scanEndpoint e = e\<lparr>ep_secret := []\<rparr>"

definition createEndpoint ::
  "(string \<Rightarrow> bool) \<Rightarrow> hooks \<Rightarrow> gotime \<Rightarrow> uuid \<Rightarrow> string \<Rightarrow> endpointInput \<Rightarrow> (endpoint \<times> hooks) res" where
  "createEndpoint url_ok st now newid secret i =
     bindR (validateEndpoint url_ok (ei_url i) (ei_description i) (ei_types i)) (\<lambda>_.
     if row_by ep_id (hk_endpoints st) newid \<noteq> None then Inl (ErrConstraint ''webhook_endpoints_pkey'')
     else let e = \<lparr>ep_id = newid, ep_url = ei_url i, ep_secret = ''whsec_'' @ secret, ep_description = ei_description i,
                   ep_types = ei_types i, ep_enabled = or_zero True (ei_enabled i), ep_version = 0, ep_createdAt = now\<rparr>
          in Inr (e, st\<lparr>hk_endpoints := hk_endpoints st @ [e]\<rparr>))"

definition queryEndpoint :: "hooks \<Rightarrow> uuid \<Rightarrow> endpoint res" where
  "queryEndpoint st i =
     (case row_by ep_id (hk_endpoints st) i of None \<Rightarrow> Inl ErrNotFound | Some e \<Rightarrow> Inr (scanEndpoint e))"

text \<open>\<^verbatim>\<open>ORDER BY id DESC LIMIT n\<close>; a zero id is no bound.\<close>

definition newest :: "('r \<Rightarrow> uuid) \<Rightarrow> uuid \<Rightarrow> nat \<Rightarrow> 'r list \<Rightarrow> 'r list" where
  "newest key before limit rs = take limit (rev (sort_key key (filter (\<lambda>r. before = 0 \<or> key r < before) rs)))"

definition listEndpoints :: "hooks \<Rightarrow> uuid \<Rightarrow> nat \<Rightarrow> endpoint list" where
  "listEndpoints st before limit = map scanEndpoint (newest ep_id before limit (hk_endpoints st))"

definition updateEndpoint ::
  "(string \<Rightarrow> bool) \<Rightarrow> hooks \<Rightarrow> uuid \<Rightarrow> endpointUpdate \<Rightarrow> (endpoint \<times> hooks) res" where
  "updateEndpoint url_ok st i u =
     (case row_by ep_id (hk_endpoints st) i of
        None \<Rightarrow> Inl ErrNotFound
      | Some e \<Rightarrow>
          let e = e\<lparr>ep_url := or_zero (ep_url e) (eu_url u), ep_description := or_zero (ep_description e) (eu_description u),
                    ep_types := or_zero (ep_types e) (eu_types u), ep_enabled := or_zero (ep_enabled e) (eu_enabled u)\<rparr>
          in bindR (validateEndpoint url_ok (ep_url e) (ep_description e) (ep_types e)) (\<lambda>_.
             let e = e\<lparr>ep_version := ep_version e + 1\<rparr>
             in Inr (scanEndpoint e, st\<lparr>hk_endpoints := update_rows (\<lambda>r. ep_id r = i) (\<lambda>_. e) (hk_endpoints st)\<rparr>)))"

text \<open>The deliveries of an endpoint go with it (\<^verbatim>\<open>ON DELETE CASCADE\<close>).\<close>

definition deleteEndpoint :: "hooks \<Rightarrow> uuid \<Rightarrow> hooks res" where
  "deleteEndpoint st i =
     (if row_by ep_id (hk_endpoints st) i = None then Inl ErrNotFound
      else Inr (st\<lparr>hk_endpoints := filter (\<lambda>e. ep_id e \<noteq> i) (hk_endpoints st),
                   hk_deliveries := filter (\<lambda>d. dl_endpoint d \<noteq> i) (hk_deliveries st)\<rparr>))"

section \<open>Reading events and deliveries\<close>

definition event_by :: "hooks \<Rightarrow> uuid \<Rightarrow> hook_event option" where
  "event_by st i = row_by ev_id (hk_events st) i"

definition queryEvent :: "hooks \<Rightarrow> uuid \<Rightarrow> hook_event res" where
  "queryEvent st i = (case event_by st i of None \<Rightarrow> Inl ErrNotFound | Some e \<Rightarrow> Inr e)"

definition listEvents :: "hooks \<Rightarrow> string \<Rightarrow> uuid \<Rightarrow> nat \<Rightarrow> hook_event list" where
  "listEvents st typ before limit =
     newest ev_id before limit (filter (\<lambda>e. typ = [] \<or> ev_type e = typ) (hk_events st))"

text \<open>A delivery as it is shown: with the type of its event, and the time of the next attempt if there is one.\<close>

definition scanDelivery :: "hooks \<Rightarrow> delivery \<Rightarrow> (delivery \<times> string \<times> gotime option) list" where
  "scanDelivery st d =
     (case event_by st (dl_event d) of
        None \<Rightarrow> []
      | Some e \<Rightarrow> [(d, ev_type e, if dl_status d = DeliveryPending then Some (dl_next d) else None)])"

definition queryDelivery :: "hooks \<Rightarrow> uuid \<Rightarrow> (delivery \<times> string \<times> gotime option) res" where
  "queryDelivery st i =
     (case concat (map (scanDelivery st) (filter (\<lambda>d. dl_id d = i) (hk_deliveries st))) of
        [] \<Rightarrow> Inl ErrNotFound | d # _ \<Rightarrow> Inr d)"

definition status_text :: "delivery_status \<Rightarrow> string" where
  "status_text s =
     (case s of DeliveryPending \<Rightarrow> ''pending'' | DeliverySucceeded \<Rightarrow> ''succeeded'' | DeliveryFailed \<Rightarrow> ''failed'')"

definition listDeliveries ::
  "hooks \<Rightarrow> uuid \<Rightarrow> uuid \<Rightarrow> string \<Rightarrow> uuid \<Rightarrow> nat \<Rightarrow> (delivery \<times> string \<times> gotime option) list res" where
  "listDeliveries st ep ev status before limit =
     (if status \<notin> {[], ''pending'', ''succeeded'', ''failed''} then Inl ErrInvalid
      else Inr (newest (\<lambda>x. dl_id (fst x)) before limit (concat (map (scanDelivery st) (filter
        (\<lambda>d. (ep = 0 \<or> dl_endpoint d = ep) \<and> (ev = 0 \<or> dl_event d = ev) \<and> (status = [] \<or> status_text (dl_status d) = status))
        (hk_deliveries st))))))"

definition retryDelivery :: "hooks \<Rightarrow> gotime \<Rightarrow> uuid \<Rightarrow> (delivery \<times> string \<times> gotime option) res \<times> hooks" where
  "retryDelivery st now i =
     (let st = st\<lparr>hk_deliveries := update_rows (\<lambda>d. dl_id d = i \<and> dl_status d \<noteq> DeliverySucceeded)
                 (\<lambda>d. d\<lparr>dl_status := DeliveryPending, dl_next := now\<rparr>) (hk_deliveries st)\<rparr>
      in (queryDelivery st i, st))"

section \<open>Dispatching\<close>

text \<open>The order of commit. \<open>xmin\<close> is the smallest number of a database transaction that still runs.\<close>

definition ev_key :: "hook_event \<Rightarrow> nat \<times> uuid" where
  "ev_key e = (ev_xid e, ev_id e)"

definition nextEvents :: "hooks \<Rightarrow> nat \<Rightarrow> nat \<Rightarrow> hook_event list" where
  "nextEvents st xmin limit =
     take limit (sort_key ev_key (filter (\<lambda>e. ev_xid e < xmin \<and>
       (case hk_cursor st of None \<Rightarrow> True | Some c \<Rightarrow> c < ev_key e)) (hk_events st)))"

definition type_matches :: "string \<Rightarrow> string \<Rightarrow> bool" where
  "type_matches t typ \<longleftrightarrow>
     t \<noteq> [] \<and> last t = CHR ''*'' \<and> take (length (butlast t)) typ = butlast t \<or> t = typ"

definition subscribed :: "string list \<Rightarrow> string \<Rightarrow> bool" where
  "subscribed types typ \<longleftrightarrow> types = [] \<or> list_ex (\<lambda>t. type_matches t typ) types"

text \<open>The pairs of an endpoint and an event that are to be delivered.\<close>

definition delivery_pairs :: "endpoint list \<Rightarrow> hook_event list \<Rightarrow> (uuid \<times> uuid) list" where
  "delivery_pairs eps batch =
     concat (map (\<lambda>e. map (\<lambda>p. (ep_id p, ev_id e)) (filter (\<lambda>p. ep_enabled p \<and> subscribed (ep_types p) (ev_type e)) eps)) batch)"

definition new_delivery :: "gotime \<Rightarrow> uuid \<Rightarrow> uuid \<times> uuid \<Rightarrow> delivery" where
  "new_delivery now i p =
     \<lparr>dl_id = i, dl_endpoint = fst p, dl_event = snd p, dl_status = DeliveryPending, dl_attempts = 0, dl_next = now,
      dl_last = None, dl_code = None, dl_error = None, dl_deliveredAt = None, dl_createdAt = now\<rparr>"

text \<open>\<^verbatim>\<open>INSERT ... ON CONFLICT DO NOTHING\<close>, row by row.\<close>

definition delivery_clash :: "delivery \<Rightarrow> delivery list \<Rightarrow> bool" where
  "delivery_clash n ds \<longleftrightarrow>
     list_ex (\<lambda>d. dl_id d = dl_id n \<or> dl_endpoint d = dl_endpoint n \<and> dl_event d = dl_event n) ds"

fun insert_deliveries :: "gotime \<Rightarrow> (nat \<Rightarrow> uuid) \<Rightarrow> nat \<Rightarrow> (uuid \<times> uuid) list \<Rightarrow> delivery list \<Rightarrow> delivery list" where
  "insert_deliveries now fresh k [] ds = ds"
| "insert_deliveries now fresh k (p # ps) ds =
     (let n = new_delivery now (fresh k) p
      in insert_deliveries now fresh (Suc k) ps (if delivery_clash n ds then ds else ds @ [n]))"

definition insertDeliveries :: "hooks \<Rightarrow> gotime \<Rightarrow> (nat \<Rightarrow> uuid) \<Rightarrow> hook_event list \<Rightarrow> hooks" where
  "insertDeliveries st now fresh batch =
     st\<lparr>hk_deliveries := insert_deliveries now fresh 0 (delivery_pairs (hk_endpoints st) batch) (hk_deliveries st)\<rparr>"

text \<open>\<open>locked\<close> tells whether this process got the advisory lock.\<close>

definition dispatch ::
  "hooks_config \<Rightarrow> hooks \<Rightarrow> nat \<Rightarrow> bool \<Rightarrow> gotime \<Rightarrow> (nat \<Rightarrow> uuid) \<Rightarrow> nat \<times> hooks" where
  "dispatch cfg st xmin locked now fresh =
     (if \<not> locked then (0, st)
      else let batch = nextEvents st xmin (nat (cf_batch cfg)) in
        if batch = [] then (0, st)
        else (length batch, (insertDeliveries st now fresh batch)\<lparr>hk_cursor := Some (ev_key (last batch))\<rparr>))"

section \<open>Delivering\<close>

record claimed =
  cl_id :: uuid
  cl_attempts :: nat
  cl_url :: string
  cl_secret :: string
  cl_event :: hook_event

definition delivery_due :: "hooks \<Rightarrow> gotime \<Rightarrow> (uuid \<Rightarrow> bool) \<Rightarrow> delivery \<Rightarrow> bool" where
  "delivery_due st now skip d \<longleftrightarrow>
     dl_status d = DeliveryPending \<and> dl_next d \<le> now \<and>
     (case row_by ep_id (hk_endpoints st) (dl_endpoint d) of None \<Rightarrow> False | Some p \<Rightarrow> ep_enabled p) \<and> \<not> skip (dl_id d)"

definition claim_row :: "hooks \<Rightarrow> delivery \<Rightarrow> claimed list" where
  "claim_row st d =
     (case (row_by ep_id (hk_endpoints st) (dl_endpoint d), event_by st (dl_event d)) of
        (Some p, Some e) \<Rightarrow>
          [\<lparr>cl_id = dl_id d, cl_attempts = dl_attempts d, cl_url = ep_url p, cl_secret = ep_secret p, cl_event = e\<rparr>]
      | _ \<Rightarrow> [])"

definition claim_due :: "hooks_config \<Rightarrow> hooks \<Rightarrow> gotime \<Rightarrow> (uuid \<Rightarrow> bool) \<Rightarrow> claimed list \<times> hooks" where
  "claim_due cfg st now skip =
     (let due = take (nat (cf_batch cfg)) (sort_key dl_next (filter (delivery_due st now skip) (hk_deliveries st)))
      in (concat (map (claim_row st) due),
          st\<lparr>hk_deliveries := update_rows (\<lambda>d. dl_id d \<in> dl_id ` set due) (\<lambda>d. d\<lparr>dl_next := now + cf_lease cfg\<rparr>)
               (hk_deliveries st)\<rparr>))"

text \<open>The answer of an endpoint: its status, or the text of the error without an answer.\<close>

datatype answer = Responded int | NoResponse string

fun post_outcome :: "answer \<Rightarrow> int \<times> string option" where
  "post_outcome (NoResponse e) = (0, Some e)"
| "post_outcome (Responded c) = (c, if c < 200 \<or> c > 299 then Some (''endpoint responded '' @ showInt c) else None)"

definition maxErrorLen :: nat where
  "maxErrorLen = 1024"

text \<open>\<^verbatim>\<open>strings.ToValidUTF8(s, "")\<close>\<close>

definition rune_length :: "string \<Rightarrow> nat option" where
  "rune_length s = find (\<lambda>k. k \<le> length s \<and> valid_utf8 (map code (take k s))) [1, 2, 3, 4]"

function toValidUTF8 :: "string \<Rightarrow> string" where
  "toValidUTF8 [] = []"
| "toValidUTF8 (c # s) =
     (case rune_length (c # s) of
        None \<Rightarrow> toValidUTF8 s
      | Some k \<Rightarrow> take k (c # s) @ toValidUTF8 (drop k (c # s)))"
  by pat_completeness auto
termination
  by (relation "measure length") (auto simp: rune_length_def find_Some_iff nth_Cons' less_Suc_eq split: if_splits)

definition truncate_text :: "string \<Rightarrow> string" where
  "truncate_text s = toValidUTF8 (take maxErrorLen s)"

definition nullStatus :: "int \<Rightarrow> int option" where
  "nullStatus c = (if c = 0 then None else Some c)"

text \<open>\<^verbatim>\<open>UPDATE webhook_deliveries ... WHERE id = $1\<close>. PostgreSQL refuses a row that breaks
  \<^verbatim>\<open>CHECK ((status = 'succeeded') = (delivered_at IS NOT NULL))\<close>; \<^verbatim>\<open>send\<close> only logs that.\<close>

definition delivery_check :: "delivery \<Rightarrow> bool" where
  "delivery_check d \<longleftrightarrow> (dl_status d = DeliverySucceeded) = (dl_deliveredAt d \<noteq> None)"

definition update_delivery :: "uuid \<Rightarrow> (delivery \<Rightarrow> delivery) \<Rightarrow> hooks \<Rightarrow> hooks" where
  "update_delivery i f st =
     (if list_all (\<lambda>d. delivery_check (f d)) (filter (\<lambda>d. dl_id d = i) (hk_deliveries st))
      then st\<lparr>hk_deliveries := update_rows (\<lambda>d. dl_id d = i) f (hk_deliveries st)\<rparr> else st)"

definition send :: "hooks_config \<Rightarrow> gotime \<Rightarrow> claimed \<Rightarrow> answer \<Rightarrow> hooks \<Rightarrow> hooks" where
  "send cfg now c a st =
     (let attempts = cl_attempts c + 1 in
      case post_outcome a of
        (status, None) \<Rightarrow>
          update_delivery (cl_id c) (\<lambda>d. d\<lparr>dl_status := DeliverySucceeded, dl_attempts := attempts, dl_last := Some now,
            dl_code := Some status, dl_error := None, dl_deliveredAt := Some now\<rparr>) st
      | (status, Some e) \<Rightarrow>
          if attempts > length (retries cfg)
          then update_delivery (cl_id c) (\<lambda>d. d\<lparr>dl_status := DeliveryFailed, dl_attempts := attempts, dl_last := Some now,
            dl_code := nullStatus status, dl_error := Some (truncate_text e)\<rparr>) st
          else update_delivery (cl_id c) (\<lambda>d. d\<lparr>dl_attempts := attempts, dl_last := Some now, dl_code := nullStatus status,
            dl_error := Some (truncate_text e), dl_next := now + retries cfg ! (attempts - 1)\<rparr>) st)"

text \<open>\<^verbatim>\<open>Deliver\<close>: the deliveries are sent concurrently; \<open>answers\<close> pairs each with what came back, in the
  order in which their outcomes are recorded.\<close>

definition deliver ::
  "hooks_config \<Rightarrow> hooks \<Rightarrow> gotime \<Rightarrow> (uuid \<Rightarrow> bool) \<Rightarrow> (claimed list \<Rightarrow> (claimed \<times> gotime \<times> answer) list) \<Rightarrow> nat \<times> hooks" where
  "deliver cfg st now skip answers =
     (case claim_due cfg st now skip of
        (cs, st') \<Rightarrow> (length cs, fold (\<lambda>(c, t, a). send cfg t c a) (answers cs) st'))"

section \<open>Signatures\<close>

definition hex_digit :: "nat \<Rightarrow> char" where
  "hex_digit n = ''0123456789abcdef'' ! n"

definition hex_text :: "bytes \<Rightarrow> string" where
  "hex_text bs = concat (map (\<lambda>b. [hex_digit (code b div 16), hex_digit (code b mod 16)]) bs)"

definition unix_seconds :: "gotime \<Rightarrow> int" where
  "unix_seconds t = t div 10 ^ 9 - 62135596800"

definition unix_time :: "int \<Rightarrow> gotime" where
  "unix_time s = (s + 62135596800) * 10 ^ 9"

definition Sign :: "(string \<Rightarrow> bytes \<Rightarrow> bytes) \<Rightarrow> string \<Rightarrow> gotime \<Rightarrow> bytes \<Rightarrow> string" where
  "Sign mac secret at_time body =
     (let ts = showInt (unix_seconds at_time)
      in ''t='' @ ts @ '',v1='' @ hex_text (mac secret (ts @ ''.'' @ body)))"

text \<open>\<^verbatim>\<open>strings.SplitSeq(s, ",")\<close> and \<^verbatim>\<open>strings.Cut(s, "=")\<close>\<close>

fun split_at :: "char \<Rightarrow> string \<Rightarrow> string list" where
  "split_at x [] = [[]]"
| "split_at x (c # s) = (if c = x then [] # split_at x s else (c # hd (split_at x s)) # tl (split_at x s))"

fun cut_at :: "char \<Rightarrow> string \<Rightarrow> string \<times> string" where
  "cut_at x [] = ([], [])"
| "cut_at x (c # s) = (if c = x then ([], s) else (c # fst (cut_at x s), snd (cut_at x s)))"

text \<open>\<^verbatim>\<open>strconv.ParseInt(s, 10, 64)\<close>\<close>

definition parseInt64 :: "string \<Rightarrow> int option" where
  "parseInt64 s =
     (let neg = s \<noteq> [] \<and> hd s = CHR ''-''; ds = (if s \<noteq> [] \<and> hd s \<in> {CHR ''-'', CHR ''+''} then tl s else s);
          n = (if neg then - int (readNat ds) else int (readNat ds))
      in if ds = [] \<or> \<not> list_all isDigit ds \<or> n < - (2 ^ 63) \<or> n > 2 ^ 63 - 1 then None else Some n)"

definition header_part :: "string \<Rightarrow> string \<Rightarrow> string" where
  "header_part header k =
     (case rev (filter (\<lambda>p. fst p = k) (map (cut_at (CHR ''='')) (split_at (CHR '','') header))) of
        [] \<Rightarrow> [] | p # _ \<Rightarrow> snd p)"

text \<open>A \<^verbatim>\<open>time.Duration\<close> saturates.\<close>

definition time_apart :: "gotime \<Rightarrow> gotime \<Rightarrow> int" where
  "time_apart t u = min (abs (t - u)) (2 ^ 63 - 1)"

definition Verify :: "(string \<Rightarrow> bytes \<Rightarrow> bytes) \<Rightarrow> string \<Rightarrow> string \<Rightarrow> bytes \<Rightarrow> gotime \<Rightarrow> int \<Rightarrow> bool" where
  "Verify mac secret header body now tolerance =
     (let ts = header_part header ''t''; sig = header_part header ''v1'' in
      case parseInt64 ts of
        None \<Rightarrow> False
      | Some unix \<Rightarrow>
          if time_apart now (unix_time unix) > tolerance then False
          else Sign mac secret (unix_time unix) body = ''t='' @ ts @ '',v1='' @ sig)"

section \<open>Pruning\<close>

definition idAt :: "gotime \<Rightarrow> uuid" where
  "idAt t = nat ((unix_seconds t * 1000 + t mod 10 ^ 9 div 10 ^ 6) mod 2 ^ 48) * 2 ^ 80 + 0x70 * 2 ^ 72 + 0x80 * 2 ^ 56"

definition prunable :: "hooks \<Rightarrow> uuid \<Rightarrow> (uuid \<Rightarrow> bool) \<Rightarrow> hook_event \<Rightarrow> bool" where
  "prunable st cutoff skip e \<longleftrightarrow>
     ev_id e < cutoff \<and> (case hk_cursor st of None \<Rightarrow> False | Some c \<Rightarrow> ev_key e \<le> c) \<and>
     \<not> list_ex (\<lambda>d. dl_event d = ev_id e \<and> dl_status d = DeliveryPending) (hk_deliveries st) \<and> \<not> skip (ev_id e)"

definition prune_batch :: "hooks_config \<Rightarrow> hooks \<Rightarrow> uuid \<Rightarrow> (uuid \<Rightarrow> bool) \<Rightarrow> nat \<times> hooks" where
  "prune_batch cfg st cutoff skip =
     (let ids = take (nat (cf_pruneBatch cfg)) (map ev_id (sort_key ev_id (filter (prunable st cutoff skip) (hk_events st))))
      in (length ids, st\<lparr>hk_events := filter (\<lambda>e. ev_id e \<notin> set ids) (hk_events st),
                         hk_deliveries := filter (\<lambda>d. dl_event d \<notin> set ids) (hk_deliveries st)\<rparr>))"

text \<open>The loop of \<^verbatim>\<open>Prune\<close>; \<open>skip k\<close> are the rows that others have locked in round \<open>k\<close>.\<close>

partial_function (option) prune_rounds ::
  "hooks_config \<Rightarrow> uuid \<Rightarrow> (nat \<Rightarrow> uuid \<Rightarrow> bool) \<Rightarrow> nat \<Rightarrow> nat \<Rightarrow> hooks \<Rightarrow> (nat \<times> hooks) option" where
  "prune_rounds cfg cutoff skip k removed st =
     (case prune_batch cfg st cutoff (skip k) of
        (n, st') \<Rightarrow> if int n < cf_pruneBatch cfg then Some (removed + n, st')
                    else prune_rounds cfg cutoff skip (Suc k) (removed + n) st')"

definition prune_events :: "hooks_config \<Rightarrow> hooks \<Rightarrow> gotime \<Rightarrow> (nat \<Rightarrow> uuid \<Rightarrow> bool) \<Rightarrow> (nat \<times> hooks) option" where
  "prune_events cfg st now skip = prune_rounds cfg (idAt (now - cf_retention cfg)) skip 0 0 st"

end
