(* ===== verification/Webhook_Properties.thy ===== *)
theory Webhook_Properties
  imports Webhooks
begin

text \<open>
  The properties of webhooks: every event is dispatched once, in the order of commit, whatever commits in
  between; a delivery that succeeded stays so however late another worker records its outcome; only what has
  been dispatched and waits for no delivery is pruned; a signature verifies, and nothing else does.
\<close>

section \<open>Runs\<close>

text \<open>What does not dispatch: deliveries, retries, pruning and the endpoints.\<close>

inductive hook_step :: "(string \<Rightarrow> bool) \<Rightarrow> hooks_config \<Rightarrow> hooks \<Rightarrow> hooks \<Rightarrow> bool" for url_ok cfg where
  create: "createEndpoint url_ok st now newid secret i = Inr (e, st') \<Longrightarrow> hook_step url_ok cfg st st'"
| update: "updateEndpoint url_ok st i u = Inr (e, st') \<Longrightarrow> hook_step url_ok cfg st st'"
| delete: "deleteEndpoint st i = Inr st' \<Longrightarrow> hook_step url_ok cfg st st'"
| claims: "claim_due cfg st now skip = (cs, st') \<Longrightarrow> hook_step url_ok cfg st st'"
| sends: "hook_step url_ok cfg st (send cfg now c a st)"
| retry: "retryDelivery st now i = (r, st') \<Longrightarrow> hook_step url_ok cfg st st'"
| prune: "prune_batch cfg st cutoff skip = (n, st') \<Longrightarrow> hook_step url_ok cfg st st'"

text \<open>
  A run with the events that have committed and those that have been dispatched, in that order. \<open>b\<close> is the
  bound of the last dispatch: a database transaction that commits after it has a number that is not below.
\<close>

inductive hook_run ::
  "(string \<Rightarrow> bool) \<Rightarrow> hooks_config \<Rightarrow> hooks \<Rightarrow> nat \<Rightarrow> hook_event list \<Rightarrow> hook_event list \<Rightarrow> bool" for url_ok cfg where
  start: "hook_run url_ok cfg \<lparr>hk_events = [], hk_cursor = None, hk_endpoints = [], hk_deliveries = []\<rparr> 0 [] []"
| commit: "hook_run url_ok cfg st b all sent \<Longrightarrow> \<forall>e \<in> set evs. b \<le> ev_xid e \<Longrightarrow>
    distinct (map ev_id evs) \<Longrightarrow> ev_id ` set evs \<inter> ev_id ` set all = {} \<Longrightarrow>
    hook_run url_ok cfg (st\<lparr>hk_events := hk_events st @ evs\<rparr>) b (all @ evs) sent"
| step: "hook_run url_ok cfg st b all sent \<Longrightarrow> hook_step url_ok cfg st st' \<Longrightarrow> hook_run url_ok cfg st' b all sent"
| dispatched: "hook_run url_ok cfg st b all sent \<Longrightarrow> b \<le> xmin \<Longrightarrow> dispatch cfg st xmin True now fresh = (n, st') \<Longrightarrow>
    hook_run url_ok cfg st' xmin all (sent @ nextEvents st xmin (nat (cf_batch cfg)))"

section \<open>Dispatching once\<close>

definition behind :: "(nat \<times> uuid) option \<Rightarrow> hook_event \<Rightarrow> bool" where
  "behind cursor e \<longleftrightarrow> (case cursor of None \<Rightarrow> False | Some c \<Rightarrow> ev_key e \<le> c)"

definition hook_inv :: "hooks \<Rightarrow> nat \<Rightarrow> hook_event list \<Rightarrow> hook_event list \<Rightarrow> bool" where
  "hook_inv st b all sent \<longleftrightarrow>
     distinct (map ev_id all) \<and> set (hk_events st) \<subseteq> set all \<and> distinct (hk_events st) \<and>
     (\<forall>e \<in> set all. e \<notin> set (hk_events st) \<longrightarrow> behind (hk_cursor st) e) \<and>
     (\<forall>c. hk_cursor st = Some c \<longrightarrow> fst c < b) \<and>
     sorted_wrt (\<lambda>e f. ev_key e < ev_key f) sent \<and> set sent = {e \<in> set all. behind (hk_cursor st) e}"


text \<open>The other steps leave the cursor, and remove no event that is ahead of it.\<close>

lemma prune_batch_removes:
  assumes inj: "inj_on ev_id (set (hk_events st))" and p: "prune_batch cfg st cutoff skip = (n, st')"
  shows "hk_cursor st' = hk_cursor st" "\<exists>q. hk_events st' = filter q (hk_events st)"
    "e \<in> set (hk_events st) \<Longrightarrow> e \<notin> set (hk_events st') \<Longrightarrow> prunable st cutoff skip e"
proof -
  let ?found = "filter (prunable st cutoff skip) (hk_events st)"
  let ?ids = "take (nat (cf_pruneBatch cfg)) (map ev_id (sort_key ev_id ?found))"
  have st': "st' = st\<lparr>hk_events := filter (\<lambda>e. ev_id e \<notin> set ?ids) (hk_events st),
      hk_deliveries := filter (\<lambda>d. dl_event d \<notin> set ?ids) (hk_deliveries st)\<rparr>"
    using p by (simp add: prune_batch_def Let_def)
  show "hk_cursor st' = hk_cursor st" "\<exists>q. hk_events st' = filter q (hk_events st)" unfolding st' by auto
  assume e: "e \<in> set (hk_events st)" "e \<notin> set (hk_events st')"
  then have "ev_id e \<in> set ?ids" by (simp add: st')
  then have "ev_id e \<in> set (map ev_id (sort_key ev_id ?found))" by (rule in_set_takeD)
  then obtain f where f: "f \<in> set (hk_events st)" "prunable st cutoff skip f" "ev_id f = ev_id e" by auto
  then show "prunable st cutoff skip e" using inj e(1) by (auto dest: inj_onD)
qed

lemma kept_all: "\<exists>q. xs = filter q xs"
  by (rule exI [of _ "\<lambda>_. True"]) simp

lemma hook_step_events:
  assumes "hook_step url_ok cfg st st'" and inj: "inj_on ev_id (set (hk_events st))"
  shows "hk_cursor st' = hk_cursor st \<and> (\<exists>q. hk_events st' = filter q (hk_events st)) \<and>
    (\<forall>e \<in> set (hk_events st). e \<notin> set (hk_events st') \<longrightarrow> behind (hk_cursor st) e)"
proof -
  have same: ?thesis if "hk_cursor st' = hk_cursor st" "hk_events st' = hk_events st"
    using that kept_all [of "hk_events st"] by simp
  from assms(1) show ?thesis
  proof cases
    case (prune cutoff skip n)
    have "behind (hk_cursor st) e" if "prunable st cutoff skip e" for e
      using that by (auto simp: prunable_def behind_def split: option.splits)
    then show ?thesis using prune_batch_removes [OF inj prune] by blast
  next
    case (sends now c a)
    then show ?thesis by (intro same) (auto simp: send_def update_delivery_def Let_def split: prod.splits option.splits)
  qed (auto simp: createEndpoint_def updateEndpoint_def deleteEndpoint_def claim_due_def retryDelivery_def Let_def
      split: if_splits option.splits intro!: kept_all)
qed

lemma nextEvents_member:
  "e \<in> set (nextEvents st xmin n) \<Longrightarrow> e \<in> set (hk_events st) \<and> ev_xid e < xmin \<and> \<not> behind (hk_cursor st) e"
  by (auto simp: nextEvents_def behind_def dest!: in_set_takeD split: option.splits)

lemma sorted_strict:
  "sorted (map f xs) \<Longrightarrow> distinct (map f xs) \<Longrightarrow> sorted_wrt (\<lambda>x y. f x < f y) xs" for f :: "'a \<Rightarrow> 'b::linorder"
  by (metis sorted_wrt_map strict_sorted_iff)

lemma sorted_unique:
  fixes f :: "'a \<Rightarrow> 'b::linorder"
  assumes "sorted_wrt (\<lambda>x y. f x < f y) xs" "sorted_wrt (\<lambda>x y. f x < f y) ys" "set xs = set ys"
  shows "xs = ys"
proof -
  have xs: "sorted (map f xs)" "distinct (map f xs)" and ys: "sorted (map f ys)" "distinct (map f ys)"
    using assms(1,2) by (metis sorted_wrt_map strict_sorted_iff)+
  have "map f xs = map f ys"
    using sorted_distinct_set_unique [OF xs ys] assms(3) by simp
  moreover have "inj_on f (set xs \<union> set ys)" using xs(2) assms(3) by (simp add: distinct_map)
  ultimately show ?thesis by (rule map_inj_on)
qed

lemma nextEvents_sorted:
  assumes "inj_on ev_id (set (hk_events st))" "distinct (hk_events st)"
  shows "sorted_wrt (\<lambda>e f. ev_key e < ev_key f) (nextEvents st xmin n)"
proof -
  let ?xs = "sort_key ev_key (filter (\<lambda>e. ev_xid e < xmin \<and>
       (case hk_cursor st of None \<Rightarrow> True | Some c \<Rightarrow> c < ev_key e)) (hk_events st))"
  have "inj_on ev_key (set ?xs)" using assms(1) by (auto simp: inj_on_def ev_key_def)
  then have "distinct (map ev_key ?xs)" using assms(2) by (simp add: distinct_map)
  then have "sorted_wrt (\<lambda>e f. ev_key e < ev_key f) ?xs" by (intro sorted_strict) simp_all
  then show ?thesis by (simp add: nextEvents_def sorted_wrt_take)
qed

lemma taken_upto:
  fixes f :: "'a \<Rightarrow> 'b::linorder"
  assumes srt: "sorted_wrt (\<lambda>x y. f x < f y) xs" and x: "x \<in> set xs"
    and ne: "take n xs \<noteq> []" and le: "f x \<le> f (last (take n xs))"
  shows "x \<in> set (take n xs)"
proof (rule ccontr)
  assume "x \<notin> set (take n xs)"
  then have "x \<in> set (drop n xs)" using x by (metis Un_iff append_take_drop_id set_append)
  moreover have "sorted_wrt (\<lambda>x y. f x < f y) (take n xs @ drop n xs)" using srt by simp
  ultimately have "f (last (take n xs)) < f x" using last_in_set [OF ne] unfolding sorted_wrt_append by blast
  then show False using le by simp
qed

text \<open>What a call takes is everything up to its new cursor.\<close>

lemma nextEvents_upto:
  assumes inj: "inj_on ev_id (set (hk_events st))" and d: "distinct (hk_events st)"
    and ne: "nextEvents st xmin n \<noteq> []"
    and e: "e \<in> set (hk_events st)" "\<not> behind (hk_cursor st) e" "ev_key e \<le> ev_key (last (nextEvents st xmin n))"
  shows "e \<in> set (nextEvents st xmin n)"
proof -
  let ?xs = "sort_key ev_key (filter (\<lambda>e. ev_xid e < xmin \<and>
       (case hk_cursor st of None \<Rightarrow> True | Some c \<Rightarrow> c < ev_key e)) (hk_events st))"
  have last: "last (nextEvents st xmin n) \<in> set (nextEvents st xmin n)" using ne by (rule last_in_set)
  then have "ev_xid (last (nextEvents st xmin n)) < xmin" using nextEvents_member by blast
  then have "ev_xid e < xmin" using e(3) by (auto simp: ev_key_def)
  then have mem: "e \<in> set ?xs" using e(1,2) by (auto simp: behind_def split: option.splits)
  have "inj_on ev_key (set ?xs)" using inj by (auto simp: inj_on_def ev_key_def)
  then have "distinct (map ev_key ?xs)" using d by (simp add: distinct_map)
  then have srt: "sorted_wrt (\<lambda>e f. ev_key e < ev_key f) ?xs" by (intro sorted_strict) simp_all
  show ?thesis
    unfolding nextEvents_def
  proof (rule taken_upto [OF srt mem])
    show "take n ?xs \<noteq> []" using ne by (simp add: nextEvents_def)
    show "ev_key e \<le> ev_key (last (take n ?xs))" using e(3) by (simp add: nextEvents_def)
  qed
qed

lemma nextEvents_all:
  assumes "length (nextEvents st xmin n) < n" "e \<in> set (hk_events st)" "ev_xid e < xmin" "\<not> behind (hk_cursor st) e"
  shows "e \<in> set (nextEvents st xmin n)"
  using assms by (auto simp: nextEvents_def behind_def split: option.splits)

lemma behind_trans: "behind c e \<Longrightarrow> \<not> behind c f \<Longrightarrow> ev_key e < ev_key f"
  by (auto simp: behind_def split: option.splits)

lemma sorted_last: "sorted_wrt (\<lambda>x y. f x < f y) xs \<Longrightarrow> x \<in> set xs \<Longrightarrow> f x \<le> f (last xs)" for f :: "'a \<Rightarrow> 'b::order"
  by (induction xs) (auto intro: less_imp_le)

lemma dispatch_inv:
  assumes inv: "hook_inv st b all sent" and b: "b \<le> xmin" and run: "dispatch cfg st xmin True now fresh = (n, st')"
  shows "hook_inv st' xmin all (sent @ nextEvents st xmin (nat (cf_batch cfg)))"
proof -
  let ?batch = "nextEvents st xmin (nat (cf_batch cfg))"
  have inj: "inj_on ev_id (set (hk_events st))" and d: "distinct (hk_events st)" and sub: "set (hk_events st) \<subseteq> set all"
    and low: "\<forall>c. hk_cursor st = Some c \<longrightarrow> fst c < b"
    and gone: "\<forall>e \<in> set all. e \<notin> set (hk_events st) \<longrightarrow> behind (hk_cursor st) e"
    and sent: "sorted_wrt (\<lambda>e f. ev_key e < ev_key f) sent" "set sent = {e \<in> set all. behind (hk_cursor st) e}"
    and ids: "distinct (map ev_id all)"
    using inv by (auto simp: hook_inv_def distinct_map intro: inj_on_subset)
  note member = nextEvents_member [of _ st xmin "nat (cf_batch cfg)"]
  show ?thesis
  proof (cases "?batch = []")
    case True
    then have "st' = st" using run by (simp add: dispatch_def)
    then show ?thesis using inv b True unfolding hook_inv_def by (auto intro: less_le_trans)
  next
    case False
    have st': "hk_events st' = hk_events st" "hk_cursor st' = Some (ev_key (last ?batch))"
      using run False by (auto simp: dispatch_def insertDeliveries_def Let_def)
    have last: "last ?batch \<in> set ?batch" using False by (rule last_in_set)
    have srt: "sorted_wrt (\<lambda>e f. ev_key e < ev_key f) ?batch" by (rule nextEvents_sorted [OF inj d])
    have more: "behind (hk_cursor st') e" if "behind (hk_cursor st) e" for e
      using behind_trans [OF that, of "last ?batch"] member [OF last] st'(2) by (auto simp: behind_def)
    have "set (sent @ ?batch) = {e \<in> set all. behind (hk_cursor st') e}"
    proof (intro set_eqI iffI)
      fix e assume "e \<in> set (sent @ ?batch)"
      then consider "e \<in> set sent" | "e \<in> set ?batch" by auto
      then show "e \<in> {e \<in> set all. behind (hk_cursor st') e}"
      proof cases
        case 1
        then show ?thesis using sent(2) more by blast
      next
        case 2
        then show ?thesis using member [OF 2] sub sorted_last [OF srt 2] st'(2) by (auto simp: behind_def)
      qed
    next
      fix e assume e: "e \<in> {e \<in> set all. behind (hk_cursor st') e}"
      show "e \<in> set (sent @ ?batch)"
      proof (cases "behind (hk_cursor st) e")
        case True
        then show ?thesis using e sent(2) by simp
      next
        case ahead: False
        then have "e \<in> set (hk_events st)" using e gone by blast
        moreover have "ev_key e \<le> ev_key (last ?batch)" using e st'(2) by (simp add: behind_def)
        ultimately show ?thesis using nextEvents_upto [OF inj d False _ ahead] by simp
      qed
    qed
    moreover have "sorted_wrt (\<lambda>e f. ev_key e < ev_key f) (sent @ ?batch)"
      using sent srt member behind_trans unfolding sorted_wrt_append by blast
    moreover have "\<forall>c. hk_cursor st' = Some c \<longrightarrow> fst c < xmin" using st'(2) member [OF last] by (simp add: ev_key_def)
    moreover have "\<forall>e \<in> set all. e \<notin> set (hk_events st') \<longrightarrow> behind (hk_cursor st') e" using gone more st'(1) by simp
    ultimately show ?thesis using ids sub d unfolding hook_inv_def st'(1) by (intro conjI) assumption+
  qed
qed

lemma hook_run_inv: "hook_run url_ok cfg st b all sent \<Longrightarrow> hook_inv st b all sent"
proof (induction rule: hook_run.induct)
  case start
  then show ?case by (simp add: hook_inv_def behind_def)
next
  case (commit st b all sent evs)
  have inv: "hook_inv st b all sent" by (rule commit.IH)
  have ahead: "\<not> behind (hk_cursor st) e" if e: "e \<in> set evs" for e
  proof
    assume "behind (hk_cursor st) e"
    then obtain c where c: "hk_cursor st = Some c" "ev_key e \<le> c" by (auto simp: behind_def split: option.splits)
    then have "fst c < b" using inv by (simp add: hook_inv_def)
    moreover have "ev_xid e \<le> fst c" using c(2) by (cases c) (auto simp: ev_key_def)
    ultimately show False using commit.hyps(2) e by fastforce
  qed
  have new: "set evs \<inter> set (hk_events st) = {}" using commit.hyps(4) inv by (auto simp: hook_inv_def)
  show ?case
    using inv ahead new commit.hyps(3,4) unfolding hook_inv_def by (auto simp: distinct_map)
next
  case (step st b all sent st')
  have inj: "inj_on ev_id (set (hk_events st))"
    using step.IH by (auto simp: hook_inv_def distinct_map intro: inj_on_subset)
  obtain q where "hk_cursor st' = hk_cursor st" "hk_events st' = filter q (hk_events st)"
    "\<forall>e \<in> set (hk_events st). e \<notin> set (hk_events st') \<longrightarrow> behind (hk_cursor st) e"
    using hook_step_events [OF step.hyps(2) inj] by blast
  then show ?case using step.IH unfolding hook_inv_def by auto
next
  case (dispatched st b all sent xmin now fresh n st')
  then show ?case by (intro dispatch_inv)
qed

text \<open>
  C7. Whatever commits, is delivered, retried or pruned between the calls of \<^verbatim>\<open>Dispatch\<close>: the events that have
  been dispatched are those up to the cursor, each of them once and in the order of commit, and a call that
  takes fewer events than its batch leaves no event behind that committed before every running transaction.
\<close>

theorem dispatch_once:
  assumes "hook_run url_ok cfg st b all sent"
  shows "sent = sort_key ev_key (filter (behind (hk_cursor st)) all) \<and> distinct (map ev_id sent) \<and>
    (\<forall>xmin n. length (nextEvents st xmin n) < n \<longrightarrow>
       (\<forall>e \<in> set all. ev_xid e < xmin \<longrightarrow> e \<in> set (sent @ nextEvents st xmin n)))"
proof -
  have inv: "hook_inv st b all sent" by (rule hook_run_inv [OF assms])
  then have srt: "sorted_wrt (\<lambda>e f. ev_key e < ev_key f) sent" and set: "set sent = {e \<in> set all. behind (hk_cursor st) e}"
    and all: "distinct (map ev_id all)" by (simp_all add: hook_inv_def)
  have inj: "inj_on ev_key (set all)" using all by (auto simp: distinct_map inj_on_def ev_key_def)
  let ?F = "filter (behind (hk_cursor st)) all"
  have "distinct (map ev_key (sort_key ev_key ?F))"
    using inj all by (auto simp: distinct_map intro: inj_on_subset)
  then have "sorted_wrt (\<lambda>e f. ev_key e < ev_key f) (sort_key ev_key ?F)" by (intro sorted_strict) simp_all
  then have 1: "sent = sort_key ev_key ?F" by (rule sorted_unique [OF srt]) (use set in auto)
  have "distinct (map ev_key sent)" using srt by (metis sorted_wrt_map strict_sorted_iff)
  then have 2: "distinct (map ev_id sent)" using all set by (auto simp: distinct_map inj_on_def)
  have 3: "e \<in> set (sent @ nextEvents st xmin n)"
    if e: "length (nextEvents st xmin n) < n" "e \<in> set all" "ev_xid e < xmin" for xmin n e
  proof (cases "behind (hk_cursor st) e")
    case True
    then show ?thesis using set e(2) by simp
  next
    case False
    then have "e \<in> set (hk_events st)" using inv e(2) by (auto simp: hook_inv_def)
    then show ?thesis using nextEvents_all [OF e(1) _ e(3) False] by simp
  qed
  show ?thesis using 1 2 3 by blast
qed

section \<open>Deliveries\<close>

lemma insert_deliveries_keep:
  "\<exists>new. insert_deliveries now fresh k ps ds = ds @ new \<and> list_all delivery_check new"
proof (induction ps arbitrary: k ds)
  case (Cons p ps)
  have "delivery_check (new_delivery now (fresh k) p)" by (simp add: delivery_check_def new_delivery_def)
  then show ?case
    using Cons.IH [of "Suc k" "ds @ [new_delivery now (fresh k) p]"] Cons.IH [of "Suc k" ds] by (auto simp: Let_def)
qed simp

lemma dispatch_deliveries:
  "dispatch cfg st xmin locked now fresh = (n, st') \<Longrightarrow>
    \<exists>new. hk_deliveries st' = hk_deliveries st @ new \<and> list_all delivery_check new"
  using insert_deliveries_keep [of now fresh 0 "delivery_pairs (hk_endpoints st) (nextEvents st xmin (nat (cf_batch cfg)))" "hk_deliveries st"]
  by (auto simp: dispatch_def insertDeliveries_def Let_def split: if_splits)

lemma update_delivery_deliveries:
  "hk_deliveries (update_delivery i f st) =
    (if list_all (\<lambda>d. delivery_check (f d)) (filter (\<lambda>d. dl_id d = i) (hk_deliveries st))
     then update_rows (\<lambda>d. dl_id d = i) f (hk_deliveries st) else hk_deliveries st)"
  by (simp add: update_delivery_def)

lemma update_delivery_check:
  "list_all delivery_check (hk_deliveries st) \<Longrightarrow> list_all delivery_check (hk_deliveries (update_delivery i f st))"
  by (auto simp: update_delivery_deliveries update_rows_def list_all_iff)

lemma send_check:
  "list_all delivery_check (hk_deliveries st) \<Longrightarrow> list_all delivery_check (hk_deliveries (send cfg now c a st))"
  by (auto simp: send_def Let_def update_delivery_check split: prod.splits option.splits)

lemma update_rows_check:
  "list_all delivery_check ds \<Longrightarrow> (\<And>d. delivery_check d \<Longrightarrow> q d \<Longrightarrow> delivery_check (f d)) \<Longrightarrow>
    list_all delivery_check (update_rows q f ds)"
  by (auto simp: update_rows_def list_all_iff)

lemma filter_check: "list_all delivery_check ds \<Longrightarrow> list_all delivery_check (filter q ds)"
  by (auto simp: list_all_iff)

lemma hook_step_check:
  assumes "hook_step url_ok cfg st st'" and c: "list_all delivery_check (hk_deliveries st)"
  shows "list_all delivery_check (hk_deliveries st')"
  using assms(1)
proof cases
  case (create now newid secret i e)
  then show ?thesis using c by (auto simp: createEndpoint_def Let_def)
next
  case (update i u e)
  then show ?thesis using c by (auto simp: updateEndpoint_def Let_def split: option.splits)
next
  case (delete i)
  then show ?thesis using filter_check [OF c] by (auto simp: deleteEndpoint_def split: if_splits)
next
  case (claims now skip cs)
  then show ?thesis using update_rows_check [OF c] by (auto simp: claim_due_def Let_def delivery_check_def)
next
  case (sends now c' a)
  then show ?thesis using send_check [OF c] by simp
next
  case (retry now i r)
  then have st': "hk_deliveries st' = update_rows (\<lambda>d. dl_id d = i \<and> dl_status d \<noteq> DeliverySucceeded)
      (\<lambda>d. d\<lparr>dl_status := DeliveryPending, dl_next := now\<rparr>) (hk_deliveries st)"
    by (auto simp: retryDelivery_def Let_def)
  show ?thesis unfolding st' by (rule update_rows_check [OF c]) (simp add: delivery_check_def)
next
  case (prune cutoff skip n)
  then show ?thesis using filter_check [OF c] by (auto simp: prune_batch_def Let_def)
qed

lemma hook_run_check: "hook_run url_ok cfg st b all sent \<Longrightarrow> list_all delivery_check (hk_deliveries st)"
proof (induction rule: hook_run.induct)
  case (step st b all sent st')
  show ?case by (rule hook_step_check [OF step.hyps(2) step.IH])
next
  case (dispatched st b all sent xmin now fresh n st')
  obtain new where "hk_deliveries st' = hk_deliveries st @ new" "list_all delivery_check new"
    using dispatch_deliveries [OF dispatched.hyps(3)] by blast
  then show ?case using dispatched.IH by simp
qed simp_all

text \<open>What stays of a delivery that succeeded.\<close>

definition delivered :: "delivery \<Rightarrow> delivery list \<Rightarrow> bool" where
  "delivered d ds \<longleftrightarrow>
     (\<exists>d' \<in> set ds. dl_id d' = dl_id d \<and> dl_endpoint d' = dl_endpoint d \<and> dl_event d' = dl_event d \<and>
        dl_status d' = DeliverySucceeded)"

lemma delivered_by:
  "d' \<in> set ds \<Longrightarrow> dl_id d' = dl_id d \<Longrightarrow> dl_endpoint d' = dl_endpoint d \<Longrightarrow> dl_event d' = dl_event d \<Longrightarrow>
    dl_status d' = DeliverySucceeded \<Longrightarrow> delivered d ds"
  unfolding delivered_def by blast

lemma update_delivery_delivered:
  assumes "d \<in> set (hk_deliveries st)" "dl_status d = DeliverySucceeded"
    and "dl_id (f d) = dl_id d \<and> dl_endpoint (f d) = dl_endpoint d \<and> dl_event (f d) = dl_event d"
    and "dl_status (f d) = DeliverySucceeded \<or> \<not> delivery_check (f d)"
  shows "delivered d (hk_deliveries (update_delivery i f st))"
proof (cases "list_all (\<lambda>d. delivery_check (f d)) (filter (\<lambda>d. dl_id d = i) (hk_deliveries st))")
  case True
  let ?d = "if dl_id d = i then f d else d"
  have "?d \<in> set (update_rows (\<lambda>d. dl_id d = i) f (hk_deliveries st))" using assms(1) by (auto simp: update_rows_def)
  moreover have "dl_status ?d = DeliverySucceeded" using True assms by (auto simp: list_all_iff)
  ultimately show ?thesis
    using True assms(3) by (intro delivered_by [of ?d]) (simp_all add: update_delivery_deliveries)
next
  case False
  then show ?thesis using assms(1,2) by (intro delivered_by [of d]) (simp_all add: update_delivery_deliveries)
qed

lemma send_delivered:
  assumes d: "d \<in> set (hk_deliveries st)" "dl_status d = DeliverySucceeded" "delivery_check d"
  shows "delivered d (hk_deliveries (send cfg now c a st))"
  unfolding send_def Let_def
  using d(3) by (auto split: prod.splits option.splits intro!: update_delivery_delivered [OF d(1,2)]
      simp: d(2) delivery_check_def)

text \<open>
  C21. A delivery that succeeded stays succeeded through every step, also when a worker whose lease has run out
  records a failure of its own attempt later; it goes only with its endpoint, or with its event.
\<close>

theorem delivery_final:
  assumes "hook_run url_ok cfg st b all sent" "d \<in> set (hk_deliveries st)" "dl_status d = DeliverySucceeded"
    and "hook_step url_ok cfg st st' \<or> dispatch cfg st xmin locked now fresh = (n, st')"
  shows "delivered d (hk_deliveries st') \<or> dl_endpoint d \<notin> ep_id ` set (hk_endpoints st') \<or>
    dl_event d \<notin> ev_id ` set (hk_events st')"
  using assms(4)
proof
  assume "dispatch cfg st xmin locked now fresh = (n, st')"
  then obtain new where "hk_deliveries st' = hk_deliveries st @ new" using dispatch_deliveries by blast
  then show ?thesis using assms(2,3) delivered_by [of d "hk_deliveries st'"] by simp
next
  assume "hook_step url_ok cfg st st'"
  then show ?thesis
  proof cases
    case (sends now c a)
    have "delivery_check d" using hook_run_check [OF assms(1)] assms(2) by (simp add: list_all_iff)
    from send_delivered [OF assms(2,3) this] show ?thesis using sends by simp
  next
    case (retry now i r)
    then have "d \<in> set (hk_deliveries st')"
      using assms(2,3) by (force simp: retryDelivery_def Let_def update_rows_def)
    then show ?thesis using assms(3) delivered_by [of d "hk_deliveries st'"] by simp
  next
    case (claims now skip cs)
    let ?f = "\<lambda>d. d\<lparr>dl_next := now + cf_lease cfg\<rparr>"
    obtain q where "hk_deliveries st' = update_rows q ?f (hk_deliveries st)"
      using claims by (auto simp: claim_due_def Let_def)
    then have "(if q d then ?f d else d) \<in> set (hk_deliveries st')" using assms(2) by (auto simp: update_rows_def)
    then have "delivered d (hk_deliveries st')" by (rule delivered_by) (use assms(3) in auto)
    then show ?thesis ..
  next
    case (prune cutoff skip n)
    show ?thesis
    proof (cases "d \<in> set (hk_deliveries st')")
      case True
      then show ?thesis using assms(3) delivered_by [of d "hk_deliveries st'"] by simp
    next
      case False
      then show ?thesis using prune assms(2) by (auto simp: prune_batch_def Let_def)
    qed
  next
    case (delete i)
    show ?thesis
    proof (cases "d \<in> set (hk_deliveries st')")
      case True
      then show ?thesis using assms(3) delivered_by [of d "hk_deliveries st'"] by simp
    next
      case False
      then show ?thesis using delete assms(2) by (auto simp: deleteEndpoint_def split: if_splits)
    qed
  next
    case (create now newid secret i e)
    then have "hk_deliveries st' = hk_deliveries st" by (auto simp: createEndpoint_def Let_def)
    then show ?thesis using assms(2,3) delivered_by [of d "hk_deliveries st'"] by simp
  next
    case (update i u e)
    then have "hk_deliveries st' = hk_deliveries st" by (auto simp: updateEndpoint_def Let_def split: option.splits)
    then show ?thesis using assms(2,3) delivered_by [of d "hk_deliveries st'"] by simp
  qed
qed

lemma insert_deliveries_all:
  assumes "inj fresh" "\<forall>d \<in> set ds. dl_id d \<notin> fresh ` {k..}" "distinct (map (\<lambda>d. (dl_endpoint d, dl_event d)) ds)"
  shows "distinct (map (\<lambda>d. (dl_endpoint d, dl_event d)) (insert_deliveries now fresh k ps ds)) \<and>
    set ps \<subseteq> (\<lambda>d. (dl_endpoint d, dl_event d)) ` set (insert_deliveries now fresh k ps ds)"
  using assms(2,3)
proof (induction ps arbitrary: k ds)
  case (Cons p ps)
  let ?n = "new_delivery now (fresh k) p"
  let ?ds = "if delivery_clash ?n ds then ds else ds @ [?n]"
  have n: "dl_id ?n = fresh k" "(dl_endpoint ?n, dl_event ?n) = p" by (simp_all add: new_delivery_def)
  have "fresh k \<notin> fresh ` {Suc k..}" using assms(1) by (simp add: inj_image_mem_iff)
  moreover have "fresh ` {Suc k..} \<subseteq> fresh ` {k..}" by (rule image_mono) auto
  ultimately have ids: "\<forall>d \<in> set ?ds. dl_id d \<notin> fresh ` {Suc k..}" using Cons.prems(1) n(1) by (simp split: if_splits) blast
  have clash: "delivery_clash ?n ds \<longleftrightarrow> p \<in> (\<lambda>d. (dl_endpoint d, dl_event d)) ` set ds"
  proof -
    have "dl_id d \<noteq> fresh k" if "d \<in> set ds" for d using Cons.prems(1) that by auto
    then have "delivery_clash ?n ds \<longleftrightarrow> (\<exists>d \<in> set ds. dl_endpoint d = fst p \<and> dl_event d = snd p)"
      unfolding delivery_clash_def list_ex_iff by (auto simp: new_delivery_def)
    then show ?thesis by (force simp: image_iff)
  qed
  have d: "distinct (map (\<lambda>d. (dl_endpoint d, dl_event d)) ?ds)" using Cons.prems(2) n(2) clash by simp
  have p: "p \<in> (\<lambda>d. (dl_endpoint d, dl_event d)) ` set ?ds"
  proof (cases "delivery_clash ?n ds")
    case False
    then have "?n \<in> set ?ds" by simp
    then show ?thesis using n(2) by (intro image_eqI [of _ _ ?n]) simp_all
  qed (use clash in simp)
  obtain new where new: "insert_deliveries now fresh (Suc k) ps ?ds = ?ds @ new"
    using insert_deliveries_keep by blast
  have "p \<in> (\<lambda>d. (dl_endpoint d, dl_event d)) ` set (?ds @ new)" using p by auto
  then show ?case using Cons.IH [OF ids d] unfolding new insert_deliveries.simps(2) Let_def by simp
qed simp

text \<open>
  C26. A call that takes events leaves exactly one delivery of each of them to each endpoint that is enabled and
  subscribed to its type.
\<close>

theorem dispatch_delivers:
  assumes "dispatch cfg st xmin True now fresh = (n, st')" "inj fresh"
    and "range fresh \<inter> dl_id ` set (hk_deliveries st) = {}"
    and "distinct (map (\<lambda>d. (dl_endpoint d, dl_event d)) (hk_deliveries st))"
    and "e \<in> set (nextEvents st xmin (nat (cf_batch cfg)))" "p \<in> set (hk_endpoints st)"
    and "ep_enabled p" "subscribed (ep_types p) (ev_type e)"
  shows "length (filter (\<lambda>d. dl_endpoint d = ep_id p \<and> dl_event d = ev_id e) (hk_deliveries st')) = 1"
proof -
  let ?batch = "nextEvents st xmin (nat (cf_batch cfg))"
  let ?pair = "\<lambda>d. (dl_endpoint d, dl_event d)"
  have ds: "hk_deliveries st' = insert_deliveries now fresh 0 (delivery_pairs (hk_endpoints st) ?batch) (hk_deliveries st)"
    using assms(1,5) by (auto simp: dispatch_def insertDeliveries_def Let_def split: if_splits)
  have "\<forall>d \<in> set (hk_deliveries st). dl_id d \<notin> fresh ` {0..}" using assms(3) by auto
  from insert_deliveries_all [OF assms(2) this assms(4)]
  have all: "distinct (map ?pair (hk_deliveries st'))" "set (delivery_pairs (hk_endpoints st) ?batch) \<subseteq> ?pair ` set (hk_deliveries st')"
    unfolding ds by blast+
  have "(ep_id p, ev_id e) \<in> set (delivery_pairs (hk_endpoints st) ?batch)"
    using assms(5-8) by (auto simp: delivery_pairs_def)
  then obtain d where d: "d \<in> set (hk_deliveries st')" "?pair d = (ep_id p, ev_id e)" using all(2) by fastforce
  from distinct_filter_one [OF all(1) d(1)] d(2) show ?thesis by simp
qed

section \<open>Pruning\<close>

lemma prune_batch_shrinks:
  assumes "prune_batch cfg st cutoff skip = (n, st')" "0 < n"
  shows "length (hk_events st') < length (hk_events st)"
proof -
  let ?found = "filter (prunable st cutoff skip) (hk_events st)"
  let ?ids = "take (nat (cf_pruneBatch cfg)) (map ev_id (sort_key ev_id ?found))"
  have st': "n = length ?ids" "hk_events st' = filter (\<lambda>e. ev_id e \<notin> set ?ids) (hk_events st)"
    using assms(1) by (auto simp: prune_batch_def Let_def)
  then obtain i where i: "i \<in> set ?ids" using assms(2) by (cases ?ids) auto
  then have "i \<in> set (map ev_id (sort_key ev_id ?found))" by (rule in_set_takeD)
  then obtain e where e: "e \<in> set (hk_events st)" "ev_id e \<in> set ?ids" using i by auto
  then show ?thesis unfolding st'(2) by (intro length_filter_less) auto
qed

text \<open>Deliveries of an event stay as long as the event.\<close>

definition waits_for :: "hooks \<Rightarrow> hook_event \<Rightarrow> bool" where
  "waits_for st e \<longleftrightarrow> list_ex (\<lambda>d. dl_event d = ev_id e \<and> dl_status d = DeliveryPending) (hk_deliveries st)"

lemma prune_batch_waits:
  assumes "prune_batch cfg st cutoff skip = (n, st')" "e \<in> set (hk_events st')"
  shows "waits_for st' e = waits_for st e"
  using assms by (auto simp: prune_batch_def Let_def waits_for_def list_ex_iff)

lemma prune_rounds_end:
  assumes "0 < cf_pruneBatch cfg"
  shows "inj_on ev_id (set (hk_events st)) \<Longrightarrow> \<exists>n st'. prune_rounds cfg cutoff skip k removed st = Some (n, st') \<and>
    hk_cursor st' = hk_cursor st \<and> (\<forall>e \<in> set (hk_events st). e \<notin> set (hk_events st') \<longrightarrow>
      behind (hk_cursor st) e \<and> ev_id e < cutoff \<and> \<not> waits_for st e)"
proof (induction "length (hk_events st)" arbitrary: st k removed rule: less_induct)
  case less
  obtain m st1 where pb: "prune_batch cfg st cutoff (skip k) = (m, st1)" by fastforce
  obtain q where st1: "hk_cursor st1 = hk_cursor st" "hk_events st1 = filter q (hk_events st)"
    using prune_batch_removes(1,2) [OF less.prems pb] by blast
  have gone: "behind (hk_cursor st) e \<and> ev_id e < cutoff \<and> \<not> waits_for st e"
    if "e \<in> set (hk_events st)" "e \<notin> set (hk_events st1)" for e
    using prune_batch_removes(3) [OF less.prems pb that]
    by (auto simp: prunable_def behind_def waits_for_def split: option.splits)
  show ?case
  proof (cases "int m < cf_pruneBatch cfg")
    case True
    then have "prune_rounds cfg cutoff skip k removed st = Some (removed + m, st1)"
      by (subst prune_rounds.simps) (simp add: pb)
    then show ?thesis using gone st1(1) by blast
  next
    case False
    then have "length (hk_events st1) < length (hk_events st)" using prune_batch_shrinks [OF pb] assms by simp
    moreover have "inj_on ev_id (set (hk_events st1))" using less.prems st1(2) by (auto intro: inj_on_subset)
    ultimately obtain n st' where rest: "prune_rounds cfg cutoff skip (Suc k) (removed + m) st1 = Some (n, st')"
      "hk_cursor st' = hk_cursor st1" "\<forall>e \<in> set (hk_events st1). e \<notin> set (hk_events st') \<longrightarrow>
        behind (hk_cursor st1) e \<and> ev_id e < cutoff \<and> \<not> waits_for st1 e"
      using less.hyps by blast
    have "prune_rounds cfg cutoff skip k removed st = Some (n, st')"
      using False rest(1) by (subst prune_rounds.simps) (simp add: pb)
    moreover have "behind (hk_cursor st) e \<and> ev_id e < cutoff \<and> \<not> waits_for st e"
      if e: "e \<in> set (hk_events st)" "e \<notin> set (hk_events st')" for e
    proof (cases "e \<in> set (hk_events st1)")
      case True
      then show ?thesis using rest(3) e(2) prune_batch_waits [OF pb True] st1(1) by simp
    qed (use gone e in blast)
    ultimately show ?thesis using rest(2) st1(1) by auto
  qed
qed

text \<open>
  C22. Pruning ends, and an event that it removes has been dispatched, is older than the retention, and has no
  delivery that is still to be made.
\<close>

theorem prune_safe:
  assumes "hook_run url_ok cfg st b all sent" "0 < cf_pruneBatch cfg"
  shows "\<exists>n st'. prune_events cfg st now skip = Some (n, st') \<and>
    (\<forall>e \<in> set (hk_events st) - set (hk_events st'). e \<in> set sent \<and> ev_id e < idAt (now - cf_retention cfg) \<and>
       (\<forall>d \<in> set (hk_deliveries st). dl_event d = ev_id e \<longrightarrow> dl_status d \<noteq> DeliveryPending))"
proof -
  have inv: "hook_inv st b all sent" by (rule hook_run_inv [OF assms(1)])
  then have "inj_on ev_id (set (hk_events st))" by (auto simp: hook_inv_def distinct_map intro: inj_on_subset)
  from prune_rounds_end [OF assms(2) this, of "idAt (now - cf_retention cfg)" skip 0 0]
  obtain n st' where r: "prune_events cfg st now skip = Some (n, st')"
    "\<forall>e \<in> set (hk_events st). e \<notin> set (hk_events st') \<longrightarrow>
      behind (hk_cursor st) e \<and> ev_id e < idAt (now - cf_retention cfg) \<and> \<not> waits_for st e"
    unfolding prune_events_def by blast
  have "e \<in> set sent" if "e \<in> set (hk_events st)" "behind (hk_cursor st) e" for e
    using inv that by (auto simp: hook_inv_def)
  then show ?thesis using r by (auto simp: waits_for_def list_ex_iff)
qed

section \<open>Signatures\<close>

lemma split_at_plain: "x \<notin> set s \<Longrightarrow> split_at x s = [s]"
  by (induction s) auto

lemma split_at_append: "x \<notin> set s \<Longrightarrow> split_at x (s @ x # t) = s # split_at x t"
  by (induction s) auto

lemma cut_at_append: "x \<notin> set s \<Longrightarrow> cut_at x (s @ x # t) = (s, t)"
  by (induction s) auto

lemma digit_chars: "isDigit c \<Longrightarrow> c \<noteq> CHR '','' \<and> c \<noteq> CHR ''='' \<and> c \<noteq> CHR ''-'' \<and> c \<noteq> CHR ''+''"
  by (auto simp: isDigit_def code_def)

lemma showNat_chars: "c \<in> set (showNat n) \<Longrightarrow> isDigit c"
  using showNat_digits [of n] by (simp add: list_all_iff)

lemma digits_no_comma: "list_all isDigit s \<Longrightarrow> CHR '','' \<notin> set s"
  using digit_chars by (auto simp: list_all_iff)

lemma showInt_no_comma: "CHR '','' \<notin> set (showInt n)"
  using digits_no_comma [OF showNat_digits] by (simp add: showInt_def)

lemma hex_digits: "list_all (\<lambda>n. hex_digit n \<noteq> CHR '','') [0..<16]"
  by code_simp

lemma hex_text_no_comma: "CHR '','' \<notin> set (hex_text bs)"
proof -
  have low: "hex_digit n \<noteq> CHR '',''" if "n < 16" for n using hex_digits that by (simp add: list_all_iff del: upt_rec)
  have "code b div 16 < 16" for b by (rule less_mult_imp_div_less) (simp add: code_def)
  then have "hex_digit (code b div 16) \<noteq> CHR '',''" "hex_digit (code b mod 16) \<noteq> CHR '',''" for b
    using low by simp_all
  note h = this [THEN not_sym]
  show ?thesis using h by (simp add: hex_text_def)
qed

lemma parseInt64_showInt: "- (2 ^ 63) \<le> n \<Longrightarrow> n < 2 ^ 63 \<Longrightarrow> parseInt64 (showInt n) = Some n"
proof -
  assume n: "- (2 ^ 63) \<le> n" "n < 2 ^ 63"
  have "hd (showNat m) \<notin> {CHR ''-'', CHR ''+''}" for m
    using digit_chars showNat_chars [of "hd (showNat m)" m] hd_in_set [OF showNat_nonempty] by blast
  then show ?thesis using n by (auto simp: parseInt64_def showInt_def Let_def)
qed

lemma parseInt64_no_comma: "parseInt64 s = Some n \<Longrightarrow> CHR '','' \<notin> set s \<and> - (2 ^ 63) \<le> n \<and> n < 2 ^ 63"
  using digit_chars [of "CHR '',''"]
  by (cases s) (auto simp: parseInt64_def Let_def dest: digits_no_comma split: if_splits)

lemma header_part_Sign:
  "header_part (Sign mac secret t body) ''t'' = showInt (unix_seconds t)"
  "header_part (Sign mac secret t body) ''v1'' = hex_text (mac secret (showInt (unix_seconds t) @ ''.'' @ body))"
proof -
  let ?ts = "showInt (unix_seconds t)"
  let ?sig = "hex_text (mac secret (?ts @ ''.'' @ body))"
  have "Sign mac secret t body = (''t='' @ ?ts) @ CHR '','' # (''v1='' @ ?sig)" by (simp add: Sign_def Let_def)
  moreover have "split_at (CHR '','') ((''t='' @ ?ts) @ CHR '','' # (''v1='' @ ?sig)) = [''t='' @ ?ts, ''v1='' @ ?sig]"
  proof -
    have "CHR '','' \<notin> set (''t='' @ ?ts)" "CHR '','' \<notin> set (''v1='' @ ?sig)"
      using showInt_no_comma hex_text_no_comma by simp_all
    from split_at_append [OF this(1)] split_at_plain [OF this(2)] show ?thesis by simp
  qed
  ultimately have "map (cut_at (CHR ''='')) (split_at (CHR '','') (Sign mac secret t body)) =
      [(''t'', ?ts), (''v1'', ?sig)]"
    by simp
  then show "header_part (Sign mac secret t body) ''t'' = ?ts" "header_part (Sign mac secret t body) ''v1'' = ?sig"
    by (simp_all add: header_part_def del: map_eq_Cons_conv)
qed

lemma unix_seconds_time [simp]: "unix_seconds (unix_time s) = s"
  by (simp add: unix_seconds_def unix_time_def)

text \<open>The parts of a header are those of a signature only if they are its own parts.\<close>

lemma comma_split:
  assumes "CHR '','' \<notin> set a" "CHR '','' \<notin> set b"
  shows "a @ CHR '','' # r = b @ CHR '','' # q \<longleftrightarrow> a = b \<and> r = q"
proof
  assume e: "a @ CHR '','' # r = b @ CHR '','' # q"
  have "(a, r) = (b, q)"
    using cut_at_append [OF assms(1), of r] cut_at_append [OF assms(2), of q] unfolding e by simp
  then show "a = b \<and> r = q" by simp
qed simp

lemma Sign_eq:
  assumes "CHR '','' \<notin> set ts"
  shows "Sign mac secret (unix_time u) body = ''t='' @ ts @ '',v1='' @ sig \<longleftrightarrow>
    ts = showInt u \<and> sig = hex_text (mac secret (showInt u @ ''.'' @ body))"
proof -
  show ?thesis using comma_split [OF showInt_no_comma [of u] assms] by (auto simp: Sign_def Let_def)
qed

text \<open>
  C23. A header verifies exactly when its time, written as a signature has it, is within the tolerance, and its
  signature is that of the secret over that time and the body. So what \<^verbatim>\<open>Sign\<close> writes verifies exactly as long
  as its time is within the tolerance.
\<close>

theorem verify_exact:
  "(Verify mac secret header body now tolerance \<longleftrightarrow>
     (\<exists>s. - (2 ^ 63) \<le> s \<and> s < 2 ^ 63 \<and> time_apart now (unix_time s) \<le> tolerance \<and>
        header_part header ''t'' = showInt s \<and>
        header_part header ''v1'' = hex_text (mac secret (showInt s @ ''.'' @ body)))) \<and>
   (Verify mac secret (Sign mac secret t body) body now tolerance \<longleftrightarrow>
     - (2 ^ 63) \<le> unix_seconds t \<and> unix_seconds t < 2 ^ 63 \<and> time_apart now (unix_time (unix_seconds t)) \<le> tolerance)"
proof -
  have exact: "Verify mac secret header body now tolerance \<longleftrightarrow>
     (\<exists>s. - (2 ^ 63) \<le> s \<and> s < 2 ^ 63 \<and> time_apart now (unix_time s) \<le> tolerance \<and>
        header_part header ''t'' = showInt s \<and>
        header_part header ''v1'' = hex_text (mac secret (showInt s @ ''.'' @ body)))" (is "?l = ?r") for header
  proof
    let ?ts = "header_part header ''t''" and ?sig = "header_part header ''v1''"
    assume ?l
    then obtain u where u: "parseInt64 ?ts = Some u" "time_apart now (unix_time u) \<le> tolerance"
      "Sign mac secret (unix_time u) body = ''t='' @ ?ts @ '',v1='' @ ?sig"
      by (auto simp: Verify_def Let_def split: option.splits if_splits)
    note c = parseInt64_no_comma [OF u(1)]
    then show ?r using u(2,3) Sign_eq [of ?ts] by auto
  next
    let ?ts = "header_part header ''t''" and ?sig = "header_part header ''v1''"
    assume ?r
    then obtain u where u: "- (2 ^ 63) \<le> u" "u < 2 ^ 63" "time_apart now (unix_time u) \<le> tolerance" "?ts = showInt u"
      "?sig = hex_text (mac secret (showInt u @ ''.'' @ body))" by blast
    have "Sign mac secret (unix_time u) body = ''t='' @ ?ts @ '',v1='' @ ?sig"
      using Sign_eq [OF showInt_no_comma] u(4,5) by simp
    then show ?l using u(3) parseInt64_showInt [OF u(1,2)] by (simp add: Verify_def Let_def u(4))
  qed
  show ?thesis using exact exact [of "Sign mac secret t body"] unfolding header_part_Sign showInt_inject by blast
qed

section \<open>A small run\<close>

definition sample_hooks_cfg :: hooks_config where
  "sample_hooks_cfg = \<lparr>cf_poll = 1, cf_workers = 1, cf_batch = 10, cf_timeout = 10, cf_lease = 60, cf_retries = None,
     cf_retention = 1000, cf_pruneInterval = 1, cf_pruneBatch = 10\<rparr>"

definition sample_event :: "uuid \<Rightarrow> nat \<Rightarrow> hook_event" where
  "sample_event i x = \<lparr>ev_id = i, ev_type = ''transaction.posted'', ev_data = ''{}'', ev_createdAt = 1000, ev_xid = x\<rparr>"

definition sample_endpoint :: endpointInput where
  "sample_endpoint = \<lparr>ei_url = ''https://a.io'', ei_description = [], ei_types = [''transaction.*''], ei_enabled = None\<rparr>"

definition sample_hooks :: "hook_event list \<Rightarrow> hooks" where
  "sample_hooks evs = \<lparr>hk_events = evs, hk_cursor = None, hk_endpoints =
     [\<lparr>ep_id = 1, ep_url = ''https://a.io'', ep_secret = ''whsec_s'', ep_description = [], ep_types = [''transaction.*''],
       ep_enabled = True, ep_version = 0, ep_createdAt = 900\<rparr>], hk_deliveries = []\<rparr>"

definition sample_dispatched :: hooks where
  "sample_dispatched = (sample_hooks [sample_event 11 5, sample_event 12 7])\<lparr>hk_cursor := Some (5, 11),
     hk_deliveries := [new_delivery 2000 501 (1, 11)]\<rparr>"

lemma sample_endpoint_valid: "validateEndpoint (\<lambda>u. True) ''https://a.io'' [] [''transaction.*''] = ok"
proof -
  have "event_type_ok ''transaction.*''" by code_simp
  then show ?thesis by (simp add: validateEndpoint_def maxURLLen_def maxDescriptionLen_def maxEventTypes_def)
qed

lemma sample_next:
  "nextEvents (sample_hooks [sample_event 11 5, sample_event 12 7]) 6 10 = [sample_event 11 5]"
  by (simp add: nextEvents_def sample_hooks_def sample_event_def ev_key_def)

lemma sample_subscribed: "subscribed [''transaction.*''] ''transaction.posted''"
  by code_simp

lemma sample_dispatches:
  "dispatch sample_hooks_cfg (sample_hooks [sample_event 11 5, sample_event 12 7]) 6 True 2000 (\<lambda>k. 501 + k) = (1, sample_dispatched)"
  using sample_subscribed
  by (simp add: dispatch_def sample_hooks_cfg_def sample_next insertDeliveries_def delivery_pairs_def Let_def
      sample_dispatched_def ev_key_def) (simp add: sample_hooks_def sample_event_def delivery_clash_def Let_def)

lemma sample_hook_run:
  "hook_run (\<lambda>u. True) sample_hooks_cfg sample_dispatched 6 [sample_event 11 5, sample_event 12 7] [sample_event 11 5]"
proof -
  let ?run = "hook_run (\<lambda>u. True) sample_hooks_cfg"
  let ?empty = "\<lparr>hk_events = [], hk_cursor = None, hk_endpoints = [], hk_deliveries = []\<rparr>"
  have "createEndpoint (\<lambda>u. True) ?empty 900 1 ''s'' sample_endpoint = Inr (hd (hk_endpoints (sample_hooks [])), sample_hooks [])"
    using sample_endpoint_valid by (simp add: createEndpoint_def sample_endpoint_def sample_hooks_def Let_def)
  from hook_run.step [OF hook_run.start hook_step.create [OF this]]
  have "?run (sample_hooks []) 0 [] []" .
  from hook_run.commit [OF this, of "[sample_event 11 5, sample_event 12 7]"]
  have "?run (sample_hooks [sample_event 11 5, sample_event 12 7]) 0 [sample_event 11 5, sample_event 12 7] []"
    by (simp add: sample_hooks_def sample_event_def)
  from hook_run.dispatched [OF this _ sample_dispatches] show ?thesis
    by (simp add: sample_hooks_cfg_def sample_next)
qed

lemma dispatch_once_witness:
  "hook_run (\<lambda>u. True) sample_hooks_cfg sample_dispatched 6 [sample_event 11 5, sample_event 12 7] [sample_event 11 5] \<and>
   [sample_event 11 5] = sort_key ev_key (filter (behind (hk_cursor sample_dispatched)) [sample_event 11 5, sample_event 12 7])"
  using sample_hook_run dispatch_once [OF sample_hook_run] by blast

lemma dispatch_delivers_witness:
  "length (filter (\<lambda>d. dl_endpoint d = 1 \<and> dl_event d = 11) (hk_deliveries sample_dispatched)) = 1"
  using dispatch_delivers [OF sample_dispatches, of "sample_event 11 5" "hd (hk_endpoints (sample_hooks []))"] sample_subscribed sample_next
  by (simp add: sample_hooks_def sample_hooks_cfg_def sample_event_def inj_def)

text \<open>The delivery is made; later another worker, whose lease ran out, records a failure.\<close>

definition sample_claim :: claimed where
  "sample_claim = \<lparr>cl_id = 501, cl_attempts = 0, cl_url = ''https://a.io'', cl_secret = ''whsec_s'', cl_event = sample_event 11 5\<rparr>"

definition sample_done :: hooks where
  "sample_done = send sample_hooks_cfg 3000 sample_claim (Responded 200) sample_dispatched"

lemma sample_done_run:
  "hook_run (\<lambda>u. True) sample_hooks_cfg sample_done 6 [sample_event 11 5, sample_event 12 7] [sample_event 11 5]"
  unfolding sample_done_def by (rule hook_run.step [OF sample_hook_run hook_step.sends])

lemma sample_done_deliveries:
  "hk_deliveries sample_done = [(new_delivery 2000 501 (1, 11))\<lparr>dl_status := DeliverySucceeded, dl_attempts := 1,
     dl_last := Some 3000, dl_code := Some 200, dl_deliveredAt := Some 3000\<rparr>]"
  "hk_endpoints sample_done = hk_endpoints (sample_hooks [])" "hk_events sample_done = [sample_event 11 5, sample_event 12 7]"
  by (simp_all add: sample_done_def send_def sample_claim_def update_delivery_def sample_dispatched_def update_rows_def
      delivery_check_def new_delivery_def sample_hooks_def)

lemma delivery_final_witness:
  "delivered (hd (hk_deliveries sample_done))
     (hk_deliveries (send sample_hooks_cfg 90000 sample_claim (NoResponse ''timeout'') sample_done))"
proof -
  let ?st = "send sample_hooks_cfg 90000 sample_claim (NoResponse ''timeout'') sample_done"
  have same: "hk_endpoints ?st = hk_endpoints sample_done" "hk_events ?st = hk_events sample_done"
    by (simp_all add: send_def update_delivery_def)
  have d: "hd (hk_deliveries sample_done) \<in> set (hk_deliveries sample_done)"
    "dl_status (hd (hk_deliveries sample_done)) = DeliverySucceeded"
    by (simp_all add: sample_done_deliveries)
  from delivery_final [OF sample_done_run d disjI1 [OF hook_step.sends
      [where now = 90000 and c = sample_claim and a = "NoResponse ''timeout''"]]] show ?thesis
    unfolding same by (auto simp: sample_done_deliveries new_delivery_def sample_hooks_def sample_event_def)
qed

lemma prune_safe_witness:
  "\<exists>n st'. prune_events sample_hooks_cfg sample_done (10 ^ 18) (\<lambda>k i. False) = Some (n, st')"
  using prune_safe [OF sample_done_run, of "10 ^ 18" "\<lambda>k i. False"] by (auto simp: sample_hooks_cfg_def)

end
