(* ===== verification/Idempotency.thy ===== *)
theory Idempotency
  imports Validate
begin

text \<open>
  \<^verbatim>\<open>internal/kernel/idempotency\<close>: the middleware that runs a request with an \<^verbatim>\<open>Idempotency-Key\<close> once, stores
  its response, and replays it. A request claims its key under a token of its own, the handler runs without
  any lock of the database, and the response is stored if the token still owns the key. \<open>sha\<close> is
  \<^verbatim>\<open>sha256\<close>; the handler is whatever puts a response into the recorder.
\<close>

section \<open>Rows and requests\<close>

text \<open>The column \<^verbatim>\<open>status\<close> is \<^verbatim>\<open>completed\<close> exactly if there is a response.\<close>

record stored_response =
  rs_status :: int
  rs_type :: "string option"
  rs_body :: string

record idem_row =
  ik_key :: string
  ik_hash :: string
  ik_token :: uuid
  ik_response :: "stored_response option"
  ik_lockedAt :: gotime
  ik_createdAt :: gotime
  ik_completedAt :: "gotime option"

record http_request =
  hr_method :: string
  hr_uri :: string
  hr_key :: string
  hr_body :: string

definition lockTimeout :: int where
  "lockTimeout = 60 * 10 ^ 9"

definition key_retention :: int where
  "key_retention = 24 * 3600 * 10 ^ 9"

definition maxKeyLen :: nat where
  "maxKeyLen = 255"

definition maxBodySize :: nat where
  "maxBodySize = 16 * 2 ^ 20"

definition mutating :: "string \<Rightarrow> bool" where
  "mutating m \<longleftrightarrow> m \<in> {''POST'', ''PUT'', ''PATCH'', ''DELETE''}"

definition requestHash :: "(string \<Rightarrow> string) \<Rightarrow> http_request \<Rightarrow> string" where
  "requestHash sha r = sha (hr_method r @ [CHR 0x00] @ hr_uri r @ [CHR 0x00] @ hr_body r)"

definition scoped_key :: "string \<Rightarrow> string \<Rightarrow> string" where
  "scoped_key scope key = (if scope \<noteq> [] then scope @ '':'' @ key else key)"

section \<open>Claiming a key\<close>

text \<open>\<^verbatim>\<open>INSERT ... ON CONFLICT (key) DO UPDATE ... WHERE ... RETURNING true\<close>\<close>

definition stale_claim :: "gotime \<Rightarrow> string \<Rightarrow> idem_row \<Rightarrow> bool" where
  "stale_claim now hash x \<longleftrightarrow> ik_response x = None \<and> ik_hash x = hash \<and> ik_lockedAt x < now - lockTimeout"

definition claim_key :: "idem_row list \<Rightarrow> gotime \<Rightarrow> string \<Rightarrow> string \<Rightarrow> uuid \<Rightarrow> bool \<times> idem_row list" where
  "claim_key rows now key hash token =
     (case row_by ik_key rows key of
        None \<Rightarrow> (True, rows @ [\<lparr>ik_key = key, ik_hash = hash, ik_token = token, ik_response = None, ik_lockedAt = now,
                              ik_createdAt = now, ik_completedAt = None\<rparr>])
      | Some x \<Rightarrow>
          if stale_claim now hash x
          then (True, update_rows (\<lambda>r. ik_key r = key) (\<lambda>r. r\<lparr>ik_lockedAt := now, ik_token := token\<rparr>) rows)
          else (False, rows))"

text \<open>The answer to a request whose key belongs to another one: a problem with its HTTP status and code, or the
  stored response, with \<^verbatim>\<open>Idempotent-Replayed: true\<close>.\<close>

datatype idem_answer =
    Problem int string
  | Replay stored_response

definition resolveExisting :: "idem_row list \<Rightarrow> string \<Rightarrow> string \<Rightarrow> idem_answer" where
  "resolveExisting rows key hash =
     (case row_by ik_key rows key of
        None \<Rightarrow> Problem 409 ''idempotency_key_in_use''
      | Some x \<Rightarrow>
          if ik_hash x \<noteq> hash then Problem 422 ''idempotency_key_reused''
          else case ik_response x of
                 None \<Rightarrow> Problem 409 ''idempotency_key_in_use''
               | Some r \<Rightarrow> Replay r)"

section \<open>The middleware\<close>

text \<open>Up to the handler: what happens to a request, and the rows. \<open>Claimed\<close> runs the handler under the key and
  the token, \<open>PassThrough\<close> runs it without any.\<close>

datatype idem_begin =
    PassThrough
  | Answered idem_answer
  | Claimed string string uuid

definition idem_begin_request ::
  "(string \<Rightarrow> string) \<Rightarrow> string \<Rightarrow> idem_row list \<Rightarrow> gotime \<Rightarrow> uuid \<Rightarrow> http_request \<Rightarrow> idem_begin \<times> idem_row list" where
  "idem_begin_request sha scope rows now token r =
     (if hr_key r = [] \<or> \<not> mutating (hr_method r) then (PassThrough, rows)
      else if length (hr_key r) > maxKeyLen then (Answered (Problem 400 ''invalid_request''), rows)
      else if \<not> valid_utf8 (map code (hr_key r)) then (Answered (Problem 400 ''invalid_request''), rows)
      else if length (hr_body r) > maxBodySize then (Answered (Problem 413 ''request_too_large''), rows)
      else let key = scoped_key scope (hr_key r); hash = requestHash sha r in
        case claim_key rows now key hash token of
          (True, rows') \<Rightarrow> (Claimed key hash token, rows')
        | (False, _) \<Rightarrow> (Answered (resolveExisting rows key hash), rows))"

text \<open>What the handler put into the recorder; the first status counts, and a body without one is a 200.\<close>

record response_recorder =
  rc_status :: int
  rc_wroteHeader :: bool
  rc_body :: string
  rc_type :: string
  rc_cacheControl :: string

definition new_recorder :: response_recorder where
  "new_recorder = \<lparr>rc_status = 200, rc_wroteHeader = False, rc_body = [], rc_type = [], rc_cacheControl = []\<rparr>"

definition writeHeader :: "int \<Rightarrow> response_recorder \<Rightarrow> response_recorder" where
  "writeHeader status r = (if rc_wroteHeader r then r else r\<lparr>rc_status := status, rc_wroteHeader := True\<rparr>)"

definition write_body :: "string \<Rightarrow> response_recorder \<Rightarrow> response_recorder" where
  "write_body b r = r\<lparr>rc_wroteHeader := True, rc_body := rc_body r @ b\<rparr>"

definition lower_char :: "char \<Rightarrow> char" where
  "lower_char c = (if 65 \<le> code c \<and> code c \<le> 90 then char_of (code c + 32) else c)"

fun contains_text :: "string \<Rightarrow> string \<Rightarrow> bool" where
  "contains_text [] p = (p = [])"
| "contains_text (c # s) p = (take (length p) (c # s) = p \<or> contains_text s p)"

definition no_store :: "response_recorder \<Rightarrow> bool" where
  "no_store r = contains_text (map lower_char (rc_cacheControl r)) ''no-store''"

text \<open>What is kept of a response; \<open>secret_problem\<close> is the JSON text of the problem that is shown instead of a
  response with a secret.\<close>

definition kept_response :: "string \<Rightarrow> response_recorder \<Rightarrow> stored_response" where
  "kept_response secret_problem r =
     (if no_store r
      then \<lparr>rs_status = 409, rs_type = Some ''application/problem+json'', rs_body = secret_problem @ [CHR 0x0A]\<rparr>
      else \<lparr>rs_status = rc_status r, rs_type = Some (rc_type r), rs_body = rc_body r\<rparr>)"

definition finish_request ::
  "idem_row list \<Rightarrow> gotime \<Rightarrow> string \<Rightarrow> string \<Rightarrow> uuid \<Rightarrow> response_recorder \<Rightarrow> idem_row list" where
  "finish_request rows now secret_problem key token r =
     (if rc_status r \<ge> 500 then filter (\<lambda>x. \<not> (ik_key x = key \<and> ik_token x = token)) rows
      else update_rows (\<lambda>x. ik_key x = key \<and> ik_token x = token \<and> ik_response x = None)
             (\<lambda>x. x\<lparr>ik_response := Some (kept_response secret_problem r), ik_completedAt := Some now\<rparr>) rows)"

text \<open>A handler that panics leaves a server error.\<close>

definition panicked :: "response_recorder \<Rightarrow> response_recorder" where
  "panicked r = r\<lparr>rc_status := 500\<rparr>"

definition prune_keys :: "idem_row list \<Rightarrow> gotime \<Rightarrow> idem_row list" where
  "prune_keys rows now = filter (\<lambda>x. \<not> (ik_response x \<noteq> None \<and> ik_createdAt x < now - key_retention)) rows"

section \<open>Many requests\<close>

record running_request =
  rn_key :: string
  rn_hash :: string
  rn_token :: uuid
  rn_start :: gotime

record idem_state =
  im_now :: gotime
  im_rows :: "idem_row list"
  im_running :: "running_request list"

text \<open>Requests in any order while time passes. A process can stop while a handler runs, which loses the
  request; tokens are random and do not repeat.\<close>

inductive idem_step :: "(string \<Rightarrow> string) \<Rightarrow> idem_state \<Rightarrow> idem_state \<Rightarrow> bool" for sha where
  pass: "im_now st \<le> now \<Longrightarrow> idem_step sha st (st\<lparr>im_now := now\<rparr>)"
| arrive: "idem_begin_request sha scope (im_rows st) (im_now st) token r = (Claimed key hash token, rows) \<Longrightarrow>
    token \<notin> ik_token ` set (im_rows st) \<union> rn_token ` set (im_running st) \<Longrightarrow>
    idem_step sha st (st\<lparr>im_rows := rows,
      im_running := \<lparr>rn_key = key, rn_hash = hash, rn_token = token, rn_start = im_now st\<rparr> # im_running st\<rparr>)"
| answer: "idem_begin_request sha scope (im_rows st) (im_now st) token r = (Answered a, rows) \<Longrightarrow>
    idem_step sha st (st\<lparr>im_rows := rows\<rparr>)"
| finish: "r \<in> set (im_running st) \<Longrightarrow>
    idem_step sha st (st\<lparr>im_rows := finish_request (im_rows st) (im_now st) problem (rn_key r) (rn_token r) rec,
      im_running := filter (\<lambda>x. rn_token x \<noteq> rn_token r) (im_running st)\<rparr>)"
| stop: "idem_step sha st (st\<lparr>im_running := filter p (im_running st)\<rparr>)"
| prune: "idem_step sha st (st\<lparr>im_rows := prune_keys (im_rows st) (im_now st)\<rparr>)"

definition idem_start :: "gotime \<Rightarrow> idem_state" where
  "idem_start now = \<lparr>im_now = now, im_rows = [], im_running = []\<rparr>"

definition claim_live :: "idem_state \<Rightarrow> running_request \<Rightarrow> bool" where
  "claim_live st r \<longleftrightarrow> im_now st \<le> rn_start r + lockTimeout"

end
