(* ===== verification/Idempotency_Properties.thy ===== *)
theory Idempotency_Properties
  imports Idempotency
begin

text \<open>
  The properties of the middleware: within the lock timeout one request at a time runs under a key, its
  response is stored for the key, and a stored response is replayed until it is pruned.
\<close>

section \<open>The invariant\<close>

text \<open>A running request has lost its claim to time, or owns the row of its key.\<close>

definition owns :: "idem_row list \<Rightarrow> running_request \<Rightarrow> bool" where
  "owns rows r \<longleftrightarrow> (\<exists>x \<in> set rows. ik_key x = rn_key r \<and> ik_token x = rn_token r \<and> ik_hash x = rn_hash r \<and>
     ik_response x = None \<and> ik_lockedAt x = rn_start r)"

definition idem_inv :: "idem_state \<Rightarrow> bool" where
  "idem_inv st \<longleftrightarrow>
     distinct (map ik_key (im_rows st)) \<and> inj_on ik_token (set (im_rows st)) \<and> inj_on rn_token (set (im_running st)) \<and>
     (\<forall>r \<in> set (im_running st). \<not> claim_live st r \<or> owns (im_rows st) r) \<and>
     (\<forall>x \<in> set (im_rows st). \<forall>r \<in> set (im_running st). ik_token x = rn_token r \<longrightarrow> ik_response x = None)"

lemma claim_key_cases:
  assumes "claim_key rows now key hash token = (True, rows')"
  obtains (new) "row_by ik_key rows key = None" "rows' = rows @ [\<lparr>ik_key = key, ik_hash = hash, ik_token = token,
      ik_response = None, ik_lockedAt = now, ik_createdAt = now, ik_completedAt = None\<rparr>]"
  | (takeover) x where "row_by ik_key rows key = Some x" "stale_claim now hash x"
      "rows' = update_rows (\<lambda>r. ik_key r = key) (\<lambda>r. r\<lparr>ik_lockedAt := now, ik_token := token\<rparr>) rows"
  using assms by (auto simp: claim_key_def split: option.splits if_splits)

lemma begin_Claimed:
  assumes "idem_begin_request sha scope rows now token r = (Claimed key hash token', rows')"
  shows "claim_key rows now key hash token = (True, rows') \<and> token' = token"
  using assms by (auto simp: idem_begin_request_def Let_def split: if_splits prod.splits bool.splits)

lemma begin_other: "idem_begin_request sha scope rows now token r = (Answered a, rows') \<Longrightarrow> rows' = rows"
  by (auto simp: idem_begin_request_def Let_def split: if_splits prod.splits bool.splits)

text \<open>What a claim has to give.\<close>

lemma claim_inv_by:
  assumes inv: "idem_inv st" and fresh: "token \<notin> ik_token ` set (im_rows st)" "token \<notin> rn_token ` set (im_running st)"
    and d: "distinct (map ik_key rows)" "inj_on ik_token (set rows)"
    and none: "\<forall>x \<in> set rows. \<forall>r \<in> set (im_running st). ik_token x = rn_token r \<longrightarrow> ik_response x = None"
    and kept: "\<And>r. r \<in> set (im_running st) \<Longrightarrow> claim_live st r \<Longrightarrow> owns rows r"
    and own: "owns rows \<lparr>rn_key = key, rn_hash = hash, rn_token = token, rn_start = im_now st\<rparr>"
  shows "idem_inv (st\<lparr>im_rows := rows,
    im_running := \<lparr>rn_key = key, rn_hash = hash, rn_token = token, rn_start = im_now st\<rparr> # im_running st\<rparr>)"
proof -
  let ?new = "\<lparr>rn_key = key, rn_hash = hash, rn_token = token, rn_start = im_now st\<rparr>"
  have run: "inj_on rn_token (set (?new # im_running st))" using inv fresh(2) by (auto simp: idem_inv_def)
  have "ik_response x = None" if x: "x \<in> set rows" "ik_token x = token" for x
  proof -
    obtain y where "y \<in> set rows" "ik_token y = token" "ik_response y = None" using own by (auto simp: owns_def)
    then show ?thesis using d(2) x by (auto dest: inj_onD)
  qed
  then have "\<forall>x \<in> set rows. \<forall>r \<in> set (?new # im_running st). ik_token x = rn_token r \<longrightarrow> ik_response x = None"
    using none by auto
  moreover have "\<forall>r \<in> set (?new # im_running st). \<not> claim_live st r \<or> owns rows r" using kept own by auto
  ultimately show ?thesis using d run unfolding idem_inv_def by (simp add: claim_live_def)
qed

lemma claim_inv:
  assumes inv: "idem_inv st" and c: "claim_key (im_rows st) (im_now st) key hash token = (True, rows)"
    and fresh: "token \<notin> ik_token ` set (im_rows st)" "token \<notin> rn_token ` set (im_running st)"
  shows "idem_inv (st\<lparr>im_rows := rows,
    im_running := \<lparr>rn_key = key, rn_hash = hash, rn_token = token, rn_start = im_now st\<rparr> # im_running st\<rparr>)"
  using c
proof (cases rule: claim_key_cases)
  case new
  then have "key \<notin> ik_key ` set (im_rows st)" by (simp add: row_by_None_iff)
  then have d: "distinct (map ik_key rows)" using inv by (simp add: idem_inv_def new(2))
  have tokens: "inj_on ik_token (set rows)" using inv fresh(1) by (auto simp: idem_inv_def new(2))
  have none: "\<forall>x \<in> set rows. \<forall>r \<in> set (im_running st). ik_token x = rn_token r \<longrightarrow> ik_response x = None"
    using inv fresh(2) unfolding idem_inv_def new(2) by auto
  have kept: "owns rows r" if "r \<in> set (im_running st)" "claim_live st r" for r
  proof -
    have "owns (im_rows st) r" using inv that by (auto simp: idem_inv_def)
    then show ?thesis unfolding owns_def new(2) by auto
  qed
  have own: "owns rows \<lparr>rn_key = key, rn_hash = hash, rn_token = token, rn_start = im_now st\<rparr>"
    unfolding owns_def new(2) by simp
  show ?thesis by (rule claim_inv_by [OF inv fresh d tokens none kept own])
next
  case (takeover x)
  let ?f = "\<lambda>r. r\<lparr>ik_lockedAt := im_now st, ik_token := token\<rparr>"
  have x: "x \<in> set (im_rows st)" "ik_key x = key" using row_by_SomeD [OF takeover(1)] by simp_all
  have row: "y = x" if "y \<in> set (im_rows st)" "ik_key y = key" for y
    using inv x that by (auto simp: idem_inv_def distinct_map dest: inj_onD)
  have set: "set rows = insert (?f x) (set (im_rows st) - {x})"
  proof -
    have "(ik_key r = key) = (r = x)" if "r \<in> set (im_rows st)" for r using row [OF that] x(2) by blast
    then have "rows = map (\<lambda>r. if r = x then ?f x else r) (im_rows st)"
      unfolding takeover(3) update_rows_def by (intro map_cong) simp_all
    then show ?thesis using x(1) by auto
  qed
  have keys: "map ik_key rows = map ik_key (im_rows st)"
    unfolding takeover(3) by (rule map_key_update_rows) simp
  have lost: "\<not> claim_live st r" if r: "r \<in> set (im_running st)" "rn_token r = ik_token x" for r
  proof
    assume l: "claim_live st r"
    then have "owns (im_rows st) r" using inv r(1) by (auto simp: idem_inv_def)
    then obtain y where y: "y \<in> set (im_rows st)" "ik_token y = rn_token r" "ik_lockedAt y = rn_start r"
      by (auto simp: owns_def)
    then have "y = x" using inv x(1) r(2) by (auto simp: idem_inv_def dest: inj_onD)
    then show False using l y(3) takeover(2) by (auto simp: claim_live_def stale_claim_def)
  qed
  have kept: "owns rows r" if r: "r \<in> set (im_running st)" "claim_live st r" for r
  proof -
    have "owns (im_rows st) r" using inv r by (auto simp: idem_inv_def)
    then obtain y where y: "y \<in> set (im_rows st)" "ik_key y = rn_key r" "ik_token y = rn_token r"
      "ik_hash y = rn_hash r" "ik_response y = None" "ik_lockedAt y = rn_start r" by (auto simp: owns_def)
    moreover have "y \<noteq> x" using lost r y(3) by auto
    ultimately show ?thesis unfolding owns_def set by blast
  qed
  have own: "owns rows \<lparr>rn_key = key, rn_hash = hash, rn_token = token, rn_start = im_now st\<rparr>"
    using x(2) takeover(2) unfolding owns_def set by (auto simp: stale_claim_def)
  have tokens: "inj_on ik_token (set rows)"
    using inv fresh(1) unfolding set idem_inv_def by (auto simp: inj_on_def)
  have none: "\<forall>y \<in> set rows. \<forall>r \<in> set (im_running st). ik_token y = rn_token r \<longrightarrow> ik_response y = None"
    using inv fresh(2) unfolding set idem_inv_def by (auto simp: image_iff)
  have d: "distinct (map ik_key rows)" using inv unfolding keys by (simp add: idem_inv_def)
  show ?thesis by (rule claim_inv_by [OF inv fresh d tokens none kept own])
qed

text \<open>The other changes of the rows keep the rows of the requests that go on.\<close>

lemma idem_inv_rows:
  assumes inv: "idem_inv st" and d: "distinct (map ik_key rows)" "inj_on ik_token (set rows)"
    and sub: "set run \<subseteq> set (im_running st)"
    and kept: "\<And>r. r \<in> set run \<Longrightarrow> owns (im_rows st) r \<Longrightarrow> owns rows r"
    and none: "\<And>x r. x \<in> set rows \<Longrightarrow> r \<in> set run \<Longrightarrow> ik_token x = rn_token r \<Longrightarrow> x \<in> set (im_rows st)"
  shows "idem_inv (st\<lparr>im_rows := rows, im_running := run\<rparr>)"
proof -
  have "inj_on rn_token (set run)" using inv sub by (auto simp: idem_inv_def intro: inj_on_subset)
  moreover have "\<forall>r \<in> set run. \<not> claim_live st r \<or> owns rows r" using inv sub kept unfolding idem_inv_def by blast
  moreover have "\<forall>x \<in> set rows. \<forall>r \<in> set run. ik_token x = rn_token r \<longrightarrow> ik_response x = None"
    using inv sub none unfolding idem_inv_def by blast
  ultimately show ?thesis using d unfolding idem_inv_def by (simp add: claim_live_def)
qed

lemma finish_request_cases:
  "finish_request rows now p key token rec =
    (if rc_status rec \<ge> 500 then filter (\<lambda>x. \<not> (ik_key x = key \<and> ik_token x = token)) rows
     else update_rows (\<lambda>x. ik_key x = key \<and> ik_token x = token \<and> ik_response x = None)
       (\<lambda>x. x\<lparr>ik_response := Some (kept_response p rec), ik_completedAt := Some now\<rparr>) rows)"
  by (simp add: finish_request_def)

lemma finish_inv:
  assumes inv: "idem_inv st" and r: "r \<in> set (im_running st)"
  shows "idem_inv (st\<lparr>im_rows := finish_request (im_rows st) (im_now st) problem (rn_key r) (rn_token r) rec,
      im_running := filter (\<lambda>x. rn_token x \<noteq> rn_token r) (im_running st)\<rparr>)"
proof (cases "rc_status rec \<ge> 500")
  case True
  let ?rows = "filter (\<lambda>x. \<not> (ik_key x = rn_key r \<and> ik_token x = rn_token r)) (im_rows st)"
  have "idem_inv (st\<lparr>im_rows := ?rows, im_running := filter (\<lambda>x. rn_token x \<noteq> rn_token r) (im_running st)\<rparr>)"
    by (rule idem_inv_rows [OF inv])
      (use inv in \<open>auto simp: idem_inv_def owns_def distinct_map_filter intro: inj_on_subset\<close>)
  then show ?thesis using True by (simp add: finish_request_cases)
next
  case False
  let ?p = "\<lambda>x. ik_key x = rn_key r \<and> ik_token x = rn_token r \<and> ik_response x = None"
  let ?f = "\<lambda>x. x\<lparr>ik_response := Some (kept_response problem rec), ik_completedAt := Some (im_now st)\<rparr>"
  let ?rows = "update_rows ?p ?f (im_rows st)"
  have keys: "map ik_key ?rows = map ik_key (im_rows st)" "map ik_token ?rows = map ik_token (im_rows st)"
    by (auto simp: update_rows_def)
  have d: "distinct (map ik_key (im_rows st))" "distinct (im_rows st)" "inj_on ik_token (set (im_rows st))"
    using inv by (simp_all add: idem_inv_def distinct_map)
  then have "distinct (map ik_token ?rows)" unfolding keys by (simp add: distinct_map)
  then have tokens: "inj_on ik_token (set ?rows)" by (simp add: distinct_map)
  have same: "x \<in> set ?rows" if "x \<in> set (im_rows st)" "ik_token x \<noteq> rn_token r" for x
    using that by (auto simp: update_rows_def image_iff)
  have old: "x \<in> set (im_rows st)" if "x \<in> set ?rows" "ik_token x \<noteq> rn_token r" for x
    using that by (auto simp: update_rows_def split: if_splits)
  have "idem_inv (st\<lparr>im_rows := ?rows, im_running := filter (\<lambda>x. rn_token x \<noteq> rn_token r) (im_running st)\<rparr>)"
  proof (rule idem_inv_rows [OF inv _ tokens])
    show "distinct (map ik_key ?rows)" using d(1) unfolding keys .
    show "owns ?rows x" if "x \<in> set (filter (\<lambda>x. rn_token x \<noteq> rn_token r) (im_running st))" "owns (im_rows st) x" for x
      using that same unfolding owns_def by force
    show "x \<in> set (im_rows st)" if "x \<in> set ?rows" "y \<in> set (filter (\<lambda>x. rn_token x \<noteq> rn_token r) (im_running st))"
      "ik_token x = rn_token y" for x y
      using that old by auto
  qed auto
  then show ?thesis using False by (simp add: finish_request_cases)
qed

lemma idem_step_inv:
  assumes "idem_step sha st st'" and inv: "idem_inv st"
  shows "idem_inv st' \<and> im_now st \<le> im_now st'"
  using assms(1)
proof cases
  case (pass now)
  have "\<not> claim_live (st\<lparr>im_now := now\<rparr>) r" if "\<not> claim_live st r" for r using that pass(2) by (auto simp: claim_live_def)
  then show ?thesis using inv pass unfolding idem_inv_def by auto
next
  case (arrive scope token r key hash rows)
  then have "token \<notin> ik_token ` set (im_rows st)" "token \<notin> rn_token ` set (im_running st)" by simp_all
  from claim_inv [OF inv conjunct1 [OF begin_Claimed [OF arrive(2)]] this] show ?thesis using arrive(1) by simp
next
  case (answer scope token r a rows)
  then show ?thesis using inv begin_other [OF answer(2)] by simp
next
  case (finish r problem rec)
  then show ?thesis using finish_inv [OF inv] by simp
next
  case (stop p)
  have "idem_inv (st\<lparr>im_rows := im_rows st, im_running := filter p (im_running st)\<rparr>)"
    by (rule idem_inv_rows [OF inv]) (use inv in \<open>auto simp: idem_inv_def\<close>)
  then show ?thesis using stop by simp
next
  case prune
  have "idem_inv (st\<lparr>im_rows := prune_keys (im_rows st) (im_now st), im_running := im_running st\<rparr>)"
    by (rule idem_inv_rows [OF inv])
      (use inv in \<open>auto simp: idem_inv_def owns_def prune_keys_def distinct_map_filter intro: inj_on_subset\<close>)
  then show ?thesis using prune by simp
qed

lemma idem_run_inv: "(idem_step sha)\<^sup>*\<^sup>* (idem_start now) st \<Longrightarrow> idem_inv st"
proof (induction rule: rtranclp_induct)
  case base
  then show ?case by (simp add: idem_start_def idem_inv_def)
next
  case (step st st')
  then show ?case using idem_step_inv by blast
qed

section \<open>One at a time\<close>

text \<open>
  C8. In every run two requests that hold the same key at the same time are the same request, unless one of
  them has been running for longer than the lock timeout; and the row of the key is theirs.
\<close>

theorem one_at_a_time:
  assumes "(idem_step sha)\<^sup>*\<^sup>* (idem_start now) st" "r \<in> set (im_running st)" "claim_live st r"
  shows "(\<exists>x. row_by ik_key (im_rows st) (rn_key r) = Some x \<and> ik_token x = rn_token r \<and> ik_response x = None) \<and>
    (\<forall>q \<in> set (im_running st). claim_live st q \<longrightarrow> rn_key q = rn_key r \<longrightarrow> q = r)"
proof -
  have inv: "idem_inv st" by (rule idem_run_inv [OF assms(1)])
  have row: "\<exists>x. row_by ik_key (im_rows st) (rn_key q) = Some x \<and> ik_token x = rn_token q \<and> ik_response x = None"
    if q: "q \<in> set (im_running st)" "claim_live st q" for q
  proof -
    have "owns (im_rows st) q" using inv q by (auto simp: idem_inv_def)
    then obtain x where x: "x \<in> set (im_rows st)" "ik_key x = rn_key q" "ik_token x = rn_token q" "ik_response x = None"
      by (auto simp: owns_def)
    have "row_by ik_key (im_rows st) (ik_key x) = Some x"
      using row_by_in_set [OF _ x(1), of ik_key] inv by (simp add: idem_inv_def)
    then show ?thesis using x by simp
  qed
  have "q = r" if "q \<in> set (im_running st)" "claim_live st q" "rn_key q = rn_key r" for q
  proof -
    have "rn_token q = rn_token r" using row [OF that(1,2)] row [OF assms(2,3)] that(3) by auto
    then show ?thesis using inv that(1) assms(2) by (auto simp: idem_inv_def dest: inj_onD)
  qed
  then show ?thesis using row [OF assms(2,3)] by blast
qed

section \<open>Storing and replaying\<close>

lemma finish_other:
  "k \<noteq> key \<Longrightarrow> row_by ik_key (if b then filter (\<lambda>x. \<not> (ik_key x = key \<and> ik_token x = token)) rows
      else update_rows (\<lambda>x. ik_key x = key \<and> ik_token x = token \<and> ik_response x = None)
        (\<lambda>x. x\<lparr>ik_response := u, ik_completedAt := v\<rparr>) rows) k = row_by ik_key rows k"
  by (induction rows) (auto simp: update_rows_def)

lemma contains_text_iff: "contains_text s p \<longleftrightarrow> (\<exists>u v. s = u @ p @ v)"
proof (induction s)
  case (Cons c s)
  have "take (length p) (c # s) = p \<longleftrightarrow> (\<exists>v. c # s = p @ v)"
    by (metis append_eq_conv_conj append_take_drop_id)
  moreover have "(\<exists>u v. c # s = u @ p @ v) \<longleftrightarrow> (\<exists>v. c # s = p @ v) \<or> (\<exists>u v. s = u @ p @ v)"
    by (metis append_Cons append_Nil list.exhaust list.inject)
  ultimately show ?case using Cons by simp
qed simp

text \<open>
  C25. What becomes of the key of a request that finishes within the lock timeout. A server error frees the key.
  Any other response is stored for it, with its status, content type and body as they were sent, unless the
  handler marked the response as \<^verbatim>\<open>no-store\<close> (in whatever case): then nothing of it is stored, but
  the problem that tells that a secret was shown once, with status 409. No other key is touched.
\<close>

theorem response_stored:
  assumes "(idem_step sha)\<^sup>*\<^sup>* (idem_start now) st" "r \<in> set (im_running st)" "claim_live st r"
    and "rows = finish_request (im_rows st) (im_now st) problem (rn_key r) (rn_token r) rec"
  shows "(if rc_status rec \<ge> 500 then row_by ik_key rows (rn_key r) = None
      else \<exists>x. row_by ik_key rows (rn_key r) = Some x \<and> ik_hash x = rn_hash r \<and> ik_token x = rn_token r \<and>
        ik_completedAt x = Some (im_now st) \<and>
        ik_response x = Some
          (if \<exists>u v. map lower_char (rc_cacheControl rec) = u @ ''no-store'' @ v
           then \<lparr>rs_status = 409, rs_type = Some ''application/problem+json'', rs_body = problem @ [CHR 0x0A]\<rparr>
           else \<lparr>rs_status = rc_status rec, rs_type = Some (rc_type rec), rs_body = rc_body rec\<rparr>)) \<and>
    (\<forall>k. k \<noteq> rn_key r \<longrightarrow> row_by ik_key rows k = row_by ik_key (im_rows st) k)"
proof -
  have kept: "kept_response problem rec =
      (if \<exists>u v. map lower_char (rc_cacheControl rec) = u @ ''no-store'' @ v
       then \<lparr>rs_status = 409, rs_type = Some ''application/problem+json'', rs_body = problem @ [CHR 0x0A]\<rparr>
       else \<lparr>rs_status = rc_status rec, rs_type = Some (rc_type rec), rs_body = rc_body rec\<rparr>)"
    unfolding kept_response_def no_store_def contains_text_iff by (rule refl)
  have inv: "idem_inv st" by (rule idem_run_inv [OF assms(1)])
  then have "owns (im_rows st) r" using assms(2,3) by (auto simp: idem_inv_def)
  then obtain x where x: "x \<in> set (im_rows st)" "ik_key x = rn_key r" "ik_token x = rn_token r" "ik_hash x = rn_hash r"
    "ik_response x = None" by (auto simp: owns_def)
  have d: "distinct (map ik_key (im_rows st))" using inv by (simp add: idem_inv_def)
  have other: "row_by ik_key rows k = row_by ik_key (im_rows st) k" if "k \<noteq> rn_key r" for k
    using that unfolding assms(4) finish_request_def by (rule finish_other)
  show ?thesis
  proof (cases "rc_status rec \<ge> 500")
    case True
    have "ik_token y = rn_token r" if "y \<in> set (im_rows st)" "ik_key y = rn_key r" for y
      using d x(1,2,3) that unfolding distinct_map by (metis inj_onD)
    then have "rn_key r \<notin> ik_key ` set rows" using True by (auto simp: assms(4) finish_request_cases)
    then have "row_by ik_key rows (rn_key r) = None" by (simp add: row_by_None_iff)
    then show ?thesis using True other by simp
  next
    case False
    let ?x = "x\<lparr>ik_response := Some (kept_response problem rec), ik_completedAt := Some (im_now st)\<rparr>"
    have "?x \<in> set rows" using x False by (force simp: assms(4) finish_request_cases update_rows_def)
    moreover have "map ik_key rows = map ik_key (im_rows st)"
      using False by (auto simp: assms(4) finish_request_cases update_rows_def)
    ultimately have "row_by ik_key rows (ik_key ?x) = Some ?x" by (intro row_by_in_set) (simp_all add: d)
    then show ?thesis using False x other kept by simp
  qed
qed

lemma idem_step_keeps:
  assumes step: "idem_step sha st st'" and inv: "idem_inv st"
    and x: "x \<in> set (im_rows st)" "ik_response x \<noteq> None" "im_now st \<le> ik_createdAt x + key_retention"
  shows "x \<in> set (im_rows st')"
  using step
proof cases
  case (arrive scope token r key hash rows)
  from conjunct1 [OF begin_Claimed [OF arrive(2)]] have "x \<in> set rows"
  proof (cases rule: claim_key_cases)
    case (takeover y)
    have "ik_key x \<noteq> key"
    proof
      assume "ik_key x = key"
      then have "row_by ik_key (im_rows st) key = Some x"
        using row_by_in_set [OF _ x(1), of ik_key] inv by (simp add: idem_inv_def)
      then show False using takeover x(2) by (simp add: stale_claim_def)
    qed
    then show ?thesis using x(1) unfolding takeover(3) update_rows_def by (auto simp: image_iff)
  qed (simp add: x)
  then show ?thesis using arrive(1) by simp
next
  case (answer scope token r a rows)
  then show ?thesis using x(1) begin_other [OF answer(2)] by simp
next
  case (finish r problem rec)
  have "ik_token x \<noteq> rn_token r" using inv finish(2) x(1,2) by (auto simp: idem_inv_def)
  then have "x \<in> set (finish_request (im_rows st) (im_now st) problem (rn_key r) (rn_token r) rec)"
    using x(1) by (auto simp: finish_request_cases update_rows_def image_iff)
  then show ?thesis using finish(1) by simp
next
  case prune
  then show ?thesis using x by (simp add: prune_keys_def)
qed (use x in simp_all)

lemma idem_steps_keep:
  assumes steps: "(idem_step sha)\<^sup>*\<^sup>* st st'" and inv: "idem_inv st"
    and x: "x \<in> set (im_rows st)" "ik_response x \<noteq> None"
  shows "idem_inv st' \<and> (im_now st' \<le> ik_createdAt x + key_retention \<longrightarrow> x \<in> set (im_rows st'))"
  using steps
proof (induction rule: rtranclp_induct)
  case base
  then show ?case using inv x by simp
next
  case (step u v)
  note inv_v = idem_step_inv [OF step.hyps(2) conjunct1 [OF step.IH]]
  show ?case
  proof (intro conjI impI)
    show "idem_inv v" using inv_v by simp
    assume "im_now v \<le> ik_createdAt x + key_retention"
    then have "im_now u \<le> ik_createdAt x + key_retention" using inv_v by simp
    then show "x \<in> set (im_rows v)" using idem_step_keeps [OF step.hyps(2) _ _ x(2)] step.IH by blast
  qed
qed

text \<open>A request that the middleware takes up: it changes something, and its key and body are acceptable.\<close>

definition keyed_request :: "http_request \<Rightarrow> bool" where
  "keyed_request r \<longleftrightarrow> hr_key r \<noteq> [] \<and> mutating (hr_method r) \<and> length (hr_key r) \<le> maxKeyLen \<and>
     valid_utf8 (map code (hr_key r)) \<and> length (hr_body r) \<le> maxBodySize"

text \<open>
  C9. Once a response is stored, every later request with its key is answered without running the handler and
  without a change, for as long as keys are retained: the same request with the stored response, another
  request with an error.
\<close>

theorem stored_replayed:
  assumes "(idem_step sha)\<^sup>*\<^sup>* (idem_start now) st" "x \<in> set (im_rows st)" "ik_response x = Some resp"
    and "(idem_step sha)\<^sup>*\<^sup>* st st'" "im_now st' \<le> ik_createdAt x + key_retention"
    and "keyed_request r" "scoped_key scope (hr_key r) = ik_key x"
  shows "idem_begin_request sha scope (im_rows st') (im_now st') token r =
    (Answered (if requestHash sha r = ik_hash x then Replay resp else Problem 422 ''idempotency_key_reused''), im_rows st')"
proof -
  have inv: "idem_inv st" by (rule idem_run_inv [OF assms(1)])
  from idem_steps_keep [OF assms(4) inv assms(2)] assms(3,5)
  have x: "idem_inv st'" "x \<in> set (im_rows st')" by simp_all
  then have "row_by ik_key (im_rows st') (ik_key x) = Some x"
    using row_by_in_set [OF _ x(2), of ik_key] by (simp add: idem_inv_def)
  then show ?thesis
    using assms(3,6,7)
    by (auto simp: idem_begin_request_def keyed_request_def claim_key_def stale_claim_def resolveExisting_def Let_def)
qed

section \<open>A small run\<close>

definition sample_request_http :: http_request where
  "sample_request_http = \<lparr>hr_method = ''POST'', hr_uri = ''/v1/x'', hr_key = ''k'', hr_body = ''{}''\<rparr>"

definition sample_running :: running_request where
  "sample_running = \<lparr>rn_key = ''k'', rn_hash = requestHash (\<lambda>s. s) sample_request_http, rn_token = 9, rn_start = 1000\<rparr>"

definition sample_claimed :: idem_state where
  "sample_claimed = \<lparr>im_now = 1000, im_rows = [\<lparr>ik_key = ''k'', ik_hash = requestHash (\<lambda>s. s) sample_request_http,
     ik_token = 9, ik_response = None, ik_lockedAt = 1000, ik_createdAt = 1000, ik_completedAt = None\<rparr>],
     im_running = [sample_running]\<rparr>"

definition sample_recorder :: response_recorder where
  "sample_recorder = write_body ''ok'' (writeHeader 201 new_recorder)"

definition sample_stored :: idem_state where
  "sample_stored = \<lparr>im_now = 1000, im_rows = finish_request (im_rows sample_claimed) 1000 [] ''k'' 9 sample_recorder,
     im_running = []\<rparr>"

lemma sample_keyed_request: "keyed_request sample_request_http"
proof -
  have "valid_utf8 (map code ''k'')" by code_simp
  then show ?thesis by (simp add: keyed_request_def sample_request_http_def mutating_def maxKeyLen_def maxBodySize_def)
qed

lemma sample_claimed_run: "(idem_step (\<lambda>s. s))\<^sup>*\<^sup>* (idem_start 1000) sample_claimed"
proof -
  have b: "idem_begin_request (\<lambda>s. s) [] (im_rows (idem_start 1000)) (im_now (idem_start 1000)) 9 sample_request_http =
      (Claimed ''k'' (requestHash (\<lambda>s. s) sample_request_http) 9, im_rows sample_claimed)"
    using sample_keyed_request
    by (simp add: idem_begin_request_def keyed_request_def claim_key_def idem_start_def scoped_key_def Let_def
        sample_claimed_def) (simp add: sample_request_http_def)
  from idem_step.arrive [OF b] have "idem_step (\<lambda>s. s) (idem_start 1000) sample_claimed"
    by (simp add: idem_start_def sample_claimed_def sample_running_def)
  then show ?thesis by (rule r_into_rtranclp)
qed

lemma sample_stored_run: "(idem_step (\<lambda>s. s))\<^sup>*\<^sup>* (idem_start 1000) sample_stored"
proof -
  have "idem_step (\<lambda>s. s) sample_claimed sample_stored"
    using idem_step.finish [of sample_running sample_claimed "\<lambda>s. s" "[]" sample_recorder]
    by (simp add: sample_claimed_def sample_stored_def sample_running_def)
  with sample_claimed_run show ?thesis by (rule rtranclp.rtrancl_into_rtrancl)
qed

lemma one_at_a_time_witness:
  "\<exists>x. row_by ik_key (im_rows sample_claimed) ''k'' = Some x \<and> ik_token x = 9"
  using one_at_a_time [OF sample_claimed_run, of sample_running]
  by (simp add: claim_live_def sample_claimed_def sample_running_def lockTimeout_def)

lemma response_stored_witness:
  "\<exists>x y. row_by ik_key (im_rows sample_stored) ''k'' = Some x \<and>
     ik_response x = Some \<lparr>rs_status = 201, rs_type = Some [], rs_body = ''ok''\<rparr> \<and>
     row_by ik_key (finish_request (im_rows sample_claimed) 1000 ''p'' ''k'' 9
       (sample_recorder\<lparr>rc_cacheControl := ''No-Store''\<rparr>)) ''k'' = Some y \<and> ik_token y = 9"
proof -
  have rec: "rc_status sample_recorder = 201" "rc_type sample_recorder = []" "rc_body sample_recorder = ''ok''"
    "rc_cacheControl sample_recorder = []"
    by (simp_all add: sample_recorder_def writeHeader_def write_body_def new_recorder_def)
  have live: "sample_running \<in> set (im_running sample_claimed)" "claim_live sample_claimed sample_running"
    by (simp_all add: claim_live_def sample_claimed_def sample_running_def lockTimeout_def)
  have run: "rn_key sample_running = ''k''" "rn_token sample_running = 9" "im_now sample_claimed = 1000"
    by (simp_all add: sample_running_def sample_claimed_def)
  have "im_rows sample_stored = finish_request (im_rows sample_claimed) (im_now sample_claimed) [] (rn_key sample_running)
      (rn_token sample_running) sample_recorder"
    by (simp add: sample_stored_def sample_claimed_def sample_running_def)
  from response_stored [OF sample_claimed_run live this]
    response_stored [OF sample_claimed_run live refl, where problem = "''p''" and rec = "sample_recorder\<lparr>rc_cacheControl := ''No-Store''\<rparr>"]
  show ?thesis using rec run by auto
qed

lemma stored_replayed_witness:
  "idem_begin_request (\<lambda>s. s) [] (im_rows sample_stored) (im_now sample_stored) 10 sample_request_http =
     (Answered (Replay \<lparr>rs_status = 201, rs_type = Some [], rs_body = ''ok''\<rparr>), im_rows sample_stored)"
proof -
  let ?x = "\<lparr>ik_key = ''k'', ik_hash = requestHash (\<lambda>s. s) sample_request_http, ik_token = 9,
     ik_response = Some \<lparr>rs_status = 201, rs_type = Some [], rs_body = ''ok''\<rparr>, ik_lockedAt = 1000, ik_createdAt = 1000,
     ik_completedAt = Some 1000\<rparr>"
  have "?x \<in> set (im_rows sample_stored)"
    by (simp add: sample_stored_def sample_claimed_def finish_request_def update_rows_def sample_recorder_def
        writeHeader_def write_body_def new_recorder_def kept_response_def no_store_def)
  from stored_replayed [OF sample_stored_run this _ rtranclp.rtrancl_refl _ sample_keyed_request, of _ "[]" 10]
  show ?thesis by (simp add: sample_stored_def key_retention_def scoped_key_def) (simp add: sample_request_http_def)
qed

end
