(* ===== verification/Base64.thy ===== *)
theory Base64
  imports Main
begin

text \<open>
  \<^verbatim>\<open>base64.RawURLEncoding\<close> as the service uses it, in the secrets of API keys and the cursors of lists: no
  padding, line breaks are skipped, and the bits that fill the last character are not looked at. The lemma
  \<open>b64_decode_encode\<close> is the round trip.
\<close>

definition b64_alphabet :: string where
  "b64_alphabet = ''ABCDEFGHIJKLMNOPQRSTUVWXYZabcdefghijklmnopqrstuvwxyz0123456789-_''"

definition b64_digit :: "nat \<Rightarrow> char" where
  "b64_digit n = b64_alphabet ! n"

fun b64 :: "nat list \<Rightarrow> string" where
  "b64 (x # y # z # r) =
     b64_digit (x div 4) # b64_digit (x mod 4 * 16 + y div 16) # b64_digit (y mod 16 * 4 + z div 64) #
     b64_digit (z mod 64) # b64 r"
| "b64 [x, y] = [b64_digit (x div 4), b64_digit (x mod 4 * 16 + y div 16), b64_digit (y mod 16 * 4)]"
| "b64 [x] = [b64_digit (x div 4), b64_digit (x mod 4 * 16)]"
| "b64 [] = []"

section \<open>Decoding\<close>

fun position :: "nat \<Rightarrow> char \<Rightarrow> string \<Rightarrow> nat option" where
  "position n c [] = None"
| "position n c (x # xs) = (if x = c then Some n else position (Suc n) c xs)"

definition b64_value :: "char \<Rightarrow> nat option" where
  "b64_value c = position 0 c b64_alphabet"

text \<open>The bytes of a list of six-bit values; a single value at the end is an error.\<close>

fun b64_bytes :: "nat list \<Rightarrow> nat list option" where
  "b64_bytes (x # y # z # w # r) =
     map_option (\<lambda>b. (x * 4 + y div 16) # (y mod 16 * 16 + z div 4) # (z mod 4 * 64 + w) # b) (b64_bytes r)"
| "b64_bytes [x, y, z] = Some [x * 4 + y div 16, y mod 16 * 16 + z div 4]"
| "b64_bytes [x, y] = Some [x * 4 + y div 16]"
| "b64_bytes [x] = None"
| "b64_bytes [] = Some []"

definition b64_decode :: "string \<Rightarrow> nat list option" where
  "b64_decode s =
     (let vs = map b64_value (filter (\<lambda>c. c \<noteq> CHR 0x0A \<and> c \<noteq> CHR 0x0D) s)
      in if None \<in> set vs then None else b64_bytes (map the vs))"

section \<open>The round trip\<close>

lemma digits_known:
  "list_all (\<lambda>n. b64_value (b64_digit n) = Some n \<and> b64_digit n \<noteq> CHR 0x0A \<and> b64_digit n \<noteq> CHR 0x0D) [0..<64]"
  by code_simp

lemma b64_value_digit:
  assumes "n < 64"
  shows "b64_value (b64_digit n) = Some n" "b64_digit n \<noteq> CHR 0x0A" "b64_digit n \<noteq> CHR 0x0D"
  using digits_known assms by (simp_all add: list_all_iff)

lemma b64_values:
  assumes "\<forall>b \<in> set bs. b < 256"
  shows "\<exists>vs. map b64_value (b64 bs) = map Some vs \<and> b64_bytes vs = Some bs \<and>
    filter (\<lambda>c. c \<noteq> CHR 0x0A \<and> c \<noteq> CHR 0x0D) (b64 bs) = b64 bs"
  using assms
proof (induction bs rule: b64.induct)
  case (1 x y z r)
  then obtain vs where vs: "map b64_value (b64 r) = map Some vs" "b64_bytes vs = Some r"
      "filter (\<lambda>c. c \<noteq> CHR 0x0A \<and> c \<noteq> CHR 0x0D) (b64 r) = b64 r"
    by auto
  have lt: "x < 256" "y < 256" "z < 256" using 1 by simp_all
  have d: "x div 4 < 64" "x mod 4 * 16 + y div 16 < 64" "y mod 16 * 4 + z div 64 < 64" "z mod 64 < 64"
    using lt by (simp_all add: less_mult_imp_div_less)
  let ?vs = "x div 4 # (x mod 4 * 16 + y div 16) # (y mod 16 * 4 + z div 64) # z mod 64 # vs"
  have "map b64_value (b64 (x # y # z # r)) = map Some ?vs"
    by (simp add: b64_value_digit(1) [OF d(1)] b64_value_digit(1) [OF d(2)] b64_value_digit(1) [OF d(3)]
        b64_value_digit(1) [OF d(4)] vs(1))
  moreover have "b64_bytes ?vs = Some (x # y # z # r)"
    using lt vs(2) by simp
  moreover have "filter (\<lambda>c. c \<noteq> CHR 0x0A \<and> c \<noteq> CHR 0x0D) (b64 (x # y # z # r)) = b64 (x # y # z # r)"
    using vs(3) b64_value_digit(2,3) [OF d(1)] b64_value_digit(2,3) [OF d(2)] b64_value_digit(2,3) [OF d(3)]
      b64_value_digit(2,3) [OF d(4)] by simp
  ultimately show ?case by blast
next
  case (2 x y)
  have lt: "x < 256" "y < 256" using 2 by simp_all
  have d: "x div 4 < 64" "x mod 4 * 16 + y div 16 < 64" "y mod 16 * 4 < 64"
    using lt by (simp_all add: less_mult_imp_div_less)
  have "map b64_value (b64 [x, y]) = map Some [x div 4, x mod 4 * 16 + y div 16, y mod 16 * 4]"
    by (simp add: b64_value_digit(1) [OF d(1)] b64_value_digit(1) [OF d(2)] b64_value_digit(1) [OF d(3)])
  moreover have "b64_bytes [x div 4, x mod 4 * 16 + y div 16, y mod 16 * 4] = Some [x, y]"
    using lt by simp
  moreover have "filter (\<lambda>c. c \<noteq> CHR 0x0A \<and> c \<noteq> CHR 0x0D) (b64 [x, y]) = b64 [x, y]"
    using b64_value_digit(2,3) [OF d(1)] b64_value_digit(2,3) [OF d(2)] b64_value_digit(2,3) [OF d(3)] by simp
  ultimately show ?case by blast
next
  case (3 x)
  have lt: "x < 256" using 3 by simp
  have d: "x div 4 < 64" "x mod 4 * 16 < 64"
    using lt by (simp_all add: less_mult_imp_div_less)
  have "map b64_value (b64 [x]) = map Some [x div 4, x mod 4 * 16]"
    by (simp add: b64_value_digit(1) [OF d(1)] b64_value_digit(1) [OF d(2)])
  moreover have "b64_bytes [x div 4, x mod 4 * 16] = Some [x]" using lt by simp
  moreover have "filter (\<lambda>c. c \<noteq> CHR 0x0A \<and> c \<noteq> CHR 0x0D) (b64 [x]) = b64 [x]"
    using b64_value_digit(2,3) [OF d(1)] b64_value_digit(2,3) [OF d(2)] by simp
  ultimately show ?case by blast
next
  case 4
  show ?case by (rule exI [of _ "[]"]) simp
qed

lemma b64_decode_encode:
  assumes "\<forall>b \<in> set bs. b < 256"
  shows "b64_decode (b64 bs) = Some bs"
proof -
  obtain vs where vs: "map b64_value (b64 bs) = map Some vs" "b64_bytes vs = Some bs"
      "filter (\<lambda>c. c \<noteq> CHR 0x0A \<and> c \<noteq> CHR 0x0D) (b64 bs) = b64 bs"
    using b64_values [OF assms] by blast
  have "None \<notin> set (map Some vs)" by auto
  moreover have "map the (map Some vs) = vs" by (simp add: comp_def)
  ultimately show ?thesis unfolding b64_decode_def Let_def vs(3) vs(1) using vs(2) by simp
qed

lemma b64_empty [simp]: "b64 bs = [] \<longleftrightarrow> bs = []"
  by (cases bs rule: b64.cases) simp_all

end
