(* ===== verification/Auth.thy ===== *)
theory Auth
  imports Validate TypeID Base64
begin

text \<open>
  \<^verbatim>\<open>internal/kernel/auth\<close>: API keys with a role, stored as hashes; authentication with a cache in each process;
  revocation, which keeps the last admin; and the middleware. \<open>sha\<close> is \<^verbatim>\<open>sha256\<close>. An id is the list of its
  sixteen bytes, which is how a token has it.
\<close>

section \<open>Keys\<close>

definition RoleAdmin :: string where "RoleAdmin = ''admin''"
definition RoleWrite :: string where "RoleWrite = ''write''"
definition RoleRead :: string where "RoleRead = ''read''"

definition role_valid :: "string \<Rightarrow> bool" where
  "role_valid r \<longleftrightarrow> r = RoleAdmin \<or> r = RoleWrite \<or> r = RoleRead"

record api_key =
  ak_id :: uuid_bytes
  ak_name :: string
  ak_role :: string
  ak_hint :: string
  ak_createdBy :: "uuid_bytes option"
  ak_createdAt :: gotime
  ak_expiresAt :: "gotime option"
  ak_revokedAt :: "gotime option"
  ak_lastUsedAt :: "gotime option"

text \<open>A row of \<^verbatim>\<open>api_keys\<close> is a key with the hash of its token.\<close>

type_synonym key_row = "api_key \<times> string"

text \<open>\<open>ErrKeyStore\<close> is an error of the database.\<close>

datatype auth_err = ErrUnauthenticated | ErrKeyNotFound | ErrKeyInvalid | ErrLastAdmin | ErrKeyStore

definition key_active :: "gotime \<Rightarrow> api_key \<Rightarrow> bool" where
  "key_active now k \<longleftrightarrow> ak_revokedAt k = None \<and> (case ak_expiresAt k of None \<Rightarrow> True | Some t \<Rightarrow> now < t)"

definition cacheTTL :: int where "cacheTTL = 10 * 10 ^ 9"
definition touchEvery :: int where "touchEvery = 60 * 10 ^ 9"
definition maxNameLen :: nat where "maxNameLen = 255"

definition key_by :: "key_row list \<Rightarrow> uuid_bytes \<Rightarrow> key_row option" where
  "key_by keys i = row_by (\<lambda>r. ak_id (fst r)) keys i"

section \<open>Tokens\<close>

definition secretBytes :: nat where "secretBytes = 32"

definition encodedLen :: "nat \<Rightarrow> nat" where
  "encodedLen n = (n * 8 + 5) div 6"

definition key_token :: "uuid_bytes \<Rightarrow> nat list \<Rightarrow> string" where
  "key_token i secret = ''sk_'' @ or_zero (encodeID ''key'' i) (cutPrefix (encodeID ''key'' i) ''key_'') @ ''_'' @ b64 secret"

definition parseToken :: "string \<Rightarrow> uuid_bytes option" where
  "parseToken token =
     (case cutPrefix token ''sk_'' of
        None \<Rightarrow> None
      | Some rest \<Rightarrow>
          if length rest \<noteq> 26 + 1 + encodedLen secretBytes \<or> rest ! 26 \<noteq> CHR ''_'' then None
          else case parseID ''key'' (''key_'' @ take 26 rest) of Inl e \<Rightarrow> None | Inr i \<Rightarrow> Some i)"

section \<open>Creating and listing\<close>

record createKeyInput =
  ck_name :: string
  ck_role :: string
  ck_expiresAt :: "gotime option"
  ck_createdBy :: "uuid_bytes option"

definition createKey ::
  "(string \<Rightarrow> string) \<Rightarrow> key_row list \<Rightarrow> gotime \<Rightarrow> uuid_bytes \<Rightarrow> nat list \<Rightarrow> createKeyInput \<Rightarrow>
   auth_err + (api_key \<times> string \<times> key_row list)" where
  "createKey sha keys now newid secret i =
     (if blank_text (ck_name i) \<or> length (ck_name i) > maxNameLen \<or> \<not> role_valid (ck_role i) \<or>
         (case ck_expiresAt i of None \<Rightarrow> False | Some t \<Rightarrow> \<not> now < t)
      then Inl ErrKeyInvalid
      else if key_by keys newid \<noteq> None then Inl ErrKeyStore
      else let token = key_token newid secret;
               k = \<lparr>ak_id = newid, ak_name = ck_name i, ak_role = ck_role i, ak_hint = drop (length token - 4) token,
                    ak_createdBy = ck_createdBy i, ak_createdAt = now, ak_expiresAt = ck_expiresAt i,
                    ak_revokedAt = None, ak_lastUsedAt = None\<rparr>
           in Inr (k, token, keys @ [(k, sha token)]))"

definition queryKey :: "key_row list \<Rightarrow> uuid_bytes \<Rightarrow> auth_err + api_key" where
  "queryKey keys i = (case key_by keys i of None \<Rightarrow> Inl ErrKeyNotFound | Some r \<Rightarrow> Inr (fst r))"

section \<open>Authentication\<close>

record cached =
  ca_key :: api_key
  ca_hash :: string
  ca_expires :: gotime
  ca_touched :: gotime

type_synonym auth_cache = "uuid_bytes \<Rightarrow> cached option"

definition zero_cached :: cached where
  "zero_cached = \<lparr>ca_key = \<lparr>ak_id = replicate 16 0, ak_name = [], ak_role = [], ak_hint = [], ak_createdBy = None,
     ak_createdAt = 0, ak_expiresAt = None, ak_revokedAt = None, ak_lastUsedAt = None\<rparr>, ca_hash = [], ca_expires = 0,
     ca_touched = 0\<rparr>"

definition cache_hit :: "auth_cache \<Rightarrow> uuid_bytes \<Rightarrow> gotime \<Rightarrow> cached option" where
  "cache_hit cache i now =
     (case cache i of None \<Rightarrow> None | Some c \<Rightarrow> if now > ca_expires c then None else Some c)"

definition fill_cached :: "key_row \<Rightarrow> gotime \<Rightarrow> gotime \<Rightarrow> cached" where
  "fill_cached r now touched =
     \<lparr>ca_key = fst r, ca_hash = snd r, ca_expires = now + cacheTTL, ca_touched = touched\<rparr>"

definition touched_of :: "auth_cache \<Rightarrow> uuid_bytes \<Rightarrow> gotime" where
  "touched_of cache i = ca_touched (or_zero zero_cached (cache i))"

definition check_cached :: "cached \<Rightarrow> string \<Rightarrow> gotime \<Rightarrow> auth_err + api_key" where
  "check_cached c hash now =
     (if ca_hash c \<noteq> hash \<or> \<not> key_active now (ca_key c) then Inl ErrUnauthenticated else Inr (ca_key c))"

definition touch_cache :: "auth_cache \<Rightarrow> uuid_bytes \<Rightarrow> gotime \<Rightarrow> auth_cache" where
  "touch_cache cache i now = cache(i \<mapsto> (or_zero zero_cached (cache i))\<lparr>ca_touched := now\<rparr>)"

text \<open>The end of \<^verbatim>\<open>Authenticate\<close>, with the entry that was found or read.\<close>

definition settle_auth :: "auth_cache \<Rightarrow> uuid_bytes \<Rightarrow> cached \<Rightarrow> string \<Rightarrow> gotime \<Rightarrow> (auth_err + api_key) \<times> auth_cache" where
  "settle_auth cache i c hash now =
     (case check_cached c hash now of
        Inl e \<Rightarrow> (Inl e, cache)
      | Inr k \<Rightarrow> (Inr k, if now - ca_touched c > touchEvery then touch_cache cache i now else cache))"

definition authenticate ::
  "(string \<Rightarrow> string) \<Rightarrow> key_row list \<Rightarrow> auth_cache \<Rightarrow> gotime \<Rightarrow> string \<Rightarrow> (auth_err + api_key) \<times> auth_cache" where
  "authenticate sha keys cache now token =
     (case parseToken token of
        None \<Rightarrow> (Inl ErrUnauthenticated, cache)
      | Some i \<Rightarrow>
          (case cache_hit cache i now of
             Some c \<Rightarrow> settle_auth cache i c (sha token) now
           | None \<Rightarrow>
               (case key_by keys i of
                  None \<Rightarrow> (Inl ErrUnauthenticated, cache)
                | Some r \<Rightarrow>
                    let c = fill_cached r now (touched_of cache i)
                    in settle_auth (cache(i \<mapsto> c)) i c (sha token) now)))"

section \<open>Revocation\<close>

definition active_admin :: "gotime \<Rightarrow> key_row \<Rightarrow> bool" where
  "active_admin now r \<longleftrightarrow>
     ak_role (fst r) = RoleAdmin \<and> ak_revokedAt (fst r) = None \<and>
     (case ak_expiresAt (fst r) of None \<Rightarrow> True | Some t \<Rightarrow> t > now)"

definition activeAdmins :: "key_row list \<Rightarrow> gotime \<Rightarrow> nat" where
  "activeAdmins keys now = length (filter (active_admin now) keys)"

definition revokeKey :: "key_row list \<Rightarrow> gotime \<Rightarrow> uuid_bytes \<Rightarrow> auth_err + key_row list" where
  "revokeKey keys now i =
     (case key_by keys i of
        None \<Rightarrow> Inl ErrKeyNotFound
      | Some r \<Rightarrow>
          if ak_revokedAt (fst r) \<noteq> None then Inr keys
          else if ak_role (fst r) = RoleAdmin \<and>
                  length (filter (\<lambda>x. active_admin now x \<and> ak_id (fst x) \<noteq> i) keys) = 0 then Inl ErrLastAdmin
          else Inr (update_rows (\<lambda>x. ak_id (fst x) = i) (\<lambda>x. ((fst x)\<lparr>ak_revokedAt := Some now\<rparr>, snd x)) keys))"

definition forget_key :: "auth_cache \<Rightarrow> uuid_bytes \<Rightarrow> auth_cache" where
  "forget_key cache i = cache(i := None)"

definition use_key :: "key_row list \<Rightarrow> gotime \<Rightarrow> uuid_bytes \<Rightarrow> key_row list" where
  "use_key keys now i =
     update_rows (\<lambda>x. ak_id (fst x) = i) (\<lambda>x. ((fst x)\<lparr>ak_lastUsedAt := Some now\<rparr>, snd x)) keys"

section \<open>The middleware\<close>

definition adminPath :: "string \<Rightarrow> string \<Rightarrow> bool" where
  "adminPath path p \<longleftrightarrow> path = p \<or> take (length p + 1) path = p @ ''/''"

definition has_suffix :: "string \<Rightarrow> string \<Rightarrow> bool" where
  "has_suffix s p \<longleftrightarrow> length p \<le> length s \<and> drop (length s - length p) s = p"

definition admin_only :: "string \<Rightarrow> bool" where
  "admin_only path \<longleftrightarrow>
     adminPath path ''/v1/api_keys'' \<or> adminPath path ''/v1/webhook_endpoints'' \<or>
     take (length ''/v1/ledgers/'') path = ''/v1/ledgers/'' \<and> has_suffix path ''/close_period''"

definition allowed :: "string \<Rightarrow> string \<Rightarrow> string \<Rightarrow> bool" where
  "allowed role meth path =
     (if role = RoleAdmin then True
      else if role = RoleWrite then \<not> admin_only path
      else if role = RoleRead then \<not> admin_only path \<and> (meth = ''GET'' \<or> meth = ''HEAD'')
      else False)"

text \<open>\<^verbatim>\<open>strings.Cut(s, " ")\<close>, \<^verbatim>\<open>strings.EqualFold(s, "Bearer")\<close> and \<^verbatim>\<open>strings.TrimSpace\<close>\<close>

fun cut_space :: "string \<Rightarrow> (string \<times> string) option" where
  "cut_space [] = None"
| "cut_space (c # s) =
     (if c = CHR '' '' then Some ([], s) else map_option (\<lambda>(a, b). (c # a, b)) (cut_space s))"

definition fold_lower :: "char \<Rightarrow> char" where
  "fold_lower c = (if 65 \<le> code c \<and> code c \<le> 90 then char_of (code c + 32) else c)"

definition trim_text :: "string \<Rightarrow> string" where
  "trim_text s =
     (let s = drop (last (filter (\<lambda>k. blank_text (take k s)) [0..<Suc (length s)])) s
      in take (hd (filter (\<lambda>k. blank_text (drop k s)) [0..<Suc (length s)])) s)"

text \<open>The outcome: the request goes on, with the key that sent it, or is answered.\<close>

datatype auth_outcome = Public | Sender api_key | Unauthorized | Forbidden

definition auth_middleware ::
  "(string \<Rightarrow> string) \<Rightarrow> string list \<Rightarrow> key_row list \<Rightarrow> auth_cache \<Rightarrow> gotime \<Rightarrow> string \<Rightarrow> string \<Rightarrow> string \<Rightarrow>
   auth_outcome \<times> auth_cache" where
  "auth_middleware sha public keys cache now meth path header =
     (if path \<in> set public then (Public, cache)
      else case cut_space header of
        None \<Rightarrow> (Unauthorized, cache)
      | Some (scheme, token) \<Rightarrow>
          if map fold_lower scheme \<noteq> ''bearer'' then (Unauthorized, cache)
          else case authenticate sha keys cache now (trim_text token) of
            (Inl e, cache') \<Rightarrow> (Unauthorized, cache')
          | (Inr k, cache') \<Rightarrow> (if allowed (ak_role k) meth path then Sender k else Forbidden, cache'))"

section \<open>Many processes\<close>

text \<open>An authentication that missed the cache of its process: before and after it has read the row. \<open>lk_now\<close>
  is the clock at its start, which it goes by until it returns.\<close>

record auth_call =
  lk_process :: nat
  lk_id :: uuid_bytes
  lk_hash :: string
  lk_now :: gotime
  lk_touched :: gotime
  lk_row :: "key_row option"

text \<open>\<open>au_revoked\<close> and \<open>au_log\<close> are the history: when which key was revoked, and which keys were accepted, with
  the time at which the authentication started, the time at which it returned, and the hash of the token.\<close>

record auth_state =
  au_now :: gotime
  au_keys :: "key_row list"
  au_cache :: "nat \<Rightarrow> auth_cache"
  au_calls :: "auth_call list"
  au_revoked :: "(uuid_bytes \<times> gotime) list"
  au_log :: "(gotime \<times> gotime \<times> string \<times> api_key) list"

definition accepted_auth ::
  "gotime \<Rightarrow> gotime \<Rightarrow> string \<Rightarrow> (auth_err + api_key) \<Rightarrow> (gotime \<times> gotime \<times> string \<times> api_key) list" where
  "accepted_auth began now hash r = (case r of Inl e \<Rightarrow> [] | Inr k \<Rightarrow> [(began, now, hash, k)])"

text \<open>
  Processes that share the table and have a cache each. \<open>found\<close> is an authentication from the cache, \<open>look\<close>,
  \<open>read\<close> and \<open>fill\<close> the parts of one that misses it, with anything in between; it began some time before it
  looks into the cache, and \<open>whole\<close> is one that nothing interrupts. A revocation commits at a time
  that is not before the one it writes; after it the key is forgotten by that process, some time later.
\<close>

inductive auth_step :: "(string \<Rightarrow> string) \<Rightarrow> auth_state \<Rightarrow> auth_state \<Rightarrow> bool" for sha where
  pass: "au_now st \<le> now \<Longrightarrow> auth_step sha st (st\<lparr>au_now := now\<rparr>)"
| create: "createKey sha (au_keys st) now newid secret i = Inr (k, token, keys) \<Longrightarrow> auth_step sha st (st\<lparr>au_keys := keys\<rparr>)"
| found: "0 < began \<Longrightarrow> began \<le> au_now st \<Longrightarrow> parseToken token = Some i \<Longrightarrow> cache_hit (au_cache st p) i began = Some c \<Longrightarrow>
    settle_auth (au_cache st p) i c (sha token) began = (r, cache) \<Longrightarrow>
    auth_step sha st (st\<lparr>au_cache := (au_cache st)(p := cache),
      au_log := accepted_auth began (au_now st) (sha token) r @ au_log st\<rparr>)"
| look: "0 < began \<Longrightarrow> began \<le> au_now st \<Longrightarrow> parseToken token = Some i \<Longrightarrow> cache_hit (au_cache st p) i began = None \<Longrightarrow>
    auth_step sha st (st\<lparr>au_calls := \<lparr>lk_process = p, lk_id = i, lk_hash = sha token, lk_now = began,
      lk_touched = touched_of (au_cache st p) i, lk_row = None\<rparr> # au_calls st\<rparr>)"
| read: "n < length (au_calls st) \<Longrightarrow> key_by (au_keys st) (lk_id (au_calls st ! n)) = Some r \<Longrightarrow>
    auth_step sha st (st\<lparr>au_calls := (au_calls st)[n := (au_calls st ! n)\<lparr>lk_row := Some r\<rparr>]\<rparr>)"
| fill: "c \<in> set (au_calls st) \<Longrightarrow> lk_row c = Some row \<Longrightarrow>
    e = fill_cached row (lk_now c) (lk_touched c) \<Longrightarrow>
    settle_auth ((au_cache st (lk_process c))(lk_id c \<mapsto> e)) (lk_id c) e (lk_hash c) (lk_now c) = (r, cache) \<Longrightarrow>
    auth_step sha st (st\<lparr>au_cache := (au_cache st)(lk_process c := cache),
      au_log := accepted_auth (lk_now c) (au_now st) (lk_hash c) r @ au_log st, au_calls := remove1 c (au_calls st)\<rparr>)"
| whole: "authenticate sha (au_keys st) (au_cache st p) (au_now st) token = (r, cache) \<Longrightarrow>
    auth_step sha st (st\<lparr>au_cache := (au_cache st)(p := cache),
      au_log := accepted_auth (au_now st) (au_now st) (sha token) r @ au_log st\<rparr>)"
| revoke: "now \<le> au_now st \<Longrightarrow> revokeKey (au_keys st) now i = Inr keys \<Longrightarrow>
    auth_step sha st (st\<lparr>au_keys := keys, au_revoked := (i, au_now st) # au_revoked st\<rparr>)"
| forget: "auth_step sha st (st\<lparr>au_cache := (au_cache st)(p := forget_key (au_cache st p) i)\<rparr>)"
| uses: "auth_step sha st (st\<lparr>au_keys := use_key (au_keys st) now i\<rparr>)"
| stop: "auth_step sha st (st\<lparr>au_calls := filter q (au_calls st)\<rparr>)"

definition auth_start :: "gotime \<Rightarrow> auth_state" where
  "auth_start now = \<lparr>au_now = now, au_keys = [], au_cache = (\<lambda>p i. None), au_calls = [], au_revoked = [], au_log = []\<rparr>"

end
