(* ===== verification/Auth_Properties.thy ===== *)
theory Auth_Properties
  imports Auth
begin

text \<open>
  The properties of API keys: whoever is accepted has the token of a stored key that has not expired, and a
  revoked key is accepted nowhere later than the lifetime of a cache entry after its revocation; the last
  admin stays; a token says whose it is.
\<close>

section \<open>What a cache entry knows\<close>

definition same_key :: "key_row \<Rightarrow> key_row \<Rightarrow> bool" where
  "same_key r q \<longleftrightarrow> ak_id (fst r) = ak_id (fst q) \<and> ak_role (fst r) = ak_role (fst q) \<and>
     ak_expiresAt (fst r) = ak_expiresAt (fst q) \<and> snd r = snd q"

text \<open>The row \<open>r\<close> of \<open>i\<close> was read by an authentication that began at \<open>t\<close>.\<close>

definition snapshot :: "auth_state \<Rightarrow> uuid_bytes \<Rightarrow> key_row \<Rightarrow> gotime \<Rightarrow> bool" where
  "snapshot st i r t \<longleftrightarrow>
     t \<le> au_now st \<and> ak_id (fst r) = i \<and> (\<exists>q \<in> set (au_keys st). same_key q r) \<and>
     (ak_revokedAt (fst r) = None \<longrightarrow> (\<forall>u. (i, u) \<in> set (au_revoked st) \<longrightarrow> t \<le> u))"

definition cached_ok :: "auth_state \<Rightarrow> uuid_bytes \<Rightarrow> cached \<Rightarrow> bool" where
  "cached_ok st i c \<longleftrightarrow> ca_expires c = 0 \<or> snapshot st i (ca_key c, ca_hash c) (ca_expires c - cacheTTL)"

definition call_ok :: "auth_state \<Rightarrow> auth_call \<Rightarrow> bool" where
  "call_ok st c \<longleftrightarrow> lk_now c \<le> au_now st \<and> (\<forall>r. lk_row c = Some r \<longrightarrow> snapshot st (lk_id c) r (lk_now c))"

definition log_ok :: "auth_state \<Rightarrow> gotime \<times> gotime \<times> string \<times> api_key \<Rightarrow> bool" where
  "log_ok st x \<longleftrightarrow>
     (case x of (t, ended, hash, k) \<Rightarrow>
        t \<le> ended \<and> ended \<le> au_now st \<and> (\<exists>q \<in> set (au_keys st). same_key q (k, hash)) \<and>
        (case ak_expiresAt k of None \<Rightarrow> True | Some e \<Rightarrow> t < e) \<and>
        (\<forall>u. (ak_id k, u) \<in> set (au_revoked st) \<longrightarrow> t \<le> u + cacheTTL))"

definition auth_inv :: "auth_state \<Rightarrow> bool" where
  "auth_inv st \<longleftrightarrow>
     0 < au_now st \<and> distinct (map (\<lambda>r. ak_id (fst r)) (au_keys st)) \<and>
     (\<forall>(i, u) \<in> set (au_revoked st). u \<le> au_now st \<and> (\<exists>r \<in> set (au_keys st). ak_id (fst r) = i \<and> ak_revokedAt (fst r) \<noteq> None)) \<and>
     (\<forall>p i c. au_cache st p i = Some c \<longrightarrow> cached_ok st i c) \<and> (\<forall>c \<in> set (au_calls st). call_ok st c) \<and>
     (\<forall>x \<in> set (au_log st). log_ok st x)"

section \<open>Time goes on\<close>

definition later :: "auth_state \<Rightarrow> auth_state \<Rightarrow> bool" where
  "later st st' \<longleftrightarrow>
     au_now st \<le> au_now st' \<and> (\<forall>r \<in> set (au_keys st). \<exists>q \<in> set (au_keys st'). same_key q r) \<and>
     (\<forall>(i, u) \<in> set (au_revoked st'). (i, u) \<in> set (au_revoked st) \<or> au_now st \<le> u)"

lemma same_key_refl [simp]: "same_key r r"
  by (simp add: same_key_def)

lemma same_key_trans: "same_key p q \<Longrightarrow> same_key q r \<Longrightarrow> same_key p r"
  by (simp add: same_key_def)

lemma later_keys: "later st st' \<Longrightarrow> \<exists>q \<in> set (au_keys st). same_key q r \<Longrightarrow> \<exists>q \<in> set (au_keys st'). same_key q r"
  unfolding later_def using same_key_trans by blast

lemma later_revoked: "later st st' \<Longrightarrow> (i, u) \<in> set (au_revoked st') \<Longrightarrow> (i, u) \<in> set (au_revoked st) \<or> au_now st \<le> u"
  unfolding later_def by blast

lemma snapshot_later: "snapshot st i r t \<Longrightarrow> later st st' \<Longrightarrow> snapshot st' i r t"
  using later_keys [of st st' r] later_revoked [of st st'] unfolding snapshot_def later_def by (meson order_trans)

lemma entry_later: "cached_ok st i c \<Longrightarrow> later st st' \<Longrightarrow> cached_ok st' i c"
  by (auto simp: cached_ok_def snapshot_later)

lemma call_later: "call_ok st c \<Longrightarrow> later st st' \<Longrightarrow> call_ok st' c"
  by (auto simp: call_ok_def snapshot_later later_def)

lemma log_later:
  assumes "log_ok st x" "later st st'"
  shows "log_ok st' x"
proof -
  obtain t ended hash k where x: "x = (t, ended, hash, k)" by (cases x)
  have "t \<le> u + cacheTTL" if "(ak_id k, u) \<in> set (au_revoked st')" for u
    using later_revoked [OF assms(2) that] assms(1) by (auto simp: x log_ok_def cacheTTL_def)
  moreover have "ended \<le> au_now st'" using assms by (auto simp: x log_ok_def later_def)
  ultimately show ?thesis using assms later_keys [OF assms(2), of "(k, hash)"] by (simp add: x log_ok_def)
qed

lemma auth_inv_later:
  assumes inv: "auth_inv st" and l: "later st st'"
    and d: "distinct (map (\<lambda>r. ak_id (fst r)) (au_keys st'))"
    and rev: "\<And>i u. (i, u) \<in> set (au_revoked st') \<Longrightarrow>
      u \<le> au_now st' \<and> (\<exists>r \<in> set (au_keys st'). ak_id (fst r) = i \<and> ak_revokedAt (fst r) \<noteq> None)"
    and cache: "\<And>p i c. au_cache st' p i = Some c \<Longrightarrow> au_cache st p i = Some c \<or> cached_ok st' i c"
    and calls: "\<And>c. c \<in> set (au_calls st') \<Longrightarrow> c \<in> set (au_calls st) \<or> call_ok st' c"
    and log: "\<And>x. x \<in> set (au_log st') \<Longrightarrow> x \<in> set (au_log st) \<or> log_ok st' x"
  shows "auth_inv st'"
  unfolding auth_inv_def
proof (intro conjI)
  show "0 < au_now st'" using inv l by (auto simp: auth_inv_def later_def)
  show "\<forall>p i c. au_cache st' p i = Some c \<longrightarrow> cached_ok st' i c"
    using cache inv entry_later [OF _ l] unfolding auth_inv_def by blast
  show "\<forall>c \<in> set (au_calls st'). call_ok st' c" using calls inv call_later [OF _ l] unfolding auth_inv_def by blast
  show "\<forall>x \<in> set (au_log st'). log_ok st' x" using log inv log_later [OF _ l] unfolding auth_inv_def by blast
qed (use d rev in auto)

section \<open>The steps\<close>

lemma key_by_Some: "key_by keys i = Some r \<Longrightarrow> r \<in> set keys \<and> ak_id (fst r) = i"
  unfolding key_by_def by (drule row_by_SomeD) simp

lemma auth_inv_revoked:
  "auth_inv st \<Longrightarrow> (i, u) \<in> set (au_revoked st) \<Longrightarrow>
    u \<le> au_now st \<and> (\<exists>r \<in> set (au_keys st). ak_id (fst r) = i \<and> ak_revokedAt (fst r) \<noteq> None)"
  unfolding auth_inv_def by blast

lemma kept_keys: "\<forall>r \<in> set ks. \<exists>q \<in> set ks. same_key q r"
  by (intro ballI bexI) (rule same_key_refl)

lemma later_same: "au_now st \<le> au_now st' \<Longrightarrow> au_keys st' = au_keys st \<Longrightarrow> au_revoked st' = au_revoked st \<Longrightarrow> later st st'"
  unfolding later_def using kept_keys by auto

lemma read_snapshot:
  assumes inv: "auth_inv st" and r: "key_by (au_keys st) i = Some r" and t: "t \<le> au_now st"
  shows "snapshot st i r t"
proof -
  have mem: "r \<in> set (au_keys st)" "ak_id (fst r) = i" using key_by_Some [OF r] by simp_all
  have "ak_revokedAt (fst r) \<noteq> None" if iu: "(i, u) \<in> set (au_revoked st)" for u
  proof -
    obtain q where "q \<in> set (au_keys st)" "ak_id (fst q) = i" "ak_revokedAt (fst q) \<noteq> None"
      using auth_inv_revoked [OF inv iu] by blast
    moreover have "inj_on (\<lambda>r. ak_id (fst r)) (set (au_keys st))" using inv by (simp add: auth_inv_def distinct_map)
    ultimately show ?thesis using mem by (metis inj_onD)
  qed
  then show ?thesis using mem t same_key_refl unfolding snapshot_def by blast
qed

lemma settle_entries:
  assumes s: "settle_auth cache i c hash now = (r, cache')"
    and old: "\<And>j d. cache j = Some d \<Longrightarrow> cached_ok st j d"
  shows "cache' j = Some d \<Longrightarrow> cached_ok st j d"
proof -
  assume d: "cache' j = Some d"
  have "cached_ok st i ((or_zero zero_cached (cache i))\<lparr>ca_touched := now\<rparr>)"
    using old [of i] by (cases "cache i") (auto simp: cached_ok_def zero_cached_def)
  then show ?thesis
    using d s old by (auto simp: settle_auth_def touch_cache_def split: sum.splits if_splits)
qed

lemma settle_log:
  assumes s: "settle_auth cache i c hash now = (r, cache')" and x: "x \<in> set (accepted_auth now (au_now st) hash r)"
    and snap: "snapshot st i (ca_key c, ca_hash c) t" and t: "now \<le> t + cacheTTL" "now \<le> au_now st"
  shows "log_ok st x"
proof -
  have k: "x = (now, au_now st, hash, ca_key c)" "ca_hash c = hash" "key_active now (ca_key c)"
    using s x by (auto simp: settle_auth_def check_cached_def accepted_auth_def split: sum.splits if_splits)
  then show ?thesis using snap t by (force simp: log_ok_def snapshot_def key_active_def)
qed

lemma hit_snapshot:
  assumes inv: "auth_inv st" and h: "cache_hit (au_cache st p) i began = Some c" and b: "0 < began"
  shows "snapshot st i (ca_key c, ca_hash c) (ca_expires c - cacheTTL) \<and> began \<le> ca_expires c"
proof -
  have c: "au_cache st p i = Some c" "began \<le> ca_expires c" using h by (auto simp: cache_hit_def split: option.splits if_splits)
  then have "cached_ok st i c" using inv by (auto simp: auth_inv_def)
  then show ?thesis using c(2) b by (auto simp: cached_ok_def)
qed

lemma fill_snapshot:
  assumes "snapshot st i r t"
  shows "snapshot st i (ca_key (fill_cached r t touched), ca_hash (fill_cached r t touched)) t"
    and "cached_ok st i (fill_cached r t touched)"
  using assms by (simp_all add: fill_cached_def cached_ok_def)

lemma auth_inv_settled:
  assumes inv: "auth_inv st"
    and entries: "\<And>j d. cache j = Some d \<Longrightarrow> cached_ok st j d"
    and log: "\<And>x. x \<in> set new \<Longrightarrow> log_ok st x" and calls: "set calls \<subseteq> set (au_calls st)"
  shows "auth_inv (st\<lparr>au_cache := (au_cache st)(p := cache), au_log := new @ au_log st, au_calls := calls\<rparr>)" (is "auth_inv ?st")
proof -
  have same: "cached_ok ?st = cached_ok st" "log_ok ?st = log_ok st" "call_ok ?st = call_ok st"
    by (simp_all add: cached_ok_def log_ok_def call_ok_def snapshot_def fun_eq_iff)
  have l: "later st ?st" by (rule later_same) simp_all
  show ?thesis
  proof (rule auth_inv_later [OF inv l])
    show "distinct (map (\<lambda>r. ak_id (fst r)) (au_keys ?st))" using inv by (simp add: auth_inv_def)
    show "u \<le> au_now ?st \<and> (\<exists>r \<in> set (au_keys ?st). ak_id (fst r) = i \<and> ak_revokedAt (fst r) \<noteq> None)"
      if "(i, u) \<in> set (au_revoked ?st)" for i u using auth_inv_revoked [OF inv] that by simp
    show "au_cache st q i = Some c \<or> cached_ok ?st i c" if "au_cache ?st q i = Some c" for q i c
      using that entries unfolding same by (auto split: if_splits)
    show "c \<in> set (au_calls st) \<or> call_ok ?st c" if "c \<in> set (au_calls ?st)" for c using that calls by auto
    show "x \<in> set (au_log st) \<or> log_ok ?st x" if "x \<in> set (au_log ?st)" for x
      using that log [of x] unfolding same by (cases "x \<in> set new") simp_all
  qed
qed

lemma auth_inv_keys:
  assumes inv: "auth_inv st" and d: "distinct (map (\<lambda>r. ak_id (fst r)) keys)"
    and keep: "\<And>r. r \<in> set (au_keys st) \<Longrightarrow> \<exists>q \<in> set keys. same_key q r \<and> (ak_revokedAt (fst r) \<noteq> None \<longrightarrow> ak_revokedAt (fst q) \<noteq> None)"
    and rev: "set new \<subseteq> {(i, u). u = au_now st \<and> (\<exists>r \<in> set keys. ak_id (fst r) = i \<and> ak_revokedAt (fst r) \<noteq> None)}"
  shows "auth_inv (st\<lparr>au_keys := keys, au_revoked := new @ au_revoked st\<rparr>)" (is "auth_inv ?st")
proof -
  have l: "later st ?st" using keep rev unfolding later_def by fastforce
  show ?thesis
  proof (rule auth_inv_later [OF inv l])
    show "distinct (map (\<lambda>r. ak_id (fst r)) (au_keys ?st))" using d by simp
    show "u \<le> au_now ?st \<and> (\<exists>r \<in> set (au_keys ?st). ak_id (fst r) = i \<and> ak_revokedAt (fst r) \<noteq> None)"
      if iu: "(i, u) \<in> set (au_revoked ?st)" for i u
    proof (cases "(i, u) \<in> set new")
      case True
      then show ?thesis using rev by auto
    next
      case False
      then have "(i, u) \<in> set (au_revoked st)" using iu by simp
      from auth_inv_revoked [OF inv this] obtain r where "u \<le> au_now st" "r \<in> set (au_keys st)" "ak_id (fst r) = i"
        "ak_revokedAt (fst r) \<noteq> None" by blast
      moreover obtain q where "q \<in> set keys" "same_key q r" "ak_revokedAt (fst q) \<noteq> None"
        using keep calculation by blast
      ultimately show ?thesis by (auto simp: same_key_def)
    qed
  qed simp_all
qed

lemma createKey_keys:
  assumes "createKey sha keys now newid secret i = Inr (k, token, keys')"
  shows "keys' = keys @ [(k, sha token)] \<and> ak_id k = newid \<and> newid \<notin> (\<lambda>r. ak_id (fst r)) ` set keys"
  using assms by (auto simp: createKey_def Let_def key_by_def row_by_None_iff split: if_splits)

lemma revokeKey_keys:
  assumes "revokeKey keys now i = Inr keys'"
  shows "map (\<lambda>r. ak_id (fst r)) keys' = map (\<lambda>r. ak_id (fst r)) keys"
    and "\<exists>q \<in> set keys'. ak_id (fst q) = i \<and> ak_revokedAt (fst q) \<noteq> None"
    and "r \<in> set keys \<Longrightarrow> \<exists>q \<in> set keys'. same_key q r \<and> (ak_revokedAt (fst r) \<noteq> None \<longrightarrow> ak_revokedAt (fst q) \<noteq> None)"
proof -
  let ?f = "\<lambda>x. ((fst x)\<lparr>ak_revokedAt := Some now\<rparr>, snd x)"
  obtain x where x: "key_by keys i = Some x" and c: "ak_revokedAt (fst x) \<noteq> None \<and> keys' = keys \<or>
      keys' = update_rows (\<lambda>x. ak_id (fst x) = i) ?f keys"
    using assms by (auto simp: revokeKey_def split: option.splits if_splits)
  note mem = key_by_Some [OF x]
  show "map (\<lambda>r. ak_id (fst r)) keys' = map (\<lambda>r. ak_id (fst r)) keys"
    using c by (auto simp: update_rows_def)
  show "\<exists>q \<in> set keys'. ak_id (fst q) = i \<and> ak_revokedAt (fst q) \<noteq> None"
    using c
  proof
    assume "ak_revokedAt (fst x) \<noteq> None \<and> keys' = keys"
    then show ?thesis using mem by blast
  next
    assume "keys' = update_rows (\<lambda>x. ak_id (fst x) = i) ?f keys"
    then have "?f x \<in> set keys'" using mem by (force simp: update_rows_def)
    then show ?thesis using mem by (intro bexI [of _ "?f x"]) simp_all
  qed
  assume r: "r \<in> set keys"
  from c show "\<exists>q \<in> set keys'. same_key q r \<and> (ak_revokedAt (fst r) \<noteq> None \<longrightarrow> ak_revokedAt (fst q) \<noteq> None)"
  proof
    assume "ak_revokedAt (fst x) \<noteq> None \<and> keys' = keys"
    then show ?thesis using r same_key_refl by blast
  next
    assume k: "keys' = update_rows (\<lambda>x. ak_id (fst x) = i) ?f keys"
    let ?q = "if ak_id (fst r) = i then ?f r else r"
    have "?q \<in> set keys'" using r unfolding k update_rows_def by auto
    then show ?thesis by (intro bexI [of _ ?q]) (auto simp: same_key_def)
  qed
qed

lemma use_key_keys:
  "map (\<lambda>r. ak_id (fst r)) (use_key keys now i) = map (\<lambda>r. ak_id (fst r)) keys"
  "r \<in> set keys \<Longrightarrow> \<exists>q \<in> set (use_key keys now i). same_key q r \<and> (ak_revokedAt (fst r) \<noteq> None \<longrightarrow> ak_revokedAt (fst q) \<noteq> None)"
proof -
  let ?f = "\<lambda>x. ((fst x)\<lparr>ak_lastUsedAt := Some now\<rparr>, snd x)"
  show "map (\<lambda>r. ak_id (fst r)) (use_key keys now i) = map (\<lambda>r. ak_id (fst r)) keys"
    by (auto simp: use_key_def update_rows_def)
  assume r: "r \<in> set keys"
  let ?q = "if ak_id (fst r) = i then ?f r else r"
  have "?q \<in> set (use_key keys now i)" using r unfolding use_key_def update_rows_def by auto
  then show "\<exists>q \<in> set (use_key keys now i). same_key q r \<and> (ak_revokedAt (fst r) \<noteq> None \<longrightarrow> ak_revokedAt (fst q) \<noteq> None)"
    by (intro bexI [of _ ?q]) (auto simp: same_key_def)
qed

lemma auth_inv_calls:
  assumes inv: "auth_inv st" and calls: "\<And>c. c \<in> set calls \<Longrightarrow> c \<in> set (au_calls st) \<or> call_ok st c"
  shows "auth_inv (st\<lparr>au_calls := calls\<rparr>)" (is "auth_inv ?st")
proof -
  have l: "later st ?st" by (rule later_same) simp_all
  have same: "call_ok ?st = call_ok st" by (simp add: call_ok_def snapshot_def fun_eq_iff)
  show ?thesis
    by (rule auth_inv_later [OF inv l]) (use inv auth_inv_revoked [OF inv] calls same in \<open>auto simp: auth_inv_def\<close>)
qed

lemma auth_inv_cache:
  "auth_inv st \<Longrightarrow> au_cache st p j = Some d \<Longrightarrow> cached_ok st j d"
  by (simp add: auth_inv_def)

lemma authenticate_ok:
  assumes inv: "auth_inv st" and a: "authenticate sha (au_keys st) (au_cache st p) (au_now st) token = (r, cache)"
  shows "(\<forall>j d. cache j = Some d \<longrightarrow> cached_ok st j d) \<and> (\<forall>x \<in> set (accepted_auth (au_now st) (au_now st) (sha token) r). log_ok st x)"
proof (cases "parseToken token")
  case None
  then show ?thesis using a auth_inv_cache [OF inv] by (auto simp: authenticate_def accepted_auth_def)
next
  case (Some i)
  note parsed = this
  show ?thesis
  proof (cases "cache_hit (au_cache st p) i (au_now st)")
    case (Some c)
    then have s: "settle_auth (au_cache st p) i c (sha token) (au_now st) = (r, cache)"
      using a parsed by (simp add: authenticate_def)
    have "0 < au_now st" using inv by (simp add: auth_inv_def)
    note h = hit_snapshot [OF inv Some this]
    have "log_ok st x" if "x \<in> set (accepted_auth (au_now st) (au_now st) (sha token) r)" for x
      using settle_log [OF s that conjunct1 [OF h]] h by simp
    moreover have "cached_ok st j d" if "cache j = Some d" for j d
      by (rule settle_entries [OF s _ that]) (rule auth_inv_cache [OF inv])
    ultimately show ?thesis by blast
  next
    case miss: None
    show ?thesis
    proof (cases "key_by (au_keys st) i")
      case None
      then show ?thesis using a parsed miss auth_inv_cache [OF inv] by (auto simp: authenticate_def accepted_auth_def)
    next
      case (Some row)
      let ?c = "fill_cached row (au_now st) (touched_of (au_cache st p) i)"
      have s: "settle_auth ((au_cache st p)(i \<mapsto> ?c)) i ?c (sha token) (au_now st) = (r, cache)"
        using a parsed miss Some by (simp add: authenticate_def Let_def)
      note e = fill_snapshot [OF read_snapshot [OF inv Some order_refl], of "touched_of (au_cache st p) i"]
      have entries: "cached_ok st j d" if "((au_cache st p)(i \<mapsto> ?c)) j = Some d" for j d
        using that e(2) auth_inv_cache [OF inv] by (auto split: if_splits)
      have "log_ok st x" if "x \<in> set (accepted_auth (au_now st) (au_now st) (sha token) r)" for x
        using settle_log [OF s that e(1)] by (simp add: cacheTTL_def)
      moreover have "cached_ok st j d" if "cache j = Some d" for j d
        by (rule settle_entries [OF s _ that]) (rule entries)
      ultimately show ?thesis by blast
    qed
  qed
qed

lemma auth_step_inv:
  assumes step: "auth_step sha st st'" and inv: "auth_inv st"
  shows "auth_inv st'"
  using step
proof cases
  case (pass now)
  have l: "later st st'" by (rule later_same) (use pass in simp_all)
  show ?thesis
    by (rule auth_inv_later [OF inv l]) (use pass inv auth_inv_revoked [OF inv] in \<open>auto simp: auth_inv_def intro: order_trans\<close>)
next
  case (create now newid secret i k token keys)
  note k = createKey_keys [OF create(2)]
  have "auth_inv (st\<lparr>au_keys := keys, au_revoked := [] @ au_revoked st\<rparr>)"
  proof (rule auth_inv_keys [OF inv])
    show "distinct (map (\<lambda>r. ak_id (fst r)) keys)" using k inv by (simp add: auth_inv_def)
    show "\<exists>q \<in> set keys. same_key q r \<and> (ak_revokedAt (fst r) \<noteq> None \<longrightarrow> ak_revokedAt (fst q) \<noteq> None)"
      if "r \<in> set (au_keys st)" for r
      using that k by (intro bexI [of _ r]) simp_all
  qed simp
  then show ?thesis using create(1) by simp
next
  case (found began token i p c r cache)
  note h = hit_snapshot [OF inv found(5,2)]
  have "auth_inv (st\<lparr>au_cache := (au_cache st)(p := cache),
      au_log := accepted_auth began (au_now st) (sha token) r @ au_log st, au_calls := au_calls st\<rparr>)"
  proof (rule auth_inv_settled [OF inv])
    show "cached_ok st j d" if "cache j = Some d" for j d
      by (rule settle_entries [OF found(6) _ that]) (rule auth_inv_cache [OF inv])
    show "log_ok st x" if "x \<in> set (accepted_auth began (au_now st) (sha token) r)" for x
      using settle_log [OF found(6) that conjunct1 [OF h]] h found(3) by simp
  qed simp
  then show ?thesis using found(1) by simp
next
  case (look began token i p)
  have "auth_inv (st\<lparr>au_calls := \<lparr>lk_process = p, lk_id = i, lk_hash = sha token, lk_now = began,
      lk_touched = touched_of (au_cache st p) i, lk_row = None\<rparr> # au_calls st\<rparr>)"
    by (rule auth_inv_calls [OF inv]) (use look(3) in \<open>auto simp: call_ok_def\<close>)
  then show ?thesis using look(1) by simp
next
  case (read n r)
  have old: "call_ok st (au_calls st ! n)" using inv read(2) by (auto simp: auth_inv_def)
  have "auth_inv (st\<lparr>au_calls := (au_calls st)[n := (au_calls st ! n)\<lparr>lk_row := Some r\<rparr>]\<rparr>)"
  proof (rule auth_inv_calls [OF inv])
    fix c assume "c \<in> set ((au_calls st)[n := (au_calls st ! n)\<lparr>lk_row := Some r\<rparr>])"
    then have "c \<in> set (au_calls st) \<or> c = (au_calls st ! n)\<lparr>lk_row := Some r\<rparr>"
      using set_update_subset_insert by fastforce
    then show "c \<in> set (au_calls st) \<or> call_ok st c"
      using old read_snapshot [OF inv read(3)] by (auto simp: call_ok_def)
  qed
  then show ?thesis using read(1) by simp
next
  case (fill c row e r cache)
  have snap: "snapshot st (lk_id c) row (lk_now c)" "lk_now c \<le> au_now st"
    using inv fill(2,3) unfolding auth_inv_def call_ok_def by blast+
  note e = fill_snapshot [OF snap(1), of "lk_touched c", folded fill(4)]
  have entries: "cached_ok st j d" if "((au_cache st (lk_process c))(lk_id c \<mapsto> e)) j = Some d" for j d
    using that e(2) auth_inv_cache [OF inv] by (auto split: if_splits)
  have "auth_inv (st\<lparr>au_cache := (au_cache st)(lk_process c := cache),
      au_log := accepted_auth (lk_now c) (au_now st) (lk_hash c) r @ au_log st, au_calls := remove1 c (au_calls st)\<rparr>)"
  proof (rule auth_inv_settled [OF inv])
    show "cached_ok st j d" if "cache j = Some d" for j d
      by (rule settle_entries [OF fill(5) _ that]) (rule entries)
    show "log_ok st x" if "x \<in> set (accepted_auth (lk_now c) (au_now st) (lk_hash c) r)" for x
      using settle_log [OF fill(5) that e(1)] snap(2) by (simp add: cacheTTL_def)
  qed (simp add: set_remove1_subset)
  then show ?thesis using fill(1) by simp
next
  case (whole p token r cache)
  have "(\<forall>j d. cache j = Some d \<longrightarrow> cached_ok st j d) \<and> (\<forall>x \<in> set (accepted_auth (au_now st) (au_now st) (sha token) r). log_ok st x)"
    by (rule authenticate_ok [OF inv whole(2)])
  then have "auth_inv (st\<lparr>au_cache := (au_cache st)(p := cache), au_log := accepted_auth (au_now st) (au_now st) (sha token) r @ au_log st,
      au_calls := au_calls st\<rparr>)"
    by (intro auth_inv_settled [OF inv]) blast+
  then show ?thesis using whole(1) by simp
next
  case (revoke now i keys)
  note k = revokeKey_keys [OF revoke(3)]
  have "auth_inv (st\<lparr>au_keys := keys, au_revoked := [(i, au_now st)] @ au_revoked st\<rparr>)"
  proof (rule auth_inv_keys [OF inv])
    show "distinct (map (\<lambda>r. ak_id (fst r)) keys)" using inv unfolding k(1) by (simp add: auth_inv_def)
  qed (use k in auto)
  then show ?thesis using revoke(1) by simp
next
  case (forget p i)
  have "auth_inv (st\<lparr>au_cache := (au_cache st)(p := forget_key (au_cache st p) i), au_log := [] @ au_log st, au_calls := au_calls st\<rparr>)"
    by (rule auth_inv_settled [OF inv]) (use auth_inv_cache [OF inv] in \<open>auto simp: forget_key_def split: if_splits\<close>)
  then show ?thesis using forget by simp
next
  case (uses now i)
  have "auth_inv (st\<lparr>au_keys := use_key (au_keys st) now i, au_revoked := [] @ au_revoked st\<rparr>)"
  proof (rule auth_inv_keys [OF inv])
    show "distinct (map (\<lambda>r. ak_id (fst r)) (use_key (au_keys st) now i))"
      using inv unfolding use_key_keys(1) by (simp add: auth_inv_def)
  qed (use use_key_keys(2) in auto)
  then show ?thesis using uses by simp
next
  case (stop q)
  have "auth_inv (st\<lparr>au_calls := filter q (au_calls st)\<rparr>)" by (rule auth_inv_calls [OF inv]) auto
  then show ?thesis using stop by simp
qed

lemma auth_run_inv: "(auth_step sha)\<^sup>*\<^sup>* (auth_start now) st \<Longrightarrow> 0 < now \<Longrightarrow> auth_inv st"
proof (induction rule: rtranclp_induct)
  case base
  then show ?case by (simp add: auth_start_def auth_inv_def)
next
  case (step st st')
  then show ?case using auth_step_inv by blast
qed

section \<open>Who is accepted\<close>

text \<open>
  C10. Whenever some process accepts a token, the key is stored with the hash of that token and with its role,
  and when that authentication started, the key had not expired, and had not been revoked more than the lifetime
  of a cache entry before: an authentication that starts later than that after the revocation is refused,
  whatever the caches of the processes held and however their reads interleaved with the revocation. One that
  started earlier may return, and be accepted, at any later time: it goes by the clock at its start.
\<close>

theorem accepted_keys:
  assumes "(auth_step sha)\<^sup>*\<^sup>* (auth_start start) st" "0 < start" "(began, returned, hash, k) \<in> set (au_log st)"
  shows "(\<exists>r \<in> set (au_keys st). ak_id (fst r) = ak_id k \<and> ak_role (fst r) = ak_role k \<and> snd r = hash) \<and>
    began \<le> returned \<and> returned \<le> au_now st \<and>
    (case ak_expiresAt k of None \<Rightarrow> True | Some t \<Rightarrow> began < t) \<and>
    (\<forall>u. (ak_id k, u) \<in> set (au_revoked st) \<longrightarrow> began \<le> u + 10 * 10 ^ 9)"
proof -
  have "log_ok st (began, returned, hash, k)" using auth_run_inv [OF assms(1,2)] assms(3) unfolding auth_inv_def by blast
  then obtain r where r: "r \<in> set (au_keys st)" "same_key r (k, hash)"
    and l: "began \<le> returned" "returned \<le> au_now st" "case ak_expiresAt k of None \<Rightarrow> True | Some t \<Rightarrow> began < t"
      "\<forall>u. (ak_id k, u) \<in> set (au_revoked st) \<longrightarrow> began \<le> u + 10 * 10 ^ 9"
    by (auto simp: log_ok_def cacheTTL_def)
  from r(2) have "ak_id (fst r) = ak_id k \<and> ak_role (fst r) = ak_role k \<and> snd r = hash" by (simp add: same_key_def)
  with r(1) l show ?thesis by blast
qed

section \<open>The last admin\<close>

text \<open>
  C24. Revoking a key never leaves the service without an active admin key when there was one.
\<close>

theorem admin_stays:
  assumes "(auth_step sha)\<^sup>*\<^sup>* (auth_start start) st" "0 < start"
    and "revokeKey (au_keys st) now i = Inr keys" "0 < activeAdmins (au_keys st) now"
  shows "0 < activeAdmins keys now"
proof -
  let ?f = "\<lambda>x. ((fst x)\<lparr>ak_revokedAt := Some now\<rparr>, snd x)"
  have d: "inj_on (\<lambda>r. ak_id (fst r)) (set (au_keys st))"
    using auth_run_inv [OF assms(1,2)] by (simp add: auth_inv_def distinct_map)
  obtain x where x: "key_by (au_keys st) i = Some x" using assms(3) by (auto simp: revokeKey_def split: option.splits)
  note mem = key_by_Some [OF x]
  obtain a where a: "a \<in> set (au_keys st)" "active_admin now a"
    using assms(4) by (auto simp: activeAdmins_def filter_empty_conv)
  have "\<exists>b \<in> set keys. active_admin now b"
  proof (cases "keys = au_keys st")
    case False
    then have keys: "keys = update_rows (\<lambda>x. ak_id (fst x) = i) ?f (au_keys st)"
      and other: "ak_role (fst x) = RoleAdmin \<longrightarrow> (\<exists>b \<in> set (au_keys st). active_admin now b \<and> ak_id (fst b) \<noteq> i)"
      using assms(3) x by (auto simp: revokeKey_def filter_empty_conv split: if_splits)
    have kept: "b \<in> set keys" if "b \<in> set (au_keys st)" "ak_id (fst b) \<noteq> i" for b
      using that unfolding keys update_rows_def by (force simp: image_iff)
    show ?thesis
    proof (cases "ak_id (fst a) = i")
      case True
      then have "a = x" using d a(1) mem by (metis inj_onD)
      then have "ak_role (fst x) = RoleAdmin" using a(2) by (simp add: active_admin_def)
      then show ?thesis using other kept by blast
    next
      case False
      then show ?thesis using a kept by blast
    qed
  qed (use a in blast)
  then show ?thesis by (auto simp: activeAdmins_def filter_empty_conv)
qed

section \<open>Tokens\<close>

lemma b64_length: "length (b64 s) = encodedLen (length s)"
  by (induction s rule: b64.induct) (simp_all add: encodedLen_def)

lemma parse_token_of:
  assumes "length i = 16" "length secret = secretBytes"
  shows "parseToken (key_token i secret) = Some i"
proof -
  let ?s = "drop 4 (encodeID ''key'' i)"
  have e: "encodeID ''key'' i = ''key_'' @ ?s" "length ?s = 26"
    by (simp_all add: encodeID_def suffixLen_def)
  have "cutPrefix (encodeID ''key'' i) ''key_'' = Some ?s" using e(1) cutPrefix_Some by blast
  then have t: "key_token i secret = ''sk_'' @ ?s @ ''_'' @ b64 secret" by (simp add: key_token_def)
  have "cutPrefix (key_token i secret) ''sk_'' = Some (?s @ ''_'' @ b64 secret)" unfolding t cutPrefix_append ..
  moreover have "take 26 (?s @ ''_'' @ b64 secret) = ?s" "(?s @ ''_'' @ b64 secret) ! 26 = CHR ''_''"
    "length (?s @ ''_'' @ b64 secret) = 26 + 1 + encodedLen secretBytes"
    using e(2) b64_length [of secret] assms(2) by (simp_all add: nth_append del: length_drop)
  moreover have "parseID ''key'' (''key_'' @ ?s) = Inr i" using parse_encode [OF assms(1), of "''key''"] e(1) by simp
  ultimately show ?thesis by (simp add: parseToken_def del: length_drop)
qed

text \<open>
  The token of a key is read back as the id of that key.
\<close>

theorem token_id:
  assumes "length i = 16" "length secret = secretBytes"
  shows "parseToken (key_token i secret) = Some i"
  by (rule parse_token_of [OF assms])

section \<open>A small run\<close>

definition sample_key_id :: uuid_bytes where
  "sample_key_id = replicate 16 0"

definition sample_secret :: "nat list" where
  "sample_secret = replicate 32 7"

definition sample_key_input :: createKeyInput where
  "sample_key_input = \<lparr>ck_name = ''a'', ck_role = RoleAdmin, ck_expiresAt = None, ck_createdBy = None\<rparr>"

definition sample_key :: api_key where
  "sample_key = \<lparr>ak_id = sample_key_id, ak_name = ''a'', ak_role = RoleAdmin,
     ak_hint = drop (length (key_token sample_key_id sample_secret) - 4) (key_token sample_key_id sample_secret),
     ak_createdBy = None, ak_createdAt = 1000, ak_expiresAt = None, ak_revokedAt = None, ak_lastUsedAt = None\<rparr>"

definition sample_key_state :: auth_state where
  "sample_key_state = (auth_start 1000)\<lparr>au_keys := [(sample_key, key_token sample_key_id sample_secret)]\<rparr>"

lemma token_id_witness: "parseToken (key_token sample_key_id sample_secret) = Some sample_key_id"
  using token_id [of sample_key_id sample_secret] by (simp add: sample_key_id_def sample_secret_def secretBytes_def)

lemma sample_key_step: "auth_step (\<lambda>s. s) (auth_start 1000) sample_key_state"
proof -
  have "\<not> blank_text ''a''" by code_simp
  then have "createKey (\<lambda>s. s) [] 1000 sample_key_id sample_secret sample_key_input =
      Inr (sample_key, key_token sample_key_id sample_secret, [(sample_key, key_token sample_key_id sample_secret)])"
    by (simp add: createKey_def sample_key_input_def role_valid_def key_by_def sample_key_def Let_def maxNameLen_def)
  then show ?thesis
    using auth_step.create [of "\<lambda>s. s" "auth_start 1000" 1000] by (simp add: auth_start_def sample_key_state_def)
qed

lemma sample_key_state_run: "(auth_step (\<lambda>s. s))\<^sup>*\<^sup>* (auth_start 1000) sample_key_state"
  using sample_key_step by (rule r_into_rtranclp)

lemma sample_authenticates:
  "fst (authenticate (\<lambda>s. s) (au_keys sample_key_state) (\<lambda>i. None) 1000 (key_token sample_key_id sample_secret)) = Inr sample_key"
proof -
  have "parseToken (key_token sample_key_id sample_secret) = Some sample_key_id"
    using parse_token_of [of sample_key_id sample_secret] by (simp add: sample_key_id_def sample_secret_def secretBytes_def)
  then show ?thesis
    by (simp add: authenticate_def cache_hit_def key_by_def sample_key_state_def Let_def settle_auth_def check_cached_def
        fill_cached_def key_active_def) (simp add: sample_key_def)
qed

definition sample_auth_state :: auth_state where
  "sample_auth_state = sample_key_state\<lparr>au_cache := (\<lambda>p i. None)(0 := snd (authenticate (\<lambda>s. s) (au_keys sample_key_state)
       (\<lambda>i. None) 1000 (key_token sample_key_id sample_secret))),
     au_log := [(1000, 1000, key_token sample_key_id sample_secret, sample_key)]\<rparr>"

lemma sample_auth_run: "(auth_step (\<lambda>s. s))\<^sup>*\<^sup>* (auth_start 1000) sample_auth_state"
proof -
  have st: "au_cache sample_key_state = (\<lambda>p i. None)" "au_now sample_key_state = 1000" "au_log sample_key_state = []"
    by (simp_all add: sample_key_state_def auth_start_def)
  obtain cache where a: "authenticate (\<lambda>s. s) (au_keys sample_key_state) (\<lambda>i. None) 1000 (key_token sample_key_id sample_secret) =
      (Inr sample_key, cache)"
    using sample_authenticates by (cases "authenticate (\<lambda>s. s) (au_keys sample_key_state) (\<lambda>i. None) 1000 (key_token sample_key_id sample_secret)") simp
  have "auth_step (\<lambda>s. s) sample_key_state sample_auth_state"
    using auth_step.whole [of "\<lambda>s. s" sample_key_state 0 "key_token sample_key_id sample_secret" "Inr sample_key" cache] a
    by (simp add: st sample_auth_state_def accepted_auth_def)
  then show ?thesis using sample_key_state_run by (meson rtranclp.rtrancl_into_rtrancl)
qed

lemma accepted_keys_witness:
  "(1000, 1000, key_token sample_key_id sample_secret, sample_key) \<in> set (au_log sample_auth_state) \<and>
   (\<exists>r \<in> set (au_keys sample_auth_state). ak_id (fst r) = sample_key_id \<and> snd r = key_token sample_key_id sample_secret)"
proof -
  have l: "(1000, 1000, key_token sample_key_id sample_secret, sample_key) \<in> set (au_log sample_auth_state)"
    by (simp add: sample_auth_state_def)
  have "ak_id sample_key = sample_key_id" by (simp add: sample_key_def)
  then show ?thesis using accepted_keys [OF sample_auth_run _ l] l by auto
qed

definition sample_two_admins :: auth_state where
  "sample_two_admins = sample_key_state\<lparr>au_keys := au_keys sample_key_state @
     [(sample_key\<lparr>ak_id := replicate 16 1, ak_hint := drop (length (key_token (replicate 16 1) sample_secret) - 4)
         (key_token (replicate 16 1) sample_secret)\<rparr>, key_token (replicate 16 1) sample_secret)]\<rparr>"

lemma sample_two_admins_run: "(auth_step (\<lambda>s. s))\<^sup>*\<^sup>* (auth_start 1000) sample_two_admins"
proof -
  have "\<not> blank_text ''a''" by code_simp
  then have "createKey (\<lambda>s. s) (au_keys sample_key_state) 1000 (replicate 16 1) sample_secret sample_key_input =
      Inr (fst (last (au_keys sample_two_admins)), key_token (replicate 16 1) sample_secret, au_keys sample_two_admins)"
    by (simp add: createKey_def sample_key_input_def role_valid_def key_by_def sample_key_def Let_def maxNameLen_def
        sample_two_admins_def sample_key_state_def sample_key_id_def)
  then have "auth_step (\<lambda>s. s) sample_key_state sample_two_admins"
    using auth_step.create [of "\<lambda>s. s" sample_key_state 1000] by (simp add: sample_two_admins_def)
  then show ?thesis using sample_key_state_run by (meson rtranclp.rtrancl_into_rtrancl)
qed

lemma admin_stays_witness:
  "\<exists>keys. revokeKey (au_keys sample_two_admins) 1000 sample_key_id = Inr keys \<and> 0 < activeAdmins keys 1000"
proof -
  have "\<exists>keys. revokeKey (au_keys sample_two_admins) 1000 sample_key_id = Inr keys"
    by (simp add: revokeKey_def key_by_def sample_two_admins_def sample_key_state_def sample_key_def active_admin_def
        sample_key_id_def)
  moreover have "0 < activeAdmins (au_keys sample_two_admins) 1000"
    by (simp add: activeAdmins_def sample_two_admins_def sample_key_state_def sample_key_def active_admin_def)
  ultimately show ?thesis using admin_stays [OF sample_two_admins_run] by auto
qed

end
