(* ===== verification/Listings.thy ===== *)
theory Listings
  imports Holds Ledgers
begin

text \<open>
  The lists of transactions and holds: \<^verbatim>\<open>listTransactions\<close> of \<^verbatim>\<open>service.go\<close> with the statement of
  \<^verbatim>\<open>store_transactions.go\<close>, and \<^verbatim>\<open>listHolds\<close> of \<^verbatim>\<open>holds.go\<close>. A page of transactions is chosen by the rows of the
  transactions alone; their entries are joined afterwards.
\<close>

section \<open>Transactions\<close>

record txnList =
  xl_ledger :: uuid
  xl_status :: txn_status
  xl_externalID :: string
  xl_account :: uuid
  xl_metadata :: metadata_filter
  xl_effective :: effectiveRange
  xl_before :: uuid
  xl_limit :: int

text \<open>The status of a filter: the empty one selects every status.\<close>

definition status_filter :: "txn_status \<Rightarrow> txn_status option" where
  "status_filter s = (if s = NoStatus then None else Some s)"

definition txn_mentions :: "db \<Rightarrow> txn_row \<Rightarrow> uuid \<Rightarrow> bool" where
  "txn_mentions d r a \<longleftrightarrow>
     list_ex (\<lambda>p. pr_txn p = tr_id r \<and> pr_account p = a) (db_postings d) \<or>
     list_ex (\<lambda>e. pe_txn e = tr_id r \<and> pe_account e = a \<and> pe_version e = tr_entriesVersion r) (db_pending d)"

definition listed_txn :: "db \<Rightarrow> txnList \<Rightarrow> txn_row \<Rightarrow> bool" where
  "listed_txn d i r \<longleftrightarrow>
     (case nullUUID (xl_account i) of None \<Rightarrow> True | Some a \<Rightarrow> txn_mentions d r a) \<and>
     opt_matches (nullUUID (xl_ledger i)) (tr_ledger r) \<and>
     opt_matches (status_filter (xl_status i)) (tr_status r) \<and>
     (case nullString (xl_externalID i) of None \<Rightarrow> True | Some e \<Rightarrow> tr_externalID r = Some e) \<and>
     metadata_matches (xl_metadata i) (tr_metadata r) \<and>
     in_interval (xl_effective i) (tr_effectiveAt r)"

definition selectTransactionPage :: "db \<Rightarrow> txnList \<Rightarrow> transaction list" where
  "selectTransactionPage d i =
     map (row_txn d) (filter (\<lambda>r. row_entries d r \<noteq> [])
       (page tr_id (listed_txn d i) (xl_before i) (nat (xl_limit i)) (db_txns d)))"

definition listTransactions :: "db \<Rightarrow> txnList \<Rightarrow> transaction list res" where
  "listTransactions d i =
     (if \<not> limit_ok (xl_limit i) then Inl ErrInvalid
      else if xl_status i \<notin> {NoStatus, Pending, Posted, Archived} then Inl ErrInvalid
      else bindR (validateMetadataFilter (xl_metadata i)) (\<lambda>_.
           bindR (validateRange (xl_effective i)) (\<lambda>_. Inr (selectTransactionPage d i))))"

section \<open>Holds\<close>

record holdList =
  hl_account :: uuid
  hl_status :: string
  hl_before :: uuid
  hl_limit :: int

fun hold_status_text :: "hold_status \<Rightarrow> string" where
  "hold_status_text HoldPending = ''pending''"
| "hold_status_text HoldCaptured = ''captured''"
| "hold_status_text HoldVoided = ''voided''"
| "hold_status_text HoldExpired = ''expired''"

definition listed_hold :: "holdList \<Rightarrow> hold \<Rightarrow> bool" where
  "listed_hold i h \<longleftrightarrow>
     opt_matches (nullUUID (hl_account i)) (h_account h) \<and>
     opt_matches (nullString (hl_status i)) (hold_status_text (h_status h))"

definition listHolds :: "db \<Rightarrow> holdList \<Rightarrow> hold list res" where
  "listHolds d i =
     (if \<not> limit_ok (hl_limit i) then Inl ErrInvalid
      else if hl_status i \<notin> set ([] # map hold_status_text [HoldPending, HoldCaptured, HoldVoided, HoldExpired])
      then Inl ErrInvalid
      else Inr (page h_id (listed_hold i) (hl_before i) (nat (hl_limit i)) (db_holds d)))"

end
