(* ===== verification/Api.thy ===== *)
theory Api
  imports Listings History Batcher Bulk Webhooks Base64
begin

text \<open>
  The HTTP interface of the ledger: what \<^verbatim>\<open>http.go\<close> and \<^verbatim>\<open>kernel/httpx\<close> read from a request and write to a
  response. A request is its path values, its decoded query and its idempotency key; the decoding of a JSON
  body into the struct of a handler is an argument, either the text of an error or the value. An id is
  rendered with its prefix, a list as a page with the cursor of the next one. A response is a status with a
  resource, or a problem.
\<close>

section \<open>Requests and responses\<close>

record http_request =
  hr_path :: "(string \<times> string) list"
  hr_query :: "(string \<times> string list) list"
  hr_key :: string

definition pathValue :: "http_request \<Rightarrow> string \<Rightarrow> string" where
  "pathValue r name = or_zero [] (map_of (hr_path r) name)"

definition queryGet :: "http_request \<Rightarrow> string \<Rightarrow> string" where
  "queryGet r name = (case map_of (hr_query r) name of Some (v # _) \<Rightarrow> v | _ \<Rightarrow> [])"

text \<open>The detail of a problem: nothing, a text, or the text of an error, after the name of a parameter or not.\<close>

datatype detail = NoDetail | Words string | Caused err | About string err

record problem =
  pb_status :: nat
  pb_code :: string
  pb_detail :: detail

type_synonym 'r reply = "problem + nat \<times> 'r"

definition invalid_request :: "detail \<Rightarrow> problem" where
  "invalid_request t = \<lparr>pb_status = 400, pb_code = ''invalid_request'', pb_detail = t\<rparr>"

definition error_problem :: "err \<Rightarrow> problem" where
  "error_problem e =
     (case problemFor e of (status, c, text) \<Rightarrow>
        \<lparr>pb_status = status, pb_code = c, pb_detail = (case text of None \<Rightarrow> NoDetail | Some e \<Rightarrow> Caused e)\<rparr>)"

text \<open>\<^verbatim>\<open>operation.fail\<close>: an error that the domain knows is returned as such, any other one with the operation's name
  before it, which no response shows.\<close>

definition op_fail :: "err \<Rightarrow> err" where
  "op_fail e = or_zero e (asDomainError e)"

definition respond :: "nat \<Rightarrow> ('a \<Rightarrow> 'r) \<Rightarrow> 'a res \<Rightarrow> 'r reply" where
  "respond status render r = (case r of Inl e \<Rightarrow> Inl (error_problem (op_fail e)) | Inr v \<Rightarrow> Inr (status, render v))"

text \<open>A handler stops at the first part of the request that it refuses.\<close>

fun checked :: "problem + 'a \<Rightarrow> ('a \<Rightarrow> problem + 'b) \<Rightarrow> problem + 'b" where
  "checked (Inl p) k = Inl p"
| "checked (Inr x) k = k x"

lemma checked_Inr_iff [simp]: "checked m k = Inr y \<longleftrightarrow> (\<exists>x. m = Inr x \<and> k x = Inr y)"
  by (cases m) auto

definition body_of :: "string + 'a \<Rightarrow> problem + 'a" where
  "body_of b = (case b of Inl e \<Rightarrow> Inl (invalid_request (Words (''invalid request body: '' @ e))) | Inr v \<Rightarrow> Inr v)"

definition idempotencyKey :: "http_request \<Rightarrow> problem + string" where
  "idempotencyKey r =
     (if hr_key r = []
      then Inl \<lparr>pb_status = 400, pb_code = ''idempotency_key_required'',
                pb_detail = Words ''Idempotency-Key header is required''\<rparr>
      else Inr (hr_key r))"

section \<open>Ids\<close>

text \<open>A UUID is a number in the ledger and its sixteen bytes, the highest first, in a text.\<close>

definition uuid_to_bytes :: "uuid \<Rightarrow> uuid_bytes" where
  "uuid_to_bytes i = map (\<lambda>k. word_of_nat (i div 256 ^ (15 - k))) [0..<16]"

definition bytes_to_uuid :: "uuid_bytes \<Rightarrow> uuid" where
  "bytes_to_uuid bs = foldl (\<lambda>n b. n * 256 + unat b) 0 bs"

definition id_text :: "string \<Rightarrow> uuid \<Rightarrow> string" where
  "id_text pre i = encodeID pre (uuid_to_bytes i)"

text \<open>\<^verbatim>\<open>typeid.ID[P]\<close>: an id that knows its prefix.\<close>

type_synonym typed_id = "string \<times> uuid"

definition marshalText :: "typed_id \<Rightarrow> string" where
  "marshalText i = id_text (fst i) (snd i)"

definition read_id :: "string \<Rightarrow> string \<Rightarrow> uuid res" where
  "read_id pre s = bindR (parseID pre s) (\<lambda>b. Inr (bytes_to_uuid b))"

definition pathID :: "string \<Rightarrow> http_request \<Rightarrow> string \<Rightarrow> problem + uuid" where
  "pathID pre r name =
     (case read_id pre (pathValue r name) of Inl e \<Rightarrow> Inl (invalid_request (Caused e)) | Inr i \<Rightarrow> Inr i)"

definition withID :: "string \<Rightarrow> http_request \<Rightarrow> problem + uuid" where
  "withID pre r = pathID pre r ''id''"

definition queryID :: "string \<Rightarrow> http_request \<Rightarrow> string \<Rightarrow> problem + uuid" where
  "queryID pre r name =
     (let raw = queryGet r name
      in if raw = [] then Inr 0
         else case read_id pre raw of
                Inl e \<Rightarrow> Inl (invalid_request (About name e))
              | Inr i \<Rightarrow> Inr i)"

section \<open>Filters of a list\<close>

definition cutSuffix :: "string \<Rightarrow> string \<Rightarrow> string option" where
  "cutSuffix s t = (if length t \<le> length s \<and> drop (length s - length t) s = t
     then Some (take (length s - length t) s) else None)"

fun metadata_params :: "(string \<times> string list) list \<Rightarrow> problem + metadata_filter" where
  "metadata_params [] = Inr []"
| "metadata_params ((k, vs) # qs) =
     (case cutPrefix k ''metadata['' of
        None \<Rightarrow> metadata_params qs
      | Some name \<Rightarrow>
          (case (cutSuffix name '']'', vs) of
             (Some n, [v]) \<Rightarrow>
               if n = [] then Inl (invalid_request (Words ''metadata filters take the form metadata[key]=value, once per key''))
               else checked (metadata_params qs) (\<lambda>m. Inr ((n, v) # m))
           | _ \<Rightarrow> Inl (invalid_request (Words ''metadata filters take the form metadata[key]=value, once per key''))))"

definition queryMetadata :: "http_request \<Rightarrow> problem + metadata_filter" where
  "queryMetadata r = metadata_params (hr_query r)"

text \<open>\<open>time_of\<close> is \<^verbatim>\<open>time.Parse\<close> with the layout of RFC 3339.\<close>

definition query_time :: "(string \<Rightarrow> gotime option) \<Rightarrow> http_request \<Rightarrow> string \<Rightarrow> problem + gotime option" where
  "query_time time_of r name =
     (let raw = queryGet r name
      in if raw = [] then Inr None
         else case time_of raw of
                None \<Rightarrow> Inl (invalid_request (Words (name @ '' must be an RFC 3339 time'')))
              | Some t \<Rightarrow> Inr (Some t))"

definition queryEffective :: "(string \<Rightarrow> gotime option) \<Rightarrow> http_request \<Rightarrow> problem + effectiveRange" where
  "queryEffective time_of r =
     checked (query_time time_of r ''effective_at_lower_bound'') (\<lambda>f.
     checked (query_time time_of r ''effective_at_upper_bound'') (\<lambda>u. Inr \<lparr>from_time = f, until_time = u\<rparr>))"

section \<open>Pages\<close>

definition defaultPageLimit :: int where "defaultPageLimit = 25"
definition maxPageLimit :: int where "maxPageLimit = 100"

definition pageLimit :: "http_request \<Rightarrow> problem + int" where
  "pageLimit r =
     (let raw = queryGet r ''limit'';
          bad = Inl (invalid_request (Words ''limit must be an integer from 1 to 100''))
      in if raw = [] then Inr defaultPageLimit
         else case parseInt64 raw of
                None \<Rightarrow> bad
              | Some n \<Rightarrow> if n < 1 \<or> n > maxPageLimit then bad else Inr n)"

definition page_query :: "(nat list \<Rightarrow> 'k option) \<Rightarrow> 'k \<Rightarrow> http_request \<Rightarrow> problem + int \<times> 'k" where
  "page_query parse zero r =
     checked (pageLimit r) (\<lambda>limit.
       let raw = queryGet r ''cursor''
       in if raw = [] then Inr (limit, zero)
          else case Option.bind (b64_decode raw) parse of
                 None \<Rightarrow> Inl (invalid_request (Words ''cursor is invalid''))
               | Some k \<Rightarrow> Inr (limit, k))"

definition uuidCursor :: "nat list \<Rightarrow> uuid option" where
  "uuidCursor b = (if length b = 16 then Some (bytes_to_uuid (map word_of_nat b)) else None)"

definition encodeUUIDCursor :: "uuid \<Rightarrow> string" where
  "encodeUUIDCursor i = b64 (map unat (uuid_to_bytes i))"

definition int64Cursor :: "nat list \<Rightarrow> int option" where
  "int64Cursor b =
     (if length b \<noteq> 8 then None else Some (sint (word_of_nat (foldl (\<lambda>n x. n * 256 + x) 0 b) :: 64 word)))"

definition encodeInt64Cursor :: "int \<Rightarrow> string" where
  "encodeInt64Cursor v =
     b64 (map (\<lambda>k. unat (word_of_int v :: 64 word) div 256 ^ (7 - k) mod 256) [0..<8])"

record 'r listing_page =
  lp_data :: "'r list"
  lp_hasMore :: bool
  lp_nextCursor :: "string option"

definition newList :: "'a list \<Rightarrow> int \<Rightarrow> ('a \<Rightarrow> string) \<Rightarrow> 'a listing_page" where
  "newList items limit cursor =
     (if int (length items) > limit
      then \<lparr>lp_data = take (nat limit) items, lp_hasMore = True,
            lp_nextCursor = Some (cursor (items ! (nat limit - 1)))\<rparr>
      else \<lparr>lp_data = items, lp_hasMore = False, lp_nextCursor = None\<rparr>)"

definition respondList :: "int \<Rightarrow> ('a \<Rightarrow> 'r) \<Rightarrow> ('a \<Rightarrow> string) \<Rightarrow> 'a list res \<Rightarrow> 'r listing_page reply" where
  "respondList limit render cursor items =
     respond 200 (\<lambda>xs. let l = newList xs limit cursor
       in \<lparr>lp_data = map render (lp_data l), lp_hasMore = lp_hasMore l, lp_nextCursor = lp_nextCursor l\<rparr>) items"

end
