(* ===== verification/Resources.thy ===== *)
theory Resources
  imports Api
begin

text \<open>
  The resources of the HTTP interface: the structs of \<^verbatim>\<open>api_*.go\<close> and the functions that make them from the
  ledger's values, or the inputs of the service from them. The field \<^verbatim>\<open>object\<close> is the name of the kind.
\<close>

section \<open>Ids\<close>

definition ledgerID :: "uuid \<Rightarrow> typed_id" where "ledgerID i = (''ldg'', i)"
definition accountID :: "uuid \<Rightarrow> typed_id" where "accountID i = (''acct'', i)"
definition transactionID :: "uuid \<Rightarrow> typed_id" where "transactionID i = (''txn'', i)"
definition holdID :: "uuid \<Rightarrow> typed_id" where "holdID i = (''hold'', i)"
definition scheduleID :: "uuid \<Rightarrow> typed_id" where "scheduleID i = (''sched'', i)"
definition statementID :: "uuid \<Rightarrow> typed_id" where "statementID i = (''stmt'', i)"
definition categoryID :: "uuid \<Rightarrow> typed_id" where "categoryID i = (''cat'', i)"
definition monitorID :: "uuid \<Rightarrow> typed_id" where "monitorID i = (''bm'', i)"
definition bulkID :: "uuid \<Rightarrow> typed_id" where "bulkID i = (''blk'', i)"
definition settlementID :: "uuid \<Rightarrow> typed_id" where "settlementID i = (''stl'', i)"

record deleted_resource =
  de_object :: string
  de_id :: string
  de_deleted :: bool

section \<open>Transactions\<close>

record entryLine =
  ln_account :: typed_id
  ln_side :: side
  ln_amount :: int
  ln_currency :: string
  ln_pendingBalance :: "balance_condition option"
  ln_postedBalance :: "balance_condition option"
  ln_availableBalance :: "balance_condition option"
  ln_lockVersion :: "int option"
  ln_resulting :: "balances option"

definition toEntries :: "posting list \<Rightarrow> entryLine list" where
  "toEntries = map (\<lambda>p. \<lparr>ln_account = accountID (p_account p), ln_side = p_side p, ln_amount = p_amount p,
     ln_currency = p_currency p, ln_pendingBalance = None, ln_postedBalance = None, ln_availableBalance = None,
     ln_lockVersion = None, ln_resulting = p_resulting p\<rparr>)"

definition fromEntries :: "entryLine list \<Rightarrow> posting list" where
  "fromEntries = map (\<lambda>e. \<lparr>p_account = snd (ln_account e), p_side = ln_side e, p_amount = ln_amount e,
     p_currency = ln_currency e, p_pendingBalance = ln_pendingBalance e, p_postedBalance = ln_postedBalance e,
     p_availableBalance = ln_availableBalance e, p_lockVersion = ln_lockVersion e, p_resulting = None,
     p_balanceAfter = 0\<rparr>)"

record transactionResource =
  tx_object :: string
  tx_id :: typed_id
  tx_ledger :: typed_id
  tx_key :: string
  tx_externalID :: "string option"
  tx_status :: txn_status
  tx_version :: int
  tx_description :: string
  tx_metadata :: jvalue
  tx_reverses :: "typed_id option"
  tx_entries :: "entryLine list"
  tx_effectiveAt :: gotime
  tx_createdAt :: gotime
  tx_postedAt :: "gotime option"
  tx_archivedAt :: "gotime option"

definition toTransaction :: "transaction \<Rightarrow> transactionResource" where
  "toTransaction t =
     \<lparr>tx_object = ''transaction'', tx_id = transactionID (t_id t), tx_ledger = ledgerID (t_ledger t),
      tx_key = t_key t, tx_externalID = nullString (t_externalID t), tx_status = t_status t,
      tx_version = t_version t, tx_description = t_description t, tx_metadata = t_metadata t,
      tx_reverses = map_option transactionID (t_reverses t), tx_entries = toEntries (t_postings t),
      tx_effectiveAt = t_effectiveAt t, tx_createdAt = t_createdAt t, tx_postedAt = t_postedAt t,
      tx_archivedAt = t_archivedAt t\<rparr>"

record balancesResource =
  bl_object :: string
  bl_account :: typed_id
  bl_range :: effectiveRange
  bl_balances :: balances

record transactionRequest =
  rx_description :: string
  rx_metadata :: jvalue
  rx_entries :: "entryLine list"
  rx_status :: txn_status
  rx_effectiveAt :: "gotime option"
  rx_externalID :: string
  rx_archiveOnLockFailure :: bool

definition request_post :: "transactionRequest \<Rightarrow> string \<Rightarrow> postInput" where
  "request_post i key =
     \<lparr>in_key = key, in_description = rx_description i, in_metadata = rx_metadata i,
      in_postings = fromEntries (rx_entries i), in_status = rx_status i, in_effectiveAt = rx_effectiveAt i,
      in_externalID = rx_externalID i, in_archiveOnLockFailure = rx_archiveOnLockFailure i\<rparr>"

record updateTransactionRequest =
  rt_description :: "string option"
  rt_metadata :: jvalue
  rt_entries :: "entryLine list option"
  rt_effectiveAt :: "gotime option"

record batchRequest =
  rb_atomic :: "bool option"
  rb_transactions :: "transactionRequest list"

record batchError =
  be_code :: string
  be_detail :: "err option"

datatype batchAnswer = BatchDone transactionResource | BatchFailed batchError

record batchResponse =
  bo_object :: string
  bo_atomic :: bool
  bo_results :: "batchAnswer list"

record reverseRequest =
  rr_description :: string
  rr_metadata :: jvalue

section \<open>Accounts, monitors and categories\<close>

record categoryResource =
  cx_object :: string
  cx_id :: typed_id
  cx_ledger :: typed_id
  cx_currency :: string
  cx_normalSide :: side
  cx_name :: string
  cx_description :: string
  cx_metadata :: jvalue
  cx_version :: int
  cx_balances :: balances
  cx_createdAt :: gotime

definition toCategory :: "category \<times> balances \<Rightarrow> categoryResource" where
  "toCategory cb = (case cb of (c, b) \<Rightarrow>
     \<lparr>cx_object = ''account_category'', cx_id = categoryID (cg_id c), cx_ledger = ledgerID (cg_ledger c),
      cx_currency = cg_currency c, cx_normalSide = cg_normalSide c, cx_name = cg_name c,
      cx_description = cg_description c, cx_metadata = cg_metadata c, cx_version = cg_version c,
      cx_balances = b, cx_createdAt = cg_createdAt c\<rparr>)"

record categoryRequest =
  rc_ledger :: typed_id
  rc_currency :: string
  rc_normalSide :: side
  rc_name :: string
  rc_description :: string
  rc_metadata :: jvalue

text \<open>The struct \<^verbatim>\<open>alertCondition\<close> has the fields of the ledger's, and the longer name of the balance.\<close>

record monitorResource =
  mx_object :: string
  mx_id :: typed_id
  mx_account :: typed_id
  mx_condition :: alert_condition
  mx_description :: string
  mx_metadata :: jvalue
  mx_version :: int
  mx_triggered :: bool
  mx_balances :: "balances option"
  mx_createdAt :: gotime

definition toMonitor :: "monitor \<Rightarrow> balances option \<Rightarrow> monitorResource" where
  "toMonitor m b =
     \<lparr>mx_object = ''balance_monitor'', mx_id = monitorID (m_id m), mx_account = accountID (m_account m),
      mx_condition = (m_condition m)\<lparr>alert_field := alert_field (m_condition m) @ ''_balance_amount''\<rparr>,
      mx_description = m_description m, mx_metadata = m_metadata m, mx_version = m_version m,
      mx_triggered = m_triggered m, mx_balances = b, mx_createdAt = m_createdAt m\<rparr>"

record monitorRequest =
  rm_account :: typed_id
  rm_condition :: alert_condition
  rm_description :: string
  rm_metadata :: jvalue

definition monitor_create :: "monitorRequest \<Rightarrow> monitorInput" where
  "monitor_create i =
     (let f = alert_field (rm_condition i)
      in \<lparr>mi_account = snd (rm_account i),
          mi_condition = (rm_condition i)\<lparr>alert_field := or_zero f (cutSuffix f ''_balance_amount'')\<rparr>,
          mi_description = rm_description i, mi_metadata = rm_metadata i\<rparr>)"

record accountBalancesResource =
  ab_pending :: balance
  ab_posted :: balance
  ab_available :: balance

record accountResource =
  ax_object :: string
  ax_id :: typed_id
  ax_ledger :: typed_id
  ax_code :: string
  ax_name :: string
  ax_description :: string
  ax_metadata :: jvalue
  ax_currency :: string
  ax_exponent :: int
  ax_normalSide :: side
  ax_allowNegative :: bool
  ax_overdraftLimit :: int
  ax_balances :: accountBalancesResource
  ax_held :: int
  ax_status :: acct_status
  ax_lockVersion :: int
  ax_statusChangedAt :: "gotime option"
  ax_createdAt :: gotime

definition toAccount :: "account \<Rightarrow> accountResource" where
  "toAccount a = (let r = acc_row a in
     \<lparr>ax_object = ''account'', ax_id = accountID (ac_id r), ax_ledger = ledgerID (ac_ledger r),
      ax_code = ac_code r, ax_name = ac_name r, ax_description = ac_description r, ax_metadata = ac_metadata r,
      ax_currency = ac_currency r, ax_exponent = acc_exponent a, ax_normalSide = ac_normalSide r,
      ax_allowNegative = ac_allowNegative r, ax_overdraftLimit = ac_overdraftLimit r,
      ax_balances = \<lparr>ab_pending = acc_pending a, ab_posted = acc_posted a, ab_available = acc_available a\<rparr>,
      ax_held = ac_held r, ax_status = ac_status r, ax_lockVersion = ac_version r,
      ax_statusChangedAt = ac_statusChangedAt r, ax_createdAt = ac_createdAt r\<rparr>)"

record accountRequest =
  ra_ledger :: typed_id
  ra_code :: string
  ra_name :: string
  ra_description :: string
  ra_metadata :: jvalue
  ra_currency :: string
  ra_normalSide :: side
  ra_allowNegative :: bool
  ra_overdraftLimit :: int

definition account_create :: "accountRequest \<Rightarrow> accountInput" where
  "account_create i =
     \<lparr>ai_ledger = snd (ra_ledger i), ai_code = ra_code i, ai_name = ra_name i,
      ai_description = ra_description i, ai_metadata = ra_metadata i, ai_currency = ra_currency i,
      ai_normalSide = ra_normalSide i, ai_allowNegative = ra_allowNegative i,
      ai_overdraftLimit = ra_overdraftLimit i\<rparr>"

section \<open>History\<close>

record accountEntry =
  ae_object :: string
  ae_txn :: typed_id
  ae_side :: side
  ae_amount :: int
  ae_currency :: string
  ae_balanceAfter :: int
  ae_createdAt :: gotime

fun toAccountEntry :: "posting_row \<times> int \<times> gotime \<Rightarrow> accountEntry" where
  "toAccountEntry (p, after, at_time) =
     \<lparr>ae_object = ''account_entry'', ae_txn = transactionID (pr_txn p), ae_side = pr_side p,
      ae_amount = pr_amount p, ae_currency = pr_currency p, ae_balanceAfter = after, ae_createdAt = at_time\<rparr>"

record entryResource =
  ex_object :: string
  ex_sequence :: string
  ex_txn :: typed_id
  ex_ledger :: typed_id
  ex_account :: typed_id
  ex_status :: txn_status
  ex_side :: side
  ex_amount :: int
  ex_currency :: string
  ex_balanceAfter :: "int option"
  ex_effectiveAt :: gotime
  ex_createdAt :: gotime
  ex_settlement :: "typed_id option"

definition toEntry :: "entry \<Rightarrow> entryResource" where
  "toEntry e =
     \<lparr>ex_object = ''entry'', ex_sequence = showInt (int (en_sequence e)), ex_txn = transactionID (en_txn e),
      ex_ledger = ledgerID (en_ledger e), ex_account = accountID (en_account e), ex_status = en_status e,
      ex_side = en_side e, ex_amount = en_amount e, ex_currency = en_currency e,
      ex_balanceAfter = en_balanceAfter e, ex_effectiveAt = en_effectiveAt e, ex_createdAt = en_createdAt e,
      ex_settlement = map_option settlementID (en_settlement e)\<rparr>"

record statementResource =
  sx_object :: string
  sx_id :: typed_id
  sx_ledger :: typed_id
  sx_account :: typed_id
  sx_currency :: string
  sx_description :: string
  sx_lowerBound :: gotime
  sx_upperBound :: gotime
  sx_starting :: balance
  sx_ending :: balance
  sx_entryCount :: nat
  sx_createdAt :: gotime

definition toStatement :: "statement \<Rightarrow> statementResource" where
  "toStatement s = (let r = sm_row s in
     \<lparr>sx_object = ''statement'', sx_id = statementID (sm_id r), sx_ledger = ledgerID (sm_ledger r),
      sx_account = accountID (sm_account r), sx_currency = sm_currency s, sx_description = sm_description r,
      sx_lowerBound = sm_from r, sx_upperBound = sm_until r, sx_starting = sm_starting s,
      sx_ending = sm_ending s, sx_entryCount = sm_entryCount r, sx_createdAt = sm_createdAt r\<rparr>)"

record statementRequest =
  rs_account :: typed_id
  rs_description :: string
  rs_lowerBound :: gotime
  rs_upperBound :: gotime

section \<open>Holds and schedules\<close>

record holdResource =
  hx_object :: string
  hx_id :: typed_id
  hx_key :: string
  hx_account :: typed_id
  hx_amount :: int
  hx_currency :: string
  hx_status :: hold_status
  hx_description :: string
  hx_expiresAt :: gotime
  hx_captured :: "int option"
  hx_captureTxn :: "typed_id option"
  hx_createdAt :: gotime
  hx_resolvedAt :: "gotime option"

definition toHold :: "hold \<Rightarrow> holdResource" where
  "toHold h =
     \<lparr>hx_object = ''hold'', hx_id = holdID (h_id h), hx_key = h_key h, hx_account = accountID (h_account h),
      hx_amount = h_amount h, hx_currency = h_currency h, hx_status = h_status h,
      hx_description = h_description h, hx_expiresAt = h_expiresAt h, hx_captured = h_captured h,
      hx_captureTxn = map_option transactionID (h_captureTxn h), hx_createdAt = h_createdAt h,
      hx_resolvedAt = h_resolvedAt h\<rparr>"

record holdRequest =
  rh_account :: typed_id
  rh_amount :: int
  rh_currency :: string
  rh_description :: string
  rh_expiresAt :: gotime

record captureRequest =
  rk_destination :: typed_id
  rk_amount :: int
  rk_description :: string
  rk_metadata :: jvalue

record scheduleResource =
  dx_object :: string
  dx_id :: typed_id
  dx_key :: string
  dx_executeAt :: gotime
  dx_status :: schedule_status
  dx_description :: string
  dx_metadata :: jvalue
  dx_entries :: "entryLine list"
  dx_txn :: "typed_id option"
  dx_failure :: "err option"
  dx_createdAt :: gotime
  dx_resolvedAt :: "gotime option"

definition toSchedule :: "schedule \<Rightarrow> scheduleResource" where
  "toSchedule s =
     \<lparr>dx_object = ''scheduled_transaction'', dx_id = scheduleID (sc_id s), dx_key = sc_key s,
      dx_executeAt = sc_executeAt s, dx_status = sc_status s, dx_description = in_description (sc_request s),
      dx_metadata = (if jv_len (in_metadata (sc_request s)) = 0 then empty_object else in_metadata (sc_request s)),
      dx_entries = toEntries (in_postings (sc_request s)), dx_txn = map_option transactionID (sc_txn s),
      dx_failure = sc_failure s, dx_createdAt = sc_createdAt s, dx_resolvedAt = sc_resolvedAt s\<rparr>"

record scheduleRequest =
  ru_request :: transactionRequest
  ru_executeAt :: gotime

section \<open>Ledgers and currencies\<close>

record ledgerResource =
  lx_object :: string
  lx_id :: typed_id
  lx_name :: string
  lx_description :: string
  lx_metadata :: jvalue
  lx_closedBefore :: "gotime option"
  lx_version :: int
  lx_createdAt :: gotime

definition toLedger :: "ledger \<Rightarrow> ledgerResource" where
  "toLedger l =
     \<lparr>lx_object = ''ledger'', lx_id = ledgerID (l_id l), lx_name = l_name l, lx_description = l_description l,
      lx_metadata = l_metadata l, lx_closedBefore = l_closedBefore l, lx_version = l_version l,
      lx_createdAt = l_createdAt l\<rparr>"

record currencyResource =
  ux_object :: string
  ux_code :: string
  ux_exponent :: int
  ux_createdAt :: gotime

definition toCurrency :: "currency \<Rightarrow> currencyResource" where
  "toCurrency c =
     \<lparr>ux_object = ''currency'', ux_code = cur_code c, ux_exponent = cur_exponent c, ux_createdAt = cur_createdAt c\<rparr>"

record currencyRequest =
  ry_code :: string
  ry_exponent :: "int option"

section \<open>Bulk requests and settlements\<close>

record bulkResource =
  kx_object :: string
  kx_id :: typed_id
  kx_key :: string
  kx_status :: bulk_status
  kx_total :: nat
  kx_processed :: nat
  kx_succeeded :: nat
  kx_failed :: nat
  kx_createdAt :: gotime
  kx_startedAt :: "gotime option"
  kx_completedAt :: "gotime option"

definition toBulk :: "bulk \<Rightarrow> bulkResource" where
  "toBulk b =
     \<lparr>kx_object = ''bulk_request'', kx_id = bulkID (bk_id b), kx_key = bk_key b, kx_status = bk_status b,
      kx_total = bk_total b, kx_processed = bk_processed b, kx_succeeded = bk_succeeded b,
      kx_failed = bk_failed b, kx_createdAt = bk_createdAt b, kx_startedAt = bk_startedAt b,
      kx_completedAt = bk_completedAt b\<rparr>"

record bulkResultResource =
  vx_object :: string
  vx_index :: nat
  vx_status :: string
  vx_txn :: "typed_id option"
  vx_error :: "batchError option"

fun toBulkResult :: "nat \<times> uuid option \<times> (string \<times> err option) option \<Rightarrow> bulkResultResource" where
  "toBulkResult (n, t, e) =
     (let out = \<lparr>vx_object = ''bulk_result'', vx_index = n, vx_status = ''pending'',
                 vx_txn = map_option transactionID t, vx_error = None\<rparr>
      in if t \<noteq> None then out\<lparr>vx_status := ''succeeded''\<rparr>
         else case e of
                None \<Rightarrow> out
              | Some (c, text) \<Rightarrow>
                  out\<lparr>vx_status := ''failed'', vx_error := Some \<lparr>be_code = c, be_detail = text\<rparr>\<rparr>)"

record settlementResource =
  wx_object :: string
  wx_id :: typed_id
  wx_key :: string
  wx_ledger :: typed_id
  wx_settled :: typed_id
  wx_contra :: typed_id
  wx_currency :: string
  wx_upperBound :: "gotime option"
  wx_amount :: int
  wx_entryCount :: int
  wx_txn :: "typed_id option"
  wx_description :: string
  wx_metadata :: jvalue
  wx_createdAt :: gotime

definition toSettlement :: "settlement \<Rightarrow> settlementResource" where
  "toSettlement s =
     \<lparr>wx_object = ''settlement'', wx_id = settlementID (st_id s), wx_key = st_key s,
      wx_ledger = ledgerID (st_ledger s), wx_settled = accountID (st_settled s),
      wx_contra = accountID (st_contra s), wx_currency = st_currency s, wx_upperBound = st_upperBound s,
      wx_amount = st_amount s, wx_entryCount = st_entryCount s, wx_txn = map_option transactionID (st_txn s),
      wx_description = st_description s, wx_metadata = st_metadata s, wx_createdAt = st_createdAt s\<rparr>"

record settlementRequest =
  rn_settled :: typed_id
  rn_contra :: typed_id
  rn_upperBound :: "gotime option"
  rn_description :: string
  rn_metadata :: jvalue

end
