(* ===== verification/Handlers.thy ===== *)
theory Handlers
  imports Resources
begin

text \<open>
  The handlers of \<^verbatim>\<open>http_*.go\<close>: each reads its request, calls one operation of the service and renders what it
  returns. A handler that may change the database returns the new one, which is the old one for every
  request it refuses. The outcome of the batcher for a single posting is the argument \<open>submit\<close>.
\<close>

section \<open>Shared steps\<close>

definition guarded :: "'s \<Rightarrow> problem + 'a \<Rightarrow> ('a \<Rightarrow> 'r reply \<times> 's) \<Rightarrow> 'r reply \<times> 's" where
  "guarded d m k = (case m of Inl p \<Rightarrow> (Inl p, d) | Inr x \<Rightarrow> k x)"

definition changed :: "'s \<Rightarrow> nat \<Rightarrow> ('a \<Rightarrow> 'r) \<Rightarrow> ('a \<times> 's) res \<Rightarrow> 'r reply \<times> 's" where
  "changed d status render r =
     (case r of Inl e \<Rightarrow> (Inl (error_problem (op_fail e)), d) | Inr (v, d') \<Rightarrow> (Inr (status, render v), d'))"

text \<open>Some operations commit and then fail to read back what they return.\<close>

definition changed_read :: "'s \<Rightarrow> nat \<Rightarrow> ('a \<Rightarrow> 'r) \<Rightarrow> ('a res \<times> 's) res \<Rightarrow> 'r reply \<times> 's" where
  "changed_read d status render r =
     (case r of Inl e \<Rightarrow> (Inl (error_problem (op_fail e)), d) | Inr (v, d') \<Rightarrow> (respond status render v, d'))"

definition dropped :: "('a \<times> bool \<times> 's) res \<Rightarrow> ('a \<times> 's) res" where
  "dropped r = bindR r (\<lambda>(v, _, d). Inr (v, d))"

definition status_of_text :: "string \<Rightarrow> txn_status" where
  "status_of_text s =
     (if s = [] then NoStatus else if s = ''pending'' then Pending else if s = ''posted'' then Posted
      else if s = ''archived'' then Archived else OtherStatus s)"

definition side_of_text :: "string \<Rightarrow> side" where
  "side_of_text s = (if s = ''debit'' then Debit else if s = ''credit'' then Credit else OtherSide s)"

definition acct_status_of_text :: "string \<Rightarrow> acct_status" where
  "acct_status_of_text s =
     (if s = ''open'' then Open else if s = ''frozen'' then Frozen else if s = ''closed'' then Closed
      else OtherAcctStatus s)"

text \<open>\<^verbatim>\<open>strconv.ParseBool\<close>\<close>

definition parseBool :: "string \<Rightarrow> bool option" where
  "parseBool s =
     (if s \<in> {''1'', ''t'', ''T'', ''TRUE'', ''true'', ''True''} then Some True
      else if s \<in> {''0'', ''f'', ''F'', ''FALSE'', ''false'', ''False''} then Some False else None)"

section \<open>Transactions\<close>

definition post :: "(db \<Rightarrow> postInput \<Rightarrow> postingResult res \<times> db) \<Rightarrow> db \<Rightarrow> postInput \<Rightarrow> transaction res \<times> db" where
  "post submit d i =
     (case validatePost i of
        Inl e \<Rightarrow> (Inl e, d)
      | Inr _ \<Rightarrow>
          (case submit d i of
             (Inl e, d') \<Rightarrow> (Inl e, d')
           | (Inr (Failure e), d') \<Rightarrow> (Inl e, d')
           | (Inr (Success t _), d') \<Rightarrow> (Inr t, d')))"

definition createTransaction ::
  "(db \<Rightarrow> postInput \<Rightarrow> postingResult res \<times> db) \<Rightarrow> db \<Rightarrow> http_request \<Rightarrow> string + transactionRequest \<Rightarrow>
   transactionResource reply \<times> db" where
  "createTransaction submit d r b =
     guarded d (idempotencyKey r) (\<lambda>key.
     guarded d (body_of b) (\<lambda>i.
       case post submit d (request_post i key) of (t, d') \<Rightarrow> (respond 201 toTransaction t, d')))"

definition txn_query :: "(string \<Rightarrow> gotime option) \<Rightarrow> http_request \<Rightarrow> problem + int \<times> txnList" where
  "txn_query time_of r =
     checked (page_query uuidCursor 0 r) (\<lambda>(limit, before).
     checked (queryID ''acct'' r ''account_id'') (\<lambda>account.
     checked (queryID ''ldg'' r ''ledger_id'') (\<lambda>ldg.
     checked (queryMetadata r) (\<lambda>metadata.
     checked (queryEffective time_of r) (\<lambda>effective.
       Inr (limit, \<lparr>xl_ledger = ldg, xl_status = status_of_text (queryGet r ''status''),
         xl_externalID = queryGet r ''external_id'', xl_account = account, xl_metadata = metadata,
         xl_effective = effective, xl_before = before, xl_limit = limit + 1\<rparr>))))))"

definition handleListTransactions ::
  "(string \<Rightarrow> gotime option) \<Rightarrow> db \<Rightarrow> http_request \<Rightarrow> transactionResource listing_page reply" where
  "handleListTransactions time_of d r =
     checked (txn_query time_of r) (\<lambda>(limit, i).
       respondList limit toTransaction (\<lambda>t. encodeUUIDCursor (t_id t)) (listTransactions d i))"

text \<open>The answers to the items of a batch, and the failure that decides the status of an atomic one.\<close>

fun batch_answer :: "batchResult \<Rightarrow> batchAnswer" where
  "batch_answer (BatchError e) =
     (case problemFor e of (_, c, text) \<Rightarrow> BatchFailed \<lparr>be_code = c, be_detail = text\<rparr>)"
| "batch_answer (BatchTxn t _) = BatchDone (toTransaction t)"

fun batch_failure :: "batchResult list \<Rightarrow> err option \<Rightarrow> err option" where
  "batch_failure [] f = f"
| "batch_failure (BatchError e # rs) f =
     batch_failure rs (if f = None \<or> f = Some ErrBatchAborted then Some e else f)"
| "batch_failure (BatchTxn t x # rs) f = batch_failure rs f"

definition batch_status :: "bool \<Rightarrow> err option \<Rightarrow> nat" where
  "batch_status atomic f = (case f of None \<Rightarrow> 201 | Some e \<Rightarrow> if atomic then fst (problemFor e) else 207)"

definition batch_inputs :: "string \<Rightarrow> transactionRequest list \<Rightarrow> postInput list" where
  "batch_inputs key ts = map (\<lambda>(i, t). request_post t (item_key key i)) (enumerate 0 ts)"

definition createBatch ::
  "db \<Rightarrow> gotime \<Rightarrow> (nat \<Rightarrow> uuid) \<Rightarrow> http_request \<Rightarrow> string + batchRequest \<Rightarrow> batchResponse reply \<times> db" where
  "createBatch d now fresh r b =
     guarded d (idempotencyKey r) (\<lambda>key.
     guarded d (body_of b) (\<lambda>i.
     let atomic = (rb_atomic i = None \<or> rb_atomic i = Some True)
     in case postBatch d now fresh (batch_inputs key (rb_transactions i)) atomic of
          Inl e \<Rightarrow> (Inl (error_problem (op_fail e)), d)
        | Inr (rs, d') \<Rightarrow>
            (Inr (batch_status atomic (batch_failure rs None),
               \<lparr>bo_object = ''batch'', bo_atomic = atomic, bo_results = map batch_answer rs\<rparr>), d')))"

definition getTransaction :: "db \<Rightarrow> http_request \<Rightarrow> transactionResource reply" where
  "getTransaction d r = checked (withID ''txn'' r) (\<lambda>i. respond 200 toTransaction (selectTransaction d i))"

definition handleUpdateTransaction ::
  "db \<Rightarrow> gotime \<Rightarrow> http_request \<Rightarrow> string + updateTransactionRequest \<Rightarrow> transactionResource reply \<times> db" where
  "handleUpdateTransaction d now r b =
     guarded d (withID ''txn'' r) (\<lambda>i. guarded d (body_of b) (\<lambda>u.
       changed d 200 toTransaction (updateTransaction d now i
         \<lparr>tu_description = rt_description u, tu_metadata = rt_metadata u,
          tu_postings = map_option fromEntries (rt_entries u), tu_effectiveAt = rt_effectiveAt u\<rparr>)))"

text \<open>The body is optional: the entries are \<open>None\<close> when it is empty.\<close>

definition postTransaction ::
  "db \<Rightarrow> gotime \<Rightarrow> http_request \<Rightarrow> string + entryLine list option \<Rightarrow> transactionResource reply \<times> db" where
  "postTransaction d now r b =
     guarded d (withID ''txn'' r) (\<lambda>i. guarded d (body_of b) (\<lambda>es.
       changed d 200 toTransaction (postPending d now i (or_zero [] (map_option fromEntries es)))))"

definition handleArchive :: "db \<Rightarrow> gotime \<Rightarrow> http_request \<Rightarrow> transactionResource reply \<times> db" where
  "handleArchive d now r =
     guarded d (withID ''txn'' r) (\<lambda>i. changed d 200 toTransaction (archiveTransaction d now i))"

definition handleReverse ::
  "db \<Rightarrow> gotime \<Rightarrow> (nat \<Rightarrow> uuid) \<Rightarrow> http_request \<Rightarrow> string + reverseRequest \<Rightarrow> transactionResource reply \<times> db" where
  "handleReverse d now fresh r b =
     guarded d (withID ''txn'' r) (\<lambda>i. guarded d (idempotencyKey r) (\<lambda>key. guarded d (body_of b) (\<lambda>v.
       changed d 201 toTransaction (dropped (reverse d now fresh i
         \<lparr>ri_key = key, ri_description = rr_description v, ri_metadata = rr_metadata v\<rparr>)))))"

definition handleListEntries ::
  "(string \<Rightarrow> gotime option) \<Rightarrow> (uuid \<Rightarrow> nat) \<Rightarrow> db \<Rightarrow> http_request \<Rightarrow> entryResource listing_page reply" where
  "handleListEntries time_of xid d r =
     checked (page_query int64Cursor 0 r) (\<lambda>(limit, aft).
     checked (queryID ''ldg'' r ''ledger_id'') (\<lambda>ldg.
     checked (queryID ''acct'' r ''account_id'') (\<lambda>account.
     checked (queryID ''txn'' r ''transaction_id'') (\<lambda>txn.
     checked (queryID ''stmt'' r ''statement_id'') (\<lambda>statement.
     checked (queryID ''stl'' r ''settlement_id'') (\<lambda>settlement.
     checked (queryMetadata r) (\<lambda>metadata.
     checked (queryEffective time_of r) (\<lambda>effective.
     let raw = queryGet r ''settled''; side = queryGet r ''side''
     in checked (if raw = [] then Inr None
                 else case parseBool raw of
                        None \<Rightarrow> Inl (invalid_request (Words ''settled must be true or false''))
                      | Some b \<Rightarrow> Inr (Some b)) (\<lambda>settled.
       respondList limit toEntry (\<lambda>e. encodeInt64Cursor (int (en_sequence e)))
         (listEntries d xid \<lparr>el_status = status_of_text (queryGet r ''status''), el_ledger = ldg,
            el_account = account, el_txn = txn, el_statement = statement, el_settlement = settlement,
            el_settled = settled, el_side = (if side = [] then None else Some (side_of_text side)),
            el_metadata = metadata, el_effective = effective, el_after = aft, el_limit = limit + 1\<rparr>))))))))))"

definition getBalances ::
  "(string \<Rightarrow> gotime option) \<Rightarrow> (uuid \<Rightarrow> nat) \<Rightarrow> db \<Rightarrow> http_request \<Rightarrow> balancesResource reply" where
  "getBalances time_of xid d r =
     checked (withID ''acct'' r) (\<lambda>i. checked (queryEffective time_of r) (\<lambda>effective.
       respond 200 (\<lambda>b. \<lparr>bl_object = ''balances'', bl_account = accountID i, bl_range = effective, bl_balances = b\<rparr>)
         (balancesAt d xid i effective)))"

section \<open>Accounts\<close>

definition handleCreateAccount ::
  "db \<Rightarrow> gotime \<Rightarrow> uuid \<Rightarrow> string + accountRequest \<Rightarrow> accountResource reply \<times> db" where
  "handleCreateAccount d now newid b =
     guarded d (body_of b) (\<lambda>i. changed d 201 toAccount (createAccount d now newid (account_create i)))"

definition handleListAccounts :: "(uuid \<Rightarrow> uuid list) \<Rightarrow> db \<Rightarrow> http_request \<Rightarrow> accountResource listing_page reply" where
  "handleListAccounts inside d r =
     checked (page_query uuidCursor 0 r) (\<lambda>(limit, before).
     checked (queryID ''ldg'' r ''ledger_id'') (\<lambda>ldg.
     checked (queryMetadata r) (\<lambda>metadata.
     checked (queryID ''cat'' r ''category_id'') (\<lambda>cat.
     let status = queryGet r ''status''
     in respondList limit toAccount (\<lambda>a. encodeUUIDCursor (ac_id (acc_row a)))
          (listAccounts d inside \<lparr>al_ledger = ldg, al_category = cat, al_code = queryGet r ''code'',
             al_status = (if status = [] then None else Some (acct_status_of_text status)),
             al_currency = queryGet r ''currency'', al_metadata = metadata, al_before = before,
             al_limit = limit + 1\<rparr>)))))"

definition getAccount :: "db \<Rightarrow> http_request \<Rightarrow> accountResource reply" where
  "getAccount d r = checked (withID ''acct'' r) (\<lambda>i. respond 200 toAccount (queryAccount d i))"

definition handleUpdateAccount :: "db \<Rightarrow> http_request \<Rightarrow> string + updateInput \<Rightarrow> accountResource reply \<times> db" where
  "handleUpdateAccount d r b =
     guarded d (withID ''acct'' r) (\<lambda>i. guarded d (body_of b) (\<lambda>u. changed d 200 toAccount (updateAccount d i u)))"

definition handleSetAccountStatus :: "acct_status \<Rightarrow> db \<Rightarrow> gotime \<Rightarrow> http_request \<Rightarrow> accountResource reply \<times> db" where
  "handleSetAccountStatus status d now r =
     guarded d (withID ''acct'' r) (\<lambda>i. changed d 200 toAccount (setAccountStatus d now i status))"

definition listAccountEntries :: "db \<Rightarrow> http_request \<Rightarrow> accountEntry listing_page reply" where
  "listAccountEntries d r =
     checked (withID ''acct'' r) (\<lambda>i. checked (page_query int64Cursor 0 r) (\<lambda>(limit, aft).
       respondList limit toAccountEntry (\<lambda>l. encodeInt64Cursor (int (pr_id (fst l))))
         (accountEntries d i aft (limit + 1))))"

section \<open>Categories and monitors\<close>

text \<open>A new category is returned without balances, whose amounts are zero.\<close>

definition zero_balances :: balances where
  "zero_balances = (let z = \<lparr>debits = 0, credits = 0, net = 0\<rparr> in \<lparr>b_pending = z, b_posted = z, b_available = z\<rparr>)"

definition handleCreateCategory ::
  "db \<Rightarrow> gotime \<Rightarrow> uuid \<Rightarrow> string + categoryRequest \<Rightarrow> categoryResource reply \<times> db" where
  "handleCreateCategory d now newid b =
     guarded d (body_of b) (\<lambda>i. changed d 201 (\<lambda>c. toCategory (c, zero_balances)) (createCategory d now newid
       \<lparr>gi_ledger = snd (rc_ledger i), gi_currency = rc_currency i, gi_normalSide = rc_normalSide i,
        gi_name = rc_name i, gi_description = rc_description i, gi_metadata = rc_metadata i\<rparr>))"

definition handleListCategories :: "db \<Rightarrow> http_request \<Rightarrow> categoryResource listing_page reply" where
  "handleListCategories d r =
     checked (page_query uuidCursor 0 r) (\<lambda>(limit, before).
     checked (queryID ''ldg'' r ''ledger_id'') (\<lambda>ldg.
     checked (queryID ''cat'' r ''parent_id'') (\<lambda>parent.
     checked (queryID ''acct'' r ''account_id'') (\<lambda>account.
     checked (queryMetadata r) (\<lambda>metadata.
       respondList limit toCategory (\<lambda>c. encodeUUIDCursor (cg_id (fst c)))
         (listCategories d \<lparr>gl_ledger = ldg, gl_parent = parent, gl_account = account, gl_metadata = metadata,
            gl_before = before, gl_limit = limit + 1\<rparr>))))))"

definition handleGetCategory :: "(string \<Rightarrow> gotime option) \<Rightarrow> db \<Rightarrow> http_request \<Rightarrow> categoryResource reply" where
  "handleGetCategory time_of d r =
     checked (withID ''cat'' r) (\<lambda>i. checked (queryEffective time_of r) (\<lambda>effective.
       respond 200 toCategory (getCategory d i effective)))"

definition handleUpdateCategory :: "db \<Rightarrow> http_request \<Rightarrow> string + updateInput \<Rightarrow> categoryResource reply \<times> db" where
  "handleUpdateCategory d r b =
     guarded d (withID ''cat'' r) (\<lambda>i. guarded d (body_of b) (\<lambda>u.
       changed d 200 toCategory (bindR (updateCategory d i u) (\<lambda>(c, bal, d'). Inr ((c, bal), d')))))"

definition handleDeleteCategory :: "db \<Rightarrow> http_request \<Rightarrow> deleted_resource reply \<times> db" where
  "handleDeleteCategory d r =
     guarded d (withID ''cat'' r) (\<lambda>i. changed d 200
       (\<lambda>i. \<lparr>de_object = ''account_category'', de_id = marshalText (categoryID i), de_deleted = True\<rparr>)
       (bindR (deleteCategory d i) (\<lambda>d'. Inr (i, d'))))"

definition handleSetMember :: "bool \<Rightarrow> db \<Rightarrow> http_request \<Rightarrow> categoryResource reply \<times> db" where
  "handleSetMember member d r =
     guarded d (withID ''cat'' r) (\<lambda>i. guarded d (pathID ''acct'' r ''member'') (\<lambda>a.
       changed_read d 200 toCategory (setMember d i a member)))"

definition handleSetChild :: "bool \<Rightarrow> db \<Rightarrow> http_request \<Rightarrow> categoryResource reply \<times> db" where
  "handleSetChild nested d r =
     guarded d (withID ''cat'' r) (\<lambda>i. guarded d (pathID ''cat'' r ''member'') (\<lambda>c.
       changed_read d 200 toCategory (setChild d i c nested)))"

definition renderMonitor :: "monitor \<Rightarrow> monitorResource" where
  "renderMonitor m = toMonitor m None"

definition handleCreateMonitor ::
  "db \<Rightarrow> gotime \<Rightarrow> uuid \<Rightarrow> string + monitorRequest \<Rightarrow> monitorResource reply \<times> db" where
  "handleCreateMonitor d now newid b =
     guarded d (body_of b) (\<lambda>i. changed d 201 renderMonitor (createMonitor d now newid (monitor_create i)))"

definition handleListMonitors :: "db \<Rightarrow> http_request \<Rightarrow> monitorResource listing_page reply" where
  "handleListMonitors d r =
     checked (page_query uuidCursor 0 r) (\<lambda>(limit, before).
     checked (queryID ''acct'' r ''account_id'') (\<lambda>account.
       respondList limit renderMonitor (\<lambda>m. encodeUUIDCursor (m_id m))
         (listMonitors d \<lparr>ml_account = account, ml_before = before, ml_limit = limit + 1\<rparr>)))"

definition getMonitor :: "db \<Rightarrow> http_request \<Rightarrow> monitorResource reply" where
  "getMonitor d r = checked (withID ''bm'' r) (\<lambda>i. respond 200 renderMonitor (queryMonitor d i))"

definition handleUpdateMonitor :: "db \<Rightarrow> http_request \<Rightarrow> string + updateInput \<Rightarrow> monitorResource reply \<times> db" where
  "handleUpdateMonitor d r b =
     guarded d (withID ''bm'' r) (\<lambda>i. guarded d (body_of b) (\<lambda>u.
       changed_read d 200 renderMonitor (updateMonitor d i u)))"

definition handleDeleteMonitor :: "db \<Rightarrow> http_request \<Rightarrow> deleted_resource reply \<times> db" where
  "handleDeleteMonitor d r =
     guarded d (withID ''bm'' r) (\<lambda>i. changed d 200
       (\<lambda>i. \<lparr>de_object = ''balance_monitor'', de_id = marshalText (monitorID i), de_deleted = True\<rparr>)
       (bindR (deleteMonitor d i) (\<lambda>d'. Inr (i, d'))))"

section \<open>Holds and schedules\<close>

definition handleCreateHold ::
  "db \<Rightarrow> gotime \<Rightarrow> uuid \<Rightarrow> http_request \<Rightarrow> string + holdRequest \<Rightarrow> holdResource reply \<times> db" where
  "handleCreateHold d now newid r b =
     guarded d (idempotencyKey r) (\<lambda>key. guarded d (body_of b) (\<lambda>i.
       changed d 201 toHold (dropped (createHold d now newid
         \<lparr>hi_key = key, hi_account = snd (rh_account i), hi_amount = rh_amount i, hi_currency = rh_currency i,
          hi_description = rh_description i, hi_expiresAt = rh_expiresAt i\<rparr>))))"

definition handleListHolds :: "db \<Rightarrow> http_request \<Rightarrow> holdResource listing_page reply" where
  "handleListHolds d r =
     checked (page_query uuidCursor 0 r) (\<lambda>(limit, before).
     checked (queryID ''acct'' r ''account_id'') (\<lambda>account.
       respondList limit toHold (\<lambda>h. encodeUUIDCursor (h_id h))
         (listHolds d \<lparr>hl_account = account, hl_status = queryGet r ''status'', hl_before = before,
            hl_limit = limit + 1\<rparr>)))"

definition getHold :: "db \<Rightarrow> http_request \<Rightarrow> holdResource reply" where
  "getHold d r = checked (withID ''hold'' r) (\<lambda>i.
     respond 200 toHold (case hold_by d i of None \<Rightarrow> Inl ErrNotFound | Some h \<Rightarrow> Inr h))"

definition handleCaptureHold ::
  "db \<Rightarrow> gotime \<Rightarrow> gotime \<Rightarrow> (nat \<Rightarrow> uuid) \<Rightarrow> http_request \<Rightarrow> string + captureRequest \<Rightarrow> holdResource reply \<times> db" where
  "handleCaptureHold d now clock fresh r b =
     guarded d (withID ''hold'' r) (\<lambda>i. guarded d (idempotencyKey r) (\<lambda>key. guarded d (body_of b) (\<lambda>c.
       changed d 200 toHold (dropped (captureHold d now clock fresh i
         \<lparr>captureInput.ca_key = key, ca_destination = snd (rk_destination c), ca_amount = rk_amount c,
          ca_description = rk_description c, ca_metadata = rk_metadata c\<rparr>)))))"

definition handleVoidHold :: "db \<Rightarrow> gotime \<Rightarrow> http_request \<Rightarrow> holdResource reply \<times> db" where
  "handleVoidHold d now r =
     guarded d (withID ''hold'' r) (\<lambda>i. changed d 200 toHold (dropped (voidHold d now i)))"

definition handleCreateSchedule ::
  "db \<Rightarrow> gotime \<Rightarrow> uuid \<Rightarrow> http_request \<Rightarrow> string + scheduleRequest \<Rightarrow> scheduleResource reply \<times> db" where
  "handleCreateSchedule d now newid r b =
     guarded d (idempotencyKey r) (\<lambda>key. guarded d (body_of b) (\<lambda>i.
       changed d 201 toSchedule (dropped (schedule_txn d now newid
         \<lparr>si_post = request_post (ru_request i) key, si_executeAt = ru_executeAt i\<rparr>))))"

definition handleListSchedules :: "db \<Rightarrow> http_request \<Rightarrow> scheduleResource listing_page reply" where
  "handleListSchedules d r =
     checked (page_query uuidCursor 0 r) (\<lambda>(limit, before).
       respondList limit toSchedule (\<lambda>s. encodeUUIDCursor (sc_id s))
         (listSchedules d \<lparr>sk_status = queryGet r ''status'', sk_before = before, sk_limit = limit + 1\<rparr>))"

definition getSchedule :: "db \<Rightarrow> http_request \<Rightarrow> scheduleResource reply" where
  "getSchedule d r = checked (withID ''sched'' r) (\<lambda>i. respond 200 toSchedule (selectSchedule d i))"

definition handleCancelSchedule :: "db \<Rightarrow> gotime \<Rightarrow> http_request \<Rightarrow> scheduleResource reply \<times> db" where
  "handleCancelSchedule d now r =
     guarded d (withID ''sched'' r) (\<lambda>i. changed d 200 toSchedule (cancelSchedule d now i))"

section \<open>Ledgers and currencies\<close>

definition handleCreateLedger ::
  "db \<Rightarrow> gotime \<Rightarrow> uuid \<Rightarrow> string + ledgerInput \<Rightarrow> ledgerResource reply \<times> db" where
  "handleCreateLedger d now newid b =
     guarded d (body_of b) (\<lambda>i. changed d 201 toLedger (createLedger d now newid i))"

definition handleListLedgers :: "db \<Rightarrow> http_request \<Rightarrow> ledgerResource listing_page reply" where
  "handleListLedgers d r =
     checked (page_query uuidCursor 0 r) (\<lambda>(limit, before).
     checked (queryMetadata r) (\<lambda>metadata.
       respondList limit toLedger (\<lambda>l. encodeUUIDCursor (l_id l))
         (listLedgers d \<lparr>ll_metadata = metadata, ll_before = before, ll_limit = limit + 1\<rparr>)))"

definition getLedger :: "db \<Rightarrow> http_request \<Rightarrow> ledgerResource reply" where
  "getLedger d r = checked (withID ''ldg'' r) (\<lambda>i. respond 200 toLedger (queryLedger d i))"

text \<open>The member \<^verbatim>\<open>closed_before\<close> of the body is kept as its JSON text, empty when it is absent;
  \<open>json_time\<close> decodes a time.\<close>

definition handleClosePeriod ::
  "(string \<Rightarrow> gotime option) \<Rightarrow> db \<Rightarrow> gotime \<Rightarrow> http_request \<Rightarrow> string + string \<Rightarrow> ledgerResource reply \<times> db" where
  "handleClosePeriod json_time d now r b =
     guarded d (withID ''ldg'' r) (\<lambda>i. guarded d (body_of b) (\<lambda>raw.
     guarded d (if raw = []
                then Inl (invalid_request (Words ''closed_before is required; use null to reopen every period''))
                else if raw = ''null'' then Inr None
                else case json_time raw of
                       None \<Rightarrow> Inl (invalid_request (Words ''closed_before must be an RFC 3339 timestamp or null''))
                     | Some t \<Rightarrow> Inr (Some t)) (\<lambda>closed.
       changed d 200 toLedger (closePeriod d now i closed))))"

definition handleUpdateLedger :: "db \<Rightarrow> http_request \<Rightarrow> string + updateInput \<Rightarrow> ledgerResource reply \<times> db" where
  "handleUpdateLedger d r b =
     guarded d (withID ''ldg'' r) (\<lambda>i. guarded d (body_of b) (\<lambda>u. changed d 200 toLedger (updateLedger d i u)))"

definition handleCreateCurrency :: "db \<Rightarrow> gotime \<Rightarrow> string + currencyRequest \<Rightarrow> currencyResource reply \<times> db" where
  "handleCreateCurrency d now b =
     guarded d (body_of b) (\<lambda>i.
       case ry_exponent i of
         None \<Rightarrow> (Inl (error_problem ErrInvalid), d)
       | Some n \<Rightarrow> changed d 201 toCurrency (createCurrency d now \<lparr>ci_code = ry_code i, ci_exponent = n\<rparr>))"

definition getCurrency :: "db \<Rightarrow> http_request \<Rightarrow> currencyResource reply" where
  "getCurrency d r = respond 200 toCurrency (selectCurrency d (pathValue r ''code''))"

section \<open>Bulk requests, settlements and statements\<close>

definition handleCreateBulk ::
  "(string \<Rightarrow> string) \<Rightarrow> (postInput \<Rightarrow> string) \<Rightarrow> bulks \<Rightarrow> gotime \<Rightarrow> uuid \<Rightarrow> http_request \<Rightarrow>
   string + transactionRequest list \<Rightarrow> bulkResource reply \<times> bulks" where
  "handleCreateBulk sha encode st now newid r b =
     guarded st (idempotencyKey r) (\<lambda>key. guarded st (body_of b) (\<lambda>ts.
       changed st 202 toBulk (dropped (createBulk sha encode st now newid key (map (\<lambda>t. request_post t []) ts)))))"

definition getBulk :: "bulks \<Rightarrow> http_request \<Rightarrow> bulkResource reply" where
  "getBulk st r = checked (withID ''blk'' r) (\<lambda>i. respond 200 toBulk (queryBulk st i))"

definition listBulkResults :: "bulks \<Rightarrow> http_request \<Rightarrow> bulkResultResource listing_page reply" where
  "listBulkResults st r =
     checked (withID ''blk'' r) (\<lambda>i. checked (page_query int64Cursor 0 r) (\<lambda>(limit, aft).
       respondList limit toBulkResult (\<lambda>b. encodeInt64Cursor (int (fst b)))
         (bulkResults st i (if queryGet r ''cursor'' = [] then -1 else aft) (limit + 1))))"

definition handleCreateSettlement ::
  "db \<Rightarrow> gotime \<Rightarrow> uuid \<Rightarrow> (nat \<Rightarrow> uuid) \<Rightarrow> http_request \<Rightarrow> string + settlementRequest \<Rightarrow>
   settlementResource reply \<times> db" where
  "handleCreateSettlement d now newid fresh r b =
     guarded d (idempotencyKey r) (\<lambda>key. guarded d (body_of b) (\<lambda>i.
       changed d 201 toSettlement (dropped (createSettlement d now newid fresh
         \<lparr>se_key = key, se_settled = snd (rn_settled i), se_contra = snd (rn_contra i),
          se_upperBound = rn_upperBound i, se_description = rn_description i, se_metadata = rn_metadata i\<rparr>))))"

definition getSettlement :: "db \<Rightarrow> http_request \<Rightarrow> settlementResource reply" where
  "getSettlement d r = checked (withID ''stl'' r) (\<lambda>i. respond 200 toSettlement (querySettlement d i))"

definition handleListSettlements :: "db \<Rightarrow> http_request \<Rightarrow> settlementResource listing_page reply" where
  "handleListSettlements d r =
     checked (page_query uuidCursor 0 r) (\<lambda>(limit, before).
     checked (queryID ''acct'' r ''account_id'') (\<lambda>account.
       respondList limit toSettlement (\<lambda>s. encodeUUIDCursor (st_id s))
         (listSettlements d \<lparr>sl_account = account, sl_before = before, sl_limit = limit + 1\<rparr>)))"

definition handleCreateStatement ::
  "db \<Rightarrow> (uuid \<Rightarrow> nat) \<Rightarrow> nat \<Rightarrow> gotime \<Rightarrow> uuid \<Rightarrow> string + statementRequest \<Rightarrow> statementResource reply \<times> db" where
  "handleCreateStatement d xid xmin now newid b =
     guarded d (body_of b) (\<lambda>i. changed d 201 toStatement (createStatement d xid xmin now newid
       \<lparr>ti_account = snd (rs_account i), ti_description = rs_description i, ti_from = rs_lowerBound i,
        ti_until = rs_upperBound i\<rparr>))"

definition getStatement :: "db \<Rightarrow> http_request \<Rightarrow> statementResource reply" where
  "getStatement d r = checked (withID ''stmt'' r) (\<lambda>i. respond 200 toStatement (queryStatement d i))"

definition handleListStatements :: "db \<Rightarrow> http_request \<Rightarrow> statementResource listing_page reply" where
  "handleListStatements d r =
     checked (page_query uuidCursor 0 r) (\<lambda>(limit, before).
     checked (queryID ''acct'' r ''account_id'') (\<lambda>account.
       respondList limit toStatement (\<lambda>s. encodeUUIDCursor (sm_id (sm_row s)))
         (listStatements d \<lparr>sp_account = account, sp_before = before, sp_limit = limit + 1\<rparr>)))"

end
