(* ===== verification/Api_Properties.thy ===== *)
theory Api_Properties
  imports Handlers Posting_Properties Journal_Growth
begin

text \<open>
  The properties of the HTTP interface: ids and cursors survive their texts; a client that follows the
  cursors of a list reads every matching row once; and the status of a batch tells what became of it.
\<close>

section \<open>Ids and cursors\<close>

definition low_bytes :: "nat \<Rightarrow> nat \<Rightarrow> uuid_bytes" where
  "low_bytes n i = map (\<lambda>k. word_of_nat (i div 256 ^ (n - 1 - k))) [0..<n]"

lemma low_bytes_Suc: "low_bytes (Suc n) i = low_bytes n (i div 256) @ [word_of_nat i]"
proof -
  have "map (\<lambda>k. word_of_nat (i div 256 ^ (n - k))) [0..<n] =
      (map (\<lambda>k. word_of_nat (i div 256 div 256 ^ (n - 1 - k))) [0..<n] :: uuid_bytes)"
  proof (rule map_cong [OF refl])
    fix k assume "k \<in> set [0..<n]"
    then have "n - k = Suc (n - 1 - k)" by simp
    then show "(word_of_nat (i div 256 ^ (n - k)) :: byte) = word_of_nat (i div 256 div 256 ^ (n - 1 - k))"
      by (simp add: div_mult2_eq)
  qed
  then show ?thesis by (simp add: low_bytes_def)
qed

lemma low_bytes_value: "i < 256 ^ n \<Longrightarrow> bytes_to_uuid (low_bytes n i) = i"
proof (induction n arbitrary: i)
  case 0
  then show ?case by (simp add: low_bytes_def bytes_to_uuid_def)
next
  case (Suc n)
  have "i div 256 < 256 ^ n" using Suc.prems by (simp add: less_mult_imp_div_less mult.commute)
  moreover have "unat (word_of_nat i :: byte) = i mod 256" by (simp add: unat_of_nat)
  ultimately show ?case using Suc.IH [of "i div 256"]
    by (simp add: low_bytes_Suc bytes_to_uuid_def)
qed

lemma uuid_bytes: "uuid_to_bytes i = low_bytes 16 i"
  by (simp add: uuid_to_bytes_def low_bytes_def)

lemma uuid_round [simp]: "i < 2 ^ 128 \<Longrightarrow> bytes_to_uuid (uuid_to_bytes i) = i"
  using low_bytes_value [of i 16] by (simp add: uuid_bytes)

lemma uuid_to_bytes_length [simp]: "length (uuid_to_bytes i) = 16"
  by (simp add: uuid_to_bytes_def)

lemma read_id_text: "i < 2 ^ 128 \<Longrightarrow> read_id pre (id_text pre i) = Inr i"
  by (simp add: read_id_def id_text_def parse_encode)

lemma uuid_cursor:
  assumes "i < 2 ^ 128"
  shows "Option.bind (b64_decode (encodeUUIDCursor i)) uuidCursor = Some i" "encodeUUIDCursor i \<noteq> []"
proof -
  have "unat (b :: byte) < 256" for b using unsigned_less [of b] by simp
  then have "\<forall>b \<in> set (map unat (uuid_to_bytes i)). b < 256" by auto
  then have "b64_decode (encodeUUIDCursor i) = Some (map unat (uuid_to_bytes i))"
    unfolding encodeUUIDCursor_def by (rule b64_decode_encode)
  then show "Option.bind (b64_decode (encodeUUIDCursor i)) uuidCursor = Some i"
    using assms by (simp add: uuidCursor_def comp_def)
  have "uuid_to_bytes i \<noteq> []" by (metis uuid_to_bytes_length length_0_conv zero_neq_numeral)
  then show "encodeUUIDCursor i \<noteq> []" by (simp add: encodeUUIDCursor_def)
qed

section \<open>Following the cursors\<close>

text \<open>The same request for the page at a cursor; the first page has the empty one.\<close>

definition with_cursor :: "http_request \<Rightarrow> string \<Rightarrow> http_request" where
  "with_cursor r c = r\<lparr>hr_query := (''cursor'', [c]) # hr_query r\<rparr>"

text \<open>A client that reads at most \<open>n\<close> pages; \<open>None\<close> if a page is refused or the last one has a successor.\<close>

fun follow_cursor :: "(string \<Rightarrow> 'r listing_page reply) \<Rightarrow> nat \<Rightarrow> string \<Rightarrow> 'r list option" where
  "follow_cursor get 0 c = None"
| "follow_cursor get (Suc n) c =
     (case get c of
        Inl _ \<Rightarrow> None
      | Inr (_, p) \<Rightarrow>
          (case lp_nextCursor p of
             None \<Rightarrow> Some (lp_data p)
           | Some c' \<Rightarrow> map_option (\<lambda>rest. lp_data p @ rest) (follow_cursor get n c')))"

definition http_page :: "('a \<Rightarrow> uuid) \<Rightarrow> ('a \<Rightarrow> 'r) \<Rightarrow> nat \<Rightarrow> 'a list \<Rightarrow> 'r listing_page" where
  "http_page key render limit rows =
     \<lparr>lp_data = map render (take limit rows), lp_hasMore = length rows > limit,
      lp_nextCursor = (if length rows > limit then Some (encodeUUIDCursor (key (rows ! (limit - 1)))) else None)\<rparr>"

lemma respondList_page:
  "respondList (int limit) render (\<lambda>x. encodeUUIDCursor (key x)) (Inr rows) = Inr (200, http_page key render limit rows)"
  by (simp add: respondList_def respond_def newList_def http_page_def Let_def)

text \<open>The contract of a list over HTTP: the page after a cursor is that of the table, one row longer than the
  limit before it is cut.\<close>

locale cursor_list =
  fixes get :: "'x \<Rightarrow> string \<Rightarrow> 'r listing_page reply"
    and rows :: "'x \<Rightarrow> 'a list" and key :: "'a \<Rightarrow> uuid" and p :: "'x \<Rightarrow> 'a \<Rightarrow> bool"
    and render :: "'x \<Rightarrow> 'a \<Rightarrow> 'r" and limit :: "'x \<Rightarrow> nat" and good :: "'x \<Rightarrow> bool"
  assumes limit: "good x \<Longrightarrow> 0 < limit x"
    and keys: "good x \<Longrightarrow> distinct (map key (rows x))" "good x \<Longrightarrow> y \<in> set (rows x) \<Longrightarrow> key y \<noteq> 0 \<and> key y < 2 ^ 128"
    and first: "good x \<Longrightarrow>
      get x [] = Inr (200, http_page key (render x) (limit x) (page key (p x) 0 (Suc (limit x)) (rows x)))"
    and after: "good x \<Longrightarrow> k \<noteq> 0 \<Longrightarrow> k < 2 ^ 128 \<Longrightarrow>
      get x (encodeUUIDCursor k) =
        Inr (200, http_page key (render x) (limit x) (page key (p x) k (Suc (limit x)) (rows x)))"
begin

lemma page_data:
  assumes "good x" "0 < n" "get x c = Inr (200, http_page key (render x) (limit x) (take (Suc (limit x)) zs))"
    and more: "limit x < length zs \<Longrightarrow>
      follow_cursor (get x) (n - 1) (encodeUUIDCursor (key (last (take (limit x) zs)))) =
        Some (map (render x) (drop (limit x) zs))"
  shows "follow_cursor (get x) n c = Some (map (render x) zs)"
proof (cases "limit x < length zs")
  case True
  obtain k where n: "n = Suc k" using assms(2) by (cases n) auto
  note lim = limit [OF assms(1)]
  have "take (limit x) zs \<noteq> []" using True lim by auto
  then have "take (Suc (limit x)) zs ! (limit x - 1) = last (take (limit x) zs)"
    using True lim by (simp add: last_conv_nth del: take_eq_Nil)
  then show ?thesis using True assms(3) more [OF True] lim unfolding n
    by (simp add: http_page_def min_def flip: map_append)
next
  case False
  then show ?thesis using assms(2,3) by (cases n) (simp_all add: http_page_def)
qed

lemma follow_after:
  "good x \<Longrightarrow> matching key (p x) (rows x) = xs @ ys \<Longrightarrow> xs \<noteq> [] \<Longrightarrow> length ys < n \<Longrightarrow>
   follow_cursor (get x) n (encodeUUIDCursor (key (last xs))) = Some (map (render x) ys)"
proof (induction n arbitrary: xs ys)
  case 0
  then show ?case by simp
next
  case (Suc n)
  let ?m = "matching key (p x) (rows x)" and ?l = "limit x"
  have srt: "sorted_wrt (\<lambda>x y. key y < key x) ?m" by (rule sorted_wrt_matching [OF keys(1) [OF Suc.prems(1)]])
  have "last xs \<in> set ?m" using Suc.prems by simp
  then have "last xs \<in> set (rows x)" by (simp add: matching_def)
  then have k: "key (last xs) \<noteq> 0" "key (last xs) < 2 ^ 128" using keys(2) [OF Suc.prems(1)] by blast+
  have "filter (\<lambda>r. key r < key (last xs)) ?m = ys"
    using filter_below_last [OF srt, of "length xs"] Suc.prems by simp
  then have pg: "page key (p x) (key (last xs)) (Suc ?l) (rows x) = take (Suc ?l) ys" using page_below [OF k(1)] by metis
  have more: "follow_cursor (get x) n (encodeUUIDCursor (key (last (take ?l ys)))) = Some (map (render x) (drop ?l ys))"
    if l: "?l < length ys"
  proof -
    note lim = limit [OF Suc.prems(1)]
    have "?m = (xs @ take ?l ys) @ drop ?l ys" using Suc.prems(2) by simp
    moreover have "length (drop ?l ys) < n" using Suc.prems(4) lim l by simp
    moreover have "take ?l ys \<noteq> []" using l lim by auto
    then have "last (xs @ take ?l ys) = last (take ?l ys)" by (rule last_appendR)
    ultimately show ?thesis using Suc.IH [of "xs @ take ?l ys" "drop ?l ys"] Suc.prems(1,3) by simp
  qed
  show ?case by (rule page_data [OF Suc.prems(1) _ after [OF Suc.prems(1) k, unfolded pg]]) (simp_all add: more)
qed

lemma follow_all:
  assumes "good x" "length (rows x) < n"
  shows "follow_cursor (get x) n [] = Some (map (render x) (matching key (p x) (rows x)))"
proof -
  let ?m = "matching key (p x) (rows x)" and ?l = "limit x"
  note lim = limit [OF assms(1)]
  have len: "length ?m \<le> length (rows x)" by (simp add: matching_def)
  have pg: "page key (p x) 0 (Suc ?l) (rows x) = take (Suc ?l) ?m" by (rule page_first)
  have more: "follow_cursor (get x) (n - 1) (encodeUUIDCursor (key (last (take ?l ?m)))) = Some (map (render x) (drop ?l ?m))"
    if l: "?l < length ?m"
  proof -
    have "?m = take ?l ?m @ drop ?l ?m" by simp
    moreover have "take ?l ?m \<noteq> []" using l lim by auto
    moreover have "length (drop ?l ?m) < n - 1" using assms(2) len lim l by simp
    ultimately show ?thesis by (rule follow_after [OF assms(1)])
  qed
  have "0 < n" using assms(2) by simp
  from page_data [OF assms(1) this first [OF assms(1), unfolded pg]] more show ?thesis by blast
qed

end

section \<open>Transactions\<close>

definition no_cursor :: "http_request \<Rightarrow> bool" where
  "no_cursor r \<longleftrightarrow> ''cursor'' \<notin> fst ` set (hr_query r)"

lemma queryGet_with [simp]:
  "queryGet (with_cursor r c) ''cursor'' = c"
  "name \<noteq> ''cursor'' \<Longrightarrow> queryGet (with_cursor r c) name = queryGet r name"
  by (simp_all add: queryGet_def with_cursor_def)

lemma queryGet_none: "no_cursor r \<Longrightarrow> queryGet r ''cursor'' = []"
  by (simp add: queryGet_def no_cursor_def map_of_eq_None_iff flip: map_of_eq_None_iff)

lemma query_with [simp]:
  "name \<noteq> ''cursor'' \<Longrightarrow> queryID pre (with_cursor r c) name = queryID pre r name"
  "queryMetadata (with_cursor r c) = queryMetadata r"
  "queryEffective time_of (with_cursor r c) = queryEffective time_of r"
  "pageLimit (with_cursor r c) = pageLimit r"
  by (simp_all add: queryID_def queryEffective_def query_time_def pageLimit_def)
    (simp add: queryMetadata_def with_cursor_def cutPrefix_def)

lemma pageLimit_bounds: "pageLimit r = Inr l \<Longrightarrow> 1 \<le> l \<and> l \<le> 100"
  by (auto simp: pageLimit_def defaultPageLimit_def maxPageLimit_def Let_def split: if_splits option.splits)

lemma page_query_with:
  assumes "no_cursor r" "page_query uuidCursor 0 r = Inr (l, b)"
  shows "b = 0" "1 \<le> l" "l \<le> 100" "page_query uuidCursor 0 (with_cursor r []) = Inr (l, 0)"
    and "k < 2 ^ 128 \<Longrightarrow> page_query uuidCursor 0 (with_cursor r (encodeUUIDCursor k)) = Inr (l, k)"
  using assms pageLimit_bounds [of r l] uuid_cursor [of k]
  by (auto simp: page_query_def queryGet_none Let_def)

lemma txn_query_with:
  assumes "no_cursor r" "txn_query time_of r = Inr (l, i)"
  shows "1 \<le> l" "xl_before i = 0" "xl_limit i = l + 1" "txn_query time_of (with_cursor r []) = Inr (l, i)"
    and "k < 2 ^ 128 \<Longrightarrow> txn_query time_of (with_cursor r (encodeUUIDCursor k)) = Inr (l, i\<lparr>xl_before := k\<rparr>)"
proof -
  obtain b where b: "page_query uuidCursor 0 r = Inr (l, b)" using assms(2) by (auto simp: txn_query_def)
  note q = page_query_with [OF assms(1) b]
  show "1 \<le> l" by (rule q(2))
  show "xl_before i = 0" "xl_limit i = l + 1" "txn_query time_of (with_cursor r []) = Inr (l, i)"
    using assms(2) b q(1,4) by (auto simp: txn_query_def)
  show "txn_query time_of (with_cursor r (encodeUUIDCursor k)) = Inr (l, i\<lparr>xl_before := k\<rparr>)" if "k < 2 ^ 128"
    using assms(2) b q(5) [OF that] by (auto simp: txn_query_def)
qed

lemma listed_txn_before [simp]: "listed_txn d (i\<lparr>xl_before := k\<rparr>) = listed_txn d i"
  by (rule ext) (simp add: listed_txn_def)

lemma page_subset: "set (page key p b l rows) \<subseteq> set rows"
  by (auto simp: page_def dest: in_set_takeD)

lemma listTransactions_page:
  assumes "db_inv d" "listTransactions d i = Inr ts"
  shows "listTransactions d (i\<lparr>xl_before := k\<rparr>) =
    Inr (map (row_txn d) (page tr_id (listed_txn d i) k (nat (xl_limit i)) (db_txns d)))"
proof -
  have "\<forall>r \<in> set (db_txns d). row_entries d r \<noteq> []"
    using assms(1) by (simp add: db_inv_def db_inv_but_def journal_inv_def txn_row_ok_def)
  then have "filter (\<lambda>r. row_entries d r \<noteq> []) (page tr_id (listed_txn d i) k (nat (xl_limit i)) (db_txns d)) =
      page tr_id (listed_txn d i) k (nat (xl_limit i)) (db_txns d)"
    using page_subset by (fastforce simp: filter_id_conv)
  then show ?thesis using assms(2)
    by (auto simp: listTransactions_def selectTransactionPage_def split: if_splits)
qed

lemma http_page_map:
  "(\<And>r. t (f r) = key r) \<Longrightarrow> http_page t render l (map f rows) = http_page key (\<lambda>r. render (f r)) l rows"
  by (cases "l < length rows") (auto simp: http_page_def take_map)

definition txn_list_ok :: "(string \<Rightarrow> gotime option) \<Rightarrow> db \<times> http_request \<Rightarrow> bool" where
  "txn_list_ok time_of x \<longleftrightarrow>
     db_inv (fst x) \<and> (\<forall>t \<in> set (db_txns (fst x)). tr_id t \<noteq> 0 \<and> tr_id t < 2 ^ 128) \<and> no_cursor (snd x) \<and>
     (\<exists>l i ts. txn_query time_of (snd x) = Inr (l, i) \<and> listTransactions (fst x) i = Inr ts)"

definition txn_input :: "(string \<Rightarrow> gotime option) \<Rightarrow> db \<times> http_request \<Rightarrow> int \<times> txnList" where
  "txn_input time_of x = projr (txn_query time_of (snd x))"

lemma handleListTransactions_page:
  assumes "txn_list_ok time_of x" "k < 2 ^ 128"
    and c: "c = (if k = 0 then [] else encodeUUIDCursor k)"
  defines "l \<equiv> nat (fst (txn_input time_of x))" and "i \<equiv> snd (txn_input time_of x)"
  shows "handleListTransactions time_of (fst x) (with_cursor (snd x) c) =
    Inr (200, http_page tr_id (\<lambda>r. toTransaction (row_txn (fst x) r)) l
      (page tr_id (listed_txn (fst x) i) k (Suc l) (db_txns (fst x))))" "0 < l"
proof -
  obtain l' i' ts where q: "txn_query time_of (snd x) = Inr (l', i')" "listTransactions (fst x) i' = Inr ts"
    and d: "db_inv (fst x)" and n: "no_cursor (snd x)" using assms(1) unfolding txn_list_ok_def by blast
  note w = txn_query_with [OF n q(1)]
  have li: "l = nat l'" "i = i'" using q(1) by (simp_all add: l_def i_def txn_input_def)
  have "i'\<lparr>xl_before := 0\<rparr> = i'" using w(2) by simp
  then have "txn_query time_of (with_cursor (snd x) c) = Inr (l', i'\<lparr>xl_before := k\<rparr>)"
    using c w(4) w(5) [OF assms(2)] by simp
  moreover have "nat (xl_limit i') = Suc l" using w(1,3) li by simp
  moreover have "int l = l'" using w(1) li by simp
  ultimately show "handleListTransactions time_of (fst x) (with_cursor (snd x) c) =
    Inr (200, http_page tr_id (\<lambda>r. toTransaction (row_txn (fst x) r)) l
      (page tr_id (listed_txn (fst x) i) k (Suc l) (db_txns (fst x))))"
    using listTransactions_page [OF d q(2), of k] respondList_page [of l toTransaction t_id] li
    by (simp add: handleListTransactions_def http_page_map row_txn_def)
  show "0 < l" using w(1) li by simp
qed

interpretation txns: cursor_list "\<lambda>x c. handleListTransactions time_of (fst x) (with_cursor (snd x) c)"
    "\<lambda>x. db_txns (fst x)" tr_id "\<lambda>x. listed_txn (fst x) (snd (txn_input time_of x))"
    "\<lambda>x r. toTransaction (row_txn (fst x) r)" "\<lambda>x. nat (fst (txn_input time_of x))" "txn_list_ok time_of" for time_of
proof
  fix x y k
  assume g: "txn_list_ok time_of x"
  show "0 < nat (fst (txn_input time_of x))" using handleListTransactions_page(2) [OF g _ refl, of 0] by simp
  show "distinct (map tr_id (db_txns (fst x)))"
    using g by (simp add: txn_list_ok_def db_inv_def db_inv_but_def journal_inv_def)
  show "tr_id y \<noteq> 0 \<and> tr_id y < 2 ^ 128" if "y \<in> set (db_txns (fst x))" using g that by (simp add: txn_list_ok_def)
  let ?l = "nat (fst (txn_input time_of x))" and ?p = "listed_txn (fst x) (snd (txn_input time_of x))"
  show "handleListTransactions time_of (fst x) (with_cursor (snd x) []) =
      Inr (200, http_page tr_id (\<lambda>r. toTransaction (row_txn (fst x) r)) ?l (page tr_id ?p 0 (Suc ?l) (db_txns (fst x))))"
    using handleListTransactions_page(1) [OF g _ refl, of 0] by simp
  show "handleListTransactions time_of (fst x) (with_cursor (snd x) (encodeUUIDCursor k)) =
      Inr (200, http_page tr_id (\<lambda>r. toTransaction (row_txn (fst x) r)) ?l (page tr_id ?p k (Suc ?l) (db_txns (fst x))))"
    if "k \<noteq> 0" "k < 2 ^ 128"
    using handleListTransactions_page(1) [OF g that(2) refl] that(1) by simp
qed

text \<open>
  C35. A client that asks for transactions and follows the cursor from page to page gets every transaction that
  the filters select exactly once, the newest first, and reaches a page without a cursor, for every page size.
\<close>

theorem transactions_read_once:
  assumes "reachable d" "\<forall>t \<in> set (db_txns d). tr_id t \<noteq> 0 \<and> tr_id t < 2 ^ 128"
    and "no_cursor r" "txn_query time_of r = Inr (limit, i)" "listTransactions d i = Inr page1"
    and "length (db_txns d) < n"
  shows "\<exists>ts. follow_cursor (\<lambda>c. handleListTransactions time_of d (with_cursor r c)) n [] =
      Some (map toTransaction ts) \<and>
    sorted_wrt (\<lambda>t u. t_id u < t_id t) ts \<and> set ts = row_txn d ` {x \<in> set (db_txns d). listed_txn d i x}"
proof -
  let ?x = "(d, r)" and ?m = "matching tr_id (listed_txn d i) (db_txns d)"
  have inv: "db_inv d" using reachable_inv [OF assms(1)] by (simp add: service_inv_def)
  then have "txn_list_ok time_of ?x" using assms(2-5) by (auto simp: txn_list_ok_def)
  from txns.follow_all [OF this, of n]
  have f: "follow_cursor (\<lambda>c. handleListTransactions time_of d (with_cursor r c)) n [] =
      Some (map toTransaction (map (row_txn d) ?m))"
    using assms(4,6) by (simp add: txn_input_def comp_def)
  have "distinct (map tr_id (db_txns d))" using inv by (simp add: db_inv_def db_inv_but_def journal_inv_def)
  from sorted_wrt_matching [OF this] have "sorted_wrt (\<lambda>t u. t_id u < t_id t) (map (row_txn d) ?m)"
    by (simp add: sorted_wrt_map row_txn_def)
  moreover have "set (map (row_txn d) ?m) = row_txn d ` {x \<in> set (db_txns d). listed_txn d i x}"
    by (simp add: matching_def)
  ultimately show ?thesis using f by blast
qed

definition sample_list_request :: http_request where
  "sample_list_request =
     \<lparr>hr_path = [], hr_query = [(''limit'', [''1'']), (''status'', [''posted''])], hr_key = []\<rparr>"

lemma sample_txn_query:
  "txn_query (\<lambda>_. None) sample_list_request =
     Inr (1, \<lparr>xl_ledger = 0, xl_status = Posted, xl_externalID = [], xl_account = 0, xl_metadata = [],
        xl_effective = \<lparr>from_time = None, until_time = None\<rparr>, xl_before = 0, xl_limit = 2\<rparr>)"
  by code_simp

lemma sample_list_rows:
  "map tr_id (db_txns sample_db) = [100] \<and> map tr_status (db_txns sample_db) = [Posted]"
  by code_simp

lemma sample_listed:
  "list_all (listed_txn sample_db \<lparr>xl_ledger = 0, xl_status = Posted, xl_externalID = [], xl_account = 0,
     xl_metadata = [], xl_effective = \<lparr>from_time = None, until_time = None\<rparr>, xl_before = 0, xl_limit = 2\<rparr>)
     (db_txns sample_db)"
  by code_simp

lemma transactions_read_once_witness:
  "\<exists>ts. follow_cursor (\<lambda>c. handleListTransactions (\<lambda>_. None) sample_db (with_cursor sample_list_request c)) 2 [] =
     Some (map toTransaction ts) \<and> t_id ` set ts = {100}"
proof -
  let ?i = "snd (projr (txn_query (\<lambda>_. None) sample_list_request))"
  obtain x where x: "db_txns sample_db = [x]" "tr_id x = 100"
    using sample_list_rows by (auto simp: map_eq_Cons_conv)
  have "no_cursor sample_list_request" by (simp add: no_cursor_def sample_list_request_def)
  moreover have "listTransactions sample_db ?i = Inr (selectTransactionPage sample_db ?i)"
    by (simp add: sample_txn_query listTransactions_def limit_ok_def maxListLimit_def validateMetadataFilter_def
        validateRange_def)
  moreover have "txn_query (\<lambda>_. None) sample_list_request = Inr (1, ?i)" by (simp add: sample_txn_query)
  ultimately obtain ts where ts:
    "follow_cursor (\<lambda>c. handleListTransactions (\<lambda>_. None) sample_db (with_cursor sample_list_request c)) 2 [] =
      Some (map toTransaction ts)"
    "set ts = row_txn sample_db ` {y \<in> set (db_txns sample_db). listed_txn sample_db ?i y}"
    using transactions_read_once [OF sample_db_reachable, of sample_list_request "\<lambda>_. None" 1 ?i _ 2] x by auto
  have "listed_txn sample_db ?i x" using sample_listed x(1) by (simp add: sample_txn_query)
  then have "t_id ` set ts = {100}" using ts(2) x by (auto simp: row_txn_def image_iff)
  then show ?thesis using ts(1) by blast
qed

section \<open>Resources\<close>

lemma selectTransaction_row:
  assumes "db_inv d" "txn_by d i = Some row"
  shows "selectTransaction d i = Inr (row_txn d row)"
proof -
  have j: "distinct (map tr_id (db_txns d))" "\<forall>r \<in> set (db_txns d). row_entries d r \<noteq> []"
    using assms(1) by (simp_all add: db_inv_def db_inv_but_def journal_inv_def txn_row_ok_def)
  have r: "row \<in> set (db_txns d)" "tr_id row = i" using txn_by_SomeD [OF assms(2)] by auto
  have "filter (\<lambda>y. tr_id y = i \<and> row_entries d y \<noteq> []) (db_txns d) = filter (\<lambda>y. tr_id y = tr_id row) (db_txns d)"
    using j(2) r(2) by (intro filter_cong) auto
  also have "\<dots> = [row]" by (rule distinct_filter_one [OF j(1) r(1)])
  finally show ?thesis by (simp add: selectTransaction_def selectOneTransaction_def selectTransactions_def)
qed

text \<open>The request for one object by the text of its id.\<close>

definition at_path :: "string \<Rightarrow> http_request" where
  "at_path s = \<lparr>hr_path = [(''id'', s)], hr_query = [], hr_key = []\<rparr>"

lemma getTransaction_row:
  assumes "db_inv d" "txn_by d i = Some row" "i < 2 ^ 128"
  shows "getTransaction d (at_path (marshalText (transactionID i))) = Inr (200, toTransaction (row_txn d row))"
  by (simp add: getTransaction_def withID_def pathID_def pathValue_def at_path_def marshalText_def transactionID_def
      read_id_text [OF assms(3)] selectTransaction_row [OF assms(1,2)] respond_def)

lemma listed_resources:
  assumes "handleListTransactions time_of d r = Inr (200, lp)" "x \<in> set (lp_data lp)"
  shows "\<exists>row \<in> set (db_txns d). x = toTransaction (row_txn d row)"
proof -
  obtain l i where h: "respondList l toTransaction (\<lambda>t. encodeUUIDCursor (t_id t)) (listTransactions d i) = Inr (200, lp)"
    using assms(1) by (auto simp: handleListTransactions_def)
  then obtain ts where q: "listTransactions d i = Inr ts" by (cases "listTransactions d i") (simp_all add: respondList_def respond_def)
  have "set (lp_data lp) \<subseteq> toTransaction ` set ts"
    using h q by (auto simp: respondList_def respond_def newList_def Let_def split: if_splits) (meson imageI in_set_takeD)
  moreover have "set ts \<subseteq> row_txn d ` set (db_txns d)"
    using q page_subset by (fastforce simp: listTransactions_def selectTransactionPage_def split: if_splits)
  ultimately show ?thesis using assms(2) by blast
qed

text \<open>
  C37. The id of a resource is its address for ever: a transaction that a list showed, and that is not pending, is
  returned unchanged for its id in every later state of the service.
\<close>

theorem resource_addressed:
  assumes "reachable d" "service_step\<^sup>*\<^sup>* d d'" "\<forall>t \<in> set (db_txns d). tr_id t < 2 ^ 128"
    and "handleListTransactions time_of d r = Inr (200, lp)" "x \<in> set (lp_data lp)" "tx_status x \<noteq> Pending"
  shows "getTransaction d' (at_path (marshalText (tx_id x))) = Inr (200, x)"
proof -
  obtain row where row: "row \<in> set (db_txns d)" "x = toTransaction (row_txn d row)"
    using listed_resources [OF assms(4,5)] by blast
  have inv: "db_inv d" "db_inv d'"
    using reachable_inv [OF assms(1)] steps_inv [OF assms(2)] by (simp_all add: service_inv_def)
  have "distinct (map tr_id (db_txns d))" using inv(1) by (simp add: db_inv_def db_inv_but_def journal_inv_def)
  from row_by_in_set [OF this row(1)] have "txn_by d (tr_id row) = Some row" by (simp add: txn_by_def)
  moreover have "tr_status row \<noteq> Pending" using assms(6) row(2) by (simp add: toTransaction_def row_txn_def)
  ultimately have "txn_by d' (tr_id row) = Some row" "row_entries d' row = row_entries d row"
    using service_steps_journal [OF assms(2)] unfolding keeps_journal_def same_txn_def by blast+
  moreover have "tr_id row < 2 ^ 128" using assms(3) row(1) by blast
  moreover have "tx_id x = transactionID (tr_id row)" using row(2) by (simp add: toTransaction_def row_txn_def)
  ultimately show ?thesis using getTransaction_row [OF inv(2)] row(2) by (simp add: row_txn_def)
qed

lemma resource_addressed_witness:
  "\<exists>lp x. handleListTransactions (\<lambda>_. None) sample_db sample_list_request = Inr (200, lp) \<and> x \<in> set (lp_data lp) \<and>
     getTransaction sample_db (at_path (marshalText (tx_id x))) = Inr (200, x)"
proof -
  let ?i = "snd (projr (txn_query (\<lambda>_. None) sample_list_request))"
  obtain row where row: "db_txns sample_db = [row]" "tr_id row = 100" "tr_status row = Posted"
    using sample_list_rows by (auto simp: map_eq_Cons_conv)
  have inv: "db_inv sample_db" using reachable_inv [OF sample_db_reachable] by (simp add: service_inv_def)
  have list: "listTransactions sample_db (?i\<lparr>xl_before := 0\<rparr>) =
      Inr (map (row_txn sample_db) (page tr_id (listed_txn sample_db ?i) 0 2 [row]))"
    using listTransactions_page [OF inv, of ?i "selectTransactionPage sample_db ?i" 0] row(1)
    by (simp add: sample_txn_query listTransactions_def limit_ok_def maxListLimit_def validateMetadataFilter_def
        validateRange_def)
  have "listed_txn sample_db ?i row" using sample_listed row(1) by (simp add: sample_txn_query)
  then have "page tr_id (listed_txn sample_db ?i) 0 2 [row] = [row]" by (simp add: page_def nullUUID_def)
  then obtain lp where lp: "handleListTransactions (\<lambda>_. None) sample_db sample_list_request = Inr (200, lp)"
      "lp_data lp = [toTransaction (row_txn sample_db row)]"
    using list by (simp add: handleListTransactions_def sample_txn_query respondList_def respond_def newList_def Let_def)
  have "tx_status (toTransaction (row_txn sample_db row)) \<noteq> Pending"
    using row(3) by (simp add: toTransaction_def row_txn_def)
  with resource_addressed [OF sample_db_reachable rtranclp.rtrancl_refl _ lp(1)] lp row(1,2) show ?thesis by auto
qed

section \<open>Batches\<close>

fun answer_failed :: "batchAnswer \<Rightarrow> bool" where
  "answer_failed (BatchDone t) \<longleftrightarrow> False"
| "answer_failed (BatchFailed e) \<longleftrightarrow> True"

fun errored :: "batchResult \<Rightarrow> bool" where
  "errored (BatchError e) \<longleftrightarrow> True"
| "errored (BatchTxn t x) \<longleftrightarrow> False"

lemma answer_failed_iff: "answer_failed (batch_answer r) \<longleftrightarrow> errored r"
  by (cases r) (auto split: prod.splits)

lemma batch_result_errored: "errored (batch_result r) \<longleftrightarrow> result_failed r"
  by (cases r) (simp_all add: failedResult_def)

lemma batch_failure_None: "batch_failure rs f = None \<longleftrightarrow> f = None \<and> (\<forall>r \<in> set rs. \<not> errored r)"
  by (induction rs f rule: batch_failure.induct) auto

lemma problem_status: "400 \<le> fst (problemFor e)"
proof (cases "map_of problem_codes e")
  case None
  then show ?thesis by (simp add: problemFor_def)
next
  case (Some sc)
  have "list_all (\<lambda>(_, s, _). 400 \<le> s) problem_codes" by (simp add: problem_codes_def)
  then show ?thesis using map_of_SomeD [OF Some] Some by (cases sc) (auto simp: problemFor_def list_all_iff)
qed

lemma first_invalid_ok: "first_invalid ins = ok \<Longrightarrow> \<forall>i \<in> set ins. validatePost i = ok"
  by (induction ins) auto

lemma place_results_valid:
  "\<forall>i \<in> set ins. validatePost i = ok \<Longrightarrow> length rs = length ins \<Longrightarrow> place_results ins rs = map batch_result rs"
proof (induction ins arbitrary: rs)
  case (Cons i ins)
  then show ?case by (cases rs) auto
qed simp

lemma postBatch_atomic:
  assumes "postBatch d now fresh ins True = Inr (rs, d')"
  shows "(\<forall>r \<in> set rs. \<not> errored r) \<or> rs \<noteq> [] \<and> (\<forall>r \<in> set rs. errored r) \<and> d' = d"
proof -
  have v: "\<forall>i \<in> set ins. validatePost i = ok" and ne: "ins \<noteq> []"
    using assms first_invalid_ok by (auto simp: postBatch_def split: if_splits)
  have "valid_requests ins = map plain_request ins" using v by (simp add: valid_requests_def)
  then obtain grs where g: "runRequests d now fresh (map plain_request ins) True = Inr (grs, d')"
      "rs = place_results ins grs"
    using assms ne by (auto simp: postBatch_def Let_def split: if_splits)
  note a = atomic_results [OF g(1)]
  have "rs = map batch_result grs" using place_results_valid [OF v] a g(2) by simp
  moreover have "rs \<noteq> []" using ne a calculation by auto
  ultimately show ?thesis using a by (auto simp: batch_result_errored)
qed

text \<open>
  C36. The status of a batch tells what became of it: 201 says that every transaction was accepted; any other
  status of an atomic batch says that none was and that the database is as it was; 207 of a batch that is not
  atomic says that some were refused. A batch that is answered with a problem changes nothing.
\<close>

theorem batch_status_tells:
  assumes "createBatch d now fresh r b = (reply, d')"
  shows "case reply of
      Inl p \<Rightarrow> d' = d
    | Inr (status, resp) \<Rightarrow>
        if status = 201 then \<forall>a \<in> set (bo_results resp). \<not> answer_failed a
        else if bo_atomic resp then d' = d \<and> 400 \<le> status \<and> (\<forall>a \<in> set (bo_results resp). answer_failed a)
        else status = 207 \<and> (\<exists>a \<in> set (bo_results resp). answer_failed a)"
proof (cases reply)
  case (Inl p)
  then show ?thesis using assms
    by (auto simp: createBatch_def guarded_def Let_def split: sum.splits)
next
  case (Inr x)
  then obtain status resp where x: "x = (status, resp)" by (cases x)
  obtain rs where rs: "postBatch d now fresh (batch_inputs (hr_key r) (rb_transactions (projr b))) (bo_atomic resp) = Inr (rs, d')"
      "status = batch_status (bo_atomic resp) (batch_failure rs None)" "bo_results resp = map batch_answer rs"
    using assms Inr x
    by (auto simp: createBatch_def guarded_def body_of_def idempotencyKey_def Let_def split: sum.splits if_splits)
  note none = batch_failure_None [of rs None]
  show ?thesis
  proof (cases "batch_failure rs None")
    case None
    then show ?thesis using none rs(2,3) Inr x by (auto simp: batch_status_def answer_failed_iff)
  next
    case (Some e)
    then have some: "\<exists>r \<in> set rs. errored r" using none by auto
    show ?thesis
    proof (cases "bo_atomic resp")
      case True
      then have "d' = d \<and> (\<forall>r \<in> set rs. errored r)" using postBatch_atomic rs(1) some by fastforce
      moreover have "400 \<le> status" using True Some rs(2) problem_status by (simp add: batch_status_def)
      ultimately show ?thesis using True Inr x rs(3) by (simp add: answer_failed_iff)
    next
      case False
      then have "status = 207" using Some rs(2) by (simp add: batch_status_def)
      then show ?thesis using False Inr x rs(3) some by (simp add: answer_failed_iff)
    qed
  qed
qed

lemma postBatch_run:
  assumes "first_invalid ins = ok" "ins \<noteq> []" "length ins \<le> 1000"
    and run: "runRequests d now fresh (map plain_request ins) True = Inr (rs, d')"
  shows "postBatch d now fresh ins True = Inr (map batch_result rs, d')"
proof -
  have v: "\<forall>i \<in> set ins. validatePost i = ok" by (rule first_invalid_ok [OF assms(1)])
  have "length rs = length ins" using atomic_results [OF run] by simp
  note place = place_results_valid [OF v this]
  have "filter (\<lambda>i. validatePost i = ok) ins = ins" using v by (simp add: filter_id_conv)
  then show ?thesis using assms by (simp add: postBatch_def valid_requests_def place Let_def)
qed

definition sample_line :: "uuid \<Rightarrow> side \<Rightarrow> int \<Rightarrow> entryLine" where
  "sample_line a s n = \<lparr>ln_account = accountID a, ln_side = s, ln_amount = n, ln_currency = [], ln_pendingBalance = None,
     ln_postedBalance = None, ln_availableBalance = None, ln_lockVersion = None, ln_resulting = None\<rparr>"

definition sample_body :: "entryLine list \<Rightarrow> transactionRequest" where
  "sample_body es = \<lparr>rx_description = [], rx_metadata = no_jvalue, rx_entries = es, rx_status = Posted,
     rx_effectiveAt = None, rx_externalID = [], rx_archiveOnLockFailure = False\<rparr>"

definition sample_batch :: batchRequest where
  "sample_batch = \<lparr>rb_atomic = None, rb_transactions =
     [sample_body [sample_line 11 Debit 10, sample_line 12 Credit 10],
      sample_body [sample_line 12 Debit 500, sample_line 11 Credit 500]]\<rparr>"

definition sample_batch_reply :: "batchResponse reply \<times> db" where
  "sample_batch_reply = createBatch sample_db 3000 (\<lambda>n. 200 + n) (sample_list_request\<lparr>hr_key := ''b''\<rparr>) (Inr sample_batch)"

lemma sample_batch_valid:
  "first_invalid (batch_inputs ''b'' (rb_transactions sample_batch)) = ok \<and>
   length (batch_inputs ''b'' (rb_transactions sample_batch)) = 2"
  by code_simp

lemma sample_batch_run:
  "(case runRequests sample_db 3000 (\<lambda>n. 200 + n) (map plain_request (batch_inputs ''b'' (rb_transactions sample_batch))) True of
      Inl e \<Rightarrow> False | Inr (rs, d) \<Rightarrow> list_ex result_failed rs)"
  by code_simp

lemma sample_batch_refused:
  "\<exists>status resp d. sample_batch_reply = (Inr (status, resp), d) \<and> bo_atomic resp \<and> status \<noteq> 201 \<and> length (bo_results resp) = 2"
proof -
  let ?ins = "batch_inputs ''b'' (rb_transactions sample_batch)"
  obtain rs d where r: "runRequests sample_db 3000 (\<lambda>n. 200 + n) (map plain_request ?ins) True = Inr (rs, d)"
      "list_ex result_failed rs"
    using sample_batch_run by (auto split: sum.splits)
  note v = sample_batch_valid [THEN conjunct1] and len = sample_batch_valid [THEN conjunct2]
  have n: "length rs = length ?ins" using atomic_results [OF r(1)] by simp
  have ne: "?ins \<noteq> []" and le: "length ?ins \<le> 1000" using len by auto
  note p = postBatch_run [OF v ne le r(1)]
  obtain q where "q \<in> set rs" "result_failed q" using r(2) by (auto simp: list_ex_iff)
  then have "batch_result q \<in> set (map batch_result rs)" "errored (batch_result q)" by (simp_all add: batch_result_errored)
  then have "batch_failure (map batch_result rs) None \<noteq> None" using batch_failure_None by blast
  then obtain e where e: "batch_failure (map batch_result rs) None = Some e" by blast
  then have st: "batch_status True (batch_failure (map batch_result rs) None) \<noteq> 201"
    using problem_status [of e] by (auto simp: batch_status_def)
  have a: "rb_atomic sample_batch = None" by (simp add: sample_batch_def)
  have reply: "sample_batch_reply = (Inr (batch_status True (batch_failure (map batch_result rs) None),
      \<lparr>bo_object = ''batch'', bo_atomic = True, bo_results = map batch_answer (map batch_result rs)\<rparr>), d)"
    by (simp add: sample_batch_reply_def createBatch_def guarded_def idempotencyKey_def body_of_def Let_def p a)
  show ?thesis by (rule exI, rule exI, rule exI, rule conjI [OF reply]) (use st n len in simp)
qed

lemma batch_status_tells_witness:
  "\<exists>status resp. sample_batch_reply = (Inr (status, resp), sample_db) \<and> 400 \<le> status \<and>
     length (filter answer_failed (bo_results resp)) = 2"
proof -
  obtain status resp d where r: "sample_batch_reply = (Inr (status, resp), d)" "bo_atomic resp" "status \<noteq> 201"
      "length (bo_results resp) = 2"
    using sample_batch_refused by blast
  have "d = sample_db \<and> 400 \<le> status \<and> (\<forall>a \<in> set (bo_results resp). answer_failed a)"
    using batch_status_tells [OF r(1) [unfolded sample_batch_reply_def]] r(2,3) by simp
  moreover from this have "filter answer_failed (bo_results resp) = bo_results resp" by (simp add: filter_id_conv)
  ultimately show ?thesis using r(1,4) by metis
qed

end
