(* ===== verification/Spec2Isabelle.thy ===== *)
theory Spec2Isabelle
  imports AmountText State_Properties Verify TypeID Service_Properties Queue_Properties History_Properties
  Seal_Properties Bulk_Properties Webhook_Properties Idempotency_Properties Auth_Properties Api_Properties
begin

text \<open>
  Astrum is a double-entry ledger service in Go over PostgreSQL. A client posts transactions, whose entries
  debit and credit accounts and balance in every currency; the service keeps the totals of every account,
  refuses what would overdraw it, and answers a repeated request with the first transaction. Around this core
  are pending transactions, holds, schedules, settlements, monitors, categories and statements, a batcher that
  joins concurrent postings, bulk requests, a chain of seals over the journal, a report that checks the whole
  database, webhooks, a middleware for idempotent requests, and API keys. Paths below are under
  \<^verbatim>\<open>src/internal\<close>; a definition has the name of the Go function or type it models where
  that is free.

  \<^bold>\<open>How the program is read.\<close>
  The database is the record \<open>db\<close> of \<open>Store\<close>: one list of rows for each table, in the
  order of insertion. A SQL statement is a function on it, a database transaction is a function
  \<open>db \<Rightarrow> err + ('a \<times> db)\<close>, and a rollback is \<open>Inl\<close>: the new database
  is lost with it. Row locks make the transactions that touch an account run one after the other, so an
  operation is one step. The errors of the packages are the datatype \<open>err\<close> of
  \<open>Prelude\<close>, sequenced by \<open>bindR\<close>. The time of the database, new ids and random bytes
  are arguments. An amount is a pair of 64-bit words as in the source; the operations on it keep the
  wrap-around, and range conditions appear where the decoder or the database guarantees them. The versions of
  accounts and transactions are unbounded integers, where the source has 64-bit ones. A statement that skips
  locked rows has the predicate \<open>skip\<close> of the rows that others have locked as an argument
  (\<open>executeDue\<close>, \<open>expireHolds\<close>, \<open>claimBulk\<close>). A Go map is an association
  list, and what is proved holds for every order of it.

  \<^bold>\<open>Theories.\<close>
  \<^item> \<open>Prelude\<close>: errors, results, lists, decimal texts and the generic lemmas.
  \<^item> \<open>Amount\<close>, \<open>AmountText\<close>: \<^verbatim>\<open>money/amount.go\<close>,
    \<^verbatim>\<open>money/money.go\<close>; \<open>TypeID\<close>: \<^verbatim>\<open>kernel/typeid\<close>.
  \<^item> \<open>Json\<close>, \<open>Types\<close>, \<open>Validate\<close>, \<open>Updates\<close>: the data
    of \<^verbatim>\<open>modules/ledger/types*.go\<close>, JSON metadata, merge patches, and every check of an
    input (\<^verbatim>\<open>validate.go\<close>).
  \<^item> \<open>State\<close>: \<^verbatim>\<open>state.go\<close>, the accounts that a database transaction
    has locked and the change it stages on them. \<open>State_Laws\<close>, \<open>Transition\<close>,
    \<open>Evolution\<close> prove its effect, \<open>Samples\<close> holds small states,
    \<open>State_Properties\<close> the properties.
  \<^item> \<open>Store\<close>, \<open>Store_Laws\<close>: \<^verbatim>\<open>store.go\<close>,
    \<^verbatim>\<open>store_accounts.go\<close>, \<^verbatim>\<open>store_transactions.go\<close>,
    \<^verbatim>\<open>events.go\<close>. \<open>Engine\<close>, \<open>Engine_Laws\<close>:
    \<^verbatim>\<open>engine.go\<close>, which answers a batch of requests in one database transaction on the
    state of \<open>State\<close> and the rows of \<open>Store\<close>.
  \<^item> \<open>Books\<close>: the invariant \<open>db_inv\<close> of the database; \<open>Journal\<close>,
    \<open>Journal_Growth\<close>: writing entries keeps it and only appends. \<open>Verify\<close>:
    \<^verbatim>\<open>verify.go\<close>, whose checks the invariant answers.
  \<^item> \<open>Posting\<close>, \<open>Pending\<close>, \<open>Holds\<close>, \<open>Schedules\<close>,
    \<open>Settlements\<close>, \<open>Ledgers\<close>, \<open>Accounts\<close>, \<open>Monitors\<close>,
    \<open>Categories\<close>, \<open>History\<close>, \<open>Paging\<close>: the operations of the files of
    these names and of \<^verbatim>\<open>service.go\<close>, each with its laws in \<open>Posting_Laws\<close>,
    \<open>Pending_Laws\<close>, \<open>Holds_Laws\<close>, \<open>Settlement_Laws\<close>,
    \<open>Registry_Laws\<close>, \<open>Category_Laws\<close>, \<open>History_Laws\<close>;
    \<open>Frame\<close>: what an operation leaves alone (\<open>keeps_journal\<close>, and
    \<open>appends_journal\<close>, which also keeps the events). \<open>Answers\<close>: what the result of
    every request of a batch says, and how the rows it stored answer it later. \<open>Posting_Properties\<close>
    and \<open>History_Properties\<close> hold properties of them.
  \<^item> \<open>Service\<close>: the step relation \<open>service_step\<close> of all operations that change
    the database, with the removal of events by \<^verbatim>\<open>kernel/events/retention.go\<close> as a step
    that keeps any selection of them, and \<open>reachable\<close>; \<open>Sample_Service\<close> a small run of
    it; \<open>Replay\<close> what happens to a request that is sent again; \<open>Service_Properties\<close>
    the properties of every run.
  \<^item> \<open>Batcher\<close>, \<open>Queue_Properties\<close>: \<^verbatim>\<open>batcher.go\<close> with
    its queue, workers and shutdown. \<open>commit_batch\<close> is the function
    \<^verbatim>\<open>commit\<close>, and \<open>commit_group\<close> and \<open>commit_one\<close> are the
    same function cut where it calls itself, so that the worker's steps can be interleaved;
    \<open>worker_commits\<close> ties them, and the history of the pool (\<open>pool_history\<close>) is
    compared with the service.
  \<^item> \<open>Seal_Encoding\<close>, \<open>Seal\<close>, \<open>Seal_Laws\<close>,
    \<open>Seal_Properties\<close>: \<^verbatim>\<open>seal.go\<close>.
  \<^item> \<open>Bulk\<close>, \<open>Bulk_Laws\<close>, \<open>Bulk_Properties\<close>:
    \<^verbatim>\<open>bulk.go\<close>.
  \<^item> \<open>Webhooks\<close>, \<open>Webhook_Properties\<close>: \<^verbatim>\<open>kernel/events\<close>.
    \<open>Idempotency\<close>, \<open>Idempotency_Properties\<close>:
    \<^verbatim>\<open>kernel/idempotency\<close>. \<open>Auth\<close>, \<open>Auth_Properties\<close>:
    \<^verbatim>\<open>kernel/auth\<close>. The retry of \<^verbatim>\<open>kernel/db/tx.go\<close> is in
    \<open>Posting\<close>, the statuses of \<^verbatim>\<open>http_errors.go\<close> are in
    \<open>Bulk\<close>.
  \<^item> \<open>Base64\<close>, \<open>Listings\<close>, \<open>Api\<close>, \<open>Resources\<close>,
    \<open>Handlers\<close>, \<open>Api_Properties\<close>: the HTTP interface of the ledger
    (\<^verbatim>\<open>api_*.go\<close>, \<^verbatim>\<open>http*.go\<close>, pages and problems of
    \<^verbatim>\<open>kernel/httpx\<close>). A handler reads ids, filters and cursors from the request, calls
    one operation of the service and renders its result.

  \<^bold>\<open>Interfaces.\<close>
  \<^item> \<open>checked_arith\<close>: addition that is exact or fails. \<open>record_arith\<close> is the
    128-bit amount of the source, \<open>int_arith\<close> the integers of the model's totals.
  \<^item> \<open>statements\<close>: a relation that holds across each SQL statement holds across each
    operation; \<open>fr\<close> says what is left alone, \<open>journal\<close> that the journal only grows.
  \<^item> \<open>pending_change\<close>: an edit of a pending transaction keeps the invariant;
    \<open>upd\<close>, \<open>part\<close>, \<open>arch\<close> are updating, posting in part and archiving.
  \<^item> \<open>committer\<close>: what the batcher needs of the function that posts a batch;
    \<open>group\<close> is the engine's.
  \<^item> \<open>cursor_list\<close>: a list over HTTP whose pages carry the cursor of the next one;
    \<open>txns\<close> is that of transactions.
  \<^item> \<open>listing\<close>: a table read a page at a time; \<open>accounts\<close>, \<open>holds\<close>,
    \<open>schedules\<close>, \<open>categories\<close>.

  \<^bold>\<open>Step relations.\<close>
  \<open>service_step\<close> (an operation of the service), \<open>work\<close> and \<open>pool_step\<close>
  (callers, queue and workers of the batcher), \<open>sealed_run\<close> (service and sealer),
  \<open>bulk_step\<close> (service, bulk workers that claim, post, record or stop anywhere),
  \<open>hook_step\<close> and \<open>hook_run\<close> (commits in any order of their numbers, dispatchers,
  senders, retention), \<open>idem_step\<close> (requests that begin, finish, panic or die under a key, pruning)
  and \<open>auth_step\<close> (logins with the caches of several processes, revocation, the passing of time).
  The invariants are proved by rule induction over them.

  \<^bold>\<open>Loops.\<close>
  A loop with a bound of its own is a total function: the drain of the batcher's queue, the pages of the chain,
  text repair, merge patches and the comparison of JSON values. A loop that waits for something else is a
  partial function whose result is \<open>None\<close> while it does not return: \<open>chunks\<close> of a bulk
  request and \<open>prune_rounds\<close>, which are proved to return, and \<open>waitForOlder\<close> of a
  closing period, which returns once the older database transactions have ended. No fuel is used.

  \<^bold>\<open>Parameters.\<close>
  SHA-256 and HMAC (\<open>sha\<close>, \<open>mac\<close>), the JSON form of a stored item, request or result
  with its decoder, the rendering of an event, the decoded body of a request,
  \<^verbatim>\<open>time.Parse\<close>, the parser of URLs with the check for public hosts
  (\<open>url_ok\<close>), the answer of an HTTP exchange, and the numbers that PostgreSQL gives to its
  transactions (\<open>xid\<close>, \<open>xmin\<close>). What the code relies on is a hypothesis where a
  property needs it: a decoder inverts its encoder, a hash without collision on the texts at hand is the
  alternative of the conclusion.

  \<^bold>\<open>What the lemmas show.\<close>
  Every reachable database passes every check of \<open>verify\<close>, its accounts agree with their entries
  and holds, and its journal only grows, while its events may be pruned. A batch is atomic where it says so, a
  request is posted once and answered the same again, a transaction is reversed once. The batcher answers every
  request exactly once, with what the service did for it, and stops; a bulk request posts each item at most once
  under any takeover, and an outcome that is recorded never changes; the seals cover the journal in the order of
  commit, and two clean reports with the same head are about the same journal; events are dispatched once and in
  order; one request at a time runs under an idempotency key; an accepted token is that of a key that was not
  revoked more than ten seconds before the call that accepts it began. The balances of a category, over any
  range, are sums over its accounts. Amounts, ids and signatures have their texts characterised exactly. Over
  HTTP, following the cursors of a list reads every matching row once, the id of a resource addresses it, and
  the status of a batch tells what became of it. One defect is proved, in \<open>amount_add_escapes\<close>: the
  sum \<open>-2\<^sup>1\<^sup>2\<^sup>7\<close> of two valid amounts passes the overflow check, because its
  absolute value wraps to itself.

  \<^bold>\<open>Not modelled.\<close>
  The handlers of webhooks and keys, the routes, the JSON text of bodies and responses, configuration, logging,
  the start of the process and its timers, migrations and connections, the embedded web pages and the load
  generator: they call libraries around the operations above. The rate limiter counts in 64-bit floating point
  numbers. A lost connection in the middle of a database transaction is its rollback; an error of the database
  outside of one, the list of currencies in the collation of the database, the waiting time of a retry and the
  text of a log line are left out.
\<close>

end
